(* ===== verification/Prelude.thy ===== *)
theory Prelude
  imports Main "HOL-Library.AList" "HOL-Library.List_Lexorder" "HOL-Library.Char_ord"
begin

text \<open>
  Shared vocabulary of the development: Go maps that are ranged over (association lists with
  distinct keys, read with \<open>map_of\<close>, written with \<open>AList.update\<close> and \<open>AList.delete\<close>), sorted
  key lists, the small part of \<open>strings\<close>, \<open>strconv\<close> and \<open>fmt\<close> the modelled code calls, the time
  scale, and the lemma collections the component theories use.
\<close>

named_theorems frame_simps
  \<open>what an operation leaves unchanged\<close>
named_theorems inv_intros
  \<open>preservation lemmas of the component invariants\<close>

subsection \<open>Maps\<close>

type_synonym 'v smap = "(string \<times> 'v) list"

abbreviation put :: "string \<Rightarrow> 'v \<Rightarrow> 'v smap \<Rightarrow> 'v smap" where
  "put \<equiv> AList.update"

abbreviation del :: "string \<Rightarrow> 'v smap \<Rightarrow> 'v smap" where
  "del \<equiv> AList.delete"

abbreviation keys :: "'v smap \<Rightarrow> string set" where
  "keys m \<equiv> dom (map_of m)"

text \<open>The zero value a Go map read yields for an absent key.\<close>

definition get_or :: "'v \<Rightarrow> 'v smap \<Rightarrow> string \<Rightarrow> 'v" where
  "get_or z m k = (case map_of m k of None \<Rightarrow> z | Some v \<Rightarrow> v)"

definition sorted_keys :: "'v smap \<Rightarrow> string list" where
  "sorted_keys m = sort (remdups (map fst m))"

definition str_set :: "string list \<Rightarrow> string list" where
  "str_set xs = sort (remdups xs)"

lemma map_of_put [simp]: "map_of (put k v m) = (map_of m)(k \<mapsto> v)"
  by (rule update_conv')

lemma map_of_del [simp]: "map_of (del k m) = (map_of m)(k := None)"
  by (rule delete_conv')

lemma set_sorted_keys [simp]: "set (sorted_keys m) = fst ` set m"
  by (simp add: sorted_keys_def)

lemma sorted_keys_dom: "set (sorted_keys m) = keys m"
  by (simp add: dom_map_of_conv_image_fst)

lemma distinct_sorted_keys [simp]: "distinct (sorted_keys m)"
  by (simp add: sorted_keys_def)

lemma sorted_sorted_keys [simp]: "sorted (sorted_keys m)"
  by (simp add: sorted_keys_def)

lemma get_or_put [simp]: "get_or z (put k v m) = (get_or z m)(k := v)"
  by (auto simp: get_or_def fun_eq_iff)

lemma get_or_del [simp]: "get_or z (del k m) = (get_or z m)(k := z)"
  by (auto simp: get_or_def fun_eq_iff)

lemma get_or_Nil [simp]: "get_or z [] = (\<lambda>_. z)"
  by (simp add: get_or_def fun_eq_iff)

subsection \<open>Strings\<close>

text \<open>\<open>strconv.Itoa\<close>: the decimal rendering.\<close>

fun show_nat :: "nat \<Rightarrow> string" where
  "show_nat n = (if n < 10 then [char_of (48 + n)]
                 else show_nat (n div 10) @ [char_of (48 + n mod 10)])"

declare show_nat.simps [simp del]

definition itoa :: "int \<Rightarrow> string" where
  "itoa i = (if i < 0 then ''-'' @ show_nat (nat (- i)) else show_nat (nat i))"

definition is_digit :: "char \<Rightarrow> bool" where
  "is_digit c \<longleftrightarrow> 48 \<le> (of_char c :: nat) \<and> (of_char c :: nat) \<le> 57"

fun read_nat :: "nat \<Rightarrow> string \<Rightarrow> nat option" where
  "read_nat acc [] = Some acc"
| "read_nat acc (c # cs) =
     (if is_digit c then read_nat (10 * acc + (of_char c - 48)) cs else None)"

text \<open>\<open>strconv.Atoi\<close>: an optional sign, then at least one digit, in the range of \<open>int\<close>.\<close>

definition max_int64 :: int where "max_int64 = 9223372036854775807"

definition atoi :: "string \<Rightarrow> int option" where
  "atoi s =
     (let (neg, ds) = (case s of [] \<Rightarrow> (False, [])
                       | c # cs \<Rightarrow> if c = CHR ''-'' then (True, cs)
                                   else if c = CHR ''+'' then (False, cs) else (False, s))
      in if ds = [] then None
         else case read_nat 0 ds of
                None \<Rightarrow> None
              | Some n \<Rightarrow>
                  if neg then (if int n \<le> max_int64 + 1 then Some (- int n) else None)
                  else (if int n \<le> max_int64 then Some (int n) else None))"

text \<open>Printing a decimal and reading it back.\<close>

lemma digit_char: "n < 10 \<Longrightarrow> is_digit (char_of (48 + n)) \<and> of_char (char_of (48 + n)) - 48 = (n::nat)"
  for n :: nat
  by (simp add: is_digit_def)

lemma read_nat_append:
  "read_nat acc (s @ t) = (case read_nat acc s of None \<Rightarrow> None | Some k \<Rightarrow> read_nat k t)"
  by (induction acc s rule: read_nat.induct) auto

lemma read_show_nat: "read_nat 0 (show_nat n) = Some n"
proof (induction n rule: show_nat.induct)
  case (1 n)
  show ?case
  proof (cases "n < 10")
    case True
    then show ?thesis by (subst show_nat.simps) (simp add: digit_char [simplified])
  next
    case False
    with 1 have "read_nat 0 (show_nat (n div 10)) = Some (n div 10)" by simp
    with False digit_char [of "n mod 10"] show ?thesis
      by (subst show_nat.simps) (simp add: read_nat_append)
  qed
qed

lemma show_nat_digits: "c \<in> set (show_nat n) \<Longrightarrow> is_digit c"
proof (induction n rule: show_nat.induct)
  case (1 n)
  then show ?case
    by (subst (asm) (2) show_nat.simps) (auto simp: digit_char [simplified] split: if_splits)
qed

lemma show_nat_not_Nil [simp]: "show_nat n \<noteq> []"
  by (subst show_nat.simps) simp

lemma itoa_chars: "c \<in> set (itoa i) \<Longrightarrow> is_digit c \<or> c = CHR ''-''"
  by (auto simp: itoa_def dest: show_nat_digits split: if_splits)

lemma atoi_itoa:
  assumes "0 \<le> i" and "i \<le> max_int64"
  shows "atoi (itoa i) = Some i"
proof -
  let ?s = "show_nat (nat i)"
  have "hd ?s \<in> set ?s" by simp
  then have "is_digit (hd ?s)" by (rule show_nat_digits)
  then have "hd ?s \<noteq> CHR ''-''" "hd ?s \<noteq> CHR ''+''" by (auto simp: is_digit_def)
  moreover obtain c cs where s: "?s = c # cs" by (cases ?s) auto
  moreover have "read_nat 0 (c # cs) = Some (nat i)"
    using read_show_nat [of "nat i"] s by simp
  ultimately show ?thesis
    using assms by (simp add: itoa_def atoi_def del: read_nat.simps)
qed

lemma itoa_not_Nil [simp]: "itoa i \<noteq> []"
  by (simp add: itoa_def)

text \<open>\<open>strings.Split(s, sep)\<close> for a one-byte separator, and \<open>strings.Join\<close>.\<close>

fun split_on :: "char \<Rightarrow> string \<Rightarrow> string list" where
  "split_on c [] = [[]]"
| "split_on c (x # xs) =
     (if x = c then [] # split_on c xs
      else case split_on c xs of [] \<Rightarrow> [[x]] | y # ys \<Rightarrow> (x # y) # ys)"

fun join :: "string \<Rightarrow> string list \<Rightarrow> string" where
  "join sep [] = []"
| "join sep [x] = x"
| "join sep (x # y # ys) = x @ sep @ join sep (y # ys)"

definition has_prefix :: "string \<Rightarrow> string \<Rightarrow> bool" where
  "has_prefix p s \<longleftrightarrow> take (length p) s = p"

definition trim_prefix :: "string \<Rightarrow> string \<Rightarrow> string" where
  "trim_prefix p s = (if has_prefix p s then drop (length p) s else s)"

fun contains_str :: "string \<Rightarrow> string \<Rightarrow> bool" where
  "contains_str p [] = (p = [])"
| "contains_str p (x # xs) = (has_prefix p (x # xs) \<or> contains_str p xs)"

text \<open>The text \<open>%q\<close> prints for the ids and words the messages quote (bytes that need no
  escape, which is what the id grammar admits; a quote or backslash is escaped).\<close>

definition quote_str :: "string \<Rightarrow> string" where
  "quote_str s = CHR 0x22 # concat (map (\<lambda>c. if c = CHR 0x22 then [CHR 0x5C, CHR 0x22]
                     else if c = CHR 0x5C then [CHR 0x5C, CHR 0x5C] else [c]) s) @ [CHR 0x22]"

lemma split_on_not_Nil [simp]: "split_on c s \<noteq> []"
  by (induction s) (auto split: list.splits)

lemma join_split_on: "join [c] (split_on c s) = s"
proof (induction s)
  case Nil
  then show ?case by simp
next
  case (Cons x xs)
  then show ?case by (cases "split_on c xs"; cases "tl (split_on c xs)") auto
qed

lemma has_prefix_append [simp]: "has_prefix p (p @ s)"
  by (simp add: has_prefix_def)

lemma trim_prefix_append [simp]: "trim_prefix p (p @ s) = s"
  by (simp add: trim_prefix_def)

subsection \<open>Time\<close>

text \<open>
  A \<open>time.Time\<close> is a count of nanoseconds since the zero time (year 1), so \<open>IsZero\<close> is equality
  with \<open>0\<close>, \<open>After\<close> and \<open>Before\<close> are the order and \<open>Add\<close> is addition; \<open>time.Unix\<close> shifts
  by the offset of 1970.
\<close>

type_synonym time = int
type_synonym duration = int

definition second :: duration where "second = 1000000000"

definition unix_time :: "int \<Rightarrow> time" where
  "unix_time s = (s + 62135596800) * second"

subsection \<open>Filters over maps\<close>

lemma find_SomeD: "find P xs = Some x \<Longrightarrow> x \<in> set xs \<and> P x"
  by (induction xs) (auto split: if_splits)

lemma distinct_keys_put [simp]:
  "distinct (map fst m) \<Longrightarrow> distinct (map fst (put k v m))"
  by (rule distinct_update)

lemma distinct_keys_del [simp]:
  "distinct (map fst m) \<Longrightarrow> distinct (map fst (del k m))"
  by (simp add: distinct_delete)

lemma length_card_keys:
  "distinct (map fst m) \<Longrightarrow> length m = card (keys m)"
  by (metis distinct_card dom_map_of_conv_image_fst length_map list.set_map)

lemma finite_keys [simp]: "finite (keys m)"
  by (rule finite_dom_map_of)

end
