(* ===== verification/GoValues.thy ===== *)
theory GoValues
  imports Prelude
begin

text \<open>
  The dynamic values (\<open>any\<close>) that flow through bindings, payloads and input hashes, their JSON
  encoding as \<open>encoding/json\<close> writes it, and the string renderings the pipeline and the hook
  runner use. Strings are byte strings. A \<open>float64\<close> is carried as its exact value; its shortest
  decimal renderings are parameters, since they belong to \<open>strconv\<close>'s float printer.
\<close>

datatype f64 = Fin int int \<comment> \<open>mantissa, binary exponent\<close> | NaN | PInf | NInf

datatype goval =
    VNull
  | VBool bool
  | VInt int
  | VFloat f64
  | VNumber string  \<comment> \<open>\<open>json.Number\<close>: the text as written\<close>
  | VStr string
  | VList "goval list"
  | VMap "(string \<times> goval) list"
  | VAnyMap "(goval \<times> goval) list"  \<comment> \<open>\<open>map[any]any\<close>: a YAML map with a key that is no string\<close>
  | VRaw string     \<comment> \<open>\<open>json.RawMessage\<close>: undecoded bytes\<close>

subsection \<open>JSON strings\<close>

definition byte :: "char \<Rightarrow> nat" where
  "byte c = of_char c"

definition hex_digit :: "nat \<Rightarrow> char" where
  "hex_digit n = (if n < 10 then char_of (48 + n) else char_of (87 + n))"

definition is_cont :: "char \<Rightarrow> bool" where
  "is_cont c \<longleftrightarrow> 128 \<le> byte c \<and> byte c < 192"

text \<open>The length of the valid UTF-8 sequence a string starts with (\<open>utf8.DecodeRune\<close>), if any.\<close>

fun utf8_len :: "string \<Rightarrow> nat option" where
  "utf8_len [] = None"
| "utf8_len (c # cs) =
     (let b = byte c; second = (\<lambda>lo hi. case cs of [] \<Rightarrow> False | d # _ \<Rightarrow> lo \<le> byte d \<and> byte d \<le> hi);
          cont = (\<lambda>i. i < length cs \<and> is_cont (cs ! i))
      in if b < 128 then Some 1
         else if 194 \<le> b \<and> b \<le> 223 then (if cont 0 then Some 2 else None)
         else if 224 \<le> b \<and> b \<le> 239 then
           (if second (if b = 224 then 160 else 128) (if b = 237 then 159 else 191) \<and> cont 1
            then Some 3 else None)
         else if 240 \<le> b \<and> b \<le> 244 then
           (if second (if b = 240 then 144 else 128) (if b = 244 then 143 else 191) \<and> cont 1 \<and> cont 2
            then Some 4 else None)
         else None)"

definition esc_ascii :: "bool \<Rightarrow> char \<Rightarrow> string" where
  "esc_ascii html c =
     (if c = CHR 0x22 \<or> c = CHR 0x5C then [CHR 0x5C, c]
      else if byte c = 8 then [CHR 0x5C, CHR ''b'']
      else if byte c = 9 then [CHR 0x5C, CHR ''t'']
      else if byte c = 10 then [CHR 0x5C, CHR ''n'']
      else if byte c = 12 then [CHR 0x5C, CHR ''f'']
      else if byte c = 13 then [CHR 0x5C, CHR ''r'']
      else if byte c < 32 \<or> html \<and> (c = CHR ''<'' \<or> c = CHR ''>'' \<or> c = CHR ''&'')
        then [CHR 0x5C, CHR ''u'', CHR ''0'', CHR ''0'', hex_digit (byte c div 16), hex_digit (byte c mod 16)]
      else [c])"

function esc_body :: "bool \<Rightarrow> string \<Rightarrow> string" where
  "esc_body html [] = []"
| "esc_body html (c # cs) =
     (if byte c < 128 then esc_ascii html c @ esc_body html cs
      else case utf8_len (c # cs) of
             None \<Rightarrow> CHR 0x5C # ''ufffd'' @ esc_body html cs
           | Some k \<Rightarrow>
               (let s = take k (c # cs) in
                (if map byte s = [226, 128, 168] then CHR 0x5C # ''u2028''
                 else if map byte s = [226, 128, 169] then CHR 0x5C # ''u2029'' else s)
                @ esc_body html (drop (k - 1) cs)))"
  by pat_completeness auto
termination
  by (relation "measure (\<lambda>(h, s). length s)") auto

definition json_string :: "bool \<Rightarrow> string \<Rightarrow> string" where
  "json_string html s = CHR 0x22 # esc_body html s @ [CHR 0x22]"

subsection \<open>Encoding a value\<close>

text \<open>
  \<open>json.Marshal\<close> of a dynamic value (object keys sorted; a \<open>RawMessage\<close> is copied as it is, which
  is what the encoder's compaction does to compact text). A float that is not finite has no
  encoding.
\<close>

definition assoc_get :: "(string \<times> goval) list \<Rightarrow> string \<Rightarrow> goval" where
  "assoc_get m k = (case map_of m k of None \<Rightarrow> VNull | Some v \<Rightarrow> v)"

lemma size_assoc_get [termination_simp]:
  "k \<in> fst ` set m \<Longrightarrow> size (assoc_get m k) \<le> size_list (size_prod (\<lambda>x. 0) size) m"
proof (induction m)
  case (Cons p m)
  obtain a b where p: "p = (a, b)" by (cases p)
  show ?case
  proof (cases "k = a")
    case True
    then show ?thesis by (simp add: assoc_get_def p)
  next
    case False
    with Cons.prems p have "k \<in> fst ` set m" by auto
    from Cons.IH [OF this] False show ?thesis by (simp add: assoc_get_def p)
  qed
qed simp

fun enc_all :: "('a \<Rightarrow> string option) \<Rightarrow> 'a list \<Rightarrow> string list option" where
  "enc_all f [] = Some []"
| "enc_all f (x # xs) = (case f x of None \<Rightarrow> None | Some s \<Rightarrow> map_option ((#) s) (enc_all f xs))"

lemma enc_all_cong [fundef_cong]:
  "xs = ys \<Longrightarrow> (\<And>x. x \<in> set ys \<Longrightarrow> f x = g x) \<Longrightarrow> enc_all f xs = enc_all g ys"
  by (induction xs arbitrary: ys) (auto split: option.splits)

definition json_float :: "(f64 \<Rightarrow> string) \<Rightarrow> f64 \<Rightarrow> string option" where
  "json_float ff x = (case x of Fin m e \<Rightarrow> Some (ff x) | _ \<Rightarrow> None)"

function (sequential) json_marshal :: "bool \<Rightarrow> (f64 \<Rightarrow> string) \<Rightarrow> goval \<Rightarrow> string option" where
  "json_marshal html ff VNull = Some ''null''"
| "json_marshal html ff (VBool b) = Some (if b then ''true'' else ''false'')"
| "json_marshal html ff (VInt i) = Some (itoa i)"
| "json_marshal html ff (VFloat x) = json_float ff x"
| "json_marshal html ff (VNumber t) = Some t"
| "json_marshal html ff (VStr s) = Some (json_string html s)"
| "json_marshal html ff (VList vs) =
     map_option (\<lambda>ss. ''['' @ join '','' ss @ '']'') (enc_all (json_marshal html ff) vs)"
| "json_marshal html ff (VMap m) =
     map_option (\<lambda>ss. ''{'' @ join '','' ss @ ''}'')
       (enc_all (\<lambda>k. map_option (\<lambda>s. json_string html k @ '':'' @ s)
                        (json_marshal html ff (assoc_get m k))) (sorted_keys m))"
| "json_marshal html ff (VAnyMap m) = None"
| "json_marshal html ff (VRaw t) = Some t"
  by pat_completeness auto
termination
proof (relation "measure (\<lambda>(h, f, v). size v)", goal_cases)
  case (2 html ff vs x)
  then show ?case by (auto dest: size_list_estimation' [of x vs "size x" size, OF _ order_refl])
next
  case (3 html ff m k)
  then show ?case using size_assoc_get [of k m] by auto
qed auto

text \<open>
  \<open>scalarString\<close>: a resolved value as a command argument or box variable, scalars verbatim and
  compounds as JSON. \<open>ff\<close> renders a float with verb \<open>f\<close>, \<open>fj\<close> as JSON does.
\<close>

definition scalar_string :: "(f64 \<Rightarrow> string) \<Rightarrow> (f64 \<Rightarrow> string) \<Rightarrow> goval \<Rightarrow> string + string" where
  "scalar_string ff fj v =
     (case v of
        VNull \<Rightarrow> Inr []
      | VStr s \<Rightarrow> Inr s
      | VBool b \<Rightarrow> Inr (if b then ''true'' else ''false'')
      | VInt i \<Rightarrow> Inr (itoa i)
      | VFloat x \<Rightarrow> Inr (ff x)
      | VNumber t \<Rightarrow> Inr t
      | _ \<Rightarrow> (case json_marshal True fj v of
                None \<Rightarrow> Inl ''render value: json: unsupported value''
              | Some s \<Rightarrow> Inr s))"

end
