(* ===== verification/Json.thy ===== *)
theory Json
  imports GoValues
begin

text \<open>
  Reading JSON as \<open>encoding/json\<close> does: the strict grammar, string escapes (a lone surrogate or an
  invalid UTF-8 byte becomes U+FFFD), numbers kept as their text. Recursion is bounded by a fuel
  that \<open>json_parse\<close> sets to the length of the input, which every nested call shortens.
\<close>

definition is_ws :: "char \<Rightarrow> bool" where
  "is_ws c \<longleftrightarrow> byte c = 32 \<or> byte c = 9 \<or> byte c = 10 \<or> byte c = 13"

abbreviation skip_ws :: "string \<Rightarrow> string" where
  "skip_ws \<equiv> dropWhile is_ws"

subsection \<open>Strings\<close>

definition hex_val :: "char \<Rightarrow> nat option" where
  "hex_val c = (let b = byte c in
     if 48 \<le> b \<and> b \<le> 57 then Some (b - 48)
     else if 97 \<le> b \<and> b \<le> 102 then Some (b - 87)
     else if 65 \<le> b \<and> b \<le> 70 then Some (b - 55) else None)"

definition hex4 :: "string \<Rightarrow> nat option" where
  "hex4 s = (case s of a # b # c # d # _ \<Rightarrow>
       (case (hex_val a, hex_val b, hex_val c, hex_val d) of
          (Some w, Some x, Some y, Some z) \<Rightarrow> Some (((w * 16 + x) * 16 + y) * 16 + z)
        | _ \<Rightarrow> None)
     | _ \<Rightarrow> None)"

definition utf8_encode :: "nat \<Rightarrow> string" where
  "utf8_encode n = map char_of
     (if n < 128 then [n]
      else if n < 2048 then [192 + n div 64, 128 + n mod 64]
      else if n < 65536 then [224 + n div 4096, 128 + n div 64 mod 64, 128 + n mod 64]
      else [240 + n div 262144, 128 + n div 4096 mod 64, 128 + n div 64 mod 64, 128 + n mod 64])"

definition replacement :: string where
  "replacement = map char_of [239, 191, 189 :: nat]"

definition surrogate :: "nat \<Rightarrow> bool" where
  "surrogate n \<longleftrightarrow> 55296 \<le> n \<and> n < 57344"

definition unescape1 :: "char \<Rightarrow> string option" where
  "unescape1 c =
     (if c = CHR 0x22 \<or> c = CHR 0x5C \<or> c = CHR ''/'' then Some [c]
      else if c = CHR ''b'' then Some [char_of (8::nat)]
      else if c = CHR ''f'' then Some [char_of (12::nat)]
      else if c = CHR ''n'' then Some [char_of (10::nat)]
      else if c = CHR ''r'' then Some [char_of (13::nat)]
      else if c = CHR ''t'' then Some [char_of (9::nat)]
      else None)"

text \<open>The characters up to the closing quote, and what follows it.\<close>

function json_chars :: "string \<Rightarrow> (string \<times> string) option" where
  "json_chars s =
     (case s of
        [] \<Rightarrow> None
      | c # cs \<Rightarrow>
          if c = CHR 0x22 then Some ([], cs)
          else if c = CHR 0x5C then
            (case cs of
               [] \<Rightarrow> None
             | e # es \<Rightarrow>
                 if e = CHR ''u'' then
                   (case hex4 es of
                      None \<Rightarrow> None
                    | Some n \<Rightarrow>
                        let rest = drop 4 es in
                        if \<not> surrogate n then
                          map_option (apfst ((@) (utf8_encode n))) (json_chars rest)
                        else
                          (case (take 2 rest = [CHR 0x5C, CHR ''u''], hex4 (drop 2 rest)) of
                             (True, Some m) \<Rightarrow>
                               if n < 56320 \<and> 56320 \<le> m \<and> m < 57344 then
                                 map_option (apfst ((@) (utf8_encode (65536 + (n - 55296) * 1024 + (m - 56320)))))
                                   (json_chars (drop 6 rest))
                               else map_option (apfst ((@) replacement)) (json_chars rest)
                           | _ \<Rightarrow> map_option (apfst ((@) replacement)) (json_chars rest)))
                 else
                   (case unescape1 e of
                      None \<Rightarrow> None
                    | Some d \<Rightarrow> map_option (apfst ((@) d)) (json_chars es)))
          else if byte c < 32 then None
          else (case utf8_len s of
                  None \<Rightarrow> map_option (apfst ((@) replacement)) (json_chars cs)
                | Some k \<Rightarrow> map_option (apfst ((@) (take k s))) (json_chars (drop (k - 1) cs))))"
  by pat_completeness auto
termination
  by (relation "measure length") auto

declare json_chars.simps [simp del]

subsection \<open>Numbers and values\<close>

definition digits1 :: "string \<Rightarrow> (string \<times> string) option" where
  "digits1 s = (case takeWhile is_digit s of [] \<Rightarrow> None | d \<Rightarrow> Some (d, dropWhile is_digit s))"

definition json_int_part :: "string \<Rightarrow> (string \<times> string) option" where
  "json_int_part s =
     (case s of
        [] \<Rightarrow> None
      | c # cs \<Rightarrow> if c = CHR ''0'' then Some ([c], cs) else digits1 s)"

definition json_frac_part :: "string \<Rightarrow> (string \<times> string) option" where
  "json_frac_part s =
     (case s of
        [] \<Rightarrow> Some ([], s)
      | c # cs \<Rightarrow> if c = CHR ''.'' then map_option (apfst ((#) c)) (digits1 cs) else Some ([], s))"

definition json_exp_part :: "string \<Rightarrow> (string \<times> string) option" where
  "json_exp_part s =
     (case s of
        [] \<Rightarrow> Some ([], s)
      | c # cs \<Rightarrow>
          if c = CHR ''e'' \<or> c = CHR ''E'' then
            (case cs of
               [] \<Rightarrow> None
             | d # ds \<Rightarrow>
                 if d = CHR ''+'' \<or> d = CHR ''-'' then map_option (apfst (\<lambda>t. c # d # t)) (digits1 ds)
                 else map_option (apfst ((#) c)) (digits1 cs))
          else Some ([], s))"

definition json_number :: "string \<Rightarrow> (string \<times> string) option" where
  "json_number s =
     (let (sign, s1) = (case s of [] \<Rightarrow> ([], s) | c # cs \<Rightarrow> if c = CHR ''-'' then ([c], cs) else ([], s))
      in case json_int_part s1 of
           None \<Rightarrow> None
         | Some (i, s2) \<Rightarrow>
             (case json_frac_part s2 of
                None \<Rightarrow> None
              | Some (f, s3) \<Rightarrow> map_option (apfst (\<lambda>e. sign @ i @ f @ e)) (json_exp_part s3)))"

definition strip :: "string \<Rightarrow> string \<Rightarrow> string option" where
  "strip p s = (if has_prefix p s then Some (drop (length p) s) else None)"

fun json_value :: "nat \<Rightarrow> string \<Rightarrow> (goval \<times> string) option"
  and json_elems :: "nat \<Rightarrow> goval list \<Rightarrow> string \<Rightarrow> (goval \<times> string) option"
  and json_members :: "nat \<Rightarrow> goval smap \<Rightarrow> string \<Rightarrow> (goval \<times> string) option" where
  "json_value 0 s = None"
| "json_value (Suc n) s =
     (case skip_ws s of
        [] \<Rightarrow> None
      | c # cs \<Rightarrow>
          if c = CHR ''{'' then
            (case skip_ws cs of
               [] \<Rightarrow> None
             | d # ds \<Rightarrow> if d = CHR ''}'' then Some (VMap [], ds) else json_members n [] (d # ds))
          else if c = CHR ''['' then
            (case skip_ws cs of
               [] \<Rightarrow> None
             | d # ds \<Rightarrow> if d = CHR '']'' then Some (VList [], ds) else json_elems n [] (d # ds))
          else if c = CHR 0x22 then map_option (apfst VStr) (json_chars cs)
          else if c = CHR ''n'' then map_option (Pair VNull) (strip ''ull'' cs)
          else if c = CHR ''t'' then map_option (Pair (VBool True)) (strip ''rue'' cs)
          else if c = CHR ''f'' then map_option (Pair (VBool False)) (strip ''alse'' cs)
          else map_option (apfst VNumber) (json_number (c # cs)))"
| "json_elems 0 acc s = None"
| "json_elems (Suc n) acc s =
     (case json_value n s of
        None \<Rightarrow> None
      | Some (v, r) \<Rightarrow>
          (case skip_ws r of
             [] \<Rightarrow> None
           | d # ds \<Rightarrow> if d = CHR '']'' then Some (VList (acc @ [v]), ds)
                       else if d = CHR '','' then json_elems n (acc @ [v]) ds else None))"
| "json_members 0 acc s = None"
| "json_members (Suc n) acc s =
     (case skip_ws s of
        [] \<Rightarrow> None
      | q # qs \<Rightarrow>
          if q \<noteq> CHR 0x22 then None
          else (case json_chars qs of
             None \<Rightarrow> None
           | Some (k, r) \<Rightarrow>
               (case skip_ws r of
                  [] \<Rightarrow> None
                | col # r2 \<Rightarrow>
                    if col \<noteq> CHR '':'' then None
                    else (case json_value n r2 of
                       None \<Rightarrow> None
                     | Some (v, r3) \<Rightarrow>
                         (case skip_ws r3 of
                            [] \<Rightarrow> None
                          | d # ds \<Rightarrow>
                              if d = CHR ''}'' then Some (VMap (put k v acc), ds)
                              else if d = CHR '','' then json_members n (put k v acc) ds
                              else None)))))"

definition json_parse :: "string \<Rightarrow> goval option" where
  "json_parse s =
     (case json_value (Suc (2 * length s)) s of
        None \<Rightarrow> None
      | Some (v, r) \<Rightarrow> if skip_ws r = [] then Some v else None)"

subsection \<open>Reading struct fields\<close>

text \<open>\<open>json.Unmarshal\<close> into a struct matches an object key to a field whatever its case; the last
  match wins, and \<open>null\<close> leaves the field as it was.\<close>

definition to_lower :: "string \<Rightarrow> string" where
  "to_lower = map (\<lambda>c. if 65 \<le> byte c \<and> byte c \<le> 90 then char_of (byte c + 32) else c)"

definition json_field :: "string \<Rightarrow> goval smap \<Rightarrow> goval option" where
  "json_field name m =
     (case rev (filter (\<lambda>p. to_lower (fst p) = name) m) of [] \<Rightarrow> None | p # _ \<Rightarrow> Some (snd p))"

text \<open>An integer field: the number's text must be an integer literal in the range of \<open>int64\<close>.\<close>

definition json_int :: "string \<Rightarrow> int option" where
  "json_int t = (case t of
       [] \<Rightarrow> None
     | c # cs \<Rightarrow> if c = CHR ''+'' then None else atoi t)"

end
