(* ===== verification/IRModel.thy ===== *)
theory IRModel
  imports GoValues
begin

text \<open>
  The engine's backend contract (\<open>config/ir.go\<close>): the graph of nodes and edges the executor is
  handed, the iteration segments of node ids, and the reference grammar of bindings
  (\<open>config/refs.go\<close>). Pointers that may be nil are options; an \<open>IR\<close> and its nodes are one mutual
  datatype because a sub-workflow node carries its own graph.
\<close>

subsection \<open>Templates\<close>

record pin_def =
  pin_rev :: string
  pin_sha256 :: string

record resource_def =
  res_memory :: string
  res_cpus :: f64

record hook_set =
  hk_context :: string
  hk_prelude :: string
  hk_postlude :: string
  hk_on_failure :: string

record param_def =
  pd_type :: string
  pd_required :: bool
  pd_default :: "goval option"
  pd_enum :: "string list"

record resolved_invoke =
  ri_subcommand :: "string list"
  ri_prompt_flag :: string
  ri_skill_mode :: string
  ri_skill_flag :: string
  ri_prompt_template :: string
  ri_fixed_flags :: "string list"
  ri_model_flag :: string
  ri_effort_flag :: string
  ri_budget_flag :: string
  ri_session_dir :: string
  ri_resume_argv :: "string list"

record skill_source =
  ss_name :: string
  ss_dir :: string

record resolved_skills =
  rs_sources :: "skill_source list"
  rs_root :: string
  rs_primary :: string
  rs_link :: string

record template =
  t_name :: string
  t_packages :: "string list"
  t_overlay :: string
  t_pin :: "pin_def option"
  t_identity :: string
  t_lane :: string
  t_resources :: resource_def
  t_runtime :: string
  t_env :: "string smap"
  t_volumes :: "string smap"
  t_skill :: string
  t_model :: string
  t_effort :: string
  t_invoke :: "resolved_invoke option"
  t_agent_optional :: bool
  t_hooks :: hook_set
  t_skills :: "resolved_skills option"
  t_inputs :: "param_def smap"
  t_output :: "param_def smap"

subsection \<open>Nodes, edges, graphs\<close>

record edge =
  e_from :: string
  e_from_port :: string
  e_to :: string
  e_to_port :: string

definition is_ordering :: "edge \<Rightarrow> bool" where
  "is_ordering e \<longleftrightarrow> e_from_port e = [] \<and> e_to_port e = []"

record cond_spec =
  c_cel :: string
  c_deps :: "string list"

record binding_desc =
  b_kind :: string
  b_value :: goval
  b_type :: string
  b_name :: string
  b_field :: string

record gen_spec =
  gs_source :: string
  gs_command :: string
  gs_args :: "string list"
  gs_workflow :: string
  gs_bindings :: "binding_desc smap"
  gs_max_parallel :: int

record sel_spec =
  sel_step :: string
  sel_candidates :: "string list"
  sel_exhausted :: "cond_spec option"

record loop_spec =
  l_id :: string
  l_max :: int
  l_command :: string
  l_args :: "string list"

datatype ir =
  IR (ir_version: int) (ir_workflow: string) (ir_nodes: "node list") (ir_edges: "edge list")
     (ir_lanes: "int smap") (ir_loops: "loop_spec list")
and node =
  Node (n_id: string) (n_kind: string) (n_template: "template option") (n_sub: "ir option")
       (n_gen: "gen_spec option") (n_sel: "sel_spec option") (n_bindings: "binding_desc smap")
       (n_when: "cond_spec option") (n_retry: int) (n_on_failure: string) (n_tools: "string list")

abbreviation KindAgent :: string where "KindAgent \<equiv> ''agent''"
abbreviation KindSubWorkflow :: string where "KindSubWorkflow \<equiv> ''sub-workflow''"
abbreviation KindGenerate :: string where "KindGenerate \<equiv> ''generate''"
abbreviation KindSelector :: string where "KindSelector \<equiv> ''selector''"
abbreviation BindLiteral :: string where "BindLiteral \<equiv> ''literal''"
abbreviation BindParam :: string where "BindParam \<equiv> ''param''"
abbreviation BindItem :: string where "BindItem \<equiv> ''item''"

text \<open>A nested graph is smaller than the node that carries it and than that node's graph.\<close>

lemma n_sub_size: "n_sub n = Some h \<Longrightarrow> size h < size n"
  by (cases n) auto

lemma ir_nodes_size: "n \<in> set (ir_nodes g) \<Longrightarrow> size n < size g"
  by (cases g) (auto dest: size_list_estimation' [of n _ "size n" size, OF _ order_refl])

lemma sub_size [termination_simp]:
  "n \<in> set (ir_nodes g) \<Longrightarrow> n_sub n = Some h \<Longrightarrow> size h < size g"
  using n_sub_size ir_nodes_size less_trans by blast

subsection \<open>Iteration segments of node ids\<close>

fun split_last :: "char \<Rightarrow> string \<Rightarrow> (string \<times> string) option" where
  "split_last c [] = None"
| "split_last c (x # xs) =
     (case split_last c xs of
        Some (a, b) \<Rightarrow> Some (x # a, b)
      | None \<Rightarrow> if x = c then Some ([], xs) else None)"

definition iteration_of :: "string \<Rightarrow> (string \<times> int) option" where
  "iteration_of seg =
     (case split_last CHR ''@'' seg of
        None \<Rightarrow> None
      | Some (name, idx) \<Rightarrow>
          if name = [] \<or> idx = [] then None
          else case atoi idx of
                 None \<Rightarrow> None
               | Some n \<Rightarrow> if n < 1 then None else Some (name, n))"

fun note_segs :: "string list \<Rightarrow> string list \<Rightarrow> int smap \<Rightarrow> int smap" where
  "note_segs done [] out = out"
| "note_segs done (seg # segs) out =
     note_segs (done @ [seg]) segs
       (case iteration_of seg of
          None \<Rightarrow> out
        | Some (name, i) \<Rightarrow>
            (let loop = join ''/'' (done @ [name])
             in if get_or 0 out loop < i then put loop i out else out))"

definition note_loop_bounds :: "string \<Rightarrow> int smap \<Rightarrow> int smap" where
  "note_loop_bounds nid out = note_segs [] (split_on CHR ''/'' nid) out"

text \<open>Every node id of a graph, nested graphs included, in the walk order of the source.\<close>

function deep_ids :: "ir \<Rightarrow> string list" where
  "deep_ids g = concat (map (\<lambda>n. n_id n # (case n_sub n of None \<Rightarrow> [] | Some h \<Rightarrow> deep_ids h))
                   (ir_nodes g))"
  by pat_completeness auto
termination by (relation "measure size") (auto simp: termination_simp)

declare deep_ids.simps [simp del]

definition loop_bounds :: "ir \<Rightarrow> int smap" where
  "loop_bounds g = fold note_loop_bounds (deep_ids g) []"

lemma split_last_None: "split_last c s = None \<longleftrightarrow> c \<notin> set s"
  by (induction s) (auto split: option.splits)

lemma split_last_append: "c \<notin> set b \<Longrightarrow> split_last c (a @ c # b) = Some (a, b)"
  using split_last_None [of c b] by (induction a) auto

lemma split_last_Some: "split_last c s = Some (a, b) \<Longrightarrow> s = a @ c # b \<and> c \<notin> set b"
proof (induction s arbitrary: a)
  case Nil
  then show ?case by simp
next
  case (Cons x s)
  then show ?case
    by (cases "split_last c s") (auto split: if_splits simp: split_last_None)
qed

text \<open>The desugarer's iteration segment reads back as the loop and the index it was built from.\<close>

lemma iteration_of_segment:
  assumes "name \<noteq> []" and "1 \<le> n" and "n \<le> max_int64"
  shows "iteration_of (name @ ''@'' @ itoa n) = Some (name, n)"
proof -
  have "CHR ''@'' \<notin> set (itoa n)"
    using itoa_chars [of "CHR ''@''" n] by (auto simp: is_digit_def)
  then have "split_last CHR ''@'' (name @ CHR ''@'' # itoa n) = Some (name, itoa n)"
    by (rule split_last_append)
  with assms show ?thesis
    by (simp add: iteration_of_def atoi_itoa)
qed

end
