(* ===== verification/StepResult.thy ===== *)
theory StepResult
  imports IRModel
begin

text \<open>
  The one record every step attempt produces (\<open>failure/result.go\<close>): its status vocabulary, the
  union of payload, error and halt discriminated by the status, and the validation every boundary
  that accepts a record runs. A nil \<open>json.RawMessage\<close> is \<open>None\<close>, an empty one \<open>Some []\<close>.
\<close>

abbreviation StatusOK :: string where "StatusOK \<equiv> ''ok''"
abbreviation StatusFailed :: string where "StatusFailed \<equiv> ''failed''"
abbreviation StatusHalted :: string where "StatusHalted \<equiv> ''halted''"

abbreviation ReasonEnvContract :: string where "ReasonEnvContract \<equiv> ''env-contract''"
abbreviation ReasonHook :: string where "ReasonHook \<equiv> ''hook''"
abbreviation ReasonAgent :: string where "ReasonAgent \<equiv> ''agent''"
abbreviation ReasonResultSchema :: string where "ReasonResultSchema \<equiv> ''result-schema''"
abbreviation ReasonVerify :: string where "ReasonVerify \<equiv> ''verify''"
abbreviation ReasonLaunch :: string where "ReasonLaunch \<equiv> ''launch''"
abbreviation ReasonCanceled :: string where "ReasonCanceled \<equiv> ''canceled''"
abbreviation ReasonLoopExhausted :: string where "ReasonLoopExhausted \<equiv> ''loop-exhausted''"
abbreviation ReasonSourceContract :: string where "ReasonSourceContract \<equiv> ''source-contract''"

record error_record =
  er_reason :: string
  er_detail :: string
  er_handoff :: string

record halt_record =
  hr_reason :: string
  hr_detail :: string
  hr_phase :: string

record timing =
  tm_started :: time
  tm_finished :: time

definition timing_duration :: "timing \<Rightarrow> duration" where
  "timing_duration t = tm_finished t - tm_started t"

record attempt_info =
  ai_attempt :: int
  ai_timing :: timing
  ai_error :: "error_record option"

record result =
  r_status :: string
  r_payload :: "string option"
  r_error :: "error_record option"
  r_halt :: "halt_record option"
  r_timing :: timing
  r_attempt :: int
  r_attempts :: "attempt_info list"
  r_agent_skipped :: bool
  r_check :: bool

definition zero_timing :: timing where
  "zero_timing = \<lparr>tm_started = 0, tm_finished = 0\<rparr>"

definition error_of :: "string \<Rightarrow> string \<Rightarrow> error_record" where
  "error_of reason detail = \<lparr>er_reason = reason, er_detail = detail, er_handoff = []\<rparr>"

text \<open>The zero \<open>Result\<close>, which composite literals update.\<close>

definition zero_result :: result where
  "zero_result = \<lparr>r_status = [], r_payload = None, r_error = None, r_halt = None,
     r_timing = zero_timing, r_attempt = 0, r_attempts = [], r_agent_skipped = False,
     r_check = False\<rparr>"

definition failed_result :: "error_record \<Rightarrow> timing \<Rightarrow> int \<Rightarrow> attempt_info list \<Rightarrow> result" where
  "failed_result e t a h = zero_result\<lparr>r_status := StatusFailed, r_error := Some e,
     r_timing := t, r_attempt := a, r_attempts := h\<rparr>"

definition ok_result :: "string option \<Rightarrow> timing \<Rightarrow> result" where
  "ok_result p t = zero_result\<lparr>r_status := StatusOK, r_payload := p, r_timing := t, r_attempt := 1\<rparr>"

text \<open>\<open>Result.Validate\<close>: the messages it joins, none of which means nil.\<close>

definition when_msg :: "bool \<Rightarrow> string \<Rightarrow> string list" where
  "when_msg b m = (if b then [m] else [])"

definition validate :: "result \<Rightarrow> string list" where
  "validate r =
     (if r_status r = StatusOK then
        when_msg (r_payload r = None \<or> r_payload r = Some []) ''status ok requires a payload'' @
        when_msg (r_error r \<noteq> None) ''status ok must not carry an error record'' @
        when_msg (r_halt r \<noteq> None) ''status ok must not carry a halt record''
      else if r_status r = StatusFailed then
        (case r_error r of
           None \<Rightarrow> [''status failed requires an error record'']
         | Some e \<Rightarrow> when_msg (er_reason e = []) ''error record requires a reason'') @
        when_msg (r_payload r \<noteq> None) ''status failed must not carry a payload'' @
        when_msg (r_halt r \<noteq> None) ''status failed must not carry a halt record''
      else if r_status r = StatusHalted then
        (case r_halt r of
           None \<Rightarrow> [''status halted requires a halt record'']
         | Some h \<Rightarrow> when_msg (hr_reason h = []) ''halt record requires a reason'') @
        when_msg (r_payload r \<noteq> None) ''status halted must not carry a payload'' @
        when_msg (r_error r \<noteq> None) ''status halted must not carry an error record''
      else [''unknown status '' @ quote_str (r_status r) @ '' (ok|failed|halted)'']) @
     when_msg (r_attempt r < 1) (''attempt '' @ itoa (r_attempt r) @ '' is not 1-based'')"

definition validate_error :: "string list \<Rightarrow> string" where
  "validate_error ms = ''failure: invalid result record: '' @ join [CHR 0x0A] ms"

abbreviation valid :: "result \<Rightarrow> bool" where
  "valid r \<equiv> validate r = []"

lemma when_msg_Nil [simp]: "when_msg b m = [] \<longleftrightarrow> \<not> b"
  by (simp add: when_msg_def)

text \<open>The union the record promises, as one predicate per status.\<close>

definition ok_shape :: "result \<Rightarrow> bool" where
  "ok_shape r \<longleftrightarrow> (\<exists>p. r_payload r = Some p \<and> p \<noteq> []) \<and> r_error r = None \<and> r_halt r = None"

definition failed_shape :: "result \<Rightarrow> bool" where
  "failed_shape r \<longleftrightarrow> (\<exists>e. r_error r = Some e \<and> er_reason e \<noteq> []) \<and> r_payload r = None \<and> r_halt r = None"

definition halted_shape :: "result \<Rightarrow> bool" where
  "halted_shape r \<longleftrightarrow> (\<exists>h. r_halt r = Some h \<and> hr_reason h \<noteq> []) \<and> r_payload r = None \<and> r_error r = None"

lemma valid_iff:
  "valid r \<longleftrightarrow> 1 \<le> r_attempt r \<and>
     (r_status r = StatusOK \<and> ok_shape r \<or> r_status r = StatusFailed \<and> failed_shape r \<or>
      r_status r = StatusHalted \<and> halted_shape r)"
  by (auto simp: validate_def ok_shape_def failed_shape_def halted_shape_def split: option.splits)

lemma valid_failedD:
  "valid r \<Longrightarrow> r_status r = StatusFailed \<Longrightarrow> \<exists>e. r_error r = Some e \<and> er_reason e \<noteq> []"
  by (auto simp: valid_iff failed_shape_def)

lemma valid_status: "valid r \<Longrightarrow> r_status r \<in> {StatusOK, StatusFailed, StatusHalted}"
  by (auto simp: valid_iff)

lemma valid_failed_result [simp]:
  "valid (failed_result e t a h) \<longleftrightarrow> er_reason e \<noteq> [] \<and> 1 \<le> a"
  by (auto simp: valid_iff failed_result_def zero_result_def failed_shape_def)

lemma valid_ok_result [simp]: "valid (ok_result p t) \<longleftrightarrow> (\<exists>s. p = Some s \<and> s \<noteq> [])"
  by (auto simp: valid_iff ok_result_def zero_result_def ok_shape_def)

lemma valid_bump [simp]: "valid r \<Longrightarrow> 0 \<le> k \<Longrightarrow> valid (r\<lparr>r_attempt := r_attempt r + k\<rparr>)"
  by (auto simp: valid_iff ok_shape_def failed_shape_def halted_shape_def)

lemma valid_attempts [simp]: "valid (r\<lparr>r_attempts := h\<rparr>) \<longleftrightarrow> valid r"
  by (simp add: valid_iff ok_shape_def failed_shape_def halted_shape_def)

lemma valid_timing [simp]: "valid (r\<lparr>r_timing := t\<rparr>) \<longleftrightarrow> valid r"
  by (simp add: valid_iff ok_shape_def failed_shape_def halted_shape_def)

lemma failed_result_sel [simp]:
  "r_status (failed_result e t a h) = StatusFailed"
  "r_error (failed_result e t a h) = Some e"
  "r_attempt (failed_result e t a h) = a"
  "r_attempts (failed_result e t a h) = h"
  "r_timing (failed_result e t a h) = t"
  "r_halt (failed_result e t a h) = None"
  "r_payload (failed_result e t a h) = None"
  by (simp_all add: failed_result_def zero_result_def)

lemma ok_result_sel [simp]:
  "r_status (ok_result p t) = StatusOK" "r_payload (ok_result p t) = p"
  "r_attempt (ok_result p t) = 1" "r_attempts (ok_result p t) = []"
  "r_error (ok_result p t) = None" "r_halt (ok_result p t) = None"
  by (simp_all add: ok_result_def zero_result_def)

lemma error_of_sel [simp]:
  "er_reason (error_of a b) = a" "er_detail (error_of a b) = b" "er_handoff (error_of a b) = []"
  by (simp_all add: error_of_def)

text \<open>
  A record passes \<open>Validate\<close> exactly when its attempt number is 1-based and its status selects
  one arm of the union: ok with a non-empty payload and nothing else, failed with a reasoned error
  and nothing else, halted with a reasoned halt and nothing else.
\<close>

theorem validate_union:
  "validate r = [] \<longleftrightarrow> 1 \<le> r_attempt r \<and>
     (r_status r = StatusOK \<and> ok_shape r \<or> r_status r = StatusFailed \<and> failed_shape r \<or>
      r_status r = StatusHalted \<and> halted_shape r)"
  by (rule valid_iff)

end
