(* ===== verification/MeterTiers.thy ===== *)
theory MeterTiers
  imports Json StepResult "HOL-Library.Word"
begin

text \<open>
  The metering vocabulary and the three fidelity tiers (\<open>metering/meter.go\<close>, \<open>metering/tiers.go\<close>).
  Amounts are \<open>int64\<close>, modelled as 64-bit words read signed, so wrap-around is the source's. The
  tokenizer and probe commands are opaque: a runner from argument vector and standard input to
  standard output or an error, acting on a world \<open>'w\<close>.
\<close>

subsection \<open>64-bit amounts\<close>

type_synonym int64 = "64 word"

definition max_i64 :: int64 where "max_i64 = 9223372036854775807"

lemma sint_max_i64 [simp]: "sint max_i64 = 9223372036854775807"
  by (simp add: max_i64_def)

lemma sint_le_max: "sint (x :: int64) \<le> 9223372036854775807"
  using sint_lt [of x] by simp

lemma sint_ge_min: "- 9223372036854775808 \<le> sint (x :: int64)"
  using sint_ge [of x] by simp

definition sat_add :: "int64 \<Rightarrow> int64 \<Rightarrow> int64" where
  "sat_add a b = (if sint (max_i64 - b) < sint a then max_i64 else a + b)"

lemma sint_add_small:
  fixes a b :: int64
  assumes "- 9223372036854775808 \<le> sint a + sint b" and "sint a + sint b \<le> 9223372036854775807"
  shows "sint (a + b) = sint a + sint b"
  using assms by (simp add: sint_word_ariths signed_take_bit_int_eq_self)

lemma sint_diff_small:
  fixes a b :: int64
  assumes "- 9223372036854775808 \<le> sint a - sint b" and "sint a - sint b \<le> 9223372036854775807"
  shows "sint (a - b) = sint a - sint b"
  using assms by (simp add: sint_word_ariths signed_take_bit_int_eq_self)

lemma sint_sat_add:
  assumes "0 \<le> sint a" and "0 \<le> sint b"
  shows "sint (sat_add a b) = min (sint a + sint b) 9223372036854775807"
proof -
  have d: "sint (max_i64 - b) = 9223372036854775807 - sint b"
    using assms sint_le_max [of b] by (subst sint_diff_small) auto
  show ?thesis
  proof (cases "9223372036854775807 - sint b < sint a")
    case True
    with d show ?thesis by (simp add: sat_add_def)
  next
    case False
    with d assms sint_add_small [of a b] show ?thesis by (simp add: sat_add_def)
  qed
qed

lemma sat_add_nonneg [simp]: "0 \<le> sint a \<Longrightarrow> 0 \<le> sint b \<Longrightarrow> 0 \<le> sint (sat_add a b)"
  by (simp add: sint_sat_add)

subsection \<open>Costs, steps, results\<close>

record cost =
  co_unit :: string
  co_amount :: int64

definition cost_add :: "cost \<Rightarrow> cost \<Rightarrow> string + cost" where
  "cost_add c d =
     (if co_unit c \<noteq> co_unit d then
        Inl (''metering: cannot add cost in '' @ quote_str (co_unit d) @ '' to cost in '' @
             quote_str (co_unit c) @ '': cross-unit arithmetic'')
      else Inr \<lparr>co_unit = co_unit c, co_amount = co_amount c + co_amount d\<rparr>)"

record meter_step =
  ms_node :: string
  ms_template :: string
  ms_endpoint :: string
  ms_inputs :: "goval smap"
  ms_prompt :: "(string + string) option"  \<comment> \<open>the prompt source's answer\<close>

record result_view =
  rv_node :: string
  rv_status :: string
  rv_usage :: "int64 smap option"
  rv_elapsed :: duration

record estimate =
  es_costs :: "cost list"
  es_defer_until :: "time option"

definition no_claim :: estimate where
  "no_claim = \<lparr>es_costs = [], es_defer_until = None\<rparr>"

definition sorted_units :: "'v smap \<Rightarrow> string list" where
  "sorted_units m = sorted_keys m"

type_synonym 'w runner = "string list \<Rightarrow> string \<Rightarrow> 'w \<Rightarrow> (string + string) \<times> 'w"

subsection \<open>The tiers\<close>

record exact_meter =
  ex_unit :: string
  ex_tokenizer :: "string list"
  ex_max_output :: int64
  ex_fields :: "string list"
  ex_bounds :: "string \<Rightarrow> int64 option"

record reported_meter =
  rm_unit :: string
  rm_fields :: "string smap"

record probe_meter =
  pm_command :: "string list"
  pm_threshold :: f64

datatype meter = ExactM exact_meter | ReportedM reported_meter | ProbeM probe_meter

text \<open>The order of finite floats, exactly; comparisons with NaN are false.\<close>

definition scale :: "int \<Rightarrow> int \<Rightarrow> int \<Rightarrow> int" where
  "scale m e base = m * 2 ^ nat (e - base)"

fun f64_less :: "f64 \<Rightarrow> f64 \<Rightarrow> bool" where
  "f64_less (Fin m e) (Fin n f) = (scale m e (min e f) < scale n f (min e f))"
| "f64_less NaN y = False"
| "f64_less x NaN = False"
| "f64_less NInf y = (y \<noteq> NInf)"
| "f64_less x NInf = False"
| "f64_less PInf y = False"
| "f64_less x PInf = True"

text \<open>The tokenizer's reply \<open>{"tokens": n}\<close>.\<close>

definition decode_tokens :: "string \<Rightarrow> string + int64" where
  "decode_tokens out =
     (let nofield = Inl ''tokenizer: reply carries no valid tokens field'';
          undec = Inl ''tokenizer: decode reply''
      in case json_parse out of
           None \<Rightarrow> undec
         | Some VNull \<Rightarrow> nofield
         | Some (VMap m) \<Rightarrow>
             (case json_field ''tokens'' m of
                None \<Rightarrow> nofield
              | Some VNull \<Rightarrow> nofield
              | Some (VNumber t) \<Rightarrow>
                  (case json_int t of
                     None \<Rightarrow> undec
                   | Some n \<Rightarrow> if n < 0 then nofield else Inr (word_of_int n))
              | Some _ \<Rightarrow> undec)
         | Some _ \<Rightarrow> undec)"

definition exact_estimate ::
  "'w runner \<Rightarrow> exact_meter \<Rightarrow> meter_step \<Rightarrow> 'w \<Rightarrow> (string + estimate) \<times> exact_meter \<times> 'w" where
  "exact_estimate run m s w =
     (case ms_prompt s of
        Some (Inl e) \<Rightarrow> (Inl (''assemble prompt for '' @ ms_node s @ '': '' @ e), m, w)
      | p \<Rightarrow>
          (let prompt = (case p of Some (Inr t) \<Rightarrow> t | _ \<Rightarrow> []);
               (out, w1) = run (ex_tokenizer m) prompt w
           in case out of
                Inl e \<Rightarrow> (Inl (''tokenizer: '' @ e), m, w1)
              | Inr o1 \<Rightarrow>
                  (case decode_tokens o1 of
                     Inl e \<Rightarrow> (Inl e, m, w1)
                   | Inr tokens \<Rightarrow>
                       let bound = tokens + ex_max_output m
                       in (Inr \<lparr>es_costs = [\<lparr>co_unit = ex_unit m, co_amount = bound\<rparr>],
                                es_defer_until = None\<rparr>,
                           m\<lparr>ex_bounds := (ex_bounds m)(ms_node s \<mapsto> bound)\<rparr>, w1))))"

definition sum_fields :: "int64 smap \<Rightarrow> string list \<Rightarrow> int64" where
  "sum_fields usage fs =
     fold (\<lambda>f t. case map_of usage f of None \<Rightarrow> t | Some v \<Rightarrow> sat_add t v) fs 0"

definition exact_actual :: "exact_meter \<Rightarrow> result_view \<Rightarrow> cost list \<times> exact_meter" where
  "exact_actual m r =
     (let bound = ex_bounds m (rv_node r);
          m1 = m\<lparr>ex_bounds := (ex_bounds m)(rv_node r := None)\<rparr>
      in case (if ex_fields m = [] then None else rv_usage r) of
           Some usage \<Rightarrow> ([\<lparr>co_unit = ex_unit m, co_amount = sum_fields usage (ex_fields m)\<rparr>], m1)
         | None \<Rightarrow>
             if rv_status r \<noteq> StatusOK \<and> rv_status r \<noteq> StatusHalted then ([], m1)
             else (case bound of
                     None \<Rightarrow> ([], m1)
                   | Some b \<Rightarrow> ([\<lparr>co_unit = ex_unit m, co_amount = b\<rparr>], m1)))"

definition reported_units :: "reported_meter \<Rightarrow> string list" where
  "reported_units m = str_set (rm_unit m # map snd (rm_fields m))"

definition reported_estimate :: "reported_meter \<Rightarrow> estimate" where
  "reported_estimate m =
     \<lparr>es_costs = map (\<lambda>u. \<lparr>co_unit = u, co_amount = 0\<rparr>) (reported_units m), es_defer_until = None\<rparr>"

definition reported_actual :: "reported_meter \<Rightarrow> result_view \<Rightarrow> cost list" where
  "reported_actual m r =
     (case rv_usage r of
        None \<Rightarrow> [\<lparr>co_unit = rm_unit m, co_amount = 0\<rparr>]
      | Some usage \<Rightarrow>
          (let by_unit = fold (\<lambda>(field, u) acc.
                 case map_of usage field of
                   None \<Rightarrow> (case map_of acc u of None \<Rightarrow> put u 0 acc | Some _ \<Rightarrow> acc)
                 | Some v \<Rightarrow> put u (sat_add (get_or 0 acc u) v) acc) (rm_fields m) []
           in map (\<lambda>u. \<lparr>co_unit = u, co_amount = get_or 0 by_unit u\<rparr>) (sorted_units by_unit)))"

definition default_probe_defer :: duration where
  "default_probe_defer = 60 * second"

definition probe_reset_horizon :: duration where
  "probe_reset_horizon = 8 * 24 * 3600 * second"

text \<open>The probe's reading \<open>{"utilization": 0..1, "reset": epoch?}\<close>; \<open>pf\<close> reads a float literal.
  \<open>None\<close> is a malformed reading.\<close>

definition decode_reading :: "(string \<Rightarrow> f64 option) \<Rightarrow> string \<Rightarrow> (f64 \<times> int) option" where
  "decode_reading pf out =
     (case json_parse out of
        Some (VMap m) \<Rightarrow>
          (let reset = (case json_field ''reset'' m of
                          None \<Rightarrow> Some 0
                        | Some VNull \<Rightarrow> Some 0
                        | Some (VNumber t) \<Rightarrow> json_int t
                        | Some _ \<Rightarrow> None)
           in case (json_field ''utilization'' m, reset) of
                (Some (VNumber t), Some r) \<Rightarrow> map_option (\<lambda>u. (u, r)) (pf t)
              | _ \<Rightarrow> None)
      | _ \<Rightarrow> None)"

definition probe_estimate ::
  "'w runner \<Rightarrow> (string \<Rightarrow> f64 option) \<Rightarrow> time \<Rightarrow> probe_meter \<Rightarrow> 'w \<Rightarrow> estimate \<times> 'w" where
  "probe_estimate run pf now m w =
     (let (out, w1) = run (pm_command m) [] w
      in case out of
           Inl _ \<Rightarrow> (no_claim, w1)
         | Inr o1 \<Rightarrow>
             (case decode_reading pf o1 of
                None \<Rightarrow> (no_claim, w1)
              | Some (u, r) \<Rightarrow>
                  if f64_less u (pm_threshold m) then (no_claim, w1)
                  else
                    (let until = (if 0 < r \<and> now < unix_time r \<and>
                                     unix_time r \<le> now + probe_reset_horizon
                                  then unix_time r else now + default_probe_defer)
                     in (\<lparr>es_costs = [], es_defer_until = Some until\<rparr>, w1))))"

subsection \<open>The meter interface\<close>

definition meter_estimate ::
  "'w runner \<Rightarrow> (string \<Rightarrow> f64 option) \<Rightarrow> time \<Rightarrow> meter \<Rightarrow> meter_step \<Rightarrow> 'w
   \<Rightarrow> (string + estimate) \<times> meter \<times> 'w" where
  "meter_estimate run pf now m s w =
     (case m of
        ExactM x \<Rightarrow> (let (r, x', w') = exact_estimate run x s w in (r, ExactM x', w'))
      | ReportedM x \<Rightarrow> (Inr (reported_estimate x), m, w)
      | ProbeM x \<Rightarrow> (let (e, w') = probe_estimate run pf now x w in (Inr e, m, w')))"

definition meter_actual :: "meter \<Rightarrow> result_view \<Rightarrow> cost list \<times> meter" where
  "meter_actual m r =
     (case m of
        ExactM x \<Rightarrow> (let (c, x') = exact_actual x r in (c, ExactM x'))
      | ReportedM x \<Rightarrow> (reported_actual x r, m)
      | ProbeM x \<Rightarrow> ([], m))"

definition meter_units :: "meter \<Rightarrow> string list" where
  "meter_units m =
     (case m of ExactM x \<Rightarrow> [ex_unit x] | ReportedM x \<Rightarrow> reported_units x | ProbeM x \<Rightarrow> [])"

definition release_estimate :: "string \<Rightarrow> meter \<Rightarrow> meter" where
  "release_estimate node m =
     (case m of
        ExactM x \<Rightarrow> ExactM (x\<lparr>ex_bounds := (ex_bounds x)(node := None)\<rparr>)
      | _ \<Rightarrow> m)"

subsection \<open>Properties of the tiers\<close>

lemma set_reported_units [simp]:
  "set (reported_units m) = insert (rm_unit m) (snd ` set (rm_fields m))"
  by (auto simp: reported_units_def str_set_def)

text \<open>The exact tier charges a step its recorded bound at most once.\<close>

lemma exact_actual_clears: "ex_bounds (snd (exact_actual m r)) (rv_node r) = None"
  by (auto simp: exact_actual_def Let_def split: option.splits)

text \<open>
  A probe defers a saturated endpoint to a time after the reading and inside the trusted
  horizon, whatever reset epoch the command reports.
\<close>

lemma probe_defer_window:
  assumes "probe_estimate run pf now m w = (e, w')" and "es_defer_until e = Some until"
  shows "now < until \<and> until \<le> now + probe_reset_horizon"
  using assms
  by (auto simp: probe_estimate_def Let_def no_claim_def default_probe_defer_def
      probe_reset_horizon_def second_def split: prod.splits sum.splits option.splits if_splits)

end
