(* ===== verification/Admitter.thy ===== *)
theory Admitter
  imports MeterTiers
begin

text \<open>
  The run's budget ledger and the admission decision (\<open>metering/admit.go\<close>). Admission has two
  phases: the estimates are gathered outside the ledger lock (\<open>gather\<close>), then the decision reads
  and changes the ledger under it (\<open>decide\<close>). A map read with its zero value is a total function.
\<close>

datatype decision = Admit | Defer time string | Reject string string

record reservation =
  rs_endpoint :: string
  rs_held :: "int64 smap"

record ledger =
  lg_limit :: "int64 smap"
  lg_spent :: "string \<Rightarrow> int64"
  lg_reserved :: "string \<Rightarrow> int64"
  lg_inflight :: "string \<Rightarrow> reservation option"

record admitter =
  ad_meters :: "meter list smap"
  ad_ledger :: ledger

definition new_ledger :: "int64 smap \<Rightarrow> ledger" where
  "new_ledger budgets = \<lparr>lg_limit = budgets, lg_spent = (\<lambda>_. 0), lg_reserved = (\<lambda>_. 0),
     lg_inflight = (\<lambda>_. None)\<rparr>"

definition new_admitter :: "meter list smap \<Rightarrow> int64 smap \<Rightarrow> admitter" where
  "new_admitter meters budgets = \<lparr>ad_meters = meters, ad_ledger = new_ledger budgets\<rparr>"

subsection \<open>Budgets from the command line\<close>

text \<open>
  A finite float is its exact value. The bound the source compares with, \<open>math.MaxInt64\<close> as a
  float constant, is \<open>2 ^ 63\<close>; the conversion of an integral float to \<open>int64\<close> keeps the low 64 bits
  where it does not fit (what the common targets do).
\<close>

fun f64_integral :: "f64 \<Rightarrow> int option" where
  "f64_integral (Fin m e) =
     (if 0 \<le> e then Some (m * 2 ^ nat e)
      else if m mod 2 ^ nat (- e) = 0 then Some (m div 2 ^ nat (- e)) else None)"
| "f64_integral x = None"

definition budget_amount :: "f64 \<Rightarrow> int64 option" where
  "budget_amount v =
     (if v = NaN \<or> v = PInf \<or> v = NInf \<or> f64_less v (Fin 0 0) then None
      else case f64_integral v of
             None \<Rightarrow> None
           | Some n \<Rightarrow> if f64_less (Fin 1 63) v then None else Some (word_of_int n))"

fun parse_budgets :: "f64 smap \<Rightarrow> string + int64 smap" where
  "parse_budgets [] = Inr []"
| "parse_budgets ((k, v) # rest) =
     (if k = [] then Inl ''metering: budget unit must not be empty''
      else case budget_amount v of
             None \<Rightarrow> Inl (''metering: budget '' @ k @
               '': amount must be a non-negative integer in the unit's atomic granularity'')
           | Some a \<Rightarrow> map_sum id (put k a) (parse_budgets rest))"

subsection \<open>Gathering estimates\<close>

definition participates :: "ledger \<Rightarrow> meter \<Rightarrow> bool" where
  "participates lg m = (lg_limit lg \<noteq> [] \<and>
     list_ex (\<lambda>u. map_of (lg_limit lg) u \<noteq> None) (meter_units m))"

definition add_costs :: "cost list \<Rightarrow> int64 smap \<Rightarrow> int64 smap" where
  "add_costs cs est =
     fold (\<lambda>c acc. if sint (co_amount c) < 0 then acc
                   else put (co_unit c) (sat_add (get_or 0 acc (co_unit c)) (co_amount c)) acc) cs est"

text \<open>The loop over the class's meters: an estimate error of a participating meter ends it; the
  latest saturation hint and the summed estimates otherwise.\<close>

fun gather ::
  "'w runner \<Rightarrow> (string \<Rightarrow> f64 option) \<Rightarrow> time \<Rightarrow> ledger \<Rightarrow> meter_step \<Rightarrow> meter list \<Rightarrow> time
   \<Rightarrow> int64 smap \<Rightarrow> 'w \<Rightarrow> (string + time \<times> int64 smap) \<times> meter list \<times> 'w" where
  "gather run pf now lg s [] dl est w = (Inr (dl, est), [], w)"
| "gather run pf now lg s (m # ms) dl est w =
     (case meter_estimate run pf now m s w of
        (Inl e, m', w') \<Rightarrow>
          if participates lg m
          then (Inl (''metering: estimate '' @ ms_node s @ '' (endpoint class '' @ ms_endpoint s @
                     ''): '' @ e), m' # ms, w')
          else (let (r, ms', w2) = gather run pf now lg s ms dl est w' in (r, m' # ms', w2))
      | (Inr e, m', w') \<Rightarrow>
          (let dl' = (case es_defer_until e of Some t \<Rightarrow> if dl < t then t else dl | None \<Rightarrow> dl);
               (r, ms', w2) = gather run pf now lg s ms dl' (add_costs (es_costs e) est) w'
           in (r, m' # ms', w2)))"

subsection \<open>Deciding under the lock\<close>

definition fits_never :: "ledger \<Rightarrow> int64 smap \<Rightarrow> string \<Rightarrow> bool" where
  "fits_never lg est u =
     (case map_of (lg_limit lg) u of
        None \<Rightarrow> False
      | Some limit \<Rightarrow> sint limit < sint (sat_add (lg_spent lg u) (get_or 0 est u)))"

definition fits_not_now :: "ledger \<Rightarrow> int64 smap \<Rightarrow> string \<Rightarrow> bool" where
  "fits_not_now lg est u =
     (case map_of (lg_limit lg) u of
        None \<Rightarrow> False
      | Some limit \<Rightarrow> sint limit <
          sint (sat_add (sat_add (lg_spent lg u) (lg_reserved lg u)) (get_or 0 est u)))"

definition release_unit :: "string \<times> int64 \<Rightarrow> ledger \<Rightarrow> ledger" where
  "release_unit p l = l\<lparr>lg_reserved := (lg_reserved l)(fst p :=
     if sint (lg_reserved l (fst p)) < sint (snd p) then 0 else lg_reserved l (fst p) - snd p)\<rparr>"

definition release :: "reservation \<Rightarrow> ledger \<Rightarrow> ledger" where
  "release res lg = fold release_unit (rs_held res) lg"

definition reserve_unit :: "string \<times> int64 \<Rightarrow> ledger \<Rightarrow> ledger" where
  "reserve_unit p l = l\<lparr>lg_reserved := (lg_reserved l)(fst p := sat_add (lg_reserved l (fst p)) (snd p))\<rparr>"

definition reserve :: "int64 smap \<Rightarrow> ledger \<Rightarrow> ledger" where
  "reserve est lg = fold reserve_unit est lg"

definition decide :: "string \<Rightarrow> string \<Rightarrow> int64 smap \<Rightarrow> ledger \<Rightarrow> decision \<times> ledger" where
  "decide node endpoint est lg =
     (case find (fits_never lg est) (sorted_units est) of
        Some u \<Rightarrow>
          (Reject u (''budget '' @ u @ '' exhausted: spent '' @ itoa (sint (lg_spent lg u)) @
             '' + estimate '' @ itoa (sint (get_or 0 est u)) @ '' exceeds limit '' @
             itoa (sint (get_or 0 (lg_limit lg) u))), lg)
      | None \<Rightarrow>
          (case find (fits_not_now lg est) (sorted_units est) of
             Some u \<Rightarrow>
               (Defer 0 (''budget '' @ u @ '' contended: estimate '' @ itoa (sint (get_or 0 est u)) @
                  '' does not fit alongside in-flight reservations '' @
                  itoa (sint (lg_reserved lg u))), lg)
           | None \<Rightarrow>
               (let l1 = (case lg_inflight lg node of Some prev \<Rightarrow> release prev lg | None \<Rightarrow> lg);
                    l2 = reserve est l1
                in (Admit, l2\<lparr>lg_inflight := (lg_inflight l2)(node \<mapsto>
                      \<lparr>rs_endpoint = endpoint, rs_held = est\<rparr>)\<rparr>))))"

definition admit ::
  "'w runner \<Rightarrow> (string \<Rightarrow> f64 option) \<Rightarrow> time \<Rightarrow> admitter \<Rightarrow> meter_step \<Rightarrow> 'w
   \<Rightarrow> (string + decision) \<times> admitter \<times> 'w" where
  "admit run pf now a s w =
     (let ms = get_or [] (ad_meters a) (ms_endpoint s);
          set_ms = (\<lambda>ms'. a\<lparr>ad_meters := put (ms_endpoint s) ms' (ad_meters a)\<rparr>);
          rel = map (release_estimate (ms_node s))
      in if ms = [] then (Inr Admit, a, w)
         else (case gather run pf now (ad_ledger a) s ms 0 [] w of
            (Inl e, ms', w') \<Rightarrow> (Inl e, set_ms (rel ms'), w')
          | (Inr (dl, est), ms', w') \<Rightarrow>
              if dl \<noteq> 0 then (Inr (Defer dl ''endpoint saturated''), set_ms (rel ms'), w')
              else (case decide (ms_node s) (ms_endpoint s) est (ad_ledger a) of
                 (Admit, lg') \<Rightarrow> (Inr Admit, (set_ms ms')\<lparr>ad_ledger := lg'\<rparr>, w')
               | (d, lg') \<Rightarrow> (Inr d, (set_ms (rel ms'))\<lparr>ad_ledger := lg'\<rparr>, w'))))"

subsection \<open>Settling\<close>

definition spend :: "cost \<Rightarrow> ledger \<Rightarrow> ledger" where
  "spend c l = l\<lparr>lg_spent := (lg_spent l)(co_unit c :=
     sat_add (lg_spent l (co_unit c)) (co_amount c))\<rparr>"

definition clamp :: "cost \<Rightarrow> cost" where
  "clamp c = (if sint (co_amount c) < 0 then c\<lparr>co_amount := 0\<rparr> else c)"

definition charge :: "cost list \<Rightarrow> ledger \<Rightarrow> cost list \<times> ledger" where
  "charge cs lg =
     (let clamped = map clamp cs in (clamped, fold spend clamped lg))"

definition settle_ledger :: "string \<Rightarrow> cost list \<Rightarrow> ledger \<Rightarrow> cost list \<times> ledger" where
  "settle_ledger node cs lg =
     (case lg_inflight lg node of
        None \<Rightarrow> ([], lg)
      | Some res \<Rightarrow> charge cs (release res (lg\<lparr>lg_inflight := (lg_inflight lg)(node := None)\<rparr>)))"

definition settle :: "admitter \<Rightarrow> result_view \<Rightarrow> cost list \<times> admitter" where
  "settle a r =
     (case lg_inflight (ad_ledger a) (rv_node r) of
        None \<Rightarrow> ([], a)
      | Some res \<Rightarrow>
          (let ms = get_or [] (ad_meters a) (rs_endpoint res);
               outs = map (\<lambda>m. meter_actual m r) ms;
               (cs, lg) = settle_ledger (rv_node r) (concat (map fst outs)) (ad_ledger a)
           in (cs, a\<lparr>ad_meters := put (rs_endpoint res) (map snd outs) (ad_meters a),
                     ad_ledger := lg\<rparr>)))"

definition fold_spent :: "cost list \<Rightarrow> ledger \<Rightarrow> ledger" where
  "fold_spent cs lg =
     fold (\<lambda>c l. if sint (co_amount c) \<le> 0 then l else spend c l) cs lg"

subsection \<open>How the ledger moves\<close>

text \<open>An estimate the gathering phase can build: one non-negative amount per unit.\<close>

definition claim_ok :: "int64 smap \<Rightarrow> bool" where
  "claim_ok est \<longleftrightarrow> distinct (map fst est) \<and> (\<forall>p \<in> set est. 0 \<le> sint (snd p))"

abbreviation amount :: "int64 smap \<Rightarrow> string \<Rightarrow> int" where
  "amount est u \<equiv> sint (get_or 0 est u)"

lemma claim_ok_Nil [simp]: "claim_ok []"
  by (simp add: claim_ok_def)

lemma amount_nonneg [simp]: "claim_ok est \<Longrightarrow> 0 \<le> amount est u"
  by (cases "map_of est u") (auto simp: claim_ok_def get_or_def dest!: map_of_SomeD)

lemma put_set: "set (put k v m) \<subseteq> insert (k, v) (set m)"
  by (induction m) auto

lemma claim_ok_put: "claim_ok est \<Longrightarrow> 0 \<le> sint n \<Longrightarrow> claim_ok (put u n est)"
  using put_set [of u n est] by (fastforce simp: claim_ok_def distinct_update)

lemma add_costs_claim_ok: "claim_ok est \<Longrightarrow> claim_ok (add_costs cs est)"
  unfolding add_costs_def by (induction cs arbitrary: est) (simp_all add: claim_ok_put not_less)

lemma gather_claim_ok:
  "gather run pf now lg s ms dl est w = (Inr (dl', est'), ms', w') \<Longrightarrow> claim_ok est \<Longrightarrow> claim_ok est'"
proof (induction ms arbitrary: dl est w ms')
  case (Cons m ms)
  obtain r m1 w1 where e: "meter_estimate run pf now m s w = (r, m1, w1)" by (metis prod_cases3)
  show ?case
  proof (cases r)
    case (Inl x)
    with Cons.prems e obtain ms2 where
      "gather run pf now lg s ms dl est w1 = (Inr (dl', est'), ms2, w')"
      by (auto split: if_splits prod.splits)
    then show ?thesis using Cons.prems(2) by (rule Cons.IH)
  next
    case (Inr x)
    with Cons.prems e obtain ms2 dl2 where
      "gather run pf now lg s ms dl2 (add_costs (es_costs x) est) w1 = (Inr (dl', est'), ms2, w')"
      by (auto split: prod.splits)
    then show ?thesis using add_costs_claim_ok [OF Cons.prems(2)] by (rule Cons.IH)
  qed
qed simp

lemma claim_ok_Cons:
  "claim_ok ((k, n) # est) \<longleftrightarrow> claim_ok est \<and> k \<notin> fst ` set est \<and> 0 \<le> sint n"
  by (auto simp: claim_ok_def)

lemma get_or_Cons: "get_or z ((k, n) # m) u = (if u = k then n else get_or z m u)"
  by (simp add: get_or_def)

lemma get_or_absent: "u \<notin> fst ` set m \<Longrightarrow> get_or z m u = z"
  by (auto simp: get_or_def split: option.splits dest!: map_of_SomeD intro: rev_image_eqI)

lemma unit_frames [simp]:
  "lg_spent (reserve_unit p l) = lg_spent l" "lg_limit (reserve_unit p l) = lg_limit l"
  "lg_inflight (reserve_unit p l) = lg_inflight l"
  "lg_spent (release_unit p l) = lg_spent l" "lg_limit (release_unit p l) = lg_limit l"
  "lg_inflight (release_unit p l) = lg_inflight l"
  "lg_reserved (spend c l) = lg_reserved l" "lg_limit (spend c l) = lg_limit l"
  "lg_inflight (spend c l) = lg_inflight l"
  by (simp_all add: reserve_unit_def release_unit_def spend_def)

lemma reserve_frame [simp]:
  "lg_spent (reserve est lg) = lg_spent lg" "lg_limit (reserve est lg) = lg_limit lg"
  "lg_inflight (reserve est lg) = lg_inflight lg"
  unfolding reserve_def by (induction est arbitrary: lg) auto

lemma release_frame [simp]:
  "lg_spent (release res lg) = lg_spent lg" "lg_limit (release res lg) = lg_limit lg"
  "lg_inflight (release res lg) = lg_inflight lg"
proof -
  have "lg_spent (fold release_unit xs lg) = lg_spent lg \<and>
        lg_limit (fold release_unit xs lg) = lg_limit lg \<and>
        lg_inflight (fold release_unit xs lg) = lg_inflight lg" for xs
    by (induction xs arbitrary: lg) auto
  then show "lg_spent (release res lg) = lg_spent lg" "lg_limit (release res lg) = lg_limit lg"
    "lg_inflight (release res lg) = lg_inflight lg"
    by (auto simp: release_def)
qed

text \<open>Reserving and releasing do not look at the reservations in flight.\<close>

lemma unit_inflight:
  "release_unit p (l\<lparr>lg_inflight := f\<rparr>) = (release_unit p l)\<lparr>lg_inflight := f\<rparr>"
  "reserve_unit p (l\<lparr>lg_inflight := f\<rparr>) = (reserve_unit p l)\<lparr>lg_inflight := f\<rparr>"
  by (simp_all add: release_unit_def reserve_unit_def)

lemma release_inflight:
  "release r (l\<lparr>lg_inflight := f\<rparr>) = (release r l)\<lparr>lg_inflight := f\<rparr>"
proof -
  have "fold release_unit xs (l\<lparr>lg_inflight := f\<rparr>) = (fold release_unit xs l)\<lparr>lg_inflight := f\<rparr>" for xs
    by (induction xs arbitrary: l) (auto simp: unit_inflight)
  then show ?thesis by (simp add: release_def)
qed

lemma reserve_inflight:
  "reserve est (l\<lparr>lg_inflight := f\<rparr>) = (reserve est l)\<lparr>lg_inflight := f\<rparr>"
  unfolding reserve_def by (induction est arbitrary: l) (auto simp: unit_inflight)

lemma reserve_unit_amount:
  "0 \<le> sint (lg_reserved l (fst p)) \<Longrightarrow> 0 \<le> sint (snd p) \<Longrightarrow>
   sint (lg_reserved (reserve_unit p l) u) =
     (if u = fst p then min (sint (lg_reserved l u) + sint (snd p)) 9223372036854775807
      else sint (lg_reserved l u))"
  by (simp add: reserve_unit_def sint_sat_add)

lemma release_unit_amount:
  assumes "0 \<le> sint (lg_reserved l (fst p))" and "0 \<le> sint (snd p)"
  shows "sint (lg_reserved (release_unit p l) u) =
     (if u = fst p then max 0 (sint (lg_reserved l u) - sint (snd p)) else sint (lg_reserved l u))"
proof -
  have "sint (lg_reserved l (fst p) - snd p) = sint (lg_reserved l (fst p)) - sint (snd p)"
    using assms sint_le_max [of "lg_reserved l (fst p)"] sint_le_max [of "snd p"]
    by (intro sint_diff_small) linarith+
  then show ?thesis by (auto simp: release_unit_def)
qed

lemma reserve_amount:
  assumes "claim_ok est" and "\<forall>u. 0 \<le> sint (lg_reserved lg u)"
  shows "sint (lg_reserved (reserve est lg) u) =
         min (sint (lg_reserved lg u) + amount est u) 9223372036854775807"
  using assms
proof (induction est arbitrary: lg)
  case Nil
  then show ?case using sint_le_max [of "lg_reserved lg u"] by (simp add: reserve_def)
next
  case (Cons p est)
  have k: "claim_ok est" "fst p \<notin> fst ` set est" "0 \<le> sint (snd p)"
    using Cons.prems(1) by (cases p; auto simp: claim_ok_Cons)+
  have amt: "sint (lg_reserved (reserve_unit p lg) v) =
     (if v = fst p then min (sint (lg_reserved lg v) + sint (snd p)) 9223372036854775807
      else sint (lg_reserved lg v))" for v
    using Cons.prems(2) k(3) by (simp add: reserve_unit_amount)
  then have nn: "\<forall>v. 0 \<le> sint (lg_reserved (reserve_unit p lg) v)"
    using Cons.prems(2) k(3) by simp
  show ?case
    using Cons.IH [OF k(1) nn] amt k amount_nonneg [OF k(1), of u]
    by (cases p) (auto simp: reserve_def get_or_Cons get_or_absent)
qed

lemma release_amount:
  assumes "claim_ok (rs_held res)" and "\<forall>u. 0 \<le> sint (lg_reserved lg u)"
  shows "sint (lg_reserved (release res lg) u) =
         max 0 (sint (lg_reserved lg u) - amount (rs_held res) u)"
proof -
  have "sint (lg_reserved (fold release_unit est lg) u) = max 0 (sint (lg_reserved lg u) - amount est u)"
    if "claim_ok est" and "\<forall>u. 0 \<le> sint (lg_reserved lg u)" for est
    using that
  proof (induction est arbitrary: lg)
    case (Cons p est)
    have k: "claim_ok est" "fst p \<notin> fst ` set est" "0 \<le> sint (snd p)"
      using Cons.prems(1) by (cases p; auto simp: claim_ok_Cons)+
    have amt: "sint (lg_reserved (release_unit p lg) v) =
       (if v = fst p then max 0 (sint (lg_reserved lg v) - sint (snd p)) else sint (lg_reserved lg v))" for v
      using Cons.prems(2) k(3) by (simp add: release_unit_amount)
    then have nn: "\<forall>v. 0 \<le> sint (lg_reserved (release_unit p lg) v)"
      using Cons.prems(2) k(3) by simp
    show ?case
      using Cons.IH [OF k(1) nn] amt k
      by (cases p) (auto simp: get_or_Cons get_or_absent)
  qed simp
  from this [OF assms] show ?thesis by (simp add: release_def)
qed

subsection \<open>The ledger invariant\<close>

definition held_sum :: "ledger \<Rightarrow> string \<Rightarrow> int" where
  "held_sum lg u = (\<Sum>k \<in> dom (lg_inflight lg). amount (rs_held (the (lg_inflight lg k))) u)"

definition bounded_unit :: "ledger \<Rightarrow> string \<Rightarrow> bool" where
  "bounded_unit lg u \<longleftrightarrow> (\<exists>l. map_of (lg_limit lg) u = Some l \<and> sint l < 9223372036854775807)"

definition ledger_inv :: "ledger \<Rightarrow> bool" where
  "ledger_inv lg \<longleftrightarrow> finite (dom (lg_inflight lg)) \<and>
     (\<forall>r \<in> ran (lg_inflight lg). claim_ok (rs_held r)) \<and>
     (\<forall>u. 0 \<le> sint (lg_spent lg u)) \<and> (\<forall>u. 0 \<le> sint (lg_reserved lg u)) \<and>
     (\<forall>u. bounded_unit lg u \<longrightarrow> sint (lg_reserved lg u) = held_sum lg u)"

lemma new_ledger_inv: "ledger_inv (new_ledger b)"
  by (simp add: ledger_inv_def new_ledger_def held_sum_def)

lemma held_sum_split:
  assumes "finite (dom (lg_inflight lg))" and "lg_inflight lg k = Some r"
  shows "held_sum lg u = amount (rs_held r) u +
         held_sum (lg\<lparr>lg_inflight := (lg_inflight lg)(k := None)\<rparr>) u"
proof -
  have "held_sum lg u = amount (rs_held (the (lg_inflight lg k))) u +
      (\<Sum>j \<in> dom (lg_inflight lg) - {k}. amount (rs_held (the (lg_inflight lg j))) u)"
    unfolding held_sum_def using assms by (intro sum.remove) auto
  then show ?thesis using assms(2) by (auto simp: held_sum_def intro!: sum.cong)
qed

lemma held_sum_nonneg:
  "ledger_inv lg \<Longrightarrow> 0 \<le> held_sum lg u"
  by (auto simp: held_sum_def ledger_inv_def ran_def intro!: sum_nonneg amount_nonneg)

text \<open>Taking a reservation out and putting one in, on the ledger.\<close>

lemma drop_inv:
  assumes "ledger_inv lg" and "lg_inflight lg k = Some r"
  shows "ledger_inv (release r (lg\<lparr>lg_inflight := (lg_inflight lg)(k := None)\<rparr>))"
proof -
  let ?l = "lg\<lparr>lg_inflight := (lg_inflight lg)(k := None)\<rparr>"
  have c: "claim_ok (rs_held r)" using assms by (auto simp: ledger_inv_def ran_def)
  have nn: "\<forall>u. 0 \<le> sint (lg_reserved ?l u)" using assms(1) by (simp add: ledger_inv_def)
  have hs: "held_sum (release r ?l) u = held_sum ?l u" for u by (simp add: held_sum_def)
  have "0 \<le> held_sum ?l u" for u
    using assms(1) by (auto simp: held_sum_def ledger_inv_def ran_def intro!: sum_nonneg amount_nonneg)
  moreover have "held_sum lg u = amount (rs_held r) u + held_sum ?l u" for u
    using assms by (intro held_sum_split) (simp_all add: ledger_inv_def)
  ultimately show ?thesis
    using assms(1) release_amount [OF c nn]
    by (auto simp: ledger_inv_def hs bounded_unit_def ran_def split: if_splits)
qed

lemma add_inv:
  assumes "ledger_inv lg" and "claim_ok est" and "lg_inflight lg k = None"
    and fit: "\<And>u. bounded_unit lg u \<Longrightarrow>
      sint (lg_reserved lg u) + amount est u \<le> 9223372036854775807"
  shows "ledger_inv ((reserve est lg)\<lparr>lg_inflight := (lg_inflight lg)(k \<mapsto>
           \<lparr>rs_endpoint = ep, rs_held = est\<rparr>)\<rparr>)" (is "ledger_inv ?l")
proof -
  have nn: "\<forall>u. 0 \<le> sint (lg_reserved lg u)" using assms(1) by (simp add: ledger_inv_def)
  note amt = reserve_amount [OF assms(2) nn]
  have fin: "finite (dom (lg_inflight ?l))" using assms(1) by (simp add: ledger_inv_def)
  have "held_sum ?l u = amount est u + held_sum (?l\<lparr>lg_inflight := (lg_inflight ?l)(k := None)\<rparr>) u" for u
    using held_sum_split [OF fin, of k] by simp
  moreover have "held_sum (?l\<lparr>lg_inflight := (lg_inflight ?l)(k := None)\<rparr>) u = held_sum lg u" for u
    using assms(3) by (simp add: held_sum_def fun_upd_idem)
  ultimately have hs: "held_sum ?l u = amount est u + held_sum lg u" for u by simp
  have "sint (lg_reserved ?l u) = held_sum ?l u" if "bounded_unit lg u" for u
    using that fit [OF that] amt [of u] assms(1) hs by (simp add: ledger_inv_def)
  moreover have "0 \<le> sint (lg_reserved ?l u)" for u
    using amt [of u] nn assms(2) by simp
  ultimately show ?thesis
    using assms(1,2) by (auto simp: ledger_inv_def bounded_unit_def ran_def)
qed

lemma fits_spec:
  assumes "claim_ok est" and "0 \<le> sint (lg_spent lg u)" and "0 \<le> sint (lg_reserved lg u)"
  shows "fits_never lg est u \<longleftrightarrow> (\<exists>l. map_of (lg_limit lg) u = Some l \<and> sint l < sint (lg_spent lg u) + amount est u \<and> sint l < 9223372036854775807)"
    and "fits_not_now lg est u \<longleftrightarrow> (\<exists>l. map_of (lg_limit lg) u = Some l \<and>
      sint l < sint (lg_spent lg u) + sint (lg_reserved lg u) + amount est u \<and> sint l < 9223372036854775807)"
  using assms amount_nonneg [OF assms(1), of u]
  by (auto simp: fits_never_def fits_not_now_def sint_sat_add min_def simp del: amount_nonneg
      split: option.splits)

lemma set_sorted_units [simp]: "set (sorted_units m) = fst ` set m"
  by (simp add: sorted_units_def)

text \<open>An admitted claim fits next to what is spent and reserved, in every budgeted unit it names.\<close>

lemma decide_admit_fits:
  assumes "decide node ep est lg = (Admit, lg')" and "ledger_inv lg" and "claim_ok est"
    and "u \<in> fst ` set est" and "map_of (lg_limit lg) u = Some l" and "sint l < 9223372036854775807"
  shows "sint (lg_spent lg u) + sint (lg_reserved lg u) + amount est u \<le> sint l"
proof -
  have "\<not> fits_not_now lg est u"
    using assms(1,4) by (auto simp: decide_def find_None_iff split: option.splits)
  then show ?thesis
    using fits_spec(2) [OF assms(3), of lg u] assms(2,5,6) by (auto simp: ledger_inv_def)
qed

lemma decide_inv:
  assumes "decide node ep est lg = (d, lg')" and inv: "ledger_inv lg" and cl: "claim_ok est"
  shows "ledger_inv lg'"
proof (cases d)
  case Admit
  define l1 where "l1 = (case lg_inflight lg node of Some prev \<Rightarrow>
      release prev (lg\<lparr>lg_inflight := (lg_inflight lg)(node := None)\<rparr>) | None \<Rightarrow> lg)"
  have i1: "ledger_inv l1" "lg_inflight l1 node = None"
    using inv drop_inv by (auto simp: l1_def split: option.splits)
  have le: "sint (lg_reserved l1 u) \<le> sint (lg_reserved lg u)" for u
  proof (cases "lg_inflight lg node")
    case (Some prev)
    then have "claim_ok (rs_held prev)" using inv by (auto simp: ledger_inv_def ran_def)
    then show ?thesis
      using Some inv release_amount [of prev "lg\<lparr>lg_inflight := (lg_inflight lg)(node := None)\<rparr>" u]
      by (simp add: l1_def ledger_inv_def)
  qed (simp add: l1_def)
  have lim: "lg_limit l1 = lg_limit lg" "lg_spent l1 = lg_spent lg"
    by (auto simp: l1_def split: option.splits)
  have fit: "sint (lg_reserved l1 u) + amount est u \<le> 9223372036854775807" if "bounded_unit l1 u" for u
  proof (cases "u \<in> fst ` set est")
    case True
    from that obtain l where l: "map_of (lg_limit lg) u = Some l" "sint l < 9223372036854775807"
      by (auto simp: bounded_unit_def lim)
    have "0 \<le> sint (lg_spent lg u)" using inv by (simp add: ledger_inv_def)
    then show ?thesis
      using decide_admit_fits [OF assms(1) [unfolded Admit] inv cl True l] l(2) le [of u] by linarith
  next
    case False
    then show ?thesis using sint_le_max [of "lg_reserved l1 u"] by (simp add: get_or_absent)
  qed
  have "lg' = (reserve est l1)\<lparr>lg_inflight := (lg_inflight l1)(node \<mapsto> \<lparr>rs_endpoint = ep, rs_held = est\<rparr>)\<rparr>"
    using assms(1) Admit
    by (auto simp: decide_def l1_def Let_def release_inflight reserve_inflight split: option.splits)
  then show ?thesis using add_inv [OF i1(1) cl i1(2) fit] by simp
qed (use assms in \<open>auto simp: decide_def Let_def split: option.splits\<close>)

lemma clamp_sel [simp]:
  "co_unit (clamp c) = co_unit c" "sint (co_amount (clamp c)) = max 0 (sint (co_amount c))"
  by (auto simp: clamp_def)

lemma spend_amount:
  "0 \<le> sint (lg_spent lg (co_unit c)) \<Longrightarrow> 0 \<le> sint (co_amount c) \<Longrightarrow>
   sint (lg_spent (spend c lg) u) =
     (if u = co_unit c then min (sint (lg_spent lg u) + sint (co_amount c)) 9223372036854775807
      else sint (lg_spent lg u))"
  by (simp add: spend_def sint_sat_add)

lemma spend_inv: "ledger_inv lg \<Longrightarrow> 0 \<le> sint (co_amount c) \<Longrightarrow> ledger_inv (spend c lg)"
  by (simp add: ledger_inv_def spend_def held_sum_def bounded_unit_def)

lemma spends_inv:
  "ledger_inv lg \<Longrightarrow> \<forall>c \<in> set cs. 0 \<le> sint (co_amount c) \<Longrightarrow> ledger_inv (fold spend cs lg)"
  by (induction cs arbitrary: lg) (auto intro: spend_inv)

lemma settle_ledger_inv: "ledger_inv lg \<Longrightarrow> ledger_inv (snd (settle_ledger node cs lg))"
  by (auto simp: settle_ledger_def charge_def Let_def split: option.splits
      intro!: spends_inv drop_inv)

lemma fold_spent_inv: "ledger_inv lg \<Longrightarrow> ledger_inv (fold_spent cs lg)"
  unfolding fold_spent_def by (induction cs arbitrary: lg) (simp_all add: spend_inv)

subsection \<open>The admission seam\<close>

text \<open>
  What the scheduler's workers rely on when they call the admitter concurrently: each call is one
  atomic step on the ledger that keeps its invariant, a refused step leaves the ledger as it was,
  and settling is idempotent.
\<close>

datatype ('req, 'obs) meter_op = OpAdmit 'req | OpSettle string 'obs

locale admission_seam =
  fixes ok :: "'s \<Rightarrow> bool"
    and good :: "'req \<Rightarrow> bool"
    and adm :: "'req \<Rightarrow> 's \<Rightarrow> decision \<times> 's"
    and stl :: "string \<Rightarrow> 'obs \<Rightarrow> 's \<Rightarrow> 's"
  assumes adm_ok: "ok s \<Longrightarrow> good r \<Longrightarrow> ok (snd (adm r s))"
    and adm_refused: "fst (adm r s) \<noteq> Admit \<Longrightarrow> snd (adm r s) = s"
    and stl_ok: "ok s \<Longrightarrow> ok (stl n c s)"
    and stl_idem: "stl n c' (stl n c s) = stl n c s"
begin

lemma run_ok:
  "ok s \<Longrightarrow> \<forall>r. OpAdmit r \<in> set ops \<longrightarrow> good r \<Longrightarrow>
   ok (foldl (\<lambda>s op. case op of OpAdmit r \<Rightarrow> snd (adm r s) | OpSettle n c \<Rightarrow> stl n c s) s ops)"
proof (induction ops arbitrary: s)
  case (Cons op ops)
  then show ?case by (cases op) (auto intro: adm_ok stl_ok)
qed simp

lemma settle_twice:
  "foldl (\<lambda>s op. case op of OpAdmit r \<Rightarrow> snd (adm r s) | OpSettle n c \<Rightarrow> stl n c s) s
     [OpSettle n c, OpSettle n c'] = stl n c s"
  by (simp add: stl_idem)

end

text \<open>The ledger provides it: a request is a node, its endpoint class and the claim gathered for it.\<close>

definition request_ok :: "string \<times> string \<times> int64 smap \<Rightarrow> bool" where
  "request_ok r = claim_ok (snd (snd r))"

definition decide_request :: "string \<times> string \<times> int64 smap \<Rightarrow> ledger \<Rightarrow> decision \<times> ledger" where
  "decide_request r lg = decide (fst r) (fst (snd r)) (snd (snd r)) lg"

definition settle_costs :: "string \<Rightarrow> cost list \<Rightarrow> ledger \<Rightarrow> ledger" where
  "settle_costs n cs lg = snd (settle_ledger n cs lg)"

definition ledger_op :: "ledger \<Rightarrow> (string \<times> string \<times> int64 smap, cost list) meter_op \<Rightarrow> ledger" where
  "ledger_op s op = (case op of OpAdmit r \<Rightarrow> snd (decide_request r s) | OpSettle n c \<Rightarrow> settle_costs n c s)"

lemma spends_frame [simp]:
  "lg_inflight (fold spend cs lg) = lg_inflight lg" "lg_reserved (fold spend cs lg) = lg_reserved lg"
  "lg_limit (fold spend cs lg) = lg_limit lg"
  by (induction cs arbitrary: lg) auto

interpretation ledger_seam: admission_seam ledger_inv request_ok decide_request settle_costs
proof (unfold_locales, goal_cases)
  case (1 s r)
  then show ?case
    using decide_inv [of "fst r" "fst (snd r)" "snd (snd r)" s "fst (decide_request r s)"
        "snd (decide_request r s)"]
    by (simp add: request_ok_def decide_request_def)
next
  case (2 r s)
  then show ?case
    by (auto simp: decide_request_def decide_def Let_def split: option.splits)
next
  case (3 s n c)
  then show ?case by (simp add: settle_costs_def settle_ledger_inv)
next
  case (4 n c' c s)
  show ?case
    by (cases "lg_inflight s n") (simp_all add: settle_costs_def settle_ledger_def charge_def Let_def)
qed

subsection \<open>Honest meters never overspend\<close>

definition cost_sum :: "string \<Rightarrow> cost list \<Rightarrow> int" where
  "cost_sum u cs = (\<Sum>c \<leftarrow> cs. if co_unit c = u then max 0 (sint (co_amount c)) else 0)"

text \<open>Ledgers reached from one by decisions on claims and by settlements whose actual costs stay
  within what was held.\<close>

inductive honest_ledger :: "ledger \<Rightarrow> ledger \<Rightarrow> bool" for lg0 where
  start: "honest_ledger lg0 lg0"
| decide: "honest_ledger lg0 lg \<Longrightarrow> claim_ok est \<Longrightarrow> honest_ledger lg0 (snd (decide node ep est lg))"
| settle: "honest_ledger lg0 lg \<Longrightarrow> lg_inflight lg node = Some res \<Longrightarrow>
     \<forall>u. cost_sum u cs \<le> amount (rs_held res) u \<Longrightarrow>
     honest_ledger lg0 (snd (settle_ledger node cs lg))"

definition within_budget :: "ledger \<Rightarrow> bool" where
  "within_budget lg \<longleftrightarrow> (\<forall>u l. map_of (lg_limit lg) u = Some l \<longrightarrow> sint (lg_spent lg u) \<le> sint l)"

definition headroom :: "ledger \<Rightarrow> bool" where
  "headroom lg \<longleftrightarrow> (\<forall>u l. map_of (lg_limit lg) u = Some l \<longrightarrow> sint l < 9223372036854775807 \<longrightarrow>
     sint (lg_spent lg u) + sint (lg_reserved lg u) \<le> sint l)"

lemma decide_shape:
  "decide node ep est lg = (d, lg') \<Longrightarrow> d = Admit \<or> lg' = lg"
  by (auto simp: decide_def Let_def split: option.splits)

lemma decide_admit_reserved:
  assumes "decide node ep est lg = (Admit, lg')" and inv: "ledger_inv lg" and "claim_ok est"
  shows "lg_spent lg' = lg_spent lg \<and> lg_limit lg' = lg_limit lg \<and>
         sint (lg_reserved lg' u) \<le> sint (lg_reserved lg u) + amount est u"
proof (cases "lg_inflight lg node")
  case None
  then have "lg_reserved lg' = lg_reserved (reserve est lg)" "lg_spent lg' = lg_spent lg"
      "lg_limit lg' = lg_limit lg"
    using assms(1) by (auto simp: decide_def Let_def split: option.splits)
  then show ?thesis
    using reserve_amount [OF assms(3), of lg u] inv by (simp add: ledger_inv_def)
next
  case (Some prev)
  then have l': "lg_reserved lg' = lg_reserved (reserve est (release prev lg))"
      "lg_spent lg' = lg_spent lg" "lg_limit lg' = lg_limit lg"
    using assms(1) by (auto simp: decide_def Let_def split: option.splits)
  have c: "claim_ok (rs_held prev)" using Some inv by (auto simp: ledger_inv_def ran_def)
  have nn: "\<forall>u. 0 \<le> sint (lg_reserved lg u)" using inv by (simp add: ledger_inv_def)
  note rel = release_amount [OF c nn]
  then have "\<forall>u. 0 \<le> sint (lg_reserved (release prev lg) u)" by simp
  from reserve_amount [OF assms(3) this, of u] rel [of u]
  have "sint (lg_reserved lg' u) =
      min (max 0 (sint (lg_reserved lg u) - amount (rs_held prev) u) + amount est u) 9223372036854775807"
    by (simp add: l')
  moreover have "0 \<le> sint (lg_reserved lg u)" using nn by blast
  ultimately show ?thesis
    using l'(2,3) amount_nonneg [OF c, of u] by linarith
qed

lemma spends_amount:
  assumes "\<forall>u. 0 \<le> sint (lg_spent lg u)"
  shows "sint (lg_spent (fold spend (map clamp cs) lg) u)
         \<le> sint (lg_spent lg u) + cost_sum u cs"
  using assms
proof (induction cs arbitrary: lg)
  case Nil
  then show ?case by (simp add: cost_sum_def)
next
  case (Cons c cs)
  have amt: "sint (lg_spent (spend (clamp c) lg) v) =
     (if v = co_unit c then min (sint (lg_spent lg v) + max 0 (sint (co_amount c))) 9223372036854775807
      else sint (lg_spent lg v))" for v
    using Cons.prems by (simp add: spend_amount)
  then have nn: "\<forall>v. 0 \<le> sint (lg_spent (spend (clamp c) lg) v)"
    using Cons.prems by simp
  from Cons.IH [OF nn] amt [of u] show ?case
    by (simp add: cost_sum_def split: if_splits)
qed

lemma honest_ledger_headroom:
  assumes "honest_ledger lg0 lg" and "ledger_inv lg0" and "headroom lg0"
  shows "ledger_inv lg \<and> headroom lg \<and> lg_limit lg = lg_limit lg0"
  using assms
proof (induction rule: honest_ledger.induct)
  case (decide lg est node ep)
  then have inv: "ledger_inv lg" and hr: "headroom lg" by auto
  obtain d lg' where d: "decide node ep est lg = (d, lg')" by (metis surj_pair)
  note i' = decide_inv [OF d inv decide.hyps(2)]
  show ?case
  proof (cases "d = Admit")
    case False
    with decide_shape [OF d] d decide show ?thesis by auto
  next
    case True
    note r = decide_admit_reserved [OF d [unfolded True] inv decide.hyps(2)]
    have "sint (lg_spent lg' u) + sint (lg_reserved lg' u) \<le> sint l"
      if l: "map_of (lg_limit lg') u = Some l" "sint l < 9223372036854775807" for u l
    proof (cases "u \<in> fst ` set est")
      case True
      have "map_of (lg_limit lg) u = Some l" using l(1) r by simp
      from decide_admit_fits [OF d [unfolded \<open>d = Admit\<close>] inv decide.hyps(2) True this l(2)]
      show ?thesis using r [of u] by simp
    next
      case False
      then have "amount est u = 0" by (simp add: get_or_absent)
      moreover have "sint (lg_spent lg u) + sint (lg_reserved lg u) \<le> sint l"
        using hr l r by (simp add: headroom_def)
      ultimately show ?thesis using r [of u] by simp
    qed
    then show ?thesis using i' r d decide by (auto simp: headroom_def)
  qed
next
  case (settle lg node res cs)
  then have inv: "ledger_inv lg" and hr: "headroom lg" by auto
  define l1 where "l1 = release res (lg\<lparr>lg_inflight := (lg_inflight lg)(node := None)\<rparr>)"
  have c: "claim_ok (rs_held res)" using settle.hyps(2) inv by (auto simp: ledger_inv_def ran_def)
  have nn: "\<forall>u. 0 \<le> sint (lg_reserved lg u)" "\<forall>u. 0 \<le> sint (lg_spent lg u)"
    using inv by (auto simp: ledger_inv_def)
  have r1: "sint (lg_reserved l1 u) = max 0 (sint (lg_reserved lg u) - amount (rs_held res) u)" for u
    using release_amount [OF c, of "lg\<lparr>lg_inflight := (lg_inflight lg)(node := None)\<rparr>"] nn
    by (simp add: l1_def)
  have s1: "lg_spent l1 = lg_spent lg" "lg_limit l1 = lg_limit lg" by (simp_all add: l1_def)
  have held: "amount (rs_held res) u \<le> sint (lg_reserved lg u)" if "bounded_unit lg u" for u
  proof -
    have "held_sum lg u = amount (rs_held res) u +
        held_sum (lg\<lparr>lg_inflight := (lg_inflight lg)(node := None)\<rparr>) u"
      using inv settle.hyps(2) by (intro held_sum_split) (auto simp: ledger_inv_def)
    moreover have "0 \<le> held_sum (lg\<lparr>lg_inflight := (lg_inflight lg)(node := None)\<rparr>) u"
      using inv by (auto simp: held_sum_def ledger_inv_def ran_def intro!: sum_nonneg amount_nonneg)
    ultimately show ?thesis using inv that by (simp add: ledger_inv_def)
  qed
  let ?l' = "snd (settle_ledger node cs lg)"
  have l': "?l' = fold spend (map clamp cs) l1"
    using settle.hyps(2) by (simp add: settle_ledger_def charge_def Let_def l1_def)
  have "sint (lg_spent ?l' u) + sint (lg_reserved ?l' u) \<le> sint l"
    if l: "map_of (lg_limit ?l') u = Some l" "sint l < 9223372036854775807" for u l
  proof -
    have lim: "map_of (lg_limit lg) u = Some l" using l(1) by (simp add: l' s1)
    have "sint (lg_spent ?l' u) \<le> sint (lg_spent lg u) + cost_sum u cs"
      using spends_amount [of l1 cs u] nn by (simp add: l' s1)
    moreover have "sint (lg_reserved ?l' u) = sint (lg_reserved lg u) - amount (rs_held res) u"
      using r1 [of u] held [of u] lim l(2) by (auto simp: l' bounded_unit_def)
    moreover have "sint (lg_spent lg u) + sint (lg_reserved lg u) \<le> sint l"
      using hr lim l(2) by (simp add: headroom_def)
    ultimately show ?thesis using settle.hyps(3) by (smt (verit))
  qed
  moreover have "lg_limit ?l' = lg_limit lg0" using settle by (simp add: l' s1)
  ultimately show ?case
    using settle_ledger_inv [OF inv, of node cs] by (simp add: headroom_def)
qed auto

subsection \<open>The properties\<close>

text \<open>
  C8. If no attempt costs more than was held for it, a declared budget is never exceeded: in every
  ledger reached by admissions and settlements in any order, interleaved over any number of
  workers, what is spent in a budgeted unit stays within its limit.
\<close>

theorem budget_never_overspent:
  assumes "honest_ledger (new_ledger budgets) lg" and "\<forall>p \<in> set budgets. 0 \<le> sint (snd p)"
    and "map_of budgets u = Some l"
  shows "sint (lg_spent lg u) \<le> sint l"
proof (cases "sint l < 9223372036854775807")
  case True
  have "headroom (new_ledger budgets)"
    using assms(2) by (auto simp: headroom_def new_ledger_def dest!: map_of_SomeD)
  from honest_ledger_headroom [OF assms(1) new_ledger_inv this] assms(3) True
  have "sint (lg_spent lg u) + sint (lg_reserved lg u) \<le> sint l" "0 \<le> sint (lg_reserved lg u)"
    by (auto simp: headroom_def new_ledger_def ledger_inv_def)
  then show ?thesis by linarith
next
  case False
  then show ?thesis using sint_le_max [of "lg_spent lg u"] by linarith
qed

definition demo_budget :: "int64 smap" where
  "demo_budget = [(''tokens'', 100)]"

definition demo_claim :: "int64 smap" where
  "demo_claim = [(''tokens'', 60)]"

theorem budget_never_overspent_witness:
  "sint (lg_spent (snd (settle_ledger ''a'' [\<lparr>co_unit = ''tokens'', co_amount = 40\<rparr>]
     (snd (decide ''a'' ''api'' demo_claim (new_ledger demo_budget))))) ''tokens'') \<le> 100"
proof -
  let ?l1 = "snd (decide ''a'' ''api'' demo_claim (new_ledger demo_budget))"
  have l1: "lg_inflight ?l1 ''a'' = Some \<lparr>rs_endpoint = ''api'', rs_held = demo_claim\<rparr>"
    by (simp add: decide_def demo_claim_def demo_budget_def new_ledger_def sorted_units_def
        sorted_keys_def fits_never_def fits_not_now_def sat_add_def max_i64_def get_or_def Let_def
        reserve_def reserve_unit_def)
  have h: "honest_ledger (new_ledger demo_budget) ?l1"
    by (intro honest_ledger.decide honest_ledger.start) (simp add: claim_ok_def demo_claim_def)
  have "honest_ledger (new_ledger demo_budget)
     (snd (settle_ledger ''a'' [\<lparr>co_unit = ''tokens'', co_amount = 40\<rparr>] ?l1))"
    by (rule honest_ledger.settle [OF h l1]) (simp add: cost_sum_def demo_claim_def get_or_def)
  from budget_never_overspent [OF this, of "''tokens''" 100] show ?thesis
    by (simp add: demo_budget_def)
qed

text \<open>
  C9. Whatever sequence of admissions and settlements the workers make, the ledger stays consistent:
  nothing is negative, and in every unit with a finite budget the reserved amount is exactly the
  sum of the claims in flight.
\<close>

theorem ledger_stays_consistent:
  assumes "\<forall>r. OpAdmit r \<in> set ops \<longrightarrow> request_ok r"
  shows "ledger_inv (foldl ledger_op (new_ledger budgets) ops)"
  unfolding ledger_op_def using new_ledger_inv assms by (rule ledger_seam.run_ok)

theorem ledger_stays_consistent_witness:
  "ledger_inv (foldl ledger_op (new_ledger demo_budget)
     [OpAdmit (''a'', ''api'', demo_claim), OpSettle ''a'' []])"
  by (rule ledger_stays_consistent) (simp add: request_ok_def claim_ok_def demo_claim_def)

text \<open>
  C13. The admission decision, on every branch: a step is rejected exactly when some claimed budget
  unit can never hold it, deferred to the next settlement exactly when it fits alone but not beside
  the claims in flight, and admitted otherwise (finite budgets).
\<close>

theorem admission_decision:
  assumes "ledger_inv lg" and "claim_ok est"
    and "\<forall>u l. map_of (lg_limit lg) u = Some l \<longrightarrow> sint l < 9223372036854775807"
  defines "over r \<equiv> \<exists>u \<in> fst ` set est. \<exists>l. map_of (lg_limit lg) u = Some l \<and>
     sint l < sint (lg_spent lg u) + (if r then sint (lg_reserved lg u) else 0) + amount est u"
  shows "case fst (decide node ep est lg) of
           Reject u d \<Rightarrow> over False
         | Defer t d \<Rightarrow> t = 0 \<and> \<not> over False \<and> over True
         | Admit \<Rightarrow> \<not> over False \<and> \<not> over True"
proof -
  have nn: "0 \<le> sint (lg_spent lg u)" "0 \<le> sint (lg_reserved lg u)" for u
    using assms(1) by (auto simp: ledger_inv_def)
  note fs = fits_spec [OF assms(2) nn]
  have f: "(\<exists>u \<in> set (sorted_units est). fits_never lg est u) \<longleftrightarrow> over False"
    using assms(3) by (fastforce simp: over_def fs(1))
  have t: "(\<exists>u \<in> set (sorted_units est). fits_not_now lg est u) \<longleftrightarrow> over True"
    using assms(3) by (fastforce simp: over_def fs(2))
  show ?thesis
  proof (cases "find (fits_never lg est) (sorted_units est)")
    case (Some u)
    then have "u \<in> set (sorted_units est) \<and> fits_never lg est u"
      by (rule find_SomeD)
    with Some f show ?thesis by (auto simp: decide_def)
  next
    case None
    then have nf: "\<not> over False" by (auto simp: find_None_iff simp flip: f)
    show ?thesis
    proof (cases "find (fits_not_now lg est) (sorted_units est)")
      case (Some u)
      then have "u \<in> set (sorted_units est) \<and> fits_not_now lg est u"
        by (rule find_SomeD)
      with Some None nf t show ?thesis by (auto simp: decide_def)
    next
      case No: None
      then have "\<not> over True" by (auto simp: find_None_iff simp flip: t)
      with No None nf show ?thesis by (simp add: decide_def Let_def)
    qed
  qed
qed

theorem admission_decision_witness:
  "case fst (decide ''a'' ''api'' demo_claim (new_ledger demo_budget)) of
     Admit \<Rightarrow> True | _ \<Rightarrow> False"
proof -
  have d: "fst (decide ''a'' ''api'' demo_claim (new_ledger demo_budget)) = Admit"
    by (simp add: decide_def demo_claim_def demo_budget_def new_ledger_def sorted_units_def
        sorted_keys_def fits_never_def fits_not_now_def sat_add_def max_i64_def get_or_def Let_def)
  have "\<forall>u l. map_of (lg_limit (new_ledger demo_budget)) u = Some l \<longrightarrow> sint l < 9223372036854775807"
    by (auto simp: new_ledger_def demo_budget_def)
  from admission_decision [OF new_ledger_inv _ this, of demo_claim "''a''" "''api''"] d
  show ?thesis by (simp add: claim_ok_def demo_claim_def)
qed

lemma signed_take_bit_wrap:
  assumes "9223372036854775807 < k" and "k \<le> 18446744073709551614"
  shows "signed_take_bit 63 k = k - (18446744073709551616 :: int)"
proof -
  have "(k + 9223372036854775808) mod 18446744073709551616 =
        (k + 9223372036854775808 - 18446744073709551616) mod 18446744073709551616"
    by (simp flip: minus_mod_self2 [of "k + 9223372036854775808"])
  also have "\<dots> = k + 9223372036854775808 - 18446744073709551616"
    using assms by (intro mod_pos_pos_trivial) auto
  finally show ?thesis
    by (simp add: signed_take_bit_eq_take_bit_shift take_bit_eq_mod)
qed

text \<open>
  C16. The exact tier adds the tokenizer's count and the configured output bound without
  saturating: when the sum passes the largest \<open>int64\<close> the claim turns negative, the gathering loop
  drops it, and \<open>Admit\<close> admits the step against any budget, with nothing reserved for it.
\<close>

theorem exact_bound_wraps_past_budget:
  assumes meters: "get_or [] (ad_meters a) (ms_endpoint s) = [ExactM m]"
    and prompt: "ms_prompt s = None \<and> p = [] \<or> ms_prompt s = Some (Inr p)"
    and reply: "run (ex_tokenizer m) p w = (Inr out, w1)" and tokens: "decode_tokens out = Inr tokens"
    and "0 \<le> sint tokens" and "0 \<le> sint (ex_max_output m)"
    and "9223372036854775807 < sint tokens + sint (ex_max_output m)"
  shows "\<exists>a'. admit run pf now a s w = (Inr Admit, a', w1) \<and>
    lg_inflight (ad_ledger a') (ms_node s) = Some \<lparr>rs_endpoint = ms_endpoint s, rs_held = []\<rparr>"
proof -
  have "sint (tokens + ex_max_output m) = sint tokens + sint (ex_max_output m) - 2 ^ 64"
    using assms(5-7) sint_le_max [of tokens] sint_le_max [of "ex_max_output m"]
    by (simp add: sint_word_ariths signed_take_bit_wrap)
  then have neg: "sint (tokens + ex_max_output m) < 0"
    using sint_le_max [of tokens] sint_le_max [of "ex_max_output m"] by simp
  let ?m = "ExactM (m\<lparr>ex_bounds := (ex_bounds m)(ms_node s \<mapsto> tokens + ex_max_output m)\<rparr>)"
  have "gather run pf now (ad_ledger a) s [ExactM m] 0 [] w = (Inr (0, []), [?m], w1)"
    using prompt reply tokens neg
    by (auto simp: meter_estimate_def exact_estimate_def Let_def add_costs_def)
  moreover have "decide (ms_node s) (ms_endpoint s) [] lg =
      (Admit, (case lg_inflight lg (ms_node s) of Some prev \<Rightarrow> release prev lg | None \<Rightarrow> lg)
        \<lparr>lg_inflight := (lg_inflight (case lg_inflight lg (ms_node s) of Some prev \<Rightarrow> release prev lg | None \<Rightarrow> lg))
          (ms_node s \<mapsto> \<lparr>rs_endpoint = ms_endpoint s, rs_held = []\<rparr>)\<rparr>)" for lg
    by (simp add: decide_def sorted_units_def sorted_keys_def Let_def reserve_def)
  ultimately show ?thesis using meters by (simp add: admit_def Let_def)
qed

definition wrap_meter :: exact_meter where
  "wrap_meter = \<lparr>ex_unit = ''tokens'', ex_tokenizer = [''tok''], ex_max_output = max_i64, ex_fields = [], ex_bounds = (\<lambda>_. None)\<rparr>"

definition wrap_step :: meter_step where
  "wrap_step = \<lparr>ms_node = ''a'', ms_template = ''t'', ms_endpoint = ''api'', ms_inputs = [], ms_prompt = None\<rparr>"

definition wrap_reply :: string where
  "wrap_reply = ''{'' @ [CHR 0x22] @ ''tokens'' @ [CHR 0x22] @ '':9}''"

theorem exact_bound_wraps_past_budget_witness:
  "fst (admit (\<lambda>c p w. (Inr wrap_reply, w)) (\<lambda>_. None) 0 (new_admitter [(''api'', [ExactM wrap_meter])] [(''tokens'', 1)]) wrap_step ()) =
     Inr Admit"
proof -
  have t: "decode_tokens wrap_reply = Inr 9" by code_simp
  have m: "get_or [] (ad_meters (new_admitter [(''api'', [ExactM wrap_meter])] [(''tokens'', 1)])) (ms_endpoint wrap_step) = [ExactM wrap_meter]"
    by (simp add: new_admitter_def wrap_step_def get_or_def)
  have "ms_prompt wrap_step = None \<and> [] = [] \<or> ms_prompt wrap_step = Some (Inr [])" by (simp add: wrap_step_def)
  from exact_bound_wraps_past_budget [where run = "\<lambda>c p w. (Inr wrap_reply, w)" and w = "()" and now = 0 and pf = "\<lambda>_. None",
      OF m this refl t] show ?thesis
    by (auto simp: wrap_meter_def)
qed

text \<open>
  A budget of exactly \<open>2 ^ 63\<close> passes the command line's range check and becomes the most
  negative limit.
\<close>

theorem budget_bound_off_by_one:
  "parse_budgets [(''tokens'', Fin 1 63)] = Inr [(''tokens'', word_of_int (2 ^ 63))] \<and>
   sint (word_of_int (2 ^ 63) :: int64) = - (2 ^ 63)"
  by (simp add: budget_amount_def scale_def)

end
