(* ===== verification/DeferFloor.thy ===== *)
theory DeferFloor
  imports Admitter
begin

text \<open>
  The reactive rate-limit floor (\<open>metering/defer.go\<close>): a rate-limited failure becomes a defer with a
  trusted reset time or a doubling, capped backoff, up to a bound of consecutive occurrences per
  node. Durations are \<open>int64\<close> nanoseconds; the shift of the backoff wraps at 64 bits as in Go.
\<close>

abbreviation ReasonRateLimit :: string where "ReasonRateLimit \<equiv> ''rate-limit''"

record failure_record =
  fr_node :: string
  fr_status :: string
  fr_reason :: string
  fr_detail :: string

record defer_policy =
  dp_base :: duration
  dp_cap :: duration
  dp_horizon :: duration
  dp_max :: int

definition with_defaults :: "defer_policy \<Rightarrow> defer_policy" where
  "with_defaults p =
     \<lparr>dp_base = (if dp_base p \<le> 0 then 60 * second else dp_base p),
      dp_cap = (if dp_cap p \<le> 0 then 15 * 60 * second else dp_cap p),
      dp_horizon = (if dp_horizon p \<le> 0 then 8 * 24 * 3600 * second else dp_horizon p),
      dp_max = (if dp_max p \<le> 0 then 8 else dp_max p)\<rparr>"

record rate_floor =
  rf_policy :: defer_policy
  rf_state :: "string \<Rightarrow> int"

definition new_floor :: "defer_policy \<Rightarrow> rate_floor" where
  "new_floor p = \<lparr>rf_policy = with_defaults p, rf_state = (\<lambda>_. 0)\<rparr>"

definition shl64 :: "int \<Rightarrow> nat \<Rightarrow> int" where
  "shl64 x n = sint (push_bit n (word_of_int x :: int64))"

definition backoff :: "defer_policy \<Rightarrow> int \<Rightarrow> duration" where
  "backoff p consecutive =
     (if 63 \<le> consecutive then dp_cap p
      else let b = shl64 (dp_base p) (nat consecutive)
           in if b \<le> 0 \<or> dp_cap p < b then dp_cap p else b)"

text \<open>The reset time a failure detail carries, if any: \<open>{"reset": epoch}\<close> with a positive epoch.\<close>

definition reset_from :: "string \<Rightarrow> time option" where
  "reset_from detail =
     (case json_parse detail of
        Some (VMap m) \<Rightarrow>
          (case json_field ''reset'' m of
             Some (VNumber t) \<Rightarrow>
               (case json_int t of
                  Some n \<Rightarrow> if n \<le> 0 then None else Some (unix_time n)
                | None \<Rightarrow> None)
           | _ \<Rightarrow> None)
      | _ \<Rightarrow> None)"

text \<open>\<open>Classify\<close>; \<open>fmt\<close> renders a time as RFC 3339.\<close>

definition classify ::
  "(time \<Rightarrow> string) \<Rightarrow> failure_record \<Rightarrow> time \<Rightarrow> rate_floor \<Rightarrow> decision option \<times> rate_floor" where
  "classify fmt rec now d =
     (if fr_status rec \<noteq> StatusFailed \<or> fr_reason rec \<noteq> ReasonRateLimit then (None, d)
      else let consecutive = rf_state d (fr_node rec); p = rf_policy d in
        if dp_max p < consecutive + 1 then (None, d)
        else let fallback = now + backoff p consecutive;
                 until = (case reset_from (fr_detail rec) of
                            None \<Rightarrow> fallback
                          | Some t \<Rightarrow> if t = 0 \<or> t \<le> now \<or> now + dp_horizon p < t then fallback else t)
             in (Some (Defer until (''rate-limited, reset '' @ fmt until)),
                 d\<lparr>rf_state := (rf_state d)(fr_node rec := consecutive + 1)\<rparr>))"

definition reset_count :: "string \<Rightarrow> rate_floor \<Rightarrow> rate_floor" where
  "reset_count node d = d\<lparr>rf_state := (rf_state d)(node := 0)\<rparr>"

definition restore_count :: "string \<Rightarrow> int \<Rightarrow> rate_floor \<Rightarrow> rate_floor" where
  "restore_count node n d =
     (if n \<le> 0 then d\<lparr>rf_state := (rf_state d)(node := 0)\<rparr>
      else d\<lparr>rf_state := (rf_state d)(node := n)\<rparr>)"

definition consecutive_count :: "string \<Rightarrow> rate_floor \<Rightarrow> int" where
  "consecutive_count node d = rf_state d node"

subsection \<open>Properties\<close>

definition policy_ok :: "defer_policy \<Rightarrow> bool" where
  "policy_ok p \<longleftrightarrow> 0 < dp_base p \<and> 0 < dp_cap p \<and> 0 < dp_horizon p \<and> 0 < dp_max p"

lemma with_defaults_ok [simp]: "policy_ok (with_defaults p)"
  by (simp add: policy_ok_def with_defaults_def second_def)

lemma backoff_bounds: "0 < dp_cap p \<Longrightarrow> 0 < backoff p k \<and> backoff p k \<le> dp_cap p"
  by (auto simp: backoff_def Let_def)

text \<open>What the executor does with the floor, of any nodes in any order: it classifies a failure, resets a
  node's counter on a success, and restores it on resume. The conversions a node gets in a run of events,
  and the rate-limited failures it had.\<close>

datatype floor_event = Failed failure_record time | Succeeded string | Resumed string int

fun floor_step :: "(time \<Rightarrow> string) \<Rightarrow> floor_event \<Rightarrow> rate_floor \<Rightarrow> rate_floor" where
  "floor_step fmt (Failed rec now) d = snd (classify fmt rec now d)"
| "floor_step fmt (Succeeded node) d = reset_count node d"
| "floor_step fmt (Resumed node n) d = restore_count node n d"

definition floor_run :: "(time \<Rightarrow> string) \<Rightarrow> floor_event list \<Rightarrow> rate_floor \<Rightarrow> rate_floor" where
  "floor_run fmt evs d = fold (floor_step fmt) evs d"

fun conversions :: "(time \<Rightarrow> string) \<Rightarrow> string \<Rightarrow> floor_event list \<Rightarrow> rate_floor \<Rightarrow> int" where
  "conversions fmt node [] d = 0"
| "conversions fmt node (ev # evs) d =
     (case ev of
        Failed rec now \<Rightarrow> if fr_node rec = node \<and> fst (classify fmt rec now d) \<noteq> None then 1 else 0
      | _ \<Rightarrow> 0) + conversions fmt node evs (floor_step fmt ev d)"

fun limited :: "string \<Rightarrow> floor_event list \<Rightarrow> int" where
  "limited node [] = 0"
| "limited node (Failed rec now # evs) =
     (if fr_node rec = node \<and> fr_status rec = StatusFailed \<and> fr_reason rec = ReasonRateLimit then 1 else 0) + limited node evs"
| "limited node (ev # evs) = limited node evs"

text \<open>The node's counter is set anew, and to what.\<close>

fun sets_count :: "string \<Rightarrow> floor_event \<Rightarrow> int option" where
  "sets_count node (Succeeded i) = (if i = node then Some 0 else None)"
| "sets_count node (Resumed i n) = (if i = node then Some (max 0 n) else None)"
| "sets_count node (Failed rec now) = None"

lemma classify_cases:
  "classify fmt rec now d = (r, d') \<Longrightarrow> rf_policy d' = rf_policy d \<and>
     (let hit = (fr_status rec = StatusFailed \<and> fr_reason rec = ReasonRateLimit \<and>
        rf_state d (fr_node rec) < dp_max (rf_policy d)) in
      (r \<noteq> None \<longleftrightarrow> hit) \<and>
      rf_state d' = (if hit then (rf_state d)(fr_node rec := rf_state d (fr_node rec) + 1) else rf_state d))"
  by (auto simp: classify_def Let_def split: if_splits)

lemma floor_policy [simp]: "rf_policy (floor_step fmt ev d) = rf_policy d"
proof (cases ev)
  case (Failed rec now)
  obtain r d' where c: "classify fmt rec now d = (r, d')" by fastforce
  from classify_cases [OF c] c Failed show ?thesis by simp
qed (simp_all add: reset_count_def restore_count_def)

lemma floor_run_policy [simp]: "rf_policy (floor_run fmt evs d) = rf_policy d"
  unfolding floor_run_def by (induction evs arbitrary: d) simp_all

lemma sets_count_state: "sets_count node ev = Some n \<Longrightarrow> rf_state (floor_step fmt ev d) node = n"
  by (cases ev) (auto simp: reset_count_def restore_count_def split: if_splits)

lemma limited_nonneg: "0 \<le> limited node evs"
  by (induction node evs rule: limited.induct) auto

lemma conversions_exact:
  assumes "\<forall>ev \<in> set evs. sets_count node ev = None"
  shows "conversions fmt node evs d = max 0 (min (limited node evs) (dp_max (rf_policy d) - rf_state d node))"
  using assms
proof (induction evs arbitrary: d)
  case (Cons ev evs)
  have ih: "conversions fmt node evs (floor_step fmt ev d) =
      max 0 (min (limited node evs) (dp_max (rf_policy d) - rf_state (floor_step fmt ev d) node))"
    using Cons.IH [of "floor_step fmt ev d"] Cons.prems by simp
  show ?case
  proof (cases ev)
    case (Failed rec now)
    obtain r d' where c: "classify fmt rec now d = (r, d')" by fastforce
    show ?thesis using ih Failed c classify_cases [OF c] limited_nonneg [of node evs]
      by (auto simp: Let_def split: if_splits)
  qed (use ih Cons.prems in \<open>auto simp: reset_count_def restore_count_def split: if_splits\<close>)
qed simp

text \<open>
  C14. Whatever happened to any node before, from the moment a node succeeds, or is resumed with a history
  of \<open>n\<close> defers (or the floor is new), until its next success or resume, exactly the first
  \<open>Max - n\<close> of its rate-limited failures become defers, whatever the failures say, whenever they come and
  whatever other nodes do in between; the rest flow to the failure policy.
\<close>

theorem rate_limit_conversions_bounded:
  assumes "sets_count node ev = Some n" and "\<forall>ev \<in> set later. sets_count node ev = None"
  shows "conversions fmt node later (floor_run fmt (before @ [ev]) (new_floor pol)) =
      max 0 (min (limited node later) (dp_max (with_defaults pol) - n)) \<and>
    conversions fmt node later (new_floor pol) = min (limited node later) (dp_max (with_defaults pol))"
proof
  have "rf_state (floor_run fmt (before @ [ev]) (new_floor pol)) node = n"
    using sets_count_state [OF assms(1)] by (simp add: floor_run_def)
  then show "conversions fmt node later (floor_run fmt (before @ [ev]) (new_floor pol)) =
      max 0 (min (limited node later) (dp_max (with_defaults pol) - n))"
    using conversions_exact [OF assms(2), of fmt "floor_run fmt (before @ [ev]) (new_floor pol)"] by (simp add: new_floor_def)
  have "0 < dp_max (with_defaults pol)" by (simp add: with_defaults_def)
  then show "conversions fmt node later (new_floor pol) = min (limited node later) (dp_max (with_defaults pol))"
    using conversions_exact [OF assms(2), of fmt "new_floor pol"] limited_nonneg [of node later]
    by (simp add: new_floor_def)
qed

definition demo_limited :: failure_record where
  "demo_limited = \<lparr>fr_node = ''a'', fr_status = StatusFailed, fr_reason = ReasonRateLimit,
     fr_detail = []\<rparr>"

definition demo_policy :: defer_policy where
  "demo_policy = \<lparr>dp_base = 5, dp_cap = 9, dp_horizon = 100, dp_max = 2\<rparr>"

definition demo_other :: failure_record where
  "demo_other = demo_limited\<lparr>fr_node := ''b''\<rparr>"

theorem rate_limit_conversions_bounded_witness:
  "conversions (\<lambda>t. []) ''a'' [Failed demo_limited 7, Succeeded ''b'', Failed demo_other 8, Failed demo_limited 9, Failed demo_limited 9]
     (floor_run (\<lambda>t. []) [Failed demo_limited 1, Resumed ''a'' 1] (new_floor demo_policy)) = 1"
  using rate_limit_conversions_bounded [of "''a''" "Resumed ''a'' 1" 1
      "[Failed demo_limited 7, Succeeded ''b'', Failed demo_other 8, Failed demo_limited 9, Failed demo_limited 9]"
      "\<lambda>t. []" "[Failed demo_limited 1]" demo_policy]
  by (simp add: demo_limited_def demo_other_def demo_policy_def with_defaults_def)

text \<open>
  A converted rate limit always waits for an instant after now, no further away than the trusted
  horizon or the backoff cap, whatever reset time the failure claims.
\<close>

theorem rate_limit_defer_window:
  assumes "classify fmt rec now d = (Some r, d')" and "policy_ok (rf_policy d)"
  shows "case r of
           Defer until detail \<Rightarrow> now < until \<and> until \<le> now + max (dp_horizon (rf_policy d)) (dp_cap (rf_policy d))
         | _ \<Rightarrow> False"
  using assms backoff_bounds [of "rf_policy d" "rf_state d (fr_node rec)"]
  by (auto simp: classify_def Let_def policy_ok_def split: if_splits option.splits)

theorem rate_limit_defer_window_witness:
  "case fst (classify (\<lambda>t. []) demo_limited 7 (new_floor demo_policy)) of
     Some (Defer until detail) \<Rightarrow> 7 < until \<and> until \<le> 107 | _ \<Rightarrow> False"
proof -
  obtain r d' where c: "classify (\<lambda>t. []) demo_limited 7 (new_floor demo_policy) = (Some r, d')"
    by (simp add: classify_def Let_def demo_limited_def new_floor_def demo_policy_def with_defaults_def)
  have p: "rf_policy (new_floor demo_policy) = demo_policy" "policy_ok demo_policy"
    "max (dp_horizon demo_policy) (dp_cap demo_policy) = 100"
    by (simp_all add: new_floor_def demo_policy_def with_defaults_def policy_ok_def)
  from rate_limit_defer_window [OF c] show ?thesis
    by (cases r) (simp_all add: c p)
qed

text \<open>The executor runs the floor with every field at its default.\<close>

definition zero_policy :: defer_policy where
  "zero_policy = \<lparr>dp_base = 0, dp_cap = 0, dp_horizon = 0, dp_max = 0\<rparr>"

lemma default_backoff_table:
  "list_all (\<lambda>k. backoff (with_defaults zero_policy) (int k) =
     min (60 * second * 2 ^ k) (15 * 60 * second)) [0..<63]"
  by code_simp

text \<open>
  Under the default policy the fallback backoff is one minute doubled per consecutive
  occurrence and capped at fifteen minutes, for every count: the 64-bit shift never wraps into a
  shorter wait.
\<close>

theorem default_backoff_doubles:
  assumes "0 \<le> k"
  shows "backoff (with_defaults zero_policy) k = min (60 * second * 2 ^ nat k) (15 * 60 * second)"
proof (cases "k < 63")
  case True
  then have "nat k \<in> set [0..<63]" using assms by auto
  with default_backoff_table have "backoff (with_defaults zero_policy) (int (nat k)) =
     min (60 * second * 2 ^ nat k) (15 * 60 * second)"
    by (simp only: list_all_iff)
  with assms show ?thesis by simp
next
  case False
  then have "(2::int) ^ 4 \<le> 2 ^ nat k" by (intro power_increasing) auto
  then have "15 * 60 * second \<le> 60 * second * 2 ^ nat k" by (simp add: second_def)
  with False show ?thesis by (simp add: backoff_def with_defaults_def zero_policy_def)
qed

theorem default_backoff_doubles_witness:
  "backoff (with_defaults zero_policy) 3 = 480 * second"
  using default_backoff_doubles [of 3] by (simp add: second_def)

end
