(* ===== verification/Policy.thy ===== *)
theory Policy
  imports StepResult
begin

text \<open>
  The failure policy (\<open>failure/policy.go\<close>): the attempt loop of one step, with the \<open>on_failure\<close>
  cleanup between attempts, and the fail-stop rule as data (\<open>SkipSet\<close>). The seams the policy calls
  (the step runner, the hook runner, the journal, the clock, the run context) act on a world \<open>'w\<close>,
  passed through every call, and are the fields of an environment.
\<close>

subsection \<open>The attempt loop\<close>

record step_spec =
  sp_id :: string
  sp_input_hash :: string
  sp_inputs :: "goval smap"
  sp_retry :: int
  sp_on_failure :: string
  sp_result_dir :: "(int \<Rightarrow> string) option"

record hook_invocation =
  hi_script :: string
  hi_step_id :: string
  hi_attempt :: int
  hi_inputs :: "goval smap"
  hi_error :: error_record
  hi_result_dir :: string

record cleanup_record =
  cl_step_id :: string
  cl_input_hash :: string
  cl_attempt :: int
  cl_ok :: bool
  cl_detail :: string

text \<open>The context a hook runs under: the live one, or one detached from the cancelled run and
  bounded in time.\<close>

datatype hook_ctx = LiveCtx | DetachedCtx duration

definition cleanup_grace :: duration where
  "cleanup_grace = 2 * 60 * second"

record 'w policy_env =
  pe_run :: "int \<Rightarrow> 'w \<Rightarrow> (string + result) \<times> 'w"
  pe_cancelled :: "'w \<Rightarrow> string option"
  pe_now :: "'w \<Rightarrow> time \<times> 'w"
  pe_hooks :: "(hook_ctx \<Rightarrow> hook_invocation \<Rightarrow> 'w \<Rightarrow> string option \<times> 'w) option"
  pe_journal :: "(cleanup_record \<Rightarrow> 'w \<Rightarrow> string option \<times> 'w) option"

definition cleanup_context :: "string option \<Rightarrow> hook_ctx" where
  "cleanup_context cancelled =
     (case cancelled of None \<Rightarrow> LiveCtx | Some _ \<Rightarrow> DetachedCtx cleanup_grace)"

definition err_no_hook_runner :: string where
  "err_no_hook_runner = ''failure: step declares on_failure but no hook runner is wired''"

definition run_on_failure ::
  "'w policy_env \<Rightarrow> step_spec \<Rightarrow> int \<Rightarrow> error_record \<Rightarrow> 'w \<Rightarrow> string option \<times> 'w" where
  "run_on_failure env spec attempt err w =
     (case pe_hooks env of
        None \<Rightarrow> (Some err_no_hook_runner, w)
      | Some run \<Rightarrow>
          run (cleanup_context (pe_cancelled env w))
            \<lparr>hi_script = sp_on_failure spec, hi_step_id = sp_id spec, hi_attempt = attempt,
             hi_inputs = sp_inputs spec, hi_error = err,
             hi_result_dir = (case sp_result_dir spec of None \<Rightarrow> [] | Some d \<Rightarrow> d attempt)\<rparr> w)"

definition cleanup_of :: "step_spec \<Rightarrow> int \<Rightarrow> string option \<Rightarrow> cleanup_record" where
  "cleanup_of spec attempt e =
     \<lparr>cl_step_id = sp_id spec, cl_input_hash = sp_input_hash spec, cl_attempt = attempt,
      cl_ok = (e = None), cl_detail = (case e of None \<Rightarrow> [] | Some m \<Rightarrow> m)\<rparr>"

text \<open>\<open>Policy.cleanup\<close>: a record that failed carries its error, so \<open>res.Error\<close> is never nil here;
  a nil one would panic, which the last case leaves the world unchanged for.\<close>

definition cleanup :: "'w policy_env \<Rightarrow> step_spec \<Rightarrow> result \<Rightarrow> 'w \<Rightarrow> 'w" where
  "cleanup env spec res w =
     (if sp_on_failure spec = [] then w
      else case r_error res of
        Some err \<Rightarrow>
          (let (e, w1) = run_on_failure env spec (r_attempt res) err w;
               rec = cleanup_of spec (r_attempt res) e
           in case pe_journal env of None \<Rightarrow> w1 | Some app \<Rightarrow> snd (app rec w1))
      | None \<Rightarrow> w)"

text \<open>One attempt's record after the loop has stamped and validated it.\<close>

definition attempt_result ::
  "'w policy_env \<Rightarrow> attempt_info list \<Rightarrow> int \<Rightarrow> 'w \<Rightarrow> result \<times> 'w" where
  "attempt_result env history attempt w =
     (let (started, w1) = pe_now env w;
          (out, w2) = pe_run env attempt w1;
          res = (case out of
                   Inl e \<Rightarrow> failed_result (error_of ReasonLaunch e) zero_timing 0 []
                 | Inr r \<Rightarrow> r);
          (tm, w3) = (if tm_started (r_timing res) = 0
                      then (let (finished, w') = pe_now env w2
                            in (\<lparr>tm_started = started, tm_finished = finished\<rparr>, w'))
                      else (r_timing res, w2));
          res1 = res\<lparr>r_timing := tm, r_attempt := attempt, r_attempts := history\<rparr>
      in (if validate res1 = [] then res1
          else failed_result (error_of ReasonResultSchema (validate_error (validate res1)))
                 tm attempt history, w3))"

text \<open>
  \<open>RunStep\<close>: \<open>remaining\<close> is \<open>maxAttempts - attempt\<close>, so \<open>0\<close> is the source's
  \<open>attempt == maxAttempts\<close>.
\<close>

fun run_loop ::
  "'w policy_env \<Rightarrow> step_spec \<Rightarrow> attempt_info list \<Rightarrow> int \<Rightarrow> nat \<Rightarrow> 'w \<Rightarrow> result \<times> 'w" where
  "run_loop env spec history attempt remaining w =
     (case pe_cancelled env w of
        Some cause \<Rightarrow>
          (let (now, w1) = pe_now env w
           in (failed_result (error_of ReasonCanceled cause)
                 \<lparr>tm_started = now, tm_finished = now\<rparr> attempt history, w1))
      | None \<Rightarrow>
          (let (res, w1) = attempt_result env history attempt w
           in if r_status res \<noteq> StatusFailed then (res, w1)
              else let w2 = cleanup env spec res w1
                   in (case remaining of
                         0 \<Rightarrow> (res, w2)
                       | Suc n \<Rightarrow>
                           run_loop env spec
                             (history @ [\<lparr>ai_attempt = attempt, ai_timing = r_timing res,
                                          ai_error = r_error res\<rparr>])
                             (attempt + 1) n w2)))"

declare run_loop.simps [simp del]

definition max_attempts :: "step_spec \<Rightarrow> int" where
  "max_attempts spec = (let m = 1 + sp_retry spec in if m < 1 then 1 else m)"

definition run_step :: "'w policy_env \<Rightarrow> step_spec \<Rightarrow> 'w \<Rightarrow> result \<times> 'w" where
  "run_step env spec w = run_loop env spec [] 1 (nat (max_attempts spec - 1)) w"

subsection \<open>What every returned record satisfies\<close>

definition history_ok :: "int \<Rightarrow> attempt_info list \<Rightarrow> bool" where
  "history_ok attempt h \<longleftrightarrow>
     int (length h) + 1 = attempt \<and> map ai_attempt h = map int [1..<Suc (length h)] \<and>
     (\<forall>a \<in> set h. \<exists>e. ai_error a = Some e \<and> er_reason e \<noteq> [])"

lemma history_ok_Nil [simp]: "history_ok 1 []"
  by (simp add: history_ok_def)

lemma history_ok_ge: "history_ok a h \<Longrightarrow> 1 \<le> a"
  by (auto simp: history_ok_def)

lemma history_ok_snoc:
  "history_ok a h \<Longrightarrow> er_reason e \<noteq> [] \<Longrightarrow>
   history_ok (a + 1) (h @ [\<lparr>ai_attempt = a, ai_timing = t, ai_error = Some e\<rparr>])"
  by (auto simp: history_ok_def)

lemma attempt_result_sound:
  assumes "attempt_result env h a w = (res, w')" and "1 \<le> a"
  shows "valid res \<and> r_attempt res = a \<and> r_attempts res = h"
  using assms
  by (auto simp: attempt_result_def Let_def split: prod.splits if_splits)

lemma run_loop_sound:
  assumes "run_loop env spec h a n w = (res, w')" and "history_ok a h"
  shows "valid res \<and> history_ok (r_attempt res) (r_attempts res) \<and>
         a \<le> r_attempt res \<and> r_attempt res \<le> a + int n"
  using assms
proof (induction n arbitrary: h a w)
  case 0
  from "0.prems" history_ok_ge show ?case
    by (subst (asm) run_loop.simps)
       (fastforce simp: Let_def dest: attempt_result_sound split: option.splits prod.splits if_splits)
next
  case (Suc n)
  show ?case
  proof (cases "pe_cancelled env w")
    case (Some c)
    with Suc.prems history_ok_ge show ?thesis
      by (subst (asm) run_loop.simps) (fastforce split: prod.splits)
  next
    case None
    obtain r w1 where r: "attempt_result env h a w = (r, w1)" by force
    have a1: "1 \<le> a" using Suc.prems(2) by (rule history_ok_ge)
    have snd: "valid r" "r_attempt r = a" "r_attempts r = h"
      using attempt_result_sound [OF r a1] by auto
    show ?thesis
    proof (cases "r_status r = StatusFailed")
      case False
      with Suc.prems None r snd show ?thesis
        by (subst (asm) run_loop.simps) auto
    next
      case True
      then obtain e where e: "r_error r = Some e" "er_reason e \<noteq> []"
        using valid_failedD snd(1) by blast
      have rec: "run_loop env spec (h @ [\<lparr>ai_attempt = a, ai_timing = r_timing r, ai_error = Some e\<rparr>])
                   (a + 1) n (cleanup env spec r w1) = (res, w')"
        using Suc.prems(1) None r True e(1) by (subst (asm) run_loop.simps) simp
      from Suc.IH [OF rec history_ok_snoc [OF Suc.prems(2) e(2)]] show ?thesis by auto
    qed
  qed
qed

lemma run_step_sound:
  assumes "run_step env spec w = (res, w')"
  shows "valid res \<and> history_ok (r_attempt res) (r_attempts res) \<and>
         1 \<le> r_attempt res \<and> r_attempt res \<le> max 1 (1 + sp_retry spec)"
  using run_loop_sound [OF assms [unfolded run_step_def] history_ok_Nil]
  by (auto simp: max_attempts_def Let_def split: if_splits)

subsection \<open>The order of runs and cleanups\<close>

text \<open>The same environment, with every attempt launched and every hook run logged.\<close>

datatype probe = ProbeRun int | ProbeHook int

definition traced :: "'w policy_env \<Rightarrow> ('w \<times> probe list) policy_env" where
  "traced env =
     \<lparr>pe_run = (\<lambda>a (w, l). let (r, w') = pe_run env a w in (r, (w', l @ [ProbeRun a]))),
      pe_cancelled = (\<lambda>(w, l). pe_cancelled env w),
      pe_now = (\<lambda>(w, l). let (t, w') = pe_now env w in (t, (w', l))),
      pe_hooks = map_option (\<lambda>run c i (w, l).
         let (e, w') = run c i w in (e, (w', l @ [ProbeHook (hi_attempt i)]))) (pe_hooks env),
      pe_journal = map_option (\<lambda>app r (w, l). let (e, w') = app r w in (e, (w', l))) (pe_journal env)\<rparr>"

definition rounds :: "int \<Rightarrow> int \<Rightarrow> probe list" where
  "rounds a k = concat (map (\<lambda>i. [ProbeRun i, ProbeHook i]) [a..k - 1])"

lemma rounds_same [simp]: "rounds a a = []"
  by (simp add: rounds_def)

lemma rounds_step: "a < k \<Longrightarrow> rounds a k = [ProbeRun a, ProbeHook a] @ rounds (a + 1) k"
  by (simp add: rounds_def upto_rec1)

lemma attempt_result_trace:
  "attempt_result (traced env) h a (w, l) = (res, (w', l')) \<Longrightarrow> l' = l @ [ProbeRun a]"
  by (auto simp: attempt_result_def traced_def Let_def split: prod.splits if_splits)

lemma cleanup_trace:
  assumes "sp_on_failure spec \<noteq> []" and "pe_hooks env \<noteq> None" and "r_error res \<noteq> None"
    and "cleanup (traced env) spec res (w, l) = (w', l')"
  shows "l' = l @ [ProbeHook (r_attempt res)]"
  using assms
  by (auto simp: cleanup_def run_on_failure_def traced_def Let_def
      split: prod.splits if_splits option.splits)

definition trace_tail :: "result \<Rightarrow> probe list \<Rightarrow> bool" where
  "trace_tail res t \<longleftrightarrow>
     (if r_status res = StatusFailed then t = [] \<or> t = [ProbeRun (r_attempt res), ProbeHook (r_attempt res)]
      else t = [ProbeRun (r_attempt res)])"

lemma run_loop_trace:
  assumes "run_loop (traced env) spec h a n (w, l) = (res, (w', l'))" and "1 \<le> a"
    and "sp_on_failure spec \<noteq> []" and "pe_hooks env \<noteq> None"
  shows "\<exists>t. l' = l @ rounds a (r_attempt res) @ t \<and> trace_tail res t \<and> a \<le> r_attempt res"
  using assms(1,2)
proof (induction n arbitrary: h a w l)
  case (0 h a w l)
  show ?case
  proof (cases "pe_cancelled (traced env) (w, l)")
    case (Some c)
    with "0.prems" show ?thesis
      by (subst (asm) run_loop.simps) (auto simp: traced_def trace_tail_def Let_def split: prod.splits)
  next
    case None
    obtain r w1 l1 where r: "attempt_result (traced env) h a (w, l) = (r, (w1, l1))"
      by (metis surj_pair)
    note sound = attempt_result_sound [OF r "0.prems"(2)] attempt_result_trace [OF r]
    show ?thesis
    proof (cases "r_status r = StatusFailed")
      case False
      with "0.prems" None r sound show ?thesis
        by (subst (asm) run_loop.simps) (auto simp: trace_tail_def)
    next
      case True
      with sound have "r_error r \<noteq> None" using valid_failedD by blast
      with "0.prems" None r sound True cleanup_trace [OF assms(3,4), of r w1 l1 w' l'] show ?thesis
        by (subst (asm) run_loop.simps) (auto simp: trace_tail_def)
    qed
  qed
next
  case (Suc n h a w l)
  show ?case
  proof (cases "pe_cancelled (traced env) (w, l)")
    case (Some c)
    with Suc.prems show ?thesis
      by (subst (asm) run_loop.simps) (auto simp: traced_def trace_tail_def Let_def split: prod.splits)
  next
    case None
    obtain r w1 l1 where r: "attempt_result (traced env) h a (w, l) = (r, (w1, l1))"
      by (metis surj_pair)
    note sound = attempt_result_sound [OF r Suc.prems(2)] attempt_result_trace [OF r]
    show ?thesis
    proof (cases "r_status r = StatusFailed")
      case False
      with Suc.prems None r sound show ?thesis
        by (subst (asm) run_loop.simps) (auto simp: trace_tail_def)
    next
      case True
      with sound have err: "r_error r \<noteq> None" using valid_failedD by blast
      obtain w2 l2 where c: "cleanup (traced env) spec r (w1, l1) = (w2, l2)"
        by (metis surj_pair)
      note l2 = cleanup_trace [OF assms(3,4) err c]
      have rec: "run_loop (traced env) spec
                   (h @ [\<lparr>ai_attempt = a, ai_timing = r_timing r, ai_error = r_error r\<rparr>])
                   (a + 1) n (w2, l2) = (res, (w', l'))"
        using Suc.prems(1) None r True c by (subst (asm) run_loop.simps) simp
      obtain t where t: "l' = l2 @ rounds (a + 1) (r_attempt res) @ t" "trace_tail res t"
          "a + 1 \<le> r_attempt res"
        using Suc.IH [OF rec] Suc.prems(2) by auto
      with l2 sound rounds_step [of a "r_attempt res"] show ?thesis by auto
    qed
  qed
qed

text \<open>
  C10. A step's settled record is always valid, is stamped with an attempt number within
  \<open>1 + retry\<close> (at least one), and carries the reasoned errors of exactly the attempts before it,
  numbered from 1; whatever the runner, the hooks and the journal do.
\<close>

theorem run_step_record:
  assumes "run_step env spec w = (res, w')"
  shows "validate res = [] \<and> 1 \<le> r_attempt res \<and> r_attempt res \<le> max 1 (1 + sp_retry spec) \<and>
         history_ok (r_attempt res) (r_attempts res)"
  using run_step_sound [OF assms] by blast

text \<open>
  C11. With an \<open>on_failure\<close> hook declared and wired, the attempts and the cleanups alternate:
  every attempt that failed is followed by exactly one cleanup before the next attempt starts, and
  an attempt that settled ok or halted by none.
\<close>

theorem run_step_clean_slate:
  assumes "run_step (traced env) spec (w, []) = (res, (w', trace))"
    and "sp_on_failure spec \<noteq> []" and "pe_hooks env \<noteq> None"
  shows "\<exists>t. trace = rounds 1 (r_attempt res) @ t \<and> trace_tail res t"
  using run_loop_trace [OF assms(1) [unfolded run_step_def] _ assms(2,3)] by auto

text \<open>A step that fails once and then succeeds, with a cleanup hook that succeeds.\<close>

definition demo_env :: "nat policy_env" where
  "demo_env = \<lparr>pe_run = (\<lambda>a w. (if a = 1 then Inl ''boom'' else Inr (ok_result (Some ''{}'') zero_timing), w)),
     pe_cancelled = (\<lambda>w. None), pe_now = (\<lambda>w. (int w + 1, w + 1)),
     pe_hooks = Some (\<lambda>c i w. (None, w)), pe_journal = None\<rparr>"

definition demo_spec :: step_spec where
  "demo_spec = \<lparr>sp_id = ''s'', sp_input_hash = ''h'', sp_inputs = [], sp_retry = 2,
     sp_on_failure = ''clean.sh'', sp_result_dir = None\<rparr>"

theorem run_step_record_witness:
  "r_status (fst (run_step demo_env demo_spec 0)) = StatusOK \<and>
   r_attempt (fst (run_step demo_env demo_spec 0)) = 2 \<and>
   history_ok 2 (r_attempts (fst (run_step demo_env demo_spec 0)))"
proof -
  have a: "r_status (fst (run_step demo_env demo_spec 0)) = StatusOK \<and>
     r_attempt (fst (run_step demo_env demo_spec 0)) = 2" by code_simp
  moreover have "history_ok (r_attempt (fst (run_step demo_env demo_spec 0)))
      (r_attempts (fst (run_step demo_env demo_spec 0)))"
    using run_step_record [of demo_env demo_spec 0 "fst (run_step demo_env demo_spec 0)"
        "snd (run_step demo_env demo_spec 0)"] by simp
  ultimately show ?thesis by simp
qed

theorem run_step_clean_slate_witness:
  "\<exists>t. snd (snd (run_step (traced demo_env) demo_spec (0, []))) = rounds 1 2 @ t \<and>
       t = [ProbeRun 2]"
proof -
  let ?r = "run_step (traced demo_env) demo_spec (0, [])"
  have a: "r_status (fst ?r) = StatusOK \<and> r_attempt (fst ?r) = 2" by code_simp
  have h: "sp_on_failure demo_spec \<noteq> []" "pe_hooks demo_env \<noteq> None"
    by (simp_all add: demo_spec_def demo_env_def)
  have "\<exists>t. snd (snd ?r) = rounds 1 (r_attempt (fst ?r)) @ t \<and> trace_tail (fst ?r) t"
    by (rule run_step_clean_slate [of demo_env demo_spec 0 _ "fst (snd ?r)", OF _ h]) simp
  with a show ?thesis by (simp add: trace_tail_def)
qed

subsection \<open>The fail-stop set\<close>

definition add_succ :: "string \<Rightarrow> string \<Rightarrow> string list smap \<Rightarrow> string list smap" where
  "add_succ a b m = put a (get_or [] m a @ [b]) m"

definition skip_succ :: "ir \<Rightarrow> string list smap" where
  "skip_succ g =
     fold (\<lambda>n m. case n_when n of None \<Rightarrow> m
                 | Some c \<Rightarrow> fold (\<lambda>d. add_succ d (n_id n)) (c_deps c) m)
       (ir_nodes g) (fold (\<lambda>e. add_succ (e_from e) (e_to e)) (ir_edges g) [])"

text \<open>The successors that are not in the set yet, entering it in order.\<close>

fun skip_visit :: "string list \<Rightarrow> string list \<Rightarrow> string list \<times> string list" where
  "skip_visit [] skip = ([], skip)"
| "skip_visit (x # xs) skip =
     (if x \<in> set skip then skip_visit xs skip
      else (let (new, skip') = skip_visit xs (skip @ [x]) in (x # new, skip')))"

lemma skip_visit_spec:
  "skip_visit xs skip = (new, skip') \<Longrightarrow>
   skip' = skip @ new \<and> set skip' = set skip \<union> set xs \<and> distinct new \<and> set new \<inter> set skip = {}"
proof (induction xs arbitrary: skip new skip')
  case (Cons x xs)
  then show ?case
    by (cases "x \<in> set skip"; cases "skip_visit xs (skip @ [x])") (fastforce split: prod.splits)+
qed simp

definition succ_universe :: "string list smap \<Rightarrow> string set" where
  "succ_universe m = (\<Union>p \<in> set m. set (snd p))"

lemma succ_universe_get: "set (get_or [] m a) \<subseteq> succ_universe m"
  by (cases "map_of m a") (auto simp: get_or_def succ_universe_def dest!: map_of_SomeD)

lemma finite_succ_universe [simp]: "finite (succ_universe m)"
  by (simp add: succ_universe_def)

function skip_bfs :: "string list smap \<Rightarrow> string list \<Rightarrow> string list \<Rightarrow> string list" where
  "skip_bfs m [] skip = skip"
| "skip_bfs m (x # queue) skip =
     (case skip_visit (get_or [] m x) skip of
        (new, skip') \<Rightarrow> skip_bfs m (queue @ new) skip')"
  by pat_completeness auto
termination
proof (relation "measure (\<lambda>(m, queue, skip).
    2 * card (succ_universe m - set skip) + length queue)", simp, goal_cases)
  case (1 m x queue skip new skip')
  note sp = skip_visit_spec [OF 1 [symmetric]]
  have "succ_universe m - set skip' \<union> set new \<subseteq> succ_universe m - set skip"
    using sp succ_universe_get [of m x] by auto
  then have "card (succ_universe m - set skip' \<union> set new) \<le> card (succ_universe m - set skip)"
    by (intro card_mono) auto
  moreover have "card (succ_universe m - set skip' \<union> set new) =
      card (succ_universe m - set skip') + length new"
    using sp by (subst card_Un_disjoint) (auto simp: distinct_card)
  ultimately show ?case by simp
qed

definition skip_set :: "ir \<Rightarrow> string list \<Rightarrow> string list" where
  "skip_set g failed = filter (\<lambda>x. x \<notin> set failed) (skip_bfs (skip_succ g) failed [])"

text \<open>The relation the fail-stop rule follows: the edges, data and ordering alike, and the
  condition reads.\<close>

definition dep_rel :: "ir \<Rightarrow> (string \<times> string) set" where
  "dep_rel g = {(e_from e, e_to e) | e. e \<in> set (ir_edges g)} \<union>
     {(d, n_id n) | d n c. n \<in> set (ir_nodes g) \<and> n_when n = Some c \<and> d \<in> set (c_deps c)}"

definition succ_rel :: "string list smap \<Rightarrow> (string \<times> string) set" where
  "succ_rel m = {(a, b). b \<in> set (get_or [] m a)}"

lemma succ_rel_add: "succ_rel (add_succ a b m) = insert (a, b) (succ_rel m)"
  by (auto simp: succ_rel_def add_succ_def split: if_splits)

lemma succ_rel_fold_deps:
  "succ_rel (fold (\<lambda>d. add_succ d x) ds m) = succ_rel m \<union> {(d, x) | d. d \<in> set ds}"
  by (induction ds arbitrary: m) (auto simp: succ_rel_add)

lemma succ_rel_fold_edges:
  "succ_rel (fold (\<lambda>e. add_succ (e_from e) (e_to e)) es m) =
   succ_rel m \<union> {(e_from e, e_to e) | e. e \<in> set es}"
  by (induction es arbitrary: m) (auto simp: succ_rel_add)

lemma succ_rel_fold_nodes:
  "succ_rel (fold (\<lambda>n m. case n_when n of None \<Rightarrow> m
                 | Some c \<Rightarrow> fold (\<lambda>d. add_succ d (n_id n)) (c_deps c) m) ns m) =
   succ_rel m \<union> {(d, n_id n) | d n c. n \<in> set ns \<and> n_when n = Some c \<and> d \<in> set (c_deps c)}"
proof (induction ns arbitrary: m)
  case (Cons n ns)
  then show ?case
    by (cases "n_when n") (auto simp: succ_rel_fold_deps)
qed simp

lemma succ_rel_skip_succ: "succ_rel (skip_succ g) = dep_rel g"
  by (auto simp: skip_succ_def succ_rel_fold_nodes succ_rel_fold_edges dep_rel_def)
     (auto simp: succ_rel_def)

lemma skip_bfs_sound:
  "y \<in> set (skip_bfs m q s) \<Longrightarrow> y \<in> set s \<or> (\<exists>x \<in> set q. (x, y) \<in> (succ_rel m)\<^sup>+)"
proof (induction m q s rule: skip_bfs.induct)
  case (2 m x queue skip)
  obtain new skip' where nv: "skip_visit (get_or [] m x) skip = (new, skip')" by fastforce
  note sp = skip_visit_spec [OF nv]
  have new: "set new \<subseteq> set (get_or [] m x)"
  proof
    fix z assume "z \<in> set new"
    with sp have "z \<in> set skip'" "z \<notin> set skip" by auto
    with sp show "z \<in> set (get_or [] m x)" by blast
  qed
  have "y \<in> set skip' \<or> (\<exists>z \<in> set (queue @ new). (z, y) \<in> (succ_rel m)\<^sup>+)"
    using "2.IH" [OF nv [symmetric]] "2.prems" nv by simp
  then show ?case
  proof
    assume "y \<in> set skip'"
    with sp have "y \<in> set skip \<or> (x, y) \<in> succ_rel m" by (auto simp: succ_rel_def)
    then show ?thesis by auto
  next
    assume "\<exists>z \<in> set (queue @ new). (z, y) \<in> (succ_rel m)\<^sup>+"
    then obtain z where z: "z \<in> set queue \<or> z \<in> set new" "(z, y) \<in> (succ_rel m)\<^sup>+" by auto
    moreover have "(x, y) \<in> (succ_rel m)\<^sup>+" if "z \<in> set new"
      using that new z(2) by (auto simp: succ_rel_def intro: trancl_into_trancl2)
    ultimately show ?thesis by auto
  qed
qed simp

lemma skip_bfs_closed:
  assumes "\<forall>x \<in> set s. x \<in> set q \<or> set (get_or [] m x) \<subseteq> set s"
  defines "t \<equiv> set (skip_bfs m q s)"
  shows "set s \<subseteq> t \<and> (\<forall>x \<in> set q. set (get_or [] m x) \<subseteq> t) \<and> (\<forall>x \<in> t. set (get_or [] m x) \<subseteq> t)"
  using assms(1) unfolding t_def
proof (induction m q s rule: skip_bfs.induct)
  case (2 m x queue skip)
  obtain new skip' where nv: "skip_visit (get_or [] m x) skip = (new, skip')" by fastforce
  note sp = skip_visit_spec [OF nv]
  have "\<forall>y \<in> set skip'. y \<in> set (queue @ new) \<or> set (get_or [] m y) \<subseteq> set skip'"
    using sp "2.prems" by fastforce
  note IH = "2.IH" [OF nv [symmetric] this]
  have "set (get_or [] m x) \<subseteq> set skip'" using sp by auto
  with IH sp nv show ?case by (simp add: subset_trans)
qed simp

text \<open>
  C12. Fail-stop as data: given the failed nodes, \<open>SkipSet\<close> computes exactly the transitive
  dependents along edges and condition reads that did not themselves fail; independent branches
  stay out of the set.
\<close>

theorem skip_set_transitive_dependents:
  "y \<in> set (skip_set g failed) \<longleftrightarrow>
   y \<notin> set failed \<and> (\<exists>x \<in> set failed. (x, y) \<in> (dep_rel g)\<^sup>+)"
proof -
  let ?m = "skip_succ g" and ?t = "set (skip_bfs (skip_succ g) failed [])"
  have c: "\<forall>x \<in> set failed. set (get_or [] ?m x) \<subseteq> ?t" "\<forall>x \<in> ?t. set (get_or [] ?m x) \<subseteq> ?t"
    using skip_bfs_closed [of "[]" failed ?m] by auto
  have "z \<in> ?t" if "(x, z) \<in> (succ_rel ?m)\<^sup>+" and "x \<in> set failed" for x z
    using that by (induction rule: trancl_induct) (use c in \<open>auto simp: succ_rel_def\<close>)
  then show ?thesis
    using skip_bfs_sound [of y ?m failed "[]"]
    by (auto simp: skip_set_def succ_rel_skip_succ)
qed

end
