(* ===== verification/ExecGraph.thy ===== *)
theory ExecGraph
  imports MeterTiers
begin

text \<open>
  The flattened execution graph (\<open>pipeline/graph.go\<close>): per-node scheduler state, the adjacency with
  its duplicate guard and in-degrees, splicing an IR level with its nested graphs, and the rollback
  of a failed splice. A scope is shared and mutable, so a node holds an address into the store
  \<open>g_envs\<close>. A Go map that the code only reads by key is a total function with the zero value.
\<close>

subsection \<open>Node state\<close>

abbreviation StateOK :: string where "StateOK \<equiv> ''ok''"
abbreviation StateFailed :: string where "StateFailed \<equiv> ''failed''"
abbreviation StateHalted :: string where "StateHalted \<equiv> ''halted''"
abbreviation StateSkippedCondition :: string where "StateSkippedCondition \<equiv> ''skipped-condition''"
abbreviation StateSkippedDependency :: string where "StateSkippedDependency \<equiv> ''skipped-dependency''"
abbreviation StateSkippedHalt :: string where "StateSkippedHalt \<equiv> ''skipped-halt''"
abbreviation StateAbsent :: string where "StateAbsent \<equiv> ''absent''"

abbreviation ReasonBudget :: string where "ReasonBudget \<equiv> ''budget''"
abbreviation ReasonAdmission :: string where "ReasonAdmission \<equiv> ''admission''"
abbreviation ReasonCondition :: string where "ReasonCondition \<equiv> ''condition''"
abbreviation ReasonExpansion :: string where "ReasonExpansion \<equiv> ''expansion''"
abbreviation ReasonDeferred :: string where "ReasonDeferred \<equiv> ''deferred''"
abbreviation ReasonCached :: string where "ReasonCached \<equiv> ''cached''"

datatype node_life = Pending | Queued | SlotWait | Running | Deferred | Done

record scope_env =
  sc_entry :: string
  sc_params :: "goval smap"

record exec_node =
  xn_node :: node
  xn_env :: nat
  xn_when :: "string option"   \<comment> \<open>compiled programs, by their source\<close>
  xn_exh :: "string option"
  xn_life :: node_life
  xn_status :: string
  xn_payload :: "goval smap"
  xn_raw :: "string option"
  xn_inputs :: "goval smap"
  xn_hash :: string
  xn_image :: string
  xn_cached :: bool
  xn_gen :: string
  xn_waiting :: string
  xn_used :: int
  xn_history :: "attempt_info list"
  xn_annotations :: "attempt_info list"
  xn_costs :: "cost list"

definition fresh_node :: "node \<Rightarrow> nat \<Rightarrow> string option \<Rightarrow> string option \<Rightarrow> exec_node" where
  "fresh_node n env w e =
     \<lparr>xn_node = n, xn_env = env, xn_when = w, xn_exh = e, xn_life = Pending, xn_status = [],
      xn_payload = [], xn_raw = None, xn_inputs = [], xn_hash = [], xn_image = [],
      xn_cached = False, xn_gen = [], xn_waiting = [], xn_used = 0, xn_history = [],
      xn_annotations = [], xn_costs = []\<rparr>"

definition terminal :: "exec_node \<Rightarrow> bool" where
  "terminal n \<longleftrightarrow> xn_life n = Done"

subsection \<open>The graph\<close>

record graph =
  g_nodes :: "exec_node smap"
  g_succ :: "string list smap"
  g_pair :: "string \<Rightarrow> string \<Rightarrow> bool"
  g_indeg :: "string \<Rightarrow> int"
  g_data_in :: "string \<Rightarrow> edge list"
  g_members :: "string \<Rightarrow> string list"
  g_done :: int
  g_envs :: "scope_env list"

definition new_graph :: graph where
  "new_graph = \<lparr>g_nodes = [], g_succ = [], g_pair = (\<lambda>_ _. False), g_indeg = (\<lambda>_. 0),
     g_data_in = (\<lambda>_. []), g_members = (\<lambda>_. []), g_done = 0, g_envs = []\<rparr>"

abbreviation node_at :: "graph \<Rightarrow> string \<Rightarrow> exec_node option" where
  "node_at g \<equiv> map_of (g_nodes g)"

abbreviation succs :: "graph \<Rightarrow> string \<Rightarrow> string list" where
  "succs g \<equiv> get_or [] (g_succ g)"

definition new_env :: "scope_env \<Rightarrow> graph \<Rightarrow> nat \<times> graph" where
  "new_env e g = (length (g_envs g), g\<lparr>g_envs := g_envs g @ [e]\<rparr>)"

definition env_params :: "graph \<Rightarrow> nat \<Rightarrow> goval smap" where
  "env_params g a = (if a < length (g_envs g) then sc_params (g_envs g ! a) else [])"

text \<open>\<open>graph.edge\<close>: one readiness edge per pair.\<close>

definition add_edge :: "string \<Rightarrow> string \<Rightarrow> graph \<Rightarrow> graph" where
  "add_edge a b g =
     (if g_pair g a b then g
      else g\<lparr>g_pair := (g_pair g)(a := (g_pair g a)(b := True)),
             g_succ := put a (succs g a @ [b]) (g_succ g),
             g_indeg := (g_indeg g)(b := g_indeg g b + 1)\<rparr>)"

definition node_conds :: "node \<Rightarrow> cond_spec list" where
  "node_conds n =
     (case n_when n of None \<Rightarrow> [] | Some c \<Rightarrow> [c]) @
     (case n_sel n of None \<Rightarrow> [] | Some s \<Rightarrow> (case sel_exhausted s of None \<Rightarrow> [] | Some c \<Rightarrow> [c]))"

definition level_edges :: "ir \<Rightarrow> (string \<times> string) list" where
  "level_edges g =
     map (\<lambda>e. (e_from e, e_to e)) (ir_edges g) @
     concat (map (\<lambda>n. concat (map (\<lambda>c. map (\<lambda>d. (d, n_id n)) (c_deps c)) (node_conds n))) (ir_nodes g))"

definition level_sources :: "ir \<Rightarrow> string list" where
  "level_sources g =
     sort (filter (\<lambda>i. i \<notin> snd ` set (level_edges g)) (map n_id (ir_nodes g)))"

function deep_sinks :: "ir \<Rightarrow> string list" where
  "deep_sinks g =
     sort (concat (map (\<lambda>n.
       if n_id n \<in> fst ` set (level_edges g) then []
       else if n_kind n = KindSubWorkflow
         then (case n_sub n of Some h \<Rightarrow> deep_sinks h | None \<Rightarrow> [n_id n])
         else [n_id n]) (ir_nodes g)))"
  by pat_completeness auto
termination by (relation "measure size") (auto simp: termination_simp)

declare deep_sinks.simps [simp del]

definition sorted_ids :: "graph \<Rightarrow> string list" where
  "sorted_ids g = sorted_keys (g_nodes g)"

subsection \<open>Splicing a level\<close>

text \<open>
  \<open>condEval.compile\<close> asks the CEL library to check the expression; \<open>chk\<close> is its answer, an error
  text or nothing. The program is determined by its source.
\<close>

type_synonym cel_check = "string \<Rightarrow> string option"

definition cond_compile :: "cel_check \<Rightarrow> cond_spec option \<Rightarrow> string + string option" where
  "cond_compile chk spec =
     (case spec of
        None \<Rightarrow> Inr None
      | Some c \<Rightarrow>
          (case chk (c_cel c) of
             Some e \<Rightarrow> Inl (''pipeline: condition '' @ quote_str (c_cel c) @ '': '' @ e)
           | None \<Rightarrow> Inr (Some (c_cel c))))"

definition node_progs :: "cel_check \<Rightarrow> node \<Rightarrow> string + string option \<times> string option" where
  "node_progs chk n =
     (case cond_compile chk (n_when n) of
        Inl e \<Rightarrow> Inl (''pipeline: node '' @ n_id n @ '': '' @ e)
      | Inr w \<Rightarrow>
          (case cond_compile chk (case n_sel n of None \<Rightarrow> None | Some s \<Rightarrow> sel_exhausted s) of
             Inl e \<Rightarrow> Inl (''pipeline: node '' @ n_id n @ '': '' @ e)
           | Inr x \<Rightarrow> Inr (w, x)))"

text \<open>A step that may stop with an error keeps what it did to the graph until then.\<close>

type_synonym splice = "string option \<times> string list \<times> graph"

fun add_edges :: "edge list \<Rightarrow> graph \<Rightarrow> string option \<times> graph" where
  "add_edges [] g = (None, g)"
| "add_edges (e # es) g =
     (if node_at g (e_from e) = None
        then (Some (''pipeline: edge from unknown node '' @ quote_str (e_from e)), g)
      else if node_at g (e_to e) = None
        then (Some (''pipeline: edge to unknown node '' @ quote_str (e_to e)), g)
      else (let g1 = add_edge (e_from e) (e_to e) g
            in add_edges es (if is_ordering e then g1
                 else g1\<lparr>g_data_in := (g_data_in g1)(e_to e := g_data_in g1 (e_to e) @ [e])\<rparr>)))"

definition cond_pairs :: "node list \<Rightarrow> (string \<times> string) list" where
  "cond_pairs ns =
     concat (map (\<lambda>n. concat (map (\<lambda>c. map (\<lambda>d. (d, n_id n)) (c_deps c)) (node_conds n))) ns)"

fun add_cond_edges :: "(string \<times> string) list \<Rightarrow> graph \<Rightarrow> string option \<times> graph" where
  "add_cond_edges [] g = (None, g)"
| "add_cond_edges ((d, n) # ps) g =
     (if node_at g d = None
      then (Some (''pipeline: node '' @ n @ '' condition reads unknown node '' @ quote_str d), g)
      else add_cond_edges ps (add_edge d n g))"

text \<open>The outer dependents of a sub-workflow entry wait on its deep sinks too. A sub-workflow node
  always has its graph here: a missing one stopped the level before.\<close>

definition sink_pairs :: "ir \<Rightarrow> (string \<times> string) list" where
  "sink_pairs g =
     concat (map (\<lambda>n. if n_kind n \<noteq> KindSubWorkflow then []
       else (case n_sub n of
               None \<Rightarrow> []
             | Some h \<Rightarrow> concat (map (\<lambda>e. if e_from e \<noteq> n_id n then []
                            else map (\<lambda>s. (s, e_to e)) (deep_sinks h)) (ir_edges g)))) (ir_nodes g))"

definition add_pairs :: "(string \<times> string) list \<Rightarrow> graph \<Rightarrow> graph" where
  "add_pairs ps g = fold (\<lambda>p. add_edge (fst p) (snd p)) ps g"

function (sequential)
  add_level :: "cel_check \<Rightarrow> ir \<Rightarrow> nat \<Rightarrow> graph \<Rightarrow> splice" and
  add_nodes :: "cel_check \<Rightarrow> node list \<Rightarrow> nat \<Rightarrow> graph \<Rightarrow> splice"
where
  "add_level chk lvl env g =
     (case add_nodes chk (ir_nodes lvl) env g of
        (Some e, added, g1) \<Rightarrow> (Some e, added, g1)
      | (None, added, g1) \<Rightarrow>
          (case add_edges (ir_edges lvl) g1 of
             (Some e, g2) \<Rightarrow> (Some e, added, g2)
           | (None, g2) \<Rightarrow>
               (case add_cond_edges (cond_pairs (ir_nodes lvl)) g2 of
                  (Some e, g3) \<Rightarrow> (Some e, added, g3)
                | (None, g3) \<Rightarrow> (None, added, add_pairs (sink_pairs lvl) g3))))"
| "add_nodes chk [] env g = (None, [], g)"
| "add_nodes chk (n # ns) env g =
     (if node_at g (n_id n) \<noteq> None
        then (Some (''pipeline: duplicate node id '' @ quote_str (n_id n)), [], g)
      else case node_progs chk n of
        Inl e \<Rightarrow> (Some e, [], g)
      | Inr (w, x) \<Rightarrow>
          (let g1 = g\<lparr>g_nodes := put (n_id n) (fresh_node n env w x) (g_nodes g)\<rparr>
           in if n_kind n \<noteq> KindSubWorkflow
              then (case add_nodes chk ns env g1 of (e, added, g2) \<Rightarrow> (e, n_id n # added, g2))
              else case n_sub n of
                None \<Rightarrow> (Some (''pipeline: sub-workflow node '' @ n_id n @ '' has no inlined graph''),
                         [n_id n], g1)
              | Some h \<Rightarrow>
                  (case new_env \<lparr>sc_entry = n_id n, sc_params = []\<rparr> g1 of (a, g2) \<Rightarrow>
                   (case add_level chk h a g2 of
                      (Some e, inner, g3) \<Rightarrow> (Some e, n_id n # inner, g3)
                    | (None, inner, g3) \<Rightarrow>
                        (let g4 = g3\<lparr>g_members := (g_members g3)(n_id n := inner)\<rparr>;
                             g5 = add_pairs (map (\<lambda>s. (n_id n, s)) (level_sources h)) g4
                         in case add_nodes chk ns env g5 of
                              (e, added, g6) \<Rightarrow> (e, n_id n # inner @ added, g6))))))"
  by pat_completeness auto
termination
  by (relation "measure (\<lambda>x. case x of Inl (_, lvl, _, _) \<Rightarrow> size lvl
                | Inr (_, ns, _, _) \<Rightarrow> size_list size ns)")
     (auto dest: n_sub_size, case_tac lvl, auto)

declare add_level.simps [simp del] add_nodes.simps [simp del]

subsection \<open>Rollback\<close>

definition drop_succ :: "string list \<Rightarrow> string list smap \<Rightarrow> string list smap" where
  "drop_succ ids m = map (\<lambda>(a, bs). (a, filter (\<lambda>b. b \<notin> set ids) bs))
                       (filter (\<lambda>(a, bs). a \<notin> set ids) m)"

definition remove_ids :: "string list \<Rightarrow> graph \<Rightarrow> graph" where
  "remove_ids ids g = g
     \<lparr>g_nodes := filter (\<lambda>(i, n). i \<notin> set ids) (g_nodes g),
      g_data_in := (\<lambda>i. if i \<in> set ids then [] else g_data_in g i),
      g_members := (\<lambda>i. if i \<in> set ids then [] else g_members g i),
      g_succ := drop_succ ids (g_succ g),
      g_pair := (\<lambda>a b. g_pair g a b \<and> a \<notin> set ids \<and>
                   \<not> (b \<in> set ids \<and> b \<in> set (succs g a))),
      g_indeg := (\<lambda>i. if i \<in> set ids then 0 else g_indeg g i)\<rparr>"

end
