(* ===== verification/Dataflow.thy ===== *)
theory Dataflow
  imports ExecGraph
begin

text \<open>
  How values reach a node (\<open>pipeline/values.go\<close>) and how a condition is decided
  (\<open>pipeline/cond.go\<close>). The CEL evaluator is a parameter: from a program, the step payloads and
  the params to an error, a boolean, or the Go type name of a result that is not one. \<open>pf\<close> is
  \<open>strconv.ParseFloat\<close> on a JSON number.
\<close>

subsection \<open>Bindings and inputs\<close>

datatype bound = BErr string | BAbsent | BVal goval

definition resolve_binding :: "binding_desc \<Rightarrow> goval smap \<Rightarrow> bound" where
  "resolve_binding bd params =
     (if b_kind bd = BindLiteral then BVal (b_value bd)
      else if b_kind bd = BindParam then
        (case map_of params (b_name bd) of None \<Rightarrow> BAbsent | Some v \<Rightarrow> BVal v)
      else if b_kind bd = BindItem then
        BErr (''item binding '' @ quote_str (b_field bd) @ '' survived to run time'')
      else BErr (''unknown binding kind '' @ quote_str (b_kind bd)))"

fun bind_slots :: "binding_desc smap \<Rightarrow> goval smap \<Rightarrow> string list \<Rightarrow> goval smap
    \<Rightarrow> (string \<times> string) + goval smap" where
  "bind_slots bs params [] acc = Inr acc"
| "bind_slots bs params (s # ss) acc =
     (case map_of bs s of
        None \<Rightarrow> bind_slots bs params ss acc
      | Some bd \<Rightarrow>
          (case resolve_binding bd params of
             BErr e \<Rightarrow> Inl (s, e)
           | BAbsent \<Rightarrow> bind_slots bs params ss acc
           | BVal v \<Rightarrow> bind_slots bs params ss (put s v acc)))"

text \<open>What the data edges into a node deliver: all of them, an error, or the first source that
  settled skipped.\<close>

datatype inputs = InErr string | InSkip string | InOk "goval smap"

definition skipped_state :: "string \<Rightarrow> bool" where
  "skipped_state st \<longleftrightarrow> st = StateSkippedCondition \<or> st = StateSkippedDependency \<or> st = StateSkippedHalt"

fun edge_inputs :: "graph \<Rightarrow> edge list \<Rightarrow> goval smap \<Rightarrow> inputs" where
  "edge_inputs g [] acc = InOk acc"
| "edge_inputs g (e # es) acc =
     (let here = (\<lambda>m. InErr (''input '' @ quote_str (e_to_port e) @ '': source '' @ e_from e @ m))
      in case node_at g (e_from e) of
           None \<Rightarrow> here '' has not settled''
         | Some src \<Rightarrow>
             if \<not> terminal src then here '' has not settled''
             else if xn_status src = StateOK then
               (case map_of (xn_payload src) (e_from_port e) of
                  None \<Rightarrow> here ('' settled without field '' @ quote_str (e_from_port e))
                | Some v \<Rightarrow> edge_inputs g es (put (e_to_port e) v acc))
             else if skipped_state (xn_status src) then InSkip (e_from e)
             else here ('' settled '' @ xn_status src))"

fun default_slots :: "param_def smap \<Rightarrow> string list \<Rightarrow> goval smap \<Rightarrow> goval smap" where
  "default_slots ps [] acc = acc"
| "default_slots ps (s # ss) acc =
     (case map_of acc s of
        Some _ \<Rightarrow> default_slots ps ss acc
      | None \<Rightarrow>
          (case map_of ps s of
             None \<Rightarrow> default_slots ps ss acc
           | Some p \<Rightarrow>
               (case pd_default p of
                  None \<Rightarrow> default_slots ps ss acc
                | Some v \<Rightarrow> default_slots ps ss (put s v acc))))"

definition resolve_inputs :: "graph \<Rightarrow> exec_node \<Rightarrow> inputs" where
  "resolve_inputs g n =
     (let bs = n_bindings (xn_node n) in
      case bind_slots bs (env_params g (xn_env n)) (sorted_keys bs) [] of
        Inl (s, e) \<Rightarrow> InErr (''input '' @ quote_str s @ '': '' @ e)
      | Inr acc \<Rightarrow>
          (case edge_inputs g (g_data_in g (n_id (xn_node n))) acc of
             InOk m \<Rightarrow>
               (case n_template (xn_node n) of
                  None \<Rightarrow> InOk m
                | Some t \<Rightarrow> InOk (default_slots (t_inputs t) (sorted_keys (t_inputs t)) m))
           | r \<Rightarrow> r))"

definition param_values :: "(goval \<times> string) smap \<Rightarrow> goval smap" where
  "param_values ps = map (\<lambda>(k, v, t). (k, v)) ps"

subsection \<open>Payloads\<close>

text \<open>Decoding into dynamic values turns every number into a \<open>float64\<close>; one out of range is an
  error.\<close>

fun all_some :: "('a \<Rightarrow> 'b option) \<Rightarrow> 'a list \<Rightarrow> 'b list option" where
  "all_some f [] = Some []"
| "all_some f (x # xs) = (case f x of None \<Rightarrow> None | Some y \<Rightarrow> map_option ((#) y) (all_some f xs))"

lemma all_some_cong [fundef_cong]:
  "xs = ys \<Longrightarrow> (\<And>x. x \<in> set ys \<Longrightarrow> f x = g x) \<Longrightarrow> all_some f xs = all_some g ys"
  by (induction xs arbitrary: ys) (auto split: option.splits)

fun floatify :: "(string \<Rightarrow> f64 option) \<Rightarrow> goval \<Rightarrow> goval option" where
  "floatify pf (VNumber t) = map_option VFloat (pf t)"
| "floatify pf (VList vs) = map_option VList (all_some (floatify pf) vs)"
| "floatify pf (VMap m) =
     map_option VMap (all_some (\<lambda>(k, v). map_option (Pair k) (floatify pf v)) m)"
| "floatify pf v = Some v"

definition json_unmarshal :: "(string \<Rightarrow> f64 option) \<Rightarrow> string \<Rightarrow> goval option" where
  "json_unmarshal pf s = (case json_parse s of None \<Rightarrow> None | Some v \<Rightarrow> floatify pf v)"

definition decode_payload :: "(string \<Rightarrow> f64 option) \<Rightarrow> string option \<Rightarrow> string + goval smap" where
  "decode_payload pf raw =
     (case raw of
        None \<Rightarrow> Inr []
      | Some s \<Rightarrow>
          if s = [] then Inr []
          else (case json_unmarshal pf s of
                  Some VNull \<Rightarrow> Inr []
                | Some (VMap m) \<Rightarrow> Inr m
                | _ \<Rightarrow> Inl ''decode payload: not a JSON object''))"

subsection \<open>Conditions\<close>

type_synonym cel_eval = "string \<Rightarrow> goval smap smap \<Rightarrow> goval smap \<Rightarrow> string + (bool + string)"

text \<open>The dependencies in order: an unknown or unsettled one is an error, the first skipped one
  decides the condition, otherwise the payloads.\<close>

fun cond_steps :: "string \<Rightarrow> graph \<Rightarrow> string list \<Rightarrow> goval smap smap
    \<Rightarrow> string + (goval smap smap option)" where
  "cond_steps c g [] acc = Inr (Some acc)"
| "cond_steps c g (d # ds) acc =
     (case node_at g d of
        None \<Rightarrow> Inl (''pipeline: condition '' @ quote_str c @ '' reads unknown node '' @ quote_str d)
      | Some n \<Rightarrow>
          if \<not> terminal n then
            Inl (''pipeline: condition '' @ quote_str c @ '' reads unsettled node '' @ quote_str d)
          else if skipped_state (xn_status n) then Inr None
          else cond_steps c g ds (put d (xn_payload n) acc))"

definition cond_eval :: "cel_eval \<Rightarrow> string option \<Rightarrow> cond_spec \<Rightarrow> graph \<Rightarrow> goval smap \<Rightarrow> string + bool" where
  "cond_eval cel prog spec g params =
     (case cond_steps (c_cel spec) g (c_deps spec) [] of
        Inl e \<Rightarrow> Inl e
      | Inr None \<Rightarrow> Inr False
      | Inr (Some steps) \<Rightarrow>
          (case cel (case prog of None \<Rightarrow> [] | Some p \<Rightarrow> p) steps params of
             Inl e \<Rightarrow> Inl (''pipeline: condition '' @ quote_str (c_cel spec) @ '': '' @ e)
           | Inr (Inr ty) \<Rightarrow>
               Inl (''pipeline: condition '' @ quote_str (c_cel spec) @ '' evaluated to '' @ ty @ '', want bool'')
           | Inr (Inl b) \<Rightarrow> Inr b))"

subsection \<open>What resolution guarantees\<close>

lemma edge_inputs_ok:
  "edge_inputs g es acc = InOk m \<Longrightarrow> e \<in> set es \<Longrightarrow>
   \<exists>n. node_at g (e_from e) = Some n \<and> terminal n \<and> xn_status n = StateOK \<and>
       e_from_port e \<in> keys (xn_payload n)"
  by (induction g es acc rule: edge_inputs.induct)
     (auto simp: Let_def split: option.splits if_splits)

text \<open>A condition holds only when every step it reads settled without being skipped.\<close>

lemma cond_steps_some:
  "cond_steps c g ds acc = Inr (Some r) \<Longrightarrow> d \<in> set ds \<Longrightarrow>
   \<exists>n. node_at g d = Some n \<and> terminal n \<and> \<not> skipped_state (xn_status n)"
  by (induction ds arbitrary: acc) (auto split: option.splits if_splits)

lemma cond_eval_true:
  assumes "cond_eval cel prog spec g params = Inr True" and "d \<in> set (c_deps spec)"
  shows "\<exists>n. node_at g d = Some n \<and> terminal n \<and> \<not> skipped_state (xn_status n)"
  using assms cond_steps_some
  by (auto simp: cond_eval_def split: sum.splits option.splits)

end
