(* ===== verification/Refs.thy ===== *)
theory Refs
  imports GoValues
begin

text \<open>
  The interpolation grammar of bindings (\<open>config/refs.go\<close>): a string that mentions a reference is
  exactly one reference, with one of four roots, and compounds carry none.
\<close>

datatype ref_root = RootParams | RootSteps | RootItem | RootSources

record ref =
  ref_root :: ref_root
  ref_name :: string
  ref_field :: string

datatype binding = BLit goval | BRef ref

definition root_of :: "string \<Rightarrow> ref_root option" where
  "root_of s =
     (if s = ''params'' then Some RootParams else if s = ''steps'' then Some RootSteps
      else if s = ''item'' then Some RootItem else if s = ''sources'' then Some RootSources
      else None)"

definition root_name :: "ref_root \<Rightarrow> string" where
  "root_name r = (case r of RootParams \<Rightarrow> ''params'' | RootSteps \<Rightarrow> ''steps''
     | RootItem \<Rightarrow> ''item'' | RootSources \<Rightarrow> ''sources'')"

text \<open>\<open>Ref.String\<close>\<close>

definition ref_string :: "ref \<Rightarrow> string" where
  "ref_string r =
     (if ref_field r \<noteq> [] then root_name (ref_root r) @ ''.'' @ ref_name r @ ''.'' @ ref_field r
      else root_name (ref_root r) @ ''.'' @ ref_name r)"

definition parse_ref :: "string \<Rightarrow> string + ref" where
  "parse_ref s =
     (let parts = split_on CHR ''.'' s; here = (\<lambda>m. Inl (''reference '' @ quote_str s @ m)) in
      if [] \<in> set parts then here '': empty segment''
      else case parts of
        [] \<Rightarrow> here '': empty segment''
      | p # ps \<Rightarrow>
          (case root_of p of
             None \<Rightarrow> here ('': unknown root '' @ quote_str p @ '' (legal roots: params, steps, item, sources)'')
           | Some RootSteps \<Rightarrow>
               (case ps of
                  [n, f] \<Rightarrow> Inr \<lparr>ref_root = RootSteps, ref_name = n, ref_field = f\<rparr>
                | _ \<Rightarrow> here '': steps references must be steps.<id>.<field>'')
           | Some r \<Rightarrow>
               (case ps of
                  [n] \<Rightarrow> Inr \<lparr>ref_root = r, ref_name = n, ref_field = []\<rparr>
                | _ \<Rightarrow> here ('': '' @ p @ '' references take exactly one segment ('' @ p @ ''.name)''))))"

abbreviation ref_open :: string where "ref_open \<equiv> ''${''"

text \<open>The literal compounds a binding may not hide a reference in.\<close>

function (sequential) reject_nested_refs :: "goval \<Rightarrow> string option" where
  "reject_nested_refs (VStr s) =
     (if contains_str ref_open s
      then Some (''value '' @ quote_str s @ '': ${...} references are only legal as a whole scalar binding value, not nested inside a map or list literal'')
      else None)"
| "reject_nested_refs (VMap m) =
     (case List.find (\<lambda>e. e \<noteq> None)
        (map (\<lambda>k. if k \<in> fst ` set m then reject_nested_refs (assoc_get m k) else None) (sorted_keys m)) of
        None \<Rightarrow> None | Some e \<Rightarrow> e)"
| "reject_nested_refs (VList vs) =
     (case List.find (\<lambda>e. e \<noteq> None) (map reject_nested_refs vs) of None \<Rightarrow> None | Some e \<Rightarrow> e)"
| "reject_nested_refs (VAnyMap m) =
     (case List.find (\<lambda>e. e \<noteq> None) (map (\<lambda>p. reject_nested_refs (snd p)) m) of None \<Rightarrow> None | Some e \<Rightarrow> e)"
| "reject_nested_refs v = None"
  by pat_completeness auto
termination
proof (relation "measure size", goal_cases)
  case (2 m k)
  then show ?case using size_assoc_get [of k m] by auto
next
  case (3 vs x)
  then show ?case by (auto dest: size_list_estimation' [of x vs "size x" size, OF _ order_refl])
next
  case (4 m p)
  have "size (snd p) \<le> size_prod size size p" by (cases p) simp
  with 4 have "size (snd p) \<le> size_list (size_prod size size) m"
    by (intro size_list_estimation' [of p m]) auto
  then show ?case by simp
qed auto

fun count_str :: "string \<Rightarrow> string \<Rightarrow> nat" where
  "count_str p [] = 0"
| "count_str p (x # xs) = (if has_prefix p (x # xs) then 1 else 0) + count_str p xs"

text \<open>\<open>strings.Count\<close> of a pattern whose occurrences cannot overlap, which both uses here are.\<close>

definition parse_binding :: "goval \<Rightarrow> string + binding" where
  "parse_binding v =
     (case v of
        VStr s \<Rightarrow>
          if \<not> contains_str ref_open s then Inr (BLit v)
          else if \<not> has_prefix ref_open s \<or> last s \<noteq> CHR ''}'' \<or> count_str ref_open s \<noteq> 1
                  \<or> count_str ''}'' s \<noteq> 1
            then Inl (''value '' @ quote_str s @ '': interpolation must be exactly one ${ref} with no surrounding text'')
          else (case parse_ref (butlast (drop 2 s)) of Inl e \<Rightarrow> Inl e | Inr r \<Rightarrow> Inr (BRef r))
      | _ \<Rightarrow> (case reject_nested_refs v of Some e \<Rightarrow> Inl e | None \<Rightarrow> Inr (BLit v)))"

text \<open>Printing a reference and parsing it back.\<close>

definition ref_ok :: "ref \<Rightarrow> bool" where
  "ref_ok r \<longleftrightarrow> ref_name r \<noteq> [] \<and> CHR ''.'' \<notin> set (ref_name r) \<and> CHR ''.'' \<notin> set (ref_field r) \<and>
     (ref_root r = RootSteps \<longleftrightarrow> ref_field r \<noteq> [])"

lemma split_on_none: "c \<notin> set s \<Longrightarrow> split_on c s = [s]"
  by (induction s) auto

lemma split_on_sep: "c \<notin> set s \<Longrightarrow> split_on c (s @ c # t) = s # split_on c t"
  by (induction s) auto

lemma split_on_no_sep: "x \<in> set (split_on c s) \<Longrightarrow> c \<notin> set x"
proof (induction s arbitrary: x)
  case (Cons a s)
  then show ?case by (cases "split_on c s") (auto split: if_splits)
qed simp

lemma root_name_chars [simp]: "CHR ''.'' \<notin> set (root_name r)"
  by (cases r) (auto simp: root_name_def)

lemma root_of_name [simp]: "root_of (root_name r) = Some r"
  by (cases r) (auto simp: root_name_def root_of_def)

lemma parse_ref_string:
  assumes "ref_ok r"
  shows "parse_ref (ref_string r) = Inr r"
proof -
  have n: "root_name (ref_root r) \<noteq> []" by (cases "ref_root r") (auto simp: root_name_def)
  show ?thesis
  proof (cases "ref_root r")
    case RootSteps
    with assms n show ?thesis
      by (auto simp: ref_ok_def parse_ref_def ref_string_def split_on_none split_on_sep Let_def
          root_of_def root_name_def intro: ref.equality)
  qed (use assms n in \<open>auto simp: ref_ok_def parse_ref_def ref_string_def split_on_none split_on_sep
          Let_def root_of_def root_name_def\<close>)
qed

lemma root_of_Some: "root_of p = Some r \<Longrightarrow> p = root_name r"
  by (auto simp: root_of_def root_name_def split: if_splits)

lemma parse_ref_ok:
  assumes "parse_ref s = Inr r"
  shows "ref_ok r \<and> ref_string r = s"
proof -
  obtain p ps where ps: "split_on CHR ''.'' s = p # ps" by (cases "split_on CHR ''.'' s") auto
  have s: "s = join ''.'' (p # ps)" using join_split_on [of "CHR ''.''" s] ps by simp
  have ne: "[] \<notin> set (p # ps)" using assms ps by (auto simp: parse_ref_def Let_def split: if_splits)
  have nd: "CHR ''.'' \<notin> set x" if "x \<in> set (p # ps)" for x
    using split_on_no_sep [of x "CHR ''.''" s] that ps by simp
  obtain q where q: "root_of p = Some q"
    using assms ps ne by (auto simp: parse_ref_def Let_def split: option.splits if_splits)
  have rn: "root_of (root_name q) = Some q" by simp
  show ?thesis
  proof (cases "q = RootSteps")
    case True
    then obtain n f where nf: "ps = [n, f]" "r = \<lparr>ref_root = RootSteps, ref_name = n, ref_field = f\<rparr>"
      using assms ps ne q by (auto simp: parse_ref_def Let_def split: list.splits)
    with s nd ne root_of_Some [OF q] True show ?thesis
      by (auto simp: ref_ok_def ref_string_def root_name_def)
  next
    case False
    then obtain n where n: "ps = [n]" "r = \<lparr>ref_root = q, ref_name = n, ref_field = []\<rparr>"
      using assms ps ne q by (cases q) (auto simp: parse_ref_def Let_def split: list.splits)
    with s nd ne root_of_Some [OF q] False show ?thesis
      by (auto simp: ref_ok_def ref_string_def)
  qed
qed

text \<open>
  C15. \<open>ParseRef\<close> accepts exactly the printed form of a well-formed reference, and reads back the
  reference it prints: a steps reference with its field, a name under any other root.
\<close>

theorem parse_ref_roundtrip:
  "parse_ref s = Inr r \<longleftrightarrow> ref_ok r \<and> s = ref_string r"
  using parse_ref_string parse_ref_ok by blast

end
