(* ===== verification/Expansion.thy ===== *)
theory Expansion
  imports Dataflow Refs
begin

text \<open>
  Run-time expansion of a generate node (\<open>pipeline/generate.go\<close>) and the loop expectation command:
  reading the data source's items, the item contract with its cycle check, binding one scope per
  item, and cloning the target graph under the instance prefix. The data-source command is a
  parameter \<open>run\<close> from path and arguments to standard output or an error; \<open>ff\<close> and \<open>fj\<close> print
  floats, \<open>pf\<close> reads them.
\<close>

subsection \<open>Items\<close>

record item =
  it_id :: string
  it_deps :: "string list"
  it_fields :: "goval smap"

record instance_spec =
  in_item :: string
  in_ir :: ir
  in_params :: "goval smap"
  in_deps :: "string list"

type_synonym source_run = "string \<Rightarrow> string list \<Rightarrow> string + string"

definition contract_error :: "string \<Rightarrow> string \<Rightarrow> string option \<Rightarrow> string" where
  "contract_error nid msg err =
     (case err of
        None \<Rightarrow> ''pipeline: generate '' @ nid @ '': '' @ msg
      | Some e \<Rightarrow> ''pipeline: generate '' @ nid @ '': '' @ msg @ '': '' @ e)"

fun go_type :: "goval \<Rightarrow> string" where
  "go_type VNull = ''<nil>''"
| "go_type (VBool b) = ''bool''"
| "go_type (VInt i) = ''int''"
| "go_type (VFloat x) = ''float64''"
| "go_type (VNumber t) = ''json.Number''"
| "go_type (VStr s) = ''string''"
| "go_type (VList vs) = ''[]interface {}''"
| "go_type (VMap m) = ''map[string]interface {}''"
| "go_type (VAnyMap m) = ''map[interface {}]interface {}''"
| "go_type (VRaw t) = ''json.RawMessage''"

fun parse_deps :: "string \<Rightarrow> int \<Rightarrow> goval list \<Rightarrow> string + string list" where
  "parse_deps here j [] = Inr []"
| "parse_deps here j (VStr s # vs) = map_sum id ((#) s) (parse_deps here (j + 1) vs)"
| "parse_deps here j (v # vs) = Inl (here @ ''deps['' @ itoa j @ ''] is '' @ go_type v @ '', want string'')"

definition parse_item :: "int \<Rightarrow> goval smap \<Rightarrow> string + item" where
  "parse_item i raw =
     (let here = ''items['' @ itoa i @ '']'' in
      case assoc_get raw ''id'' of
        VNull \<Rightarrow> Inl (here @ '': missing '' @ quote_str ''id'')
      | VStr iid \<Rightarrow>
          (let pre = here @ '' ('' @ iid @ ''): '' in
           case map_of raw ''deps'' of
             None \<Rightarrow> Inr \<lparr>it_id = iid, it_deps = [], it_fields = raw\<rparr>
           | Some (VList vs) \<Rightarrow>
               map_sum id (\<lambda>ds. \<lparr>it_id = iid, it_deps = ds, it_fields = raw\<rparr>) (parse_deps pre 0 vs)
           | Some v \<Rightarrow> Inl (pre @ quote_str ''deps'' @ '' is '' @ go_type v @ '', want a list of ids''))
      | v \<Rightarrow> Inl (here @ '': '' @ quote_str ''id'' @ '' is '' @ go_type v @ '', want string''))"

text \<open>Decoding an element into \<open>map[string]any\<close>: an object, or \<open>null\<close> for the nil map.\<close>

definition decode_object :: "(string \<Rightarrow> f64 option) \<Rightarrow> goval \<Rightarrow> goval smap option option" where
  "decode_object pf v =
     (case v of
        VNull \<Rightarrow> Some None
      | VMap m \<Rightarrow> (case floatify pf v of Some (VMap m') \<Rightarrow> Some (Some m') | _ \<Rightarrow> None)
      | _ \<Rightarrow> None)"

fun parse_item_list :: "int \<Rightarrow> goval smap option list \<Rightarrow> string + item list" where
  "parse_item_list i [] = Inr []"
| "parse_item_list i (None # rs) = Inl (''items['' @ itoa i @ '']: not an object'')"
| "parse_item_list i (Some raw # rs) =
     (case parse_item i raw of
        Inl e \<Rightarrow> Inl e
      | Inr it \<Rightarrow> map_sum id ((#) it) (parse_item_list (i + 1) rs))"

definition expected_shape :: string where
  "expected_shape = ''expected {'' @ quote_str ''items'' @ '': [...]}''"

text \<open>The envelope's \<open>Items\<close> pointer after a strict decode of the first JSON value: \<open>None\<close> when
  decoding fails, \<open>Some None\<close> for a nil pointer.\<close>

definition decode_envelope :: "(string \<Rightarrow> f64 option) \<Rightarrow> goval \<Rightarrow> goval smap option list option option" where
  "decode_envelope pf v =
     (case v of
        VNull \<Rightarrow> Some None
      | VMap m \<Rightarrow>
          if list_ex (\<lambda>p. to_lower (fst p) \<noteq> ''items'') m then None
          else (case json_field ''items'' m of
                  None \<Rightarrow> Some None
                | Some VNull \<Rightarrow> Some None
                | Some (VList vs) \<Rightarrow> map_option Some (all_some (decode_object pf) vs)
                | Some _ \<Rightarrow> None)
      | _ \<Rightarrow> None)"

definition parse_items :: "(string \<Rightarrow> f64 option) \<Rightarrow> string \<Rightarrow> string + item list" where
  "parse_items pf out =
     (case json_value (Suc (2 * length out)) out of
        None \<Rightarrow> Inl expected_shape
      | Some (v, rest) \<Rightarrow>
          (case decode_envelope pf v of
             None \<Rightarrow> Inl expected_shape
           | Some items \<Rightarrow>
               if skip_ws rest \<noteq> [] then Inl ''trailing data after the items document''
               else (case items of
                       None \<Rightarrow> Inl (''missing '' @ quote_str ''items'' @ '' key'')
                     | Some rs \<Rightarrow> parse_item_list 0 rs)))"

subsection \<open>The item contract\<close>

definition id_start :: "char \<Rightarrow> bool" where
  "id_start c \<longleftrightarrow> is_digit c \<or> 65 \<le> byte c \<and> byte c \<le> 90 \<or> 97 \<le> byte c \<and> byte c \<le> 122"

definition item_id_ok :: "string \<Rightarrow> bool" where
  "item_id_ok s = (case s of [] \<Rightarrow> False
     | c # cs \<Rightarrow> id_start c \<and> list_all (\<lambda>d. id_start d \<or> d = CHR ''_'' \<or> d = CHR ''.'' \<or> d = CHR ''-'') cs)"

definition item_id_pattern :: string where
  "item_id_pattern = ''^[A-Za-z0-9][A-Za-z0-9_.-]*$''"

fun check_ids :: "int \<Rightarrow> int smap \<Rightarrow> item list \<Rightarrow> string option" where
  "check_ids i seen [] = None"
| "check_ids i seen (it # its) =
     (let here = ''items['' @ itoa i @ '']: '' in
      if it_id it = [] then Some (here @ ''empty id'')
      else if \<not> item_id_ok (it_id it) then
        Some (here @ ''item id '' @ quote_str (it_id it) @ '' must match '' @ item_id_pattern @
              '' (ids embed into node ids and CEL keys)'')
      else case map_of seen (it_id it) of
        Some prev \<Rightarrow> Some (here @ ''duplicate id '' @ quote_str (it_id it) @
                          '' (first at items['' @ itoa prev @ ''])'')
      | None \<Rightarrow> check_ids (i + 1) (put (it_id it) i seen) its)"

definition item_fields :: "binding_desc smap \<Rightarrow> string list" where
  "item_fields bs = concat (map (\<lambda>s. case map_of bs s of
       None \<Rightarrow> [] | Some bd \<Rightarrow> if b_kind bd = BindItem then [b_field bd] else []) (sorted_keys bs))"

definition check_fields :: "string list \<Rightarrow> item list \<Rightarrow> string option" where
  "check_fields fs its =
     (case List.find (\<lambda>p. map_of (it_fields (fst p)) (snd p) = None)
             (concat (map (\<lambda>it. map (Pair it) fs) its)) of
        None \<Rightarrow> None
      | Some (it, f) \<Rightarrow> Some (''item '' @ quote_str (it_id it) @ '' lacks field '' @ quote_str f @
                            '' referenced by the binding template''))"

text \<open>The in-set dependency edges, a self-dependency ignored.\<close>

definition dep_edges :: "item list \<Rightarrow> (string \<times> string) list" where
  "dep_edges its =
     concat (map (\<lambda>it. map (\<lambda>d. (d, it_id it))
       (filter (\<lambda>d. d \<in> it_id ` set its \<and> d \<noteq> it_id it) (it_deps it))) its)"

definition item_succ :: "item list \<Rightarrow> string \<Rightarrow> string list" where
  "item_succ its a = map snd (filter (\<lambda>p. fst p = a) (dep_edges its))"

definition item_indeg :: "item list \<Rightarrow> int smap" where
  "item_indeg its =
     map (\<lambda>i. (i, int (length (filter (\<lambda>p. snd p = i) (dep_edges its))))) (remdups (map it_id its))"

fun lower_all :: "string list \<Rightarrow> int smap \<Rightarrow> string list \<times> int smap" where
  "lower_all [] indeg = ([], indeg)"
| "lower_all (x # xs) indeg =
     (let n = get_or 0 indeg x - 1; (ready, indeg') = lower_all xs (put x n indeg)
      in (if n = 0 then x # ready else ready, indeg'))"

definition positive :: "int smap \<Rightarrow> string set" where
  "positive m = {k. 0 < get_or 0 m k}"

lemma finite_positive [simp]: "finite (positive m)"
proof -
  have "positive m \<subseteq> keys m"
    by (auto simp: positive_def get_or_def split: option.splits)
  then show ?thesis using finite_subset finite_keys by blast
qed

lemma lower_all_measure:
  "lower_all xs m = (ready, m') \<Longrightarrow> card (positive m') + length ready \<le> card (positive m)"
proof (induction xs arbitrary: m ready)
  case Nil
  then show ?case by simp
next
  case (Cons x xs)
  define n where "n = get_or 0 m x - 1"
  obtain r where r: "lower_all xs (put x n m) = (r, m')" "ready = (if n = 0 then x # r else r)"
    using Cons.prems by (cases "lower_all xs (put x n m)") (auto simp: Let_def n_def)
  note IH = Cons.IH [OF r(1)]
  have eq: "positive (put x n m) = (if 0 < n then insert x (positive m - {x}) else positive m - {x})"
    by (auto simp: positive_def)
  show ?case
  proof (cases "0 < n")
    case True
    then have "x \<in> positive m" by (simp add: n_def positive_def)
    with eq True have "positive (put x n m) = positive m" by auto
    with IH r True show ?thesis by simp
  next
    case False
    show ?thesis
    proof (cases "n = 0")
      case True
      then have "x \<in> positive m" by (simp add: n_def positive_def)
      with eq True have "card (positive (put x n m)) + 1 = card (positive m)"
        using card_Suc_Diff1 [OF finite_positive, of x m] by simp
      with IH r True show ?thesis by simp
    next
      case ne: False
      have "card (positive (put x n m)) \<le> card (positive m)"
        unfolding eq using False by (simp add: card_Diff1_le)
      with IH r ne show ?thesis by simp
    qed
  qed
qed

text \<open>The count of items Kahn's algorithm takes off, and the in-degrees it leaves.\<close>

function kahn :: "(string \<Rightarrow> string list) \<Rightarrow> string list \<Rightarrow> int smap \<Rightarrow> nat \<Rightarrow> nat \<times> int smap" where
  "kahn succ [] indeg n = (n, indeg)"
| "kahn succ (x # queue) indeg n =
     (case lower_all (succ x) indeg of (ready, indeg') \<Rightarrow> kahn succ (queue @ ready) indeg' (Suc n))"
  by pat_completeness auto
termination
proof (relation "measure (\<lambda>(s, q, m, n). 2 * card (positive m) + length q)", simp, goal_cases)
  case (1 succ x queue indeg n ready indeg')
  have "card (positive indeg') + length ready \<le> card (positive indeg)"
    by (rule lower_all_measure) (rule 1 [symmetric])
  then show ?case by simp
qed

text \<open>Following successors inside the leftover set until an id repeats.\<close>

function walk_cycle :: "(string \<Rightarrow> string list) \<Rightarrow> string list \<Rightarrow> string list \<Rightarrow> string \<Rightarrow> string list" where
  "walk_cycle succ left path cur =
     (case List.find (\<lambda>n. n \<in> set left) (sort (succ cur)) of
        None \<Rightarrow> path
      | Some nxt \<Rightarrow>
          if nxt = [] then path
          else if nxt \<in> set path then dropWhile (\<lambda>p. p \<noteq> nxt) path @ [nxt]
          else walk_cycle succ left (path @ [nxt]) nxt)"
  by pat_completeness auto
termination
proof (relation "measure (\<lambda>(s, l, p, c). card (set l - set p))", simp, goal_cases)
  case (1 succ left path cur nxt)
  then have "nxt \<in> set left - set path" by (auto dest!: find_SomeD)
  then have "set left - set (path @ [nxt]) \<subset> set left - set path" by auto
  then show ?case by (simp add: psubset_card_mono)
qed

declare walk_cycle.simps [simp del]

definition check_item_cycles :: "item list \<Rightarrow> string option" where
  "check_item_cycles its =
     (let indeg = item_indeg its;
          queue = filter (\<lambda>i. get_or 0 indeg i = 0) (map it_id its);
          (done, left) = kahn (item_succ its) queue indeg 0
      in if done = length its then None
         else (let leftover = sort (filter (\<lambda>i. 0 < get_or 0 left i) (map fst left)) in
               case leftover of
                 [] \<Rightarrow> None
               | s # _ \<Rightarrow> Some (''dependency cycle among items: '' @
                   join '' -> '' (walk_cycle (item_succ its) leftover [s] s))))"

definition validate_items :: "item list \<Rightarrow> binding_desc smap \<Rightarrow> string option" where
  "validate_items its bs =
     (case check_ids 0 [] its of
        Some e \<Rightarrow> Some e
      | None \<Rightarrow>
          (case check_fields (item_fields bs) its of
             Some e \<Rightarrow> Some e
           | None \<Rightarrow> check_item_cycles its))"

subsection \<open>Arguments and scopes\<close>

fun resolve_args :: "(f64 \<Rightarrow> string) \<Rightarrow> (f64 \<Rightarrow> string) \<Rightarrow> goval smap \<Rightarrow> string list \<Rightarrow> string + string list" where
  "resolve_args ff fj params [] = Inr []"
| "resolve_args ff fj params (a # as) =
     (let here = (\<lambda>m. Inl (''arg '' @ quote_str a @ m)) in
      case parse_binding (VStr a) of
        Inl e \<Rightarrow> Inl e
      | Inr (BLit l) \<Rightarrow> map_sum id ((#) a) (resolve_args ff fj params as)
      | Inr (BRef r) \<Rightarrow>
          if ref_root r \<noteq> RootParams then
            here '': only ${params.*} references are legal in data-source args''
          else (case map_of params (ref_name r) of
                  None \<Rightarrow> here ('': param '' @ quote_str (ref_name r) @ '' is not bound'')
                | Some v \<Rightarrow>
                    (case scalar_string ff fj v of
                       Inl e \<Rightarrow> here ('': '' @ e)
                     | Inr t \<Rightarrow> map_sum id ((#) t) (resolve_args ff fj params as))))"

text \<open>One instance's scope: every slot of the binding template, in slot order.\<close>

fun bind_params :: "binding_desc smap \<Rightarrow> goval smap \<Rightarrow> goval smap \<Rightarrow> string list \<Rightarrow> goval smap
    \<Rightarrow> string + goval smap" where
  "bind_params bs fs params [] acc = Inr acc"
| "bind_params bs fs params (s # ss) acc =
     (let here = (\<lambda>m. Inl (''param '' @ quote_str s @ '': '' @ m)) in
      case map_of bs s of
        None \<Rightarrow> bind_params bs fs params ss acc
      | Some bd \<Rightarrow>
          if b_kind bd = BindLiteral then bind_params bs fs params ss (put s (b_value bd) acc)
          else if b_kind bd = BindParam then
            (case map_of params (b_name bd) of
               None \<Rightarrow> here (''enclosing scope binds no '' @ quote_str (b_name bd))
             | Some v \<Rightarrow> bind_params bs fs params ss (put s v acc))
          else if b_kind bd = BindItem then
            (case map_of fs (b_field bd) of
               None \<Rightarrow> here (''item lacks field '' @ quote_str (b_field bd))
             | Some v \<Rightarrow> bind_params bs fs params ss (put s v acc))
          else here (''unknown binding kind '' @ quote_str (b_kind bd)))"

definition bind_instance_params :: "binding_desc smap \<Rightarrow> item \<Rightarrow> goval smap \<Rightarrow> string + goval smap" where
  "bind_instance_params bs it params = bind_params bs (it_fields it) params (sorted_keys bs) []"

subsection \<open>Cloning the target\<close>

text \<open>
  The clone goes through JSON, so every dynamic value in it (a literal binding, a slot default) is
  re-read: an integer comes back as the nearest \<open>float64\<close>, and a float that is not finite cannot be
  written at all. The other fields have types JSON restores (on valid UTF-8 text).
\<close>

fun bit_len :: "nat \<Rightarrow> nat" where
  "bit_len n = (if n = 0 then 0 else Suc (bit_len (n div 2)))"

declare bit_len.simps [simp del]

definition round53 :: "int \<Rightarrow> int" where
  "round53 i =
     (let a = nat \<bar>i\<bar>; k = bit_len a - 53; q = a div 2 ^ k; r = a mod 2 ^ k; half = 2 ^ k div 2;
          q' = (if k = 0 \<or> r < half \<or> r = half \<and> even q then q else q + 1)
      in sgn i * int (q' * 2 ^ k))"

fun clone_value :: "(string \<Rightarrow> f64 option) \<Rightarrow> goval \<Rightarrow> goval option" where
  "clone_value pf (VInt i) = Some (VFloat (Fin (round53 i) 0))"
| "clone_value pf (VFloat x) = (case x of Fin m e \<Rightarrow> Some (VFloat x) | _ \<Rightarrow> None)"
| "clone_value pf (VNumber t) = map_option VFloat (pf t)"
| "clone_value pf (VList vs) = map_option VList (all_some (clone_value pf) vs)"
| "clone_value pf (VMap m) =
     map_option VMap (all_some (\<lambda>(k, v). map_option (Pair k) (clone_value pf v)) m)"
| "clone_value pf (VAnyMap m) = None"
| "clone_value pf (VRaw t) = json_unmarshal pf t"
| "clone_value pf v = Some v"

definition clone_map :: "('a \<Rightarrow> 'b option) \<Rightarrow> 'a smap \<Rightarrow> 'b smap option" where
  "clone_map f m = all_some (\<lambda>(k, v). map_option (Pair k) (f v)) m"

definition clone_binding :: "(string \<Rightarrow> f64 option) \<Rightarrow> binding_desc \<Rightarrow> binding_desc option" where
  "clone_binding pf b = map_option (\<lambda>v. b\<lparr>b_value := v\<rparr>) (clone_value pf (b_value b))"

definition clone_def :: "(string \<Rightarrow> f64 option) \<Rightarrow> param_def \<Rightarrow> param_def option" where
  "clone_def pf d =
     (case pd_default d of
        None \<Rightarrow> Some d
      | Some v \<Rightarrow> map_option (\<lambda>v'. d\<lparr>pd_default := Some v'\<rparr>) (clone_value pf v))"

definition opt_map :: "('a \<Rightarrow> 'b option) \<Rightarrow> 'a option \<Rightarrow> 'b option option" where
  "opt_map f x = (case x of None \<Rightarrow> Some None | Some y \<Rightarrow> map_option Some (f y))"

definition clone_template :: "(string \<Rightarrow> f64 option) \<Rightarrow> template \<Rightarrow> template option" where
  "clone_template pf t =
     (case (clone_map (clone_def pf) (t_inputs t), clone_map (clone_def pf) (t_output t)) of
        (Some i, Some o') \<Rightarrow> Some (t\<lparr>t_inputs := i, t_output := o'\<rparr>)
      | _ \<Rightarrow> None)"

definition clone_gen :: "(string \<Rightarrow> f64 option) \<Rightarrow> gen_spec \<Rightarrow> gen_spec option" where
  "clone_gen pf s =
     map_option (\<lambda>b. s\<lparr>gs_bindings := b\<rparr>) (clone_map (clone_binding pf) (gs_bindings s))"

function clone_ir :: "(string \<Rightarrow> f64 option) \<Rightarrow> ir \<Rightarrow> ir option" where
  "clone_ir pf g =
     map_option (\<lambda>ns. IR (ir_version g) (ir_workflow g) ns (ir_edges g) (ir_lanes g) (ir_loops g))
       (all_some (\<lambda>n.
          (case (clone_map (clone_binding pf) (n_bindings n), opt_map (clone_template pf) (n_template n),
                 opt_map (clone_gen pf) (n_gen n),
                 (case n_sub n of None \<Rightarrow> Some None | Some h \<Rightarrow> map_option Some (clone_ir pf h))) of
             (Some b, Some t, Some ge, Some h) \<Rightarrow>
               Some (Node (n_id n) (n_kind n) t h ge (n_sel n) b (n_when n) (n_retry n)
                       (n_on_failure n) (n_tools n))
           | _ \<Rightarrow> None)) (ir_nodes g))"
  by pat_completeness auto
termination by (relation "measure (\<lambda>(p, g). size g)") (auto simp: termination_simp)

declare clone_ir.simps [simp del]

text \<open>\<open>strings.ReplaceAll\<close> with a non-empty pattern.\<close>

function replace_all :: "string \<Rightarrow> string \<Rightarrow> string \<Rightarrow> string" where
  "replace_all old new s =
     (case s of
        [] \<Rightarrow> []
      | c # cs \<Rightarrow>
          if old \<noteq> [] \<and> has_prefix old s then new @ replace_all old new (drop (length old) s)
          else c # replace_all old new cs)"
  by pat_completeness auto
termination
  by (relation "measure (\<lambda>(old, new, s). length s)") (auto simp: has_prefix_def)

declare replace_all.simps [simp del]

definition rename_cond :: "(string \<Rightarrow> string) \<Rightarrow> string \<Rightarrow> string \<Rightarrow> cond_spec \<Rightarrow> cond_spec" where
  "rename_cond f old new c =
     \<lparr>c_cel = replace_all old new (c_cel c), c_deps = map f (c_deps c)\<rparr>"

definition rename_sel :: "(string \<Rightarrow> string) \<Rightarrow> string \<Rightarrow> string \<Rightarrow> sel_spec \<Rightarrow> sel_spec" where
  "rename_sel f old new s =
     s\<lparr>sel_candidates := map f (sel_candidates s),
       sel_exhausted := map_option (rename_cond f old new) (sel_exhausted s)\<rparr>"

function rename_ir :: "(string \<Rightarrow> string) \<Rightarrow> string \<Rightarrow> string \<Rightarrow> ir \<Rightarrow> ir" where
  "rename_ir f old new g =
     IR (ir_version g) (ir_workflow g)
       (map (\<lambda>n. Node (f (n_id n)) (n_kind n) (n_template n)
                   (case n_sub n of None \<Rightarrow> None | Some h \<Rightarrow> Some (rename_ir f old new h))
                   (n_gen n) (map_option (rename_sel f old new) (n_sel n)) (n_bindings n)
                   (map_option (rename_cond f old new) (n_when n)) (n_retry n) (n_on_failure n)
                   (n_tools n)) (ir_nodes g))
       (map (\<lambda>e. e\<lparr>e_from := f (e_from e), e_to := f (e_to e)\<rparr>) (ir_edges g))
       (ir_lanes g) (ir_loops g)"
  by pat_completeness auto
termination by (relation "measure (\<lambda>(f, old, new, g). size g)") (auto simp: termination_simp)

declare rename_ir.simps [simp del]

definition rename_id :: "string \<Rightarrow> string \<Rightarrow> string \<Rightarrow> string" where
  "rename_id wfn prefix i =
     (if has_prefix (wfn @ ''/'') i then prefix @ ''/'' @ drop (length (wfn @ ''/'')) i
      else prefix @ ''/'' @ i)"

definition steps_key :: "string \<Rightarrow> string" where
  "steps_key p = ''steps['' @ [CHR 0x22] @ p"

definition clone_renamed_ir :: "(string \<Rightarrow> f64 option) \<Rightarrow> ir \<Rightarrow> string \<Rightarrow> string + ir" where
  "clone_renamed_ir pf target prefix =
     (case clone_ir pf target of
        None \<Rightarrow> Inl ''clone target IR: json: unsupported value''
      | Some c \<Rightarrow> Inr (rename_ir (rename_id (ir_workflow target) prefix)
                       (steps_key (ir_workflow target @ ''/'')) (steps_key (prefix @ ''/'')) c))"

function count_ir_nodes :: "ir \<Rightarrow> nat" where
  "count_ir_nodes g = length (ir_nodes g) +
     sum_list (map (\<lambda>n. case n_sub n of None \<Rightarrow> 0 | Some h \<Rightarrow> count_ir_nodes h) (ir_nodes g))"
  by pat_completeness auto
termination by (relation "measure size") (auto simp: termination_simp)

declare count_ir_nodes.simps [simp del]

subsection \<open>The two commands\<close>

definition max_expanded_nodes :: nat where
  "max_expanded_nodes = 10000"

fun instantiate :: "(string \<Rightarrow> f64 option) \<Rightarrow> string \<Rightarrow> gen_spec \<Rightarrow> ir \<Rightarrow> string set \<Rightarrow> goval smap
    \<Rightarrow> item list \<Rightarrow> string + instance_spec list" where
  "instantiate pf nid gen target ins params [] = Inr []"
| "instantiate pf nid gen target ins params (it # its) =
     (case bind_instance_params (gs_bindings gen) it params of
        Inl e \<Rightarrow> Inl (contract_error nid (''bind item '' @ quote_str (it_id it)) (Some e))
      | Inr ps \<Rightarrow>
          (case clone_renamed_ir pf target (nid @ ''['' @ it_id it @ '']'') of
             Inl e \<Rightarrow> Inl (contract_error nid (''instantiate item '' @ quote_str (it_id it)) (Some e))
           | Inr c \<Rightarrow>
               map_sum id ((#) \<lparr>in_item = it_id it, in_ir = c, in_params = ps,
                   in_deps = filter (\<lambda>d. d \<noteq> it_id it \<and> d \<in> ins) (it_deps it)\<rparr>)
                 (instantiate pf nid gen target ins params its)))"

definition expand ::
  "source_run option \<Rightarrow> (string \<Rightarrow> f64 option) \<Rightarrow> (f64 \<Rightarrow> string) \<Rightarrow> (f64 \<Rightarrow> string) \<Rightarrow> ir smap
   \<Rightarrow> node \<Rightarrow> goval smap \<Rightarrow> string + instance_spec list" where
  "expand runner pf ff fj irs n params =
     (let bad = (\<lambda>m e. Inl (contract_error (n_id n) m e)) in
      case n_gen n of
        None \<Rightarrow> bad ''node carries no generate spec'' None
      | Some gen \<Rightarrow>
          (case map_of irs (gs_workflow gen) of
             None \<Rightarrow> bad (''target workflow '' @ quote_str (gs_workflow gen) @
                          '' is not available to the executor'') None
           | Some target \<Rightarrow>
               (case runner of
                  None \<Rightarrow> bad ''no data-source command runner is wired'' None
                | Some run \<Rightarrow>
                    (case resolve_args ff fj params (gs_args gen) of
                       Inl e \<Rightarrow> bad ''resolve data-source args'' (Some e)
                     | Inr args \<Rightarrow>
                         (case run (gs_command gen) args of
                            Inl e \<Rightarrow> bad ''data-source command failed'' (Some e)
                          | Inr out \<Rightarrow>
                              (case parse_items pf out of
                                 Inl e \<Rightarrow> bad ''malformed data-source output'' (Some e)
                               | Inr items \<Rightarrow>
                                   (case validate_items items (gs_bindings gen) of
                                      Some e \<Rightarrow> bad ''item contract violation'' (Some e)
                                    | None \<Rightarrow>
                                        if items = [] then Inr []
                                        else if length items * count_ir_nodes target > max_expanded_nodes
                                          then bad ''expansion too large'' None
                                        else instantiate pf (n_id n) gen target (it_id ` set items)
                                               params items)))))))"

definition malformed_expect :: string where
  "malformed_expect = ''malformed expect output (want {'' @ quote_str ''count'' @ '': N})''"

text \<open>The \<open>Count\<close> pointer of the decoded reply: an error, nil, or a number.\<close>

definition decode_count :: "string \<Rightarrow> int option option" where
  "decode_count out =
     (case json_parse out of
        Some VNull \<Rightarrow> Some None
      | Some (VMap m) \<Rightarrow>
          (case json_field ''count'' m of
             None \<Rightarrow> Some None
           | Some VNull \<Rightarrow> Some None
           | Some (VNumber t) \<Rightarrow> map_option Some (json_int t)
           | Some _ \<Rightarrow> None)
      | _ \<Rightarrow> None)"

definition expect_count ::
  "source_run option \<Rightarrow> (f64 \<Rightarrow> string) \<Rightarrow> (f64 \<Rightarrow> string) \<Rightarrow> loop_spec \<Rightarrow> goval smap \<Rightarrow> string + int" where
  "expect_count runner ff fj spec params =
     (let bad = (\<lambda>m e. Inl (contract_error (l_id spec) m e)) in
      case runner of
        None \<Rightarrow> bad ''no data-source command runner is wired'' None
      | Some run \<Rightarrow>
          (case resolve_args ff fj params (l_args spec) of
             Inl e \<Rightarrow> bad ''resolve expect args'' (Some e)
           | Inr args \<Rightarrow>
               (case run (l_command spec) args of
                  Inl e \<Rightarrow> bad ''expect command failed'' (Some e)
                | Inr out \<Rightarrow>
                    (case decode_count out of
                       None \<Rightarrow> bad malformed_expect (Some ''decode'')
                     | Some None \<Rightarrow> bad ''malformed expect output: count must be a non-negative integer'' None
                     | Some (Some c) \<Rightarrow>
                         if c < 0 then bad ''malformed expect output: count must be a non-negative integer'' None
                         else Inr c))))"

definition generate_payload :: "instance_spec list \<Rightarrow> string" where
  "generate_payload insts =
     (case json_marshal True (\<lambda>_. []) (VMap [(''count'', VInt (int (length insts))),
            (''ids'', VList (map (\<lambda>i. VStr (in_item i)) insts))]) of
        Some s \<Rightarrow> s
      | None \<Rightarrow> ''{'' @ quote_str ''count'' @ '':'' @ itoa (int (length insts)) @ ''}'')"

definition source_contract_result :: "string \<Rightarrow> result" where
  "source_contract_result e = failed_result (error_of ReasonSourceContract e) zero_timing 1 []"

end
