(* ===== verification/JournalRecords.thy ===== *)
theory JournalRecords
  imports Policy MeterTiers
begin

text \<open>
  The records of a run's journal (\<open>failure/journal.go\<close>) and the checks an append makes before a
  line is written. The cost body is opaque to the journal, so it is kept as its JSON text.
\<close>

record header =
  hd_format :: int
  hd_run_id :: string
  hd_name :: string
  hd_sessions :: bool
  hd_config_path :: string
  hd_config_hash :: string
  hd_workflow :: string
  hd_params :: "string smap"
  hd_ir_hash :: string
  hd_ir_hash_cap_free :: string
  hd_ir_version :: int
  hd_images :: "string smap"
  hd_started :: time

record result_record =
  rr_step :: string
  rr_hash :: string
  rr_result :: result

record cost_record =
  cr_step :: string
  cr_hash :: string
  cr_cost :: string

record defer_record =
  df_step :: string
  df_until :: time
  df_detail :: string

record start_record =
  sr_step :: string
  sr_attempt :: int
  sr_started :: time

record run_end_record =
  re_status :: string
  re_failed :: int
  re_halted :: int
  re_detail :: string
  re_finished :: time

abbreviation RunEndSettled :: string where "RunEndSettled \<equiv> ''settled''"
abbreviation RunEndAborted :: string where "RunEndAborted \<equiv> ''aborted''"
abbreviation RunEndPaused :: string where "RunEndPaused \<equiv> ''paused''"

datatype entry =
    JHeader header
  | JResult result_record
  | JCost cost_record
  | JCleanup cleanup_record
  | JDefer defer_record
  | JStart start_record
  | JRunEnd run_end_record

text \<open>What refuses an entry before anything is written: an invalid result.\<close>

definition append_refuses :: "entry \<Rightarrow> string option" where
  "append_refuses e =
     (case e of
        JResult r \<Rightarrow>
          if validate (rr_result r) = [] then None
          else Some (''failure: journal append '' @ rr_step r @ '': '' @
                     validate_error (validate (rr_result r)))
      | _ \<Rightarrow> None)"

text \<open>The JSON of a cost list, as the scheduler writes it into a cost record.\<close>

definition cost_json :: "cost list \<Rightarrow> string" where
  "cost_json cs =
     ''['' @ join '','' (map (\<lambda>c. ''{'' @ json_string True ''unit'' @ '':'' @ json_string True (co_unit c) @
        '','' @ json_string True ''amount'' @ '':'' @ itoa (sint (co_amount c)) @ ''}'') cs) @ '']''"

definition result_steps :: "entry list \<Rightarrow> string list" where
  "result_steps es = concat (map (\<lambda>e. case e of JResult r \<Rightarrow> [rr_step r] | _ \<Rightarrow> []) es)"

lemma result_steps_simps [simp]:
  "result_steps [] = []"
  "result_steps (es @ fs) = result_steps es @ result_steps fs"
  "result_steps [JResult r] = [rr_step r]"
  "result_steps [JCost c] = []" "result_steps [JDefer d] = []" "result_steps [JStart st] = []"
  "result_steps [JCleanup cl] = []" "result_steps [JRunEnd e] = []" "result_steps [JHeader h] = []"
  by (simp_all add: result_steps_def)

end
