(* ===== verification/Hashing.thy ===== *)
theory Hashing
  imports Json
begin

text \<open>
  The journal's reuse key (\<open>failure/hash.go\<close>): a canonical encoding of the resolved inputs, wrapped
  with the template's name and the image tag, hashed. \<open>sha\<close> is the hex SHA-256 of the standard
  library, \<open>ff\<close> its JSON rendering of a finite float.
\<close>

text \<open>A raw fragment is re-read with its numbers verbatim, and trailing bytes are an error; what it
  decodes to carries no raw fragment, so the plain encoder finishes it. Everything else is encoded
  with sorted keys and without HTML escapes.\<close>

function (sequential) canonical_json :: "(f64 \<Rightarrow> string) \<Rightarrow> goval \<Rightarrow> string option" where
  "canonical_json ff (VMap m) =
     map_option (\<lambda>ss. ''{'' @ join '','' ss @ ''}'')
       (enc_all (\<lambda>k. map_option (\<lambda>s. json_string False k @ '':'' @ s)
                        (canonical_json ff (assoc_get m k))) (sorted_keys m))"
| "canonical_json ff (VList vs) =
     map_option (\<lambda>ss. ''['' @ join '','' ss @ '']'') (enc_all (canonical_json ff) vs)"
| "canonical_json ff (VRaw t) =
     (case json_parse t of None \<Rightarrow> None | Some v \<Rightarrow> json_marshal False ff v)"
| "canonical_json ff v = json_marshal False ff v"
  by pat_completeness auto
termination
proof (relation "measure (\<lambda>(f, v). size v)", goal_cases)
  case (2 ff m k)
  then show ?case using size_assoc_get [of k m] by auto
next
  case (3 ff vs x)
  then show ?case by (auto dest: size_list_estimation' [of x vs "size x" size, OF _ order_refl])
qed auto

definition hash_envelope :: "string \<Rightarrow> string \<Rightarrow> string \<Rightarrow> string" where
  "hash_envelope canon template img =
     ''{'' @ json_string False ''inputs'' @ '':'' @ canon @ '','' @
     json_string False ''template'' @ '':'' @ json_string False template @ '','' @
     json_string False ''image'' @ '':'' @ json_string False img @ ''}'' @ [CHR 0x0A]"

definition input_hash ::
  "(string \<Rightarrow> string) \<Rightarrow> (f64 \<Rightarrow> string) \<Rightarrow> goval smap \<Rightarrow> string \<Rightarrow> string \<Rightarrow> string + string" where
  "input_hash sha ff inputs template img =
     (case canonical_json ff (VMap inputs) of
        None \<Rightarrow> Inl ''failure: input hash: unsupported value''
      | Some canon \<Rightarrow> Inr (sha (hash_envelope canon template img)))"

text \<open>The key does not depend on the order in which the inputs were bound.\<close>

lemma canonical_json_cong:
  assumes "map_of m = map_of m'"
  shows "canonical_json ff (VMap m) = canonical_json ff (VMap m')"
proof -
  have d: "fst ` set m = fst ` set m'"
    using assms by (metis dom_map_of_conv_image_fst)
  then have "sorted_keys m = sorted_keys m'"
    by (intro sorted_distinct_set_unique) auto
  moreover have "assoc_get m = assoc_get m'"
    using assms by (simp add: assoc_get_def fun_eq_iff)
  ultimately show ?thesis by (simp add: canonical_json.simps(1))
qed

end
