(* ===== verification/Settling.thy ===== *)
theory Settling
  imports Expansion JournalRecords Hashing
begin

text \<open>
  The scheduler's state and its settle path (\<open>pipeline/scheduler.go\<close>): queues, bounded pools, journal
  and progress records, marking a node done, taking a sub-workflow's members along, propagating a
  failure or a halt, releasing dependents. Everything outside the loop goroutine is in the
  configuration \<open>cfg\<close> (the CEL library, the image tagger, the replayed journal, the clock, the pause
  marker, the journal's file) or arrives as an event; goroutines in flight are the list \<open>s_workers\<close>,
  armed timers the list \<open>s_timers\<close>. Reads of the clock and of the marker are numbered, so that two
  reads may differ.
\<close>

subsection \<open>State\<close>

record pool =
  p_max :: int
  p_used :: int

record box_job =
  jb_id :: string
  jb_inputs :: "goval smap"
  jb_hash :: string
  jb_image :: string
  jb_template :: "template option"
  jb_retry :: int
  jb_on_failure :: string
  jb_endpoint :: string
  jb_base :: int

datatype worker =
    WBox box_job
  | WExpand string node nat        \<comment> \<open>generate node, its IR node, its scope\<close>
  | WExpect string string int loop_spec nat

record progress_event =
  ev_kind :: string
  ev_time :: time
  ev_step :: string
  ev_status :: string
  ev_reason :: string
  ev_cached :: bool
  ev_duration :: duration
  ev_until :: time
  ev_detail :: string
  ev_items :: int
  ev_nodes :: int
  ev_expected :: int
  ev_cap :: int
  ev_loops :: "int smap"
  ev_template :: string
  ev_attempt :: int
  ev_run :: string
  ev_workflow :: string
  ev_run_status :: string
  ev_failed :: int
  ev_halted :: int

abbreviation EventStepSettled :: string where "EventStepSettled \<equiv> ''step-settled''"
abbreviation EventStepDeferred :: string where "EventStepDeferred \<equiv> ''step-deferred''"
abbreviation EventStepWaiting :: string where "EventStepWaiting \<equiv> ''step-waiting''"
abbreviation EventLoopExpected :: string where "EventLoopExpected \<equiv> ''loop-expected''"
abbreviation EventGenerateExpanded :: string where "EventGenerateExpanded \<equiv> ''generate-expanded''"
abbreviation EventStepStarted :: string where "EventStepStarted \<equiv> ''step-started''"
abbreviation EventRunStarted :: string where "EventRunStarted \<equiv> ''run-started''"
abbreviation EventRunEnded :: string where "EventRunEnded \<equiv> ''run-ended''"
abbreviation EventPauseRequested :: string where "EventPauseRequested \<equiv> ''pause-requested''"

definition blank_event :: "string \<Rightarrow> string \<Rightarrow> progress_event" where
  "blank_event kind step = \<lparr>ev_kind = kind, ev_time = 0, ev_step = step, ev_status = [],
     ev_reason = [], ev_cached = False, ev_duration = 0, ev_until = 0, ev_detail = [], ev_items = 0,
     ev_nodes = 0, ev_expected = 0, ev_cap = 0, ev_loops = [], ev_template = [], ev_attempt = 0,
     ev_run = [], ev_workflow = [], ev_run_status = [], ev_failed = 0, ev_halted = 0\<rparr>"

record halted_step =
  hs_step :: string
  hs_reason :: string

record sched =
  s_g :: graph
  s_scopes :: "nat smap"
  s_ready :: "string list"
  s_slotq :: "string list"
  s_slots :: int
  s_gen_pools :: "pool smap"
  s_lanes :: "pool smap"
  s_loops :: "loop_spec smap"
  s_checked :: "int smap"
  s_expected :: "int smap"
  s_pause_detail :: string
  s_outstanding :: int
  s_wait_zero :: "string list"
  s_paused :: bool
  s_failed :: int
  s_halts :: "halted_step list"
  s_fatal :: "string option"
  s_journal :: "entry list"
  s_events :: "progress_event list"
  s_workers :: "worker list"
  s_timers :: "string list"
  s_clock :: nat
  s_probes :: nat

record cfg =
  k_max_par :: int
  k_chk :: cel_check
  k_cel :: cel_eval
  k_pf :: "string \<Rightarrow> f64 option"
  k_ff :: "f64 \<Rightarrow> string"
  k_fj :: "f64 \<Rightarrow> string"
  k_sha :: "string \<Rightarrow> string"
  k_tag :: "(template \<Rightarrow> string + string) option"
  k_lookup :: "(string \<Rightarrow> goval smap \<Rightarrow> string \<Rightarrow> string \<Rightarrow> string + result option) option"
  k_class :: "(string \<Rightarrow> string) option"
  k_boxes :: bool
  k_sink :: bool
  k_runner :: "source_run option"
  k_irs :: "ir smap"
  k_now :: "nat \<Rightarrow> time"
  k_pause :: "(nat \<Rightarrow> bool) option"
  k_append :: "nat \<Rightarrow> entry \<Rightarrow> string option"

datatype event =
    EvSettled string result "cost list" bool bool
  | EvDeferred string time string "attempt_info list" int "cost list" bool
  | EvExpanded string "string + instance_spec list"
  | EvWake string
  | EvExpected string string int "string + int"

abbreviation node_of :: "sched \<Rightarrow> string \<Rightarrow> exec_node option" where
  "node_of s \<equiv> node_at (s_g s)"

definition set_node :: "string \<Rightarrow> exec_node \<Rightarrow> sched \<Rightarrow> sched" where
  "set_node i n s = s\<lparr>s_g := (s_g s)\<lparr>g_nodes := put i n (g_nodes (s_g s))\<rparr>\<rparr>"

text \<open>Changing the node a pointer points to.\<close>

definition upd_node :: "string \<Rightarrow> (exec_node \<Rightarrow> exec_node) \<Rightarrow> sched \<Rightarrow> sched" where
  "upd_node i f s = (case node_of s i of None \<Rightarrow> s | Some n \<Rightarrow> set_node i (f n) s)"

definition node_params :: "sched \<Rightarrow> exec_node \<Rightarrow> goval smap" where
  "node_params s n = env_params (s_g s) (xn_env n)"

definition tick :: "cfg \<Rightarrow> sched \<Rightarrow> time \<times> sched" where
  "tick k s = (k_now k (s_clock s), s\<lparr>s_clock := Suc (s_clock s)\<rparr>)"

definition emit :: "cfg \<Rightarrow> progress_event \<Rightarrow> sched \<Rightarrow> sched" where
  "emit k ev s =
     (if \<not> k_sink k then s
      else let (t, s1) = (if ev_time ev = 0 then tick k s else (ev_time ev, s))
           in s1\<lparr>s_events := s_events s1 @ [ev\<lparr>ev_time := t\<rparr>]\<rparr>)"

definition append_entry :: "cfg \<Rightarrow> entry \<Rightarrow> sched \<Rightarrow> string option \<times> sched" where
  "append_entry k e s =
     (case append_refuses e of
        Some err \<Rightarrow> (Some err, s)
      | None \<Rightarrow>
          (case k_append k (length (s_journal s)) e of
             Some err \<Rightarrow> (Some err, s)
           | None \<Rightarrow> (None, s\<lparr>s_journal := s_journal s @ [e]\<rparr>)))"

text \<open>An append that must not fail: the first failure becomes the fatal error.\<close>

definition must_append :: "cfg \<Rightarrow> entry \<Rightarrow> sched \<Rightarrow> sched" where
  "must_append k e s =
     (case append_entry k e s of
        (None, s1) \<Rightarrow> s1
      | (Some err, s1) \<Rightarrow>
          (if s_fatal s1 = None
           then s1\<lparr>s_fatal := Some (''pipeline: journal became unappendable; aborting the run: '' @ err)\<rparr>
           else s1))"

subsection \<open>The ready queues\<close>

text \<open>The heaps are used through \<open>push\<close>, \<open>pop\<close> and the head only, and a pop yields the least id:
  they are sorted lists.\<close>

definition push :: "string \<Rightarrow> sched \<Rightarrow> sched" where
  "push i s =
     (case node_of s i of
        None \<Rightarrow> s
      | Some n \<Rightarrow>
          if xn_life n \<noteq> Pending \<and> xn_life n \<noteq> Deferred then s
          else (set_node i (n\<lparr>xn_life := Queued\<rparr>) s)\<lparr>s_ready := insort i (s_ready s)\<rparr>)"

subsection \<open>Pools\<close>

definition pool_free :: "pool option \<Rightarrow> bool" where
  "pool_free p = (case p of None \<Rightarrow> True | Some q \<Rightarrow> p_max q \<le> 0 \<or> p_used q < p_max q)"

definition slot_free :: "cfg \<Rightarrow> sched \<Rightarrow> bool" where
  "slot_free k s \<longleftrightarrow> k_max_par k \<le> 0 \<or> s_slots s < k_max_par k"

definition lane_of :: "exec_node \<Rightarrow> string" where
  "lane_of n = (case n_template (xn_node n) of None \<Rightarrow> [] | Some t \<Rightarrow> t_lane t)"

definition gen_pool :: "sched \<Rightarrow> exec_node \<Rightarrow> pool option" where
  "gen_pool s n = (if xn_gen n = [] then None else map_of (s_gen_pools s) (xn_gen n))"

definition lane_pool :: "sched \<Rightarrow> exec_node \<Rightarrow> pool option" where
  "lane_pool s n = (if lane_of n = [] then None else map_of (s_lanes s) (lane_of n))"

definition pool_text :: "pool option \<Rightarrow> string" where
  "pool_text p = (case p of None \<Rightarrow> [] | Some q \<Rightarrow> itoa (p_used q) @ '' of '' @ itoa (p_max q))"

definition hold_reason :: "cfg \<Rightarrow> sched \<Rightarrow> exec_node \<Rightarrow> string" where
  "hold_reason k s n =
     (if \<not> slot_free k s then ''slot '' @ itoa (s_slots s) @ '' of '' @ itoa (k_max_par k)
      else if \<not> pool_free (gen_pool s n)
        then ''generate '' @ xn_gen n @ '' '' @ pool_text (gen_pool s n)
      else if \<not> pool_free (lane_pool s n)
        then ''lane '' @ lane_of n @ '' '' @ pool_text (lane_pool s n)
      else [])"

definition bump :: "int \<Rightarrow> string \<Rightarrow> pool smap \<Rightarrow> pool smap" where
  "bump d i ps = (case map_of ps i of None \<Rightarrow> ps | Some p \<Rightarrow> put i (p\<lparr>p_used := p_used p + d\<rparr>) ps)"

definition take_slot :: "cfg \<Rightarrow> sched \<Rightarrow> sched" where
  "take_slot k s = (if 0 < k_max_par k then s\<lparr>s_slots := s_slots s + 1\<rparr> else s)"

definition release_slot :: "cfg \<Rightarrow> sched \<Rightarrow> sched" where
  "release_slot k s =
     (if 0 < k_max_par k \<and> 0 < s_slots s then s\<lparr>s_slots := s_slots s - 1\<rparr> else s)"

definition take_pools :: "cfg \<Rightarrow> exec_node \<Rightarrow> sched \<Rightarrow> sched" where
  "take_pools k n s =
     (let s1 = take_slot k s;
          s2 = (if xn_gen n = [] then s1 else s1\<lparr>s_gen_pools := bump 1 (xn_gen n) (s_gen_pools s1)\<rparr>)
      in if lane_of n = [] then s2 else s2\<lparr>s_lanes := bump 1 (lane_of n) (s_lanes s2)\<rparr>)"

definition in_use :: "pool option \<Rightarrow> bool" where
  "in_use p = (case p of None \<Rightarrow> False | Some q \<Rightarrow> 0 < p_used q)"

definition release_pools :: "cfg \<Rightarrow> exec_node option \<Rightarrow> sched \<Rightarrow> sched" where
  "release_pools k no s =
     (let s1 = release_slot k s in
      case no of
        None \<Rightarrow> s1
      | Some n \<Rightarrow>
          (let s2 = (if in_use (gen_pool s1 n)
                     then s1\<lparr>s_gen_pools := bump (- 1) (xn_gen n) (s_gen_pools s1)\<rparr> else s1)
           in if in_use (lane_pool s2 n)
              then s2\<lparr>s_lanes := bump (- 1) (lane_of n) (s_lanes s2)\<rparr> else s2))"

subsection \<open>Settling\<close>

definition wake_parked :: "sched \<Rightarrow> sched" where
  "wake_parked s =
     (if s_wait_zero s = [] then s
      else fold (\<lambda>w s. case node_of s w of
               None \<Rightarrow> s
             | Some n \<Rightarrow> if xn_life n = Deferred then push w s else s)
             (s_wait_zero s) (s\<lparr>s_wait_zero := []\<rparr>))"

definition mark_done :: "string \<Rightarrow> string \<Rightarrow> sched \<Rightarrow> sched" where
  "mark_done i status s =
     (let s1 = upd_node i (\<lambda>n. n\<lparr>xn_life := Done, xn_status := status\<rparr>) s;
          s2 = s1\<lparr>s_g := (s_g s1)\<lparr>g_done := g_done (s_g s1) + 1\<rparr>\<rparr>
      in if status = StateFailed then s2\<lparr>s_failed := s_failed s2 + 1\<rparr> else s2)"

definition release_one :: "string \<Rightarrow> sched \<Rightarrow> sched" where
  "release_one d s =
     (let s1 = s\<lparr>s_g := (s_g s)\<lparr>g_indeg := (g_indeg (s_g s))(d := g_indeg (s_g s) d - 1)\<rparr>\<rparr>
      in case node_of s1 d of
           None \<Rightarrow> s1
         | Some n \<Rightarrow> if g_indeg (s_g s1) d = 0 \<and> xn_life n = Pending then push d s1 else s1)"

definition release_succs :: "string \<Rightarrow> sched \<Rightarrow> sched" where
  "release_succs i s = fold release_one (succs (s_g s) i) s"

text \<open>The journal record and the event of a skip.\<close>

definition skip_record :: "cfg \<Rightarrow> string \<Rightarrow> string \<Rightarrow> string \<Rightarrow> sched \<Rightarrow> sched" where
  "skip_record k i state ancestor s =
     (let (now, s1) = tick k s;
          res = failed_result (error_of state ancestor) \<lparr>tm_started = now, tm_finished = now\<rparr> 1 [];
          s2 = must_append k (JResult \<lparr>rr_step = i, rr_hash = [], rr_result = res\<rparr>) s1
      in emit k ((blank_event EventStepSettled i)\<lparr>ev_time := now, ev_status := state,
                   ev_reason := ancestor\<rparr>) s2)"

text \<open>The state and the named ancestor the members of a sub-workflow entry inherit.\<close>

definition member_skip :: "string \<Rightarrow> string \<Rightarrow> string \<times> string" where
  "member_skip i status =
     (if status = StateSkippedCondition then (StateSkippedCondition, [])
      else if status = StateSkippedHalt then (StateSkippedHalt, i)
      else (StateSkippedDependency, i))"

text \<open>
  \<open>settleSkip\<close> with the part of \<open>finish\<close> a skip reaches: a skipped entry takes its members with it,
  each of which may be an entry in turn. Every nested call marks one more node done, so the number
  of undone nodes bounds the depth (\<open>skip_fuel_enough\<close>).
\<close>

fun settle_skip_fuel :: "nat \<Rightarrow> cfg \<Rightarrow> string \<Rightarrow> string \<Rightarrow> string \<Rightarrow> sched \<Rightarrow> sched" where
  "settle_skip_fuel 0 k i state ancestor s =
     wake_parked (release_succs i (mark_done i state (skip_record k i state ancestor s)))"
| "settle_skip_fuel (Suc f) k i state ancestor s =
     (let s1 = mark_done i state (skip_record k i state ancestor s);
          (mstate, mancestor) = member_skip i state;
          s2 = fold (\<lambda>m s. case node_of s m of
                   None \<Rightarrow> s
                 | Some n \<Rightarrow> if terminal n then s else settle_skip_fuel f k m mstate mancestor s)
                 (g_members (s_g s1) i) s1
      in wake_parked (release_succs i s2))"

definition settle_skip :: "cfg \<Rightarrow> string \<Rightarrow> string \<Rightarrow> string \<Rightarrow> sched \<Rightarrow> sched" where
  "settle_skip k i state ancestor s =
     settle_skip_fuel (length (g_nodes (s_g s))) k i state ancestor s"

definition skip_members :: "cfg \<Rightarrow> string \<Rightarrow> string \<Rightarrow> sched \<Rightarrow> sched" where
  "skip_members k i status s =
     (if status = StateOK then s
      else (let (mstate, mancestor) = member_skip i status in
            fold (\<lambda>m s. case node_of s m of
                None \<Rightarrow> s
              | Some n \<Rightarrow> if terminal n then s else settle_skip k m mstate mancestor s)
              (g_members (s_g s) i) s))"

subsection \<open>What the settle path leaves alone\<close>

definition frame where
  "frame (s :: sched) =
     ((g_succ (s_g s), g_pair (s_g s), g_data_in (s_g s), g_members (s_g s), g_envs (s_g s)),
      (s_scopes s, s_slotq s, s_slots s, s_gen_pools s, s_lanes s, s_loops s, s_checked s),
      (s_expected s, s_pause_detail s, s_outstanding s, s_paused s, s_workers s, s_timers s, s_probes s))"

lemma frame_sel:
  assumes "frame s = frame t"
  shows "g_succ (s_g s) = g_succ (s_g t)" "g_pair (s_g s) = g_pair (s_g t)"
    "g_data_in (s_g s) = g_data_in (s_g t)" "g_members (s_g s) = g_members (s_g t)"
    "g_envs (s_g s) = g_envs (s_g t)" "s_scopes s = s_scopes t" "s_slotq s = s_slotq t"
    "s_slots s = s_slots t" "s_gen_pools s = s_gen_pools t" "s_lanes s = s_lanes t"
    "s_loops s = s_loops t" "s_checked s = s_checked t" "s_expected s = s_expected t"
    "s_pause_detail s = s_pause_detail t" "s_outstanding s = s_outstanding t"
    "s_paused s = s_paused t" "s_workers s = s_workers t" "s_timers s = s_timers t"
    "s_probes s = s_probes t"
  using assms by (simp_all add: frame_def)

lemma frame_fold [frame_simps]:
  "(\<And>x s. frame (f x s) = frame s) \<Longrightarrow> frame (fold f xs s) = frame s"
  by (induction xs arbitrary: s) simp_all

lemma frame_set_node [frame_simps]: "frame (set_node i n s) = frame s"
  by (simp add: frame_def set_node_def)

lemma frame_upd_node [frame_simps]: "frame (upd_node i f s) = frame s"
  by (simp add: upd_node_def frame_set_node split: option.splits)

lemma frame_clock [frame_simps]: "frame (s\<lparr>s_clock := c\<rparr>) = frame s"
  by (simp add: frame_def)

lemma frame_tick [frame_simps]: "frame (snd (tick k s)) = frame s"
  by (simp add: tick_def frame_def)

lemma frame_emit [frame_simps]: "frame (emit k e s) = frame s"
  by (simp add: emit_def tick_def frame_def)

lemma frame_append [frame_simps]: "frame (must_append k e s) = frame s"
  by (simp add: must_append_def append_entry_def frame_def split: option.splits)

lemma frame_push [frame_simps]: "frame (push i s) = frame s"
  by (auto simp: push_def frame_def set_node_def split: option.splits)

lemma frame_wake [frame_simps]: "frame (wake_parked s) = frame s"
proof -
  have "frame (s\<lparr>s_wait_zero := []\<rparr>) = frame s" by (simp add: frame_def)
  then show ?thesis
    by (auto simp: wake_parked_def frame_push split: option.splits intro!: frame_fold trans [OF frame_fold])
qed

lemma frame_mark [frame_simps]: "frame (mark_done i st s) = frame s"
proof -
  have "frame (t\<lparr>s_g := (s_g t)\<lparr>g_done := d\<rparr>\<rparr>) = frame t"
    "frame (t\<lparr>s_failed := m\<rparr>) = frame t" for t d m
    by (simp_all add: frame_def)
  then show ?thesis by (simp add: mark_done_def Let_def frame_upd_node)
qed

lemma frame_release_one [frame_simps]: "frame (release_one d s) = frame s"
proof -
  have "frame (t\<lparr>s_g := (s_g t)\<lparr>g_indeg := f\<rparr>\<rparr>) = frame t" for t f
    by (simp add: frame_def)
  then show ?thesis by (simp add: release_one_def Let_def frame_push split: option.splits)
qed

lemma frame_release [frame_simps]: "frame (release_succs i s) = frame s"
  unfolding release_succs_def by (intro frame_fold frame_release_one)

lemma frame_skip_record [frame_simps]: "frame (skip_record k i st a s) = frame s"
  by (simp add: skip_record_def tick_def frame_simps)

lemma frame_settle_skip_fuel [frame_simps]: "frame (settle_skip_fuel f k i st a s) = frame s"
proof (induction f k i st a s rule: settle_skip_fuel.induct)
  case (1 k i st a s)
  then show ?case by (simp add: frame_simps)
next
  case (2 f k i st a s)
  obtain ms ma where m: "member_skip i st = (ms, ma)" by fastforce
  define s1 where "s1 = mark_done i st (skip_record k i st a s)"
  have "frame (fold (\<lambda>m s. case node_of s m of None \<Rightarrow> s
       | Some n \<Rightarrow> if terminal n then s else settle_skip_fuel f k m ms ma s) xs t) = frame t"
    if "set xs \<subseteq> set (g_members (s_g s1) i)" for xs t
    using that
  proof (induction xs arbitrary: t)
    case (Cons x xs)
    then show ?case
      using "2.IH" [OF s1_def m [symmetric] refl, of x] by (auto split: option.splits)
  qed simp
  then show ?case by (simp add: m frame_simps flip: s1_def) (simp add: s1_def frame_simps)
qed

lemma frame_settle_skip [frame_simps]: "frame (settle_skip k i st a s) = frame s"
  by (simp add: settle_skip_def frame_settle_skip_fuel)

lemma frame_skip_members [frame_simps]: "frame (skip_members k i st s) = frame s"
  by (auto simp: skip_members_def frame_settle_skip split: prod.splits option.splits intro!: frame_fold)

subsection \<open>Propagation\<close>

text \<open>The breadth-first walk over a failed or halted node's dependents: settled nodes stop it, and
  nodes already launched or deferred are left to their own result.\<close>

function propagate ::
  "cfg \<Rightarrow> string \<Rightarrow> string \<Rightarrow> string list \<Rightarrow> string list \<Rightarrow> sched \<Rightarrow> sched" where
  "propagate k root state visited [] s = s"
| "propagate k root state visited (x # queue) s =
     (if x \<in> set visited then propagate k root state visited queue s
      else case node_of s x of
        None \<Rightarrow> propagate k root state (x # visited) queue s
      | Some n \<Rightarrow>
          if terminal n \<or> xn_life n \<noteq> Pending \<and> xn_life n \<noteq> Queued
          then propagate k root state (x # visited) queue s
          else propagate k root state (x # visited) (queue @ succs (s_g (settle_skip k x state root s)) x)
                 (settle_skip k x state root s))"
  by pat_completeness auto

definition walk_left :: "string list \<Rightarrow> string list \<Rightarrow> sched \<Rightarrow> string set" where
  "walk_left visited queue s = (succ_universe (g_succ (s_g s)) \<union> set queue) - set visited"

lemma finite_walk_left [simp]: "finite (walk_left v q s)"
  by (simp add: walk_left_def)

lemma walk_left_visit:
  assumes "x \<notin> set visited" and "g_succ (s_g t) = g_succ (s_g s)"
    and "set q' \<subseteq> set queue \<union> succ_universe (g_succ (s_g s))"
  shows "card (walk_left (x # visited) q' t) < card (walk_left visited (x # queue) s)"
  using assms by (intro psubset_card_mono) (auto simp: walk_left_def)

termination propagate
proof (relation "measures [\<lambda>(k, r, st, v, q, s). card (walk_left v q s), \<lambda>(k, r, st, v, q, s). length q]",
    simp, goal_cases)
  case (1 k root state visited x queue s)
  have "walk_left visited queue s \<subseteq> walk_left visited (x # queue) s"
    by (auto simp: walk_left_def)
  then have "card (walk_left visited queue s) \<le> card (walk_left visited (x # queue) s)"
    by (intro card_mono) auto
  then show ?case by auto
next
  case (2 k root state visited x queue s)
  then show ?case using walk_left_visit [of x visited s s queue queue] by auto
next
  case (3 k root state visited x queue s n)
  then show ?case using walk_left_visit [of x visited s s queue queue] by auto
next
  case (4 k root state visited x queue s n)
  let ?t = "settle_skip k x state root s"
  have f: "g_succ (s_g ?t) = g_succ (s_g s)" by (rule frame_sel) (rule frame_settle_skip)
  have "set (queue @ succs (s_g ?t) x) \<subseteq> set queue \<union> succ_universe (g_succ (s_g s))"
    using succ_universe_get [of "g_succ (s_g s)" x] by (auto simp: f)
  from walk_left_visit [OF 4(1) f this] show ?case by simp
qed

lemma frame_propagate [frame_simps]: "frame (propagate k r st v q s) = frame s"
  by (induction k r st v q s rule: propagate.induct)
     (auto simp: frame_settle_skip split: option.splits)

subsection \<open>Settling a result\<close>

definition finish :: "cfg \<Rightarrow> string \<Rightarrow> string \<Rightarrow> sched \<Rightarrow> sched" where
  "finish k i status s =
     (let s1 = skip_members k i status (mark_done i status s);
          s2 = (if status = StateFailed
                then propagate k i StateSkippedDependency [] (succs (s_g s1) i) s1
                else if status = StateHalted
                then propagate k i StateSkippedHalt [] (succs (s_g s1) i) s1 else s1)
      in wake_parked (release_succs i s2))"

text \<open>\<open>recordSpan\<close> and \<open>isAnnotation\<close> (\<open>pipeline/report.go\<close>): the span of a record over its real
  attempts.\<close>

definition is_annotation :: "attempt_info \<Rightarrow> bool" where
  "is_annotation a \<longleftrightarrow> ai_attempt a = 0 \<and>
     (case ai_error a of None \<Rightarrow> False
      | Some e \<Rightarrow> er_reason e = ReasonDeferred \<or> er_reason e = ReasonCached)"

definition record_span :: "result \<Rightarrow> time \<times> time" where
  "record_span r =
     (fold (\<lambda>a st. if is_annotation a then st
          else if tm_started (ai_timing a) \<noteq> 0 \<and> (st = 0 \<or> tm_started (ai_timing a) < st)
          then tm_started (ai_timing a) else st) (r_attempts r) (tm_started (r_timing r)),
      tm_finished (r_timing r))"

text \<open>The status a record settles to, the record as journaled, and the decoded payload: an ok
  record whose payload does not decode settles failed.\<close>

definition settle_shape :: "cfg \<Rightarrow> result \<Rightarrow> string \<times> result \<times> goval smap option" where
  "settle_shape k res =
     (if r_status res = StatusFailed then (StateFailed, res, None)
      else if r_status res = StatusHalted then (StateHalted, res, None)
      else (case decode_payload (k_pf k) (r_payload res) of
              Inl e \<Rightarrow> (StateFailed, failed_result (error_of ReasonResultSchema e) (r_timing res)
                           (r_attempt res) [], None)
            | Inr m \<Rightarrow> (StateOK, res, Some m)))"

definition settled_event :: "string \<Rightarrow> string \<Rightarrow> bool \<Rightarrow> result \<Rightarrow> progress_event" where
  "settled_event i status cached res =
     (let (s0, f0) = record_span res in
      (blank_event EventStepSettled i)\<lparr>
        ev_status := status, ev_cached := cached,
        ev_duration := (if s0 \<noteq> 0 \<and> s0 < f0 then f0 - s0 else 0),
        ev_reason := (if status = StateFailed then (case r_error res of None \<Rightarrow> [] | Some e \<Rightarrow> er_reason e)
                      else if status = StateHalted then (case r_halt res of None \<Rightarrow> [] | Some h \<Rightarrow> hr_reason h)
                      else [])\<rparr>)"

definition store_payload :: "string \<Rightarrow> exec_node \<Rightarrow> goval smap option \<Rightarrow> result \<Rightarrow> sched \<Rightarrow> sched" where
  "store_payload i n payload res s =
     (case payload of None \<Rightarrow> s
      | Some m \<Rightarrow> set_node i (n\<lparr>xn_payload := m, xn_raw := r_payload res\<rparr>) s)"

text \<open>What a settlement writes: the result record, the cost record it owes, the halt tally, the
  event.\<close>

definition settle_records ::
  "cfg \<Rightarrow> string \<Rightarrow> exec_node \<Rightarrow> string \<Rightarrow> result \<Rightarrow> bool \<Rightarrow> cost list \<Rightarrow> sched \<Rightarrow> sched" where
  "settle_records k i n status res executed costs s =
     (let s2 = must_append k (JResult \<lparr>rr_step = i,
                 rr_hash = (if executed \<or> xn_cached n then xn_hash n else []), rr_result = res\<rparr>) s;
          all = xn_costs n @ costs;
          s3 = (if executed \<or> all \<noteq> []
                then must_append k (JCost \<lparr>cr_step = i, cr_hash = xn_hash n,
                       cr_cost = cost_json all\<rparr>) s2 else s2);
          s4 = (if status = StateHalted
                then (case r_halt res of None \<Rightarrow> s3
                      | Some h \<Rightarrow> s3\<lparr>s_halts := s_halts s3 @ [\<lparr>hs_step = i, hs_reason = hr_reason h\<rparr>]\<rparr>)
                else s3)
      in emit k (settled_event i status (xn_cached n) res) s4)"

definition settle_result :: "cfg \<Rightarrow> string \<Rightarrow> result \<Rightarrow> bool \<Rightarrow> cost list \<Rightarrow> sched \<Rightarrow> sched" where
  "settle_result k i res executed costs s =
     (case node_of s i of
        None \<Rightarrow> s
      | Some n \<Rightarrow>
          (case settle_shape k res of (status, res1, payload) \<Rightarrow>
             finish k i status (settle_records k i n status res1 executed costs
               (store_payload i n payload res1 s))))"

definition settle_failed :: "cfg \<Rightarrow> string \<Rightarrow> string \<Rightarrow> string \<Rightarrow> sched \<Rightarrow> sched" where
  "settle_failed k i reason detail s =
     (let (now, s1) = tick k s
      in settle_result k i (failed_result (error_of reason detail)
           \<lparr>tm_started = now, tm_finished = now\<rparr> 1 []) False [] s1)"

definition settle_ok :: "cfg \<Rightarrow> string \<Rightarrow> string option \<Rightarrow> sched \<Rightarrow> sched" where
  "settle_ok k i payload s =
     (let (now, s1) = tick k s
      in settle_result k i (ok_result payload \<lparr>tm_started = now, tm_finished = now\<rparr>) False [] s1)"

subsection \<open>Progress of the settle path\<close>

definition undone :: "sched \<Rightarrow> string set" where
  "undone s = {i. \<exists>n. node_of s i = Some n \<and> \<not> terminal n}"

lemma finite_undone [simp]: "finite (undone s)"
proof -
  have "undone s \<subseteq> keys (g_nodes (s_g s))" by (auto simp: undone_def)
  then show ?thesis using finite_subset finite_keys by blast
qed

lemma undone_length: "card (undone s) \<le> length (g_nodes (s_g s))"
proof -
  have "undone s \<subseteq> set (map fst (g_nodes (s_g s)))"
    by (auto simp: undone_def dest!: map_of_SomeD intro: rev_image_eqI)
  then have "card (undone s) \<le> card (set (map fst (g_nodes (s_g s))))" by (intro card_mono) auto
  also have "\<dots> \<le> length (map fst (g_nodes (s_g s)))" by (rule card_length)
  finally show ?thesis by simp
qed

lemma node_set_node [simp]:
  "node_of (set_node i n s) = (node_of s)(i \<mapsto> n)"
  by (simp add: set_node_def fun_eq_iff)

lemma node_upd_node: "node_of (upd_node i f s) = (node_of s)(i := map_option f (node_of s i))"
  by (auto simp: upd_node_def split: option.splits)

text \<open>Operations that leave every node as it is.\<close>

lemma nodes_tick [simp]: "g_nodes (s_g (snd (tick k s))) = g_nodes (s_g s)"
  by (simp add: tick_def)

lemma graph_emit [simp]: "s_g (emit k e s) = s_g s"
  by (simp add: emit_def tick_def)

lemma graph_append [simp]: "s_g (must_append k e s) = s_g s"
  by (simp add: must_append_def append_entry_def split: option.splits)

lemma graph_skip_record [simp]: "s_g (skip_record k i st a s) = s_g s"
  by (simp add: skip_record_def tick_def)

text \<open>A push changes nothing but lives, from pending or deferred to queued.\<close>

lemma node_push:
  "node_of (push i s) = (node_of s)(i := map_option (\<lambda>n.
     if xn_life n = Pending \<or> xn_life n = Deferred then n\<lparr>xn_life := Queued\<rparr> else n) (node_of s i))"
  by (auto simp: push_def set_node_def fun_eq_iff split: option.splits)

definition requeued :: "exec_node \<Rightarrow> exec_node \<Rightarrow> bool" where
  "requeued n n' \<longleftrightarrow> n' = n \<or> n' = n\<lparr>xn_life := Queued\<rparr> \<and> xn_life n \<in> {Pending, Deferred}"

definition only_requeues :: "sched \<Rightarrow> sched \<Rightarrow> bool" where
  "only_requeues s t \<longleftrightarrow> (\<forall>i. rel_option requeued (node_of s i) (node_of t i))"

lemma requeued_refl [simp]: "requeued n n"
  by (simp add: requeued_def)

lemma requeued_trans: "requeued a b \<Longrightarrow> requeued b c \<Longrightarrow> requeued a c"
  by (auto simp: requeued_def)

lemma only_requeues_refl [simp]: "only_requeues s s"
  by (simp add: only_requeues_def option.rel_refl)

lemma only_requeues_trans: "only_requeues s t \<Longrightarrow> only_requeues t u \<Longrightarrow> only_requeues s u"
  unfolding only_requeues_def by (metis option.rel_transp requeued_trans transpE transpI)

lemma only_requeues_nodes: "node_of s = node_of t \<Longrightarrow> only_requeues s t"
  by (simp add: only_requeues_def option.rel_refl)

lemma only_requeues_fold:
  "(\<And>x s. only_requeues s (f x s)) \<Longrightarrow> only_requeues s (fold f xs s)"
  by (induction xs arbitrary: s) (auto intro: only_requeues_trans)

lemma only_requeues_push: "only_requeues s (push i s)"
  by (auto simp: only_requeues_def node_push requeued_def option.rel_refl split: option.splits)
     (cases "node_of s i"; auto simp: requeued_def)

lemma only_requeues_wake: "only_requeues s (wake_parked s)"
proof -
  have "only_requeues s (s\<lparr>s_wait_zero := []\<rparr>)" by (rule only_requeues_nodes) simp
  moreover have "only_requeues t (fold (\<lambda>w s. case node_of s w of None \<Rightarrow> s
      | Some n \<Rightarrow> if xn_life n = Deferred then push w s else s) xs t)" for xs t
    by (rule only_requeues_fold) (auto simp: only_requeues_push split: option.splits)
  ultimately show ?thesis by (auto simp: wake_parked_def intro: only_requeues_trans)
qed

lemma only_requeues_release: "only_requeues s (release_succs i s)"
  unfolding release_succs_def
proof (rule only_requeues_fold)
  fix d s
  have "only_requeues s (s\<lparr>s_g := (s_g s)\<lparr>g_indeg := f\<rparr>\<rparr>)" for f
    by (rule only_requeues_nodes) simp
  then show "only_requeues s (release_one d s)"
    by (auto simp: release_one_def Let_def split: option.splits intro: only_requeues_trans only_requeues_push)
qed

lemma undone_requeues:
  assumes "only_requeues s t"
  shows "undone t = undone s"
proof -
  have "requeued n n' \<Longrightarrow> terminal n' = terminal n" for n n'
    by (auto simp: requeued_def terminal_def)
  moreover have "rel_option requeued (node_of s i) (node_of t i)" for i
    using assms by (simp add: only_requeues_def)
  ultimately have "(\<exists>n. node_of s i = Some n \<and> \<not> terminal n) \<longleftrightarrow> (\<exists>n. node_of t i = Some n \<and> \<not> terminal n)" for i
    by (cases "node_of s i"; cases "node_of t i") (force dest: spec [of _ i])+
  then show ?thesis by (simp add: undone_def)
qed

lemma undone_eq: "node_of s = node_of t \<Longrightarrow> undone s = undone t"
  by (simp add: undone_def)

lemma undone_set_node:
  "undone (set_node i n s) = (if terminal n then undone s - {i} else insert i (undone s))"
  by (auto simp: undone_def)

lemma undone_mark: "undone (mark_done i st s) = undone s - {i}"
proof -
  have "node_of (mark_done i st s) = node_of (upd_node i (\<lambda>n. n\<lparr>xn_life := Done, xn_status := st\<rparr>) s)"
    by (simp add: mark_done_def Let_def)
  then show ?thesis
    by (auto simp: undone_def node_upd_node terminal_def split: if_splits)
qed

lemma undone_tail [simp]: "undone (wake_parked (release_succs i s)) = undone s"
  by (rule undone_requeues) (rule only_requeues_trans [OF only_requeues_release only_requeues_wake])

lemma undone_fold:
  "(\<And>x s. undone (f x s) \<subseteq> undone s) \<Longrightarrow> undone (fold f xs s) \<subseteq> undone s"
  by (induction xs arbitrary: s) (simp_all, blast)

lemma undone_skip_record [simp]: "undone (skip_record k i st a s) = undone s"
  by (rule undone_eq) simp

lemma undone_settle_skip_fuel: "undone (settle_skip_fuel f k i st a s) \<subseteq> undone s - {i}"
proof (induction f k i st a s rule: settle_skip_fuel.induct)
  case (1 k i st a s)
  then show ?case by (simp add: undone_mark)
next
  case (2 f k i st a s)
  obtain ms ma where m: "member_skip i st = (ms, ma)" by fastforce
  define s1 where "s1 = mark_done i st (skip_record k i st a s)"
  have "undone (fold (\<lambda>m s. case node_of s m of None \<Rightarrow> s
       | Some n \<Rightarrow> if terminal n then s else settle_skip_fuel f k m ms ma s) xs t) \<subseteq> undone t"
    if "set xs \<subseteq> set (g_members (s_g s1) i)" for xs t
    using that
  proof (induction xs arbitrary: t)
    case (Cons x xs)
    let ?u = "case node_of t x of None \<Rightarrow> t
       | Some n \<Rightarrow> if terminal n then t else settle_skip_fuel f k x ms ma t"
    have "undone ?u \<subseteq> undone t"
      using "2.IH" [OF s1_def m [symmetric] refl, of x] Cons.prems by (auto split: option.splits)
    with Cons.IH [of ?u] Cons.prems show ?case by auto
  qed simp
  from this [of "g_members (s_g s1) i" s1] show ?case
    by (simp add: m undone_mark flip: s1_def) (simp add: s1_def undone_mark)
qed

lemma undone_settle_skip: "undone (settle_skip k i st a s) \<subseteq> undone s - {i}"
  unfolding settle_skip_def by (rule undone_settle_skip_fuel)

text \<open>Fuel for every undone node is enough, so the walk through nested entries obeys its recursive
  equation.\<close>

definition skip_fold :: "nat \<Rightarrow> cfg \<Rightarrow> string \<Rightarrow> string \<Rightarrow> string list \<Rightarrow> sched \<Rightarrow> sched" where
  "skip_fold f k ms ma xs s = fold (\<lambda>m s. case node_of s m of
       None \<Rightarrow> s
     | Some n \<Rightarrow> if terminal n then s else settle_skip_fuel f k m ms ma s) xs s"

lemma skip_fold_undone: "undone (skip_fold f k ms ma xs s) \<subseteq> undone s"
proof -
  have "undone (case node_of t m of None \<Rightarrow> t
      | Some n \<Rightarrow> if terminal n then t else settle_skip_fuel f k m ms ma t) \<subseteq> undone t" for t m
    using undone_settle_skip_fuel [of f k m ms ma t] by (auto split: option.splits)
  then show ?thesis unfolding skip_fold_def by (rule undone_fold)
qed

lemma skip_fuel_Suc:
  assumes "member_skip i st = (ms, ma)"
  shows "settle_skip_fuel (Suc f) k i st a s =
    wake_parked (release_succs i (skip_fold f k ms ma
      (g_members (s_g s) i) (mark_done i st (skip_record k i st a s))))"
proof -
  have "g_members (s_g (mark_done i st (skip_record k i st a s))) = g_members (s_g s)"
    by (rule frame_sel) (simp add: frame_simps)
  then show ?thesis using assms by (simp add: skip_fold_def)
qed

lemma skip_fuel_enough:
  assumes "i \<in> undone s" and "card (undone s) \<le> f"
  shows "settle_skip_fuel (Suc f) k i st a s = settle_skip_fuel f k i st a s"
  using assms
proof (induction f arbitrary: i st a s)
  case 0
  then show ?case by simp
next
  case (Suc f)
  obtain ms ma where m: "member_skip i st = (ms, ma)" by fastforce
  define s1 where "s1 = mark_done i st (skip_record k i st a s)"
  have "undone s1 = undone s - {i}" by (simp add: s1_def undone_mark)
  with Suc.prems have c: "card (undone s1) \<le> f" by simp
  have "skip_fold (Suc f) k ms ma xs t = skip_fold f k ms ma xs t"
    if "card (undone t) \<le> f" for xs t
    using that
  proof (induction xs arbitrary: t)
    case (Cons x xs)
    let ?u = "\<lambda>f. skip_fold f k ms ma [x] t"
    have e: "?u (Suc f) = ?u f"
      using Suc.IH [of x t ms ma] Cons.prems
      by (auto simp: skip_fold_def undone_def simp del: settle_skip_fuel.simps split: option.splits)
    have "card (undone (?u f)) \<le> card (undone t)"
      by (rule card_mono) (auto intro: subsetD [OF skip_fold_undone])
    with Cons have "skip_fold (Suc f) k ms ma xs (?u f) = skip_fold f k ms ma xs (?u f)" by simp
    with e show ?case by (simp add: skip_fold_def del: settle_skip_fuel.simps)
  qed (simp add: skip_fold_def)
  with c show ?case by (simp only: skip_fuel_Suc [OF m] s1_def)
qed

lemma skip_fuel_more:
  "i \<in> undone s \<Longrightarrow> card (undone s) \<le> f \<Longrightarrow>
   settle_skip_fuel (f + d) k i st a s = settle_skip_fuel f k i st a s"
proof (induction d)
  case (Suc d)
  then show ?case using skip_fuel_enough [of i s "f + d" k st a] by simp
qed simp

lemma settle_skip_enough:
  assumes "i \<in> undone s" and "card (undone s) \<le> f"
  shows "settle_skip_fuel f k i st a s = settle_skip k i st a s"
proof -
  let ?c = "card (undone s)"
  have "settle_skip_fuel g k i st a s = settle_skip_fuel ?c k i st a s" if "?c \<le> g" for g
    using skip_fuel_more [OF assms(1) order_refl, of "g - ?c" k st a] that by simp
  from this [OF assms(2)] this [OF undone_length] show ?thesis by (simp add: settle_skip_def)
qed

lemma settle_skip_unfold:
  assumes "node_of s i = Some n" and "\<not> terminal n" and "member_skip i st = (ms, ma)"
  shows "settle_skip k i st a s =
    wake_parked (release_succs i (fold (\<lambda>m s. case node_of s m of
        None \<Rightarrow> s
      | Some n \<Rightarrow> if terminal n then s else settle_skip k m ms ma s)
      (g_members (s_g s) i) (mark_done i st (skip_record k i st a s))))"
proof -
  have i: "i \<in> undone s" using assms by (simp add: undone_def)
  define s1 where "s1 = mark_done i st (skip_record k i st a s)"
  obtain f where f: "card (undone s) = Suc f" using i by (cases "card (undone s)") auto
  have "undone s1 = undone s - {i}" by (simp add: s1_def undone_mark)
  with i f have c: "card (undone s1) \<le> f" by simp
  have "skip_fold f k ms ma xs t = fold (\<lambda>m s. case node_of s m of
        None \<Rightarrow> s
      | Some n \<Rightarrow> if terminal n then s else settle_skip k m ms ma s) xs t"
    if "card (undone t) \<le> f" for xs t
    using that
  proof (induction xs arbitrary: t)
    case (Cons x xs)
    let ?u = "skip_fold f k ms ma [x] t"
    have e: "?u = (case node_of t x of None \<Rightarrow> t
        | Some n \<Rightarrow> if terminal n then t else settle_skip k x ms ma t)"
      using settle_skip_enough [of x t f k ms ma] Cons.prems
      by (auto simp: skip_fold_def undone_def simp del: settle_skip_fuel.simps split: option.splits)
    have "card (undone ?u) \<le> card (undone t)"
      by (rule card_mono) (auto intro: subsetD [OF skip_fold_undone])
    with Cons e show ?case by (simp add: skip_fold_def del: settle_skip_fuel.simps)
  qed (simp add: skip_fold_def)
  from this [OF c] have "settle_skip_fuel (Suc f) k i st a s =
    wake_parked (release_succs i (fold (\<lambda>m s. case node_of s m of
        None \<Rightarrow> s
      | Some n \<Rightarrow> if terminal n then s else settle_skip k m ms ma s)
      (g_members (s_g s) i) s1))"
    by (simp only: skip_fuel_Suc [OF assms(3)] s1_def)
  then show ?thesis using settle_skip_enough [OF i, of "Suc f" k st a] f by (simp add: s1_def)
qed

lemma undone_skip_members: "undone (skip_members k i st s) \<subseteq> undone s"
proof -
  have "undone (case node_of t m of None \<Rightarrow> t
      | Some n \<Rightarrow> if terminal n then t else settle_skip k m ms ma t) \<subseteq> undone t" for t m ms ma
    using undone_settle_skip [of k m ms ma t] by (auto split: option.splits)
  then show ?thesis
    unfolding skip_members_def by (simp split: prod.splits add: undone_fold)
qed

lemma undone_propagate: "undone (propagate k r st v q s) \<subseteq> undone s"
proof (induction k r st v q s rule: propagate.induct)
  case (2 k root state visited x queue s)
  then show ?case using undone_settle_skip [of k x state root s]
    by (auto split: option.splits if_splits) blast+
qed simp

lemma undone_finish: "undone (finish k i st s) \<subseteq> undone s - {i}"
proof -
  define s1 where "s1 = skip_members k i st (mark_done i st s)"
  have "undone s1 \<subseteq> undone s - {i}"
    using undone_skip_members [of k i st "mark_done i st s"] by (simp add: undone_mark s1_def)
  moreover have "undone (propagate k i x [] q s1) \<subseteq> undone s1" for x q
    by (rule undone_propagate)
  ultimately show ?thesis
    unfolding finish_def Let_def s1_def [symmetric] by simp blast
qed

lemma undone_same_life:
  "node_of s i = Some n \<Longrightarrow> xn_life n' = xn_life n \<Longrightarrow> undone (set_node i n' s) = undone s"
  by (auto simp: undone_def terminal_def split: if_splits)

lemma undone_append [simp]: "undone (must_append k e s) = undone s"
  by (rule undone_eq) simp

lemma undone_emit [simp]: "undone (emit k e s) = undone s"
  by (rule undone_eq) simp

lemma graph_settle_records [simp]: "s_g (settle_records k i n st res x cs s) = s_g s"
  by (simp add: settle_records_def Let_def split: option.splits)

lemma undone_settle_result:
  assumes "node_of s i \<noteq> None"
  shows "undone (settle_result k i res x cs s) \<subseteq> undone s - {i}"
proof -
  obtain n where n: "node_of s i = Some n" using assms by auto
  obtain st r p where sh: "settle_shape k res = (st, r, p)" by (metis prod_cases3)
  define t where "t = settle_records k i n st r x cs (store_payload i n p r s)"
  have "undone (store_payload i n p r s) = undone s"
    using n by (auto simp: store_payload_def undone_same_life split: option.splits)
  moreover have "undone t = undone (store_payload i n p r s)"
    unfolding t_def by (rule undone_eq) simp
  ultimately show ?thesis
    using undone_finish [of k i st t] by (simp add: settle_result_def n sh flip: t_def)
qed

lemma undone_tick [simp]: "undone (snd (tick k s)) = undone s"
  by (simp add: undone_def)

lemma undone_settle_failed:
  "node_of s i \<noteq> None \<Longrightarrow> undone (settle_failed k i r d s) \<subseteq> undone s - {i}"
  using undone_settle_result [of "snd (tick k s)" i] by (simp add: settle_failed_def tick_def undone_def)

lemma undone_settle_ok:
  "node_of s i \<noteq> None \<Longrightarrow> undone (settle_ok k i p s) \<subseteq> undone s - {i}"
  using undone_settle_result [of "snd (tick k s)" i] by (simp add: settle_ok_def tick_def undone_def)

end
