(* ===== verification/Dispatch.thy ===== *)
theory Dispatch
  imports Settling
begin

text \<open>
  Dispatching a ready node, launching a slot-granted one, and the drain loop that does both to a
  fixed point (\<open>pipeline/scheduler.go\<close>). The loops of the source are total functions: a dispatch
  settles a node or moves it on, so the undone nodes, then the weight of their lives, decrease.
\<close>

subsection \<open>Dispatch\<close>

text \<open>A resolved agent: what keeps it from a slot, or its inputs, image and hash.\<close>

datatype gate =
    GateFail string string
  | GateSkip string
  | GateHit "goval smap" string string result
  | GateRun "goval smap" string string

definition agent_gate :: "cfg \<Rightarrow> sched \<Rightarrow> exec_node \<Rightarrow> gate" where
  "agent_gate k s n =
     (case n_template (xn_node n) of
        None \<Rightarrow> GateFail ReasonLaunch ''agent node carries no resolved template''
      | Some t \<Rightarrow>
          (case resolve_inputs (s_g s) n of
             InErr e \<Rightarrow> GateFail ReasonLaunch e
           | InSkip src \<Rightarrow> GateSkip src
           | InOk inputs \<Rightarrow>
               (case (case k_tag k of None \<Rightarrow> Inr (xn_image n) | Some tag \<Rightarrow> tag t) of
                  Inl e \<Rightarrow> GateFail ReasonLaunch (''resolve image tag: '' @ e)
                | Inr img \<Rightarrow>
                    (case input_hash (k_sha k) (k_fj k) inputs (t_name t) img of
                       Inl e \<Rightarrow> GateFail ReasonLaunch e
                     | Inr h \<Rightarrow>
                         (case (case k_lookup k of None \<Rightarrow> Inr None
                                | Some look \<Rightarrow> look (n_id (xn_node n)) inputs (t_name t) img) of
                            Inl e \<Rightarrow> GateFail ReasonLaunch e
                          | Inr (Some prior) \<Rightarrow> GateHit inputs img h prior
                          | Inr None \<Rightarrow>
                              if k_boxes k then GateRun inputs img h
                              else GateFail ReasonLaunch ''no box runner is wired into this executor'')))))"

text \<open>The node fields the gates leave behind, on every path.\<close>

definition agent_fields :: "cfg \<Rightarrow> sched \<Rightarrow> exec_node \<Rightarrow> exec_node" where
  "agent_fields k s n =
     (case (n_template (xn_node n), resolve_inputs (s_g s) n) of
        (Some t, InOk inputs) \<Rightarrow>
          (case (case k_tag k of None \<Rightarrow> Inr (xn_image n) | Some tag \<Rightarrow> tag t) of
             Inl e \<Rightarrow> n\<lparr>xn_inputs := inputs\<rparr>
           | Inr img \<Rightarrow>
               (case input_hash (k_sha k) (k_fj k) inputs (t_name t) img of
                  Inl e \<Rightarrow> n\<lparr>xn_inputs := inputs, xn_image := img\<rparr>
                | Inr h \<Rightarrow> n\<lparr>xn_inputs := inputs, xn_image := img, xn_hash := h\<rparr>))
      | _ \<Rightarrow> n)"

definition cached_note :: "time \<Rightarrow> attempt_info" where
  "cached_note now = \<lparr>ai_attempt = 0, ai_timing = \<lparr>tm_started = now, tm_finished = now\<rparr>,
     ai_error = Some (error_of ReasonCached ''journal hit; result adopted without execution'')\<rparr>"

definition dispatch_agent :: "cfg \<Rightarrow> string \<Rightarrow> exec_node \<Rightarrow> sched \<Rightarrow> sched" where
  "dispatch_agent k i n s =
     (let s1 = set_node i (agent_fields k s n) s in
      case agent_gate k s n of
        GateFail reason detail \<Rightarrow> settle_failed k i reason detail s1
      | GateSkip src \<Rightarrow> settle_skip k i StateSkippedDependency src s1
      | GateHit inputs img h prior \<Rightarrow>
          (let s2 = upd_node i (\<lambda>n. n\<lparr>xn_cached := True\<rparr>) s1;
               (now, s3) = tick k s2
           in settle_result k i (prior\<lparr>r_attempts := r_attempts prior @ [cached_note now]\<rparr>) False [] s3)
      | GateRun inputs img h \<Rightarrow>
          (upd_node i (\<lambda>n. n\<lparr>xn_life := SlotWait\<rparr>) s1)\<lparr>s_slotq := insort i (s_slotq s1)\<rparr>)"

text \<open>A sub-workflow entry binds the scope its members read, field by field; what was bound before an
  error stays bound.\<close>

definition bind_scope :: "nat \<Rightarrow> string \<Rightarrow> goval \<Rightarrow> sched \<Rightarrow> sched" where
  "bind_scope a name v s =
     s\<lparr>s_g := (s_g s)\<lparr>g_envs := (g_envs (s_g s))[a := (g_envs (s_g s) ! a)
        \<lparr>sc_params := put name v (sc_params (g_envs (s_g s) ! a))\<rparr>]\<rparr>\<rparr>"

datatype scope_stop = StopFail string | StopSkip string

fun bind_scope_slots :: "nat \<Rightarrow> binding_desc smap \<Rightarrow> nat \<Rightarrow> string list \<Rightarrow> sched \<Rightarrow> scope_stop option \<times> sched" where
  "bind_scope_slots a bs outer [] s = (None, s)"
| "bind_scope_slots a bs outer (x # xs) s =
     (case map_of bs x of
        None \<Rightarrow> bind_scope_slots a bs outer xs s
      | Some bd \<Rightarrow>
          (case resolve_binding bd (env_params (s_g s) outer) of
             BErr e \<Rightarrow> (Some (StopFail (''param '' @ quote_str x @ '': '' @ e)), s)
           | BAbsent \<Rightarrow> bind_scope_slots a bs outer xs s
           | BVal v \<Rightarrow> bind_scope_slots a bs outer xs (bind_scope a x v s)))"

fun bind_scope_edges :: "nat \<Rightarrow> edge list \<Rightarrow> sched \<Rightarrow> scope_stop option \<times> sched" where
  "bind_scope_edges a [] s = (None, s)"
| "bind_scope_edges a (e # es) s =
     (let here = (\<lambda>m. (Some (StopFail (''param '' @ quote_str (e_to_port e) @ '': source '' @ e_from e @ m)), s))
      in case node_of s (e_from e) of
           None \<Rightarrow> here '' has not settled''
         | Some src \<Rightarrow>
             if \<not> terminal src then here '' has not settled''
             else if xn_status src \<noteq> StateOK then (Some (StopSkip (e_from e)), s)
             else (case map_of (xn_payload src) (e_from_port e) of
                     None \<Rightarrow> here ('' settled without field '' @ quote_str (e_from_port e))
                   | Some v \<Rightarrow> bind_scope_edges a es (bind_scope a (e_to_port e) v s)))"

definition scope_stopped :: "cfg \<Rightarrow> string \<Rightarrow> scope_stop \<Rightarrow> sched \<Rightarrow> sched" where
  "scope_stopped k i stop s =
     (case stop of
        StopFail e \<Rightarrow> settle_failed k i ReasonExpansion e s
      | StopSkip src \<Rightarrow> settle_skip k i StateSkippedDependency src s)"

definition settle_sub_entry :: "cfg \<Rightarrow> string \<Rightarrow> exec_node \<Rightarrow> sched \<Rightarrow> sched" where
  "settle_sub_entry k i n s =
     (case map_of (s_scopes s) i of
        None \<Rightarrow> settle_failed k i ReasonExpansion ''sub-workflow scope was never registered'' s
      | Some a \<Rightarrow>
          (let bs = n_bindings (xn_node n) in
           case bind_scope_slots a bs (xn_env n) (sorted_keys bs) s of
             (Some stop, s1) \<Rightarrow> scope_stopped k i stop s1
           | (None, s1) \<Rightarrow>
               (case bind_scope_edges a (g_data_in (s_g s1) i) s1 of
                  (Some stop, s2) \<Rightarrow> scope_stopped k i stop s2
                | (None, s2) \<Rightarrow> settle_ok k i (Some ''{}'') s2)))"

definition node_ok :: "sched \<Rightarrow> string \<Rightarrow> bool" where
  "node_ok s i = (case node_of s i of None \<Rightarrow> False | Some n \<Rightarrow> xn_status n = StateOK)"

definition adopt_candidate :: "cfg \<Rightarrow> string \<Rightarrow> sel_spec \<Rightarrow> sched \<Rightarrow> sched" where
  "adopt_candidate k i sel s =
     (case List.find (node_ok s) (sel_candidates sel) of
        None \<Rightarrow> settle_skip k i StateSkippedCondition [] s
      | Some c \<Rightarrow> settle_ok k i (case node_of s c of None \<Rightarrow> None | Some cn \<Rightarrow> xn_raw cn) s)"

definition resolve_selector :: "cfg \<Rightarrow> string \<Rightarrow> exec_node \<Rightarrow> sched \<Rightarrow> sched" where
  "resolve_selector k i n s =
     (case n_sel (xn_node n) of
        None \<Rightarrow> settle_failed k i ReasonExpansion ''selector node carries no candidates'' s
      | Some sel \<Rightarrow>
          (case sel_candidates sel of
             [] \<Rightarrow> settle_failed k i ReasonExpansion ''selector node carries no candidates'' s
           | c # cs \<Rightarrow>
               (case (if node_ok s c then xn_exh n else None, sel_exhausted sel) of
                  (Some prog, Some spec) \<Rightarrow>
                    (case cond_eval (k_cel k) (Some prog) spec (s_g s) (node_params s n) of
                       Inl e \<Rightarrow> settle_failed k i ReasonCondition e s
                     | Inr True \<Rightarrow>
                         settle_failed k i ReasonLoopExhausted
                           (''all '' @ itoa (int (length (sel_candidates sel))) @ '' iterations of step '' @
                            quote_str (sel_step sel) @
                            '' executed without the loop's until condition settling'') s
                     | Inr False \<Rightarrow> adopt_candidate k i sel s)
                | _ \<Rightarrow> adopt_candidate k i sel s)))"

text \<open>The outermost declared loop whose iteration this id enters for the first time.\<close>

fun find_unexpected :: "loop_spec smap \<Rightarrow> int smap \<Rightarrow> string list \<Rightarrow> string list \<Rightarrow> (string \<times> int) option" where
  "find_unexpected loops checked done [] = None"
| "find_unexpected loops checked done (seg # segs) =
     (case iteration_of seg of
        None \<Rightarrow> find_unexpected loops checked (done @ [seg]) segs
      | Some (name, i) \<Rightarrow>
          (let loop = join ''/'' (done @ [name])
           in if map_of loops loop \<noteq> None \<and> get_or 0 checked loop < i then Some (loop, i)
              else find_unexpected loops checked (done @ [seg]) segs))"

definition unexpected_iteration :: "sched \<Rightarrow> string \<Rightarrow> (string \<times> int) option" where
  "unexpected_iteration s i =
     (if s_loops s = [] then None
      else find_unexpected (s_loops s) (s_checked s) [] (split_on CHR ''/'' i))"

definition no_loop :: loop_spec where
  "no_loop = \<lparr>l_id = [], l_max = 0, l_command = [], l_args = []\<rparr>"

definition start_worker :: "string \<Rightarrow> worker \<Rightarrow> sched \<Rightarrow> sched" where
  "start_worker i w s =
     (upd_node i (\<lambda>n. n\<lparr>xn_life := Running\<rparr>) s)\<lparr>s_outstanding := s_outstanding s + 1,
        s_workers := s_workers s @ [w]\<rparr>"

definition start_expect :: "string \<Rightarrow> exec_node \<Rightarrow> string \<Rightarrow> int \<Rightarrow> sched \<Rightarrow> sched" where
  "start_expect i n loop iter s =
     start_worker i (WExpect i loop iter (get_or no_loop (s_loops s) loop) (xn_env n)) s"

definition start_expansion :: "string \<Rightarrow> exec_node \<Rightarrow> sched \<Rightarrow> sched" where
  "start_expansion i n s = start_worker i (WExpand i (xn_node n) (xn_env n)) s"

definition dispatch_kind :: "cfg \<Rightarrow> string \<Rightarrow> exec_node \<Rightarrow> sched \<Rightarrow> sched" where
  "dispatch_kind k i n s =
     (case unexpected_iteration s i of
        Some (loop, iter) \<Rightarrow> start_expect i n loop iter s
      | None \<Rightarrow>
          if n_kind (xn_node n) = KindSelector then resolve_selector k i n s
          else if n_kind (xn_node n) = KindSubWorkflow then settle_sub_entry k i n s
          else if n_kind (xn_node n) = KindGenerate then start_expansion i n s
          else if n_kind (xn_node n) = KindAgent then dispatch_agent k i n s
          else settle_failed k i ReasonExpansion
                 (''unsupported node kind '' @ quote_str (n_kind (xn_node n))) s)"

definition dispatch :: "cfg \<Rightarrow> string \<Rightarrow> exec_node \<Rightarrow> sched \<Rightarrow> sched" where
  "dispatch k i n s =
     (case n_when (xn_node n) of
        None \<Rightarrow> dispatch_kind k i n s
      | Some spec \<Rightarrow>
          (case cond_eval (k_cel k) (xn_when n) spec (s_g s) (node_params s n) of
             Inl e \<Rightarrow> settle_failed k i ReasonCondition e s
           | Inr False \<Rightarrow> settle_skip k i StateSkippedCondition [] s
           | Inr True \<Rightarrow> dispatch_kind k i n s))"

subsection \<open>Launching and the drain loop\<close>

definition template_name :: "template option \<Rightarrow> string" where
  "template_name t = (case t of None \<Rightarrow> [] | Some x \<Rightarrow> t_name x)"

definition job_of :: "cfg \<Rightarrow> string \<Rightarrow> exec_node \<Rightarrow> box_job" where
  "job_of k i n =
     \<lparr>jb_id = i, jb_inputs = xn_inputs n, jb_hash = xn_hash n, jb_image = xn_image n,
      jb_template = n_template (xn_node n),
      jb_retry = (if n_retry (xn_node n) - xn_used n < 0 then 0 else n_retry (xn_node n) - xn_used n),
      jb_on_failure = n_on_failure (xn_node n),
      jb_endpoint = (case (k_class k, n_template (xn_node n)) of
                       (Some cls, Some t) \<Rightarrow> cls (t_name t) | _ \<Rightarrow> []),
      jb_base = xn_used n\<rparr>"

definition launch :: "cfg \<Rightarrow> string \<Rightarrow> exec_node \<Rightarrow> sched \<Rightarrow> sched" where
  "launch k i n s = start_worker i (WBox (job_of k i n)) s"

definition announce_hold :: "cfg \<Rightarrow> string \<Rightarrow> exec_node \<Rightarrow> string \<Rightarrow> sched \<Rightarrow> sched" where
  "announce_hold k i n why s =
     (if why = [] \<or> xn_waiting n = why then s
      else emit k ((blank_event EventStepWaiting i)\<lparr>ev_detail := why\<rparr>)
             (upd_node i (\<lambda>n. n\<lparr>xn_waiting := why\<rparr>) s))"

subsection \<open>What a dispatch can do\<close>

text \<open>It settles the node, hands it to a worker, or puts it in the slot queue.\<close>

definition slot_queued :: "string \<Rightarrow> exec_node \<Rightarrow> sched \<Rightarrow> sched" where
  "slot_queued i n s = (set_node i (n\<lparr>xn_life := SlotWait\<rparr>) s)\<lparr>s_slotq := insort i (s_slotq s)\<rparr>"

lemma agent_fields_life [simp]:
  "xn_life (agent_fields k s n) = xn_life n" "xn_gen (agent_fields k s n) = xn_gen n"
  "xn_node (agent_fields k s n) = xn_node n" "xn_cached (agent_fields k s n) = xn_cached n"
  "xn_status (agent_fields k s n) = xn_status n" "xn_env (agent_fields k s n) = xn_env n"
  by (auto simp: agent_fields_def split: option.splits inputs.splits sum.splits)

lemma put_put [simp]: "put k v (put k w m) = put k v m"
  by (induction m) auto

lemma set_node_twice [simp]: "set_node i a (set_node i b s) = set_node i a s"
  by (simp add: set_node_def)

lemma nodes_bind_scope [simp]: "g_nodes (s_g (bind_scope a x v s)) = g_nodes (s_g s)"
  by (simp add: bind_scope_def)

lemma nodes_bind_scope_slots:
  "bind_scope_slots a bs e xs s = (r, t) \<Longrightarrow> g_nodes (s_g t) = g_nodes (s_g s)"
  by (induction a bs e xs s rule: bind_scope_slots.induct) (auto split: option.splits bound.splits)

lemma nodes_bind_scope_edges:
  "bind_scope_edges a es s = (r, t) \<Longrightarrow> g_nodes (s_g t) = g_nodes (s_g s)"
  by (induction a es s rule: bind_scope_edges.induct) (auto simp: Let_def split: option.splits if_splits)

definition settles :: "string \<Rightarrow> sched \<Rightarrow> sched \<Rightarrow> bool" where
  "settles i s t \<longleftrightarrow> undone t \<subseteq> undone s - {i}"

lemma settlesI:
  assumes "node_of s i \<noteq> None" and "undone s \<subseteq> undone s0"
  shows "settles i s0 (settle_failed k i r d s)" "settles i s0 (settle_ok k i p s)"
    "settles i s0 (settle_skip k i st a s)" "settles i s0 (settle_result k i res x cs s)"
  using assms undone_settle_failed [of s i k r d] undone_settle_ok [of s i k p]
    undone_settle_skip [of k i st a s] undone_settle_result [of s i k res x cs]
  by (auto simp: settles_def)

lemma settle_sub_entry_settles:
  assumes "node_of s i = Some n"
  shows "settles i s (settle_sub_entry k i n s)"
proof (cases "map_of (s_scopes s) i")
  case None
  then show ?thesis using assms by (simp add: settle_sub_entry_def settlesI)
next
  case (Some a)
  obtain r1 s1 where s1: "bind_scope_slots a (n_bindings (xn_node n)) (xn_env n)
      (sorted_keys (n_bindings (xn_node n))) s = (r1, s1)" by fastforce
  obtain r2 s2 where s2: "bind_scope_edges a (g_data_in (s_g s1) i) s1 = (r2, s2)" by fastforce
  note same = nodes_bind_scope_slots [OF s1] nodes_bind_scope_edges [OF s2]
  then have "undone s1 = undone s" "undone s2 = undone s" by (simp_all add: undone_def)
  then show ?thesis
    using assms Some s1 s2 same
    by (auto simp: settle_sub_entry_def scope_stopped_def Let_def
        intro!: settlesI split: option.splits scope_stop.splits)
qed

lemma resolve_selector_settles:
  "node_of s i = Some n \<Longrightarrow> settles i s (resolve_selector k i n s)"
  by (auto simp: resolve_selector_def adopt_candidate_def intro!: settlesI
      split: option.splits list.splits sum.splits bool.splits)

lemma dispatch_agent_cases:
  assumes n: "node_of s i = Some n"
  shows "settles i s (dispatch_agent k i n s) \<or>
         (\<exists>n'. dispatch_agent k i n s = slot_queued i n' s \<and> n' = agent_fields k s n)"
proof -
  let ?s1 = "set_node i (agent_fields k s n) s"
  have u: "undone ?s1 = undone s" using n by (simp add: undone_same_life)
  have u2: "undone (set_node i (agent_fields k s n\<lparr>xn_cached := True\<rparr>) s) = undone s"
    using n by (simp add: undone_same_life)
  show ?thesis
  proof (cases "agent_gate k s n")
    case (GateHit a b c d)
    then show ?thesis
      using u2 by (auto simp: dispatch_agent_def tick_def upd_node_def undone_def Let_def
          intro!: settlesI)
  next
    case (GateRun a b c)
    then show ?thesis
      by (simp add: dispatch_agent_def slot_queued_def upd_node_def Let_def) (simp add: set_node_def)
  qed (use u in \<open>auto simp: dispatch_agent_def Let_def intro!: settlesI\<close>)
qed

definition dispatched :: "cfg \<Rightarrow> string \<Rightarrow> exec_node \<Rightarrow> sched \<Rightarrow> sched \<Rightarrow> bool" where
  "dispatched k i n s t \<longleftrightarrow> settles i s t \<or> (\<exists>w. t = start_worker i w s) \<or>
     t = slot_queued i (agent_fields k s n) s"

lemma dispatch_kind_cases:
  "node_of s i = Some n \<Longrightarrow> dispatched k i n s (dispatch_kind k i n s)"
  using dispatch_agent_cases [of s i n k]
  by (auto simp: dispatched_def dispatch_kind_def start_expect_def start_expansion_def
      intro: settlesI resolve_selector_settles settle_sub_entry_settles split: option.splits)

lemma dispatch_cases:
  assumes "node_of s i = Some n"
  shows "dispatched k i n s (dispatch k i n s)"
  using assms dispatch_kind_cases [OF assms]
  by (auto simp: dispatch_def dispatched_def intro!: settlesI split: option.splits sum.splits bool.splits)

subsection \<open>The drain loop\<close>

function grant :: "cfg \<Rightarrow> sched \<Rightarrow> string list \<Rightarrow> bool \<Rightarrow> sched \<times> string list \<times> bool" where
  "grant k s held progressed =
     (case s_slotq s of
        [] \<Rightarrow> (s, held, progressed)
      | i # q \<Rightarrow>
          if \<not> slot_free k s \<or> s_fatal s \<noteq> None then (s, held, progressed)
          else (let s1 = s\<lparr>s_slotq := q\<rparr> in
            case node_of s i of
              None \<Rightarrow> grant k s1 held progressed
            | Some n \<Rightarrow>
                if xn_life n \<noteq> SlotWait then grant k s1 held progressed
                else if hold_reason k s1 n \<noteq> [] then
                  grant k (announce_hold k i n (hold_reason k s1 n) s1) (held @ [i]) progressed
                else grant k (launch k i n (take_pools k n (upd_node i (\<lambda>n. n\<lparr>xn_waiting := []\<rparr>) s1)))
                       held True))"
  by pat_completeness auto

lemma slotq_frames [simp]:
  "s_slotq (announce_hold k i n w s) = s_slotq s"
  "s_slotq (upd_node i f s) = s_slotq s"
  "s_slotq (take_pools k n s) = s_slotq s"
  "s_slotq (launch k i n s) = s_slotq s"
proof -
  show a: "s_slotq (upd_node i f s) = s_slotq s" for i f s
    by (rule frame_sel) (rule frame_upd_node)
  have "s_slotq (emit k e s) = s_slotq s" for e s
    by (rule frame_sel) (rule frame_emit)
  with a show "s_slotq (announce_hold k i n w s) = s_slotq s" by (simp add: announce_hold_def)
  show "s_slotq (take_pools k n s) = s_slotq s"
    by (simp add: take_pools_def take_slot_def Let_def)
  show "s_slotq (launch k i n s) = s_slotq s"
    by (simp add: launch_def start_worker_def a)
qed

termination grant
  by (relation "measure (\<lambda>(k, s, h, p). length (s_slotq s))") auto

declare grant.simps [simp del]

text \<open>When the global slot is what everything waits for, the head of the queue says so; then the held
  nodes go back.\<close>

definition after_grant :: "cfg \<Rightarrow> string list \<Rightarrow> sched \<Rightarrow> sched" where
  "after_grant k held s =
     (let s1 = (if slot_free k s then s
                else case s_slotq s of
                  [] \<Rightarrow> s
                | i # q \<Rightarrow>
                    (case node_of s i of
                       None \<Rightarrow> s
                     | Some n \<Rightarrow> if xn_life n = SlotWait then announce_hold k i n (hold_reason k s n) s else s))
      in s1\<lparr>s_slotq := fold insort held (s_slotq s1)\<rparr>)"

lemma undone_psubset:
  "settles i s t \<Longrightarrow> i \<in> undone s \<Longrightarrow> card (undone t) < card (undone s)"
  unfolding settles_def by (intro psubset_card_mono) auto

text \<open>The work left in the lives: a queued node can still be dispatched and then launched.\<close>

definition life_weight :: "exec_node \<Rightarrow> nat" where
  "life_weight n = (case xn_life n of Queued \<Rightarrow> 2 | SlotWait \<Rightarrow> 1 | _ \<Rightarrow> 0)"

definition weight :: "sched \<Rightarrow> nat" where
  "weight s = (\<Sum>i \<in> keys (g_nodes (s_g s)). life_weight (the (node_of s i)))"

lemma weight_eq: "node_of s = node_of t \<Longrightarrow> weight s = weight t"
  by (simp add: weight_def)

lemma weight_set_node:
  assumes "node_of s i = Some n"
  shows "weight (set_node i n' s) + life_weight n = weight s + life_weight n'"
proof -
  let ?K = "keys (g_nodes (s_g s))"
  have "i \<in> ?K" using assms by auto
  moreover have "keys (g_nodes (s_g (set_node i n' s))) = ?K"
    using assms by (auto simp: set_node_def)
  moreover have "(\<Sum>j \<in> ?K - {i}. life_weight (the (node_of (set_node i n' s) j))) =
      (\<Sum>j \<in> ?K - {i}. life_weight (the (node_of s j)))"
    by (rule sum.cong) auto
  ultimately show ?thesis
    using assms by (simp add: weight_def sum.remove [of ?K i])
qed

lemma node_start_worker: "node_of (start_worker i w s) =
   (node_of s)(i := map_option (\<lambda>n. n\<lparr>xn_life := Running\<rparr>) (node_of s i))"
  by (simp add: start_worker_def node_upd_node fun_eq_iff)

lemma weight_start_worker:
  assumes "node_of s i = Some n"
  shows "weight (start_worker i w s) + life_weight n = weight s"
proof -
  have "weight (start_worker i w s) = weight (set_node i (n\<lparr>xn_life := Running\<rparr>) s)"
    using assms by (intro weight_eq) (simp add: node_start_worker)
  then show ?thesis using weight_set_node [OF assms, of "n\<lparr>xn_life := Running\<rparr>"] by (simp add: life_weight_def)
qed

lemma undone_start_worker: "node_of s i = Some n \<Longrightarrow> \<not> terminal n \<Longrightarrow> undone (start_worker i w s) = undone s"
  by (auto simp: undone_def node_start_worker terminal_def)

text \<open>A dispatch makes progress: fewer undone nodes, or as many and less work left in their lives.\<close>

lemma dispatched_progress:
  assumes "dispatched k i n s t" and "node_of s i = Some n" and "xn_life n = Queued"
  shows "card (undone t) < card (undone s) \<or>
         undone t = undone s \<and> weight t < weight s \<and> s_ready t = s_ready s"
proof -
  have nt: "\<not> terminal n" "i \<in> undone s" using assms by (auto simp: terminal_def undone_def)
  have w2: "life_weight n = 2" using assms by (simp add: life_weight_def)
  from assms(1) consider "settles i s t" | w where "t = start_worker i w s"
    | "t = slot_queued i (agent_fields k s n) s" by (auto simp: dispatched_def)
  then show ?thesis
  proof cases
    case 1
    then show ?thesis using nt undone_psubset by blast
  next
    case 2
    then show ?thesis
      using undone_start_worker [OF assms(2) nt(1), of w] weight_start_worker [OF assms(2), of w] w2
      by (simp add: start_worker_def) (simp add: upd_node_def set_node_def assms(2))
  next
    case 3
    let ?n' = "agent_fields k s n\<lparr>xn_life := SlotWait\<rparr>"
    have "weight t = weight (set_node i ?n' s)" "undone t = undone (set_node i ?n' s)"
      using 3 by (simp_all add: slot_queued_def weight_def undone_def)
    moreover have "undone (set_node i ?n' s) = undone s"
      using nt by (auto simp: undone_set_node terminal_def)
    moreover have "life_weight ?n' = 1" by (simp add: life_weight_def)
    moreover have "s_ready t = s_ready s" using 3 by (simp add: slot_queued_def set_node_def)
    ultimately show ?thesis using weight_set_node [OF assms(2), of ?n'] w2 by simp
  qed
qed

function ready_loop :: "cfg \<Rightarrow> sched \<Rightarrow> bool \<Rightarrow> sched \<times> bool" where
  "ready_loop k s progressed =
     (case s_ready s of
        [] \<Rightarrow> (s, progressed)
      | i # q \<Rightarrow>
          if s_fatal s \<noteq> None then (s, progressed)
          else (let s1 = s\<lparr>s_ready := q\<rparr> in
            case node_of s i of
              None \<Rightarrow> ready_loop k s1 progressed
            | Some n \<Rightarrow>
                if xn_life n \<noteq> Queued then ready_loop k s1 progressed
                else ready_loop k (dispatch k i n s1) True))"
  by pat_completeness auto

lemma undone_ready [simp]: "undone (s\<lparr>s_ready := q\<rparr>) = undone s"
  by (rule undone_eq) simp

lemma weight_ready [simp]: "weight (s\<lparr>s_ready := q\<rparr>) = weight s"
  by (rule weight_eq) simp

lemma dispatch_progress:
  assumes "node_of s i = Some n" and "xn_life n = Queued"
  shows "card (undone (dispatch k i n (s\<lparr>s_ready := q\<rparr>))) < card (undone s) \<or>
         undone (dispatch k i n (s\<lparr>s_ready := q\<rparr>)) = undone s \<and>
         weight (dispatch k i n (s\<lparr>s_ready := q\<rparr>)) < weight s \<and>
         s_ready (dispatch k i n (s\<lparr>s_ready := q\<rparr>)) = q"
  using dispatched_progress [OF dispatch_cases, of "s\<lparr>s_ready := q\<rparr>" i n k] assms by simp

termination ready_loop
proof (relation "measures [\<lambda>(k, s, p). card (undone s), \<lambda>(k, s, p). length (s_ready s)]", simp, goal_cases)
  case (3 k s p i q s1 n)
  then show ?case using dispatch_progress [of s i n k q] by auto
qed auto

declare ready_loop.simps [simp del]

definition pause_gate :: "cfg \<Rightarrow> sched \<Rightarrow> bool \<times> sched" where
  "pause_gate k s =
     (if s_paused s then (True, s)
      else case k_pause k of
        None \<Rightarrow> (False, s)
      | Some probe \<Rightarrow>
          (let s1 = s\<lparr>s_probes := Suc (s_probes s)\<rparr> in
           if probe (s_probes s)
           then (True, emit k (blank_event EventPauseRequested []) (s1\<lparr>s_paused := True\<rparr>))
           else (False, s1)))"

text \<open>Launching and announcing keep the count of undone nodes; a launch spends weight.\<close>

lemma node_launch_path:
  "node_of (launch k i n (take_pools k n (upd_node i (\<lambda>n. n\<lparr>xn_waiting := []\<rparr>) s))) =
   (node_of s)(i := map_option (\<lambda>n. n\<lparr>xn_waiting := [], xn_life := Running\<rparr>) (node_of s i))"
proof -
  have "node_of (take_pools k n t) = node_of t" for t
    by (simp add: take_pools_def take_slot_def Let_def)
  then show ?thesis
    by (cases "node_of s i") (simp_all add: launch_def node_start_worker node_upd_node)
qed

lemma weight_nodes:
  assumes "node_of s i = Some n" and "node_of t = (node_of s)(i \<mapsto> n')"
  shows "weight t + life_weight n = weight s + life_weight n'"
    and "terminal n' = terminal n \<Longrightarrow> undone t = undone s"
proof -
  have "weight t = weight (set_node i n' s)" using assms(2) by (intro weight_eq) simp
  then show "weight t + life_weight n = weight s + life_weight n'"
    using weight_set_node [OF assms(1)] by simp
  show "terminal n' = terminal n \<Longrightarrow> undone t = undone s"
    using assms by (auto simp: undone_def split: if_splits)
qed

lemma node_announce:
  assumes "node_of s i = Some n"
  shows "\<exists>w. node_of (announce_hold k i m why s) = (node_of s)(i \<mapsto> n\<lparr>xn_waiting := w\<rparr>)"
proof (cases "why = [] \<or> xn_waiting m = why")
  case True
  then show ?thesis using assms by (intro exI [of _ "xn_waiting n"]) (auto simp: announce_hold_def)
next
  case False
  then show ?thesis using assms by (intro exI [of _ why]) (simp add: announce_hold_def node_upd_node)
qed

lemma announce_progress:
  "node_of s i = Some n \<Longrightarrow> undone (announce_hold k i m why s) = undone s \<and>
     weight (announce_hold k i m why s) = weight s"
  using node_announce [of s i n k m why] weight_nodes [of s i n "announce_hold k i m why s"]
  by (fastforce simp: life_weight_def terminal_def)

lemma undone_slotq [simp]: "undone (s\<lparr>s_slotq := q\<rparr>) = undone s"
  by (rule undone_eq) simp

lemma weight_slotq [simp]: "weight (s\<lparr>s_slotq := q\<rparr>) = weight s"
  by (rule weight_eq) simp

lemma grant_progress:
  "grant k s held p = (t, held', p') \<Longrightarrow>
   undone t = undone s \<and> weight t \<le> weight s \<and> (p' \<longrightarrow> p \<or> weight t < weight s)"
proof (induction k s held p rule: grant.induct)
  case (1 k s held p)
  show ?case
  proof (cases "s_slotq s")
    case Nil
    then show ?thesis using "1.prems" by (simp add: grant.simps)
  next
    case (Cons i q)
    define s1 where "s1 = s\<lparr>s_slotq := q\<rparr>"
    show ?thesis
    proof (cases "\<not> slot_free k s \<or> s_fatal s \<noteq> None")
      case True
      with Cons "1.prems" show ?thesis by (subst (asm) grant.simps) auto
    next
      case go: False
      note IH = "1.IH" [OF Cons _ s1_def]
      show ?thesis
      proof (cases "node_of s i")
        case None
        with Cons go "1.prems" have "grant k s1 held p = (t, held', p')"
          by (subst (asm) grant.simps) (auto simp: s1_def Let_def)
        from IH(1) [OF _ None this] go show ?thesis by (auto simp: s1_def)
      next
        case (Some n)
        show ?thesis
        proof (cases "xn_life n = SlotWait")
          case False
          with Cons go Some "1.prems" have "grant k s1 held p = (t, held', p')"
            by (subst (asm) grant.simps) (auto simp: s1_def Let_def)
          from IH(2) [OF _ Some _ this] go False show ?thesis by (auto simp: s1_def)
        next
          case sw: True
          show ?thesis
          proof (cases "hold_reason k s1 n = []")
            case False
            with Cons go Some sw "1.prems"
            have "grant k (announce_hold k i n (hold_reason k s1 n) s1) (held @ [i]) p = (t, held', p')"
              by (subst (asm) grant.simps) (auto simp: s1_def Let_def)
            from IH(3) [OF _ Some _ _ this] go False sw announce_progress [of s1 i n k n] Some
            show ?thesis by (auto simp: s1_def)
          next
            case True
            let ?u = "launch k i n (take_pools k n (upd_node i (\<lambda>n. n\<lparr>xn_waiting := []\<rparr>) s1))"
            let ?n' = "n\<lparr>xn_waiting := [], xn_life := Running\<rparr>"
            from True Cons go Some sw "1.prems" have g: "grant k ?u held True = (t, held', p')"
              by (subst (asm) grant.simps) (auto simp: s1_def Let_def)
            have s1n: "node_of s1 i = Some n" using Some by (simp add: s1_def)
            have "node_of ?u = (node_of s1)(i \<mapsto> ?n')"
              using s1n by (simp add: node_launch_path)
            from weight_nodes [OF s1n this] sw
            have "weight ?u + 1 = weight s1" "undone ?u = undone s1"
              by (auto simp: life_weight_def terminal_def)
            with IH(4) [OF _ Some _ _ g] go sw True show ?thesis by (auto simp: s1_def)
          qed
        qed
      qed
    qed
  qed
qed

lemma after_grant_progress [simp]:
  "undone (after_grant k held s) = undone s" "weight (after_grant k held s) = weight s"
  using announce_progress
  by (auto simp: after_grant_def Let_def split: list.splits option.splits)

lemma ready_loop_progress:
  "ready_loop k s p = (t, p') \<Longrightarrow>
   card (undone t) < card (undone s) \<or>
   undone t = undone s \<and> weight t \<le> weight s \<and> (p' \<longrightarrow> p \<or> weight t < weight s)"
proof (induction k s p rule: ready_loop.induct)
  case (1 k s p)
  show ?case
  proof (cases "s_ready s")
    case Nil
    then show ?thesis using "1.prems" by (simp add: ready_loop.simps)
  next
    case (Cons i q)
    define s1 where "s1 = s\<lparr>s_ready := q\<rparr>"
    note IH = "1.IH" [OF Cons _ s1_def]
    show ?thesis
    proof (cases "s_fatal s \<noteq> None")
      case True
      with Cons "1.prems" show ?thesis by (subst (asm) ready_loop.simps) auto
    next
      case nf: False
      show ?thesis
      proof (cases "node_of s i")
        case None
        with Cons nf "1.prems" have g: "ready_loop k s1 p = (t, p')"
          by (subst (asm) ready_loop.simps) (simp add: s1_def Let_def)
        have "card (undone t) < card (undone s1) \<or>
              undone t = undone s1 \<and> weight t \<le> weight s1 \<and> (p' \<longrightarrow> p \<or> weight t < weight s1)"
          using IH(1) [OF _ None g] nf by simp
        then show ?thesis by (simp add: s1_def)
      next
        case (Some n)
        show ?thesis
        proof (cases "xn_life n = Queued")
          case False
          with Some Cons nf "1.prems" have g: "ready_loop k s1 p = (t, p')"
            by (subst (asm) ready_loop.simps) (simp add: s1_def Let_def)
          have "card (undone t) < card (undone s1) \<or>
              undone t = undone s1 \<and> weight t \<le> weight s1 \<and> (p' \<longrightarrow> p \<or> weight t < weight s1)"
            using IH(2) [OF _ Some _ g] nf False by simp
          then show ?thesis by (simp add: s1_def)
        next
          case True
          let ?u = "dispatch k i n s1"
          from Some True Cons nf "1.prems" have g: "ready_loop k ?u True = (t, p')"
            by (subst (asm) ready_loop.simps) (simp add: s1_def Let_def)
          have d: "card (undone ?u) < card (undone s) \<or> undone ?u = undone s \<and> weight ?u < weight s"
            using dispatch_progress [OF Some True, of k q] by (auto simp: s1_def)
          have "card (undone t) < card (undone ?u) \<or> undone t = undone ?u \<and> weight t \<le> weight ?u"
            using IH(3) [OF nf Some _ g] by (simp add: True)
          with d show ?thesis by (elim disjE conjE) simp_all
        qed
      qed
    qed
  qed
qed

lemma pause_gate_nodes: "pause_gate k s = (b, t) \<Longrightarrow> node_of t = node_of s"
  by (auto simp: pause_gate_def Let_def split: option.splits if_splits)

function drain :: "cfg \<Rightarrow> sched \<Rightarrow> sched" where
  "drain k s =
     (if s_fatal s \<noteq> None then s
      else case pause_gate k s of
        (True, s1) \<Rightarrow> s1
      | (False, s1) \<Rightarrow>
          (case grant k s1 [] False of (s2, held, p1) \<Rightarrow>
           (case ready_loop k (after_grant k held s2) p1 of (s3, p2) \<Rightarrow>
              if p2 then drain k s3 else s3)))"
  by pat_completeness auto

termination drain
proof (relation "measures [\<lambda>(k, s). card (undone s), \<lambda>(k, s). weight s]", simp, goal_cases)
  case (1 k s b s1 s2 v held p1 s3 p2)
  have e: "undone s1 = undone s" "weight s1 = weight s"
    using pause_gate_nodes [OF 1(2) [symmetric]] by (simp_all add: undone_def weight_def)
  have "grant k s1 [] False = (s2, held, p1)" using 1 by simp
  note g = grant_progress [OF this]
  have "ready_loop k (after_grant k held s2) p1 = (s3, p2)" using 1 by simp
  from ready_loop_progress [OF this] g e 1 show ?case by auto
qed

declare drain.simps [simp del]

end
