(* ===== verification/RunLoop.thy ===== *)
theory RunLoop
  imports Dispatch
begin

text \<open>
  The scheduler's main loop (\<open>pipeline/scheduler.go\<close>, with \<open>loopSpecs\<close> and \<open>lanePools\<close> of
  \<open>pipeline/executor.go\<close>): splicing a generate's instances into the running graph, folding the events
  of workers and timers, and the run as a relation whose steps are the arrivals of events.
\<close>

subsection \<open>Splicing a generate's instances\<close>

text \<open>\<open>registerScopes\<close>: the address of each nested graph's scope, read off its first member.\<close>

function register_scopes :: "ir \<Rightarrow> sched \<Rightarrow> sched" where
  "register_scopes g s =
     fold (\<lambda>n s.
       if n_kind n \<noteq> KindSubWorkflow then s
       else case n_sub n of
         None \<Rightarrow> s
       | Some h \<Rightarrow>
           (let s1 = (case g_members (s_g s) (n_id n) of
                        m # ms \<Rightarrow>
                          (case node_of s m of
                             None \<Rightarrow> s
                           | Some mn \<Rightarrow> s\<lparr>s_scopes := put (n_id n) (xn_env mn) (s_scopes s)\<rparr>)
                      | [] \<Rightarrow>
                          (case new_env \<lparr>sc_entry = n_id n, sc_params = []\<rparr> (s_g s) of
                             (a, g1) \<Rightarrow> s\<lparr>s_g := g1, s_scopes := put (n_id n) a (s_scopes s)\<rparr>))
            in register_scopes h s1)) (ir_nodes g) s"
  by pat_completeness auto
termination by (relation "measure (\<lambda>(g, s). size g)") (auto simp: termination_simp)

declare register_scopes.simps [simp del]

text \<open>\<open>loopSpecs\<close> (\<open>pipeline/executor.go\<close>): every loop expectation of a graph and its nested graphs,
  rebased under the instance scope when there is one.\<close>

function loop_specs_into :: "string \<Rightarrow> ir \<Rightarrow> loop_spec smap \<Rightarrow> loop_spec smap" where
  "loop_specs_into prefix g out =
     fold (\<lambda>n out. case n_sub n of None \<Rightarrow> out | Some h \<Rightarrow> loop_specs_into prefix h out) (ir_nodes g)
       (fold (\<lambda>l out.
          let i = (if prefix \<noteq> [] then prefix @ trim_prefix (ir_workflow g @ ''/'') (l_id l) else l_id l)
          in put i (l\<lparr>l_id := i\<rparr>) out) (ir_loops g) out)"
  by pat_completeness auto
termination by (relation "measure (\<lambda>(p, g, out). size g)") (auto simp: termination_simp)

declare loop_specs_into.simps [simp del]

definition loop_specs :: "ir \<Rightarrow> string \<Rightarrow> loop_spec smap" where
  "loop_specs g prefix = loop_specs_into prefix g []"

definition lane_pools :: "int smap \<Rightarrow> pool smap" where
  "lane_pools lanes = map (\<lambda>(n, m). (n, \<lparr>p_max = m, p_used = 0\<rparr>)) lanes"

text \<open>The instances' levels one after the other; the first error ends it with the ids added so far.\<close>

fun splice_levels :: "cel_check \<Rightarrow> instance_spec list \<Rightarrow> string list \<Rightarrow> sched
    \<Rightarrow> string option \<times> string list \<times> sched" where
  "splice_levels chk [] ids s = (None, ids, s)"
| "splice_levels chk (inst # insts) ids s =
     (case new_env \<lparr>sc_entry = [], sc_params = in_params inst\<rparr> (s_g s) of (a, g0) \<Rightarrow>
      (case add_level chk (in_ir inst) a g0 of
         (Some e, new, g1) \<Rightarrow> (Some e, ids @ new, s\<lparr>s_g := g1\<rparr>)
       | (None, new, g1) \<Rightarrow>
           splice_levels chk insts (ids @ new) (register_scopes (in_ir inst) (s\<lparr>s_g := g1\<rparr>))))"

definition cross_pairs :: "string list \<Rightarrow> string list \<Rightarrow> (string \<times> string) list" where
  "cross_pairs as bs = concat (map (\<lambda>a. map (Pair a) bs) as)"

text \<open>The last instance of an item id, as the map by id holds it.\<close>

definition inst_by_id :: "instance_spec list \<Rightarrow> string \<Rightarrow> instance_spec option" where
  "inst_by_id insts i = find (\<lambda>inst. in_item inst = i) (rev insts)"

definition order_pairs :: "instance_spec list \<Rightarrow> (string \<times> string) list" where
  "order_pairs insts =
     concat (map (\<lambda>inst. concat (map (\<lambda>d.
       case inst_by_id insts d of
         None \<Rightarrow> []
       | Some dj \<Rightarrow> cross_pairs (deep_sinks (in_ir dj)) (level_sources (in_ir inst))) (in_deps inst))) insts)"

definition rewire_pairs :: "instance_spec list \<Rightarrow> string list \<Rightarrow> (string \<times> string) list" where
  "rewire_pairs insts dependents =
     concat (map (\<lambda>inst. cross_pairs (deep_sinks (in_ir inst)) dependents) insts)"

definition with_graph :: "(graph \<Rightarrow> graph) \<Rightarrow> sched \<Rightarrow> sched" where
  "with_graph f s = s\<lparr>s_g := f (s_g s)\<rparr>"

definition tag_gen :: "string \<Rightarrow> string list \<Rightarrow> sched \<Rightarrow> sched" where
  "tag_gen i ids s = fold (\<lambda>x. upd_node x (\<lambda>n. n\<lparr>xn_gen := i\<rparr>)) ids s"

definition open_gen_pool :: "string \<Rightarrow> exec_node \<Rightarrow> sched \<Rightarrow> sched" where
  "open_gen_pool i n s =
     (case n_gen (xn_node n) of
        None \<Rightarrow> s
      | Some gs \<Rightarrow>
          if 0 < gs_max_parallel gs
          then s\<lparr>s_gen_pools := put i \<lparr>p_max = gs_max_parallel gs, p_used = 0\<rparr> (s_gen_pools s)\<rparr>
          else s)"

definition splice_loops :: "string \<Rightarrow> instance_spec list \<Rightarrow> sched \<Rightarrow> sched" where
  "splice_loops i insts s =
     s\<lparr>s_loops := fold (\<lambda>inst out. fold (\<lambda>(x, l). put x l)
         (loop_specs (in_ir inst) (i @ ''['' @ in_item inst @ '']/'')) out) insts (s_loops s)\<rparr>"

definition push_sources :: "string list \<Rightarrow> sched \<Rightarrow> sched" where
  "push_sources ids s = fold (\<lambda>x s. if g_indeg (s_g s) x = 0 then push x s else s) (sort ids) s"

definition apply_expansion :: "cfg \<Rightarrow> string \<Rightarrow> string + instance_spec list \<Rightarrow> sched \<Rightarrow> sched" where
  "apply_expansion k i out s =
     (case node_of s i of
        None \<Rightarrow> s
      | Some n \<Rightarrow>
          if terminal n then s
          else (case out of
            Inl e \<Rightarrow>
              (let (now, s1) = tick k s
               in settle_result k i ((source_contract_result e)
                    \<lparr>r_timing := \<lparr>tm_started = now, tm_finished = now\<rparr>\<rparr>) False [] s1)
          | Inr insts \<Rightarrow>
              (case splice_levels (k_chk k) insts [] s of
                 (Some e, ids, s1) \<Rightarrow> settle_failed k i ReasonExpansion e (with_graph (remove_ids ids) s1)
               | (None, ids, s1) \<Rightarrow>
                   (let s2 = splice_loops i insts (open_gen_pool i n (tag_gen i ids s1));
                        s3 = with_graph (add_pairs (order_pairs insts)) s2;
                        s4 = with_graph (add_pairs (rewire_pairs insts (succs (s_g s3) i))) s3;
                        s5 = push_sources ids s4;
                        s6 = emit k ((blank_event EventGenerateExpanded i)\<lparr>
                               ev_items := int (length insts), ev_nodes := int (length ids),
                               ev_loops := fold note_loop_bounds (sort ids) []\<rparr>) s5
                    in settle_ok k i (Some (generate_payload insts)) s6))))"

subsection \<open>Folding an event\<close>

definition apply_expected :: "cfg \<Rightarrow> string \<Rightarrow> string \<Rightarrow> int \<Rightarrow> string + int \<Rightarrow> sched \<Rightarrow> sched" where
  "apply_expected k i loop iter out s =
     (case node_of s i of
        None \<Rightarrow> s
      | Some n \<Rightarrow>
          if terminal n then s
          else (let s1 = (if get_or 0 (s_checked s) loop < iter
                          then s\<lparr>s_checked := put loop iter (s_checked s)\<rparr> else s) in
            case out of
              Inl e \<Rightarrow>
                (let (now, s2) = tick k s1
                 in settle_result k i ((source_contract_result e)
                      \<lparr>r_timing := \<lparr>tm_started = now, tm_finished = now\<rparr>\<rparr>) False [] s2)
            | Inr count \<Rightarrow>
                (let spec = get_or no_loop (s_loops s1) loop;
                     s2 = emit k ((blank_event EventLoopExpected loop)\<lparr>ev_expected := count,
                            ev_cap := l_max spec\<rparr>) (s1\<lparr>s_expected := put loop count (s_expected s1)\<rparr>);
                     s3 = upd_node i (\<lambda>n. n\<lparr>xn_life := Pending\<rparr>) s2
                 in if l_max spec < count
                    then (if s_paused s3 then s3
                          else (let d = loop @ '': expected '' @ itoa count @ '', cap '' @ itoa (l_max spec) @
                                        ''; raise the cap and resume''
                                in emit k ((blank_event EventPauseRequested [])\<lparr>ev_detail := d\<rparr>)
                                     (s3\<lparr>s_paused := True, s_pause_detail := d\<rparr>)))
                    else push i s3)))"

definition deferred_note :: "time \<Rightarrow> time \<Rightarrow> string \<Rightarrow> attempt_info" where
  "deferred_note now until detail =
     \<lparr>ai_attempt = 0, ai_timing = \<lparr>tm_started = now, tm_finished = (if until = 0 then now else until)\<rparr>,
      ai_error = Some (error_of ReasonDeferred detail)\<rparr>"

text \<open>A settled worker's record, with what earlier dispatches of the node left.\<close>

definition merged_result :: "exec_node \<Rightarrow> result \<Rightarrow> result" where
  "merged_result n res =
     (let merged = xn_history n @ r_attempts res @ xn_annotations n;
          res1 = res\<lparr>r_attempt := r_attempt res + xn_used n\<rparr>
      in if merged = [] then res1 else res1\<lparr>r_attempts := merged\<rparr>)"

definition fold_settled :: "cfg \<Rightarrow> string \<Rightarrow> result \<Rightarrow> cost list \<Rightarrow> bool \<Rightarrow> sched \<Rightarrow> sched" where
  "fold_settled k i res costs executed s =
     (case node_of s i of
        None \<Rightarrow> s
      | Some n \<Rightarrow> if terminal n then s else settle_result k i (merged_result n res) executed costs s)"

definition fold_deferred ::
  "cfg \<Rightarrow> string \<Rightarrow> time \<Rightarrow> string \<Rightarrow> attempt_info list \<Rightarrow> int \<Rightarrow> cost list \<Rightarrow> sched \<Rightarrow> sched" where
  "fold_deferred k i until detail history used costs s =
     (case node_of s i of
        None \<Rightarrow> s
      | Some n \<Rightarrow>
          if terminal n then s
          else (let (now, s1) = tick k s;
                    s2 = set_node i (n\<lparr>xn_used := xn_used n + used, xn_history := xn_history n @ history,
                           xn_costs := xn_costs n @ costs,
                           xn_annotations := xn_annotations n @ [deferred_note now until detail],
                           xn_life := Deferred\<rparr>) s1;
                    s3 = must_append k (JDefer \<lparr>df_step = i, df_until = until, df_detail = detail\<rparr>) s2;
                    s4 = emit k ((blank_event EventStepDeferred i)\<lparr>ev_time := now, ev_until := until,
                           ev_detail := detail\<rparr>) s3
                in if until = 0
                   then (let s5 = s4\<lparr>s_wait_zero := s_wait_zero s4 @ [i]\<rparr>
                         in if s_outstanding s5 = 0 then wake_parked s5 else s5)
                   else wake_parked (s4\<lparr>s_timers := s_timers s4 @ [i]\<rparr>)))"

definition one_less :: "sched \<Rightarrow> sched" where
  "one_less s = s\<lparr>s_outstanding := s_outstanding s - 1\<rparr>"

definition release_if :: "cfg \<Rightarrow> bool \<Rightarrow> string \<Rightarrow> sched \<Rightarrow> sched" where
  "release_if k slot i s = (if slot then release_pools k (node_of s i) s else s)"

definition step_event :: "cfg \<Rightarrow> event \<Rightarrow> sched \<Rightarrow> sched" where
  "step_event k ev s =
     (case ev of
        EvSettled i res costs executed slot \<Rightarrow>
          fold_settled k i res costs executed (release_if k slot i (one_less s))
      | EvDeferred i until detail history used costs slot \<Rightarrow>
          fold_deferred k i until detail history used costs (release_if k slot i (one_less s))
      | EvWake i \<Rightarrow>
          (case node_of s i of
             None \<Rightarrow> s
           | Some n \<Rightarrow> if xn_life n = Deferred then push i s else s)
      | EvExpanded i out \<Rightarrow> apply_expansion k i out (one_less s)
      | EvExpected i loop iter out \<Rightarrow> apply_expected k i loop iter out (one_less s))"

end
