(* ===== verification/Execution.thy ===== *)
theory Execution
  imports RunLoop
begin

text \<open>
  A whole execution (\<open>pipeline/scheduler.go\<close> \<open>run\<close>, \<open>pipeline/executor.go\<close> \<open>Execute\<close>): the state it
  starts from, the main loop as a step relation, and how it ends. A step of the loop is the arrival of
  one event; which of the workers and timers in flight delivers next, and what a worker found, is left
  open, so the relation has every interleaving the channels allow. The step list of the journal may
  also grow between two events, by the start and cleanup records the box workers append.
\<close>

subsection \<open>Setting up\<close>

record run_params =
  rp_ir :: ir
  rp_params :: "goval smap"
  rp_run :: string

definition blank_sched :: "graph \<Rightarrow> ir \<Rightarrow> sched" where
  "blank_sched g i = \<lparr>s_g = g, s_scopes = [], s_ready = [], s_slotq = [], s_slots = 0,
     s_gen_pools = [], s_lanes = lane_pools (ir_lanes i), s_loops = loop_specs i [],
     s_checked = [], s_expected = [], s_pause_detail = [], s_outstanding = 0, s_wait_zero = [],
     s_paused = False, s_failed = 0, s_halts = [], s_fatal = None, s_journal = [], s_events = [],
     s_workers = [], s_timers = [], s_clock = 0, s_probes = 0\<rparr>"

definition run_setup :: "cfg \<Rightarrow> run_params \<Rightarrow> string + sched" where
  "run_setup k r =
     (case new_env \<lparr>sc_entry = [], sc_params = rp_params r\<rparr> new_graph of (a, g) \<Rightarrow>
      (case add_level (k_chk k) (rp_ir r) a g of
         (Some e, _, _) \<Rightarrow> Inl e
       | (None, _, g1) \<Rightarrow>
           Inr (emit k ((blank_event EventRunStarted [])\<lparr>ev_run := rp_run r,
                  ev_workflow := ir_workflow (rp_ir r), ev_loops := loop_bounds (rp_ir r)\<rparr>)
                (register_scopes (rp_ir r) (blank_sched g1 (rp_ir r))))))"

text \<open>The first pass: every node without dependencies is ready, and the queues are drained.\<close>

definition run_start :: "cfg \<Rightarrow> sched \<Rightarrow> sched" where
  "run_start k s =
     drain k (fold (\<lambda>i s. if g_indeg (s_g s) i = 0 then push i s else s) (sorted_ids (s_g s)) s)"

subsection \<open>The main loop\<close>

definition finished :: "sched \<Rightarrow> bool" where
  "finished s \<longleftrightarrow> int (length (g_nodes (s_g s))) \<le> g_done (s_g s)"

text \<open>The loop goes on: nodes are left, and neither an abort nor a pause has let everything in flight
  settle.\<close>

definition looping :: "sched \<Rightarrow> bool" where
  "looping s \<longleftrightarrow> \<not> finished s \<and>
     (if s_fatal s \<noteq> None then s_outstanding s \<noteq> 0
      else \<not> (s_paused s \<and> s_outstanding s = 0))"

definition fold_event :: "cfg \<Rightarrow> event \<Rightarrow> sched \<Rightarrow> sched" where
  "fold_event k ev s = (let t = step_event k ev s in if s_fatal t = None then drain k t else t)"

text \<open>What a worker may report. A box worker settles or defers its own node and gives its slot back;
  the data-source workers report what the command, whose answer may differ from call to call, makes of
  the contract.\<close>

definition worker_id :: "worker \<Rightarrow> string" where
  "worker_id w = (case w of WBox j \<Rightarrow> jb_id j | WExpand i n a \<Rightarrow> i | WExpect i l t sp a \<Rightarrow> i)"

definition runner_of :: "cfg \<Rightarrow> source_run \<Rightarrow> source_run option" where
  "runner_of k run = map_option (\<lambda>_. run) (k_runner k)"

inductive reports :: "cfg \<Rightarrow> sched \<Rightarrow> worker \<Rightarrow> event \<Rightarrow> bool" for k s where
  box_settled: "reports k s (WBox j) (EvSettled (jb_id j) res costs executed True)"
| box_deferred: "reports k s (WBox j) (EvDeferred (jb_id j) until detail history used costs True)"
| expanded: "reports k s (WExpand i n a)
     (EvExpanded i (expand (runner_of k run) (k_pf k) (k_ff k) (k_fj k) (k_irs k) n (env_params (s_g s) a)))"
| expected: "reports k s (WExpect i loop iter spec a)
     (EvExpected i loop iter (expect_count (runner_of k run) (k_ff k) (k_fj k) spec (env_params (s_g s) a)))"

text \<open>The records a box worker appends while its attempts run.\<close>

definition worker_entry :: "box_job \<Rightarrow> entry \<Rightarrow> bool" where
  "worker_entry j e = (case e of JStart r \<Rightarrow> sr_step r = jb_id j | JCleanup r \<Rightarrow> cl_step_id r = jb_id j | _ \<Rightarrow> False)"

inductive sched_step :: "cfg \<Rightarrow> sched \<Rightarrow> sched \<Rightarrow> bool" for k where
  deliver: "looping s \<Longrightarrow> s_workers s = ws @ w # vs \<Longrightarrow> reports k s w ev \<Longrightarrow>
     sched_step k s (fold_event k ev (s\<lparr>s_workers := ws @ vs\<rparr>))"
| wake: "looping s \<Longrightarrow> s_timers s = ts @ i # us \<Longrightarrow>
     sched_step k s (fold_event k (EvWake i) (s\<lparr>s_timers := ts @ us\<rparr>))"
| abort: "looping s \<Longrightarrow> s_fatal s = None \<Longrightarrow>
     sched_step k s (s\<lparr>s_fatal := Some (''pipeline: run aborted: '' @ cause)\<rparr>)"
| poll: "looping s \<Longrightarrow> s_fatal s = None \<Longrightarrow> k_pause k \<noteq> None \<Longrightarrow> \<not> s_paused s \<Longrightarrow>
     sched_step k s (drain k s)"
| journaled: "WBox j \<in> set (s_workers s) \<Longrightarrow> worker_entry j e \<Longrightarrow> append_entry k e s = (None, t) \<Longrightarrow>
     sched_step k s t"
| started: "WBox j \<in> set (s_workers s) \<Longrightarrow>
     sched_step k s (emit k ((blank_event EventStepStarted (jb_id j))\<lparr>ev_time := now,
       ev_template := template_name (jb_template j), ev_attempt := attempt\<rparr>) s)"

inductive reachable :: "cfg \<Rightarrow> run_params \<Rightarrow> sched \<Rightarrow> bool" for k r where
  start: "run_setup k r = Inr s \<Longrightarrow> reachable k r (run_start k s)"
| more: "reachable k r s \<Longrightarrow> sched_step k s t \<Longrightarrow> reachable k r t"

inductive_cases reports_box: "reports k s (WBox j) ev"
inductive_cases reports_expand: "reports k s (WExpand i n a) ev"
inductive_cases reports_expect: "reports k s (WExpect i l t sp a) ev"

subsection \<open>How an execution ends\<close>

definition paused_end :: "sched \<Rightarrow> bool" where
  "paused_end s \<longleftrightarrow> s_fatal s = None \<and> s_paused s \<and> \<not> finished s"

definition run_end :: "time \<Rightarrow> sched \<Rightarrow> run_end_record" where
  "run_end now s =
     (let status = (case s_fatal s of Some e \<Rightarrow> (RunEndAborted, e)
        | None \<Rightarrow> if paused_end s
                  then (RunEndPaused, if s_pause_detail s \<noteq> [] then s_pause_detail s
                     else ''pause requested; in-flight steps settled, nothing further dispatched'')
                  else (RunEndSettled, []))
      in \<lparr>re_status = fst status, re_failed = s_failed s, re_halted = int (length (s_halts s)),
          re_detail = snd status, re_finished = now\<rparr>)"

datatype run_error =
    Aborted string
  | StepsFailed int nat
  | RunHalted "halted_step list"
  | RunPaused string

definition run_result :: "sched \<Rightarrow> run_error option" where
  "run_result s =
     (case s_fatal s of
        Some e \<Rightarrow> Some (Aborted e)
      | None \<Rightarrow>
          if 0 < s_failed s then Some (StepsFailed (s_failed s) (length (s_halts s)))
          else if s_halts s \<noteq> [] then Some (RunHalted (s_halts s))
          else if paused_end s then Some (RunPaused (s_pause_detail s))
          else None)"

text \<open>\<open>ExitCode\<close> of the typed errors; any other error is the generic failure.\<close>

definition exit_code :: "run_error option \<Rightarrow> int" where
  "exit_code e = (case e of None \<Rightarrow> 0 | Some (RunHalted _) \<Rightarrow> 3 | Some (RunPaused _) \<Rightarrow> 4 | Some _ \<Rightarrow> 1)"

end
