(* ===== verification/GraphInv.thy ===== *)
theory GraphInv
  imports ExecGraph
begin

text \<open>
  The invariant of the execution graph: adjacency, duplicate guard and in-degrees agree; nothing is
  kept for an unknown id; a node past pending has no open dependency; the dependents of a failed or
  halted node are settled; the settled count is right. It is stated with a set \<open>P\<close> of settled nodes
  whose dependents have not been released yet, which the settle path fills and empties. Adding an edge
  between fresh nodes, splicing a level and rolling a splice back preserve it.
\<close>

subsection \<open>The invariant\<close>

definition is_done :: "graph \<Rightarrow> string \<Rightarrow> bool" where
  "is_done g i \<longleftrightarrow> (\<exists>n. node_at g i = Some n \<and> terminal n)"

definition stops :: "graph \<Rightarrow> string \<Rightarrow> bool" where
  "stops g i \<longleftrightarrow> (\<exists>n. node_at g i = Some n \<and> terminal n \<and>
     (xn_status n = StateFailed \<or> xn_status n = StateHalted))"

definition shape_ok :: "graph \<Rightarrow> bool" where
  "shape_ok g \<longleftrightarrow>
     distinct (map fst (g_nodes g)) \<and> distinct (map fst (g_succ g)) \<and>
     (\<forall>a b. g_pair g a b \<longleftrightarrow> b \<in> set (succs g a)) \<and>
     (\<forall>a. distinct (succs g a)) \<and>
     fst ` set (g_succ g) \<subseteq> keys (g_nodes g) \<and>
     (\<forall>a b. b \<in> set (succs g a) \<longrightarrow> b \<in> keys (g_nodes g)) \<and>
     (\<forall>i. i \<notin> keys (g_nodes g) \<longrightarrow> g_indeg g i = 0 \<and> g_data_in g i = [] \<and> g_members g i = [])"

definition open_preds :: "string set \<Rightarrow> graph \<Rightarrow> string \<Rightarrow> string set" where
  "open_preds P g d = {a. d \<in> set (succs g a) \<and> (\<not> is_done g a \<or> a \<in> P)}"

definition counted :: "string set \<Rightarrow> graph \<Rightarrow> bool" where
  "counted P g \<longleftrightarrow> (\<forall>d. g_indeg g d = int (card (open_preds P g d)))"

definition ready_ok :: "graph \<Rightarrow> bool" where
  "ready_ok g \<longleftrightarrow> (\<forall>i n. node_at g i = Some n \<longrightarrow> xn_life n \<noteq> Pending \<longrightarrow> xn_life n \<noteq> Done \<longrightarrow>
     g_indeg g i = 0)"

definition stopped_ok :: "string set \<Rightarrow> graph \<Rightarrow> bool" where
  "stopped_ok P g \<longleftrightarrow> (\<forall>a d. stops g a \<longrightarrow> a \<notin> P \<longrightarrow> d \<in> set (succs g a) \<longrightarrow> is_done g d)"

definition tally_ok :: "graph \<Rightarrow> bool" where
  "tally_ok g \<longleftrightarrow> g_done g = int (card {i. is_done g i})"

definition ginv :: "string set \<Rightarrow> graph \<Rightarrow> bool" where
  "ginv P g \<longleftrightarrow> shape_ok g \<and> counted P g \<and> ready_ok g \<and> stopped_ok P g \<and> tally_ok g \<and>
     (\<forall>i \<in> P. is_done g i)"

lemma get_or_not_z: "x \<in> set (get_or [] m k) \<Longrightarrow> k \<in> fst ` set m"
  by (cases "map_of m k") (auto simp: get_or_def dest!: map_of_SomeD intro: rev_image_eqI)

lemma finite_open_preds [simp]: "finite (open_preds P g d)"
proof (rule finite_subset)
  show "open_preds P g d \<subseteq> fst ` set (g_succ g)"
    by (auto simp: open_preds_def dest: get_or_not_z)
qed simp

lemma finite_is_done [simp]: "finite {i. is_done g i}"
  by (rule finite_subset [OF _ finite_keys [of "g_nodes g"]]) (auto simp: is_done_def)

lemma ginvD:
  assumes "ginv P g"
  shows "shape_ok g" "counted P g" "ready_ok g" "stopped_ok P g" "tally_ok g"
    "i \<in> P \<Longrightarrow> is_done g i"
  using assms by (simp_all add: ginv_def)

lemma shape_known:
  assumes "shape_ok g" and "b \<in> set (succs g a)"
  shows "a \<in> keys (g_nodes g)" "b \<in> keys (g_nodes g)"
  using assms get_or_not_z [of b "g_succ g" a] by (auto simp: shape_ok_def)

text \<open>What the invariant says of a node past pending: everything it waits for is settled, and none of
  it failed or halted.\<close>

lemma ginv_ready:
  assumes "ginv {} g" and "node_at g i = Some n" and "xn_life n \<noteq> Pending" and "xn_life n \<noteq> Done"
    and "i \<in> set (succs g a)"
  shows "is_done g a" "\<not> stops g a"
proof -
  have "g_indeg g i = 0" using assms ginvD(3) [OF assms(1)] by (simp add: ready_ok_def)
  then have "open_preds {} g i = {}" using ginvD(2) [OF assms(1)] by (simp add: counted_def)
  then show "is_done g a" using assms(5) by (auto simp: open_preds_def)
  have "\<not> is_done g i" using assms by (simp add: is_done_def terminal_def)
  then show "\<not> stops g a" using assms(5) ginvD(4) [OF assms(1)] by (auto simp: stopped_ok_def)
qed

lemma ginv_new_graph [simp]: "ginv {} new_graph"
  by (simp add: ginv_def shape_ok_def counted_def ready_ok_def stopped_ok_def tally_ok_def
      new_graph_def open_preds_def is_done_def stops_def)

text \<open>The invariant reads a node's life and status only.\<close>

definition lives :: "graph \<Rightarrow> string \<Rightarrow> (node_life \<times> string) option" where
  "lives g i = map_option (\<lambda>n. (xn_life n, xn_status n)) (node_at g i)"

definition wiring where
  "wiring (g :: graph) = (g_succ g, g_pair g, g_data_in g, g_members g)"

lemma lives_done: "is_done g i \<longleftrightarrow> (\<exists>s. lives g i = Some (Done, s))"
  by (auto simp: is_done_def lives_def terminal_def)

lemma lives_stops: "stops g i \<longleftrightarrow> lives g i = Some (Done, StateFailed) \<or> lives g i = Some (Done, StateHalted)"
  by (auto simp: stops_def lives_def terminal_def)

lemma lives_keys: "keys (g_nodes g) = {i. lives g i \<noteq> None}"
  by (auto simp: lives_def)

lemma lives_ready: "ready_ok g \<longleftrightarrow> (\<forall>i l st. lives g i = Some (l, st) \<longrightarrow> l \<noteq> Pending \<longrightarrow> l \<noteq> Done \<longrightarrow> g_indeg g i = 0)"
  by (auto simp: ready_ok_def lives_def)

lemma ginv_cong:
  assumes "lives g = lives h" "wiring g = wiring h" "g_indeg g = g_indeg h" "g_done g = g_done h"
    "distinct (map fst (g_nodes g)) \<longleftrightarrow> distinct (map fst (g_nodes h))"
  shows "ginv P g \<longleftrightarrow> ginv P h"
proof -
  have "is_done g = is_done h" "stops g = stops h"
    by (simp_all add: fun_eq_iff lives_done lives_stops assms)
  with assms show ?thesis
    by (simp add: ginv_def shape_ok_def counted_def stopped_ok_def tally_ok_def open_preds_def
        lives_keys lives_ready wiring_def)
qed

lemma ginv_envs [simp]: "ginv P (g\<lparr>g_envs := es\<rparr>) \<longleftrightarrow> ginv P g"
  by (rule ginv_cong) (simp_all add: lives_def wiring_def fun_eq_iff)

subsection \<open>Adding nodes and edges\<close>

definition dormant :: "graph \<Rightarrow> string \<Rightarrow> bool" where
  "dormant g i \<longleftrightarrow> lives g i = Some (Pending, [])"

lemma add_edge_frame [simp]:
  "g_nodes (add_edge a b g) = g_nodes g" "g_data_in (add_edge a b g) = g_data_in g"
  "g_members (add_edge a b g) = g_members g" "g_done (add_edge a b g) = g_done g"
  "g_envs (add_edge a b g) = g_envs g"
  by (simp_all add: add_edge_def)

lemma is_done_nodes: "g_nodes g = g_nodes h \<Longrightarrow> is_done g = is_done h"
  and stops_nodes: "g_nodes g = g_nodes h \<Longrightarrow> stops g = stops h"
  by (simp_all add: is_done_def stops_def fun_eq_iff)

lemma ginv_add_edge:
  assumes g: "ginv P g" and a: "\<exists>n. node_at g a = Some n \<and> \<not> terminal n"
    and b: "\<exists>n. node_at g b = Some n \<and> (xn_life n = Pending \<or> xn_life n = Done)"
  shows "ginv P (add_edge a b g)"
proof (cases "g_pair g a b")
  case True
  then show ?thesis using g by (simp add: add_edge_def)
next
  case False
  define h where "h = add_edge a b g"
  note gD = ginvD [OF g]
  have sh: "shape_ok g" by (rule gD)
  have sa: "succs h = (succs g)(a := succs g a @ [b])"
    using False by (simp add: h_def add_edge_def)
  have nodes: "g_nodes h = g_nodes g" by (simp add: h_def)
  have nb: "b \<notin> set (succs g a)" using sh False by (simp add: shape_ok_def)
  have done_eq: "is_done h = is_done g" "stops h = stops g"
    using is_done_nodes stops_nodes nodes by blast+
  have nd: "\<not> is_done g a" using a by (auto simp: is_done_def)
  then have ns: "\<not> stops g a" by (auto simp: is_done_def stops_def)
  have "shape_ok h"
    unfolding shape_ok_def nodes sa
  proof (intro conjI allI impI)
    show "distinct (map fst (g_nodes g))" using sh by (simp add: shape_ok_def)
    show "distinct (map fst (g_succ h))" using sh False
      by (simp add: h_def add_edge_def shape_ok_def)
    show "g_pair h x y \<longleftrightarrow> y \<in> set (((succs g)(a := succs g a @ [b])) x)" for x y
      using sh False by (auto simp: h_def add_edge_def shape_ok_def)
    show "distinct (((succs g)(a := succs g a @ [b])) x)" for x
      using sh nb by (simp add: shape_ok_def)
    show "fst ` set (g_succ h) \<subseteq> keys (g_nodes g)"
      using sh a False by (auto simp: h_def add_edge_def shape_ok_def dom_update simp flip: dom_map_of_conv_image_fst)
    show "y \<in> keys (g_nodes g)" if "y \<in> set (((succs g)(a := succs g a @ [b])) x)" for x y
      using that sh b by (auto simp: shape_ok_def split: if_splits)
    show "g_indeg h i = 0" "g_data_in h i = []" "g_members h i = []"
      if "i \<notin> keys (g_nodes g)" for i
      using that sh b False by (auto simp: h_def add_edge_def shape_ok_def)
  qed
  moreover have "counted P h"
    unfolding counted_def
  proof
    fix d
    have "open_preds P h d = (if d = b then insert a (open_preds P g d) else open_preds P g d)"
      using nd by (auto simp: open_preds_def sa done_eq)
    moreover have "a \<notin> open_preds P g b" using nb by (simp add: open_preds_def)
    moreover have "g_indeg h = (g_indeg g)(b := g_indeg g b + 1)"
      using False by (simp add: h_def add_edge_def)
    ultimately show "g_indeg h d = int (card (open_preds P h d))"
      using gD(2) by (simp add: counted_def)
  qed
  moreover have "ready_ok h"
    using gD(3) b False by (auto simp: ready_ok_def nodes h_def add_edge_def)
  moreover have "stopped_ok P h"
    using gD(4) ns by (auto simp: stopped_ok_def done_eq sa)
  moreover have "tally_ok h"
    using gD(5) by (simp add: tally_ok_def done_eq) (simp add: h_def)
  moreover have "\<forall>i \<in> P. is_done h i" using g by (simp add: ginv_def done_eq)
  ultimately show ?thesis by (simp add: ginv_def flip: h_def)
qed

lemma ginv_fresh:
  assumes g: "ginv P g" and i: "node_at g i = None"
  shows "ginv P (g\<lparr>g_nodes := put i (fresh_node n e w x) (g_nodes g)\<rparr>)" (is "ginv P ?h")
proof -
  note gD = ginvD [OF g]
  have nd: "\<not> is_done g i" "\<not> stops g i" using i by (simp_all add: is_done_def stops_def)
  have done_eq: "is_done ?h = is_done g" "stops ?h = stops g"
    using nd by (auto simp: is_done_def stops_def fresh_node_def terminal_def fun_eq_iff)
  have "shape_ok ?h"
    using gD(1) by (auto simp: shape_ok_def)
  moreover have "open_preds P ?h = open_preds P g"
    by (simp add: open_preds_def fun_eq_iff done_eq)
  moreover have "ready_ok ?h"
    using gD(3) by (auto simp: ready_ok_def fresh_node_def)
  ultimately show ?thesis
    using g by (simp add: ginv_def counted_def stopped_ok_def tally_ok_def done_eq)
qed

lemma done_data_in [simp]: "is_done (g\<lparr>g_data_in := f\<rparr>) = is_done g" "stops (g\<lparr>g_data_in := f\<rparr>) = stops g"
  and done_members [simp]: "is_done (g\<lparr>g_members := m\<rparr>) = is_done g" "stops (g\<lparr>g_members := m\<rparr>) = stops g"
  by (simp_all add: is_done_def stops_def fun_eq_iff)

lemma parts_data_in:
  "counted P (g\<lparr>g_data_in := f\<rparr>) = counted P g" "ready_ok (g\<lparr>g_data_in := f\<rparr>) = ready_ok g"
  "stopped_ok P (g\<lparr>g_data_in := f\<rparr>) = stopped_ok P g" "tally_ok (g\<lparr>g_data_in := f\<rparr>) = tally_ok g"
  by (simp_all add: counted_def ready_ok_def stopped_ok_def tally_ok_def open_preds_def)

lemma parts_members:
  "counted P (g\<lparr>g_members := f\<rparr>) = counted P g" "ready_ok (g\<lparr>g_members := f\<rparr>) = ready_ok g"
  "stopped_ok P (g\<lparr>g_members := f\<rparr>) = stopped_ok P g" "tally_ok (g\<lparr>g_members := f\<rparr>) = tally_ok g"
  by (simp_all add: counted_def ready_ok_def stopped_ok_def tally_ok_def open_preds_def)

lemma ginv_data_in:
  assumes "ginv P g" and "i \<in> keys (g_nodes g)"
  shows "ginv P (g\<lparr>g_data_in := (g_data_in g)(i := es)\<rparr>)"
proof -
  have "shape_ok (g\<lparr>g_data_in := (g_data_in g)(i := es)\<rparr>)"
    using assms by (auto simp: ginv_def shape_ok_def)
  with assms show ?thesis by (simp add: ginv_def parts_data_in)
qed

lemma ginv_members:
  assumes "ginv P g" and "i \<in> keys (g_nodes g)"
  shows "ginv P (g\<lparr>g_members := (g_members g)(i := ms)\<rparr>)"
proof -
  have "shape_ok (g\<lparr>g_members := (g_members g)(i := ms)\<rparr>)"
    using assms by (auto simp: ginv_def shape_ok_def)
  with assms show ?thesis by (simp add: ginv_def parts_members)
qed

end
