(* ===== verification/GraphSplice.thy ===== *)
theory GraphSplice
  imports GraphInv
begin

text \<open>
  Splicing a level (\<open>addLevel\<close>, \<open>remove\<close> of \<open>pipeline/graph.go\<close>): what it adds beside what was there,
  that it keeps the graph invariant even when it stops half way, and that rolling the added ids back
  restores the graph exactly.
\<close>

subsection \<open>Levels whose edges stay inside\<close>

function closed_ir :: "ir \<Rightarrow> bool" where
  "closed_ir g \<longleftrightarrow>
     (\<forall>p \<in> set (level_edges g). fst p \<in> n_id ` set (ir_nodes g) \<and> snd p \<in> n_id ` set (ir_nodes g)) \<and>
     (\<forall>n \<in> set (ir_nodes g). case n_sub n of None \<Rightarrow> True | Some h \<Rightarrow> closed_ir h)"
  by pat_completeness auto
termination by (relation "measure size") (auto simp: termination_simp)

declare closed_ir.simps [simp del]

lemma closed_edges:
  assumes "closed_ir g"
  shows "e \<in> set (ir_edges g) \<Longrightarrow> e_from e \<in> n_id ` set (ir_nodes g) \<and> e_to e \<in> n_id ` set (ir_nodes g)"
    and "p \<in> set (cond_pairs (ir_nodes g)) \<Longrightarrow>
      fst p \<in> n_id ` set (ir_nodes g) \<and> snd p \<in> n_id ` set (ir_nodes g)"
    and "n \<in> set (ir_nodes g) \<Longrightarrow> n_sub n = Some h \<Longrightarrow> closed_ir h"
proof -
  let ?I = "n_id ` set (ir_nodes g)"
  have c: "\<forall>p \<in> set (level_edges g). fst p \<in> ?I \<and> snd p \<in> ?I"
    "\<forall>n \<in> set (ir_nodes g). case n_sub n of None \<Rightarrow> True | Some h \<Rightarrow> closed_ir h"
    using assms unfolding closed_ir.simps [of g] by simp_all
  have l: "set (level_edges g) =
      (\<lambda>e. (e_from e, e_to e)) ` set (ir_edges g) \<union> set (cond_pairs (ir_nodes g))"
    by (simp add: level_edges_def cond_pairs_def)
  show "e \<in> set (ir_edges g) \<Longrightarrow> e_from e \<in> ?I \<and> e_to e \<in> ?I"
    using c(1) unfolding l by force
  show "p \<in> set (cond_pairs (ir_nodes g)) \<Longrightarrow> fst p \<in> ?I \<and> snd p \<in> ?I"
    using c(1) unfolding l by blast
  show "n \<in> set (ir_nodes g) \<Longrightarrow> n_sub n = Some h \<Longrightarrow> closed_ir h"
    using c(2) by fastforce
qed

subsection \<open>Growth\<close>

text \<open>\<open>grown ids g h\<close>: \<open>h\<close> is \<open>g\<close> with the dormant nodes \<open>ids\<close>, edges among them and what hangs off
  them.\<close>

definition grown :: "string list \<Rightarrow> graph \<Rightarrow> graph \<Rightarrow> bool" where
  "grown ids g h \<longleftrightarrow>
     (\<exists>ns. g_nodes h = g_nodes g @ ns \<and> map fst ns = ids \<and>
        (\<forall>p \<in> set ns. xn_life (snd p) = Pending \<and> xn_status (snd p) = [] \<and> xn_gen (snd p) = [])) \<and>
     (\<exists>ms. g_succ h = g_succ g @ ms \<and> (\<forall>p \<in> set ms. fst p \<in> set ids \<and> set (snd p) \<subseteq> set ids)) \<and>
     set ids \<inter> fst ` set (g_nodes g) = {} \<and>
     (\<forall>i. i \<notin> set ids \<longrightarrow> g_indeg h i = g_indeg g i \<and> g_data_in h i = g_data_in g i \<and>
        g_members h i = g_members g i) \<and>
     g_done h = g_done g \<and> (\<exists>es. g_envs h = g_envs g @ es)"

lemma grown_refl [simp]: "grown [] g g"
  by (auto simp: grown_def)

lemma grown_trans:
  assumes "grown as g h" and "grown bs h k"
  shows "grown (as @ bs) g k"
proof -
  obtain ns1 ms1 es1 where 1: "g_nodes h = g_nodes g @ ns1" "map fst ns1 = as"
      "\<forall>p \<in> set ns1. xn_life (snd p) = Pending \<and> xn_status (snd p) = [] \<and> xn_gen (snd p) = []"
      "g_succ h = g_succ g @ ms1" "\<forall>p \<in> set ms1. fst p \<in> set as \<and> set (snd p) \<subseteq> set as"
      "g_envs h = g_envs g @ es1" "set as \<inter> fst ` set (g_nodes g) = {}"
    using assms(1) unfolding grown_def by blast
  obtain ns2 ms2 es2 where 2: "g_nodes k = g_nodes h @ ns2" "map fst ns2 = bs"
      "\<forall>p \<in> set ns2. xn_life (snd p) = Pending \<and> xn_status (snd p) = [] \<and> xn_gen (snd p) = []"
      "g_succ k = g_succ h @ ms2" "\<forall>p \<in> set ms2. fst p \<in> set bs \<and> set (snd p) \<subseteq> set bs"
      "g_envs k = g_envs h @ es2" "set bs \<inter> fst ` set (g_nodes h) = {}"
    using assms(2) unfolding grown_def by blast
  show ?thesis
    unfolding grown_def
  proof (intro conjI)
    show "\<exists>ns. g_nodes k = g_nodes g @ ns \<and> map fst ns = as @ bs \<and>
        (\<forall>p \<in> set ns. xn_life (snd p) = Pending \<and> xn_status (snd p) = [] \<and> xn_gen (snd p) = [])"
      using 1 2 by (intro exI [of _ "ns1 @ ns2"]) auto
    show "\<exists>ms. g_succ k = g_succ g @ ms \<and> (\<forall>p \<in> set ms. fst p \<in> set (as @ bs) \<and> set (snd p) \<subseteq> set (as @ bs))"
      using 1(4,5) 2(4,5) by (intro exI [of _ "ms1 @ ms2"]) auto
    show "set (as @ bs) \<inter> fst ` set (g_nodes g) = {}" using 1 2 by auto
    show "\<exists>es. g_envs k = g_envs g @ es" using 1 2 by simp
  qed (use assms in \<open>auto simp: grown_def\<close>)
qed

lemma grown_dormant:
  assumes "grown ids g h" and "i \<in> set ids" and "shape_ok h"
  shows "dormant h i" "\<exists>n. node_at h i = Some n \<and> xn_life n = Pending \<and> xn_gen n = [] \<and> \<not> terminal n"
proof -
  obtain ns where ns: "g_nodes h = g_nodes g @ ns" "map fst ns = ids"
      "\<forall>p \<in> set ns. xn_life (snd p) = Pending \<and> xn_status (snd p) = [] \<and> xn_gen (snd p) = []"
    using assms(1) by (auto simp: grown_def)
  obtain n where n: "(i, n) \<in> set ns" using assms(2) ns(2) by auto
  then have "node_at h i = Some n"
    using assms(3) ns(1) by (intro map_of_is_SomeI) (simp_all add: shape_ok_def)
  with n ns(3) show "dormant h i" "\<exists>n. node_at h i = Some n \<and> xn_life n = Pending \<and> xn_gen n = [] \<and> \<not> terminal n"
    by (auto simp: dormant_def lives_def terminal_def)
qed

lemma grown_old: "grown ids g h \<Longrightarrow> node_at g i = Some n \<Longrightarrow> node_at h i = Some n"
  by (auto simp: grown_def map_add_def map_of_append split: option.splits)

lemma update_append_new: "k \<notin> fst ` set xs \<Longrightarrow> put k v (xs @ ys) = xs @ put k v ys"
  by (induction xs) auto

lemma set_put_subset: "set (put k v m) \<subseteq> insert (k, v) (set m)"
  by (induction m) auto

lemma grown_fresh:
  assumes "node_at g i = None"
  shows "grown [i] g (g\<lparr>g_nodes := put i (fresh_node n e w x) (g_nodes g)\<rparr>)"
proof -
  have "i \<notin> fst ` set (g_nodes g)" using assms by (simp flip: dom_map_of_conv_image_fst add: domIff)
  then show ?thesis
    using update_append_new [of i "g_nodes g" "fresh_node n e w x" "[]"]
    by (auto simp: grown_def fresh_node_def)
qed

lemma grown_envs: "grown ids g h \<Longrightarrow> grown ids g (h\<lparr>g_envs := g_envs h @ es\<rparr>)"
  by (auto simp: grown_def)

lemma grown_members: "grown ids g h \<Longrightarrow> i \<in> set ids \<Longrightarrow> grown ids g (h\<lparr>g_members := (g_members h)(i := ms)\<rparr>)"
  by (auto simp: grown_def)

lemma grown_data_in: "grown ids g h \<Longrightarrow> i \<in> set ids \<Longrightarrow> grown ids g (h\<lparr>g_data_in := (g_data_in h)(i := es)\<rparr>)"
  by (auto simp: grown_def)

lemma grown_add_edge:
  assumes gr: "grown ids g h" and g: "shape_ok g" and a: "a \<in> set ids" and b: "b \<in> set ids"
  shows "grown ids g (add_edge a b h)"
proof -
  obtain ms where ms: "g_succ h = g_succ g @ ms" "\<forall>p \<in> set ms. fst p \<in> set ids \<and> set (snd p) \<subseteq> set ids"
    using gr by (auto simp: grown_def)
  have "set ids \<inter> fst ` set (g_nodes g) = {}" using gr by (simp add: grown_def)
  with a g have na: "a \<notin> fst ` set (g_succ g)"
    by (simp add: shape_ok_def dom_map_of_conv_image_fst) blast
  have sa: "succs h a = get_or [] ms a"
    using na ms(1) by (auto simp: get_or_def map_add_def map_of_append
        dest!: map_of_SomeD split: option.splits intro: rev_image_eqI)
  have "set (succs h a @ [b]) \<subseteq> set ids"
    unfolding sa using ms(2) b
    by (cases "map_of ms a") (auto simp: get_or_def dest!: map_of_SomeD bspec)
  then have m2: "\<forall>p \<in> set (put a (succs h a @ [b]) ms). fst p \<in> set ids \<and> set (snd p) \<subseteq> set ids"
    using set_put_subset [of a "succs h a @ [b]" ms] ms(2) a by fastforce
  have "g_succ (add_edge a b h) = (if g_pair h a b then g_succ h else g_succ g @ put a (succs h a @ [b]) ms)"
    by (simp add: add_edge_def ms(1) update_append_new na)
  with ms m2 have s: "\<exists>ms. g_succ (add_edge a b h) = g_succ g @ ms \<and>
      (\<forall>p \<in> set ms. fst p \<in> set ids \<and> set (snd p) \<subseteq> set ids)" by (auto split: if_splits)
  have "g_indeg (add_edge a b h) i = g_indeg h i" if "i \<notin> set ids" for i
    using that b by (auto simp: add_edge_def)
  with gr s show ?thesis unfolding grown_def by (simp del: fun_upd_apply)
qed

text \<open>Growth that keeps the invariant, and the edges it may add.\<close>

definition splices :: "string set \<Rightarrow> string list \<Rightarrow> graph \<Rightarrow> graph \<Rightarrow> bool" where
  "splices P ids g h \<longleftrightarrow> grown ids g h \<and> ginv P h"

lemma splices_edge:
  assumes s: "splices P ids g h" and g: "ginv P g" and "a \<in> set ids" and "b \<in> set ids"
  shows "splices P ids g (add_edge a b h)"
proof -
  have h: "ginv P h" "grown ids g h" using s by (simp_all add: splices_def)
  have "shape_ok h" "shape_ok g" using ginvD(1) h(1) g by blast+
  with h g assms(3,4) show ?thesis
    unfolding splices_def using grown_dormant(2) [OF h(2)]
    by (metis ginv_add_edge grown_add_edge)
qed

lemma splices_pairs:
  assumes "splices P ids g h" and "ginv P g" and "\<forall>p \<in> set ps. fst p \<in> set ids \<and> snd p \<in> set ids"
  shows "splices P ids g (add_pairs ps h)"
  using assms
proof (induction ps arbitrary: h)
  case (Cons p ps)
  then show ?case using splices_edge [of P ids g h "fst p" "snd p"] by (simp add: add_pairs_def)
qed (simp add: add_pairs_def)

lemma splices_trans:
  "splices P as g h \<Longrightarrow> splices P bs h k \<Longrightarrow> splices P (as @ bs) g k"
  using grown_trans by (auto simp: splices_def)

lemma splices_keys: "splices P ids g h \<Longrightarrow> i \<in> set ids \<Longrightarrow> i \<in> keys (g_nodes h)"
  using grown_dormant(2) [of ids g h i] ginvD(1) by (auto simp: splices_def)

lemma splices_add_edges:
  "add_edges es h = (err, h') \<Longrightarrow> splices P ids g h \<Longrightarrow> ginv P g \<Longrightarrow>
   \<forall>e \<in> set es. e_from e \<in> set ids \<and> e_to e \<in> set ids \<Longrightarrow> splices P ids g h'"
proof (induction es h rule: add_edges.induct)
  case (2 e es h)
  let ?g1 = "add_edge (e_from e) (e_to e) h"
  have s1: "splices P ids g ?g1" using splices_edge "2.prems" by simp
  then have "e_to e \<in> keys (g_nodes ?g1)" using splices_keys "2.prems"(4) by fastforce
  then have "splices P ids g (?g1\<lparr>g_data_in := (g_data_in ?g1)(e_to e := es')\<rparr>)" for es'
    using s1 "2.prems"(4) ginv_data_in [of P ?g1 "e_to e" es'] grown_data_in [of ids g ?g1 "e_to e" es']
    by (simp add: splices_def)
  with s1 have "splices P ids g (if is_ordering e then ?g1
      else ?g1\<lparr>g_data_in := (g_data_in ?g1)(e_to e := g_data_in ?g1 (e_to e) @ [e])\<rparr>)" by simp
  with "2" show ?case by (auto simp: Let_def split: if_splits)
qed simp

lemma splices_add_cond_edges:
  "add_cond_edges ps h = (err, h') \<Longrightarrow> splices P ids g h \<Longrightarrow> ginv P g \<Longrightarrow>
   \<forall>p \<in> set ps. fst p \<in> set ids \<and> snd p \<in> set ids \<Longrightarrow> splices P ids g h'"
  using splices_edge by (induction ps h rule: add_cond_edges.induct) (auto split: if_splits)

subsection \<open>A level\<close>

lemma level_sources_ids: "set (level_sources g) \<subseteq> n_id ` set (ir_nodes g)"
  by (auto simp: level_sources_def)

definition subs_in :: "node list \<Rightarrow> string list \<Rightarrow> bool" where
  "subs_in ns ids \<longleftrightarrow> n_id ` set ns \<subseteq> set ids \<and>
     (\<forall>n \<in> set ns. \<forall>h. n_kind n = KindSubWorkflow \<longrightarrow> n_sub n = Some h \<longrightarrow> set (deep_sinks h) \<subseteq> set ids)"

lemma subs_in_Cons:
  assumes "subs_in ns bs" and "n_id n \<in> set as"
    and "\<And>h. n_kind n = KindSubWorkflow \<Longrightarrow> n_sub n = Some h \<Longrightarrow> set (deep_sinks h) \<subseteq> set as"
  shows "subs_in (n # ns) (as @ bs)"
  unfolding subs_in_def
proof (intro conjI ballI allI impI)
  show "n_id ` set (n # ns) \<subseteq> set (as @ bs)" using assms(1,2) by (auto simp: subs_in_def)
  fix m h
  assume "m \<in> set (n # ns)" "n_kind m = KindSubWorkflow" "n_sub m = Some h"
  then have "set (deep_sinks h) \<subseteq> set as \<or> set (deep_sinks h) \<subseteq> set bs"
    using assms(1) assms(3) [of h] unfolding subs_in_def by (cases "m = n") simp_all
  then show "set (deep_sinks h) \<subseteq> set (as @ bs)" by auto
qed

lemma subs_in_sinks: "subs_in (ir_nodes g) ids \<Longrightarrow> set (deep_sinks g) \<subseteq> set ids"
  unfolding deep_sinks.simps [of g] subs_in_def by (fastforce split: if_splits option.splits)

lemma subs_in_sink_pairs:
  assumes "subs_in (ir_nodes g) ids" and "closed_ir g"
  shows "\<forall>p \<in> set (sink_pairs g). fst p \<in> set ids \<and> snd p \<in> set ids"
proof
  fix p
  assume "p \<in> set (sink_pairs g)"
  then obtain n h e where n: "n \<in> set (ir_nodes g)" "n_kind n = KindSubWorkflow" "n_sub n = Some h"
      and e: "e \<in> set (ir_edges g)" "snd p = e_to e" "fst p \<in> set (deep_sinks h)"
    unfolding sink_pairs_def by (auto split: if_splits option.splits) metis
  have "e_to e \<in> n_id ` set (ir_nodes g)" using closed_edges(1) [OF assms(2) e(1)] by simp
  with n e assms(1) show "fst p \<in> set ids \<and> snd p \<in> set ids" by (auto simp: subs_in_def)
qed

lemma splices_level:
  "add_level chk lvl env g = (err, ids, h) \<Longrightarrow> closed_ir lvl \<Longrightarrow> ginv P g \<Longrightarrow>
     splices P ids g h \<and> (err = None \<longrightarrow> subs_in (ir_nodes lvl) ids)"
  "add_nodes chk ns env g = (err, ids, h) \<Longrightarrow> \<forall>n \<in> set ns. \<forall>l. n_sub n = Some l \<longrightarrow> closed_ir l \<Longrightarrow>
     ginv P g \<Longrightarrow> splices P ids g h \<and> (err = None \<longrightarrow> subs_in ns ids)"
proof (induction chk lvl env g and chk ns env g arbitrary: err ids h and err ids h
    rule: add_level_add_nodes.induct)
  case (1 chk lvl env g)
  obtain e1 added g1 where n: "add_nodes chk (ir_nodes lvl) env g = (e1, added, g1)"
    by (metis prod_cases3)
  have sub: "\<forall>n \<in> set (ir_nodes lvl). \<forall>l. n_sub n = Some l \<longrightarrow> closed_ir l"
    using closed_edges(3) [OF "1.prems"(2)] by blast
  note IH = "1.IH" [OF n sub "1.prems"(3)]
  show ?case
  proof (cases e1)
    case (Some e)
    then show ?thesis using IH n "1.prems"(1) by (auto simp: add_level.simps)
  next
    case None
    with IH have s1: "splices P added g g1" and si: "subs_in (ir_nodes lvl) added" by simp_all
    obtain e2 g2 where e: "add_edges (ir_edges lvl) g1 = (e2, g2)" by fastforce
    have s2: "splices P added g g2"
      using splices_add_edges [OF e s1 "1.prems"(3)] closed_edges(1) [OF "1.prems"(2)] si
      by (auto simp: subs_in_def)
    show ?thesis
    proof (cases e2)
      case (Some x)
      then show ?thesis using n None e s2 "1.prems"(1) by (auto simp: add_level.simps)
    next
      case None2: None
      obtain e3 g3 where c: "add_cond_edges (cond_pairs (ir_nodes lvl)) g2 = (e3, g3)" by fastforce
      have s3: "splices P added g g3"
        using splices_add_cond_edges [OF c s2 "1.prems"(3)] closed_edges(2) [OF "1.prems"(2)] si
        unfolding subs_in_def by blast
      have "splices P added g (add_pairs (sink_pairs lvl) g3)"
        using splices_pairs [OF s3 "1.prems"(3) subs_in_sink_pairs [OF si "1.prems"(2)]] .
      with s3 si show ?thesis using n None e None2 c "1.prems"(1)
        by (cases e3) (simp_all add: add_level.simps)
    qed
  qed
next
  case (2 chk env g)
  then show ?case by (simp add: add_nodes.simps splices_def subs_in_def)
next
  case (3 chk n ns env g)
  show ?case
  proof (cases "node_at g (n_id n) \<noteq> None")
    case True
    then have "err \<noteq> None \<and> ids = [] \<and> h = g" using "3.prems"(1) by (auto simp: add_nodes.simps)
    then show ?thesis using "3.prems"(3) by (auto simp: splices_def)
  next
    case new: False
    show ?thesis
    proof (cases "node_progs chk n")
      case (Inl e)
      then have "err \<noteq> None \<and> ids = [] \<and> h = g" using new "3.prems"(1) by (auto simp: add_nodes.simps)
      then show ?thesis using "3.prems"(3) by (auto simp: splices_def)
    next
      case (Inr wx)
      obtain w x where wx: "wx = (w, x)" by fastforce
      define g1 where "g1 = g\<lparr>g_nodes := put (n_id n) (fresh_node n env w x) (g_nodes g)\<rparr>"
      have s1: "splices P [n_id n] g g1"
        using new "3.prems"(3) by (simp add: splices_def g1_def grown_fresh ginv_fresh)
      then have i1: "ginv P g1" by (simp add: splices_def)
      note IH = "3.IH" [OF _ Inr wx [symmetric] g1_def]
      show ?thesis
      proof (cases "n_kind n = KindSubWorkflow")
        case False
        obtain e added g2 where r: "add_nodes chk ns env g1 = (e, added, g2)" by (metis prod_cases3)
        have "splices P added g1 g2 \<and> (e = None \<longrightarrow> subs_in ns added)"
          using IH(1) [OF _ False r] new "3.prems"(2) i1 by simp
        then have "splices P ([n_id n] @ added) g g2 \<and> (e = None \<longrightarrow> subs_in (n # ns) ([n_id n] @ added))"
          using splices_trans [OF s1] False subs_in_Cons [of ns added n "[n_id n]"] by auto
        then show ?thesis using new Inr wx False r "3.prems"(1)
          by (simp add: add_nodes.simps Let_def flip: g1_def)
      next
        case kind: True
        show ?thesis
        proof (cases "n_sub n")
          case None
          then show ?thesis using new Inr wx kind s1 "3.prems"(1)
            by (auto simp: add_nodes.simps Let_def simp flip: g1_def)
        next
          case (Some l)
          obtain a g2 where ne: "new_env \<lparr>sc_entry = n_id n, sc_params = []\<rparr> g1 = (a, g2)" by fastforce
          then have g2: "g2 = g1\<lparr>g_envs := g_envs g1 @ [\<lparr>sc_entry = n_id n, sc_params = []\<rparr>]\<rparr>"
            by (simp add: new_env_def)
          have s2: "splices P [n_id n] g g2"
            using s1 by (simp add: splices_def g2 grown_envs)
          then have i2: "ginv P g2" by (simp add: splices_def)
          have cl: "closed_ir l" using "3.prems"(2) Some by simp
          obtain e inner g3 where r: "add_level chk l a g2 = (e, inner, g3)" by (metis prod_cases3)
          have s3: "splices P inner g2 g3" and sub3: "e = None \<Longrightarrow> subs_in (ir_nodes l) inner"
            using IH(2) [OF _ _ Some ne [symmetric] r cl i2] new kind by auto
          have s3g: "splices P (n_id n # inner) g g3" using splices_trans [OF s2 s3] by simp
          show ?thesis
          proof (cases e)
            case e: (Some err)
            then show ?thesis using new Inr wx kind Some ne r s3g "3.prems"(1)
              by (auto simp: add_nodes.simps Let_def simp flip: g1_def)
          next
            case e: None
            define g4 where "g4 = g3\<lparr>g_members := (g_members g3)(n_id n := inner)\<rparr>"
            define g5 where "g5 = add_pairs (map (\<lambda>s. (n_id n, s)) (level_sources l)) g4"
            have "n_id n \<in> keys (g_nodes g3)" using splices_keys [OF s3g] by simp
            then have s4: "splices P (n_id n # inner) g g4"
              using s3g by (simp add: splices_def g4_def grown_members ginv_members)
            have "set (level_sources l) \<subseteq> set inner"
              using sub3 [OF e] level_sources_ids [of l] by (auto simp: subs_in_def)
            then have s5: "splices P (n_id n # inner) g g5"
              unfolding g5_def by (intro splices_pairs [OF s4 "3.prems"(3)]) auto
            then have i5: "ginv P g5" by (simp add: splices_def)
            obtain e6 added g6 where q: "add_nodes chk ns env g5 = (e6, added, g6)" by (metis prod_cases3)
            have "splices P added g5 g6 \<and> (e6 = None \<longrightarrow> subs_in ns added)"
              using IH(3) [OF _ _ Some ne [symmetric] r [symmetric] e refl g4_def g5_def q] new kind "3.prems"(2) i5
              by simp
            moreover have "set (deep_sinks l) \<subseteq> set inner" using subs_in_sinks [OF sub3 [OF e]] .
            ultimately have "splices P ((n_id n # inner) @ added) g g6 \<and>
                (e6 = None \<longrightarrow> subs_in (n # ns) ((n_id n # inner) @ added))"
              using splices_trans [OF s5] Some subs_in_Cons [of ns added n "n_id n # inner"] by auto
            then show ?thesis using new Inr wx kind Some ne r e q "3.prems"(1)
              by (simp add: add_nodes.simps Let_def g4_def [symmetric] g5_def [symmetric] flip: g1_def)
          qed
        qed
      qed
    qed
  qed
qed

subsection \<open>Rollback\<close>

lemma filter_append_new:
  "\<forall>p \<in> set xs. P p \<Longrightarrow> \<forall>p \<in> set ys. \<not> P p \<Longrightarrow> filter P (xs @ ys) = xs"
  by (simp add: filter_id_conv filter_empty_conv)

lemma grown_remove:
  assumes gr: "grown ids g h" and g: "shape_ok g" and h: "shape_ok h"
  shows "remove_ids ids h = g\<lparr>g_envs := g_envs h\<rparr>"
proof -
  obtain ns where ns: "g_nodes h = g_nodes g @ ns" "map fst ns = ids"
    using gr by (auto simp: grown_def)
  obtain ms where ms: "g_succ h = g_succ g @ ms" "\<forall>p \<in> set ms. fst p \<in> set ids \<and> set (snd p) \<subseteq> set ids"
    using gr by (auto simp: grown_def)
  have new: "set ids \<inter> fst ` set (g_nodes g) = {}" using gr by (simp add: grown_def)
  then have unknown: "i \<in> set ids \<Longrightarrow> i \<notin> keys (g_nodes g)" for i
    by (auto simp: dom_map_of_conv_image_fst)
  have n: "filter (\<lambda>(i, n). i \<notin> set ids) (g_nodes h) = g_nodes g"
  proof (unfold ns(1), rule filter_append_new)
    show "\<forall>p \<in> set (g_nodes g). case p of (i, n) \<Rightarrow> i \<notin> set ids"
      using new by (auto simp: disjoint_iff) force
    show "\<forall>p \<in> set ns. \<not> (case p of (i, n) \<Rightarrow> i \<notin> set ids)"
      unfolding ns(2) [symmetric] by (auto simp: image_iff)
  qed
  have sub: "set bs \<inter> set ids = {} \<and> a \<notin> set ids" if "(a, bs) \<in> set (g_succ g)" for a bs
  proof -
    have "distinct (map fst (g_succ g))" using g by (simp add: shape_ok_def)
    then have "succs g a = bs" using that by (simp add: get_or_def)
    then have "set bs \<subseteq> keys (g_nodes g)" using shape_known(2) [OF g] by blast
    moreover have "fst ` set (g_succ g) \<subseteq> keys (g_nodes g)" using g unfolding shape_ok_def by blast
    then have "a \<in> keys (g_nodes g)" using image_eqI [OF _ that, of a fst] by auto
    ultimately show ?thesis using unknown by blast
  qed
  have "filter (\<lambda>(a, bs). a \<notin> set ids) (g_succ h) = g_succ g"
    unfolding ms(1) using sub ms(2) by (intro filter_append_new) auto
  moreover have "map (\<lambda>(a, bs). (a, filter (\<lambda>b. b \<notin> set ids) bs)) (g_succ g) = g_succ g"
    by (intro map_idI) (auto simp: filter_id_conv dest!: sub)
  ultimately have s: "drop_succ ids (g_succ h) = g_succ g" by (simp add: drop_succ_def)
  have sh: "succs h a = succs g a" if "a \<notin> set ids" for a
  proof -
    have "map_of ms a = None" using ms(2) that by (auto simp: map_of_eq_None_iff)
    then show ?thesis by (auto simp: get_or_def ms(1) map_add_def split: option.splits)
  qed
  have out: "b \<notin> set ids" if "b \<in> set (succs g a)" for a b
    using that g unknown unfolding shape_ok_def by blast
  have p: "(g_pair h a b \<and> a \<notin> set ids \<and> \<not> (b \<in> set ids \<and> b \<in> set (succs h a))) = g_pair g a b" for a b
  proof (cases "a \<in> set ids")
    case True
    then have "\<not> g_pair g a b" using unknown shape_known(1) [OF g, of b a] g by (auto simp: shape_ok_def)
    with True show ?thesis by simp
  next
    case False
    have "g_pair h a b = (b \<in> set (succs g a))" using h sh [OF False] by (simp add: shape_ok_def)
    moreover have "g_pair g a b = (b \<in> set (succs g a))" using g by (simp add: shape_ok_def)
    ultimately show ?thesis using False out by auto
  qed
  have z: "(if i \<in> set ids then 0 else g_indeg h i) = g_indeg g i"
    "(if i \<in> set ids then [] else g_data_in h i) = g_data_in g i"
    "(if i \<in> set ids then [] else g_members h i) = g_members g i" for i
    using gr g unknown by (auto simp: grown_def shape_ok_def)
  have d: "g_done h = g_done g" using gr by (simp add: grown_def)
  show ?thesis
    unfolding remove_ids_def n s p z using d by simp
qed

text \<open>A splice that stopped half way: the ids it reports are all it added.\<close>

lemma splice_undo:
  assumes "add_level chk lvl a g = (err, ids, h)" and "ginv P g" and "closed_ir lvl"
  shows "remove_ids ids h = g\<lparr>g_envs := g_envs h\<rparr>"
proof -
  have "splices P ids g h" using splices_level(1) assms by blast
  then show ?thesis using grown_remove ginvD(1) assms(2) by (auto simp: splices_def)
qed

end
