(* ===== verification/SettleInv.thy ===== *)
theory SettleInv
  imports Execution GraphSplice
begin

text \<open>
  The settle path (\<open>settleSkip\<close>, \<open>finish\<close>, \<open>propagate\<close> of \<open>pipeline/scheduler.go\<close>) keeps its
  invariants. The locale \<open>settle_path\<close> states what an invariant owes to the three primitive moves of
  the path - mark a node settled, release its dependents, wake the parked nodes - and proves that the
  nested walks then keep it; the graph invariant, the queues and the journal are its instances.
\<close>

subsection \<open>Lives after the primitive moves\<close>

abbreviation life_at :: "sched \<Rightarrow> string \<Rightarrow> (node_life \<times> string) option" where
  "life_at s \<equiv> lives (s_g s)"

lemma life_at_eq: "g_nodes (s_g s) = g_nodes (s_g t) \<Longrightarrow> life_at s = life_at t"
  by (simp add: lives_def fun_eq_iff)

lemma undone_done: "i \<in> undone s \<longleftrightarrow> i \<in> keys (g_nodes (s_g s)) \<and> \<not> is_done (s_g s) i"
  by (auto simp: undone_def is_done_def)

definition skip_state :: "string \<Rightarrow> bool" where
  "skip_state st \<longleftrightarrow> st \<in> {StateSkippedCondition, StateSkippedDependency, StateSkippedHalt}"

lemma skip_state_simps [simp]:
  "skip_state StateSkippedCondition" "skip_state StateSkippedDependency" "skip_state StateSkippedHalt"
  "\<not> skip_state StateOK" "\<not> skip_state StateFailed" "\<not> skip_state StateHalted"
  by (simp_all add: skip_state_def)

lemma member_skip_state: "member_skip i st = (ms, ma) \<Longrightarrow> skip_state ms"
  by (auto simp: member_skip_def skip_state_def split: if_splits)

lemma distinct_nodes_push:
  "distinct (map fst (g_nodes (s_g s))) \<Longrightarrow> distinct (map fst (g_nodes (s_g (push i s))))"
  by (auto simp: push_def set_node_def split: option.splits)

lemma push_frame:
  "g_indeg (s_g (push i s)) = g_indeg (s_g s)" "g_done (s_g (push i s)) = g_done (s_g s)"
  "wiring (s_g (push i s)) = wiring (s_g s)"
  by (auto simp: push_def set_node_def wiring_def split: option.splits)

lemma life_push: "life_at (push i s) = (life_at s)(i := map_option (\<lambda>(l, st).
    (if l = Pending \<or> l = Deferred then Queued else l, st)) (life_at s i))"
  by (auto simp: lives_def node_push fun_eq_iff option.map_comp comp_def intro!: option.map_cong0)

lemma life_mark: "life_at (mark_done i st s) = (life_at s)(i := map_option (\<lambda>_. (Done, st)) (life_at s i))"
proof -
  have "node_of (mark_done i st s) = node_of (upd_node i (\<lambda>n. n\<lparr>xn_life := Done, xn_status := st\<rparr>) s)"
    by (simp add: mark_done_def Let_def)
  then show ?thesis by (auto simp: lives_def node_upd_node option.map_comp comp_def fun_eq_iff)
qed

lemma mark_frame:
  "g_indeg (s_g (mark_done i st s)) = g_indeg (s_g s)"
  "g_done (s_g (mark_done i st s)) = g_done (s_g s) + 1"
  "wiring (s_g (mark_done i st s)) = wiring (s_g s)"
  "s_ready (mark_done i st s) = s_ready s" "s_wait_zero (mark_done i st s) = s_wait_zero s"
  "s_journal (mark_done i st s) = s_journal s" "s_fatal (mark_done i st s) = s_fatal s"
  by (auto simp: mark_done_def upd_node_def set_node_def wiring_def Let_def split: option.splits)

lemma distinct_nodes_mark:
  "distinct (map fst (g_nodes (s_g s))) \<Longrightarrow> distinct (map fst (g_nodes (s_g (mark_done i st s))))"
  by (auto simp: mark_done_def upd_node_def set_node_def Let_def split: option.splits)

text \<open>Settled nodes never change again.\<close>

definition frozen :: "sched \<Rightarrow> sched \<Rightarrow> bool" where
  "frozen s t \<longleftrightarrow> (\<forall>i n. node_of s i = Some n \<longrightarrow> terminal n \<longrightarrow> node_of t i = Some n)"

lemma frozen_refl [simp]: "frozen s s"
  by (simp add: frozen_def)

lemma frozen_trans [trans]: "frozen s t \<Longrightarrow> frozen t u \<Longrightarrow> frozen s u"
  by (simp add: frozen_def)

lemma frozen_nodes: "node_of t = node_of s \<Longrightarrow> frozen s t"
  by (simp add: frozen_def)

lemma frozen_requeues: "only_requeues s t \<Longrightarrow> frozen s t"
proof -
  assume r: "only_requeues s t"
  have "node_of t i = Some n" if "node_of s i = Some n" "terminal n" for i n
  proof -
    have "rel_option requeued (Some n) (node_of t i)" using r that(1) by (metis only_requeues_def)
    then show ?thesis using that(2) by (auto simp: requeued_def terminal_def option_rel_Some1)
  qed
  then show ?thesis by (simp add: frozen_def)
qed

lemma frozen_mark: "i \<in> undone s \<Longrightarrow> frozen s (mark_done i st s)"
proof -
  assume i: "i \<in> undone s"
  have "node_of (mark_done i st s) = node_of (upd_node i (\<lambda>n. n\<lparr>xn_life := Done, xn_status := st\<rparr>) s)"
    by (simp add: mark_done_def Let_def)
  with i show ?thesis by (auto simp: frozen_def node_upd_node undone_def)
qed

lemma frozen_life: "frozen s t \<Longrightarrow> life_at s i = Some (Done, st) \<Longrightarrow> life_at t i = Some (Done, st)"
  by (auto simp: frozen_def lives_def terminal_def)

lemma frozen_done: "frozen s t \<Longrightarrow> is_done (s_g s) i \<Longrightarrow> is_done (s_g t) i"
  by (auto simp: lives_done dest: frozen_life)

lemma frozen_stops: "frozen s t \<Longrightarrow> is_done (s_g s) i \<Longrightarrow> stops (s_g t) i \<longleftrightarrow> stops (s_g s) i"
  by (auto simp: lives_done lives_stops dest: frozen_life)

lemma frozen_fold: "(\<And>x s. frozen s (f x s)) \<Longrightarrow> frozen s (fold f xs s)"
  by (induction xs arbitrary: s) (auto intro: frozen_trans)

lemma frozen_skip_fuel: "i \<in> undone s \<Longrightarrow> frozen s (settle_skip_fuel f k i st a s)"
proof (induction f k i st a s rule: settle_skip_fuel.induct)
  case (1 k i st a s)
  then have "frozen s (mark_done i st (skip_record k i st a s))"
    using frozen_mark [of i "skip_record k i st a s" st] by (simp add: frozen_def)
  also have "frozen \<dots> (release_succs i (mark_done i st (skip_record k i st a s)))"
    by (rule frozen_requeues) (rule only_requeues_release)
  also note frozen_requeues [OF only_requeues_wake]
  finally show ?case by simp
next
  case (2 f k i st a s)
  obtain ms ma where m: "member_skip i st = (ms, ma)" by fastforce
  define s1 where "s1 = mark_done i st (skip_record k i st a s)"
  have "frozen s s1"
    using frozen_mark [of i "skip_record k i st a s" st] "2.prems" by (simp add: frozen_def s1_def)
  also have "frozen t (skip_fold f k ms ma xs t)" if "set xs \<subseteq> set (g_members (s_g s1) i)" for xs t
    using that
  proof (induction xs arbitrary: t)
    case (Cons x xs)
    let ?u = "case node_of t x of None \<Rightarrow> t
       | Some n \<Rightarrow> if terminal n then t else settle_skip_fuel f k x ms ma t"
    have "frozen t ?u"
      using "2.IH" [OF s1_def m [symmetric] refl, of x] Cons.prems by (auto simp: undone_def split: option.splits)
    with Cons show ?case by (auto simp: skip_fold_def intro: frozen_trans)
  qed (simp add: skip_fold_def)
  from this [OF order_refl] have "frozen s1 (skip_fold f k ms ma (g_members (s_g s1) i) s1)" .
  also note frozen_requeues [OF only_requeues_release]
  also note frozen_requeues [OF only_requeues_wake]
  finally show ?case by (simp add: m skip_fold_def flip: s1_def)
qed

lemma frozen_skip: "i \<in> undone s \<Longrightarrow> frozen s (settle_skip k i st a s)"
  by (simp add: settle_skip_def frozen_skip_fuel)

lemma frozen_skip_members: "frozen s (skip_members k i st s)"
  unfolding skip_members_def
  by (auto split: prod.splits option.splits simp: undone_def intro!: frozen_fold frozen_skip)

lemma frozen_propagate: "frozen s (propagate k r st v q s)"
proof (induction k r st v q s rule: propagate.induct)
  case (2 k root st visited x queue s)
  then show ?case using frozen_skip [of x s k st root]
    by (auto simp: undone_def split: option.splits intro: frozen_trans)
qed simp

subsection \<open>Invariants of the settle path\<close>

locale settle_path =
  fixes k :: cfg and I :: "string set \<Rightarrow> sched \<Rightarrow> bool"
  assumes settled: "I P s \<Longrightarrow> i \<in> P \<Longrightarrow> is_done (s_g s) i"
    and mark: "I P s \<Longrightarrow> i \<in> undone s \<Longrightarrow> skip_state st \<Longrightarrow>
        I (insert i P) (mark_done i st (skip_record k i st a s))"
    and release: "I P s \<Longrightarrow> i \<in> P \<Longrightarrow>
        (stops (s_g s) i \<Longrightarrow> \<forall>d \<in> set (succs (s_g s) i). is_done (s_g s) d) \<Longrightarrow>
        I (P - {i}) (release_succs i s)"
    and wake: "I P s \<Longrightarrow> I P (wake_parked s)"
    and waiting: "I P s \<Longrightarrow> i \<in> P \<Longrightarrow> d \<in> set (succs (s_g s) i) \<Longrightarrow>
        \<exists>l st. life_at s d = Some (l, st) \<and> (l = Pending \<or> l = Done)"
begin

lemma tail:
  assumes "I (insert i P) s" and "i \<notin> P"
    and "stops (s_g s) i \<Longrightarrow> \<forall>d \<in> set (succs (s_g s) i). is_done (s_g s) d"
  shows "I P (wake_parked (release_succs i s))"
  using wake [OF release [OF assms(1) _ assms(3)]] assms(2) by simp

lemma not_held: "I P s \<Longrightarrow> i \<in> undone s \<Longrightarrow> i \<notin> P"
  using settled by (auto simp: undone_done)

lemma skip_fuel:
  "I P s \<Longrightarrow> i \<in> undone s \<Longrightarrow> skip_state st \<Longrightarrow> I P (settle_skip_fuel f k i st a s)"
proof (induction f arbitrary: i st a s P)
  case 0
  define s1 where "s1 = mark_done i st (skip_record k i st a s)"
  have s1: "I (insert i P) s1" using mark 0 by (simp add: s1_def)
  have "life_at s1 i = Some (Done, st)"
    using "0.prems"(2) by (auto simp: s1_def life_mark undone_def lives_def)
  then have "\<not> stops (s_g s1) i" using "0.prems"(3) by (auto simp: lives_stops)
  with tail [OF s1] not_held 0 show ?case by (simp flip: s1_def)
next
  case (Suc f)
  obtain ms ma where m: "member_skip i st = (ms, ma)" by fastforce
  define s1 where "s1 = mark_done i st (skip_record k i st a s)"
  define s2 where "s2 = skip_fold f k ms ma (g_members (s_g s) i) s1"
  have s1: "I (insert i P) s1" using mark Suc.prems by (simp add: s1_def)
  have step: "I Q t \<Longrightarrow> I Q (skip_fold f k ms ma xs t) \<and> frozen t (skip_fold f k ms ma xs t)" for Q xs t
  proof (induction xs arbitrary: t)
    case (Cons x xs)
    let ?u = "case node_of t x of None \<Rightarrow> t
       | Some n \<Rightarrow> if terminal n then t else settle_skip_fuel f k x ms ma t"
    have "I Q ?u \<and> frozen t ?u"
      using Suc.IH [OF Cons.prems _ member_skip_state [OF m]] Cons.prems frozen_skip_fuel
      by (auto simp: undone_def split: option.splits)
    with Cons.IH show ?case by (auto simp: skip_fold_def intro: frozen_trans)
  qed (simp add: skip_fold_def)
  have "life_at s1 i = Some (Done, st)"
    using Suc.prems(2) by (auto simp: s1_def life_mark undone_def lives_def)
  moreover have "frozen s1 s2" using step [OF s1] by (simp add: s2_def)
  ultimately have "life_at s2 i = Some (Done, st)" using frozen_life by blast
  then have "\<not> stops (s_g s2) i" using Suc.prems(3) by (auto simp: lives_stops)
  moreover have "I (insert i P) s2" using step [OF s1] by (simp add: s2_def)
  ultimately have "I P (wake_parked (release_succs i s2))"
    using tail [of i P s2] not_held Suc.prems by blast
  then show ?case by (simp only: skip_fuel_Suc [OF m] s2_def s1_def)
qed

lemma skip: "I P s \<Longrightarrow> i \<in> undone s \<Longrightarrow> skip_state st \<Longrightarrow> I P (settle_skip k i st a s)"
  by (simp add: settle_skip_def skip_fuel)

lemma fold_inv: "I P s \<Longrightarrow> (\<And>x t. I P t \<Longrightarrow> I P (f x t)) \<Longrightarrow> I P (fold f xs s)"
  by (induction xs arbitrary: s) simp_all

lemma members: "I P s \<Longrightarrow> I P (skip_members k i st s)"
proof (cases "member_skip i st")
  case (Pair ms ma)
  assume "I P s"
  then have "I P (fold (\<lambda>m s. case node_of s m of None \<Rightarrow> s
      | Some n \<Rightarrow> if terminal n then s else settle_skip k m ms ma s) (g_members (s_g s) i) s)"
    by (rule fold_inv)
       (auto split: option.splits simp: undone_def intro!: skip member_skip_state [OF Pair])
  with Pair \<open>I P s\<close> show ?thesis by (simp add: skip_members_def)
qed

lemma walk: "I P s \<Longrightarrow> skip_state st \<Longrightarrow> k' = k \<Longrightarrow> I P (propagate k' r st v q s)"
proof (induction k' r st v q s rule: propagate.induct)
  case (2 k' root st visited x queue s)
  then have "x \<in> undone s \<Longrightarrow> I P (settle_skip k x st root s)" by (simp add: skip)
  with 2 show ?case by (auto simp: undone_def split: option.splits)
qed simp

text \<open>The walk settles every direct dependent of its root.\<close>

lemma walk_settles:
  "I P s \<Longrightarrow> r \<in> P \<Longrightarrow> skip_state st \<Longrightarrow> k' = k \<Longrightarrow>
   \<forall>x \<in> set v \<inter> set (succs (s_g s) r). is_done (s_g s) x \<Longrightarrow>
   x \<in> (set v \<union> set q) \<inter> set (succs (s_g s) r) \<Longrightarrow> is_done (s_g (propagate k' r st v q s)) x"
proof (induction k' r st v q s rule: propagate.induct)
  case (1 k' root st visited s)
  then show ?case by simp
next
  case (2 k' root st visited y queue s)
  let ?u = "settle_skip k' y st root s"
  show ?case
  proof (cases "y \<in> set visited")
    case True
    then show ?thesis using "2.IH"(1) "2.prems" by auto
  next
    case nv: False
    show ?thesis
    proof (cases "node_of s y")
      case None
      have "y \<notin> set (succs (s_g s) root)"
        using waiting [OF "2.prems"(1,2), of y] None by (auto simp: lives_def)
      then show ?thesis using "2.IH"(2) [OF nv None] "2.prems" nv None by auto
    next
      case (Some n)
      show ?thesis
      proof (cases "terminal n \<or> xn_life n \<noteq> Pending \<and> xn_life n \<noteq> Queued")
        case True
        have "is_done (s_g s) y" if "y \<in> set (succs (s_g s) root)"
          using waiting [OF "2.prems"(1,2) that] Some True
          by (auto simp: lives_def is_done_def terminal_def)
        then show ?thesis using "2.IH"(3) [OF nv Some True] "2.prems" nv Some True by auto
      next
        case False
        have y: "y \<in> undone s" using Some False by (auto simp: undone_def)
        have u: "I P ?u" "frozen s ?u" using skip frozen_skip "2.prems" y by simp_all
        have su: "g_succ (s_g ?u) = g_succ (s_g s)" by (rule frame_sel) (rule frame_settle_skip)
        have "is_done (s_g ?u) z" if "z \<in> set (y # visited) \<inter> set (succs (s_g ?u) root)" for z
        proof (cases "z = y")
          case True
          have "y \<notin> undone ?u" using undone_settle_skip by blast
          moreover have "y \<in> keys (g_nodes (s_g ?u))"
            using waiting [OF u(1) "2.prems"(2), of y] that True by (auto simp: lives_keys)
          ultimately show ?thesis using True by (simp add: undone_done)
        next
          case False
          then show ?thesis using that "2.prems"(5) u(2) by (auto simp: su dest: frozen_done)
        qed
        then show ?thesis using "2.IH"(4) [OF nv Some False u(1) "2.prems"(2,3,4)] "2.prems"(6) nv Some False
          by (auto simp: su)
      qed
    qed
  qed
qed

lemma finish:
  assumes I: "I (insert i P) (mark_done i st s)" and i: "i \<notin> P" "i \<in> undone s"
  shows "I P (finish k i st s)"
proof -
  define s1 where "s1 = skip_members k i st (mark_done i st s)"
  have s1: "I (insert i P) s1" using I members by (simp add: s1_def)
  have life: "life_at (mark_done i st s) i = Some (Done, st)"
    using i(2) by (auto simp: life_mark undone_def lives_def)
  have l1: "life_at s1 i = Some (Done, st)"
    using frozen_life [OF frozen_skip_members life] by (simp add: s1_def)
  define sk where "sk = (if st = StateFailed then StateSkippedDependency else StateSkippedHalt)"
  define s2 where "s2 = (if st = StateFailed \<or> st = StateHalted
     then propagate k i sk [] (succs (s_g s1) i) s1 else s1)"
  have s2: "I (insert i P) s2" using walk s1 by (simp add: s2_def sk_def)
  have su: "g_succ (s_g s2) = g_succ (s_g s1)"
    by (rule frame_sel) (simp add: s2_def frame_propagate)
  have "life_at s2 i = Some (Done, st)"
    using frozen_life [OF frozen_propagate l1] l1 by (simp add: s2_def)
  moreover have "st = StateFailed \<or> st = StateHalted \<Longrightarrow> \<forall>d \<in> set (succs (s_g s1) i). is_done (s_g s2) d"
    using walk_settles [OF s1, of i sk k "[]" _ "succs (s_g s1) i"] by (auto simp: s2_def sk_def)
  ultimately have "stops (s_g s2) i \<Longrightarrow> \<forall>d \<in> set (succs (s_g s2) i). is_done (s_g s2) d"
    by (auto simp: lives_stops su)
  from tail [OF s2 i(1) this] have "I P (wake_parked (release_succs i s2))" .
  moreover have "finish k i st s = wake_parked (release_succs i s2)"
    by (auto simp: finish_def s1_def s2_def sk_def Let_def)
  ultimately show ?thesis by simp
qed

end

subsection \<open>The graph invariant\<close>

lemma lives_mark_done:
  assumes "i \<in> undone s"
  shows "is_done (s_g (mark_done i st s)) j \<longleftrightarrow> j = i \<or> is_done (s_g s) j"
    and "j \<noteq> i \<Longrightarrow> stops (s_g (mark_done i st s)) j \<longleftrightarrow> stops (s_g s) j"
    and "keys (g_nodes (s_g (mark_done i st s))) = keys (g_nodes (s_g s))"
  using assms
  by (auto simp: lives_done lives_stops lives_keys life_mark undone_def lives_def split: if_splits)

lemma wiring_sel:
  "wiring g = wiring h \<Longrightarrow> g_succ g = g_succ h \<and> g_pair g = g_pair h \<and> g_data_in g = g_data_in h \<and>
     g_members g = g_members h"
  by (simp add: wiring_def)

lemma shape_transfer:
  assumes "shape_ok g" and "wiring h = wiring g" and "keys (g_nodes h) = keys (g_nodes g)"
    and "distinct (map fst (g_nodes h))" and "\<And>i. i \<notin> keys (g_nodes g) \<Longrightarrow> g_indeg h i = 0"
  shows "shape_ok h"
  using assms wiring_sel [OF assms(2)] unfolding shape_ok_def by simp

lemma ginv_mark:
  assumes g: "ginv P (s_g s)" and i: "i \<in> undone s"
  shows "ginv (insert i P) (s_g (mark_done i st s))" (is "ginv _ ?h")
proof -
  note gD = ginvD [OF g] and L = lives_mark_done [OF i, where st = st] and W = wiring_sel [OF mark_frame(3) [of i st s]]
  have nd: "\<not> is_done (s_g s) i" using i by (simp add: undone_done)
  have "shape_ok ?h"
    using shape_transfer [OF gD(1) mark_frame(3) L(3)] distinct_nodes_mark [of s i st] gD(1)
    by (simp add: mark_frame shape_ok_def)
  moreover have "open_preds (insert i P) ?h d = open_preds P (s_g s) d" for d
    using L(1) nd by (auto simp: open_preds_def W)
  then have "counted (insert i P) ?h" using gD(2) by (simp add: counted_def mark_frame)
  moreover have "ready_ok ?h"
    using gD(3) by (auto simp: lives_ready life_mark mark_frame split: if_splits)
  moreover have "stopped_ok (insert i P) ?h"
    using gD(4) L(1,2) by (auto simp: stopped_ok_def W)
  moreover have "{j. is_done ?h j} = insert i {j. is_done (s_g s) j}" using L(1) by auto
  then have "tally_ok ?h" using gD(5) nd by (simp add: tally_ok_def mark_frame)
  ultimately show ?thesis using g L(1) by (simp add: ginv_def)
qed

text \<open>A push is safe where nothing is open.\<close>

lemma ginv_push:
  assumes g: "ginv P (s_g s)" and z: "\<And>st. life_at s i = Some (Pending, st) \<Longrightarrow> g_indeg (s_g s) i = 0"
  shows "ginv P (s_g (push i s))"
proof -
  note gD = ginvD [OF g] and W = wiring_sel [OF push_frame(3) [of i s]]
  have D: "is_done (s_g (push i s)) = is_done (s_g s)" "stops (s_g (push i s)) = stops (s_g s)"
    by (auto simp: fun_eq_iff lives_done lives_stops life_push)
  have K: "keys (g_nodes (s_g (push i s))) = keys (g_nodes (s_g s))"
    by (auto simp: lives_keys life_push)
  have "shape_ok (s_g (push i s))"
    using shape_transfer [OF gD(1) push_frame(3) K] distinct_nodes_push [of s i] gD(1)
    by (simp add: push_frame shape_ok_def)
  moreover have "ready_ok (s_g (push i s))"
    unfolding lives_ready push_frame
  proof (intro allI impI)
    fix j l st'
    assume a: "life_at (push i s) j = Some (l, st')" "l \<noteq> Pending" "l \<noteq> Done"
    show "g_indeg (s_g s) j = 0"
    proof (cases "j = i")
      case True
      then obtain l0 where "life_at s i = Some (l0, st')" "l0 \<noteq> Done"
        using a by (auto simp: life_push split: if_splits)
      then show ?thesis using True z gD(3) by (cases "l0 = Pending") (auto simp: lives_ready)
    next
      case False
      then show ?thesis using a gD(3) by (auto simp: life_push lives_ready)
    qed
  qed
  ultimately show ?thesis
    using g by (simp add: ginv_def counted_def stopped_ok_def tally_ok_def open_preds_def D W push_frame)
qed

lemma ginv_clear: "ginv P (s_g (s\<lparr>s_wait_zero := w\<rparr>)) = ginv P (s_g s)"
  by simp

lemma ginv_wake: "ginv P (s_g s) \<Longrightarrow> ginv P (s_g (wake_parked s))"
proof -
  assume g: "ginv P (s_g s)"
  have "ginv P (s_g t) \<Longrightarrow> ginv P (s_g (fold (\<lambda>w s. case node_of s w of None \<Rightarrow> s
      | Some n \<Rightarrow> if xn_life n = Deferred then push w s else s) xs t))" for xs t
  proof (induction xs arbitrary: t)
    case (Cons x xs)
    have "ginv P (s_g (case node_of t x of None \<Rightarrow> t
      | Some n \<Rightarrow> if xn_life n = Deferred then push x t else t))"
      using Cons.prems ginv_push [of P t x] by (auto simp: lives_def split: option.splits)
    with Cons.IH show ?case by simp
  qed simp
  with g show ?thesis by (auto simp: wake_parked_def)
qed

text \<open>Releasing a list of distinct dependents, in closed form.\<close>

lemma wiring_frame: "frame s = frame t \<Longrightarrow> wiring (s_g s) = wiring (s_g t)"
  by (simp add: frame_def wiring_def)

lemma release_one_frame:
  "g_indeg (s_g (release_one d s)) = (g_indeg (s_g s))(d := g_indeg (s_g s) d - 1)"
  "g_done (s_g (release_one d s)) = g_done (s_g s)"
  "distinct (map fst (g_nodes (s_g s))) \<Longrightarrow> distinct (map fst (g_nodes (s_g (release_one d s))))"
  by (auto simp: release_one_def Let_def push_frame distinct_nodes_push split: option.splits)

lemma life_release_one:
  "life_at (release_one d s) = (life_at s)(d := map_option (\<lambda>(l, st).
     (if l = Pending \<and> g_indeg (s_g s) d = 1 then Queued else l, st)) (life_at s d))"
proof -
  have e: "life_at (t\<lparr>s_g := (s_g t)\<lparr>g_indeg := f\<rparr>\<rparr>) = life_at t" for t :: sched and f
    by (rule life_at_eq) simp
  show ?thesis
    by (auto simp: release_one_def Let_def life_push e fun_eq_iff split: option.splits)
       (auto simp: lives_def)
qed

lemma release_fold:
  assumes "distinct ds"
  shows "g_indeg (s_g (fold release_one ds s)) x = g_indeg (s_g s) x - (if x \<in> set ds then 1 else 0) \<and>
    life_at (fold release_one ds s) x = map_option (\<lambda>(l, st).
     (if x \<in> set ds \<and> l = Pending \<and> g_indeg (s_g s) x = 1 then Queued else l, st)) (life_at s x)"
  using assms
proof (induction ds arbitrary: s)
  case (Cons d ds)
  have "g_indeg (s_g (fold release_one ds (release_one d s))) x =
      g_indeg (s_g (release_one d s)) x - (if x \<in> set ds then 1 else 0) \<and>
    life_at (fold release_one ds (release_one d s)) x = map_option (\<lambda>(l, st).
     (if x \<in> set ds \<and> l = Pending \<and> g_indeg (s_g (release_one d s)) x = 1 then Queued else l, st))
     (life_at (release_one d s) x)"
    using Cons by simp
  then show ?case using Cons.prems
    by (cases "x = d")
       (auto simp: release_one_frame life_release_one option.map_comp comp_def case_prod_beta
         intro!: option.map_cong0)
qed (auto simp: case_prod_beta option.map_id)

lemma release_succs_frame:
  "g_done (s_g (release_succs i s)) = g_done (s_g s)"
  "wiring (s_g (release_succs i s)) = wiring (s_g s)"
  "distinct (map fst (g_nodes (s_g s))) \<Longrightarrow> distinct (map fst (g_nodes (s_g (release_succs i s))))"
proof -
  have "g_done (s_g (fold release_one ds s)) = g_done (s_g s)" for ds s
    by (induction ds arbitrary: s) (simp_all add: release_one_frame)
  then show "g_done (s_g (release_succs i s)) = g_done (s_g s)" by (simp add: release_succs_def)
  show "wiring (s_g (release_succs i s)) = wiring (s_g s)"
    by (rule wiring_frame) (rule frame_release)
  have "distinct (map fst (g_nodes (s_g s))) \<Longrightarrow> distinct (map fst (g_nodes (s_g (fold release_one ds s))))" for ds s
    by (induction ds arbitrary: s) (simp_all add: release_one_frame)
  then show "distinct (map fst (g_nodes (s_g s))) \<Longrightarrow> distinct (map fst (g_nodes (s_g (release_succs i s))))"
    by (simp add: release_succs_def)
qed

lemma ginv_waiting:
  assumes g: "ginv P (s_g s)" and "i \<in> P" and d: "d \<in> set (succs (s_g s) i)"
  shows "\<exists>l st. life_at s d = Some (l, st) \<and> (l = Pending \<or> l = Done)"
proof -
  have "i \<in> open_preds P (s_g s) d" using assms by (simp add: open_preds_def)
  then have "card (open_preds P (s_g s) d) \<noteq> 0" by auto
  then have nz: "g_indeg (s_g s) d \<noteq> 0" using ginvD(2) [OF g] by (simp add: counted_def)
  have "d \<in> keys (g_nodes (s_g s))" using shape_known(2) [OF ginvD(1) [OF g] d] .
  then obtain l st where l: "life_at s d = Some (l, st)" by (auto simp: lives_def)
  with nz ginvD(3) [OF g] have "l = Pending \<or> l = Done" by (auto simp: lives_ready)
  with l show ?thesis by blast
qed

lemma ginv_release:
  assumes g: "ginv P (s_g s)" and i: "i \<in> P"
    and stop: "stops (s_g s) i \<Longrightarrow> \<forall>d \<in> set (succs (s_g s) i). is_done (s_g s) d"
  shows "ginv (P - {i}) (s_g (release_succs i s))" (is "ginv _ ?h")
proof -
  note gD = ginvD [OF g] and W = wiring_sel [OF release_succs_frame(2) [of i s]]
  have dist: "distinct (succs (s_g s) i)" using gD(1) by (simp add: shape_ok_def)
  note R = release_fold [OF dist, of s, folded release_succs_def]
  have di: "is_done (s_g s) i" using gD(6) i .
  have D: "is_done ?h = is_done (s_g s)" "stops ?h = stops (s_g s)"
    using R by (auto simp: fun_eq_iff lives_done lives_stops split: if_splits)
  have K: "keys (g_nodes ?h) = keys (g_nodes (s_g s))"
    using R by (auto simp: lives_keys)
  have "distinct (map fst (g_nodes ?h))" using release_succs_frame(3) gD(1) by (simp add: shape_ok_def)
  moreover have "g_indeg ?h x = 0" if x: "x \<notin> keys (g_nodes (s_g s))" for x
  proof -
    have "x \<notin> set (succs (s_g s) i)" using shape_known(2) [OF gD(1)] x by blast
    moreover have "g_indeg (s_g s) x = 0" using gD(1) x unfolding shape_ok_def by blast
    ultimately show ?thesis using R by simp
  qed
  ultimately have "shape_ok ?h"
    using shape_transfer [OF gD(1) release_succs_frame(2) K] by blast
  moreover have "counted (P - {i}) ?h"
    unfolding counted_def
  proof
    fix d
    have e: "open_preds (P - {i}) ?h d = open_preds P (s_g s) d - {i}"
      using di by (auto simp: open_preds_def W D)
    have m: "i \<in> open_preds P (s_g s) d \<longleftrightarrow> d \<in> set (succs (s_g s) i)"
      using i di by (auto simp: open_preds_def)
    have pos: "i \<in> open_preds P (s_g s) d \<Longrightarrow> 0 < card (open_preds P (s_g s) d)"
      by (auto simp: card_gt_0_iff)
    have "g_indeg ?h d = int (card (open_preds P (s_g s) d)) - (if d \<in> set (succs (s_g s) i) then 1 else 0)"
      using R gD(2) by (simp add: counted_def)
    then show "g_indeg ?h d = int (card (open_preds (P - {i}) ?h d))"
      using m pos by (auto simp: e card_Diff_singleton_if)
  qed
  moreover have "ready_ok ?h"
    unfolding lives_ready
  proof (intro allI impI)
    fix x l st
    assume a: "lives ?h x = Some (l, st)" "l \<noteq> Pending" "l \<noteq> Done"
    obtain l0 where l0: "life_at s x = Some (l0, st)"
      "l = (if x \<in> set (succs (s_g s) i) \<and> l0 = Pending \<and> g_indeg (s_g s) x = 1 then Queued else l0)"
      using a(1) R [of x] by (cases "life_at s x") auto
    then have "l0 \<noteq> Done" using a(3) by (auto split: if_splits)
    note l0 = l0(1) this l0(2)
    show "g_indeg ?h x = 0"
    proof (cases "l0 = Pending")
      case True
      then show ?thesis using l0 a R by (auto split: if_splits)
    next
      case False
      then have "g_indeg (s_g s) x = 0" using gD(3) l0 by (auto simp: lives_ready)
      moreover have "x \<notin> set (succs (s_g s) i)" using ginv_waiting [OF g i] l0 False by fastforce
      ultimately show ?thesis using R by simp
    qed
  qed
  moreover have "stopped_ok (P - {i}) ?h"
    using gD(4) stop by (auto simp: stopped_ok_def W D)
  moreover have "tally_ok ?h" using gD(5) by (simp add: tally_ok_def D release_succs_frame)
  ultimately show ?thesis using g by (simp add: ginv_def D)
qed

interpretation graph_path: settle_path k "\<lambda>P s. ginv P (s_g s)" for k
proof unfold_locales
  fix P :: "string set" and s :: sched and i d st a :: string
  show "ginv P (s_g s) \<Longrightarrow> i \<in> P \<Longrightarrow> is_done (s_g s) i" by (rule ginvD(6))
  show "ginv P (s_g s) \<Longrightarrow> i \<in> undone s \<Longrightarrow> skip_state st \<Longrightarrow>
      ginv (insert i P) (s_g (mark_done i st (skip_record k i st a s)))"
    using ginv_mark [of P "skip_record k i st a s"] by simp
  show "ginv P (s_g s) \<Longrightarrow> ginv P (s_g (wake_parked s))" by (rule ginv_wake)
qed (blast intro: ginv_release ginv_waiting)+

end
