(* ===== verification/StateInv.thy ===== *)
theory StateInv
  imports SettleInv
begin

text \<open>
  The invariants of the scheduler's own state across the settle path, next to the graph invariant:
  what is queued, running or deferred can be found again in a queue, a worker or a timer; the pools
  count the boxes in flight; the journal has one result record per settled node; the counters the exit
  code is taken from are the numbers of failed and halted nodes.
\<close>

subsection \<open>The parts\<close>

text \<open>What is in flight can be found again. \<open>H\<close> exempts nodes that were taken off their queue and are
  being handled.\<close>

definition found :: "string set \<Rightarrow> sched \<Rightarrow> string \<Rightarrow> node_life \<Rightarrow> bool" where
  "found H s i l \<longleftrightarrow>
     (l = Queued \<longrightarrow> i \<in> H \<union> set (s_ready s)) \<and>
     (l = SlotWait \<longrightarrow> i \<in> H \<union> set (s_slotq s)) \<and>
     (l = Running \<longrightarrow> i \<in> H \<union> worker_id ` set (s_workers s)) \<and>
     (l = Deferred \<longrightarrow> i \<in> H \<union> set (s_timers s) \<union> set (s_wait_zero s))"

definition queue_inv :: "string set \<Rightarrow> sched \<Rightarrow> bool" where
  "queue_inv H s \<longleftrightarrow> (\<forall>i l st. life_at s i = Some (l, st) \<longrightarrow> found H s i l)"

definition worker_inv :: "sched \<Rightarrow> bool" where
  "worker_inv s \<longleftrightarrow> distinct (map worker_id (s_workers s)) \<and>
     s_outstanding s = int (length (s_workers s)) \<and>
     (\<forall>w \<in> set (s_workers s). \<exists>l st. life_at s (worker_id w) = Some (l, st) \<and> (l = Running \<or> l = Done))"

text \<open>The pools count the boxes in flight.\<close>

definition box_of :: "worker \<Rightarrow> string list" where
  "box_of w = (case w of WBox j \<Rightarrow> [jb_id j] | _ \<Rightarrow> [])"

definition boxes :: "sched \<Rightarrow> string list" where
  "boxes s = concat (map box_of (s_workers s))"

definition gen_at :: "sched \<Rightarrow> string \<Rightarrow> string" where
  "gen_at s i = (case node_of s i of None \<Rightarrow> [] | Some n \<Rightarrow> xn_gen n)"

definition lane_at :: "sched \<Rightarrow> string \<Rightarrow> string" where
  "lane_at s i = (case node_of s i of None \<Rightarrow> [] | Some n \<Rightarrow> lane_of n)"

definition counts :: "(string \<Rightarrow> string) \<Rightarrow> string list \<Rightarrow> pool smap \<Rightarrow> bool" where
  "counts f is ps \<longleftrightarrow> (\<forall>c p. c \<noteq> [] \<longrightarrow> map_of ps c = Some p \<longrightarrow>
     p_used p = int (length (filter (\<lambda>i. f i = c) is)) \<and> (0 < p_max p \<longrightarrow> p_used p \<le> p_max p))"

definition pool_inv :: "cfg \<Rightarrow> sched \<Rightarrow> bool" where
  "pool_inv k s \<longleftrightarrow>
     s_slots s = (if 0 < k_max_par k then int (length (boxes s)) else 0) \<and>
     (0 < k_max_par k \<longrightarrow> s_slots s \<le> k_max_par k) \<and>
     counts (gen_at s) (boxes s) (s_gen_pools s) \<and> counts (lane_at s) (boxes s) (s_lanes s)"

text \<open>A node tagged with a generate belongs to one that has settled (or is in \<open>G\<close>, being spliced).\<close>

definition tag_inv :: "string set \<Rightarrow> sched \<Rightarrow> bool" where
  "tag_inv G s \<longleftrightarrow> (\<forall>i. gen_at s i = [] \<or> gen_at s i \<in> G \<or> is_done (s_g s) (gen_at s i))"

text \<open>One result record per settled node; the counters are the numbers of failed and halted nodes.\<close>

definition journal_inv :: "sched \<Rightarrow> bool" where
  "journal_inv s \<longleftrightarrow> distinct (result_steps (s_journal s)) \<and>
     (\<forall>i \<in> set (result_steps (s_journal s)). is_done (s_g s) i) \<and>
     (s_fatal s = None \<longrightarrow> (\<forall>i. is_done (s_g s) i \<longrightarrow> i \<in> set (result_steps (s_journal s))))"

definition with_status :: "string \<Rightarrow> sched \<Rightarrow> string set" where
  "with_status st s = {i. life_at s i = Some (Done, st)}"

definition count_inv :: "sched \<Rightarrow> bool" where
  "count_inv s \<longleftrightarrow> s_failed s = int (card (with_status StateFailed s)) \<and>
     distinct (map hs_step (s_halts s)) \<and>
     set (map hs_step (s_halts s)) \<subseteq> with_status StateHalted s \<and>
     (s_fatal s = None \<longrightarrow> with_status StateHalted s \<subseteq> set (map hs_step (s_halts s)))"

definition inv :: "cfg \<Rightarrow> string set \<Rightarrow> string set \<Rightarrow> sched \<Rightarrow> bool" where
  "inv k H G s \<longleftrightarrow> queue_inv H s \<and> worker_inv s \<and> pool_inv k s \<and> tag_inv G s \<and>
     journal_inv s \<and> count_inv s"

subsection \<open>What the primitive moves do to what the parts read\<close>

definition attr :: "sched \<Rightarrow> string \<Rightarrow> string \<times> string" where
  "attr s i = (gen_at s i, lane_at s i)"

definition books where
  "books (s :: sched) = (s_journal s, s_fatal s, s_failed s, s_halts s)"

definition lists where
  "lists (s :: sched) = (s_ready s, s_wait_zero s)"

definition carried where
  "carried (s :: sched) = (s_slotq s, s_slots s, s_gen_pools s, s_lanes s, s_outstanding s, s_workers s, s_timers s)"

lemma carried_frame: "frame s = frame t \<Longrightarrow> carried s = carried t"
  by (simp add: frame_def carried_def)

lemmas carried_simps [simp] =
  frame_emit [THEN carried_frame] frame_set_node [THEN carried_frame] frame_clock [THEN carried_frame]
  frame_append [THEN carried_frame] frame_push [THEN carried_frame] frame_upd_node [THEN carried_frame]

lemma carried_sel:
  assumes "carried s = carried t"
  shows "s_slotq s = s_slotq t" "s_slots s = s_slots t" "s_gen_pools s = s_gen_pools t"
    "s_lanes s = s_lanes t" "s_outstanding s = s_outstanding t" "s_workers s = s_workers t"
    "s_timers s = s_timers t" "boxes s = boxes t"
  using assms by (simp_all add: carried_def boxes_def)

lemma frame_boxes: "frame s = frame t \<Longrightarrow> boxes s = boxes t"
  using frame_sel(17) [of s t] by (simp add: boxes_def)

lemma same_parts:
  assumes "life_at s = life_at t" "carried s = carried t"
  shows "lists s = lists t \<Longrightarrow> queue_inv H s \<longleftrightarrow> queue_inv H t" "worker_inv s \<longleftrightarrow> worker_inv t"
    "attr s = attr t \<Longrightarrow> pool_inv k s \<longleftrightarrow> pool_inv k t"
    "attr s = attr t \<Longrightarrow> tag_inv G s \<longleftrightarrow> tag_inv G t"
    "books s = books t \<Longrightarrow> journal_inv s \<longleftrightarrow> journal_inv t" "books s = books t \<Longrightarrow> count_inv s \<longleftrightarrow> count_inv t"
proof -
  note F = carried_sel [OF assms(2)]
  have D: "is_done (s_g s) = is_done (s_g t)" by (simp add: fun_eq_iff lives_done assms(1))
  show "lists s = lists t \<Longrightarrow> queue_inv H s \<longleftrightarrow> queue_inv H t"
    by (simp add: queue_inv_def found_def lists_def assms(1) F)
  show "worker_inv s \<longleftrightarrow> worker_inv t"
    by (simp add: worker_inv_def assms(1) F)
  have a: "attr s = attr t \<Longrightarrow> gen_at s = gen_at t \<and> lane_at s = lane_at t"
    by (simp add: attr_def fun_eq_iff)
  show "attr s = attr t \<Longrightarrow> pool_inv k s \<longleftrightarrow> pool_inv k t"
    by (simp add: a pool_inv_def F)
  show "attr s = attr t \<Longrightarrow> tag_inv G s \<longleftrightarrow> tag_inv G t"
    by (simp add: a tag_inv_def D)
  show "books s = books t \<Longrightarrow> journal_inv s \<longleftrightarrow> journal_inv t"
    by (simp add: journal_inv_def books_def D)
  show "books s = books t \<Longrightarrow> count_inv s \<longleftrightarrow> count_inv t"
    by (simp add: count_inv_def with_status_def books_def assms(1))
qed

lemma inv_same:
  assumes "life_at s = life_at t" "carried s = carried t" "lists s = lists t" "books s = books t" "attr s = attr t"
  shows "inv k H G s \<longleftrightarrow> inv k H G t"
  by (simp only: inv_def same_parts(1) [OF assms(1,2,3)] same_parts(2) [OF assms(1,2)]
      same_parts(3,4) [OF assms(1,2,5)] same_parts(5,6) [OF assms(1,2,4)])

lemma attr_nodes: "node_of s = node_of t \<Longrightarrow> attr s = attr t"
  by (simp add: attr_def gen_at_def lane_at_def fun_eq_iff)

lemma attr_set_node:
  "node_of s i = Some n \<Longrightarrow> xn_gen n' = xn_gen n \<Longrightarrow> xn_node n' = xn_node n \<Longrightarrow> attr (set_node i n' s) = attr s"
  by (auto simp: attr_def gen_at_def lane_at_def fun_eq_iff lane_of_def)

lemma attr_upd_node:
  "(\<And>n. xn_gen (f n) = xn_gen n \<and> xn_node (f n) = xn_node n) \<Longrightarrow> attr (upd_node i f s) = attr s"
  by (auto simp: upd_node_def attr_set_node split: option.splits)

lemma attr_push [simp]: "attr (push i s) = attr s"
  by (auto simp: attr_def gen_at_def lane_at_def fun_eq_iff lane_of_def node_push split: option.splits)

lemma attr_mark [simp]: "attr (mark_done i st s) = attr s"
proof -
  have "node_of (mark_done i st s) = node_of (upd_node i (\<lambda>n. n\<lparr>xn_life := Done, xn_status := st\<rparr>) s)"
    by (simp add: mark_done_def Let_def)
  then have "attr (mark_done i st s) = attr (upd_node i (\<lambda>n. n\<lparr>xn_life := Done, xn_status := st\<rparr>) s)"
    by (rule attr_nodes)
  then show ?thesis by (simp add: attr_upd_node)
qed

lemma emit_keeps [simp]: "lists (emit k e s) = lists s" "books (emit k e s) = books s"
  by (simp_all add: emit_def tick_def lists_def books_def)

lemma append_lists [simp]: "lists (must_append k e s) = lists s"
  by (simp add: must_append_def append_entry_def lists_def split: option.splits)

text \<open>An append adds the entry or leaves a fatal error behind.\<close>

lemma append_books:
  "s_failed (must_append k e s) = s_failed s" "s_halts (must_append k e s) = s_halts s"
  "s_journal (must_append k e s) = s_journal s @ [e] \<and> s_fatal (must_append k e s) = s_fatal s \<or>
   s_journal (must_append k e s) = s_journal s \<and> s_fatal (must_append k e s) \<noteq> None"
  by (auto simp: must_append_def append_entry_def split: option.splits)

text \<open>A record of step \<open>i\<close> reached the journal, or the run is fatal.\<close>

definition logged :: "string \<Rightarrow> sched \<Rightarrow> sched \<Rightarrow> bool" where
  "logged i s t \<longleftrightarrow>
     (result_steps (s_journal t) = result_steps (s_journal s) @ [i] \<or>
      result_steps (s_journal t) = result_steps (s_journal s) \<and> s_fatal t \<noteq> None) \<and>
     (s_fatal s \<noteq> None \<longrightarrow> s_fatal t \<noteq> None)"

lemma logged_append: "logged (rr_step r) s (must_append k (JResult r) s)"
  by (auto simp: logged_def must_append_def append_entry_def split: option.splits)

lemma logged_quiet:
  assumes "logged i s t" and "result_steps (s_journal u) = result_steps (s_journal t)"
    and "s_fatal t \<noteq> None \<longrightarrow> s_fatal u \<noteq> None"
  shows "logged i s u"
  using assms by (auto simp: logged_def)

lemma cost_quiet:
  "result_steps (s_journal (must_append k (JCost c) s)) = result_steps (s_journal s)"
  "s_fatal s \<noteq> None \<Longrightarrow> s_fatal (must_append k e s) \<noteq> None"
  by (auto simp: must_append_def append_entry_def split: option.splits)

subsection \<open>Preservation by the primitive moves\<close>

definition same_done :: "sched \<Rightarrow> sched \<Rightarrow> bool" where
  "same_done s t \<longleftrightarrow> (\<forall>i st. life_at s i = Some (Done, st) \<longleftrightarrow> life_at t i = Some (Done, st))"

lemma same_done_parts:
  assumes "same_done s t" "carried s = carried t" "attr s = attr t" "books s = books t"
  shows "pool_inv k s \<longleftrightarrow> pool_inv k t" "tag_inv G s \<longleftrightarrow> tag_inv G t"
    "journal_inv s \<longleftrightarrow> journal_inv t" "count_inv s \<longleftrightarrow> count_inv t"
proof -
  note F = carried_sel [OF assms(2)]
  have D: "is_done (s_g s) = is_done (s_g t)" "with_status st s = with_status st t" for st
    using assms(1) by (auto simp: same_done_def fun_eq_iff lives_done with_status_def)
  have a: "gen_at s = gen_at t \<and> lane_at s = lane_at t"
    using assms(3) by (simp add: attr_def fun_eq_iff)
  show "pool_inv k s \<longleftrightarrow> pool_inv k t" by (simp add: a pool_inv_def F)
  show "tag_inv G s \<longleftrightarrow> tag_inv G t" by (simp add: a tag_inv_def D)
  show "journal_inv s \<longleftrightarrow> journal_inv t" "count_inv s \<longleftrightarrow> count_inv t"
    using assms(4) by (simp_all add: journal_inv_def count_inv_def books_def D)
qed

lemma books_push [simp]: "books (push i s) = books s"
  by (auto simp: push_def books_def set_node_def split: option.splits)

lemma same_done_push: "same_done s (push i s)"
  by (auto simp: same_done_def life_push)

lemma ready_push:
  "set (s_ready s) \<subseteq> set (s_ready (push i s))"
  "life_at s i = Some (Pending, st) \<or> life_at s i = Some (Deferred, st) \<Longrightarrow> i \<in> set (s_ready (push i s))"
  "s_wait_zero (push i s) = s_wait_zero s"
  by (auto simp: push_def lives_def set_insort_key set_node_def split: option.splits)

lemma queue_push:
  assumes "queue_inv H s" and "H \<subseteq> insert i K" and "i \<in> H \<Longrightarrow> i \<notin> K \<Longrightarrow>
    (\<exists>st. life_at s i = Some (Pending, st) \<or> life_at s i = Some (Deferred, st))"
  shows "queue_inv K (push i s)"
  unfolding queue_inv_def
proof (intro allI impI)
  fix j l st
  assume a: "life_at (push i s) j = Some (l, st)"
  note F = frame_sel [OF frame_push [of i s]] and R = ready_push [where s = s and i = i]
  show "found K (push i s) j l"
  proof (cases "life_at s j = Some (l, st)")
    case True
    then have "found H s j l" using assms(1) by (auto simp: queue_inv_def)
    moreover have "j \<in> H \<Longrightarrow> l = Queued \<or> l = SlotWait \<or> l = Running \<or> l = Deferred \<Longrightarrow> j \<in> K"
      using True a assms(2,3) by (cases "j = i") (auto simp: life_push)
    ultimately show ?thesis using F R by (auto simp: found_def)
  next
    case False
    then have "j = i" "l = Queued" "\<exists>st. life_at s i = Some (Pending, st) \<or> life_at s i = Some (Deferred, st)"
      using a by (auto simp: life_push split: if_splits)
    then show ?thesis using R(2) by (auto simp: found_def)
  qed
qed

lemma worker_push: "worker_inv s \<Longrightarrow> worker_inv (push i s)"
proof -
  assume w: "worker_inv s"
  note F = frame_sel [OF frame_push [of i s]]
  have "life_at (push i s) j = Some (l, st)" if "life_at s j = Some (l, st)" "l = Running \<or> l = Done" for j l st
    using that by (auto simp: life_push)
  then show ?thesis using w unfolding worker_inv_def F by blast
qed

lemma inv_push_from:
  assumes "inv k H G s" and "H \<subseteq> insert i K" and "i \<in> H \<Longrightarrow> i \<notin> K \<Longrightarrow>
    (\<exists>st. life_at s i = Some (Pending, st) \<or> life_at s i = Some (Deferred, st))"
  shows "inv k K G (push i s)"
proof -
  note P = same_done_parts [OF same_done_push [of s i] carried_frame [OF frame_push [symmetric]] attr_push [symmetric] books_push [symmetric]]
  show ?thesis
    using assms(1) queue_push [OF _ assms(2,3)] worker_push P
    by (auto simp: inv_def)
qed

lemma inv_push: "inv k H G s \<Longrightarrow> inv k H G (push i s)"
  by (rule inv_push_from) auto

lemma inv_indeg: "inv k H G s \<Longrightarrow> inv k H G (s\<lparr>s_g := (s_g s)\<lparr>g_indeg := f\<rparr>\<rparr>)"
proof -
  let ?t = "s\<lparr>s_g := (s_g s)\<lparr>g_indeg := f\<rparr>\<rparr>"
  have "carried ?t = carried s" "lists ?t = lists s" "books ?t = books s"
    by (simp_all add: carried_def lists_def books_def)
  moreover have "life_at ?t = life_at s" "attr ?t = attr s"
    by (rule life_at_eq, simp) (rule attr_nodes, simp)
  ultimately show "inv k H G s \<Longrightarrow> inv k H G ?t" using inv_same by blast
qed

lemma life_zero [simp]: "life_at (s\<lparr>s_wait_zero := w\<rparr>) = life_at s"
  by (rule life_at_eq) simp

lemma zero_parts:
  "worker_inv (s\<lparr>s_wait_zero := w\<rparr>) = worker_inv s" "pool_inv k (s\<lparr>s_wait_zero := w\<rparr>) = pool_inv k s"
  "tag_inv G (s\<lparr>s_wait_zero := w\<rparr>) = tag_inv G s" "journal_inv (s\<lparr>s_wait_zero := w\<rparr>) = journal_inv s"
  "count_inv (s\<lparr>s_wait_zero := w\<rparr>) = count_inv s"
proof -
  have f: "carried (s\<lparr>s_wait_zero := w\<rparr>) = carried s" "books (s\<lparr>s_wait_zero := w\<rparr>) = books s"
    "attr (s\<lparr>s_wait_zero := w\<rparr>) = attr s"
    by (simp_all add: carried_def books_def attr_def gen_at_def lane_at_def fun_eq_iff)
  note P = same_parts [OF life_zero f(1)]
  show "worker_inv (s\<lparr>s_wait_zero := w\<rparr>) = worker_inv s" "pool_inv k (s\<lparr>s_wait_zero := w\<rparr>) = pool_inv k s"
    "tag_inv G (s\<lparr>s_wait_zero := w\<rparr>) = tag_inv G s" "journal_inv (s\<lparr>s_wait_zero := w\<rparr>) = journal_inv s"
    "count_inv (s\<lparr>s_wait_zero := w\<rparr>) = count_inv s"
    using P(2) P(3,4) [OF f(3)] P(5,6) [OF f(2)] by blast+
qed

lemma inv_unpark:
  assumes "inv k H G (t\<lparr>s_wait_zero := x # xs\<rparr>)"
  shows "inv k (insert x H) G (t\<lparr>s_wait_zero := xs\<rparr>)"
    and "\<nexists>st. life_at t x = Some (Deferred, st) \<Longrightarrow> inv k H G (t\<lparr>s_wait_zero := xs\<rparr>)"
proof -
  have q: "queue_inv H (t\<lparr>s_wait_zero := x # xs\<rparr>)" using assms by (simp add: inv_def)
  have "queue_inv (insert x H) (t\<lparr>s_wait_zero := xs\<rparr>)"
    using q by (auto simp: queue_inv_def found_def)
  then show "inv k (insert x H) G (t\<lparr>s_wait_zero := xs\<rparr>)"
    using assms by (simp add: inv_def zero_parts)
  have "queue_inv H (t\<lparr>s_wait_zero := xs\<rparr>)" if "\<nexists>st. life_at t x = Some (Deferred, st)"
    using q that by (fastforce simp: queue_inv_def found_def)
  then show "\<nexists>st. life_at t x = Some (Deferred, st) \<Longrightarrow> inv k H G (t\<lparr>s_wait_zero := xs\<rparr>)"
    using assms by (simp add: inv_def zero_parts)
qed

lemma push_zero: "push i (s\<lparr>s_wait_zero := w\<rparr>) = (push i s)\<lparr>s_wait_zero := w\<rparr>"
  by (simp add: push_def set_node_def split: option.splits)

lemma inv_wake_fold:
  "inv k H G (t\<lparr>s_wait_zero := xs\<rparr>) \<Longrightarrow> s_wait_zero t = [] \<Longrightarrow>
   inv k H G (fold (\<lambda>w s. case node_of s w of None \<Rightarrow> s
     | Some n \<Rightarrow> if xn_life n = Deferred then push w s else s) xs t)"
proof (induction xs arbitrary: t)
  case Nil
  have "t\<lparr>s_wait_zero := []\<rparr> = t" using Nil(2) by (metis sched.surjective sched.update_convs(13))
  with Nil show ?case by simp
next
  case (Cons x xs)
  let ?u = "case node_of t x of None \<Rightarrow> t | Some n \<Rightarrow> if xn_life n = Deferred then push x t else t"
  have "inv k H G (?u\<lparr>s_wait_zero := xs\<rparr>)"
  proof (cases "\<exists>st. life_at t x = Some (Deferred, st)")
    case True
    then have u: "?u = push x t" by (auto simp: lives_def)
    have "inv k H G (push x (t\<lparr>s_wait_zero := xs\<rparr>))"
      using inv_push_from [OF inv_unpark(1) [OF Cons.prems(1)], of x H] True by auto
    then show ?thesis unfolding u push_zero .
  next
    case False
    then have "?u = t" by (auto simp: lives_def split: option.splits)
    then show ?thesis using inv_unpark(2) [OF Cons.prems(1)] False by simp
  qed
  moreover have "s_wait_zero ?u = []" using Cons.prems(2) by (auto simp: ready_push split: option.splits)
  ultimately show ?case using Cons.IH by simp
qed

lemma inv_wake: "inv k H G s \<Longrightarrow> inv k H G (wake_parked s)"
  using inv_wake_fold [where t = "s\<lparr>s_wait_zero := []\<rparr>" and xs = "s_wait_zero s"] by (simp add: wake_parked_def)

text \<open>Settling: the node's life ends, its record is logged, the counters follow.\<close>

lemma inv_settle_core:
  assumes s: "inv k H G s" and i: "i \<in> undone s" and life: "life_at t = (life_at s)(i \<mapsto> (Done, st))"
    and fr: "frame t = frame s" "lists t = lists s" "attr t = attr s"
    and lg: "logged i s t" and cnt: "count_inv t"
  shows "inv k (H - {i}) (G - {i}) t"
proof -
  note F = frame_sel [OF fr(1)]
  have D: "is_done (s_g t) j \<longleftrightarrow> j = i \<or> is_done (s_g s) j" for j
    by (auto simp: lives_done life)
  have a: "gen_at t = gen_at s \<and> lane_at t = lane_at s"
    using fr(3) by (simp add: attr_def fun_eq_iff)
  have nd: "\<not> is_done (s_g s) i" using i by (simp add: undone_done)
  have "queue_inv (H - {i}) t"
    using s fr(2) by (auto simp: inv_def queue_inv_def found_def life F lists_def)
  moreover have "worker_inv t"
    using s by (auto simp: inv_def worker_inv_def life F)
  moreover have "pool_inv k t"
    using s unfolding inv_def pool_inv_def frame_boxes [OF fr(1)] F by (auto simp: a)
  moreover have "tag_inv (G - {i}) t"
    using s by (auto simp: inv_def tag_inv_def a D)
  moreover have "journal_inv t"
    using s nd lg unfolding inv_def journal_inv_def D logged_def by auto
  ultimately show ?thesis using cnt by (simp add: inv_def)
qed

lemma with_status_done:
  assumes "life_at t = (life_at s)(i \<mapsto> (Done, st))" and "i \<in> undone s"
  shows "with_status x t = (if x = st then insert i (with_status x s) else with_status x s)"
    "i \<notin> with_status x s"
  using assms by (auto simp: with_status_def undone_done lives_done)

lemma finite_with_status [simp]: "finite (with_status st s)"
  by (rule finite_subset [OF _ finite_is_done [of "s_g s"]]) (auto simp: with_status_def lives_done)

lemma mark_failed: "s_failed (mark_done i st s) = s_failed s + (if st = StateFailed then 1 else 0)"
  "s_halts (mark_done i st s) = s_halts s"
  by (auto simp: mark_done_def upd_node_def set_node_def Let_def split: option.splits)

lemma life_undone: "i \<in> undone s \<Longrightarrow> \<exists>v. life_at s i = Some v"
  by (auto simp: undone_def lives_def)

lemma attr_graph: "s_g s = s_g t \<Longrightarrow> attr s = attr t"
  by (rule attr_nodes) simp

lemma lists_mark [simp]: "lists (mark_done i st s) = lists s"
  by (simp add: lists_def mark_frame)

lemma clock_keeps [simp]: "lists (s\<lparr>s_clock := c\<rparr>) = lists s" "books (s\<lparr>s_clock := c\<rparr>) = books s"
  by (simp_all add: lists_def books_def)

lemma logged_books: "books s' = books s \<Longrightarrow> books t' = books t \<Longrightarrow> logged i s' t' = logged i s t"
  by (simp add: logged_def books_def)

lemma skip_record_keeps:
  "lists (skip_record k i st a s) = lists s" "logged i s (skip_record k i st a s)"
  "s_failed (skip_record k i st a s) = s_failed s" "s_halts (skip_record k i st a s) = s_halts s"
proof -
  show "lists (skip_record k i st a s) = lists s" by (simp add: skip_record_def tick_def)
  define r where "r = \<lparr>rr_step = i, rr_hash = [], rr_result = failed_result (error_of st a)
      \<lparr>tm_started = k_now k (s_clock s), tm_finished = k_now k (s_clock s)\<rparr> 1 []\<rparr>"
  define s1 where "s1 = s\<lparr>s_clock := Suc (s_clock s)\<rparr>"
  have b: "books (skip_record k i st a s) = books (must_append k (JResult r) s1)"
    by (simp add: skip_record_def tick_def r_def s1_def)
  have "logged i s1 (must_append k (JResult r) s1)" using logged_append [of r s1 k] by (simp add: r_def)
  then show "logged i s (skip_record k i st a s)"
    using logged_books [OF _ b, of s s1] by (simp add: s1_def)
  show "s_failed (skip_record k i st a s) = s_failed s" "s_halts (skip_record k i st a s) = s_halts s"
    using b by (simp_all add: books_def append_books) (simp_all add: s1_def)
qed

lemma logged_mark: "logged i s (mark_done j st t) = logged i s t"
  by (simp add: logged_def mark_frame)

lemma inv_mark:
  assumes s: "inv k H G s" and i: "i \<in> undone s" and st: "skip_state st"
  shows "inv k (H - {i}) (G - {i}) (mark_done i st (skip_record k i st a s))"
proof -
  let ?r = "skip_record k i st a s"
  let ?t = "mark_done i st ?r"
  have lr: "life_at ?r = life_at s" by (rule life_at_eq) simp
  have life: "life_at ?t = (life_at s)(i \<mapsto> (Done, st))"
    using life_undone [OF i] by (auto simp: life_mark lr)
  have fr: "frame ?t = frame s" "lists ?t = lists s" "attr ?t = attr s"
    by (simp_all add: frame_simps attr_graph [of ?r s] skip_record_keeps)
  have "logged i s ?t" using skip_record_keeps(2) by (simp add: logged_mark)
  moreover have "count_inv ?t"
    using s st with_status_done [OF life i] skip_record_keeps(2) [of i s k st a]
    by (auto simp: inv_def count_inv_def mark_failed mark_frame skip_record_keeps logged_def)
  ultimately show ?thesis using inv_settle_core [OF s i life fr] by blast
qed

text \<open>Changing a node without touching what the parts read.\<close>

definition alike :: "exec_node \<Rightarrow> exec_node \<Rightarrow> bool" where
  "alike n m \<longleftrightarrow> xn_life m = xn_life n \<and> xn_status m = xn_status n \<and> xn_gen m = xn_gen n \<and> xn_node m = xn_node n"

lemma set_node_keeps [simp]: "lists (set_node i n s) = lists s" "books (set_node i n s) = books s"
  by (simp_all add: set_node_def lists_def books_def)

lemma life_set_node: "life_at (set_node i n s) = (life_at s)(i \<mapsto> (xn_life n, xn_status n))"
  by (simp add: lives_def set_node_def fun_eq_iff)

lemma alike_keeps:
  assumes "node_of s i = Some n" "alike n m"
  shows "life_at (set_node i m s) = life_at s" "attr (set_node i m s) = attr s"
proof -
  show "life_at (set_node i m s) = life_at s"
    using assms by (auto simp: life_set_node lives_def alike_def fun_eq_iff)
  show "attr (set_node i m s) = attr s" using assms by (intro attr_set_node) (auto simp: alike_def)
qed

lemma ginv_alike:
  assumes "node_of s i = Some n" "alike n m"
  shows "ginv P (s_g (set_node i m s)) = ginv P (s_g s)"
proof (rule ginv_cong)
  show "life_at (set_node i m s) = life_at s" by (rule alike_keeps) (rule assms)+
  show "distinct (map fst (g_nodes (s_g (set_node i m s)))) = distinct (map fst (g_nodes (s_g s)))"
    using map_of_SomeD [OF assms(1)] by (force simp: set_node_def update_keys)
qed (simp_all add: set_node_def wiring_def)

lemma inv_alike:
  assumes "node_of s i = Some n" "alike n m"
  shows "inv k H G (set_node i m s) = inv k H G s"
  by (rule inv_same) (simp_all add: alike_keeps [OF assms])

lemma store_payload_alike:
  assumes "node_of s i = Some n"
  shows "\<exists>m. alike n m \<and> store_payload i n p r s = set_node i m s"
proof (cases p)
  case None
  have "set_node i n s = s"
    using assms by (simp add: set_node_def) (simp add: map_of_SomeD update_triv)
  then show ?thesis using None by (auto simp: store_payload_def alike_def intro!: exI [of _ n])
next
  case (Some v)
  then show ?thesis
    by (intro exI [of _ "n\<lparr>xn_payload := v, xn_raw := r_payload r\<rparr>"]) (simp add: store_payload_def alike_def)
qed

lemma settle_shape_halted:
  assumes "settle_shape k res = (StateHalted, r, p)"
  shows "r_status r = StatusHalted"
  using assms by (auto simp: settle_shape_def split: if_splits sum.splits)

lemma refuse_no_halt:
  assumes "r_status (rr_result q) = StatusHalted" "r_halt (rr_result q) = None"
  shows "s_fatal (must_append k (JResult q) s) \<noteq> None"
proof -
  have "validate (rr_result q) \<noteq> []" using assms by (auto simp: valid_iff halted_shape_def)
  then show ?thesis by (simp add: must_append_def append_entry_def append_refuses_def)
qed

definition new_halt :: "string \<Rightarrow> string \<Rightarrow> result \<Rightarrow> halted_step list" where
  "new_halt i st r = (if st = StateHalted then (case r_halt r of None \<Rightarrow> []
     | Some h \<Rightarrow> [\<lparr>hs_step = i, hs_reason = hr_reason h\<rparr>]) else [])"

lemma settle_records_keeps:
  fixes s :: sched
  assumes t_def: "t = settle_records k i n st r x cs s"
  shows "frame t = frame s" "lists t = lists s" "logged i s t" "s_failed t = s_failed s"
    "s_halts t = s_halts s @ new_halt i st r"
    "r_status r = StatusHalted \<Longrightarrow> r_halt r = None \<Longrightarrow> s_fatal t \<noteq> None"
proof -
  define q where "q = \<lparr>rr_step = i, rr_hash = (if x \<or> xn_cached n then xn_hash n else []), rr_result = r\<rparr>"
  define s2 where "s2 = must_append k (JResult q) s"
  define c where "c = JCost \<lparr>cr_step = i, cr_hash = xn_hash n, cr_cost = cost_json (xn_costs n @ cs)\<rparr>"
  define s3 where "s3 = (if x \<or> xn_costs n @ cs \<noteq> [] then must_append k c s2 else s2)"
  define s4 where "s4 = s3\<lparr>s_halts := s_halts s3 @ new_halt i st r\<rparr>"
  have h: "s3\<lparr>s_halts := s_halts s3\<rparr> = s3" by simp
  have t: "t = emit k (settled_event i st (xn_cached n) r) s4"
    unfolding t_def settle_records_def Let_def q_def [symmetric] s2_def [symmetric] c_def [symmetric]
      s3_def [symmetric] s4_def new_halt_def
    by (cases "r_halt r") (auto simp: h)
  have f: "frame (u\<lparr>s_halts := hs\<rparr>) = frame u" "lists (u\<lparr>s_halts := hs\<rparr>) = lists u" for u :: sched and hs
    by (simp_all add: frame_def lists_def)
  show "frame t = frame s"
    by (simp add: t s4_def s3_def s2_def f frame_simps)
  show "lists t = lists s" by (simp add: t s4_def s3_def s2_def f)
  have l2: "logged i s s2" using logged_append [of q s k] by (simp add: s2_def q_def)
  have l3: "logged i s s3"
    using l2 cost_quiet by (auto simp: s3_def c_def intro: logged_quiet)
  then have "logged i s s4" by (simp add: s4_def logged_def)
  then show "logged i s t" unfolding t using logged_books [of s s _ s4] emit_keeps(2) by blast
  have b: "books t = books s4" by (simp add: t)
  then show "s_failed t = s_failed s" "s_halts t = s_halts s @ new_halt i st r"
    by (simp_all add: books_def s4_def s3_def s2_def append_books)
  assume "r_status r = StatusHalted" "r_halt r = None"
  then have "s_fatal s2 \<noteq> None" using refuse_no_halt [of q k s] by (simp add: s2_def q_def)
  then have "s_fatal s3 \<noteq> None" using cost_quiet(2) by (simp add: s3_def)
  then show "s_fatal t \<noteq> None" using b by (simp add: books_def s4_def)
qed

lemma inv_settle:
  assumes s: "inv k H G s" and n: "node_of s i = Some n" "\<not> terminal n"
    and sh: "settle_shape k res = (st, r, p)"
  shows "inv k (H - {i}) (G - {i}) (mark_done i st (settle_records k i n st r x cs (store_payload i n p r s)))"
proof -
  obtain m where m: "alike n m" "store_payload i n p r s = set_node i m s"
    using store_payload_alike [OF n(1)] by blast
  define s1 where "s1 = set_node i m s"
  have s1: "inv k H G s1" using inv_alike [OF n(1) m(1)] s by (simp add: s1_def)
  have i: "i \<in> undone s1" using n m(1) by (auto simp: s1_def undone_def alike_def terminal_def)
  define u where "u = settle_records k i n st r x cs s1"
  note K = settle_records_keeps [OF u_def]
  let ?t = "mark_done i st u"
  have lu: "life_at u = life_at s1" unfolding u_def by (rule life_at_eq) simp
  have life: "life_at ?t = (life_at s1)(i \<mapsto> (Done, st))"
    using life_undone [OF i] by (auto simp: life_mark lu)
  have fr: "frame ?t = frame s1" "lists ?t = lists s1" "attr ?t = attr s1"
    using attr_graph [of u s1] by (simp_all add: frame_simps K) (simp add: u_def)
  have lg: "logged i s1 ?t" by (simp add: logged_mark K)
  have halted: "st = StateHalted \<Longrightarrow> r_halt r = None \<Longrightarrow> s_fatal ?t \<noteq> None"
    using K(6) settle_shape_halted sh by (simp add: mark_frame)
  have c1: "count_inv s1" using s1 by (simp add: inv_def)
  note W = with_status_done [OF life i]
  have f1: "s_failed ?t = s_failed s1 + (if st = StateFailed then 1 else 0)"
    by (simp add: mark_failed K)
  have h1: "s_halts ?t = s_halts s1 @ new_halt i st r" by (simp add: mark_failed K)
  have fatal: "s_fatal ?t = None \<Longrightarrow> s_fatal s1 = None" using lg by (auto simp: logged_def)
  have nh: "map hs_step (new_halt i st r) = (if st = StateHalted \<and> r_halt r \<noteq> None then [i] else [])"
    by (simp add: new_halt_def split: option.splits)
  have "count_inv ?t"
    unfolding count_inv_def
  proof (intro conjI impI)
    show "s_failed ?t = int (card (with_status StateFailed ?t))"
      using c1 W by (auto simp: f1 count_inv_def)
    show "distinct (map hs_step (s_halts ?t))"
      using c1 W(2) by (auto simp: h1 nh count_inv_def)
    show "set (map hs_step (s_halts ?t)) \<subseteq> with_status StateHalted ?t"
      using c1 by (auto simp: h1 nh count_inv_def W(1))
    show "with_status StateHalted ?t \<subseteq> set (map hs_step (s_halts ?t))" if "s_fatal ?t = None"
      using c1 fatal that halted by (auto simp: h1 nh count_inv_def W(1) split: if_splits)
  qed
  from inv_settle_core [OF s1 i life fr lg this] show ?thesis
    by (simp add: m(2) u_def s1_def)
qed

subsection \<open>The settle path keeps every part\<close>

locale settle_keeps =
  fixes k :: cfg and J :: "sched \<Rightarrow> bool"
  assumes J_mark: "J s \<Longrightarrow> i \<in> undone s \<Longrightarrow> skip_state st \<Longrightarrow>
        J (mark_done i st (skip_record k i st a s))"
    and J_push: "J s \<Longrightarrow> J (push i s)"
    and J_indeg: "J s \<Longrightarrow> J (s\<lparr>s_g := (s_g s)\<lparr>g_indeg := f\<rparr>\<rparr>)"
    and J_wake: "J s \<Longrightarrow> J (wake_parked s)"
begin

lemma J_release: "J s \<Longrightarrow> J (release_succs i s)"
proof -
  have one: "J s \<Longrightarrow> J (release_one d s)" for d s
    by (auto simp: release_one_def Let_def intro: J_push J_indeg split: option.splits)
  have "J s \<Longrightarrow> J (fold release_one ds s)" for ds s
    by (induction ds arbitrary: s) (simp_all add: one)
  then show "J s \<Longrightarrow> J (release_succs i s)" by (simp add: release_succs_def)
qed

end

sublocale settle_keeps \<subseteq> settle_path k "\<lambda>P s. ginv P (s_g s) \<and> J s"
proof unfold_locales
  fix P :: "string set" and s :: sched and i d st a :: string
  show "ginv P (s_g s) \<and> J s \<Longrightarrow> i \<in> P \<Longrightarrow> is_done (s_g s) i"
    using graph_path.settled by blast
  show "ginv P (s_g s) \<and> J s \<Longrightarrow> i \<in> undone s \<Longrightarrow> skip_state st \<Longrightarrow>
      ginv (insert i P) (s_g (mark_done i st (skip_record k i st a s))) \<and>
      J (mark_done i st (skip_record k i st a s))"
    using graph_path.mark J_mark by blast
  show "ginv P (s_g s) \<and> J s \<Longrightarrow> i \<in> P \<Longrightarrow>
      (stops (s_g s) i \<Longrightarrow> \<forall>d \<in> set (succs (s_g s) i). is_done (s_g s) d) \<Longrightarrow>
      ginv (P - {i}) (s_g (release_succs i s)) \<and> J (release_succs i s)"
    using graph_path.release J_release by blast
  show "ginv P (s_g s) \<and> J s \<Longrightarrow> ginv P (s_g (wake_parked s)) \<and> J (wake_parked s)"
    using graph_path.wake J_wake by blast
  show "ginv P (s_g s) \<and> J s \<Longrightarrow> i \<in> P \<Longrightarrow> d \<in> set (succs (s_g s) i) \<Longrightarrow>
      \<exists>l st. life_at s d = Some (l, st) \<and> (l = Pending \<or> l = Done)"
    using graph_path.waiting by blast
qed

lemma inv_mono: "inv k H G s \<Longrightarrow> H \<subseteq> H' \<Longrightarrow> G \<subseteq> G' \<Longrightarrow> inv k H' G' s"
  by (fastforce simp: inv_def queue_inv_def found_def tag_inv_def)

interpretation state_path: settle_keeps k "inv k H G" for k H G
proof unfold_locales
  fix s :: sched and i st a :: string
  show "inv k H G s \<Longrightarrow> i \<in> undone s \<Longrightarrow> skip_state st \<Longrightarrow>
      inv k H G (mark_done i st (skip_record k i st a s))"
    by (drule inv_mark) (auto elim: inv_mono)
qed (simp_all add: inv_push inv_indeg inv_wake)

text \<open>The set of nodes does not change on the settle path.\<close>

abbreviation known :: "sched \<Rightarrow> string set" where
  "known s \<equiv> keys (g_nodes (s_g s))"

lemma known_push: "known (push i s) = known s"
  by (auto simp: lives_keys life_push)

lemma known_wake: "known (wake_parked s) = known s"
proof -
  have "known (fold (\<lambda>w s. case node_of s w of None \<Rightarrow> s
      | Some n \<Rightarrow> if xn_life n = Deferred then push w s else s) xs t) = known t" for xs t
  proof (induction xs arbitrary: t)
    case (Cons x xs)
    have "known (case node_of t x of None \<Rightarrow> t
      | Some n \<Rightarrow> if xn_life n = Deferred then push x t else t) = known t"
      by (simp add: known_push split: option.splits)
    with Cons show ?case by simp
  qed simp
  then show ?thesis by (simp add: wake_parked_def)
qed

interpretation known_path: settle_keeps k "\<lambda>s. known s = K" for k K
proof unfold_locales
  fix s :: sched and i st a :: string
  assume "known s = K" "i \<in> undone s"
  then show "known (mark_done i st (skip_record k i st a s)) = K"
    using lives_mark_done(3) [of i "skip_record k i st a s" st] by simp
qed (simp_all add: known_push known_wake)

text \<open>The whole invariant, with the nodes being handled (\<open>H\<close>) and spliced (\<open>G\<close>).\<close>

definition good :: "cfg \<Rightarrow> string set \<Rightarrow> string set \<Rightarrow> sched \<Rightarrow> bool" where
  "good k H G s \<longleftrightarrow> ginv {} (s_g s) \<and> inv k H G s"

lemma good_done: "good k H G s \<Longrightarrow> is_done (s_g s) i \<Longrightarrow> good k (H - {i}) (G - {i}) s"
  by (auto simp: good_def inv_def queue_inv_def found_def tag_inv_def lives_done)

lemma good_skip:
  assumes "good k H G s" "i \<in> undone s" "skip_state st"
  shows "good k (H - {i}) (G - {i}) (settle_skip k i st a s)"
    and "is_done (s_g (settle_skip k i st a s)) i"
proof -
  let ?t = "settle_skip k i st a s"
  have g: "good k H G ?t" using state_path.skip [of "{}" s k H G] assms by (simp add: good_def)
  have "known ?t = known s"
    using known_path.skip [of "{}" s "known s"] assms by (simp add: good_def)
  moreover have "i \<notin> undone ?t" using undone_settle_skip by blast
  moreover have "i \<in> known s" using assms(2) by (simp add: undone_done)
  ultimately show d: "is_done (s_g ?t) i" by (simp add: undone_done)
  show "good k (H - {i}) (G - {i}) ?t" using good_done [OF g d] .
qed

lemma good_settle:
  assumes g: "good k H G s" and i: "i \<in> undone s"
  shows "good k (H - {i}) (G - {i}) (settle_result k i res x cs s)"
    and "is_done (s_g (settle_result k i res x cs s)) i"
    and "known (settle_result k i res x cs s) = known s"
proof -
  obtain n where n: "node_of s i = Some n" "\<not> terminal n" using i by (auto simp: undone_def)
  obtain st r p where sh: "settle_shape k res = (st, r, p)" by (metis prod_cases3)
  define u where "u = settle_records k i n st r x cs (store_payload i n p r s)"
  obtain m where m: "alike n m" "store_payload i n p r s = set_node i m s"
    using store_payload_alike [OF n(1)] by blast
  have gu: "s_g u = s_g (set_node i m s)" by (simp add: u_def m)
  have "i \<in> undone (set_node i m s)" using n m(1) by (auto simp: undone_def alike_def terminal_def)
  then have iu: "i \<in> undone u" by (simp add: undone_def gu)
  have "ginv {} (s_g u)" using g ginv_alike [OF n(1) m(1)] by (simp add: gu good_def)
  from ginv_mark [OF this iu] have g1: "ginv (insert i {}) (s_g (mark_done i st u))" .
  moreover have "inv k (H - {i}) (G - {i}) (mark_done i st u)"
    using inv_settle [OF _ n sh] g by (simp add: u_def good_def)
  moreover have t: "settle_result k i res x cs s = finish k i st u"
    by (simp add: settle_result_def n sh u_def)
  ultimately show "good k (H - {i}) (G - {i}) (settle_result k i res x cs s)"
    using state_path.finish [of i "{}" st u k "H - {i}" "G - {i}"] iu by (simp add: good_def)
  have "known u = known s" using n(1) by (auto simp: gu set_node_def)
  then have "known (mark_done i st u) = known s" using lives_mark_done(3) [OF iu, of st] by simp
  with g1 have "known (finish k i st u) = known s"
    using known_path.finish [of i "{}" st u "known s" k] iu by simp
  then show k: "known (settle_result k i res x cs s) = known s" by (simp add: t)
  have "i \<notin> undone (settle_result k i res x cs s)" using undone_settle_result n(1) by fastforce
  moreover have "i \<in> known s" using i by (simp add: undone_done)
  ultimately show "is_done (s_g (settle_result k i res x cs s)) i" using k by (simp add: undone_done)
qed

lemma good_clock: "good k H G (s\<lparr>s_clock := c\<rparr>) = good k H G s"
proof -
  have "inv k H G (s\<lparr>s_clock := c\<rparr>) = inv k H G s"
  proof (rule inv_same)
    show "life_at (s\<lparr>s_clock := c\<rparr>) = life_at s" by (rule life_at_eq) simp
    show "attr (s\<lparr>s_clock := c\<rparr>) = attr s" by (rule attr_graph) simp
  qed simp_all
  then show ?thesis by (simp add: good_def)
qed

lemma undone_clock [simp]: "undone (s\<lparr>s_clock := c\<rparr>) = undone s"
  by (rule undone_eq) simp

lemma good_settle_cheap:
  assumes g: "good k H G s" and i: "i \<in> undone s"
  shows "good k (H - {i}) (G - {i}) (settle_failed k i r d s)" "is_done (s_g (settle_failed k i r d s)) i"
    "good k (H - {i}) (G - {i}) (settle_ok k i p s)" "is_done (s_g (settle_ok k i p s)) i"
  unfolding settle_failed_def settle_ok_def tick_def
  using good_settle [of k H G "s\<lparr>s_clock := Suc (s_clock s)\<rparr>" i] g i by (simp_all add: good_clock)

lemma inv_envs: "inv k H G (s\<lparr>s_g := (s_g s)\<lparr>g_envs := es\<rparr>\<rparr>) = inv k H G s"
proof (rule inv_same)
  show "life_at (s\<lparr>s_g := (s_g s)\<lparr>g_envs := es\<rparr>\<rparr>) = life_at s" by (rule life_at_eq) simp
  show "attr (s\<lparr>s_g := (s_g s)\<lparr>g_envs := es\<rparr>\<rparr>) = attr s" by (rule attr_nodes) simp
qed (simp_all add: carried_def lists_def books_def)

lemma good_envs: "good k H G (s\<lparr>s_g := (s_g s)\<lparr>g_envs := es\<rparr>\<rparr>) = good k H G s"
  by (simp add: good_def inv_envs)

lemma good_alike: "node_of s i = Some n \<Longrightarrow> alike n m \<Longrightarrow> good k H G (set_node i m s) = good k H G s"
  by (simp add: good_def inv_alike ginv_alike)

text \<open>Progress events and the pause latch are read by no part.\<close>

lemma good_quiet:
  assumes "s_g s = s_g t" "carried s = carried t" "lists s = lists t" "books s = books t"
  shows "good k H G s = good k H G t"
  unfolding good_def assms(1)
  using inv_same [OF life_at_eq assms(2-4) attr_graph] assms(1) by simp

lemma good_emit [simp]: "good k H G (emit k' e s) = good k H G s"
  by (rule good_quiet) simp_all

end
