(* ===== verification/DispatchInv.thy ===== *)
theory DispatchInv
  imports StateInv
begin

text \<open>
  Dispatching, launching and draining (\<open>dispatch\<close>, \<open>launch\<close>, \<open>drain\<close> of \<open>pipeline/scheduler.go\<close>)
  keep the scheduler's invariant, with the node just taken off its queue exempted until it is settled,
  handed to a worker or queued for a slot.
\<close>

subsection \<open>Moving a node on\<close>

lemma ginv_relife:
  assumes g: "ginv P (s_g s)" and n: "node_of s i = Some n" "xn_life n \<noteq> Pending" "xn_life n \<noteq> Done"
    and n': "xn_life n' \<noteq> Done"
  shows "ginv P (s_g (set_node i n' s))"
proof -
  let ?t = "set_node i n' s"
  note gD = ginvD [OF g]
  have life: "life_at ?t = (life_at s)(i \<mapsto> (xn_life n', xn_status n'))" by (simp add: life_set_node)
  have z: "g_indeg (s_g s) i = 0" using gD(3) n by (auto simp: ready_ok_def)
  have old: "life_at s i = Some (xn_life n, xn_status n)" using n(1) by (simp add: lives_def)
  have D: "is_done (s_g ?t) = is_done (s_g s)" "stops (s_g ?t) = stops (s_g s)"
    using old n n' by (auto simp: fun_eq_iff lives_done lives_stops life)
  have same: "g_indeg (s_g ?t) = g_indeg (s_g s)" "g_done (s_g ?t) = g_done (s_g s)" "wiring (s_g ?t) = wiring (s_g s)"
    by (simp_all add: set_node_def wiring_def)
  have K: "known ?t = known s" using n(1) by auto
  have "distinct (map fst (g_nodes (s_g ?t)))" using gD(1) by (simp add: shape_ok_def set_node_def)
  moreover have "g_indeg (s_g ?t) j = 0" if "j \<notin> known s" for j
    using gD(1) that by (simp add: same shape_ok_def)
  ultimately have "shape_ok (s_g ?t)" using shape_transfer [OF gD(1) same(3) K] by blast
  moreover have "ready_ok (s_g ?t)" using gD(3) z by (auto simp: lives_ready life same)
  ultimately show ?thesis
    using g wiring_sel [OF same(3)]
    by (simp add: ginv_def counted_def stopped_ok_def tally_ok_def open_preds_def D same)
qed

text \<open>The invariant less the pools.\<close>

definition core :: "string set \<Rightarrow> string set \<Rightarrow> sched \<Rightarrow> bool" where
  "core H G s \<longleftrightarrow> ginv {} (s_g s) \<and> queue_inv H s \<and> worker_inv s \<and> tag_inv G s \<and>
     journal_inv s \<and> count_inv s"

lemma good_core: "good k H G s \<longleftrightarrow> core H G s \<and> pool_inv k s"
  by (auto simp: good_def inv_def core_def)

lemma pools_frame:
  "gen_at (s\<lparr>s_slots := a, s_gen_pools := b, s_lanes := c\<rparr>) = gen_at s"
  "lane_at (s\<lparr>s_slots := a, s_gen_pools := b, s_lanes := c\<rparr>) = lane_at s"
  "boxes (s\<lparr>s_slots := a, s_gen_pools := b, s_lanes := c\<rparr>) = boxes s"
  by (simp_all add: gen_at_def lane_at_def boxes_def fun_eq_iff)

lemma core_pools: "core H G (s\<lparr>s_slots := a, s_gen_pools := b, s_lanes := c\<rparr>) = core H G s"
  by (simp add: core_def queue_inv_def found_def worker_inv_def tag_inv_def journal_inv_def
      count_inv_def with_status_def pools_frame)

text \<open>A life that changes between two unsettled lives touches the queues, the workers and the pools.\<close>

lemma core_relife:
  assumes s: "core H G s" and old: "life_at s i = Some (l, st)" "l \<noteq> Done"
    and life: "life_at t = (life_at s)(i \<mapsto> (l', st'))" "l' \<noteq> Done"
    and same: "attr t = attr s" "books t = books s"
    and parts: "ginv {} (s_g t)" "queue_inv K t" "worker_inv t"
  shows "core K G t"
proof -
  have D: "is_done (s_g t) = is_done (s_g s)" "with_status x t = with_status x s" for x
    using old life by (auto simp: fun_eq_iff lives_done with_status_def)
  have a: "gen_at t = gen_at s" using same(1) by (simp add: attr_def fun_eq_iff)
  show ?thesis
    using s parts same(2)
    by (simp add: core_def tag_inv_def journal_inv_def count_inv_def books_def D a)
qed

lemma lane_gen_attr: "attr s = attr t \<Longrightarrow> gen_at s = gen_at t \<and> lane_at s = lane_at t"
  by (simp add: attr_def fun_eq_iff)

lemma life_start_worker:
  "life_at (start_worker i w s) = (life_at s)(i := map_option (\<lambda>(l, st). (Running, st)) (life_at s i))"
  by (auto simp: lives_def node_start_worker option.map_comp comp_def fun_eq_iff)

lemma start_worker_keeps:
  "attr (start_worker i w s) = attr s" "books (start_worker i w s) = books s" "lists (start_worker i w s) = lists s"
  "s_workers (start_worker i w s) = s_workers s @ [w]"
  "s_outstanding (start_worker i w s) = s_outstanding s + 1"
  "s_slotq (start_worker i w s) = s_slotq s" "s_timers (start_worker i w s) = s_timers s"
  "s_slots (start_worker i w s) = s_slots s" "s_gen_pools (start_worker i w s) = s_gen_pools s"
  "s_lanes (start_worker i w s) = s_lanes s"
proof -
  let ?u = "upd_node i (\<lambda>n. n\<lparr>xn_life := Running\<rparr>) s"
  note F = frame_sel [OF frame_upd_node [of i "\<lambda>n. n\<lparr>xn_life := Running\<rparr>" s]]
  show "attr (start_worker i w s) = attr s"
    using attr_nodes [of "start_worker i w s" ?u] attr_upd_node [of "\<lambda>n. n\<lparr>xn_life := Running\<rparr>" i s]
    by (simp add: start_worker_def)
  have "books ?u = books s" "lists ?u = lists s"
    by (simp_all add: upd_node_def split: option.splits)
  then show "books (start_worker i w s) = books s" "lists (start_worker i w s) = lists s"
    by (simp_all add: start_worker_def books_def lists_def)
  show "s_workers (start_worker i w s) = s_workers s @ [w]"
    "s_outstanding (start_worker i w s) = s_outstanding s + 1"
    "s_slotq (start_worker i w s) = s_slotq s" "s_timers (start_worker i w s) = s_timers s"
    "s_slots (start_worker i w s) = s_slots s" "s_gen_pools (start_worker i w s) = s_gen_pools s"
    "s_lanes (start_worker i w s) = s_lanes s"
    by (simp_all add: start_worker_def F)
qed

lemma graph_start_worker:
  "node_of s i = Some n \<Longrightarrow> s_g (start_worker i w s) = s_g (set_node i (n\<lparr>xn_life := Running\<rparr>) s)"
  by (simp add: start_worker_def upd_node_def)

lemma boxes_start: "boxes (start_worker i w s) = boxes s @ box_of w"
  by (simp add: boxes_def start_worker_keeps)

text \<open>Handing a node to a worker.\<close>

lemma core_start:
  assumes s: "core H G s" and n: "node_of s i = Some n" "xn_life n = Queued \<or> xn_life n = SlotWait"
    and w: "worker_id w = i"
  shows "core (H - {i}) G (start_worker i w s)"
proof -
  let ?t = "start_worker i w s"
  have old: "life_at s i = Some (xn_life n, xn_status n)" using n(1) by (simp add: lives_def)
  have life: "life_at ?t = (life_at s)(i \<mapsto> (Running, xn_status n))"
    by (auto simp: life_start_worker old)
  have g: "ginv {} (s_g ?t)"
    unfolding graph_start_worker [OF n(1)] using s n by (intro ginv_relife) (auto simp: core_def)
  have q: "queue_inv H s" and wk: "worker_inv s" using s by (simp_all add: core_def)
  have "queue_inv (H - {i}) ?t"
    unfolding queue_inv_def
  proof (intro allI impI)
    fix j l st
    assume a: "life_at ?t j = Some (l, st)"
    show "found (H - {i}) ?t j l"
    proof (cases "j = i")
      case True
      then show ?thesis using a w by (simp add: life found_def start_worker_keeps)
    next
      case False
      then have "found H s j l" using a q by (simp add: queue_inv_def life)
      then show ?thesis using False start_worker_keeps(3) [of i w s]
        by (auto simp: found_def start_worker_keeps lists_def)
    qed
  qed
  moreover have "worker_inv ?t"
    using wk old n(2) w by (auto simp: worker_inv_def start_worker_keeps life)
  ultimately show ?thesis
    using core_relife [OF s old _ life _ start_worker_keeps(1,2) g] n(2) by auto
qed

lemma pool_start:
  assumes "pool_inv k s" and "box_of w = []"
  shows "pool_inv k (start_worker i w s)"
  using assms lane_gen_attr [OF start_worker_keeps(1) [of i w s]]
  by (auto simp: pool_inv_def boxes_start start_worker_keeps)

lemma good_slot_queued:
  assumes s: "good k H G s" and n: "node_of s i = Some n" "xn_life n = Queued"
    and m: "alike n m"
  shows "good k (H - {i}) G (slot_queued i m s)"
proof -
  let ?t = "slot_queued i m s" and ?m = "m\<lparr>xn_life := SlotWait\<rparr>"
  have old: "life_at s i = Some (Queued, xn_status n)" using n by (simp add: lives_def)
  have sg: "s_g ?t = s_g (set_node i ?m s)" by (simp add: slot_queued_def)
  have life: "life_at ?t = (life_at s)(i \<mapsto> (SlotWait, xn_status m))"
    unfolding sg by (simp add: life_set_node)
  have at: "attr ?t = attr s"
    using attr_graph [OF sg] attr_set_node [OF n(1), of ?m] m by (simp add: alike_def)
  have keeps: "books ?t = books s" "s_ready ?t = s_ready s" "s_wait_zero ?t = s_wait_zero s"
    "s_slotq ?t = insort i (s_slotq s)" "s_workers ?t = s_workers s" "s_timers ?t = s_timers s"
    "s_outstanding ?t = s_outstanding s" "s_slots ?t = s_slots s" "s_gen_pools ?t = s_gen_pools s"
    "s_lanes ?t = s_lanes s"
    by (simp_all add: slot_queued_def set_node_def books_def)
  have q: "queue_inv H s" and wk: "worker_inv s" and pl: "pool_inv k s"
    using s by (simp_all add: good_def inv_def)
  have "queue_inv (H - {i}) ?t"
    unfolding queue_inv_def
  proof (intro allI impI)
    fix j l st
    assume a: "life_at ?t j = Some (l, st)"
    show "found (H - {i}) ?t j l"
    proof (cases "j = i")
      case True
      then show ?thesis using a by (simp add: life found_def keeps set_insort_key)
    next
      case False
      then have "found H s j l" using a q by (simp add: queue_inv_def life)
      then show ?thesis using False by (auto simp: found_def keeps set_insort_key)
    qed
  qed
  moreover have "worker_inv ?t" using wk old by (auto simp: worker_inv_def keeps life)
  moreover have "boxes ?t = boxes s" by (simp add: boxes_def keeps)
  then have "pool_inv k ?t" using pl lane_gen_attr [OF at] by (auto simp: pool_inv_def keeps)
  moreover have "ginv {} (s_g ?t)" unfolding sg
    using s n m by (intro ginv_relife) (auto simp: good_def alike_def)
  moreover have "core H G s" using s by (simp add: good_core)
  ultimately show ?thesis
    using core_relife [OF _ old _ life _ at keeps(1)] by (auto simp: good_core)
qed

subsection \<open>Dispatch\<close>

lemma good_bind_scope: "good k H G (bind_scope a x v s) = good k H G s"
  by (simp add: bind_scope_def good_envs)

lemma good_bind_slots:
  "bind_scope_slots a bs e xs s = (r, t) \<Longrightarrow> good k H G t = good k H G s"
  by (induction a bs e xs s rule: bind_scope_slots.induct)
     (auto simp: good_bind_scope split: option.splits bound.splits)

lemma good_bind_edges:
  "bind_scope_edges a es s = (r, t) \<Longrightarrow> good k H G t = good k H G s"
  by (induction a es s rule: bind_scope_edges.induct)
     (auto simp: good_bind_scope Let_def split: option.splits if_splits)

lemma good_minus: "good k (insert i H - {i}) G s \<Longrightarrow> good k H G s"
  by (auto simp: good_def elim: inv_mono)

text \<open>Every way a dispatch settles its node.\<close>

definition settled_good :: "cfg \<Rightarrow> string set \<Rightarrow> string \<Rightarrow> sched \<Rightarrow> bool" where
  "settled_good k H i t \<longleftrightarrow> good k (H - {i}) {} t \<and> is_done (s_g t) i"

lemma settled_goodI:
  assumes "good k H {} s" and "i \<in> undone s"
  shows "settled_good k H i (settle_failed k i r d s)" "settled_good k H i (settle_ok k i p s)"
    "skip_state st \<Longrightarrow> settled_good k H i (settle_skip k i st a s)"
    "settled_good k H i (settle_result k i res x cs s)"
  using good_settle_cheap [OF assms] good_skip [OF assms] good_settle(1,2) [OF assms]
  by (simp_all add: settled_good_def)

lemma settle_sub_entry_good:
  assumes "good k H {} s" and "i \<in> undone s"
  shows "settled_good k H i (settle_sub_entry k i n s)"
proof (cases "map_of (s_scopes s) i")
  case None
  then show ?thesis using assms by (simp add: settle_sub_entry_def settled_goodI)
next
  case (Some a)
  obtain r1 s1 where s1: "bind_scope_slots a (n_bindings (xn_node n)) (xn_env n)
      (sorted_keys (n_bindings (xn_node n))) s = (r1, s1)" by fastforce
  obtain r2 s2 where s2: "bind_scope_edges a (g_data_in (s_g s1) i) s1 = (r2, s2)" by fastforce
  have "good k H {} s1" "good k H {} s2"
    using assms good_bind_slots [OF s1] good_bind_edges [OF s2] by simp_all
  moreover have "i \<in> undone s1" "i \<in> undone s2"
    using assms nodes_bind_scope_slots [OF s1] nodes_bind_scope_edges [OF s2] by (simp_all add: undone_def)
  ultimately show ?thesis
    using Some s1 s2
    by (auto simp: settle_sub_entry_def scope_stopped_def Let_def
        intro!: settled_goodI split: option.splits scope_stop.splits)
qed

lemma resolve_selector_good:
  assumes "good k H {} s" and "i \<in> undone s"
  shows "settled_good k H i (resolve_selector k i n s)"
  using settled_goodI [OF assms]
  by (simp add: resolve_selector_def adopt_candidate_def split: option.splits list.splits sum.splits bool.splits)

lemma agent_fields_alike: "alike n (agent_fields k s n)"
  by (simp add: alike_def)

lemma dispatch_agent_good:
  assumes g: "good k H {} s" and n: "node_of s i = Some n" "xn_life n = Queued"
  shows "good k (H - {i}) {} (dispatch_agent k i n s)"
proof -
  let ?f = "agent_fields k s n"
  let ?s1 = "set_node i ?f s" and ?s2 = "set_node i (?f\<lparr>xn_cached := True\<rparr>) s"
  have g1: "good k H {} ?s1" "good k H {} ?s2"
    using g by (simp_all add: good_alike [OF n(1)] alike_def)
  have u: "i \<in> undone ?s1" "i \<in> undone ?s2"
    using n by (simp_all add: undone_def terminal_def)
  note S1 = settled_goodI [OF g1(1) u(1), unfolded settled_good_def]
  have S2: "good k (H - {i}) {} (settle_result k i res x cs (?s2\<lparr>s_clock := c\<rparr>))" for res x cs c
    using good_settle(1) [of k H "{}" "?s2\<lparr>s_clock := c\<rparr>" i] g1(2) u(2) by (simp add: good_clock)
  have "good k (H - {i}) {} (slot_queued i ?f s)"
    by (rule good_slot_queued) (use g n agent_fields_alike in simp_all)
  then show ?thesis
    using S1 S2 n
    by (cases "agent_gate k s n")
       (simp_all add: dispatch_agent_def Let_def tick_def upd_node_def slot_queued_def, simp add: set_node_def)
qed

lemma dispatch_good:
  assumes g: "good k H {} s" and n: "node_of s i = Some n" "xn_life n = Queued"
  shows "good k (H - {i}) {} (dispatch k i n s)"
proof -
  have u: "i \<in> undone s" using n by (simp add: undone_def terminal_def)
  note S = settled_goodI [OF g u, unfolded settled_good_def]
  have p: "pool_inv k s" using g by (simp add: good_def inv_def)
  have st: "good k (H - {i}) {} (start_worker i w s)" if "worker_id w = i" "box_of w = []" for w
    using core_start [OF _ n(1) _ that(1)] pool_start [OF p that(2)] n(2) g by (simp add: good_core)
  have kind: "good k (H - {i}) {} (dispatch_kind k i n s)"
    using S st settle_sub_entry_good [OF g u, unfolded settled_good_def]
      resolve_selector_good [OF g u, unfolded settled_good_def] dispatch_agent_good [OF g n]
    by (simp add: dispatch_kind_def start_expect_def start_expansion_def worker_id_def box_of_def
        split: option.splits)
  with S show ?thesis
    by (simp add: dispatch_def split: option.splits sum.splits bool.splits)
qed

subsection \<open>Launching\<close>

lemma hold_free:
  assumes "hold_reason k s n = []"
  shows "slot_free k s" "pool_free (gen_pool s n)" "pool_free (lane_pool s n)"
  using assms by (auto simp: hold_reason_def split: if_splits)

lemma counts_take:
  assumes "counts f is ps" and "f i = c" and "pool_free (if c = [] then None else map_of ps c)"
  shows "counts f (is @ [i]) (if c = [] then ps else bump 1 c ps)"
  unfolding counts_def
proof (intro allI impI)
  fix d p
  assume d: "d \<noteq> []" and p: "map_of (if c = [] then ps else bump 1 c ps) d = Some p"
  show "p_used p = int (length (filter (\<lambda>j. f j = d) (is @ [i]))) \<and> (0 < p_max p \<longrightarrow> p_used p \<le> p_max p)"
  proof (cases "d = c")
    case True
    then obtain q where q: "map_of ps c = Some q" "p = q\<lparr>p_used := p_used q + 1\<rparr>"
      using p d by (cases "map_of ps c") (auto simp: bump_def)
    then have "p_used q = int (length (filter (\<lambda>j. f j = c) is))"
      using assms(1) d True by (simp add: counts_def)
    then show ?thesis using q assms(2,3) True d by (auto simp: pool_free_def)
  next
    case False
    then have "map_of ps d = Some p" using p by (auto simp: bump_def split: if_splits option.splits)
    then show ?thesis using assms(1,2) d False by (auto simp: counts_def)
  qed
qed

lemma take_pools_update:
  "take_pools k n s = s\<lparr>s_slots := s_slots s + (if 0 < k_max_par k then 1 else 0),
     s_gen_pools := (if xn_gen n = [] then s_gen_pools s else bump 1 (xn_gen n) (s_gen_pools s)),
     s_lanes := (if lane_of n = [] then s_lanes s else bump 1 (lane_of n) (s_lanes s))\<rparr>"
  by (simp add: take_pools_def take_slot_def Let_def)

lemma start_worker_pools:
  "start_worker i w (s\<lparr>s_slots := a, s_gen_pools := b, s_lanes := c\<rparr>) =
   (start_worker i w s)\<lparr>s_slots := a, s_gen_pools := b, s_lanes := c\<rparr>"
  by (simp add: start_worker_def upd_node_def set_node_def split: option.splits)

lemma good_launch:
  assumes s: "good k H G s" and n: "node_of s i = Some n" "xn_life n = SlotWait"
    and free: "slot_free k s" "pool_free (gen_pool s n)" "pool_free (lane_pool s n)"
  shows "good k (H - {i}) G (launch k i n (take_pools k n s))"
proof -
  let ?w = "WBox (job_of k i n)"
  have t: "launch k i n (take_pools k n s) = (start_worker i ?w s)
     \<lparr>s_slots := s_slots s + (if 0 < k_max_par k then 1 else 0),
      s_gen_pools := (if xn_gen n = [] then s_gen_pools s else bump 1 (xn_gen n) (s_gen_pools s)),
      s_lanes := (if lane_of n = [] then s_lanes s else bump 1 (lane_of n) (s_lanes s))\<rparr>"
    by (simp add: launch_def take_pools_update start_worker_pools)
  have "core (H - {i}) G (start_worker i ?w s)"
    using core_start [OF _ n(1), of H G ?w] s n(2) by (simp add: good_core worker_id_def job_of_def)
  moreover have p: "pool_inv k s" using s by (simp add: good_core)
  note A = lane_gen_attr [OF start_worker_keeps(1) [of i ?w s]]
  have b: "boxes (start_worker i ?w s) = boxes s @ [i]" by (simp add: boxes_start box_of_def job_of_def)
  have at: "gen_at s i = xn_gen n" "lane_at s i = lane_of n" by (simp_all add: gen_at_def lane_at_def n)
  have "pool_inv k (launch k i n (take_pools k n s))"
    unfolding t pool_inv_def pools_frame b
    using p free(1) counts_take [where f = "gen_at s" and i = i and ps = "s_gen_pools s", OF _ at(1), of "boxes s"]
      counts_take [where f = "lane_at s" and i = i and ps = "s_lanes s", OF _ at(2), of "boxes s"] free(2,3)
    by (auto simp: A pool_inv_def slot_free_def gen_pool_def lane_pool_def)
  ultimately show ?thesis by (simp add: good_core t core_pools)
qed

subsection \<open>Draining\<close>

text \<open>Taking the head off a queue.\<close>

lemma core_requeue:
  assumes "core H G s" and "s_g t = s_g s" "books t = books s" "s_workers t = s_workers s"
    "s_outstanding t = s_outstanding s" and "queue_inv K t"
  shows "core K G t"
proof -
  have "gen_at t = gen_at s" by (simp add: gen_at_def assms(2) fun_eq_iff)
  then show ?thesis
    using assms by (simp add: core_def worker_inv_def tag_inv_def journal_inv_def count_inv_def
        with_status_def books_def)
qed

lemma pool_requeue:
  assumes "pool_inv k s" and "s_g t = s_g s" "s_workers t = s_workers s" "s_slots t = s_slots s"
    "s_gen_pools t = s_gen_pools s" "s_lanes t = s_lanes s"
  shows "pool_inv k t"
proof -
  have "gen_at t = gen_at s" "lane_at t = lane_at s" "boxes t = boxes s"
    by (simp_all add: gen_at_def lane_at_def boxes_def assms fun_eq_iff)
  then show ?thesis using assms by (auto simp: pool_inv_def)
qed

lemma good_slotq:
  "good k H G s \<Longrightarrow> queue_inv K (s\<lparr>s_slotq := q\<rparr>) \<Longrightarrow> good k K G (s\<lparr>s_slotq := q\<rparr>)"
  "good k H G s \<Longrightarrow> queue_inv K (s\<lparr>s_ready := q\<rparr>) \<Longrightarrow> good k K G (s\<lparr>s_ready := q\<rparr>)"
  by (simp_all add: good_core core_requeue [of H G s] pool_requeue [of k s] books_def)

lemma good_queue: "good k H G s \<Longrightarrow> queue_inv H s"
  by (simp add: good_core core_def)

lemma good_pop_slot:
  assumes g: "good k H G s" and q: "s_slotq s = i # q"
  shows "good k (insert i H) G (s\<lparr>s_slotq := q\<rparr>)"
    and "\<nexists>st. life_at s i = Some (SlotWait, st) \<Longrightarrow> good k H G (s\<lparr>s_slotq := q\<rparr>)"
  using good_queue [OF g] q
  by (auto intro!: good_slotq [OF g] simp: queue_inv_def found_def) blast+

lemma good_pop_ready:
  assumes g: "good k H G s" and q: "s_ready s = i # q"
  shows "good k (insert i H) G (s\<lparr>s_ready := q\<rparr>)"
    and "\<nexists>st. life_at s i = Some (Queued, st) \<Longrightarrow> good k H G (s\<lparr>s_ready := q\<rparr>)"
  using good_queue [OF g] q
  by (auto intro!: good_slotq [OF g] simp: queue_inv_def found_def) blast+

text \<open>The held nodes wait for a slot, or were launched since.\<close>

lemma waiting_pools [simp]:
  "lane_of (n\<lparr>xn_waiting := w\<rparr>) = lane_of n" "gen_pool s (n\<lparr>xn_waiting := w\<rparr>) = gen_pool s n"
  "lane_pool s (n\<lparr>xn_waiting := w\<rparr>) = lane_pool s n"
  by (simp_all add: lane_of_def gen_pool_def lane_pool_def)

definition waits :: "sched \<Rightarrow> string list \<Rightarrow> bool" where
  "waits s is \<longleftrightarrow> (\<forall>i \<in> set is. \<forall>l st. life_at s i = Some (l, st) \<longrightarrow> l \<noteq> Queued \<and> l \<noteq> Deferred \<and> (l = Running \<longrightarrow> i \<in> worker_id ` set (s_workers s)))"

lemma good_announce: "good k H G (announce_hold k' i n why s) = good k H G s"
proof -
  have "good k H G (upd_node i (\<lambda>n. n\<lparr>xn_waiting := why\<rparr>) s) = good k H G s"
    by (auto simp: upd_node_def alike_def intro!: good_alike split: option.splits)
  then show ?thesis by (simp add: announce_hold_def)
qed

lemma life_announce: "life_at (announce_hold k i n why s) = life_at s"
  by (auto simp: announce_hold_def upd_node_def life_set_node lives_def fun_eq_iff split: option.splits)

lemma workers_announce: "s_workers (announce_hold k i n why s) = s_workers s"
proof -
  have "s_workers (emit k e u) = s_workers u" "s_workers (upd_node i f u) = s_workers u" for e f u
    by (rule frame_sel, simp add: frame_simps)+
  then show ?thesis by (simp add: announce_hold_def)
qed

lemma good_grant:
  "grant k s held p = (t, held', p') \<Longrightarrow> good k (set held) {} s \<Longrightarrow> waits s held \<Longrightarrow>
   good k (set held') {} t \<and> waits t held'"
proof (induction k s held p rule: grant.induct)
  case (1 k s held p)
  show ?case
  proof (cases "s_slotq s")
    case Nil
    then show ?thesis using "1.prems" by (simp add: grant.simps)
  next
    case (Cons i q)
    define s1 where "s1 = s\<lparr>s_slotq := q\<rparr>"
    have l1: "life_at s1 = life_at s" by (simp add: s1_def)
    have w1: "waits s1 held" using "1.prems"(3) by (simp add: waits_def s1_def)
    note pop = good_pop_slot [OF "1.prems"(2) Cons, folded s1_def]
    show ?thesis
    proof (cases "\<not> slot_free k s \<or> s_fatal s \<noteq> None")
      case True
      with Cons "1.prems" show ?thesis by (subst (asm) grant.simps) auto
    next
      case go: False
      note IH = "1.IH" [OF Cons go s1_def]
      show ?thesis
      proof (cases "node_of s i")
        case None
        with Cons go "1.prems" have "grant k s1 held p = (t, held', p')"
          by (subst (asm) grant.simps) (auto simp: s1_def Let_def)
        from IH(1) [OF None this] pop(2) w1 None show ?thesis by (simp add: lives_def)
      next
        case (Some n)
        show ?thesis
        proof (cases "xn_life n = SlotWait")
          case False
          with Cons go Some "1.prems" have "grant k s1 held p = (t, held', p')"
            by (subst (asm) grant.simps) (auto simp: s1_def Let_def)
          from IH(2) [OF Some False this] pop(2) w1 Some False show ?thesis by (simp add: lives_def)
        next
          case sw: True
          have sw2: "\<not> xn_life n \<noteq> SlotWait" using sw by simp
          have li: "life_at s i = Some (SlotWait, xn_status n)" using Some sw by (simp add: lives_def)
          show ?thesis
          proof (cases "hold_reason k s1 n = []")
            case False
            let ?u = "announce_hold k i n (hold_reason k s1 n) s1"
            from False Cons go Some sw "1.prems"
            have "grant k ?u (held @ [i]) p = (t, held', p')"
              by (subst (asm) grant.simps) (auto simp: s1_def Let_def)
            moreover have "good k (set (held @ [i])) {} ?u" using pop(1) by (simp add: good_announce)
            moreover have "waits ?u (held @ [i])" using w1 li by (simp add: waits_def life_announce workers_announce l1)
            ultimately show ?thesis using IH(3) [OF Some sw2 False] by simp
          next
            case True
            define s2 where "s2 = upd_node i (\<lambda>n. n\<lparr>xn_waiting := []\<rparr>) s1"
            define n2 where "n2 = n\<lparr>xn_waiting := []\<rparr>"
            have n1: "node_of s1 i = Some n" using Some by (simp add: s1_def)
            then have s2: "s2 = set_node i n2 s1" by (simp add: s2_def n2_def upd_node_def)
            have g2: "good k (insert i (set held)) {} s2"
              using pop(1) good_alike [OF n1, of n2] by (simp add: s2 n2_def alike_def)
            let ?u = "launch k i n (take_pools k n s2)"
            have "pool_free (gen_pool s2 n)" "pool_free (lane_pool s2 n)" "slot_free k s2"
              using hold_free [OF True]
              by (simp_all add: s2 gen_pool_def lane_pool_def slot_free_def set_node_def split: if_splits)
            then have "good k (insert i (set held) - {i}) {} (launch k i n2 (take_pools k n2 s2))"
              by (intro good_launch [OF g2])
                 (simp_all add: n2_def sw, simp add: s2 n2_def)
            moreover have "launch k i n2 (take_pools k n2 s2) = ?u"
              by (simp add: n2_def launch_def job_of_def take_pools_update cong: if_cong)
            ultimately have gu: "good k (set held) {} ?u" by (auto simp: good_def elim: inv_mono)
            have "life_at ?u j = (if j = i then map_option (\<lambda>(l, st). (Running, st)) (life_at s2 i) else life_at s2 j)" for j
              by (simp add: launch_def life_start_worker take_pools_update)
            moreover have "s_workers ?u = s_workers s1 @ [WBox (job_of k i n)]"
              by (simp add: launch_def start_worker_keeps take_pools_update s2 set_node_def)
            ultimately have "waits ?u held"
              using w1 n1 by (auto simp: waits_def s2 life_set_node n2_def worker_id_def job_of_def)
            moreover from True Cons go Some sw "1.prems" have "grant k ?u held True = (t, held', p')"
              by (subst (asm) grant.simps) (auto simp: s1_def s2_def Let_def)
            ultimately show ?thesis
              using IH(4) [OF Some sw2 _, folded s2_def] True gu by simp
          qed
        qed
      qed
    qed
  qed
qed

lemma set_fold_insort: "set (fold insort xs ys) = set xs \<union> set ys"
  by (induction xs arbitrary: ys) (auto simp: set_insort_key)

lemma good_after_grant:
  assumes "good k (set held) {} s" and "waits s held"
  shows "good k {} {} (after_grant k held s)"
proof -
  define s1 where "s1 = (if slot_free k s then s else case s_slotq s of [] \<Rightarrow> s
     | i # q \<Rightarrow> (case node_of s i of None \<Rightarrow> s
        | Some n \<Rightarrow> if xn_life n = SlotWait then announce_hold k i n (hold_reason k s n) s else s))"
  have g: "good k (set held) {} s1" and l: "life_at s1 = life_at s"
    using assms(1) by (auto simp: s1_def good_announce life_announce split: list.splits option.splits)
  have sw: "s_workers s1 = s_workers s"
    by (auto simp: s1_def workers_announce split: list.splits option.splits)
  have q: "queue_inv (set held) s1" using g by (rule good_queue)
  have "queue_inv {} (s1\<lparr>s_slotq := fold insort held (s_slotq s1)\<rparr>)"
    unfolding queue_inv_def
  proof (intro allI impI)
    fix i x st
    assume "life_at (s1\<lparr>s_slotq := fold insort held (s_slotq s1)\<rparr>) i = Some (x, st)"
    then have a: "life_at s1 i = Some (x, st)" by simp
    then have "found (set held) s1 i x" using q by (simp add: queue_inv_def)
    moreover have "i \<in> set held \<Longrightarrow> x \<noteq> Queued \<and> x \<noteq> Deferred \<and>
        (x = Running \<longrightarrow> i \<in> worker_id ` set (s_workers s1))" using assms(2) a by (auto simp: waits_def l sw)
    ultimately show "found {} (s1\<lparr>s_slotq := fold insort held (s_slotq s1)\<rparr>) i x"
      by (auto simp: found_def set_fold_insort)
  qed
  from good_slotq(1) [OF g this] show ?thesis unfolding after_grant_def Let_def s1_def .
qed

lemma good_ready_loop:
  "ready_loop k s p = (t, p') \<Longrightarrow> good k {} {} s \<Longrightarrow> good k {} {} t"
proof (induction k s p rule: ready_loop.induct)
  case (1 k s p)
  show ?case
  proof (cases "s_ready s")
    case Nil
    then show ?thesis using "1.prems" by (simp add: ready_loop.simps)
  next
    case (Cons i q)
    define s1 where "s1 = s\<lparr>s_ready := q\<rparr>"
    note pop = good_pop_ready [OF "1.prems"(2) Cons, folded s1_def]
    show ?thesis
    proof (cases "s_fatal s \<noteq> None")
      case True
      with Cons "1.prems" show ?thesis by (subst (asm) ready_loop.simps) auto
    next
      case nf: False
      note IH = "1.IH" [OF Cons nf s1_def]
      show ?thesis
      proof (cases "node_of s i")
        case None
        with Cons nf "1.prems" have "ready_loop k s1 p = (t, p')"
          by (subst (asm) ready_loop.simps) (auto simp: s1_def Let_def)
        from IH(1) [OF None this] pop(2) None show ?thesis by (simp add: lives_def)
      next
        case (Some n)
        show ?thesis
        proof (cases "xn_life n = Queued")
          case False
          with Cons nf Some "1.prems" have "ready_loop k s1 p = (t, p')"
            by (subst (asm) ready_loop.simps) (auto simp: s1_def Let_def)
          from IH(2) [OF Some False this] pop(2) Some False show ?thesis by (simp add: lives_def)
        next
          case True
          have "good k {} {} (dispatch k i n s1)"
            using dispatch_good [OF pop(1), of i n] Some True by (simp add: s1_def)
          moreover from True Cons nf Some "1.prems" have "ready_loop k (dispatch k i n s1) True = (t, p')"
            by (subst (asm) ready_loop.simps) (auto simp: s1_def Let_def)
          ultimately show ?thesis using IH(3) [OF Some] True by simp
        qed
      qed
    qed
  qed
qed

lemma good_pause_gate: "pause_gate k s = (b, t) \<Longrightarrow> good k' H G t = good k' H G s"
proof -
  have "good k' H G (s\<lparr>s_probes := m\<rparr>) = good k' H G s"
    "good k' H G (s\<lparr>s_probes := m, s_paused := b\<rparr>) = good k' H G s" for m b
    by (rule good_quiet; simp add: carried_def lists_def books_def)+
  then show "pause_gate k s = (b, t) \<Longrightarrow> good k' H G t = good k' H G s"
    by (auto simp: pause_gate_def Let_def split: option.splits if_splits)
qed

lemma good_drain: "good k {} {} s \<Longrightarrow> good k {} {} (drain k s)"
proof (induction k s rule: drain.induct)
  case (1 k s)
  show ?case
  proof (cases "s_fatal s \<noteq> None")
    case True
    then show ?thesis using "1.prems" by (simp add: drain.simps)
  next
    case nf: False
    obtain b s1 where p: "pause_gate k s = (b, s1)" by fastforce
    have g1: "good k {} {} s1" using good_pause_gate [OF p] "1.prems" by simp
    show ?thesis
    proof (cases b)
      case True
      then show ?thesis using nf p g1 by (simp add: drain.simps)
    next
      case False
      obtain s2 held p1 where gr: "grant k s1 [] False = (s2, held, p1)" by (metis prod_cases3)
      obtain s3 p2 where rl: "ready_loop k (after_grant k held s2) p1 = (s3, p2)" by fastforce
      have "good k (set held) {} s2 \<and> waits s2 held"
        using good_grant [OF gr] g1 by (simp add: waits_def)
      then have g3: "good k {} {} s3" using good_ready_loop [OF rl] good_after_grant by blast
      have "b = False" using False by simp
      then show ?thesis
        using "1.IH" [OF nf p [symmetric] _ gr [symmetric] refl rl [symmetric] _ g3] g3 nf p False gr rl
        by (subst drain.simps) simp
    qed
  qed
qed

end
