(* ===== verification/RunInv.thy ===== *)
theory RunInv
  imports DispatchInv
begin

text \<open>
  Folding events (\<open>step\<close>, \<open>applyExpected\<close>, \<open>applyExpansion\<close> of \<open>pipeline/scheduler.go\<close>) and whole
  executions keep the scheduler's invariant: it holds in every reachable state.
\<close>

subsection \<open>Taking a worker's report\<close>

lemma counts_release:
  assumes c: "counts f (is @ i # js) ps" and "f i = c"
  shows "counts f (is @ js) (if c \<noteq> [] \<and> in_use (map_of ps c) then bump (- 1) c ps else ps)"
  unfolding counts_def
proof (intro allI impI)
  fix d p
  let ?ps = "if c \<noteq> [] \<and> in_use (map_of ps c) then bump (- 1) c ps else ps"
  assume d: "d \<noteq> []" and p: "map_of ?ps d = Some p"
  show "p_used p = int (length (filter (\<lambda>j. f j = d) (is @ js))) \<and> (0 < p_max p \<longrightarrow> p_used p \<le> p_max p)"
  proof (cases "d = c")
    case True
    then obtain q where q: "map_of ps c = Some q"
      using p by (cases "map_of ps c") (auto simp: bump_def split: if_splits)
    have u: "p_used q = int (length (filter (\<lambda>j. f j = c) (is @ i # js)))"
      "0 < p_max q \<longrightarrow> p_used q \<le> p_max q"
      using c d True q by (auto simp: counts_def)
    then have "p = q\<lparr>p_used := p_used q - 1\<rparr>"
      using p q d True assms(2) by (simp add: bump_def in_use_def)
    then show ?thesis using u assms(2) True by auto
  next
    case False
    then have "map_of ps d = Some p" using p by (auto simp: bump_def split: if_splits option.splits)
    then show ?thesis using assms d False by (auto simp: counts_def)
  qed
qed

lemma release_pools_update:
  "release_pools k (Some n) s = s\<lparr>s_slots := (if 0 < k_max_par k \<and> 0 < s_slots s then s_slots s - 1 else s_slots s),
     s_gen_pools := (if xn_gen n \<noteq> [] \<and> in_use (map_of (s_gen_pools s) (xn_gen n))
        then bump (- 1) (xn_gen n) (s_gen_pools s) else s_gen_pools s),
     s_lanes := (if lane_of n \<noteq> [] \<and> in_use (map_of (s_lanes s) (lane_of n))
        then bump (- 1) (lane_of n) (s_lanes s) else s_lanes s)\<rparr>"
  by (simp add: release_pools_def release_slot_def Let_def gen_pool_def lane_pool_def in_use_def)

definition without :: "worker list \<Rightarrow> sched \<Rightarrow> sched" where
  "without ws s = one_less (s\<lparr>s_workers := ws\<rparr>)"

lemma without_sel:
  "s_g (without ws s) = s_g s" "books (without ws s) = books s" "lists (without ws s) = lists s"
  "s_workers (without ws s) = ws" "s_outstanding (without ws s) = s_outstanding s - 1"
  "s_slotq (without ws s) = s_slotq s" "s_timers (without ws s) = s_timers s"
  "s_slots (without ws s) = s_slots s" "s_gen_pools (without ws s) = s_gen_pools s"
  "s_lanes (without ws s) = s_lanes s" "s_ready (without ws s) = s_ready s"
  "s_wait_zero (without ws s) = s_wait_zero s"
  by (simp_all add: without_def one_less_def books_def lists_def)

lemma core_without:
  assumes c: "core {} {} s" and w: "s_workers s = ws @ w # vs"
  shows "core {worker_id w} {} (without (ws @ vs) s)"
proof -
  have q: "queue_inv {} s" and k: "worker_inv s" using c by (simp_all add: core_def)
  have "queue_inv {worker_id w} (without (ws @ vs) s)"
    using q by (auto simp: queue_inv_def found_def without_sel w)
  moreover have "worker_inv (without (ws @ vs) s)"
    using k by (auto simp: worker_inv_def without_sel w)
  moreover have "gen_at (without (ws @ vs) s) = gen_at s" by (simp add: gen_at_def without_sel fun_eq_iff)
  ultimately show ?thesis using c without_sel(2) [of "ws @ vs" s]
    by (simp add: core_def without_sel(1) tag_inv_def journal_inv_def count_inv_def with_status_def books_def)
qed

lemma attr_without: "gen_at (without ws s) = gen_at s" "lane_at (without ws s) = lane_at s"
  by (simp_all add: gen_at_def lane_at_def without_sel fun_eq_iff)

lemma good_without:
  assumes g: "good k {} {} s" and w: "s_workers s = ws @ w # vs" and b: "box_of w = []"
  shows "good k {worker_id w} {} (without (ws @ vs) s)"
proof -
  have "boxes (without (ws @ vs) s) = boxes s" by (simp add: boxes_def without_sel w b)
  then have "pool_inv k (without (ws @ vs) s)"
    using g by (auto simp: good_core pool_inv_def attr_without without_sel)
  then show ?thesis using g core_without [OF _ w] by (simp add: good_core)
qed

lemma good_release:
  assumes g: "good k {} {} s" and w: "s_workers s = ws @ WBox j # vs"
  shows "good k {jb_id j} {} (release_if k True (jb_id j) (without (ws @ vs) s))"
proof -
  let ?i = "jb_id j" and ?s = "without (ws @ vs) s"
  have "worker_inv s" using g by (simp add: good_core core_def)
  then obtain n where n: "node_of s ?i = Some n"
    by (fastforce simp: worker_inv_def w worker_id_def lives_def)
  define t where "t = release_pools k (Some n) ?s"
  have "core {?i} {} ?s" using g core_without [OF _ w] by (simp add: good_core worker_id_def)
  then have "core {?i} {} t" by (simp add: t_def release_pools_update core_pools)
  moreover have p: "pool_inv k s" using g by (simp add: good_core)
  define as where "as = concat (map box_of ws)"
  define bs where "bs = concat (map box_of vs)"
  have b: "boxes s = as @ ?i # bs" by (simp add: boxes_def w box_of_def as_def bs_def)
  have bt: "boxes t = as @ bs"
    by (simp add: t_def release_pools_update pools_frame) (simp add: boxes_def without_sel as_def bs_def)
  have at: "gen_at s ?i = xn_gen n" "lane_at s ?i = lane_of n" by (simp_all add: gen_at_def lane_at_def n)
  have tt: "gen_at t = gen_at s" "lane_at t = lane_at s"
    by (simp_all add: t_def release_pools_update pools_frame attr_without)
  have c: "counts (gen_at s) (as @ ?i # bs) (s_gen_pools s)" "counts (lane_at s) (as @ ?i # bs) (s_lanes s)"
    using p by (simp_all add: pool_inv_def b)
  have "pool_inv k t"
    unfolding pool_inv_def bt tt
    using p counts_release [OF c(1) at(1)] counts_release [OF c(2) at(2)]
    by (auto simp: pool_inv_def b t_def release_pools_update without_sel)
  ultimately show ?thesis using n by (simp add: good_core release_if_def t_def without_sel)
qed

subsection \<open>Folding a settlement or a deferral\<close>

lemma good_finished:
  assumes "good k {i} {} s" and "i \<notin> undone s" and "i \<in> known s"
  shows "good k {} {} s"
  using good_done [OF assms(1), of i] assms(2,3) by (simp add: undone_done)

lemma good_fold_settled:
  assumes g: "good k {i} {} s" and i: "i \<in> known s"
  shows "good k {} {} (fold_settled k i res cs x s)"
proof (cases "i \<in> undone s")
  case True
  then show ?thesis using good_settle(1) [OF g True] by (auto simp: fold_settled_def undone_def)
next
  case False
  then show ?thesis using good_finished [OF g False i] i
    by (auto simp: fold_settled_def undone_def split: option.splits)
qed

lemma good_append:
  assumes "\<And>r. e \<noteq> JResult r"
  shows "good k H G s \<Longrightarrow> good k H G (must_append k' e s)"
proof -
  let ?t = "must_append k' e s"
  have f: "s_g ?t = s_g s" "carried ?t = carried s" "lists ?t = lists s" by simp_all
  have l: "life_at ?t = life_at s" by (simp add: f)
  have at: "attr ?t = attr s" by (rule attr_graph) simp
  have rs: "result_steps [e] = []" using assms by (cases e) auto
  have j: "result_steps (s_journal ?t) = result_steps (s_journal s)"
    "s_fatal s \<noteq> None \<Longrightarrow> s_fatal ?t \<noteq> None" "s_failed ?t = s_failed s" "s_halts ?t = s_halts s"
    using append_books [where k = k' and e = e and s = s] rs by auto
  assume g: "good k H G s"
  then have "journal_inv ?t" "count_inv ?t"
    using j by (auto simp: good_core core_def journal_inv_def count_inv_def with_status_def)
  with g show "good k H G ?t"
    using same_parts(1) [OF l f(2,3)] same_parts(2) [OF l f(2)] same_parts(3,4) [OF l f(2) at]
    by (simp add: good_core core_def)
qed

text \<open>A running node whose worker reported moves on to another unsettled life.\<close>

lemma core_relabel:
  assumes c: "core {i} {} s" and n: "node_of s i = Some n" "xn_life n = Running"
    and m: "xn_life m \<noteq> Done" "xn_gen m = xn_gen n" "xn_node m = xn_node n" "xn_status m = xn_status n"
    and w: "i \<notin> worker_id ` set (s_workers s)"
  shows "core {i} {} (set_node i m s)"
proof -
  let ?t = "set_node i m s"
  have old: "life_at s i = Some (Running, xn_status n)" using n by (simp add: lives_def)
  note F = frame_sel [OF frame_set_node [of i m s]]
  have life: "life_at ?t = (life_at s)(i \<mapsto> (xn_life m, xn_status m))" by (simp add: life_set_node)
  have "queue_inv {i} ?t"
    using c set_node_keeps(1) [of i m s]
    by (auto simp: core_def queue_inv_def found_def life F lists_def)
  moreover have "worker_inv ?t"
    using c w by (auto simp: core_def worker_inv_def life F)
  moreover have "ginv {} (s_g ?t)"
    using c n m ginv_relife [of "{}" s i n m] by (simp add: core_def)
  ultimately show ?thesis
    using core_relife [OF c old _ life m(1) attr_set_node [OF n(1) m(2,3)]] by simp
qed

lemma pool_relabel:
  assumes "pool_inv k s" "node_of s i = Some n" "xn_gen m = xn_gen n" "xn_node m = xn_node n"
  shows "pool_inv k (set_node i m s)"
  using assms lane_gen_attr [OF attr_set_node [OF assms(2,3,4)]] frame_sel [OF frame_set_node [of i m s]]
    frame_boxes [OF frame_set_node [of i m s]]
  by (auto simp: pool_inv_def)

lemma good_relabel:
  assumes "good k {i} {} s" and "node_of s i = Some n" "xn_life n = Running"
    and "xn_life m \<noteq> Done" "xn_gen m = xn_gen n" "xn_node m = xn_node n" "xn_status m = xn_status n"
    and "i \<notin> worker_id ` set (s_workers s)"
  shows "good k {i} {} (set_node i m s)"
  using assms core_relabel [of i s n m] pool_relabel [of k s i n m] by (simp add: good_core)

lemma good_wake: "good k H G s \<Longrightarrow> good k H G (wake_parked s)"
  by (simp add: good_def ginv_wake inv_wake)

lemma queue_drop_exempt:
  assumes "queue_inv {i} s" and "\<And>l st. life_at s i = Some (l, st) \<Longrightarrow> found {} s i l"
  shows "queue_inv {} s"
  using assms by (fastforce simp: queue_inv_def found_def)

lemma good_requeue:
  assumes "good k H G s" "s_g t = s_g s" "books t = books s" "s_workers t = s_workers s"
    "s_outstanding t = s_outstanding s" "s_slots t = s_slots s" "s_gen_pools t = s_gen_pools s"
    "s_lanes t = s_lanes s" "queue_inv K t"
  shows "good k K G t"
  using assms core_requeue [of H G s t K] pool_requeue [of k s t] by (simp add: good_core)

lemma good_fold_deferred:
  assumes g: "good k {i} {} s" and i: "i \<in> known s" and w: "i \<notin> worker_id ` set (s_workers s)"
    and run: "\<And>n. node_of s i = Some n \<Longrightarrow> xn_life n = Running \<or> xn_life n = Done"
  shows "good k {} {} (fold_deferred k i until detail history used costs s)"
proof (cases "i \<in> undone s")
  case False
  then show ?thesis using good_finished [OF g False i] i
    by (auto simp: fold_deferred_def undone_def split: option.splits)
next
  case True
  then obtain n where n: "node_of s i = Some n" "\<not> terminal n" by (auto simp: undone_def)
  then have rn: "xn_life n = Running" using run by (auto simp: terminal_def)
  define now where "now = k_now k (s_clock s)"
  define s1 where "s1 = s\<lparr>s_clock := Suc (s_clock s)\<rparr>"
  define m where "m = n\<lparr>xn_used := xn_used n + used, xn_history := xn_history n @ history,
      xn_costs := xn_costs n @ costs,
      xn_annotations := xn_annotations n @ [deferred_note now until detail], xn_life := Deferred\<rparr>"
  define s2 where "s2 = set_node i m s1"
  define s3 where "s3 = must_append k (JDefer \<lparr>df_step = i, df_until = until, df_detail = detail\<rparr>) s2"
  define s4 where "s4 = emit k ((blank_event EventStepDeferred i)\<lparr>ev_time := now, ev_until := until,
      ev_detail := detail\<rparr>) s3"
  have g1: "good k {i} {} s1" using g by (simp add: s1_def good_clock)
  have g2: "good k {i} {} s2"
    unfolding s2_def by (rule good_relabel [OF g1]) (use n rn w in \<open>simp_all add: s1_def m_def\<close>)
  have g4: "good k {i} {} s4" using good_append [OF _ g2] by (simp add: s4_def s3_def)
  then have q: "queue_inv {i} s4" by (rule good_queue)
  have l4: "life_at s4 i = Some (Deferred, xn_status n)"
    by (simp add: s4_def s3_def s2_def life_set_node m_def)
  have z: "good k {} {} (s4\<lparr>s_wait_zero := s_wait_zero s4 @ [i]\<rparr>)"
  proof (rule good_requeue [OF g4])
    have "queue_inv {i} (s4\<lparr>s_wait_zero := s_wait_zero s4 @ [i]\<rparr>)"
      using q by (auto simp: queue_inv_def found_def)
    then show "queue_inv {} (s4\<lparr>s_wait_zero := s_wait_zero s4 @ [i]\<rparr>)"
      by (rule queue_drop_exempt) (simp add: l4 found_def)
  qed (simp_all add: books_def)
  have t: "good k {} {} (s4\<lparr>s_timers := s_timers s4 @ [i]\<rparr>)"
  proof (rule good_requeue [OF g4])
    have "queue_inv {i} (s4\<lparr>s_timers := s_timers s4 @ [i]\<rparr>)"
      using q by (auto simp: queue_inv_def found_def)
    then show "queue_inv {} (s4\<lparr>s_timers := s_timers s4 @ [i]\<rparr>)"
      by (rule queue_drop_exempt) (simp add: l4 found_def)
  qed (simp_all add: books_def)
  have "fold_deferred k i until detail history used costs s =
      (if until = 0
       then (let s5 = s4\<lparr>s_wait_zero := s_wait_zero s4 @ [i]\<rparr>
             in if s_outstanding s5 = 0 then wake_parked s5 else s5)
       else wake_parked (s4\<lparr>s_timers := s_timers s4 @ [i]\<rparr>))"
    unfolding s4_def s3_def s2_def m_def s1_def now_def
    using n by (simp add: fold_deferred_def tick_def Let_def)
  then show ?thesis using z t good_wake [OF z] good_wake [OF t] by (simp add: Let_def)
qed

subsection \<open>Timers and loop expectations\<close>

lemma good_push_exempt:
  assumes g: "good k {i} {} s" and l: "life_at s i = Some (Deferred, st) \<or> life_at s i = Some (Pending, st) \<and>
      g_indeg (s_g s) i = 0"
  shows "good k {} {} (push i s)"
proof -
  have "ginv {} (s_g (push i s))"
    using g l by (intro ginv_push) (auto simp: good_def)
  moreover have "inv k {} {} (push i s)"
    using g l by (intro inv_push_from [of k "{i}" "{}" s i "{}"]) (auto simp: good_def)
  ultimately show ?thesis by (simp add: good_def)
qed

lemma good_wake_event:
  assumes g: "good k {} {} s" and t: "s_timers s = ts @ i # us"
  shows "good k {} {} (step_event k (EvWake i) (s\<lparr>s_timers := ts @ us\<rparr>))"
proof -
  let ?s = "s\<lparr>s_timers := ts @ us\<rparr>"
  have q: "queue_inv {} s" using g by (rule good_queue)
  have "queue_inv {i} ?s" using q by (auto simp: queue_inv_def found_def t)
  then have g1: "good k {i} {} ?s" by (rule good_requeue [OF g, rotated -1]) (simp_all add: books_def)
  show ?thesis
  proof (cases "\<exists>st. life_at s i = Some (Deferred, st)")
    case True
    then obtain st where "life_at s i = Some (Deferred, st)" by blast
    then have "good k {} {} (push i ?s)" using good_push_exempt [OF g1, of st] by simp
    with True show ?thesis by (auto simp: step_event_def lives_def split: option.splits)
  next
    case False
    then have "queue_inv {} ?s" using q by (fastforce simp: queue_inv_def found_def t)
    then have "good k {} {} ?s" by (rule good_requeue [OF g, rotated -1]) (simp_all add: books_def)
    with False show ?thesis by (auto simp: step_event_def lives_def split: option.splits)
  qed
qed

lemma ginv_pending:
  assumes "ginv P (s_g s)" "node_of s i = Some n" "xn_life n \<noteq> Pending" "xn_life n \<noteq> Done"
  shows "g_indeg (s_g s) i = 0"
  using ginvD(3) [OF assms(1)] assms(2-4) by (auto simp: ready_ok_def)

lemma good_apply_expected:
  assumes g: "good k {i} {} s" and i: "i \<in> known s" and w: "i \<notin> worker_id ` set (s_workers s)"
    and run: "\<And>n. node_of s i = Some n \<Longrightarrow> xn_life n = Running \<or> xn_life n = Done"
  shows "good k {} {} (apply_expected k i loop iter out s)"
proof (cases "i \<in> undone s")
  case False
  then show ?thesis using good_finished [OF g False i] i
    by (auto simp: apply_expected_def undone_def split: option.splits)
next
  case True
  then obtain n where n: "node_of s i = Some n" "\<not> terminal n" by (auto simp: undone_def)
  then have rn: "xn_life n = Running" using run by (auto simp: terminal_def)
  define s1 where "s1 = (if get_or 0 (s_checked s) loop < iter
      then s\<lparr>s_checked := put loop iter (s_checked s)\<rparr> else s)"
  have sg1: "s_g s1 = s_g s" by (simp add: s1_def)
  have g1: "good k {i} {} s1"
    using g good_quiet [of s1 s k "{i}" "{}"] by (simp add: s1_def carried_def lists_def books_def)
  show ?thesis
  proof (cases out)
    case (Inl e)
    have "good k {i} {} (s1\<lparr>s_clock := c\<rparr>)" "i \<in> undone (s1\<lparr>s_clock := c\<rparr>)" for c
      using g1 True by (simp_all add: good_clock undone_def sg1)
    from good_settle(1) [OF this] show ?thesis
      using n Inl by (simp add: apply_expected_def tick_def Let_def flip: s1_def)
  next
    case (Inr count)
    define spec where "spec = get_or no_loop (s_loops s1) loop"
    define s2 where "s2 = emit k ((blank_event EventLoopExpected loop)\<lparr>ev_expected := count,
        ev_cap := l_max spec\<rparr>) (s1\<lparr>s_expected := put loop count (s_expected s1)\<rparr>)"
    define s3 where "s3 = upd_node i (\<lambda>n. n\<lparr>xn_life := Pending\<rparr>) s2"
    have g2: "good k {i} {} s2"
      using g1 good_quiet [of "s1\<lparr>s_expected := put loop count (s_expected s1)\<rparr>" s1 k "{i}" "{}"]
      by (simp add: s2_def carried_def lists_def books_def)
    have sg2: "s_g s2 = s_g s" by (simp add: s2_def sg1)
    have w2: "s_workers s2 = s_workers s"
      using frame_sel(17) [OF frame_emit] by (simp add: s2_def s1_def)
    have n2: "node_of s2 i = Some n" using n by (simp add: sg2)
    then have s3: "s3 = set_node i (n\<lparr>xn_life := Pending\<rparr>) s2" by (simp add: s3_def upd_node_def)
    have g3: "good k {i} {} s3"
      unfolding s3 by (rule good_relabel [OF g2 n2 rn]) (simp_all add: w w2)
    have l3: "life_at s3 i = Some (Pending, xn_status n)" by (simp add: s3 life_set_node)
    have "g_indeg (s_g s) i = 0"
      using ginv_pending [of "{}" s i n] g n rn by (simp add: good_def terminal_def)
    then have z: "g_indeg (s_g s3) i = 0" by (simp add: s3 set_node_def sg2)
    have p: "good k {} {} (push i s3)" using good_push_exempt [OF g3] l3 z by blast
    have "queue_inv {} s3" using queue_drop_exempt [OF good_queue [OF g3]] l3 by (simp add: found_def)
    then have h: "good k {} {} s3" by (rule good_requeue [OF g3, rotated -1]) simp_all
    have "good k {} {} (s3\<lparr>s_paused := True, s_pause_detail := d\<rparr>)" for d
      using h good_quiet [of "s3\<lparr>s_paused := True, s_pause_detail := d\<rparr>" s3 k "{}" "{}"]
      by (simp add: carried_def lists_def books_def)
    then show ?thesis
      using n Inr p h
      by (simp add: apply_expected_def Let_def flip: s1_def)
         (simp add: spec_def [symmetric] s2_def [symmetric] s3_def [symmetric])
  qed
qed

subsection \<open>Splicing\<close>

definition rescoped :: "sched \<Rightarrow> sched \<Rightarrow> bool" where
  "rescoped s t \<longleftrightarrow> (\<exists>sc es. t = s\<lparr>s_scopes := sc, s_g := (s_g s)\<lparr>g_envs := g_envs (s_g s) @ es\<rparr>\<rparr>)"

lemma rescoped_refl: "rescoped s s"
  unfolding rescoped_def by (intro exI [of _ "s_scopes s"] exI [of _ "[]"]) simp

lemma rescoped_trans: "rescoped s t \<Longrightarrow> rescoped t u \<Longrightarrow> rescoped s u"
  unfolding rescoped_def
proof (elim exE)
  fix sc es sc' es'
  assume "t = s\<lparr>s_scopes := sc, s_g := (s_g s)\<lparr>g_envs := g_envs (s_g s) @ es\<rparr>\<rparr>"
    and "u = t\<lparr>s_scopes := sc', s_g := (s_g t)\<lparr>g_envs := g_envs (s_g t) @ es'\<rparr>\<rparr>"
  then show "\<exists>sc es. u = s\<lparr>s_scopes := sc, s_g := (s_g s)\<lparr>g_envs := g_envs (s_g s) @ es\<rparr>\<rparr>"
    by (intro exI [of _ sc'] exI [of _ "es @ es'"]) simp
qed

lemma rescoped_scope: "rescoped s (s\<lparr>s_scopes := m\<rparr>)"
  unfolding rescoped_def by (intro exI [of _ m] exI [of _ "[]"]) simp

lemma rescoped_new_env:
  "new_env e (s_g s) = (a, g1) \<Longrightarrow> rescoped s (s\<lparr>s_g := g1, s_scopes := m\<rparr>)"
  unfolding rescoped_def by (intro exI [of _ m] exI [of _ "[e]"]) (auto simp: new_env_def)

lemma rescoped_fold: "(\<And>n s. n \<in> set ns \<Longrightarrow> rescoped s (f n s)) \<Longrightarrow> rescoped s (fold f ns s)"
  by (induction ns arbitrary: s) (auto intro: rescoped_refl rescoped_trans)

lemma register_scopes_graph: "rescoped s (register_scopes g s)"
proof (induction g s rule: register_scopes.induct)
  case (1 g s)
  show ?case
    unfolding register_scopes.simps [of g s]
  proof (rule rescoped_fold)
    fix n t
    assume n: "n \<in> set (ir_nodes g)"
    have first: "rescoped t (case g_members (s_g t) (n_id n) of
         m # ms \<Rightarrow> (case node_of t m of None \<Rightarrow> t
           | Some mn \<Rightarrow> t\<lparr>s_scopes := put (n_id n) (xn_env mn) (s_scopes t)\<rparr>)
       | [] \<Rightarrow> (case new_env \<lparr>sc_entry = n_id n, sc_params = []\<rparr> (s_g t) of
           (a, g1) \<Rightarrow> t\<lparr>s_g := g1, s_scopes := put (n_id n) a (s_scopes t)\<rparr>))"
      by (auto intro: rescoped_refl rescoped_scope rescoped_new_env split: list.splits option.splits prod.splits)
    show "rescoped t (if n_kind n \<noteq> KindSubWorkflow then t else case n_sub n of None \<Rightarrow> t
        | Some h \<Rightarrow> (let s1 = (case g_members (s_g t) (n_id n) of
             m # ms \<Rightarrow> (case node_of t m of None \<Rightarrow> t
               | Some mn \<Rightarrow> t\<lparr>s_scopes := put (n_id n) (xn_env mn) (s_scopes t)\<rparr>)
           | [] \<Rightarrow> (case new_env \<lparr>sc_entry = n_id n, sc_params = []\<rparr> (s_g t) of
               (a, g1) \<Rightarrow> t\<lparr>s_g := g1, s_scopes := put (n_id n) a (s_scopes t)\<rparr>))
         in register_scopes h s1))"
    proof (cases "n_kind n \<noteq> KindSubWorkflow \<or> n_sub n = None")
      case True
      then show ?thesis by (auto intro: rescoped_refl)
    next
      case False
      then obtain h where h: "n_sub n = Some h" by auto
      from False have k: "\<not> n_kind n \<noteq> KindSubWorkflow" by simp
      from rescoped_trans [OF first "1.IH" [OF n k h refl]] h k show ?thesis by (simp add: Let_def)
    qed
  qed
qed

lemma splices_refl: "ginv P g \<Longrightarrow> splices P [] g g"
  by (simp add: splices_def)

lemma splices_envs: "splices P ids g h \<Longrightarrow> splices P ids g (h\<lparr>g_envs := g_envs h @ es\<rparr>)"
  by (simp add: splices_def grown_envs)

lemma splice_levels_graph:
  "splice_levels chk insts ids s = (e, ids', t) \<Longrightarrow> ginv P (s_g s) \<Longrightarrow> \<forall>inst \<in> set insts. closed_ir (in_ir inst) \<Longrightarrow>
   \<exists>new sc. ids' = ids @ new \<and> t = s\<lparr>s_scopes := sc, s_g := s_g t\<rparr> \<and> splices P new (s_g s) (s_g t) \<and>
     (e = None \<longrightarrow> (\<forall>inst \<in> set insts. subs_in (ir_nodes (in_ir inst)) new))"
proof (induction chk insts ids s rule: splice_levels.induct)
  case (1 chk ids s)
  then show ?case using splices_refl by (intro exI [of _ "[]"] exI [of _ "s_scopes s"]) simp
next
  case (2 chk inst insts ids s)
  obtain a g0 where g0: "new_env \<lparr>sc_entry = [], sc_params = in_params inst\<rparr> (s_g s) = (a, g0)" by fastforce
  have i0: "ginv P g0" and s0: "splices P [] (s_g s) g0"
    using g0 "2.prems"(2) splices_envs [OF splices_refl [OF "2.prems"(2)]] by (auto simp: new_env_def)
  obtain e1 new1 g1 where g1: "add_level chk (in_ir inst) a g0 = (e1, new1, g1)" by (metis prod_cases3)
  have cl: "closed_ir (in_ir inst)" using "2.prems"(3) by simp
  have s1: "splices P new1 g0 g1" and sub1: "e1 = None \<Longrightarrow> subs_in (ir_nodes (in_ir inst)) new1"
    using splices_level(1) [OF g1 cl i0] by auto
  have s01: "splices P new1 (s_g s) g1" using splices_trans [OF s0 s1] by simp
  show ?case
  proof (cases e1)
    case (Some x)
    then show ?thesis using "2.prems"(1) g0 g1 s01
      by (intro exI [of _ new1] exI [of _ "s_scopes s"]) auto
  next
    case None
    define u where "u = register_scopes (in_ir inst) (s\<lparr>s_g := g1\<rparr>)"
    obtain sc es where u: "u = s\<lparr>s_scopes := sc, s_g := g1\<lparr>g_envs := g_envs g1 @ es\<rparr>\<rparr>"
      using register_scopes_graph [of "s\<lparr>s_g := g1\<rparr>" "in_ir inst"] by (auto simp: u_def rescoped_def)
    have su: "splices P new1 (s_g s) (s_g u)" using splices_envs [OF s01] by (simp add: u)
    then have iu: "ginv P (s_g u)" by (simp add: splices_def)
    have r: "splice_levels chk insts (ids @ new1) u = (e, ids', t)"
      using "2.prems"(1) g0 g1 None by (simp add: u_def)
    obtain new sc' where n: "ids' = (ids @ new1) @ new" "t = u\<lparr>s_scopes := sc', s_g := s_g t\<rparr>"
        "splices P new (s_g u) (s_g t)" "e = None \<longrightarrow> (\<forall>inst \<in> set insts. subs_in (ir_nodes (in_ir inst)) new)"
      using "2.IH" [OF g0 [symmetric] g1 [symmetric] None refl, folded u_def, OF r iu] "2.prems"(3) by auto
    have mono: "subs_in ns xs \<Longrightarrow> set xs \<subseteq> set ys \<Longrightarrow> subs_in ns ys" for ns xs ys
      unfolding subs_in_def by (meson subset_trans)
    show ?thesis
    proof (intro exI [of _ "new1 @ new"] exI [of _ sc'] conjI impI ballI)
      show "t = s\<lparr>s_scopes := sc', s_g := s_g t\<rparr>" using n(2) by (simp add: u)
      fix i
      assume "e = None" "i \<in> set (inst # insts)"
      then show "subs_in (ir_nodes (in_ir i)) (new1 @ new)"
        using n(4) sub1 None mono by (auto intro: mono [of _ new1] mono [of _ new])
    qed (use n splices_trans [OF su n(3)] in simp_all)
  qed
qed

text \<open>Growth changes no part: the new nodes are dormant.\<close>

lemma grown_lives:
  assumes "grown ids g h" and "shape_ok h" and "shape_ok g"
  shows "lives h i = (if i \<in> set ids then Some (Pending, []) else lives g i)"
    and "i \<in> set ids \<Longrightarrow> lives g i = None"
proof -
  have new: "set ids \<inter> fst ` set (g_nodes g) = {}" using assms(1) by (simp add: grown_def)
  show n: "i \<in> set ids \<Longrightarrow> lives g i = None"
    using new by (auto simp: lives_def map_of_eq_None_iff)
  show "lives h i = (if i \<in> set ids then Some (Pending, []) else lives g i)"
  proof (cases "i \<in> set ids")
    case True
    then show ?thesis using grown_dormant(1) [OF assms(1) True assms(2)] by (simp add: dormant_def)
  next
    case False
    obtain ns where ns: "g_nodes h = g_nodes g @ ns" "map fst ns = ids" using assms(1) by (auto simp: grown_def)
    then have "map_of ns i = None" using False unfolding map_of_eq_None_iff by (metis list.set_map)
    then have "node_at h i = node_at g i" by (simp add: ns(1) map_add_def split: option.splits)
    then show ?thesis using False by (simp add: lives_def)
  qed
qed

lemma grown_attr:
  assumes "grown ids (s_g s) (s_g t)" and "shape_ok (s_g t)" and "shape_ok (s_g s)"
  shows "gen_at t i = gen_at s i" "i \<in> known s \<Longrightarrow> lane_at t i = lane_at s i"
proof -
  have new: "set ids \<inter> fst ` set (g_nodes (s_g s)) = {}" using assms(1) by (simp add: grown_def)
  have old: "node_of t i = node_of s i" if "i \<notin> set ids" for i
  proof -
    obtain ns where ns: "g_nodes (s_g t) = g_nodes (s_g s) @ ns" "map fst ns = ids" using assms(1) by (auto simp: grown_def)
    then have "map_of ns i = None" using that unfolding map_of_eq_None_iff by (metis list.set_map)
    then show ?thesis by (simp add: ns(1) map_add_def split: option.splits)
  qed
  show "gen_at t i = gen_at s i"
  proof (cases "i \<in> set ids")
    case True
    then have "node_of s i = None" using new by (auto simp: map_of_eq_None_iff)
    then show ?thesis using grown_dormant(2) [OF assms(1) True assms(2)] by (auto simp: gen_at_def)
  next
    case False
    then show ?thesis by (simp add: gen_at_def old)
  qed
  show "i \<in> known s \<Longrightarrow> lane_at t i = lane_at s i"
  proof -
    assume "i \<in> known s"
    then have "i \<notin> set ids" using grown_lives(2) [OF assms] by (auto simp: lives_keys)
    then show ?thesis by (simp add: lane_at_def old)
  qed
qed

lemma boxes_known: "worker_inv s \<Longrightarrow> i \<in> set (boxes s) \<Longrightarrow> i \<in> known s"
proof -
  assume w: "worker_inv s" and "i \<in> set (boxes s)"
  then obtain v where "v \<in> set (s_workers s)" "i \<in> set (box_of v)"
    unfolding boxes_def set_concat list.set_map by blast
  from this(2) have "i = worker_id v" by (cases v) (simp_all add: box_of_def worker_id_def)
  with w \<open>v \<in> set (s_workers s)\<close> show ?thesis by (fastforce simp: worker_inv_def lives_def)
qed

lemma counts_cong:
  "(\<And>i. i \<in> set is \<Longrightarrow> f i = h i) \<Longrightarrow> counts f is ps = counts h is ps"
proof -
  assume "\<And>i. i \<in> set is \<Longrightarrow> f i = h i"
  then have "filter (\<lambda>i. f i = c) is = filter (\<lambda>i. h i = c) is" for c by (intro filter_cong) auto
  then show ?thesis by (simp add: counts_def)
qed

lemma good_grown:
  assumes g: "good k H G s" and sp: "splices {} ids (s_g s) (s_g t)"
    and t: "carried t = carried s" "lists t = lists s" "books t = books s"
  shows "good k H G t"
proof -
  have gr: "grown ids (s_g s) (s_g t)" and it: "ginv {} (s_g t)" using sp by (simp_all add: splices_def)
  have sh: "shape_ok (s_g t)" "shape_ok (s_g s)" using it g ginvD(1) by (auto simp: good_def)
  note L = grown_lives [OF gr sh] and A = grown_attr [OF gr sh] and C = carried_sel [OF t(1)]
  have life: "life_at t i = Some (l, st) \<longleftrightarrow> life_at s i = Some (l, st)" if "l \<noteq> Pending" for i l st
    using L(1) [of i] L(2) [of i] that by auto
  have D: "is_done (s_g t) = is_done (s_g s)" "with_status x t = with_status x s" for x
    by (auto simp: fun_eq_iff lives_done with_status_def life)
  have q: "queue_inv H s" and w: "worker_inv s" and p: "pool_inv k s" using g by (simp_all add: good_core core_def)
  have "queue_inv H t"
    unfolding queue_inv_def
  proof (intro allI impI)
    fix i l st
    assume a: "life_at t i = Some (l, st)"
    show "found H t i l"
    proof (cases "l = Pending")
      case False
      then have "found H s i l" using a q by (simp add: queue_inv_def life)
      then show ?thesis using t(2) by (simp add: found_def C lists_def)
    qed (simp add: found_def)
  qed
  moreover have "worker_inv t"
    unfolding worker_inv_def C
  proof (intro conjI ballI)
    fix v
    assume "v \<in> set (s_workers s)"
    then obtain l st where "life_at s (worker_id v) = Some (l, st)" "l = Running \<or> l = Done"
      using w by (auto simp: worker_inv_def)
    then show "\<exists>l st. life_at t (worker_id v) = Some (l, st) \<and> (l = Running \<or> l = Done)"
      using life [of l] by auto
  qed (use w in \<open>simp_all add: worker_inv_def\<close>)
  moreover have ga: "gen_at t = gen_at s" using A(1) by (simp add: fun_eq_iff)
  have "pool_inv k t"
  proof -
    have "counts (lane_at t) (boxes s) (s_lanes s) = counts (lane_at s) (boxes s) (s_lanes s)"
      using A(2) boxes_known [OF w] by (intro counts_cong) simp
    then show ?thesis using p by (auto simp: pool_inv_def C ga)
  qed
  moreover have "tag_inv G t" "journal_inv t" "count_inv t"
    using g t(3) by (simp_all add: good_core core_def tag_inv_def ga D journal_inv_def count_inv_def books_def)
  ultimately show ?thesis using it by (simp add: good_core core_def)
qed

lemma ginv_add_pairs:
  "ginv P g \<Longrightarrow> \<forall>p \<in> set ps. (\<exists>n. node_at g (fst p) = Some n \<and> \<not> terminal n) \<and>
     (\<exists>n. node_at g (snd p) = Some n \<and> (xn_life n = Pending \<or> xn_life n = Done)) \<Longrightarrow> ginv P (add_pairs ps g)"
proof (induction ps arbitrary: g)
  case (Cons p ps)
  have "ginv P (add_edge (fst p) (snd p) g)" using Cons.prems by (intro ginv_add_edge) auto
  moreover have "\<forall>p' \<in> set ps. (\<exists>n. node_at (add_edge (fst p) (snd p) g) (fst p') = Some n \<and> \<not> terminal n) \<and>
      (\<exists>n. node_at (add_edge (fst p) (snd p) g) (snd p') = Some n \<and> (xn_life n = Pending \<or> xn_life n = Done))"
    using Cons.prems(2) by simp
  ultimately show ?case using Cons.IH by (simp add: add_pairs_def)
qed (simp add: add_pairs_def)

lemma add_pairs_nodes [simp]: "g_nodes (add_pairs ps g) = g_nodes g"
proof -
  have "g_nodes (fold (\<lambda>p. add_edge (fst p) (snd p)) ps g) = g_nodes g"
    by (induction ps arbitrary: g) simp_all
  then show ?thesis by (simp add: add_pairs_def)
qed

lemma good_with_graph:
  assumes g: "good k H G s" and "ginv {} (f (s_g s))" and n: "g_nodes (f (s_g s)) = g_nodes (s_g s)"
  shows "good k H G (with_graph f s)"
proof -
  have "inv k H G (with_graph f s) = inv k H G s"
  proof (rule inv_same)
    show "life_at (with_graph f s) = life_at s" by (rule life_at_eq) (simp add: with_graph_def n)
    show "attr (with_graph f s) = attr s" by (rule attr_nodes) (simp add: with_graph_def n)
  qed (simp_all add: with_graph_def carried_def lists_def books_def)
  with g assms(2) show ?thesis by (simp add: good_def) (simp add: with_graph_def)
qed

text \<open>Tagging the spliced nodes with their generate.\<close>

lemma node_tag_gen:
  "node_of (tag_gen i ids s) x = map_option (\<lambda>n. if x \<in> set ids then n\<lparr>xn_gen := i\<rparr> else n) (node_of s x)"
proof -
  have "node_of (fold (\<lambda>x. upd_node x (\<lambda>n. n\<lparr>xn_gen := i\<rparr>)) ids s) x =
      map_option (\<lambda>n. if x \<in> set ids then n\<lparr>xn_gen := i\<rparr> else n) (node_of s x)"
    by (induction ids arbitrary: s)
       (auto simp: node_upd_node option.map_comp comp_def option.map_id id_def [symmetric] intro!: option.map_cong0)
  then show ?thesis by (simp add: tag_gen_def)
qed

lemma tag_gen_keeps:
  "carried (tag_gen i ids s) = carried s" "lists (tag_gen i ids s) = lists s" "books (tag_gen i ids s) = books s"
  "g_indeg (s_g (tag_gen i ids s)) = g_indeg (s_g s)" "g_done (s_g (tag_gen i ids s)) = g_done (s_g s)"
  "wiring (s_g (tag_gen i ids s)) = wiring (s_g s)"
  "distinct (map fst (g_nodes (s_g (tag_gen i ids s)))) = distinct (map fst (g_nodes (s_g s)))"
proof -
  let ?f = "\<lambda>n :: exec_node. n\<lparr>xn_gen := i\<rparr>"
  have one: "carried (upd_node x ?f s) = carried s" "lists (upd_node x ?f s) = lists s"
    "books (upd_node x ?f s) = books s" "g_indeg (s_g (upd_node x ?f s)) = g_indeg (s_g s)"
    "g_done (s_g (upd_node x ?f s)) = g_done (s_g s)" "wiring (s_g (upd_node x ?f s)) = wiring (s_g s)"
    "map fst (g_nodes (s_g (upd_node x ?f s))) = map fst (g_nodes (s_g s))" for x s
  proof -
    show "map fst (g_nodes (s_g (upd_node x ?f s))) = map fst (g_nodes (s_g s))"
    proof (cases "node_of s x")
      case (Some n)
      then have "x \<in> set (map fst (g_nodes (s_g s)))" by (auto simp: map_of_eq_None_iff dest!: map_of_SomeD intro: rev_image_eqI)
      with Some show ?thesis by (simp add: upd_node_def set_node_def update_keys)
    qed (simp add: upd_node_def)
  qed (auto simp: upd_node_def set_node_def wiring_def carried_def lists_def books_def split: option.splits)
  have all: "carried (fold (\<lambda>x. upd_node x ?f) ids s) = carried s \<and> lists (fold (\<lambda>x. upd_node x ?f) ids s) = lists s \<and>
    books (fold (\<lambda>x. upd_node x ?f) ids s) = books s \<and>
    g_indeg (s_g (fold (\<lambda>x. upd_node x ?f) ids s)) = g_indeg (s_g s) \<and>
    g_done (s_g (fold (\<lambda>x. upd_node x ?f) ids s)) = g_done (s_g s) \<and>
    wiring (s_g (fold (\<lambda>x. upd_node x ?f) ids s)) = wiring (s_g s) \<and>
    map fst (g_nodes (s_g (fold (\<lambda>x. upd_node x ?f) ids s))) = map fst (g_nodes (s_g s))" for s
    by (induction ids arbitrary: s) (simp_all add: one)
  from all [of s] show "carried (tag_gen i ids s) = carried s" "lists (tag_gen i ids s) = lists s"
    "books (tag_gen i ids s) = books s" "g_indeg (s_g (tag_gen i ids s)) = g_indeg (s_g s)"
    "g_done (s_g (tag_gen i ids s)) = g_done (s_g s)" "wiring (s_g (tag_gen i ids s)) = wiring (s_g s)"
    "distinct (map fst (g_nodes (s_g (tag_gen i ids s)))) = distinct (map fst (g_nodes (s_g s)))"
    by (simp_all add: tag_gen_def)
qed

lemma life_tag_gen: "life_at (tag_gen i ids s) = life_at s"
  by (auto simp: lives_def node_tag_gen option.map_comp comp_def fun_eq_iff intro!: option.map_cong0)

lemma good_tag_gen:
  assumes g: "good k H {} s" and nb: "\<And>x. x \<in> set (boxes s) \<Longrightarrow> x \<notin> set ids"
  shows "good k H {i} (tag_gen i ids s)"
proof -
  let ?t = "tag_gen i ids s"
  note K = tag_gen_keeps [of i ids s] and C = carried_sel [OF tag_gen_keeps(1) [of i ids s]]
  have gi: "ginv {} (s_g ?t)"
    using g ginv_cong [of "s_g ?t" "s_g s" "{}"] K life_tag_gen by (simp add: good_def)
  have ga: "gen_at ?t x = (if x \<in> set ids \<and> x \<in> known s then i else gen_at s x)" for x
    by (auto simp: gen_at_def node_tag_gen split: option.splits)
  have la: "lane_at ?t = lane_at s"
    by (auto simp: lane_at_def node_tag_gen lane_of_def fun_eq_iff split: option.splits)
  have D: "is_done (s_g ?t) = is_done (s_g s)" by (simp add: fun_eq_iff lives_done life_tag_gen)
  have "tag_inv {i} ?t" using g by (auto simp: good_core core_def tag_inv_def ga D)
  moreover have "pool_inv k ?t"
  proof -
    have "counts (gen_at ?t) (boxes s) (s_gen_pools s) = counts (gen_at s) (boxes s) (s_gen_pools s)"
      using nb by (intro counts_cong) (simp add: ga)
    then show ?thesis using g by (auto simp: good_core pool_inv_def C la)
  qed
  ultimately show ?thesis
    using g gi same_parts(1,2) [OF life_tag_gen K(1)] same_parts(5,6) [OF life_tag_gen K(1)] K(2,3)
    by (auto simp: good_core core_def)
qed

lemma good_open_pool:
  assumes g: "good k H G s" and nb: "\<And>x. x \<in> set (boxes s) \<Longrightarrow> gen_at s x = i \<Longrightarrow> i = []"
  shows "good k H G (open_gen_pool i n s)"
proof -
  have "filter (\<lambda>x. gen_at s x = i) (boxes s) = []" if "i \<noteq> []"
    using nb that by (auto simp: filter_empty_conv)
  then have c: "counts (gen_at s) (boxes s) (put i \<lparr>p_max = m, p_used = 0\<rparr> (s_gen_pools s))" if "0 < m" for m
    using g that by (auto simp: good_core pool_inv_def counts_def)
  have "good k H G (s\<lparr>s_gen_pools := put i \<lparr>p_max = m, p_used = 0\<rparr> (s_gen_pools s)\<rparr>)" (is "good k H G ?t") if "0 < m" for m
  proof -
    have t: "?t = s\<lparr>s_slots := s_slots s, s_gen_pools := put i \<lparr>p_max = m, p_used = 0\<rparr> (s_gen_pools s),
        s_lanes := s_lanes s\<rparr>" by simp
    have "core H G ?t" using g by (subst t, subst core_pools) (simp add: good_core)
    moreover have "gen_at ?t = gen_at s" "lane_at ?t = lane_at s" "boxes ?t = boxes s" by (subst t, simp only: pools_frame)+
    ultimately show ?thesis using g c [OF that] by (auto simp: good_core pool_inv_def)
  qed
  with g show ?thesis by (simp add: open_gen_pool_def split: option.splits)
qed

lemma good_push_sources:
  assumes "good k H G s"
  shows "good k H G (push_sources ids s)"
proof -
  have one: "good k H G s \<Longrightarrow> good k H G (if g_indeg (s_g s) x = 0 then push x s else s)" for x s
    by (auto simp: good_def intro: ginv_push inv_push)
  have "good k H G s \<Longrightarrow> good k H G (fold (\<lambda>x s. if g_indeg (s_g s) x = 0 then push x s else s) xs s)" for xs s
  proof (induction xs arbitrary: s)
    case (Cons x xs)
    show ?case using Cons.IH [OF one [OF Cons.prems]] by (simp only: fold_simps)
  qed simp
  with assms show ?thesis by (simp add: push_sources_def)
qed

end
