(* ===== verification/ExpandInv.thy ===== *)
theory ExpandInv
  imports RunInv
begin

text \<open>
  A generate's expansion keeps the state invariant (\<open>applyExpansion\<close> of \<open>pipeline/scheduler.go\<close>): on
  success the instances are spliced, ordered, wired before the generate's dependents and pushed; on an
  error the graph is rolled back and the generate fails.
\<close>

subsection \<open>The pairs that are wired\<close>

lemma cross_pairs_set: "set (cross_pairs as bs) = set as \<times> set bs"
  by (auto simp: cross_pairs_def)

lemma inst_by_id_in: "inst_by_id insts i = Some d \<Longrightarrow> d \<in> set insts"
  by (auto simp: inst_by_id_def dest: find_SomeD)

lemma order_pairs_in:
  assumes "\<forall>inst \<in> set insts. subs_in (ir_nodes (in_ir inst)) ids"
  shows "\<forall>p \<in> set (order_pairs insts). fst p \<in> set ids \<and> snd p \<in> set ids"
proof
  fix p
  assume "p \<in> set (order_pairs insts)"
  then obtain inst d where i: "inst \<in> set insts" and "p \<in> set (case inst_by_id insts d of None \<Rightarrow> []
      | Some dj \<Rightarrow> cross_pairs (deep_sinks (in_ir dj)) (level_sources (in_ir inst)))"
    unfolding order_pairs_def by auto
  then obtain dj where dj: "inst_by_id insts d = Some dj"
      and p: "p \<in> set (cross_pairs (deep_sinks (in_ir dj)) (level_sources (in_ir inst)))"
    by (cases "inst_by_id insts d") auto
  have "set (deep_sinks (in_ir dj)) \<subseteq> set ids" using assms inst_by_id_in [OF dj] subs_in_sinks by blast
  moreover have "set (level_sources (in_ir inst)) \<subseteq> set ids"
    using assms i level_sources_ids by (fastforce simp: subs_in_def)
  ultimately show "fst p \<in> set ids \<and> snd p \<in> set ids" using p unfolding cross_pairs_set by auto
qed

lemma rewire_pairs_in:
  assumes "\<forall>inst \<in> set insts. subs_in (ir_nodes (in_ir inst)) ids"
  shows "\<forall>p \<in> set (rewire_pairs insts ds). fst p \<in> set ids \<and> snd p \<in> set ds"
  using assms subs_in_sinks by (fastforce simp: rewire_pairs_def cross_pairs_set)

text \<open>A dependent of an unsettled node is pending or settled.\<close>

lemma dependents_wait:
  assumes g: "ginv {} g" and a: "\<not> is_done g a" and d: "d \<in> set (succs g a)"
  shows "\<exists>n. node_at g d = Some n \<and> (xn_life n = Pending \<or> xn_life n = Done)"
proof -
  obtain n where n: "node_at g d = Some n" using shape_known(2) [OF ginvD(1) [OF g] d] by blast
  have "a \<in> open_preds {} g d" using a d by (simp add: open_preds_def)
  then have "card (open_preds {} g d) \<noteq> 0" by (metis card_0_eq empty_iff finite_open_preds)
  then have "g_indeg g d \<noteq> 0" using g by (simp add: ginv_def counted_def)
  then show ?thesis using n g by (auto simp: ginv_def ready_ok_def)
qed

subsection \<open>Rolling a failed splice back\<close>

lemma good_rollback:
  assumes g: "good k H G s" and sp: "splices {} ids (s_g s) h"
  shows "good k H G (with_graph (remove_ids ids) (s\<lparr>s_scopes := sc, s_g := h\<rparr>))"
proof -
  have "grown ids (s_g s) h" "shape_ok (s_g s)" "shape_ok h"
    using sp g ginvD(1) by (auto simp: splices_def good_def)
  then have r: "remove_ids ids h = (s_g s)\<lparr>g_envs := g_envs h\<rparr>" by (rule grown_remove)
  have "good k H G (s\<lparr>s_scopes := sc, s_g := (s_g s)\<lparr>g_envs := es\<rparr>\<rparr>) =
      good k H G (s\<lparr>s_g := (s_g s)\<lparr>g_envs := es\<rparr>\<rparr>)" for es
    by (rule good_quiet) (simp_all add: carried_def lists_def books_def)
  then show ?thesis using g by (simp add: with_graph_def r good_envs)
qed

subsection \<open>A successful splice\<close>

lemma open_gen_pool_graph [simp]: "s_g (open_gen_pool i nd s) = s_g s"
  by (simp add: open_gen_pool_def split: option.splits)

lemma splice_loops_graph [simp]: "s_g (splice_loops i insts s) = s_g s"
  by (simp add: splice_loops_def)

lemma good_splice_loops: "good k H G (splice_loops i insts s) = good k H G s"
  by (rule good_quiet) (simp_all add: splice_loops_def carried_def lists_def books_def)

lemma with_graph_graph [simp]: "s_g (with_graph f s) = f (s_g s)"
  by (simp add: with_graph_def)

lemma good_splice_tagged:
  assumes g: "good k H {} s" and i: "i \<in> undone s"
    and sp: "splices {} ids (s_g s) h"
  shows "good k H {i} (open_gen_pool i nd (tag_gen i ids (s\<lparr>s_scopes := sc, s_g := h\<rparr>)))"
    and "i \<in> undone (tag_gen i ids (s\<lparr>s_scopes := sc, s_g := h\<rparr>))"
    and "x \<in> set ids \<Longrightarrow> x \<in> undone (tag_gen i ids (s\<lparr>s_scopes := sc, s_g := h\<rparr>))"
proof -
  define s1 where "s1 = s\<lparr>s_scopes := sc, s_g := h\<rparr>"
  have gr: "grown ids (s_g s) (s_g s1)" and sh: "shape_ok (s_g s1)" "shape_ok (s_g s)"
    using sp g ginvD(1) by (auto simp: splices_def good_def s1_def)
  note L = grown_lives [OF gr sh]
  have g1: "good k H {} s1"
    by (rule good_grown [OF g, of ids]) (simp_all add: s1_def sp carried_def lists_def books_def)
  have w: "worker_inv s" "tag_inv {} s" using g by (simp_all add: good_core core_def)
  have b: "boxes s1 = boxes s" by (simp add: boxes_def s1_def)
  have old: "y \<notin> set ids" if "y \<in> set (boxes s)" for y
    using boxes_known [OF w(1) that] L(2) [of y] by (auto simp: lives_keys)
  have gt: "good k H {i} (tag_gen i ids s1)" by (rule good_tag_gen [OF g1]) (simp add: b old)
  have ik: "i \<notin> set ids" using i L(2) [of i] by (auto simp: undone_done lives_keys)
  have un: "y \<in> undone (tag_gen i ids s1) \<longleftrightarrow> y \<in> undone s \<or> y \<in> set ids" for y
    unfolding undone_done lives_done lives_keys using life_tag_gen [of i ids s1] L by auto
  have op: "good k H {i} (open_gen_pool i nd (tag_gen i ids s1))"
  proof (rule good_open_pool [OF gt])
    fix x
    assume x: "x \<in> set (boxes (tag_gen i ids s1))" and e: "gen_at (tag_gen i ids s1) x = i"
    have "boxes (tag_gen i ids s1) = boxes s1"
      using carried_sel [OF tag_gen_keeps(1) [of i ids s1]] by (simp add: boxes_def)
    then have xb: "x \<in> set (boxes s)" using x b by simp
    have "gen_at (tag_gen i ids s1) x = gen_at s1 x"
      using old [OF xb] by (cases "node_of s1 x") (simp_all add: gen_at_def node_tag_gen)
    also have "\<dots> = gen_at s x" using grown_attr(1) [OF gr sh] .
    finally show "i = []" using w(2) i e by (auto simp: tag_inv_def undone_done)
  qed
  then show "good k H {i} (open_gen_pool i nd (tag_gen i ids (s\<lparr>s_scopes := sc, s_g := h\<rparr>)))"
    by (simp add: s1_def)
  show "i \<in> undone (tag_gen i ids (s\<lparr>s_scopes := sc, s_g := h\<rparr>))"
    "x \<in> set ids \<Longrightarrow> x \<in> undone (tag_gen i ids (s\<lparr>s_scopes := sc, s_g := h\<rparr>))"
    using un i by (simp_all add: s1_def)
qed

lemma undone_nodes: "g_nodes (s_g s) = g_nodes (s_g t) \<Longrightarrow> undone s = undone t"
  by (simp add: undone_def)

lemma good_wire:
  assumes g: "good k H G s" and "\<forall>p \<in> set ps. fst p \<in> undone s \<and>
     (\<exists>n. node_of s (snd p) = Some n \<and> (xn_life n = Pending \<or> xn_life n = Done))"
  shows "good k H G (with_graph (add_pairs ps) s)"
proof (rule good_with_graph [OF g])
  have "ginv {} (s_g s)" using g by (simp add: good_def)
  moreover have "\<forall>p \<in> set ps. (\<exists>n. node_of s (fst p) = Some n \<and> \<not> terminal n) \<and>
     (\<exists>n. node_of s (snd p) = Some n \<and> (xn_life n = Pending \<or> xn_life n = Done))"
    using assms(2) by (auto simp: undone_def)
  ultimately show "ginv {} (add_pairs ps (s_g s))" by (rule ginv_add_pairs)
qed simp

lemma push_sources_undone: "good k H G s \<Longrightarrow> i \<in> undone s \<Longrightarrow> i \<in> undone (push_sources ids s)"
proof -
  assume "i \<in> undone s"
  have "undone (fold (\<lambda>x s. if g_indeg (s_g s) x = 0 then push x s else s) xs s) = undone s" for xs s
    by (induction xs arbitrary: s) (simp_all add: undone_requeues [OF only_requeues_push])
  then show ?thesis using \<open>i \<in> undone s\<close> by (simp add: push_sources_def)
qed

subsection \<open>The expansion\<close>

lemma good_expanded_graph:
  assumes g: "good k H {} s" and i: "i \<in> undone s" and sp: "splices {} ids (s_g s) h"
    and sub: "\<forall>inst \<in> set insts. subs_in (ir_nodes (in_ir inst)) ids"
    and s2: "s2 = splice_loops i insts (open_gen_pool i nd (tag_gen i ids (s\<lparr>s_scopes := sc, s_g := h\<rparr>)))"
    and s3: "s3 = with_graph (add_pairs (order_pairs insts)) s2"
    and s4: "s4 = with_graph (add_pairs (rewire_pairs insts (succs (s_g s3) i))) s3"
  shows "good k H {i} s4" "i \<in> undone s4"
proof -
  note T = good_splice_tagged [OF g i sp]
  have u2: "undone s2 = undone (tag_gen i ids (s\<lparr>s_scopes := sc, s_g := h\<rparr>))"
    unfolding s2 by (rule undone_nodes) simp
  have g2: "good k H {i} s2" using T(1) by (simp add: s2 good_splice_loops)
  have new: "x \<in> undone s2 \<and> (\<exists>n. node_of s2 x = Some n \<and> (xn_life n = Pending \<or> xn_life n = Done))"
    if "x \<in> set ids" for x
  proof -
    have "grown ids (s_g s) h" "shape_ok h" using sp ginvD(1) by (auto simp: splices_def)
    from grown_dormant(2) [OF this(1) that this(2)] obtain n where "node_at h x = Some n" "xn_life n = Pending" by blast
    then have "\<exists>n. node_of s2 x = Some n \<and> xn_life n = Pending"
      by (simp add: s2 node_tag_gen)
    with T(3) [OF that] show ?thesis by (auto simp: u2)
  qed
  have g3: "good k H {i} s3"
    unfolding s3 by (rule good_wire [OF g2]) (use order_pairs_in [OF sub] new in blast)
  have u3: "undone s3 = undone s2" unfolding s3 by (rule undone_nodes) simp
  have "i \<in> undone s3" using T(2) by (simp add: u2 u3)
  then have "\<not> is_done (s_g s3) i" by (simp add: undone_done)
  then have "\<exists>n. node_of s3 d = Some n \<and> (xn_life n = Pending \<or> xn_life n = Done)" if "d \<in> set (succs (s_g s3) i)" for d
    using dependents_wait [OF _ _ that] g3 by (simp add: good_def)
  then show "good k H {i} s4"
    unfolding s4 by (intro good_wire [OF g3]) (use rewire_pairs_in [OF sub] new u3 in blast)
  have "undone s4 = undone s3" unfolding s4 by (rule undone_nodes) simp
  then show "i \<in> undone s4" using T(2) by (simp add: u2 u3)
qed

lemma good_apply_expansion:
  assumes g: "good k {i} {} s" and i: "i \<in> known s"
    and cl: "\<And>insts. out = Inr insts \<Longrightarrow> \<forall>inst \<in> set insts. closed_ir (in_ir inst)"
  shows "good k {} {} (apply_expansion k i out s)"
proof (cases "i \<in> undone s")
  case False
  then show ?thesis using good_finished [OF g False i]
    by (auto simp: apply_expansion_def undone_def split: option.splits)
next
  case True
  then obtain n where n: "node_of s i = Some n" "\<not> terminal n" by (auto simp: undone_def)
  show ?thesis
  proof (cases out)
    case (Inl e)
    then show ?thesis using n True g good_settle(1) [of k "{i}" "{}" "s\<lparr>s_clock := Suc (s_clock s)\<rparr>" i]
      by (simp add: apply_expansion_def tick_def good_clock)
  next
    case (Inr insts)
    obtain e ids t where sl: "splice_levels (k_chk k) insts [] s = (e, ids, t)" by (metis prod_cases3)
    obtain sc h where t: "t = s\<lparr>s_scopes := sc, s_g := h\<rparr>" and sp: "splices {} ids (s_g s) h"
        and sub: "e = None \<Longrightarrow> \<forall>inst \<in> set insts. subs_in (ir_nodes (in_ir inst)) ids"
      using splice_levels_graph [OF sl, of "{}"] g cl [OF Inr] by (auto simp: good_def)
    show ?thesis
    proof (cases e)
      case (Some d)
      let ?u = "with_graph (remove_ids ids) t"
      have gu: "good k {i} {} ?u" unfolding t by (rule good_rollback [OF g sp])
      have "grown ids (s_g s) h" "shape_ok (s_g s)" "shape_ok h"
        using sp g ginvD(1) by (auto simp: splices_def good_def)
      then have "remove_ids ids h = (s_g s)\<lparr>g_envs := g_envs h\<rparr>" by (rule grown_remove)
      then have "undone ?u = undone s" by (intro undone_nodes) (simp add: t)
      then show ?thesis using good_settle_cheap(1) [OF gu, where i = i] n True by (simp add: apply_expansion_def Inr sl Some)
    next
      case None
      define s2 where "s2 = splice_loops i insts (open_gen_pool i n (tag_gen i ids t))"
      define s3 where "s3 = with_graph (add_pairs (order_pairs insts)) s2"
      define s4 where "s4 = with_graph (add_pairs (rewire_pairs insts (succs (s_g s3) i))) s3"
      have g4: "good k {i} {i} s4" "i \<in> undone s4"
        by (rule good_expanded_graph [OF g True sp sub [OF None] s2_def [unfolded t] s3_def s4_def])+
      note g5 = good_push_sources [OF g4(1)] push_sources_undone [OF g4]
      let ?ev = "(blank_event EventGenerateExpanded i)\<lparr>ev_items := int (length insts), ev_nodes := int (length ids),
          ev_loops := fold note_loop_bounds (sort ids) []\<rparr>"
      have "i \<in> undone (emit k ?ev (push_sources ids s4))" using g5(2) by (simp add: undone_def)
      moreover have "good k {i} {i} (emit k ?ev (push_sources ids s4))" using g5(1) by simp
      ultimately have "good k {} {} (settle_ok k i (Some (generate_payload insts)) (emit k ?ev (push_sources ids s4)))"
        using good_settle_cheap(3) [of k "{i}" "{i}" _ i] by simp
      then show ?thesis
        using n by (simp add: apply_expansion_def Inr sl None s4_def s3_def s2_def)
    qed
  qed
qed

end
