(* ===== verification/ReachInv.thy ===== *)
theory ReachInv
  imports ExpandInv
begin

text \<open>
  The state invariant holds in every state an execution reaches, for a closed graph and closed
  generate targets: renaming and cloning a target keeps it closed, and every step of the main loop
  keeps the invariant.
\<close>

subsection \<open>Instances of a closed target are closed\<close>

definition conds_in :: "node \<Rightarrow> string set \<Rightarrow> bool" where
  "conds_in n ids \<longleftrightarrow> (\<forall>c \<in> set (node_conds n). set (c_deps c) \<subseteq> ids)"

lemma closed_ir_iff:
  "closed_ir g \<longleftrightarrow>
     (\<forall>e \<in> set (ir_edges g). e_from e \<in> n_id ` set (ir_nodes g) \<and> e_to e \<in> n_id ` set (ir_nodes g)) \<and>
     (\<forall>n \<in> set (ir_nodes g). conds_in n (n_id ` set (ir_nodes g)) \<and> (\<forall>h. n_sub n = Some h \<longrightarrow> closed_ir h))"
proof -
  have "(\<forall>p \<in> set (level_edges g). fst p \<in> ids \<and> snd p \<in> ids) \<longleftrightarrow>
      (\<forall>e \<in> set (ir_edges g). e_from e \<in> ids \<and> e_to e \<in> ids) \<and>
      (\<forall>n \<in> set (ir_nodes g). \<forall>c \<in> set (node_conds n). \<forall>d \<in> set (c_deps c). d \<in> ids \<and> n_id n \<in> ids)" for ids
    by (simp add: level_edges_def ball_Un)
  then show ?thesis
    unfolding closed_ir.simps [of g] by (simp add: conds_in_def subset_iff split: option.split) blast
qed

lemma closed_irD:
  assumes "closed_ir g"
  shows "e \<in> set (ir_edges g) \<Longrightarrow> e_from e \<in> n_id ` set (ir_nodes g)"
    and "e \<in> set (ir_edges g) \<Longrightarrow> e_to e \<in> n_id ` set (ir_nodes g)"
    and "n \<in> set (ir_nodes g) \<Longrightarrow> conds_in n (n_id ` set (ir_nodes g))"
    and "n \<in> set (ir_nodes g) \<Longrightarrow> n_sub n = Some h \<Longrightarrow> closed_ir h"
  using assms unfolding closed_ir_iff [of g] by blast+

lemma all_some_rel: "all_some f xs = Some ys \<Longrightarrow> list_all2 (\<lambda>x y. f x = Some y) xs ys"
proof (induction xs arbitrary: ys)
  case (Cons x xs)
  then show ?case by (cases "f x"; cases "all_some f xs") auto
qed simp

lemma list_all2_images:
  "list_all2 R xs ys \<Longrightarrow> (\<And>x y. R x y \<Longrightarrow> f x = g y) \<Longrightarrow> f ` set xs = g ` set ys"
  by (induction xs ys rule: list_all2_induct) auto

lemma list_all2_right: "list_all2 R xs ys \<Longrightarrow> y \<in> set ys \<Longrightarrow> \<exists>x \<in> set xs. R x y"
  by (induction xs ys rule: list_all2_induct) auto

text \<open>What a clone keeps of a node.\<close>

definition clone_of :: "(string \<Rightarrow> f64 option) \<Rightarrow> node \<Rightarrow> node \<Rightarrow> bool" where
  "clone_of pf n m \<longleftrightarrow> n_id m = n_id n \<and> node_conds m = node_conds n \<and>
     (case n_sub n of None \<Rightarrow> n_sub m = None | Some h \<Rightarrow> \<exists>h'. clone_ir pf h = Some h' \<and> n_sub m = Some h')"

lemma clone_ir_parts:
  assumes "clone_ir pf g = Some c"
  shows "ir_edges c = ir_edges g" "list_all2 (clone_of pf) (ir_nodes g) (ir_nodes c)"
proof -
  show "ir_edges c = ir_edges g" using assms by (auto simp: clone_ir.simps [of pf g])
  have "list_all2 (\<lambda>n m. (case (clone_map (clone_binding pf) (n_bindings n), opt_map (clone_template pf) (n_template n),
                 opt_map (clone_gen pf) (n_gen n),
                 (case n_sub n of None \<Rightarrow> Some None | Some h \<Rightarrow> map_option Some (clone_ir pf h))) of
             (Some b, Some t, Some ge, Some h) \<Rightarrow>
               Some (Node (n_id n) (n_kind n) t h ge (n_sel n) b (n_when n) (n_retry n)
                       (n_on_failure n) (n_tools n))
           | _ \<Rightarrow> None) = Some m) (ir_nodes g) (ir_nodes c)"
    using assms by (auto simp: clone_ir.simps [of pf g] dest: all_some_rel)
  then show "list_all2 (clone_of pf) (ir_nodes g) (ir_nodes c)"
    by (rule list_all2_mono) (auto simp: clone_of_def node_conds_def split: option.splits)
qed

lemma closed_clone: "closed_ir g \<Longrightarrow> clone_ir pf g = Some c \<Longrightarrow> closed_ir c"
proof (induction g arbitrary: c rule: closed_ir.induct)
  case (1 g)
  note P = clone_ir_parts [OF "1.prems"(2)]
  have ids: "n_id ` set (ir_nodes c) = n_id ` set (ir_nodes g)"
    by (rule sym, rule list_all2_images [OF P(2)]) (simp add: clone_of_def)
  show ?case
    unfolding closed_ir_iff [of c] ids P(1)
  proof (intro conjI ballI allI impI)
    fix m
    assume "m \<in> set (ir_nodes c)"
    then obtain n where n: "n \<in> set (ir_nodes g)" "clone_of pf n m" using list_all2_right [OF P(2)] by blast
    show "conds_in m (n_id ` set (ir_nodes g))"
      using closed_irD(3) [OF "1.prems"(1) n(1)] n(2) by (simp add: clone_of_def conds_in_def)
    fix h'
    assume "n_sub m = Some h'"
    then obtain h where "n_sub n = Some h" "clone_ir pf h = Some h'" using n(2) by (auto simp: clone_of_def split: option.splits)
    then show "closed_ir h'" using "1.IH" [OF n(1)] closed_irD(4) [OF "1.prems"(1) n(1)] by blast
  qed (use closed_irD [OF "1.prems"(1)] in blast)+
qed

lemma rename_node_parts:
  assumes "m \<in> set (ir_nodes (rename_ir f old new g))"
  obtains n where "n \<in> set (ir_nodes g)" "n_id m = f (n_id n)" "n_sub m = map_option (rename_ir f old new) (n_sub n)"
    "node_conds m = map (rename_cond f old new) (node_conds n)"
proof -
  obtain n where n: "n \<in> set (ir_nodes g)" and m: "m = Node (f (n_id n)) (n_kind n) (n_template n)
      (case n_sub n of None \<Rightarrow> None | Some h \<Rightarrow> Some (rename_ir f old new h)) (n_gen n)
      (map_option (rename_sel f old new) (n_sel n)) (n_bindings n) (map_option (rename_cond f old new) (n_when n))
      (n_retry n) (n_on_failure n) (n_tools n)"
    using assms by (auto simp: rename_ir.simps [of f old new g])
  show ?thesis
    by (rule that [OF n]) (simp_all add: m node_conds_def rename_sel_def split: option.split)
qed

lemma closed_rename: "closed_ir g \<Longrightarrow> closed_ir (rename_ir f old new g)"
proof (induction g rule: closed_ir.induct)
  case (1 g)
  have "f ` n_id ` set (ir_nodes g) = n_id ` set (ir_nodes (rename_ir f old new g))"
    by (simp add: rename_ir.simps [of f old new g] image_image)
  then have ids: "n_id ` set (ir_nodes (rename_ir f old new g)) = f ` n_id ` set (ir_nodes g)" ..
  show ?case
    unfolding closed_ir_iff [of "rename_ir f old new g"] ids
  proof (intro conjI ballI allI impI)
    fix e
    assume "e \<in> set (ir_edges (rename_ir f old new g))"
    then show "e_from e \<in> f ` n_id ` set (ir_nodes g)" "e_to e \<in> f ` n_id ` set (ir_nodes g)"
      using closed_irD(1,2) [OF "1.prems"] by (auto simp: rename_ir.simps [of f old new g])
  next
    fix m
    assume "m \<in> set (ir_nodes (rename_ir f old new g))"
    then obtain n where n: "n \<in> set (ir_nodes g)"
        and m: "n_sub m = map_option (rename_ir f old new) (n_sub n)"
          "node_conds m = map (rename_cond f old new) (node_conds n)"
      using rename_node_parts by blast
    show "conds_in m (f ` n_id ` set (ir_nodes g))"
      using closed_irD(3) [OF "1.prems" n] by (fastforce simp: conds_in_def m(2) rename_cond_def)
    fix h
    assume "n_sub m = Some h"
    then obtain h0 where "n_sub n = Some h0" "h = rename_ir f old new h0" using m(1) by auto
    then show "closed_ir h" using "1.IH" [OF n] closed_irD(4) [OF "1.prems" n] by blast
  qed
qed

lemma map_sum_eq_Inr: "map_sum id f x = Inr y \<longleftrightarrow> (\<exists>z. x = Inr z \<and> y = f z)"
  by (cases x) auto

lemma closed_instances:
  "instantiate pf nid gen target ins params items = Inr insts \<Longrightarrow> closed_ir target \<Longrightarrow>
     \<forall>inst \<in> set insts. closed_ir (in_ir inst)"
proof (induction pf nid gen target ins params items arbitrary: insts rule: instantiate.induct)
  case (2 pf nid gen target ins params it its)
  then show ?case
    by (auto simp: clone_renamed_ir_def closed_rename closed_clone map_sum_eq_Inr split: sum.splits option.splits)
qed simp

lemma expand_closed:
  assumes "expand r pf ff fj irs n ps = Inr insts" and "\<forall>p \<in> set irs. closed_ir (snd p)"
  shows "\<forall>inst \<in> set insts. closed_ir (in_ir inst)"
proof -
  have t: "map_of irs w = Some g \<Longrightarrow> closed_ir g" for w g using assms(2) map_of_SomeD by fastforce
  show ?thesis
    using assms(1) t closed_instances
    by (auto simp: expand_def Let_def split: option.splits sum.splits if_splits)
qed

subsection \<open>The state a run starts from\<close>

lemma good_rescoped: "rescoped s t \<Longrightarrow> good k H G s \<Longrightarrow> good k H G t"
proof -
  assume "good k H G s"
  have q: "good k H G (s\<lparr>s_scopes := sc, s_g := (s_g s)\<lparr>g_envs := es\<rparr>\<rparr>) =
      good k H G (s\<lparr>s_g := (s_g s)\<lparr>g_envs := es\<rparr>\<rparr>)" for sc es
    by (rule good_quiet) (simp_all add: carried_def lists_def books_def)
  assume "rescoped s t"
  then show ?thesis using q \<open>good k H G s\<close> by (auto simp: rescoped_def good_envs)
qed

lemma good_blank: "good k {} {} (blank_sched (new_graph\<lparr>g_envs := es\<rparr>) i)"
proof -
  let ?s = "blank_sched (new_graph\<lparr>g_envs := es\<rparr>) i"
  have l: "life_at ?s = (\<lambda>_. None)" by (simp add: blank_sched_def lives_def new_graph_def fun_eq_iff)
  then have d: "\<not> is_done (s_g ?s) x" for x by (simp add: lives_done)
  have "ginv {} (s_g ?s)" by (simp add: blank_sched_def)
  moreover have "queue_inv {} ?s" by (simp add: queue_inv_def l)
  moreover have "worker_inv ?s" by (simp add: worker_inv_def blank_sched_def)
  moreover have "pool_inv k ?s"
    by (auto simp: pool_inv_def counts_def blank_sched_def boxes_def lane_pools_def dest!: map_of_SomeD)
  moreover have "tag_inv {} ?s" by (simp add: tag_inv_def gen_at_def blank_sched_def new_graph_def)
  moreover have "journal_inv ?s" using d by (simp add: journal_inv_def blank_sched_def)
  moreover have "count_inv ?s" by (simp add: count_inv_def with_status_def l) (simp add: blank_sched_def)
  ultimately show ?thesis by (simp add: good_def inv_def)
qed

lemma setup_graph:
  assumes s: "run_setup k r = Inr s" and c: "closed_ir (rp_ir r)"
  obtains ids es g1 where "splices {} ids (new_graph\<lparr>g_envs := es\<rparr>) g1"
    "s = emit k ((blank_event EventRunStarted [])\<lparr>ev_run := rp_run r,
       ev_workflow := ir_workflow (rp_ir r), ev_loops := loop_bounds (rp_ir r)\<rparr>)
       (register_scopes (rp_ir r) (blank_sched g1 (rp_ir r)))"
proof -
  obtain a g where e: "new_env \<lparr>sc_entry = [], sc_params = rp_params r\<rparr> new_graph = (a, g)" by fastforce
  obtain ids g1 where l: "add_level (k_chk k) (rp_ir r) a g = (None, ids, g1)"
      and t: "s = emit k ((blank_event EventRunStarted [])\<lparr>ev_run := rp_run r,
                  ev_workflow := ir_workflow (rp_ir r), ev_loops := loop_bounds (rp_ir r)\<rparr>)
                (register_scopes (rp_ir r) (blank_sched g1 (rp_ir r)))"
    using s by (cases "add_level (k_chk k) (rp_ir r) a g"; cases "fst (add_level (k_chk k) (rp_ir r) a g)")
      (simp_all add: run_setup_def e)
  obtain es where g: "g = new_graph\<lparr>g_envs := es\<rparr>" using e by (auto simp: new_env_def)
  have "splices {} ids g g1" using splices_level(1) [OF l c, of "{}"] by (simp add: g)
  then show thesis using that [OF _ t] g by simp
qed

lemma good_setup:
  assumes s: "run_setup k r = Inr s" and c: "closed_ir (rp_ir r)"
  shows "good k {} {} s"
  using s c
proof (rule setup_graph)
  fix ids es g1
  assume sp: "splices {} ids (new_graph\<lparr>g_envs := es\<rparr>) g1"
    and t: "s = emit k ((blank_event EventRunStarted [])\<lparr>ev_run := rp_run r,
       ev_workflow := ir_workflow (rp_ir r), ev_loops := loop_bounds (rp_ir r)\<rparr>)
       (register_scopes (rp_ir r) (blank_sched g1 (rp_ir r)))"
  have "good k {} {} (blank_sched g1 (rp_ir r))"
    using sp by (intro good_grown [OF good_blank [of k es "rp_ir r"], of ids])
      (simp_all add: blank_sched_def carried_def lists_def books_def)
  then show ?thesis using good_rescoped [OF register_scopes_graph] by (simp add: t)
qed

text \<open>Nothing has settled yet.\<close>

lemma setup_fresh:
  assumes s: "run_setup k r = Inr s" and c: "closed_ir (rp_ir r)"
  shows "\<not> is_done (s_g s) i"
  using s c
proof (rule setup_graph)
  fix ids es g1
  assume sp: "splices {} ids (new_graph\<lparr>g_envs := es\<rparr>) g1"
    and t: "s = emit k ((blank_event EventRunStarted [])\<lparr>ev_run := rp_run r,
       ev_workflow := ir_workflow (rp_ir r), ev_loops := loop_bounds (rp_ir r)\<rparr>)
       (register_scopes (rp_ir r) (blank_sched g1 (rp_ir r)))"
  let ?g = "new_graph\<lparr>g_envs := es\<rparr>"
  have gi: "ginv {} ?g" by simp
  have gr: "grown ids ?g g1" "shape_ok g1" "shape_ok ?g" using sp ginvD(1) [OF gi] ginvD(1) by (auto simp: splices_def)
  have "lives ?g x = None" for x by (simp add: lives_def new_graph_def)
  then have "lives g1 x = (if x \<in> set ids then Some (Pending, []) else None)" for x
    using grown_lives(1) [OF gr] by simp
  moreover have "g_nodes (s_g s) = g_nodes g1"
    using register_scopes_graph [of "blank_sched g1 (rp_ir r)" "rp_ir r"]
    by (auto simp: t rescoped_def blank_sched_def)
  then have "is_done (s_g s) = is_done g1" by (rule is_done_nodes)
  ultimately show ?thesis by (simp add: lives_done)
qed

lemma good_run_start:
  assumes "good k {} {} s"
  shows "good k {} {} (run_start k s)"
proof -
  have "run_start k s = drain k (push_sources (sorted_ids (s_g s)) s)"
    using sorted_sorted_keys by (simp add: run_start_def push_sources_def sorted_ids_def sorted_sort_id)
  then show ?thesis using assms by (simp add: good_drain good_push_sources)
qed

subsection \<open>A step of the main loop\<close>

lemma good_fold_event:
  "good k {} {} (step_event k ev s) \<Longrightarrow> good k {} {} (fold_event k ev s)"
  by (simp add: fold_event_def Let_def good_drain)

lemma reporter:
  assumes "good k {} {} s" and "s_workers s = ws @ w # vs"
  shows "worker_id w \<in> known (without (ws @ vs) s)"
    and "worker_id w \<notin> worker_id ` set (ws @ vs)"
    and "node_of (without (ws @ vs) s) (worker_id w) = Some n \<Longrightarrow> xn_life n = Running \<or> xn_life n = Done"
proof -
  have w: "worker_inv s" using assms(1) by (simp add: good_core core_def)
  then show "worker_id w \<notin> worker_id ` set (ws @ vs)" by (auto simp: worker_inv_def assms(2))
  obtain l st where l: "life_at s (worker_id w) = Some (l, st)" "l = Running \<or> l = Done"
    using w by (auto simp: worker_inv_def assms(2))
  then show "worker_id w \<in> known (without (ws @ vs) s)" by (simp add: without_sel lives_keys)
  show "node_of (without (ws @ vs) s) (worker_id w) = Some n \<Longrightarrow> xn_life n = Running \<or> xn_life n = Done"
    using l by (auto simp: lives_def without_sel)
qed

lemma release_if_sel:
  "s_g (release_if k b i s) = s_g s" "s_workers (release_if k b i s) = s_workers s"
  by (cases "node_of s i"; simp add: release_if_def release_pools_def release_slot_def Let_def)+

lemma good_deliver:
  assumes g: "good k {} {} s" and w: "s_workers s = ws @ w # vs" and r: "reports k s w ev"
    and irs: "\<forall>p \<in> set (k_irs k). closed_ir (snd p)"
  shows "good k {} {} (step_event k ev (s\<lparr>s_workers := ws @ vs\<rparr>))"
proof -
  note R = reporter [OF g w]
  have without: "one_less (s\<lparr>s_workers := ws @ vs\<rparr>) = without (ws @ vs) s" by (simp add: without_def)
  from r show ?thesis
  proof cases
    case (box_settled j res costs executed)
    note b = good_release [OF g w [unfolded box_settled(1)]]
    show ?thesis using good_fold_settled [OF b] R(1)
      by (simp add: box_settled step_event_def without release_if_sel worker_id_def)
  next
    case (box_deferred j until detail history used costs)
    note b = good_release [OF g w [unfolded box_deferred(1)]]
    show ?thesis using good_fold_deferred [OF b] R
      by (simp add: box_deferred step_event_def without release_if_sel worker_id_def without_sel)
  next
    case (expanded i n a run)
    have b: "good k {i} {} (without (ws @ vs) s)"
      using good_without [OF g w] by (simp add: expanded box_of_def worker_id_def)
    show ?thesis using good_apply_expansion [OF b] R(1) expand_closed [OF _ irs]
      by (simp add: expanded step_event_def without worker_id_def)
  next
    case (expected i loop iter spec a run)
    have b: "good k {i} {} (without (ws @ vs) s)"
      using good_without [OF g w] by (simp add: expected box_of_def worker_id_def)
    show ?thesis using good_apply_expected [OF b] R
      by (simp add: expected step_event_def without worker_id_def without_sel)
  qed
qed

lemma good_fatal: "good k H G s \<Longrightarrow> good k H G (s\<lparr>s_fatal := Some e\<rparr>)"
proof -
  let ?t = "s\<lparr>s_fatal := Some e\<rparr>"
  have l: "life_at ?t = life_at s" by simp
  have at: "attr ?t = attr s" by (rule attr_graph) simp
  assume g: "good k H G s"
  then have "journal_inv ?t" "count_inv ?t"
    by (auto simp: good_core core_def journal_inv_def count_inv_def with_status_def)
  moreover have f: "carried ?t = carried s" "lists ?t = lists s" by (simp_all add: carried_def lists_def)
  ultimately show "good k H G ?t"
    using g same_parts(1) [OF l f] same_parts(2) [OF l f(1)] same_parts(3,4) [OF l f(1) at]
    by (simp add: good_core core_def)
qed

lemma good_step:
  assumes "sched_step k s t" and "good k {} {} s" and "\<forall>p \<in> set (k_irs k). closed_ir (snd p)"
  shows "good k {} {} t"
  using assms(1)
proof cases
  case (deliver ws w vs ev)
  then show ?thesis using good_deliver [OF assms(2) _ _ assms(3)] good_fold_event by blast
next
  case (wake ts i us)
  then show ?thesis using good_wake_event [OF assms(2)] good_fold_event by blast
next
  case (journaled j e)
  then have "t = must_append k e s" "e \<noteq> JResult r" for r
    by (auto simp: must_append_def worker_entry_def)
  then show ?thesis using good_append assms(2) by blast
qed (use assms(2) in \<open>simp_all add: good_fatal good_drain\<close>)

theorem reachable_good:
  assumes "reachable k r s" and "closed_ir (rp_ir r)" and "\<forall>p \<in> set (k_irs k). closed_ir (snd p)"
  shows "good k {} {} s"
  using assms(1)
proof induction
  case (start s)
  then show ?case using good_run_start good_setup assms(2) by blast
next
  case (more s t)
  then show ?case using good_step assms(3) by blast
qed

end
