(* ===== verification/LoopPath.thy ===== *)
theory LoopPath
  imports ReachInv
begin

text \<open>
  Properties of the main loop that relate the state before to the state after, stated once for any
  such relation: a relation that the settle path and the relabelling of an unsettled node respect is
  respected by dispatching, draining and folding an event, hence by every step of the loop.
\<close>

subsection \<open>What the loops of a drain preserve\<close>

lemma grant_invariant:
  assumes "grant k s held p = (t, held', p')" and "I s held p"
    and drop: "\<And>s i q held p. I s held p \<Longrightarrow> s_slotq s = i # q \<Longrightarrow>
      (\<And>n. node_of s i = Some n \<Longrightarrow> xn_life n \<noteq> SlotWait) \<Longrightarrow> I (s\<lparr>s_slotq := q\<rparr>) held p"
    and hold: "\<And>s i q n held p. I s held p \<Longrightarrow> s_slotq s = i # q \<Longrightarrow> node_of s i = Some n \<Longrightarrow>
      xn_life n = SlotWait \<Longrightarrow> hold_reason k (s\<lparr>s_slotq := q\<rparr>) n \<noteq> [] \<Longrightarrow>
      I (announce_hold k i n (hold_reason k (s\<lparr>s_slotq := q\<rparr>) n) (s\<lparr>s_slotq := q\<rparr>)) (held @ [i]) p"
    and start: "\<And>s i q n held p. I s held p \<Longrightarrow> s_slotq s = i # q \<Longrightarrow> node_of s i = Some n \<Longrightarrow>
      xn_life n = SlotWait \<Longrightarrow> hold_reason k (s\<lparr>s_slotq := q\<rparr>) n = [] \<Longrightarrow>
      I (launch k i n (take_pools k n (upd_node i (\<lambda>n. n\<lparr>xn_waiting := []\<rparr>) (s\<lparr>s_slotq := q\<rparr>)))) held True"
  shows "I t held' p' \<and> (s_slotq t = [] \<or> \<not> slot_free k t \<or> s_fatal t \<noteq> None)"
proof -
  have "grant k' s held p = (t, held', p') \<Longrightarrow> k' = k \<Longrightarrow> I s held p \<Longrightarrow>
      I t held' p' \<and> (s_slotq t = [] \<or> \<not> slot_free k t \<or> s_fatal t \<noteq> None)" for k'
  proof (induction k' s held p rule: grant.induct)
    case (1 k' s held p)
    show ?case
    proof (cases "s_slotq s")
      case Nil
      then show ?thesis using "1.prems" by (simp add: grant.simps)
    next
      case (Cons i q)
      define s1 where "s1 = s\<lparr>s_slotq := q\<rparr>"
      show ?thesis
      proof (cases "\<not> slot_free k' s \<or> s_fatal s \<noteq> None")
        case True
        with Cons "1.prems" show ?thesis by (subst (asm) grant.simps) auto
      next
        case go: False
        note IH = "1.IH" [OF Cons go s1_def]
        show ?thesis
        proof (cases "node_of s i")
          case None
          with Cons go "1.prems" have g: "grant k' s1 held p = (t, held', p')"
            by (subst (asm) grant.simps) (auto simp: s1_def Let_def)
          show ?thesis using IH(1) [OF None g "1.prems"(2)] drop [OF "1.prems"(3) Cons] None by (simp add: s1_def)
        next
          case (Some n)
          show ?thesis
          proof (cases "xn_life n = SlotWait")
            case False
            with Cons go Some "1.prems" have g: "grant k' s1 held p = (t, held', p')"
              by (subst (asm) grant.simps) (auto simp: s1_def Let_def)
            show ?thesis using IH(2) [OF Some False g "1.prems"(2)] drop [OF "1.prems"(3) Cons] Some False
              by (simp add: s1_def)
          next
            case sw: True
            then have sw2: "\<not> xn_life n \<noteq> SlotWait" by simp
            show ?thesis
            proof (cases "hold_reason k' s1 n = []")
              case False
              from False Cons go Some sw "1.prems"
              have g: "grant k' (announce_hold k' i n (hold_reason k' s1 n) s1) (held @ [i]) p = (t, held', p')"
                by (subst (asm) grant.simps) (auto simp: s1_def Let_def)
              show ?thesis using IH(3) [OF Some sw2 False g "1.prems"(2)] hold [OF "1.prems"(3) Cons Some sw] False
                "1.prems"(2) by (simp add: s1_def)
            next
              case True
              from True Cons go Some sw "1.prems"
              have g: "grant k' (launch k' i n (take_pools k' n (upd_node i (\<lambda>n. n\<lparr>xn_waiting := []\<rparr>) s1))) held True
                  = (t, held', p')"
                by (subst (asm) grant.simps) (auto simp: s1_def Let_def)
              show ?thesis using IH(4) [OF Some sw2 _ g "1.prems"(2)] start [OF "1.prems"(3) Cons Some sw] True
                "1.prems"(2) by (simp add: s1_def)
            qed
          qed
        qed
      qed
    qed
  qed
  with assms(1,2) show ?thesis by blast
qed

lemma ready_loop_invariant:
  assumes "ready_loop k s p = (t, p')" and "I s p"
    and drop: "\<And>s i q p. I s p \<Longrightarrow> s_ready s = i # q \<Longrightarrow>
      (\<And>n. node_of s i = Some n \<Longrightarrow> xn_life n \<noteq> Queued) \<Longrightarrow> I (s\<lparr>s_ready := q\<rparr>) p"
    and go: "\<And>s i q n p. I s p \<Longrightarrow> s_ready s = i # q \<Longrightarrow> node_of s i = Some n \<Longrightarrow>
      xn_life n = Queued \<Longrightarrow> I (dispatch k i n (s\<lparr>s_ready := q\<rparr>)) True"
  shows "I t p' \<and> (s_ready t = [] \<or> s_fatal t \<noteq> None)"
proof -
  have "ready_loop k' s p = (t, p') \<Longrightarrow> k' = k \<Longrightarrow> I s p \<Longrightarrow>
      I t p' \<and> (s_ready t = [] \<or> s_fatal t \<noteq> None)" for k'
  proof (induction k' s p rule: ready_loop.induct)
    case (1 k' s p)
    show ?case
    proof (cases "s_ready s")
      case Nil
      then show ?thesis using "1.prems" by (simp add: ready_loop.simps)
    next
      case (Cons i q)
      define s1 where "s1 = s\<lparr>s_ready := q\<rparr>"
      show ?thesis
      proof (cases "s_fatal s \<noteq> None")
        case True
        with Cons "1.prems" show ?thesis by (subst (asm) ready_loop.simps) auto
      next
        case nf: False
        note IH = "1.IH" [OF Cons nf s1_def]
        show ?thesis
        proof (cases "node_of s i")
          case None
          with Cons nf "1.prems" have g: "ready_loop k' s1 p = (t, p')"
            by (subst (asm) ready_loop.simps) (auto simp: s1_def Let_def)
          show ?thesis using IH(1) [OF None g "1.prems"(2)] drop [OF "1.prems"(3) Cons] None by (simp add: s1_def)
        next
          case (Some n)
          show ?thesis
          proof (cases "xn_life n = Queued")
            case False
            with Cons nf Some "1.prems" have g: "ready_loop k' s1 p = (t, p')"
              by (subst (asm) ready_loop.simps) (auto simp: s1_def Let_def)
            show ?thesis using IH(2) [OF Some False g "1.prems"(2)] drop [OF "1.prems"(3) Cons] Some False
              by (simp add: s1_def)
          next
            case True
            from True Cons nf Some "1.prems" have g: "ready_loop k' (dispatch k' i n s1) True = (t, p')"
              by (subst (asm) ready_loop.simps) (auto simp: s1_def Let_def)
            show ?thesis using IH(3) [OF Some _ g "1.prems"(2)] go [OF "1.prems"(3) Cons Some] True "1.prems"(2)
              by (simp add: s1_def)
          qed
        qed
      qed
    qed
  qed
  with assms(1,2) show ?thesis by blast
qed

subsection \<open>The interface\<close>

text \<open>A node whose turn has come: it left pending and has not settled.\<close>

definition due :: "sched \<Rightarrow> string \<Rightarrow> bool" where
  "due s i \<longleftrightarrow> (\<exists>n. node_of s i = Some n \<and> xn_life n \<noteq> Pending \<and> \<not> terminal n)"

lemma due_undone: "due s i \<Longrightarrow> i \<in> undone s"
  by (auto simp: due_def undone_def)

lemma due_nodes: "g_nodes (s_g s) = g_nodes (s_g t) \<Longrightarrow> due s i = due t i"
  by (simp add: due_def)

text \<open>Nothing the relation may read has changed, and the pause latch was not taken back.\<close>

definition quiet :: "sched \<Rightarrow> sched \<Rightarrow> bool" where
  "quiet s t \<longleftrightarrow> g_nodes (s_g t) = g_nodes (s_g s) \<and> g_indeg (s_g t) = g_indeg (s_g s) \<and>
     g_succ (s_g t) = g_succ (s_g s) \<and> (s_paused s \<longrightarrow> s_paused t)"

lemma quiet_simps [simp]: "quiet s s" "quiet s (emit k e s)" "quiet s (must_append k je s)"
proof -
  have "s_paused (emit k e s) = s_paused s" "s_paused (must_append k je s) = s_paused s"
    by (rule frame_sel, simp add: frame_simps)+
  then show "quiet s s" "quiet s (emit k e s)" "quiet s (must_append k je s)" by (simp_all add: quiet_def)
qed

locale loop_path =
  fixes k :: cfg and R :: "sched \<Rightarrow> sched \<Rightarrow> bool"
  assumes trans: "R s t \<Longrightarrow> R t u \<Longrightarrow> R s u"
    and still: "quiet s t \<Longrightarrow> R s t"
    and relabel: "node_of s i = Some n \<Longrightarrow> \<not> terminal n \<Longrightarrow> xn_life m \<noteq> Done \<Longrightarrow>
        xn_life m = Pending \<longrightarrow> xn_life n = Pending \<Longrightarrow> R s (set_node i m s)"
    and pushed: "R s (push i s)"
    and skip: "good k H {} s \<Longrightarrow> i \<in> undone s \<Longrightarrow> skip_state st \<Longrightarrow> R s (settle_skip k i st a s)"
    and settle: "good k H {} s \<Longrightarrow> due s i \<Longrightarrow> R s (settle_result k i res x cs s)"
    and expected: "good k {i} {} s \<Longrightarrow> i \<in> undone s \<longrightarrow> due s i \<Longrightarrow> R s (apply_expected k i loop iter answer s)"
    and expansion: "good k {i} {} s \<Longrightarrow> i \<in> undone s \<longrightarrow> due s i \<Longrightarrow>
        (\<And>insts. out = Inr insts \<Longrightarrow> \<forall>inst \<in> set insts. closed_ir (in_ir inst)) \<Longrightarrow>
        R s (apply_expansion k i out s)"
begin

lemma refl: "R s s"
  by (rule still) (simp add: quiet_def)

lemma cheap:
  assumes "good k H {} s" and "due s i"
  shows "R s (settle_failed k i r d s)" "R s (settle_ok k i p s)"
proof -
  let ?s = "s\<lparr>s_clock := Suc (s_clock s)\<rparr>"
  have q: "R s ?s" by (rule still) (simp add: quiet_def)
  have "R ?s (settle_result k i res x cs ?s)" for res x cs
    using assms by (intro settle [of H]) (simp_all add: good_clock due_def)
  with trans [OF q] show "R s (settle_failed k i r d s)" "R s (settle_ok k i p s)"
    by (simp_all add: settle_failed_def settle_ok_def tick_def)
qed

lemma wake: "R s (wake_parked s)"
proof -
  have "R t (fold (\<lambda>w s. case node_of s w of None \<Rightarrow> s
      | Some n \<Rightarrow> if xn_life n = Deferred then push w s else s) xs t)" for xs t
  proof (induction xs arbitrary: t)
    case (Cons x xs)
    have "R t (case node_of t x of None \<Rightarrow> t | Some n \<Rightarrow> if xn_life n = Deferred then push x t else t)"
      by (auto intro: refl pushed split: option.splits)
    from trans [OF this Cons.IH] show ?case by simp
  qed (simp add: refl)
  moreover have "R s (s\<lparr>s_wait_zero := []\<rparr>)" by (rule still) (simp add: quiet_def)
  ultimately show ?thesis using refl trans by (auto simp: wake_parked_def)
qed

lemma relabel_upd:
  assumes "node_of s i = Some n" and "\<not> terminal n" and "xn_life (f n) \<noteq> Done"
    and "xn_life (f n) = Pending \<longrightarrow> xn_life n = Pending"
  shows "R s (upd_node i f s)"
  using relabel [OF assms(1,2)] assms by (simp add: upd_node_def)

lemma then_still: "R s t \<Longrightarrow> quiet t u \<Longrightarrow> R s u"
  using trans still by blast

subsubsection \<open>Dispatching\<close>

lemma started:
  assumes "node_of s i = Some n" and "\<not> terminal n"
  shows "R s (start_worker i w s)"
proof -
  have "R s (upd_node i (\<lambda>n. n\<lparr>xn_life := Running\<rparr>) s)" by (rule relabel_upd [OF assms]) simp_all
  then show ?thesis by (rule then_still) (simp add: start_worker_def quiet_def)
qed

lemma bound:
  assumes "bind_scope_slots a bs e xs s = (r, t)"
  shows "quiet s t"
  using assms
proof (induction a bs e xs s rule: bind_scope_slots.induct)
  case (2 a bs outer x xs s)
  have "quiet s (bind_scope a x v s)" for v by (simp add: quiet_def bind_scope_def)
  with 2 show ?case by (auto simp: quiet_def split: option.splits bound.splits)
qed (simp add: quiet_def)

lemma bound_edges:
  assumes "bind_scope_edges a es s = (r, t)"
  shows "quiet s t"
  using assms
proof (induction a es s rule: bind_scope_edges.induct)
  case (2 a e es s)
  have "quiet s (bind_scope a x v s)" for x v by (simp add: quiet_def bind_scope_def)
  with 2 show ?case by (auto simp: quiet_def Let_def split: option.splits if_splits)
qed (simp add: quiet_def)

lemma quiet_due: "quiet s t \<Longrightarrow> due t i = due s i"
  by (simp add: quiet_def due_def)

lemma skipped: "good k H {} s \<Longrightarrow> due s i \<Longrightarrow> skip_state st \<Longrightarrow> R s (settle_skip k i st a s)"
  using skip due_undone by blast

lemma sub_entry:
  assumes g: "good k H {} s" and i: "due s i"
  shows "R s (settle_sub_entry k i n s)"
proof (cases "map_of (s_scopes s) i")
  case None
  then show ?thesis using cheap [OF assms] by (simp add: settle_sub_entry_def)
next
  case (Some a)
  obtain r1 s1 where s1: "bind_scope_slots a (n_bindings (xn_node n)) (xn_env n)
      (sorted_keys (n_bindings (xn_node n))) s = (r1, s1)" by fastforce
  obtain r2 s2 where s2: "bind_scope_edges a (g_data_in (s_g s1) i) s1 = (r2, s2)" by fastforce
  have g1: "good k H {} s1" "good k H {} s2"
    using g good_bind_slots [OF s1] good_bind_edges [OF s2] by simp_all
  note q = bound [OF s1] bound_edges [OF s2]
  have i1: "due s1 i" "due s2 i" using i q by (simp_all add: quiet_due)
  have R1: "R s s1" "R s s2" using still q trans by blast+
  have stop: "R s (scope_stopped k i st t)" if "good k H {} t" "due t i" "R s t" for st t
    using trans [OF that(3)] cheap(1) [OF that(1,2)] skipped [OF that(1,2)]
    by (simp add: scope_stopped_def split: scope_stop.split)
  show ?thesis
    using stop [OF g1(1) i1(1) R1(1)] stop [OF g1(2) i1(2) R1(2)] trans [OF R1(2) cheap(2) [OF g1(2) i1(2)]] Some s1 s2
    by (simp add: settle_sub_entry_def Let_def split: option.split)
qed

lemma selector:
  assumes "good k H {} s" and "due s i"
  shows "R s (resolve_selector k i n s)"
  using cheap [OF assms] skipped [OF assms]
  by (simp add: resolve_selector_def adopt_candidate_def split: option.splits list.splits sum.splits bool.splits)

lemma agent:
  assumes g: "good k H {} s" and n: "node_of s i = Some n" "xn_life n = Queued"
  shows "R s (dispatch_agent k i n s)"
proof -
  let ?f = "agent_fields k s n"
  let ?s1 = "set_node i ?f s" and ?s2 = "set_node i (?f\<lparr>xn_cached := True\<rparr>) s"
  have g1: "good k H {} ?s1" "good k H {} ?s2"
    using g by (simp_all add: good_alike [OF n(1)] alike_def)
  have u: "due ?s1 i" "due ?s2 i"
    using n by (simp_all add: due_def terminal_def)
  have nt: "\<not> terminal n" using n(2) by (simp add: terminal_def)
  have R1: "R s ?s1" "R s ?s2" "R s (set_node i (?f\<lparr>xn_life := SlotWait\<rparr>) s)"
    using n(2) by (intro relabel [OF n(1) nt]; simp)+
  let ?s3 = "?s2\<lparr>s_clock := Suc (s_clock s)\<rparr>"
  have hit: "R s (settle_result k i res x cs ?s3)" for res x cs
    using trans [OF then_still [OF R1(2), of ?s3] settle [of H ?s3]] g1(2) u(2) by (simp add: quiet_def good_clock due_def)
  have sw: "R s (slot_queued i ?f s)"
    by (rule then_still [OF R1(3)]) (simp add: quiet_def slot_queued_def)
  show ?thesis
    using trans [OF R1(1)] cheap [OF g1(1) u(1)] skipped [OF g1(1) u(1)] hit sw n
    by (cases "agent_gate k s n")
       (simp_all add: dispatch_agent_def Let_def tick_def upd_node_def slot_queued_def, simp_all add: set_node_def)
qed

lemma dispatched:
  assumes g: "good k H {} s" and n: "node_of s i = Some n" "xn_life n = Queued"
  shows "R s (dispatch k i n s)"
proof -
  have nt: "\<not> terminal n" and u: "due s i" using n by (simp_all add: due_def terminal_def)
  have "R s (dispatch_kind k i n s)"
    using cheap [OF g u] started [OF n(1) nt] sub_entry [OF g u] selector [OF g u] agent [OF g n]
    by (simp add: dispatch_kind_def start_expect_def start_expansion_def split: option.splits)
  with cheap [OF g u] skipped [OF g u] show ?thesis
    by (simp add: dispatch_def split: option.splits sum.splits bool.splits)
qed

subsubsection \<open>Draining\<close>

lemma announced: "node_of s i = Some n \<Longrightarrow> \<not> terminal n \<Longrightarrow> R s (announce_hold k i n why s)"
proof -
  assume n: "node_of s i = Some n" "\<not> terminal n"
  then have "R s (upd_node i (\<lambda>n. n\<lparr>xn_waiting := why\<rparr>) s)"
    by (intro relabel_upd) (simp_all add: terminal_def)
  then show ?thesis using refl then_still [OF _ quiet_simps(2)] by (simp add: announce_hold_def)
qed

lemma launched:
  assumes "node_of s i = Some n" and "\<not> terminal n"
  shows "R s (launch k i m (take_pools k m s))"
proof -
  have "quiet s (take_pools k m s)" "node_of (take_pools k m s) = node_of s"
    by (simp_all add: quiet_def take_pools_update)
  then show ?thesis using trans [OF still started] assms by (simp add: launch_def)
qed

lemma granted: "grant k s held p = (t, held', p') \<Longrightarrow> R s t"
proof -
  assume g: "grant k s held p = (t, held', p')"
  have pop: "R v (v\<lparr>s_slotq := q\<rparr>)" for v q by (rule still) (simp add: quiet_def)
  have "R s t \<and> (s_slotq t = [] \<or> \<not> slot_free k t \<or> s_fatal t \<noteq> None)"
  proof (rule grant_invariant [where I = "\<lambda>u _ _. R s u", OF g])
    fix u i q
    assume "R s u" "s_slotq u = i # q"
    then show "R s (u\<lparr>s_slotq := q\<rparr>)" using pop trans by blast
  next
    fix u i q n
    assume u: "R s u" "s_slotq u = i # q" "node_of u i = Some n" "xn_life n = SlotWait"
    let ?u = "u\<lparr>s_slotq := q\<rparr>"
    have n: "node_of ?u i = Some n" "\<not> terminal n" using u by (simp_all add: terminal_def)
    have ru: "R s ?u" using u(1) pop trans by blast
    show "R s (announce_hold k i n (hold_reason k ?u n) ?u)" using trans [OF ru announced [OF n]] .
    have "R ?u (upd_node i (\<lambda>n. n\<lparr>xn_waiting := []\<rparr>) ?u)"
      using n by (intro relabel_upd [OF n]) (simp_all add: terminal_def)
    moreover have "R (upd_node i (\<lambda>n. n\<lparr>xn_waiting := []\<rparr>) ?u)
        (launch k i n (take_pools k n (upd_node i (\<lambda>n. n\<lparr>xn_waiting := []\<rparr>) ?u)))"
      by (rule launched [of _ _ "n\<lparr>xn_waiting := []\<rparr>"]) (use n u(3) in \<open>simp_all add: node_upd_node terminal_def\<close>)
    ultimately show "R s (launch k i n (take_pools k n (upd_node i (\<lambda>n. n\<lparr>xn_waiting := []\<rparr>) ?u)))"
      using trans ru by blast
  qed (rule refl)
  then show ?thesis ..
qed

lemma after_granted: "R s (after_grant k held s)"
proof -
  define s1 where "s1 = (if slot_free k s then s else case s_slotq s of [] \<Rightarrow> s
     | i # q \<Rightarrow> (case node_of s i of None \<Rightarrow> s
        | Some n \<Rightarrow> if xn_life n = SlotWait then announce_hold k i n (hold_reason k s n) s else s))"
  have "R s s1" unfolding s1_def
    by (auto simp: terminal_def intro!: refl announced split: list.splits option.splits)
  then have "R s (s1\<lparr>s_slotq := fold insort held (s_slotq s1)\<rparr>)"
    by (rule then_still) (simp add: quiet_def)
  then show ?thesis unfolding after_grant_def Let_def s1_def .
qed

lemma readied: "ready_loop k s p = (t, p') \<Longrightarrow> good k {} {} s \<Longrightarrow> R s t \<and> good k {} {} t"
proof -
  assume r: "ready_loop k s p = (t, p')" and g: "good k {} {} s"
  have "(R s t \<and> good k {} {} t) \<and> (s_ready t = [] \<or> s_fatal t \<noteq> None)"
  proof (rule ready_loop_invariant [where I = "\<lambda>u _. R s u \<and> good k {} {} u", OF r])
    fix u i q
    assume u: "R s u \<and> good k {} {} u" "s_ready u = i # q"
      and n: "\<And>n. node_of u i = Some n \<Longrightarrow> xn_life n \<noteq> Queued"
    have "quiet u (u\<lparr>s_ready := q\<rparr>)" by (simp add: quiet_def)
    then have "R s (u\<lparr>s_ready := q\<rparr>)" using u(1) then_still [of s u] by blast
    moreover have "\<nexists>st. life_at u i = Some (Queued, st)" using n by (auto simp: lives_def)
    then have "good k {} {} (u\<lparr>s_ready := q\<rparr>)" using good_pop_ready(2) u by blast
    ultimately show "R s (u\<lparr>s_ready := q\<rparr>) \<and> good k {} {} (u\<lparr>s_ready := q\<rparr>)" ..
  next
    fix u i q n
    assume u: "R s u \<and> good k {} {} u" "s_ready u = i # q" and n: "node_of u i = Some n" "xn_life n = Queued"
    have n1: "node_of (u\<lparr>s_ready := q\<rparr>) i = Some n" using n by simp
    have "quiet u (u\<lparr>s_ready := q\<rparr>)" by (simp add: quiet_def)
    then have "R s (u\<lparr>s_ready := q\<rparr>)" using u(1) then_still by blast
    moreover have g1: "good k {i} {} (u\<lparr>s_ready := q\<rparr>)" using u good_pop_ready(1) by blast
    ultimately show "R s (dispatch k i n (u\<lparr>s_ready := q\<rparr>)) \<and> good k {} {} (dispatch k i n (u\<lparr>s_ready := q\<rparr>))"
      using trans dispatched [OF g1 n1 n(2)] dispatch_good [OF g1 n1 n(2)] by auto
  qed (simp add: refl g)
  then show ?thesis ..
qed

lemma gated: "pause_gate k s = (b, t) \<Longrightarrow> R s t"
  by (rule still) (auto simp: pause_gate_def Let_def quiet_def split: option.splits if_splits)

lemma drained: "good k {} {} s \<Longrightarrow> R s (drain k s)"
proof -
  have "k' = k \<Longrightarrow> good k {} {} s \<Longrightarrow> R s (drain k' s)" for k'
  proof (induction k' s rule: drain.induct)
    case (1 k' s)
    show ?case
    proof (cases "s_fatal s \<noteq> None")
      case True
      then show ?thesis by (simp add: drain.simps refl)
    next
      case nf: False
      obtain b s1 where p: "pause_gate k' s = (b, s1)" by fastforce
      have g1: "good k {} {} s1" "R s s1" using good_pause_gate [OF p] gated p "1.prems" by simp_all
      show ?thesis
      proof (cases b)
        case True
        then show ?thesis using nf p g1 by (simp add: drain.simps)
      next
        case False
        obtain s2 held p1 where gr: "grant k' s1 [] False = (s2, held, p1)" by (metis prod_cases3)
        obtain s3 p2 where rl: "ready_loop k' (after_grant k' held s2) p1 = (s3, p2)" by fastforce
        have "good k (set held) {} s2 \<and> waits s2 held"
          using good_grant [OF gr] g1 "1.prems" by (simp add: waits_def)
        then have g2: "good k {} {} (after_grant k' held s2)" using good_after_grant "1.prems"(1) by blast
        have r3: "R (after_grant k' held s2) s3 \<and> good k {} {} s3"
          using readied [OF rl [unfolded "1.prems"(1)]] g2 "1.prems"(1) by simp
        have "R s1 s2" using granted gr "1.prems"(1) by simp
        then have r: "R s s3" using g1(2) r3 after_granted [of s2 held] trans "1.prems"(1) by blast
        have "good k {} {} s3" using r3 ..
        then have "p2 \<Longrightarrow> R s3 (drain k' s3)"
          using "1.IH" [OF nf p [symmetric] _ gr [symmetric] HOL.refl rl [symmetric] _ "1.prems"(1)] False by blast
        then show ?thesis using r trans nf p False gr rl by (subst drain.simps) auto
      qed
    qed
  qed
  then show "good k {} {} s \<Longrightarrow> R s (drain k s)" by blast
qed

subsubsection \<open>Events\<close>

lemma folded_settled: "good k {i} {} s \<Longrightarrow> i \<in> undone s \<longrightarrow> due s i \<Longrightarrow> R s (fold_settled k i res cs x s)"
  using settle [of "{i}" s i] refl by (auto simp: fold_settled_def undone_def split: option.splits)

lemma folded_deferred: "R s (fold_deferred k i until detail history used cs s)"
proof (cases "node_of s i")
  case None
  then show ?thesis by (simp add: fold_deferred_def refl)
next
  case (Some n)
  show ?thesis
  proof (cases "terminal n")
    case True
    then show ?thesis using Some by (simp add: fold_deferred_def refl)
  next
    case False
    define s1 where "s1 = s\<lparr>s_clock := Suc (s_clock s)\<rparr>"
    define now where "now = k_now k (s_clock s)"
    let ?m = "n\<lparr>xn_used := xn_used n + used, xn_history := xn_history n @ history,
           xn_costs := xn_costs n @ cs, xn_annotations := xn_annotations n @ [deferred_note now until detail],
           xn_life := Deferred\<rparr>"
    have t: "tick k s = (now, s1)" by (simp add: tick_def s1_def now_def)
    have "R s s1" by (rule still) (simp add: quiet_def s1_def)
    moreover have "R s1 (set_node i ?m s1)"
      by (rule relabel) (use Some False in \<open>simp_all add: s1_def\<close>)
    ultimately have r: "R s (set_node i ?m s1)" using trans by blast
    define s4 where "s4 = emit k ((blank_event EventStepDeferred i)\<lparr>ev_time := now, ev_until := until,
        ev_detail := detail\<rparr>) (must_append k (JDefer \<lparr>df_step = i, df_until = until, df_detail = detail\<rparr>) (set_node i ?m s1))"
    have r4: "R s s4" unfolding s4_def by (rule then_still [OF then_still [OF r quiet_simps(3)] quiet_simps(2)])
    have "quiet s4 (s4\<lparr>s_wait_zero := w\<rparr>)" "quiet s4 (s4\<lparr>s_timers := v\<rparr>)" for w v by (simp_all add: quiet_def)
    then have "R s (s4\<lparr>s_wait_zero := w\<rparr>)" "R s (s4\<lparr>s_timers := v\<rparr>)" for w v using then_still [OF r4] by blast+
    moreover have "fold_deferred k i until detail history used cs s =
        (if until = 0
         then (let s5 = s4\<lparr>s_wait_zero := s_wait_zero s4 @ [i]\<rparr>
               in if s_outstanding s5 = 0 then wake_parked s5 else s5)
         else wake_parked (s4\<lparr>s_timers := s_timers s4 @ [i]\<rparr>))"
      unfolding s4_def s1_def now_def using Some False by (simp add: fold_deferred_def tick_def Let_def)
    moreover have "R s (wake_parked (s4\<lparr>s_wait_zero := w\<rparr>))" "R s (wake_parked (s4\<lparr>s_timers := v\<rparr>))" for w v
      using calculation wake trans by blast+
    ultimately show ?thesis by (simp add: Let_def)
  qed
qed

lemma reported:
  assumes g: "good k {} {} s" and w: "s_workers s = ws @ w # vs" and r: "reports k s w ev"
    and irs: "\<forall>p \<in> set (k_irs k). closed_ir (snd p)"
  shows "R s (step_event k ev (s\<lparr>s_workers := ws @ vs\<rparr>))"
proof -
  let ?s = "without (ws @ vs) s"
  have K: "worker_id w \<in> undone t \<longrightarrow> due t (worker_id w)" if "s_g t = s_g ?s" for t
    using reporter(3) [OF g w] that by (fastforce simp: undone_def due_def terminal_def)
  have without: "one_less (s\<lparr>s_workers := ws @ vs\<rparr>) = ?s" by (simp add: without_def)
  have q: "R s ?s" by (rule still) (simp add: quiet_def without_def one_less_def)
  have rel: "R s (release_if k b i ?s)" for b i
    by (rule then_still [OF q])
       (cases "node_of ?s i"; simp add: quiet_def release_if_def release_pools_def release_slot_def Let_def)
  from r show ?thesis
  proof cases
    case (box_settled j res costs executed)
    show ?thesis using trans [OF rel folded_settled [OF good_release [OF g w [unfolded box_settled(1)]]]]
      K [of "release_if k True (jb_id j) ?s"]
      by (simp add: box_settled step_event_def without worker_id_def release_if_sel)
  next
    case (box_deferred j until detail history used costs)
    show ?thesis using trans [OF rel folded_deferred] by (simp add: box_deferred step_event_def without)
  next
    case (expanded i n a run)
    have b: "good k {i} {} ?s" using good_without [OF g w] by (simp add: expanded box_of_def worker_id_def)
    show ?thesis using trans [OF q expansion [OF b]] K [of ?s] expand_closed [OF _ irs]
      by (simp add: expanded step_event_def without worker_id_def)
  next
    case (expected i loop iter spec a run)
    have b: "good k {i} {} ?s" using good_without [OF g w] by (simp add: expected box_of_def worker_id_def)
    show ?thesis using trans [OF q loop_path.expected [OF loop_path_axioms b]] K [of ?s]
      by (simp add: expected step_event_def without worker_id_def)
  qed
qed

lemma stepped:
  assumes "sched_step k s t" and g: "good k {} {} s" and irs: "\<forall>p \<in> set (k_irs k). closed_ir (snd p)"
  shows "R s t"
  using assms(1)
proof cases
  case (deliver ws w vs ev)
  have "R s (step_event k ev (s\<lparr>s_workers := ws @ vs\<rparr>))" using reported [OF g _ _ irs] deliver by blast
  moreover have "good k {} {} (step_event k ev (s\<lparr>s_workers := ws @ vs\<rparr>))" using good_deliver [OF g _ _ irs] deliver by blast
  ultimately show ?thesis using deliver drained trans by (auto simp: fold_event_def Let_def)
next
  case (wake ts i us)
  let ?u = "step_event k (EvWake i) (s\<lparr>s_timers := ts @ us\<rparr>)"
  have "R s (s\<lparr>s_timers := ts @ us\<rparr>)" by (rule still) (simp add: quiet_def)
  then have "R s ?u" using trans pushed by (auto simp: step_event_def split: option.split)
  moreover have "good k {} {} ?u" using good_wake_event [OF g] wake by blast
  ultimately show ?thesis using wake drained trans by (auto simp: fold_event_def Let_def)
next
  case (abort cause)
  then show ?thesis by (intro still) (simp add: quiet_def)
next
  case poll
  then show ?thesis using drained g by simp
next
  case (journaled j e)
  then have "t = must_append k e s" by (simp add: must_append_def)
  then show ?thesis using still by simp
next
  case (started j now attempt)
  then show ?thesis using still by simp
qed

end

end
