(* ===== verification/Finality.thy ===== *)
theory Finality
  imports LoopPath
begin

text \<open>
  Two relations every step of the main loop respects: a settled node is never touched again, and no
  pending node is left behind without an open dependency (unless a pause keeps it).
\<close>

subsection \<open>Settled nodes are final\<close>

lemma frozen_tail: "frozen a b \<Longrightarrow> frozen a (wake_parked (release_succs i b))"
  using frozen_requeues [OF only_requeues_release] frozen_requeues [OF only_requeues_wake] frozen_trans by blast

lemma frozen_settle:
  assumes i: "i \<in> undone s"
  shows "frozen s (settle_result k i res x cs s)"
proof -
  obtain n where n: "node_of s i = Some n" "\<not> terminal n" using i by (auto simp: undone_def)
  obtain st r p where sh: "settle_shape k res = (st, r, p)" by (metis prod_cases3)
  define u where "u = settle_records k i n st r x cs (store_payload i n p r s)"
  obtain m where m: "alike n m" "store_payload i n p r s = set_node i m s"
    using store_payload_alike [OF n(1)] by blast
  have gu: "s_g u = s_g (set_node i m s)" by (simp add: u_def m)
  have "frozen s u" using n by (auto simp: frozen_def gu)
  also have "i \<in> undone (set_node i m s)" using n m(1) by (auto simp: undone_def alike_def terminal_def)
  then have "i \<in> undone u" by (simp add: undone_def gu)
  then have "frozen u (mark_done i st u)" by (rule frozen_mark)
  also have "frozen \<dots> (finish k i st u)"
    unfolding finish_def Let_def
    by (auto intro!: frozen_tail frozen_trans [OF frozen_skip_members frozen_propagate] frozen_skip_members)
  finally show ?thesis by (simp add: settle_result_def n sh u_def)
qed

lemma frozen_cheap:
  assumes "i \<in> undone s"
  shows "frozen s (settle_failed k i r d s)" "frozen s (settle_ok k i p s)"
  using frozen_settle [of i "s\<lparr>s_clock := Suc (s_clock s)\<rparr>"] assms
  by (simp_all add: settle_failed_def settle_ok_def tick_def frozen_def)

lemma frozen_set_node: "node_of s i = Some n \<Longrightarrow> \<not> terminal n \<Longrightarrow> frozen s (set_node i m s)"
  by (auto simp: frozen_def)

lemma frozen_push: "frozen s (push i s)"
  by (rule frozen_requeues) (rule only_requeues_push)

lemma frozen_expected: "frozen s (apply_expected k i loop iter out s)"
proof (cases "i \<in> undone s")
  case False
  then show ?thesis by (auto simp: apply_expected_def undone_def split: option.splits)
next
  case True
  then obtain n where n: "node_of s i = Some n" "\<not> terminal n" by (auto simp: undone_def)
  have settled: "frozen s (settle_result k i res x cs (s\<lparr>s_checked := c, s_clock := d\<rparr>))"
    "frozen s (settle_result k i res x cs (s\<lparr>s_clock := d\<rparr>))" for res x cs c d
    using frozen_settle [of i "s\<lparr>s_checked := c, s_clock := d\<rparr>" k res x cs]
      frozen_settle [of i "s\<lparr>s_clock := d\<rparr>" k res x cs] True by (simp_all add: frozen_def undone_def)
  have pend: "frozen s t" if "node_of t = (node_of s)(i := m)" for t m
    using that n by (auto simp: frozen_def)
  show ?thesis
    using settled n frozen_push frozen_trans
    by (auto simp: apply_expected_def Let_def tick_def node_upd_node fun_eq_iff intro!: pend frozen_trans [OF _ frozen_push] split: sum.splits)
qed

subsection \<open>The three ways an expansion goes\<close>

text \<open>\<open>extends i ids s u\<close>: the nodes \<open>ids\<close> are new and pending, the others are as they were and have lost
  no open dependency; the new edges lead into the new nodes, or from them to the dependents of \<open>i\<close>.\<close>

definition extends :: "string \<Rightarrow> string list \<Rightarrow> sched \<Rightarrow> sched \<Rightarrow> bool" where
  "extends i ids s u \<longleftrightarrow>
     (\<forall>x \<in> set ids. node_of s x = None \<and> (\<exists>n. node_of u x = Some n \<and> xn_life n = Pending)) \<and>
     (\<forall>x. x \<notin> set ids \<longrightarrow> node_of u x = node_of s x \<and> g_indeg (s_g s) x \<le> g_indeg (s_g u) x) \<and>
     (\<forall>a b. b \<in> set (succs (s_g u) a) \<longrightarrow> b \<in> set (succs (s_g s) a) \<or>
        b \<in> set ids \<or> a \<in> set ids \<and> b \<in> set (succs (s_g s) i)) \<and>
     (\<forall>a. set (succs (s_g s) a) \<subseteq> set (succs (s_g u) a)) \<and> s_paused u = s_paused s"

lemma indeg_add_pairs: "g_indeg g x \<le> g_indeg (add_pairs ps g) x"
proof -
  have "g_indeg g x \<le> g_indeg (fold (\<lambda>p. add_edge (fst p) (snd p)) ps g) x"
  proof (induction ps arbitrary: g)
    case (Cons p ps)
    have "g_indeg g x \<le> g_indeg (add_edge (fst p) (snd p) g) x" by (simp add: add_edge_def)
    with Cons [of "add_edge (fst p) (snd p) g"] show ?case by simp
  qed simp
  then show ?thesis by (simp add: add_pairs_def)
qed

lemma paused_tag_gen: "s_paused (tag_gen i ids s) = s_paused s"
proof -
  have "s_paused (upd_node x f s) = s_paused s" for x f s by (rule frame_sel, simp add: frame_simps)
  then have "s_paused (fold (\<lambda>x. upd_node x (\<lambda>n. n\<lparr>xn_gen := i\<rparr>)) ids s) = s_paused s"
    by (induction ids arbitrary: s) simp_all
  then show ?thesis by (simp add: tag_gen_def)
qed

lemma succs_add_edge:
  "b \<in> set (succs (add_edge x y g) a) \<Longrightarrow> b \<in> set (succs g a) \<or> (a, b) = (x, y)"
  "set (succs g a) \<subseteq> set (succs (add_edge x y g) a)"
  by (auto simp: add_edge_def get_or_put split: if_splits)

lemma succs_add_pairs:
  "b \<in> set (succs (add_pairs ps g) a) \<Longrightarrow> b \<in> set (succs g a) \<or> (a, b) \<in> set ps"
  "set (succs g a) \<subseteq> set (succs (add_pairs ps g) a)"
proof -
  have "(b \<in> set (succs (fold (\<lambda>p. add_edge (fst p) (snd p)) ps g) a) \<longrightarrow> b \<in> set (succs g a) \<or> (a, b) \<in> set ps) \<and>
    set (succs g a) \<subseteq> set (succs (fold (\<lambda>p. add_edge (fst p) (snd p)) ps g) a)"
  proof (induction ps arbitrary: g)
    case (Cons p ps)
    then show ?case using succs_add_edge(1) [of b "fst p" "snd p" g a] succs_add_edge(2) [of g a "fst p" "snd p"]
      by (cases p) (simp, blast)
  qed simp
  then show "b \<in> set (succs (add_pairs ps g) a) \<Longrightarrow> b \<in> set (succs g a) \<or> (a, b) \<in> set ps"
    "set (succs g a) \<subseteq> set (succs (add_pairs ps g) a)" by (simp_all add: add_pairs_def)
qed

lemma succs_grown:
  assumes "grown ids g h"
  shows "b \<in> set (succs h a) \<Longrightarrow> b \<in> set (succs g a) \<or> b \<in> set ids"
    and "set (succs g a) \<subseteq> set (succs h a)" and "a \<notin> set ids \<Longrightarrow> succs h a = succs g a"
proof -
  obtain ms where ms: "g_succ h = g_succ g @ ms" "\<forall>p \<in> set ms. fst p \<in> set ids \<and> set (snd p) \<subseteq> set ids"
    using assms by (auto simp: grown_def)
  have m: "a \<in> set ids \<and> set x \<subseteq> set ids" if "map_of ms a = Some x" for x
    using map_of_SomeD [OF that] ms(2) by fastforce
  show "b \<in> set (succs h a) \<Longrightarrow> b \<in> set (succs g a) \<or> b \<in> set ids"
    "set (succs g a) \<subseteq> set (succs h a)" "a \<notin> set ids \<Longrightarrow> succs h a = succs g a"
    using m by (cases "map_of (g_succ g) a"; cases "map_of ms a"; auto simp: get_or_def ms(1) map_add_def)+
qed

lemma extends_splice:
  assumes g: "good k H {} s" and sp: "splices {} ids (s_g s) h" and i: "i \<in> undone s"
    and qs: "\<forall>p \<in> set qs. fst p \<in> set ids \<and> snd p \<in> set ids"
    and ps: "\<forall>p \<in> set ps. fst p \<in> set ids \<and>
      snd p \<in> set (succs (add_pairs qs (s_g (tag_gen i ids (s\<lparr>s_scopes := sc, s_g := h\<rparr>)))) i)"
    and s4: "s_g s4 = add_pairs ps (add_pairs qs (s_g (tag_gen i ids (s\<lparr>s_scopes := sc, s_g := h\<rparr>))))"
    and p: "s_paused s4 = s_paused s"
  shows "extends i ids s s4"
proof -
  let ?t = "tag_gen i ids (s\<lparr>s_scopes := sc, s_g := h\<rparr>)"
  have gr: "grown ids (s_g s) h" and sh: "shape_ok h" "shape_ok (s_g s)"
    using sp g ginvD(1) by (auto simp: splices_def good_def)
  obtain ns where ns: "g_nodes h = g_nodes (s_g s) @ ns" "map fst ns = ids" using gr by (auto simp: grown_def)
  have new: "set ids \<inter> fst ` set (g_nodes (s_g s)) = {}" using gr by (simp add: grown_def)
  have n4: "node_of s4 x = map_option (\<lambda>n. if x \<in> set ids then n\<lparr>xn_gen := i\<rparr> else n) (node_at h x)" for x
    using node_tag_gen [of i ids "s\<lparr>s_scopes := sc, s_g := h\<rparr>" x] by (simp add: s4)
  have old: "node_at h x = node_of s x" if "x \<notin> set ids" for x
  proof -
    have "map_of ns x = None" using that ns(2) unfolding map_of_eq_None_iff by (metis list.set_map)
    then show ?thesis by (simp add: ns(1) map_add_def split: option.splits)
  qed
  have "node_of s x = None" if "x \<in> set ids" for x using that new by (auto simp: map_of_eq_None_iff)
  moreover have "\<exists>n. node_of s4 x = Some n \<and> xn_life n = Pending" if "x \<in> set ids" for x
    using grown_dormant(2) [OF gr that sh(1)] that by (auto simp: n4)
  moreover have "node_of s4 x = node_of s x" if "x \<notin> set ids" for x
    using old [OF that] that by (cases "node_of s x") (simp_all add: n4)
  moreover have "g_indeg (s_g s) x \<le> g_indeg (s_g s4) x" if "x \<notin> set ids" for x
  proof -
    have "g_indeg (s_g s) x = g_indeg h x" using gr that by (simp add: grown_def)
    also have "\<dots> = g_indeg (s_g ?t) x" by (simp add: tag_gen_keeps)
    also have "\<dots> \<le> g_indeg (s_g s4) x" unfolding s4 using indeg_add_pairs order_trans by blast
    finally show ?thesis .
  qed
  moreover have "b \<in> set (succs (s_g s) a) \<or> b \<in> set ids \<or> a \<in> set ids \<and> b \<in> set (succs (s_g s) i)"
    if b: "b \<in> set (succs (s_g s4) a)" for a b
  proof -
    have st: "succs (s_g ?t) = succs h" using tag_gen_keeps(6) [of i ids "s\<lparr>s_scopes := sc, s_g := h\<rparr>"]
      by (simp add: wiring_def fun_eq_iff)
    have mid: "y \<in> set (succs (s_g s) x) \<or> y \<in> set ids" if "y \<in> set (succs (add_pairs qs (s_g ?t)) x)" for x y
      using succs_add_pairs(1) [OF that] succs_grown(1) [OF gr] qs by (auto simp: st)
    from b have "b \<in> set (succs (add_pairs qs (s_g ?t)) a) \<or> (a, b) \<in> set ps"
      unfolding s4 by (rule succs_add_pairs(1))
    then show ?thesis using mid ps by fastforce
  qed
  moreover have "set (succs (s_g s) a) \<subseteq> set (succs (s_g s4) a)" for a
  proof -
    have "set (succs (s_g s) a) \<subseteq> set (succs h a)" by (rule succs_grown(2) [OF gr])
    also have "succs h a = succs (s_g ?t) a" using tag_gen_keeps(6) [of i ids "s\<lparr>s_scopes := sc, s_g := h\<rparr>"]
      by (simp add: wiring_def)
    also have "set \<dots> \<subseteq> set (succs (s_g s4) a)" unfolding s4 by (rule subset_trans [OF succs_add_pairs(2) succs_add_pairs(2)])
    finally show ?thesis .
  qed
  ultimately show ?thesis using p by (simp add: extends_def)
qed

lemma expansion_cases:
  assumes g: "good k {i} {} s" and i: "i \<in> undone s"
    and cl: "\<And>insts. out = Inr insts \<Longrightarrow> \<forall>inst \<in> set insts. closed_ir (in_ir inst)"
  obtains (contract) res c where
      "apply_expansion k i out s = settle_result k i res False [] (s\<lparr>s_clock := c\<rparr>)"
  | (rollback) sc es e where
      "apply_expansion k i out s = settle_failed k i ReasonExpansion e (s\<lparr>s_scopes := sc, s_g := (s_g s)\<lparr>g_envs := es\<rparr>\<rparr>)"
  | (spliced) ids u ev p where
      "apply_expansion k i out s = settle_ok k i p (emit k ev (push_sources ids u))"
      "extends i ids s u" "good k {i} {i} u" "i \<in> undone u"
proof (cases out)
  case (Inl e)
  then show ?thesis using i contract by (auto simp: undone_def apply_expansion_def tick_def)
next
  case (Inr insts)
  obtain n where n: "node_of s i = Some n" "\<not> terminal n" using i by (auto simp: undone_def)
  obtain e ids t where sl: "splice_levels (k_chk k) insts [] s = (e, ids, t)" by (metis prod_cases3)
  obtain sc h where t: "t = s\<lparr>s_scopes := sc, s_g := h\<rparr>" and sp: "splices {} ids (s_g s) h"
      and sub: "e = None \<Longrightarrow> \<forall>inst \<in> set insts. subs_in (ir_nodes (in_ir inst)) ids"
    using splice_levels_graph [OF sl, of "{}"] g cl [OF Inr] by (auto simp: good_def)
  show ?thesis
  proof (cases e)
    case (Some d)
    have "grown ids (s_g s) h" "shape_ok (s_g s)" "shape_ok h"
      using sp g ginvD(1) by (auto simp: splices_def good_def)
    then have r: "remove_ids ids h = (s_g s)\<lparr>g_envs := g_envs h\<rparr>" by (rule grown_remove)
    show ?thesis by (rule rollback [where e = d and sc = sc and es = "g_envs h"]) (simp add: apply_expansion_def n Inr sl Some t with_graph_def r)
  next
    case None
    define s2 where "s2 = splice_loops i insts (open_gen_pool i n (tag_gen i ids t))"
    define s3 where "s3 = with_graph (add_pairs (order_pairs insts)) s2"
    define s4 where "s4 = with_graph (add_pairs (rewire_pairs insts (succs (s_g s3) i))) s3"
    have g4: "good k {i} {i} s4" "i \<in> undone s4"
      by (rule good_expanded_graph [OF g i sp sub [OF None] s2_def [unfolded t] s3_def s4_def])+
    have "s_paused s4 = s_paused s"
      by (simp add: s4_def s3_def s2_def with_graph_def splice_loops_def open_gen_pool_def paused_tag_gen t split: option.split)
    moreover have "s_g s3 = add_pairs (order_pairs insts) (s_g (tag_gen i ids (s\<lparr>s_scopes := sc, s_g := h\<rparr>)))"
      by (simp add: s3_def s2_def t)
    moreover from this have "s_g s4 = add_pairs (rewire_pairs insts (succs (s_g s3) i))
        (add_pairs (order_pairs insts) (s_g (tag_gen i ids (s\<lparr>s_scopes := sc, s_g := h\<rparr>))))"
      by (simp add: s4_def)
    moreover have "\<forall>p \<in> set (rewire_pairs insts (succs (s_g s3) i)). fst p \<in> set ids \<and> snd p \<in> set (succs (s_g s3) i)"
      by (rule rewire_pairs_in [OF sub [OF None]])
    ultimately have "extends i ids s s4"
      using extends_splice [OF g sp i order_pairs_in [OF sub [OF None]]] by metis
    then show ?thesis
      by (rule spliced [rotated, OF _ g4])
         (use n in \<open>simp add: apply_expansion_def Inr sl None s4_def s3_def s2_def\<close>)
  qed
qed

lemma frozen_push_sources: "frozen s (push_sources ids s)"
  unfolding push_sources_def by (rule frozen_fold) (simp add: frozen_push)

lemma frozen_extends: "extends i ids s u \<Longrightarrow> frozen s u"
  unfolding extends_def frozen_def by (metis option.distinct(1))

lemma frozen_expansion:
  assumes g: "good k {i} {} s"
    and cl: "\<And>insts. out = Inr insts \<Longrightarrow> \<forall>inst \<in> set insts. closed_ir (in_ir inst)"
  shows "frozen s (apply_expansion k i out s)"
proof (cases "i \<in> undone s")
  case False
  then show ?thesis by (auto simp: apply_expansion_def undone_def split: option.splits)
next
  case True
  show ?thesis
  proof (rule expansion_cases [OF g True cl])
    fix res c
    assume "apply_expansion k i out s = settle_result k i res False [] (s\<lparr>s_clock := c\<rparr>)"
    then show ?thesis using frozen_settle [of i "s\<lparr>s_clock := c\<rparr>"] True by (simp add: frozen_def undone_def)
  next
    fix sc es e
    assume "apply_expansion k i out s =
      settle_failed k i ReasonExpansion e (s\<lparr>s_scopes := sc, s_g := (s_g s)\<lparr>g_envs := es\<rparr>\<rparr>)"
    then show ?thesis using frozen_cheap(1) [of i "s\<lparr>s_scopes := sc, s_g := (s_g s)\<lparr>g_envs := es\<rparr>\<rparr>"] True
      by (simp add: frozen_def undone_def)
  next
    fix ids u ev p
    assume a: "apply_expansion k i out s = settle_ok k i p (emit k ev (push_sources ids u))"
      and u: "extends i ids s u" "good k {i} {i} u" "i \<in> undone u"
    let ?v = "push_sources ids u"
    have "i \<in> undone ?v" by (rule push_sources_undone [OF u(2,3)])
    then have "frozen (emit k ev ?v) (settle_ok k i p (emit k ev ?v))" by (intro frozen_cheap) (simp add: undone_def)
    moreover have "frozen s (emit k ev ?v)"
      using frozen_trans [OF frozen_extends [OF u(1)] frozen_push_sources] by (simp add: frozen_def)
    ultimately show ?thesis using a frozen_trans by simp
  qed
qed

interpretation final: loop_path k frozen for k
proof unfold_locales
  fix s t :: sched
  show "quiet s t \<Longrightarrow> frozen s t" by (simp add: quiet_def frozen_def)
qed (blast intro: due_undone frozen_trans frozen_set_node frozen_push frozen_skip frozen_settle frozen_expected frozen_expansion)+

end
