(* ===== verification/Liveness.thy ===== *)
theory Liveness
  imports Finality
begin

text \<open>
  The main loop is never stuck. Three facts meet: a pending node has an open dependency (unless a pause
  holds it); a drain leaves no ready node, and no node waits for a slot while one is free; the queues,
  workers and timers hold every node that is neither pending nor settled.
\<close>

subsection \<open>No pending node is forgotten\<close>

definition released :: "string set \<Rightarrow> sched \<Rightarrow> bool" where
  "released E s \<longleftrightarrow> s_paused s \<or>
     (\<forall>i st. life_at s i = Some (Pending, st) \<longrightarrow> i \<in> E \<or> 0 < g_indeg (s_g s) i)"

lemma released_mono:
  assumes "released E s"
    and "\<And>i st. life_at t i = Some (Pending, st) \<Longrightarrow> i \<notin> F \<Longrightarrow>
      life_at s i = Some (Pending, st) \<and> i \<notin> E \<and> g_indeg (s_g s) i \<le> g_indeg (s_g t) i"
    and "s_paused s \<longrightarrow> s_paused t"
  shows "released F t"
  using assms unfolding released_def by (meson less_le_trans)

lemma paused_push: "s_paused (push i s) = s_paused s"
  by (rule frame_sel) (rule frame_push)

lemma released_push: "released (insert i E) s \<Longrightarrow> released E (push i s)"
  by (erule released_mono) (auto simp: life_push push_frame paused_push split: if_splits)

lemma released_push_same: "released E s \<Longrightarrow> released E (push i s)"
  by (rule released_push) (auto simp: released_def)

lemma released_fold: "released E s \<Longrightarrow> (\<And>x t. released E t \<Longrightarrow> released E (f x t)) \<Longrightarrow> released E (fold f xs s)"
  by (induction xs arbitrary: s) simp_all

lemma released_wake: "released E s \<Longrightarrow> released E (wake_parked s)"
proof -
  assume r: "released E s"
  have "released E (s\<lparr>s_wait_zero := []\<rparr>)" using r by (simp add: released_def)
  then have "released E (fold (\<lambda>w s. case node_of s w of None \<Rightarrow> s
      | Some n \<Rightarrow> if xn_life n = Deferred then push w s else s) xs (s\<lparr>s_wait_zero := []\<rparr>))" for xs
    by (rule released_fold) (auto simp: released_push_same split: option.splits)
  with r show ?thesis by (simp add: wake_parked_def)
qed

lemma released_mark:
  assumes "released E s" and "i \<in> undone s"
  shows "released E (mark_done i st s)"
proof (rule released_mono [OF assms(1)])
  have "s_paused (mark_done i st s) = s_paused s" by (rule frame_sel) (rule frame_mark)
  then show "s_paused s \<longrightarrow> s_paused (mark_done i st s)" by simp
qed (auto simp: life_mark mark_frame split: if_splits)

lemma released_release:
  assumes "released E s" and "distinct (succs (s_g s) i)"
  shows "released E (release_succs i s)"
proof -
  note R = release_fold [OF assms(2), of s, folded release_succs_def]
  have "s_paused (release_succs i s) = s_paused s" by (rule frame_sel) (rule frame_release)
  moreover have "x \<in> E \<or> 0 < g_indeg (s_g (release_succs i s)) x"
    if l: "life_at (release_succs i s) x = Some (Pending, st)" and p: "\<not> s_paused s" for x st
  proof -
    obtain l where "life_at s x = Some (l, st)"
      "Pending = (if x \<in> set (succs (s_g s) i) \<and> l = Pending \<and> g_indeg (s_g s) x = 1 then Queued else l)"
      using l R [of x] by (cases "life_at s x") auto
    then show ?thesis using R [of x] assms(1) p by (fastforce simp: released_def split: if_splits)
  qed
  ultimately show ?thesis by (auto simp: released_def)
qed

text \<open>A state that differs in neither lives nor counts.\<close>

lemma released_same:
  assumes "life_at t = life_at s" and "g_indeg (s_g t) = g_indeg (s_g s)" and "s_paused s \<longrightarrow> s_paused t"
  shows "released E s \<Longrightarrow> released E t"
  by (erule released_mono) (auto simp: assms)

lemma released_quiet: "quiet s t \<Longrightarrow> released E s \<Longrightarrow> released E t"
  by (rule released_same) (auto simp: quiet_def intro!: life_at_eq)

lemma released_record: "released E s \<Longrightarrow> released E (skip_record k i st a s)"
proof (rule released_same)
  have "s_paused (skip_record k i st a s) = s_paused s" by (rule frame_sel) (rule frame_skip_record)
  then show "s_paused s \<longrightarrow> s_paused (skip_record k i st a s)" by simp
qed simp_all

interpretation released_path: settle_path k "\<lambda>P s. ginv P (s_g s) \<and> released {} s" for k
proof unfold_locales
  fix P :: "string set" and s :: sched and i d st a :: string
  show "ginv P (s_g s) \<and> released {} s \<Longrightarrow> i \<in> P \<Longrightarrow> is_done (s_g s) i"
    using graph_path.settled by blast
  show "ginv P (s_g s) \<and> released {} s \<Longrightarrow> i \<in> undone s \<Longrightarrow> skip_state st \<Longrightarrow>
      ginv (insert i P) (s_g (mark_done i st (skip_record k i st a s))) \<and>
      released {} (mark_done i st (skip_record k i st a s))"
    using graph_path.mark released_mark released_record by auto
  show "ginv P (s_g s) \<and> released {} s \<Longrightarrow> i \<in> P \<Longrightarrow>
      (stops (s_g s) i \<Longrightarrow> \<forall>d \<in> set (succs (s_g s) i). is_done (s_g s) d) \<Longrightarrow>
      ginv (P - {i}) (s_g (release_succs i s)) \<and> released {} (release_succs i s)"
    using graph_path.release released_release ginvD(1) by (auto simp: shape_ok_def)
  show "ginv P (s_g s) \<and> released {} s \<Longrightarrow> ginv P (s_g (wake_parked s)) \<and> released {} (wake_parked s)"
    using graph_path.wake released_wake by blast
  show "ginv P (s_g s) \<and> released {} s \<Longrightarrow> i \<in> P \<Longrightarrow> d \<in> set (succs (s_g s) i) \<Longrightarrow>
      \<exists>l st. life_at s d = Some (l, st) \<and> (l = Pending \<or> l = Done)"
    using graph_path.waiting by blast
qed

lemma released_settle:
  assumes g: "good k H G s" and i: "i \<in> undone s" and r: "released {} s"
  shows "released {} (settle_result k i res x cs s)"
proof -
  obtain n where n: "node_of s i = Some n" "\<not> terminal n" using i by (auto simp: undone_def)
  obtain st r p where sh: "settle_shape k res = (st, r, p)" by (metis prod_cases3)
  define u where "u = settle_records k i n st r x cs (store_payload i n p r s)"
  obtain m where m: "alike n m" "store_payload i n p r s = set_node i m s"
    using store_payload_alike [OF n(1)] by blast
  have gu: "s_g u = s_g (set_node i m s)" by (simp add: u_def m)
  have "i \<in> undone (set_node i m s)" using n m(1) by (auto simp: undone_def alike_def terminal_def)
  then have iu: "i \<in> undone u" by (simp add: undone_def gu)
  have "ginv {} (s_g u)" using g ginv_alike [OF n(1) m(1)] by (simp add: gu good_def)
  from ginv_mark [OF this iu] have "ginv (insert i {}) (s_g (mark_done i st u))" .
  moreover have "released {} u"
  proof (rule released_same [OF _ _ _ r])
    show "life_at u = life_at s" using n m(1) by (auto simp: gu life_set_node alike_def lives_def fun_eq_iff)
    show "g_indeg (s_g u) = g_indeg (s_g s)" by (simp add: gu set_node_def)
    have "s_paused u = s_paused s" unfolding u_def m(2)
      by (rule frame_sel) (simp add: settle_records_keeps(1) frame_set_node)
    then show "s_paused s \<longrightarrow> s_paused u" by simp
  qed
  then have "released {} (mark_done i st u)" using released_mark iu by blast
  ultimately show ?thesis
    using released_path.finish [of i "{}" st u k] iu by (simp add: settle_result_def n sh u_def)
qed

lemma released_cheap:
  assumes "good k H G s" and "i \<in> undone s" and "released {} s"
  shows "released {} (settle_failed k i r d s)" "released {} (settle_ok k i p s)"
proof -
  let ?s = "s\<lparr>s_clock := Suc (s_clock s)\<rparr>"
  have "released {} ?s" by (rule released_quiet [OF _ assms(3)]) (simp add: quiet_def)
  then have "released {} (settle_result k i res x cs ?s)" for res x cs
    using assms by (intro released_settle [of k H G]) (simp_all add: good_clock)
  then show "released {} (settle_failed k i r d s)" "released {} (settle_ok k i p s)"
    by (simp_all add: settle_failed_def settle_ok_def tick_def)
qed

lemma released_relabel:
  assumes "node_of s i = Some n" and "xn_life m = Pending \<longrightarrow> xn_life n = Pending" and r: "released {} s"
  shows "released {} (set_node i m s)"
proof -
  have "s_paused (set_node i m s) = s_paused s" by (rule frame_sel) (rule frame_set_node)
  moreover have "0 < g_indeg (s_g (set_node i m s)) x"
    if l: "life_at (set_node i m s) x = Some (Pending, st)" and p: "\<not> s_paused s" for x st
  proof -
    obtain st' where "life_at s x = Some (Pending, st')"
      using assms(1,2) l by (auto simp: life_set_node lives_def split: if_splits)
    then show ?thesis using r p by (auto simp: released_def set_node_def)
  qed
  ultimately show ?thesis by (auto simp: released_def)
qed

lemma released_expected:
  assumes g: "good k {i} {} s" and r: "released {} s"
  shows "released {} (apply_expected k i loop iter answer s)"
proof (cases "i \<in> undone s")
  case False
  then show ?thesis using r by (auto simp: apply_expected_def undone_def split: option.splits)
next
  case True
  then obtain n where n: "node_of s i = Some n" "\<not> terminal n" by (auto simp: undone_def)
  define s1 where "s1 = (if get_or 0 (s_checked s) loop < iter
      then s\<lparr>s_checked := put loop iter (s_checked s)\<rparr> else s)"
  have q1: "quiet s s1" "s_clock s1 = s_clock s" by (simp_all add: s1_def quiet_def)
  have r1: "released {} s1" using released_quiet q1(1) r by blast
  have g1: "good k {i} {} s1" using g good_quiet [of s1 s k "{i}" "{}"]
    by (auto simp: s1_def carried_def lists_def books_def)
  show ?thesis
  proof (cases answer)
    case (Inl e)
    let ?s2 = "s1\<lparr>s_clock := Suc (s_clock s1)\<rparr>"
    have "released {} ?s2" by (rule released_quiet [OF _ r1]) (simp add: quiet_def)
    moreover have "i \<in> undone ?s2" using True q1 by (simp add: undone_def quiet_def)
    ultimately have "released {} (settle_result k i res False [] ?s2)" for res
      using released_settle [of k "{i}" "{}" ?s2 i] g1 by (simp add: good_clock)
    then show ?thesis using n Inl by (simp add: apply_expected_def Let_def tick_def flip: s1_def)
  next
    case (Inr count)
    define spec where "spec = get_or no_loop (s_loops s1) loop"
    define s2 where "s2 = emit k ((blank_event EventLoopExpected loop)\<lparr>ev_expected := count, ev_cap := l_max spec\<rparr>)
        (s1\<lparr>s_expected := put loop count (s_expected s1)\<rparr>)"
    define s3 where "s3 = upd_node i (\<lambda>n. n\<lparr>xn_life := Pending\<rparr>) s2"
    have "quiet s1 s2" by (simp add: s2_def quiet_def frame_sel [OF frame_emit])
    then have r2: "released {} s2" by (rule released_quiet [OF _ r1])
    have n2: "node_of s2 i = Some n" using n by (simp add: s2_def s1_def)
    have r3: "released {i} s3"
    proof -
      have "s_paused s3 = s_paused s2" unfolding s3_def by (rule frame_sel) (rule frame_upd_node)
      moreover have "g_indeg (s_g s3) = g_indeg (s_g s2)" by (simp add: s3_def upd_node_def set_node_def split: option.split)
      moreover have "life_at s3 x = life_at s2 x" if "x \<noteq> i" for x using that by (simp add: s3_def lives_def node_upd_node)
      ultimately show ?thesis using r2 unfolding released_def by (metis singletonI empty_iff)
    qed
    have held: "s_paused t \<Longrightarrow> released {} t" for t by (simp add: released_def)
    show ?thesis
      using n Inr released_push [OF r3] held
      by (simp add: apply_expected_def Let_def flip: s1_def)
         (simp add: spec_def [symmetric] s2_def [symmetric] s3_def [symmetric] frame_sel [OF frame_emit])
  qed
qed

lemma released_push_sources:
  assumes "released (set ids) s" and "\<And>x. 0 \<le> g_indeg (s_g s) x"
  shows "released {} (push_sources ids s)"
proof -
  have "released (set xs) t \<Longrightarrow> (\<And>x. 0 \<le> g_indeg (s_g t) x) \<Longrightarrow>
      released {} (fold (\<lambda>x s. if g_indeg (s_g s) x = 0 then push x s else s) xs t)" for xs t
  proof (induction xs arbitrary: t)
    case (Cons x xs)
    have "released (set xs) (if g_indeg (s_g t) x = 0 then push x t else t)"
    proof (cases "g_indeg (s_g t) x = 0")
      case True
      then show ?thesis using released_push [of x "set xs" t] Cons.prems(1) by simp
    next
      case False
      then have "0 < g_indeg (s_g t) x" using Cons.prems(2) [of x] by simp
      then show ?thesis using Cons.prems(1) False by (auto simp: released_def)
    qed
    then show ?case using Cons.IH Cons.prems(2) by (simp add: push_frame)
  qed simp
  from this [of "sort ids" s] assms show ?thesis by (simp add: push_sources_def)
qed

lemma indeg_nonneg: "good k H G s \<Longrightarrow> 0 \<le> g_indeg (s_g s) x"
  by (simp add: good_def ginv_def counted_def)

lemma released_extends: "extends i ids s u \<Longrightarrow> released {} s \<Longrightarrow> released (set ids) u"
  by (erule released_mono) (auto simp: extends_def lives_def)

lemma released_expansion:
  assumes g: "good k {i} {} s" and r: "released {} s"
    and cl: "\<And>insts. out = Inr insts \<Longrightarrow> \<forall>inst \<in> set insts. closed_ir (in_ir inst)"
  shows "released {} (apply_expansion k i out s)"
proof (cases "i \<in> undone s")
  case False
  then show ?thesis using r by (auto simp: apply_expansion_def undone_def split: option.splits)
next
  case True
  show ?thesis
  proof (rule expansion_cases [OF g True cl])
    fix res c
    assume "apply_expansion k i out s = settle_result k i res False [] (s\<lparr>s_clock := c\<rparr>)"
    moreover have "released {} (s\<lparr>s_clock := c\<rparr>)" by (rule released_quiet [OF _ r]) (simp add: quiet_def)
    ultimately show ?thesis using released_settle [of k "{i}" "{}" "s\<lparr>s_clock := c\<rparr>" i] g True by (simp add: good_clock)
  next
    fix sc es e
    let ?t = "s\<lparr>s_scopes := sc, s_g := (s_g s)\<lparr>g_envs := es\<rparr>\<rparr>"
    assume a: "apply_expansion k i out s = settle_failed k i ReasonExpansion e ?t"
    have "good k {i} {} ?t = good k {i} {} (s\<lparr>s_g := (s_g s)\<lparr>g_envs := es\<rparr>\<rparr>)"
      by (rule good_quiet) (simp_all add: carried_def lists_def books_def)
    then have "good k {i} {} ?t" using g by (simp add: good_envs)
    moreover have "released {} ?t" by (rule released_quiet [OF _ r]) (simp add: quiet_def)
    ultimately show ?thesis using a True released_cheap(1) [of k "{i}" "{}" ?t i] by (simp add: undone_def)
  next
    fix ids u ev p
    assume a: "apply_expansion k i out s = settle_ok k i p (emit k ev (push_sources ids u))"
      and u: "extends i ids s u" "good k {i} {i} u" "i \<in> undone u"
    let ?v = "push_sources ids u"
    have "i \<in> undone (emit k ev ?v)" using push_sources_undone [OF u(2,3)] by (simp add: undone_def)
    moreover have "good k {i} {i} (emit k ev ?v)" using good_push_sources [OF u(2)] by simp
    moreover have "released {} ?v"
      using released_push_sources [OF released_extends [OF u(1) r]] indeg_nonneg [OF u(2)] by simp
    then have "released {} (emit k ev ?v)" by (rule released_quiet [rotated]) simp
    ultimately show ?thesis using a released_cheap(2) by simp
  qed
qed

interpretation unforgotten: loop_path k "\<lambda>s t. released {} s \<longrightarrow> released {} t" for k
proof unfold_locales
  fix s t :: sched and H :: "string set" and i st a :: string
  show "good k H {} s \<Longrightarrow> i \<in> undone s \<Longrightarrow> skip_state st \<Longrightarrow>
      released {} s \<longrightarrow> released {} (settle_skip k i st a s)"
    using released_path.skip [of "{}" s i st k a] by (simp add: good_def)
qed (blast intro: due_undone released_quiet released_relabel released_push_same released_settle released_expected released_expansion)+

subsection \<open>A drain leaves nothing that could start\<close>

definition blocked :: "cfg \<Rightarrow> sched \<Rightarrow> bool" where
  "blocked k s \<longleftrightarrow> s_fatal s \<noteq> None \<or> s_paused s \<or> s_ready s = [] \<and>
     (\<forall>i n. node_of s i = Some n \<longrightarrow> xn_life n = SlotWait \<longrightarrow> hold_reason k s n \<noteq> [])"

definition pools_of where
  "pools_of (s :: sched) = (s_slots s, s_gen_pools s, s_lanes s)"

lemma hold_reason_cong:
  "pools_of s = pools_of t \<Longrightarrow> xn_gen n = xn_gen m \<Longrightarrow> lane_of n = lane_of m \<Longrightarrow> hold_reason k s n = hold_reason k t m"
  by (simp add: pools_of_def hold_reason_def slot_free_def gen_pool_def lane_pool_def)

text \<open>Nothing was launched so far: every node that waits for a slot is still queued, or held for a reason.\<close>

definition held_back :: "cfg \<Rightarrow> sched \<Rightarrow> string list \<Rightarrow> bool \<Rightarrow> bool" where
  "held_back k s held p \<longleftrightarrow> p \<or> (\<forall>i n. node_of s i = Some n \<longrightarrow> xn_life n = SlotWait \<longrightarrow>
     i \<in> set (s_slotq s) \<or> hold_reason k s n \<noteq> [])"

lemma announce_pools: "pools_of (announce_hold k i n why s) = pools_of s"
proof -
  have "frame (announce_hold k i n why s) = frame s" by (simp add: announce_hold_def frame_simps)
  from frame_sel [OF this] show ?thesis by (simp add: pools_of_def)
qed

lemma announced_alike:
  assumes "node_of (announce_hold k i n why s) j = Some m"
  shows "\<exists>m0. node_of s j = Some m0 \<and> xn_life m = xn_life m0 \<and> xn_gen m = xn_gen m0 \<and> lane_of m = lane_of m0"
proof (cases "why = [] \<or> xn_waiting n = why")
  case False
  then have "node_of (announce_hold k i n why s) j =
      (if j = i then map_option (\<lambda>n. n\<lparr>xn_waiting := why\<rparr>) (node_of s i) else node_of s j)"
    by (simp add: announce_hold_def node_upd_node)
  with assms show ?thesis by (auto simp: lane_of_def split: if_splits)
qed (use assms in \<open>simp add: announce_hold_def\<close>)

lemma held_back_announce:
  assumes "\<And>j m. \<not> p \<Longrightarrow> node_of s j = Some m \<Longrightarrow> xn_life m = SlotWait \<Longrightarrow> j \<in> set (s_slotq s) \<or> hold_reason k s m \<noteq> []"
  shows "held_back k (announce_hold k i n why s) held p"
proof (cases p)
  case p: False
  have "j \<in> set (s_slotq (announce_hold k i n why s)) \<or> hold_reason k (announce_hold k i n why s) m \<noteq> []"
    if m: "node_of (announce_hold k i n why s) j = Some m" "xn_life m = SlotWait" for j m
  proof -
    obtain m0 where m0: "node_of s j = Some m0" "xn_life m0 = SlotWait" "xn_gen m = xn_gen m0" "lane_of m = lane_of m0"
      using announced_alike [OF m(1)] m(2) by auto
    have "hold_reason k (announce_hold k i n why s) m = hold_reason k s m0"
      by (rule hold_reason_cong) (use m0 announce_pools in simp_all)
    then show ?thesis using assms [OF p m0(1,2)] by simp
  qed
  then show ?thesis by (simp add: held_back_def)
qed (simp add: held_back_def)

lemma grant_held:
  assumes "grant k s [] False = (t, held, p)" and q: "queue_inv {} s"
  shows "p \<or> s_fatal t \<noteq> None \<or> (\<forall>i n. node_of t i = Some n \<longrightarrow> xn_life n = SlotWait \<longrightarrow> hold_reason k t n \<noteq> [])"
proof -
  have "held_back k s [] False"
    using q by (auto simp: held_back_def queue_inv_def found_def lives_def)
  with assms(1) have "held_back k t held p \<and> (s_slotq t = [] \<or> \<not> slot_free k t \<or> s_fatal t \<noteq> None)"
  proof (rule grant_invariant)
    fix u i q held p
    assume u: "held_back k u held p" "s_slotq u = i # q" "\<And>n. node_of u i = Some n \<Longrightarrow> xn_life n \<noteq> SlotWait"
    have "hold_reason k (u\<lparr>s_slotq := q\<rparr>) n = hold_reason k u n" for n
      by (rule hold_reason_cong) (simp_all add: pools_of_def)
    then show "held_back k (u\<lparr>s_slotq := q\<rparr>) held p" using u by (auto simp: held_back_def)
  next
    fix u i q n held p
    assume u: "held_back k u held p" "s_slotq u = i # q" "node_of u i = Some n" "xn_life n = SlotWait"
      and why: "hold_reason k (u\<lparr>s_slotq := q\<rparr>) n \<noteq> []"
    have e: "hold_reason k (u\<lparr>s_slotq := q\<rparr>) m = hold_reason k u m" for m
      by (rule hold_reason_cong) (simp_all add: pools_of_def)
    show "held_back k (announce_hold k i n (hold_reason k (u\<lparr>s_slotq := q\<rparr>) n) (u\<lparr>s_slotq := q\<rparr>)) (held @ [i]) p"
      by (rule held_back_announce) (use u why e in \<open>simp add: held_back_def, metis option.inject\<close>)
  qed (simp add: held_back_def)
  moreover have "\<not> slot_free k t \<Longrightarrow> hold_reason k t n \<noteq> []" for n by (simp add: hold_reason_def)
  ultimately show ?thesis by (auto simp: held_back_def)
qed

lemma after_grant_held:
  assumes "\<forall>i n. node_of s i = Some n \<longrightarrow> xn_life n = SlotWait \<longrightarrow> hold_reason k s n \<noteq> []"
  shows "\<forall>i n. node_of (after_grant k held s) i = Some n \<longrightarrow> xn_life n = SlotWait \<longrightarrow>
     hold_reason k (after_grant k held s) n \<noteq> []"
proof -
  define s1 where "s1 = (if slot_free k s then s else case s_slotq s of [] \<Rightarrow> s
     | i # q \<Rightarrow> (case node_of s i of None \<Rightarrow> s
        | Some n \<Rightarrow> if xn_life n = SlotWait then announce_hold k i n (hold_reason k s n) s else s))"
  have p: "pools_of s1 = pools_of s" by (auto simp: s1_def announce_pools split: list.split option.split)
  have n: "\<exists>m0. node_of s j = Some m0 \<and> xn_life m = xn_life m0 \<and> xn_gen m = xn_gen m0 \<and> lane_of m = lane_of m0"
    if "node_of s1 j = Some m" for j m
    using that announced_alike by (auto simp: s1_def split: if_splits list.splits option.splits)
  have a: "after_grant k held s = s1\<lparr>s_slotq := fold insort held (s_slotq s1)\<rparr>"
    unfolding after_grant_def Let_def s1_def ..
  show ?thesis
  proof (intro allI impI)
    fix j m
    assume m: "node_of (after_grant k held s) j = Some m" "xn_life m = SlotWait"
    then obtain m0 where m0: "node_of s j = Some m0" "xn_life m0 = SlotWait" "xn_gen m = xn_gen m0" "lane_of m = lane_of m0"
      using n [of j m] by (auto simp: a)
    have "hold_reason k (after_grant k held s) m = hold_reason k s m0"
      by (rule hold_reason_cong) (use m0 p in \<open>simp_all add: a pools_of_def\<close>)
    then show "hold_reason k (after_grant k held s) m \<noteq> []" using assms m0 by simp
  qed
qed

lemma ready_idle:
  assumes "ready_loop k s p = (t, False)"
  shows "\<not> p" "t = s\<lparr>s_ready := s_ready t\<rparr>" "s_ready t = [] \<or> s_fatal t \<noteq> None"
proof -
  have "(False \<or> (\<not> p \<and> t = s\<lparr>s_ready := s_ready t\<rparr>)) \<and> (s_ready t = [] \<or> s_fatal t \<noteq> None)"
    by (rule ready_loop_invariant [where I = "\<lambda>u r. r \<or> (\<not> p \<and> u = s\<lparr>s_ready := s_ready u\<rparr>)", OF assms]) auto
  then show "\<not> p" "t = s\<lparr>s_ready := s_ready t\<rparr>" "s_ready t = [] \<or> s_fatal t \<noteq> None" by blast+
qed

lemma fatal_announce: "s_fatal (announce_hold k i n why s) = s_fatal s"
proof -
  have "s_fatal (emit k e u) = s_fatal u" for e u
    using emit_keeps(2) [of k e u] by (simp add: books_def)
  then show ?thesis by (simp add: announce_hold_def upd_node_def set_node_def split: option.split)
qed

lemma ready_sel:
  assumes "t = s\<lparr>s_ready := q\<rparr>"
  shows "s_fatal t = s_fatal s" "node_of t = node_of s" "pools_of t = pools_of s"
  by (simp_all add: assms pools_of_def)

lemma blocked_drain: "good k {} {} s \<Longrightarrow> blocked k (drain k s)"
proof (induction k s rule: drain.induct)
  case (1 k s)
  show ?case
  proof (cases "s_fatal s \<noteq> None")
    case True
    then show ?thesis by (simp add: drain.simps blocked_def)
  next
    case nf: False
    obtain b s1 where p: "pause_gate k s = (b, s1)" by fastforce
    have g1: "good k {} {} s1" using good_pause_gate [OF p] "1.prems" by simp
    show ?thesis
    proof (cases b)
      case True
      have "s_paused s1" using p True frame_sel [OF frame_emit]
        by (auto simp: pause_gate_def Let_def split: option.splits if_splits)
      then show ?thesis using nf p True by (simp add: drain.simps blocked_def)
    next
      case False
      obtain s2 held p1 where gr: "grant k s1 [] False = (s2, held, p1)" by (metis prod_cases3)
      obtain s3 p2 where rl: "ready_loop k (after_grant k held s2) p1 = (s3, p2)" by fastforce
      have "good k (set held) {} s2 \<and> waits s2 held" using good_grant [OF gr] g1 by (simp add: waits_def)
      then have g3: "good k {} {} s3" using good_ready_loop [OF rl] good_after_grant by blast
      show ?thesis
      proof (cases p2)
        case True
        have "b = False" using False by simp
        then have "blocked k (drain k s3)"
          using "1.IH" [OF nf p [symmetric] _ gr [symmetric] HOL.refl rl [symmetric] _ g3] True by simp
        then show ?thesis using nf p False gr rl True by (subst drain.simps) simp
      next
        case False
        note I = ready_idle [OF rl [unfolded False [THEN eq_False [THEN iffD2]]]]
        have "s_fatal (after_grant k held s2) = s_fatal s2"
          by (auto simp: after_grant_def Let_def fatal_announce split: list.split option.split)
        moreover have "s_fatal s3 = s_fatal (after_grant k held s2)" by (rule ready_sel [OF I(2)])
        ultimately have f: "s_fatal s3 = s_fatal s2" by simp
        have "blocked k s3"
        proof (cases "s_fatal s2 = None")
          case True
          have "\<forall>i n. node_of s2 i = Some n \<longrightarrow> xn_life n = SlotWait \<longrightarrow> hold_reason k s2 n \<noteq> []"
            using grant_held [OF gr good_queue [OF g1]] True I(1) by simp
          note h = after_grant_held [OF this, of held]
          have n3: "node_of s3 = node_of (after_grant k held s2)" by (rule ready_sel [OF I(2)])
          have "hold_reason k s3 n = hold_reason k (after_grant k held s2) n" for n
            by (rule hold_reason_cong) (simp_all add: ready_sel(3) [OF I(2)])
          then show ?thesis using h n3 f True I(3) by (simp add: blocked_def)
        qed (simp add: blocked_def f)
        then show ?thesis using nf p \<open>\<not> b\<close> gr rl False by (subst drain.simps) simp
      qed
    qed
  qed
qed

subsection \<open>Every reachable state\<close>

lemma released_start:
  assumes g: "good k {} {} s"
  shows "released {} (run_start k s)"
proof -
  have "run_start k s = drain k (push_sources (sorted_ids (s_g s)) s)"
    using sorted_sorted_keys by (simp add: run_start_def push_sources_def sorted_ids_def sorted_sort_id)
  moreover have "released (set (sorted_ids (s_g s))) s"
    by (auto simp: released_def sorted_ids_def set_sorted_keys lives_def dom_def
        intro: rev_image_eqI dest: map_of_SomeD)
  then have "released {} (push_sources (sorted_ids (s_g s)) s)"
    using released_push_sources indeg_nonneg [OF g] by blast
  ultimately show ?thesis using unforgotten.drained [OF good_push_sources [OF g]] by simp
qed

lemma blocked_same:
  assumes "s_g t = s_g s" "pools_of t = pools_of s" "s_ready t = s_ready s"
    "s_fatal s \<noteq> None \<longrightarrow> s_fatal t \<noteq> None" "s_paused s \<longrightarrow> s_paused t"
  shows "blocked k s \<Longrightarrow> blocked k t"
proof -
  have "hold_reason k t n = hold_reason k s n" for n by (rule hold_reason_cong) (simp_all add: assms(2))
  then show "blocked k s \<Longrightarrow> blocked k t" using assms by (auto simp: blocked_def)
qed

lemma blocked_fold:
  "good k {} {} (step_event k ev s) \<Longrightarrow> blocked k (fold_event k ev s)"
  using blocked_drain by (auto simp: fold_event_def Let_def blocked_def)

lemma reachable_blocked:
  assumes "reachable k r s" and c: "closed_ir (rp_ir r)" and irs: "\<forall>p \<in> set (k_irs k). closed_ir (snd p)"
  shows "blocked k s \<and> released {} s"
  using assms(1)
proof induction
  case (start s)
  have g: "good k {} {} s" by (rule good_setup [OF start c])
  have "run_start k s = drain k (push_sources (sorted_ids (s_g s)) s)"
    using sorted_sorted_keys by (simp add: run_start_def push_sources_def sorted_ids_def sorted_sort_id)
  then show ?case using blocked_drain [OF good_push_sources [OF g]] released_start [OF g] by simp
next
  case (more s t)
  have g: "good k {} {} s" using reachable_good [OF more(1) c irs] .
  have "released {} t" using unforgotten.stepped [OF more(2) g irs] more.IH by blast
  moreover have "blocked k t"
    using more(2)
  proof cases
    case (deliver ws w vs ev)
    then show ?thesis using blocked_fold good_deliver [OF g _ _ irs] by blast
  next
    case (wake ts i us)
    then show ?thesis using blocked_fold good_wake_event [OF g] by blast
  next
    case (abort cause)
    then show ?thesis by (simp add: blocked_def)
  next
    case poll
    then show ?thesis using blocked_drain [OF g] by simp
  next
    case (journaled j e)
    then have "t = s\<lparr>s_journal := s_journal s @ [e]\<rparr>" by (auto simp: append_entry_def split: option.splits)
    then show ?thesis using more.IH by (intro blocked_same [of t s]) (simp_all add: pools_of_def)
  next
    case (started j now attempt)
    have "pools_of t = pools_of s" "s_paused t = s_paused s"
      using frame_sel [OF frame_emit] by (simp_all add: started pools_of_def)
    moreover have "s_ready t = s_ready s" "s_fatal t = s_fatal s"
      using emit_keeps by (simp_all add: started lists_def books_def)
    ultimately show ?thesis using more.IH by (intro blocked_same [of t s]) (simp_all add: started)
  qed
  ultimately show ?case by blast
qed

subsection \<open>Something is always in flight\<close>

definition depends :: "sched \<Rightarrow> (string \<times> string) set" where
  "depends s = {(a, b). b \<in> set (succs (s_g s) a)}"

text \<open>With no box in flight every pool is free.\<close>

lemma idle_free:
  assumes p: "pool_inv k s" and b: "boxes s = []"
  shows "hold_reason k s n = []"
proof -
  have used: "p_used q = 0" if "counts f (boxes s) ps" "map_of ps c = Some q" "c \<noteq> []" for f ps c q
    using that b by (simp add: counts_def)
  have "slot_free k s" using p b by (auto simp: pool_inv_def slot_free_def)
  moreover have "pool_free (gen_pool s n)"
    using used [of "gen_at s" "s_gen_pools s"] p
    by (auto simp: gen_pool_def pool_free_def pool_inv_def split: option.split)
  moreover have "pool_free (lane_pool s n)"
    using used [of "lane_at s" "s_lanes s"] p
    by (auto simp: lane_pool_def pool_free_def pool_inv_def split: option.split)
  ultimately show ?thesis by (simp add: hold_reason_def)
qed

lemma finite_depends: "ginv P (s_g s) \<Longrightarrow> finite (depends s)"
proof (rule finite_subset)
  assume g: "ginv P (s_g s)"
  show "depends s \<subseteq> known s \<times> known s"
    using shape_known ginvD(1) [OF g] by (fastforce simp: depends_def)
qed (simp add: finite_keys)

lemma unfinished_undone:
  assumes g: "ginv P (s_g s)" and "\<not> finished s"
  shows "undone s \<noteq> {}"
proof
  assume "undone s = {}"
  then have "i \<in> known s \<Longrightarrow> is_done (s_g s) i" for i using undone_done [of i s] by blast
  then have d: "known s = {i. is_done (s_g s) i}" by (auto simp: is_done_def)
  have "distinct (map fst (g_nodes (s_g s)))" using ginvD(1) [OF g] by (simp add: shape_ok_def)
  then have "length (g_nodes (s_g s)) = card (known s)" by (simp add: length_card_keys)
  moreover have "g_done (s_g s) = int (card (known s))" using ginvD(5) [OF g] d by (simp add: tally_ok_def)
  ultimately show False using assms(2) by (simp add: finished_def)
qed

lemma finished_iff:
  assumes g: "ginv P (s_g s)"
  shows "finished s \<longleftrightarrow> undone s = {}"
proof
  assume f: "finished s"
  have "distinct (map fst (g_nodes (s_g s)))" using ginvD(1) [OF g] by (simp add: shape_ok_def)
  then have "length (g_nodes (s_g s)) = card (known s)" by (simp add: length_card_keys)
  then have "card (known s) \<le> card {i. is_done (s_g s) i}" using f ginvD(5) [OF g] by (simp add: finished_def tally_ok_def)
  moreover have "{i. is_done (s_g s) i} \<subseteq> known s" by (auto simp: is_done_def)
  ultimately have "{i. is_done (s_g s) i} = known s" using card_seteq [OF finite_keys] by blast
  then show "undone s = {}" unfolding set_eq_iff undone_done by blast
qed (use unfinished_undone [OF g] in blast)

lemma idle_pending:
  assumes g: "good k {} {} s" and b: "blocked k s" and r: "released {} s"
    and live: "s_fatal s = None" "\<not> s_paused s"
    and idle: "s_workers s = []" "s_timers s = []" "s_wait_zero s = []"
    and i: "i \<in> undone s"
  shows "\<exists>a \<in> undone s. (a, i) \<in> depends s"
proof -
  obtain n where n: "node_of s i = Some n" "xn_life n \<noteq> Done" using i by (auto simp: undone_def terminal_def)
  have l: "life_at s i = Some (xn_life n, xn_status n)" using n by (simp add: lives_def)
  have f: "found {} s i (xn_life n)" using good_queue [OF g] l by (simp add: queue_inv_def)
  have "hold_reason k s n = []"
    using idle_free [of k s n] g idle by (simp add: good_core boxes_def)
  then have "xn_life n \<noteq> SlotWait" using b live n by (auto simp: blocked_def)
  moreover have "s_ready s = []" using b live by (simp add: blocked_def)
  ultimately have "xn_life n = Pending" using f idle n(2) by (cases "xn_life n") (auto simp: found_def)
  then have "0 < g_indeg (s_g s) i" using r live l by (auto simp: released_def)
  then have "open_preds {} (s_g s) i \<noteq> {}" using g by (auto simp: good_def ginv_def counted_def)
  then obtain a where a: "i \<in> set (succs (s_g s) a)" "\<not> is_done (s_g s) a" by (auto simp: open_preds_def)
  moreover have "shape_ok (s_g s)" using g ginvD(1) by (auto simp: good_def)
  then have "a \<in> known s" using a(1) by (rule shape_known(1))
  ultimately have "a \<in> undone s" "(a, i) \<in> depends s" unfolding undone_done depends_def by blast+
  then show ?thesis by blast
qed

lemma never_stuck:
  assumes "reachable k r s" and c: "closed_ir (rp_ir r)" and irs: "\<forall>p \<in> set (k_irs k). closed_ir (snd p)"
    and loop: "looping s" and ac: "acyclic (depends s)" and z: "s_wait_zero s = []"
  shows "s_workers s \<noteq> [] \<or> s_timers s \<noteq> []"
proof (rule ccontr)
  assume "\<not> (s_workers s \<noteq> [] \<or> s_timers s \<noteq> [])"
  then have idle: "s_workers s = []" "s_timers s = []" by auto
  have g: "good k {} {} s" by (rule reachable_good [OF assms(1) c irs])
  have "s_outstanding s = 0" using g idle by (simp add: good_core core_def worker_inv_def)
  then have live: "s_fatal s = None" "\<not> s_paused s" "\<not> finished s"
    using loop by (auto simp: looping_def split: if_splits)
  have gi: "ginv {} (s_g s)" using g by (simp add: good_def)
  have "wf (depends s)" using finite_acyclic_wf finite_depends [OF gi] ac by blast
  moreover obtain i0 where "i0 \<in> undone s" using unfinished_undone [OF gi live(3)] by blast
  ultimately obtain i where "i \<in> undone s" "\<And>a. (a, i) \<in> depends s \<Longrightarrow> a \<notin> undone s" by (rule wfE_min) blast
  then show False using idle_pending [OF g _ _ live(1,2) idle z] reachable_blocked [OF assms(1) c irs] by blast
qed

end
