(* ===== verification/Verdicts.thy ===== *)
theory Verdicts
  imports Finality
begin

text \<open>
  Fail-stop over whole executions: a step that reached a verdict of its own (ok, failed or halted, not
  a skip) had every dependency settled, and none of them failed or halted. The order is kept by every
  step of the main loop, and dependencies are only ever added.
\<close>

subsection \<open>The order of verdicts\<close>

definition verdict_ok :: "sched \<Rightarrow> bool" where
  "verdict_ok s \<longleftrightarrow> (\<forall>i st a. life_at s i = Some (Done, st) \<longrightarrow> \<not> skip_state st \<longrightarrow>
     i \<in> set (succs (s_g s) a) \<longrightarrow> is_done (s_g s) a \<and> \<not> stops (s_g s) a)"

text \<open>The nodes settled since: skipped, or in \<open>D\<close>.\<close>

definition settles_only :: "string set \<Rightarrow> sched \<Rightarrow> bool" where
  "settles_only D s \<longleftrightarrow> (\<forall>j st. life_at s j = Some (Done, st) \<longrightarrow> skip_state st \<or> j \<in> D)"

lemma verdict_extend:
  assumes v: "verdict_ok s" and f: "frozen s t" and su: "succs (s_g t) = succs (s_g s)"
    and d: "settles_only D t"
    and D: "\<And>i a. i \<in> D \<Longrightarrow> i \<in> set (succs (s_g s) a) \<Longrightarrow> \<not> is_done (s_g s) i \<Longrightarrow>
       is_done (s_g s) a \<and> \<not> stops (s_g s) a"
  shows "verdict_ok t"
  unfolding verdict_ok_def
proof (intro allI impI)
  fix i st a
  assume i: "life_at t i = Some (Done, st)" "\<not> skip_state st" and a: "i \<in> set (succs (s_g t) a)"
  have "is_done (s_g s) a \<and> \<not> stops (s_g s) a"
  proof (cases "is_done (s_g s) i")
    case True
    then obtain st' where "life_at s i = Some (Done, st')" by (auto simp: lives_done)
    with frozen_life [OF f this] i(1) have "life_at s i = Some (Done, st)" by simp
    then show ?thesis using v i(2) a by (auto simp: verdict_ok_def su)
  next
    case False
    have "i \<in> D" using d i by (auto simp: settles_only_def)
    then show ?thesis using D a False by (auto simp: su)
  qed
  then show "is_done (s_g t) a \<and> \<not> stops (s_g t) a" using frozen_done [OF f] frozen_stops [OF f] by blast
qed

lemma settles_only_same: "life_at t = life_at s \<Longrightarrow> settles_only D s \<Longrightarrow> settles_only D t"
  by (simp add: settles_only_def)

lemma settles_only_push: "settles_only D s \<Longrightarrow> settles_only D (push i s)"
  by (auto simp: settles_only_def life_push split: if_splits)

lemma settles_only_wake: "settles_only D s \<Longrightarrow> settles_only D (wake_parked s)"
proof -
  assume s: "settles_only D s"
  have "settles_only D t \<Longrightarrow> settles_only D (fold (\<lambda>w s. case node_of s w of None \<Rightarrow> s
      | Some n \<Rightarrow> if xn_life n = Deferred then push w s else s) xs t)" for xs t
  proof (induction xs arbitrary: t)
    case (Cons x xs)
    have "settles_only D (case node_of t x of None \<Rightarrow> t | Some n \<Rightarrow> if xn_life n = Deferred then push x t else t)"
      using Cons.prems settles_only_push by (simp split: option.split)
    from Cons.IH [OF this] show ?case by simp
  qed simp
  moreover have "settles_only D (s\<lparr>s_wait_zero := []\<rparr>)" by (rule settles_only_same [OF _ s]) simp
  ultimately show ?thesis using s by (simp add: wake_parked_def)
qed

lemma settles_only_mark: "settles_only D s \<Longrightarrow> skip_state st \<or> i \<in> D \<Longrightarrow> settles_only D (mark_done i st s)"
  by (auto simp: settles_only_def life_mark split: if_splits)

lemma settles_only_release: "settles_only D s \<Longrightarrow> settles_only D (release_succs i s)"
proof -
  have e: "settles_only D (t\<lparr>s_g := (s_g t)\<lparr>g_indeg := f\<rparr>\<rparr>) = settles_only D t" for t :: sched and f
    by (simp add: settles_only_def lives_def)
  have one: "settles_only D t \<Longrightarrow> settles_only D (release_one d t)" for d t
    using settles_only_push e by (simp add: release_one_def Let_def split: option.split)
  have "settles_only D t \<Longrightarrow> settles_only D (fold release_one ds t)" for ds t
    by (induction ds arbitrary: t) (simp_all add: one)
  then show "settles_only D s \<Longrightarrow> settles_only D (release_succs i s)" by (simp add: release_succs_def)
qed

interpretation verdict_path: settle_path k "\<lambda>P s. ginv P (s_g s) \<and> settles_only D s" for k D
proof unfold_locales
  fix P :: "string set" and s :: sched and i d st a :: string
  show "ginv P (s_g s) \<and> settles_only D s \<Longrightarrow> i \<in> P \<Longrightarrow> is_done (s_g s) i"
    using graph_path.settled by blast
  show "ginv P (s_g s) \<and> settles_only D s \<Longrightarrow> i \<in> undone s \<Longrightarrow> skip_state st \<Longrightarrow>
      ginv (insert i P) (s_g (mark_done i st (skip_record k i st a s))) \<and>
      settles_only D (mark_done i st (skip_record k i st a s))"
    using graph_path.mark settles_only_mark settles_only_same [of "skip_record k i st a s" s] by auto
  show "ginv P (s_g s) \<and> settles_only D s \<Longrightarrow> i \<in> P \<Longrightarrow>
      (stops (s_g s) i \<Longrightarrow> \<forall>d \<in> set (succs (s_g s) i). is_done (s_g s) d) \<Longrightarrow>
      ginv (P - {i}) (s_g (release_succs i s)) \<and> settles_only D (release_succs i s)"
    using graph_path.release settles_only_release by blast
  show "ginv P (s_g s) \<and> settles_only D s \<Longrightarrow> ginv P (s_g (wake_parked s)) \<and> settles_only D (wake_parked s)"
    using graph_path.wake settles_only_wake by blast
  show "ginv P (s_g s) \<and> settles_only D s \<Longrightarrow> i \<in> P \<Longrightarrow> d \<in> set (succs (s_g s) i) \<Longrightarrow>
      \<exists>l st. life_at s d = Some (l, st) \<and> (l = Pending \<or> l = Done)"
    using graph_path.waiting by blast
qed

text \<open>Wiring does not change on the settle path.\<close>

lemma succs_frame: "frame t = frame s \<Longrightarrow> succs (s_g t) = succs (s_g s)"
  using frame_sel by (metis)

lemma frame_settle_result: "frame (settle_result k i res x cs s) = frame s"
proof (cases "node_of s i")
  case (Some n)
  obtain st r p where sh: "settle_shape k res = (st, r, p)" by (metis prod_cases3)
  obtain m where m: "store_payload i n p r s = set_node i m s" using store_payload_alike [OF Some] by blast
  have "frame (settle_records k i n st r x cs (set_node i m s)) = frame s"
    by (simp add: settle_records_keeps(1) frame_set_node)
  moreover have "frame (finish k i st t) = frame t" for t by (simp add: finish_def Let_def frame_simps)
  ultimately show ?thesis by (simp add: settle_result_def Some sh m)
qed (simp add: settle_result_def)

lemma skip_verdict:
  assumes g: "good k H G s" and i: "i \<in> undone s" and st: "skip_state st" and v: "verdict_ok s"
  shows "verdict_ok (settle_skip k i st a s)"
proof (rule verdict_extend [OF v frozen_skip [OF i] succs_frame [OF frame_settle_skip]])
  have "settles_only {j. is_done (s_g s) j} s" by (auto simp: settles_only_def lives_done)
  then show "settles_only {j. is_done (s_g s) j} (settle_skip k i st a s)"
    using verdict_path.skip [of "{}" s "{j. is_done (s_g s) j}" i st k a] g i st by (simp add: good_def)
qed simp

lemma settle_verdict:
  assumes g: "good k H G s" and d: "due s i" and v: "verdict_ok s"
  shows "verdict_ok (settle_result k i res x cs s)"
proof -
  have i: "i \<in> undone s" using d by (rule due_undone)
  obtain n where n: "node_of s i = Some n" "\<not> terminal n" using i by (auto simp: undone_def)
  obtain st r p where sh: "settle_shape k res = (st, r, p)" by (metis prod_cases3)
  define u where "u = settle_records k i n st r x cs (store_payload i n p r s)"
  obtain m where m: "alike n m" "store_payload i n p r s = set_node i m s"
    using store_payload_alike [OF n(1)] by blast
  have gu: "s_g u = s_g (set_node i m s)" by (simp add: u_def m)
  have "i \<in> undone (set_node i m s)" using n m(1) by (auto simp: undone_def alike_def terminal_def)
  then have iu: "i \<in> undone u" by (simp add: undone_def gu)
  have "ginv {} (s_g u)" using g ginv_alike [OF n(1) m(1)] by (simp add: gu good_def)
  from ginv_mark [OF this iu] have "ginv (insert i {}) (s_g (mark_done i st u))" .
  moreover let ?D = "insert i {j. is_done (s_g s) j}"
  have "settles_only ?D s" by (auto simp: settles_only_def lives_done)
  moreover have "life_at u = life_at s" using n m(1) by (auto simp: gu life_set_node alike_def lives_def fun_eq_iff)
  ultimately have "settles_only ?D (settle_result k i res x cs s)"
    using verdict_path.finish [of i "{}" st u ?D k] iu settles_only_mark [of ?D u st i] settles_only_same [of u s ?D]
    by (simp add: settle_result_def n sh u_def)
  moreover have "succs (s_g (settle_result k i res x cs s)) = succs (s_g s)"
    by (rule succs_frame) (rule frame_settle_result)
  moreover have "is_done (s_g s) a \<and> \<not> stops (s_g s) a"
    if "j \<in> ?D" "j \<in> set (succs (s_g s) a)" "\<not> is_done (s_g s) j" for j a
    using that ginv_ready [of "s_g s" i _ a] g d by (auto simp: good_def due_def terminal_def)
  ultimately show ?thesis using verdict_extend [OF v frozen_settle [OF i]] by blast
qed

subsection \<open>Every step of the loop\<close>

definition keeps_order :: "sched \<Rightarrow> sched \<Rightarrow> bool" where
  "keeps_order s t \<longleftrightarrow> (verdict_ok s \<longrightarrow> verdict_ok t) \<and>
     (\<forall>a. set (succs (s_g s) a) \<subseteq> set (succs (s_g t) a))"

lemma keeps_order_trans: "keeps_order s t \<Longrightarrow> keeps_order t u \<Longrightarrow> keeps_order s u"
  by (simp add: keeps_order_def) blast

lemma keeps_orderI: "succs (s_g t) = succs (s_g s) \<Longrightarrow> (verdict_ok s \<Longrightarrow> verdict_ok t) \<Longrightarrow> keeps_order s t"
  by (simp add: keeps_order_def)

text \<open>Nothing settles: only settled lives and wiring matter.\<close>

lemma keeps_order_lives:
  assumes "succs (s_g t) = succs (s_g s)" and "\<And>i st. life_at t i = Some (Done, st) \<longleftrightarrow> life_at s i = Some (Done, st)"
  shows "keeps_order s t"
proof (rule keeps_orderI [OF assms(1)])
  have "is_done (s_g t) = is_done (s_g s)" "stops (s_g t) = stops (s_g s)"
    by (auto simp: fun_eq_iff lives_done lives_stops assms(2))
  then show "verdict_ok s \<Longrightarrow> verdict_ok t" using assms by (simp add: verdict_ok_def)
qed

lemma keeps_order_quiet: "quiet s t \<Longrightarrow> keeps_order s t"
proof (rule keeps_order_lives)
  assume q: "quiet s t"
  then show "succs (s_g t) = succs (s_g s)" by (simp add: quiet_def fun_eq_iff)
  have "life_at t = life_at s" using q by (intro life_at_eq) (simp add: quiet_def)
  then show "life_at t i = Some (Done, st) \<longleftrightarrow> life_at s i = Some (Done, st)" for i st by simp
qed

lemma keeps_order_push: "keeps_order s (push i s)"
proof (rule keeps_order_lives)
  show "succs (s_g (push i s)) = succs (s_g s)" by (rule succs_frame) (rule frame_push)
qed (auto simp: life_push split: if_splits)

lemma keeps_order_relabel:
  "node_of s i = Some n \<Longrightarrow> \<not> terminal n \<Longrightarrow> xn_life m \<noteq> Done \<Longrightarrow> keeps_order s (set_node i m s)"
  by (rule keeps_order_lives [OF succs_frame [OF frame_set_node]]) (auto simp: life_set_node lives_def terminal_def)

lemma keeps_order_settle:
  assumes "good k H G s" and "due s i"
  shows "keeps_order s (settle_result k i res x cs s)"
  by (rule keeps_orderI [OF succs_frame [OF frame_settle_result] settle_verdict [OF assms]])

lemma keeps_order_cheap:
  assumes "good k H G s" and "due s i"
  shows "keeps_order s (settle_failed k i r d s)" "keeps_order s (settle_ok k i p s)"
proof -
  let ?s = "s\<lparr>s_clock := Suc (s_clock s)\<rparr>"
  have "keeps_order s ?s" by (rule keeps_order_quiet) (simp add: quiet_def)
  moreover have "keeps_order ?s (settle_result k i res x cs ?s)" for res x cs
    using assms by (intro keeps_order_settle [of k H G]) (simp_all add: good_clock due_def)
  ultimately have "keeps_order s (settle_result k i res x cs ?s)" for res x cs using keeps_order_trans by blast
  then show "keeps_order s (settle_failed k i r d s)" "keeps_order s (settle_ok k i p s)"
    by (simp_all add: settle_failed_def settle_ok_def tick_def)
qed

lemma keeps_order_expected:
  assumes g: "good k {i} {} s" and d: "i \<in> undone s \<longrightarrow> due s i"
  shows "keeps_order s (apply_expected k i loop iter answer s)"
proof (cases "i \<in> undone s")
  case False
  then show ?thesis using keeps_order_quiet [of s s]
    by (auto simp: apply_expected_def undone_def quiet_def split: option.splits)
next
  case True
  then obtain n where n: "node_of s i = Some n" "\<not> terminal n" by (auto simp: undone_def)
  define s1 where "s1 = (if get_or 0 (s_checked s) loop < iter
      then s\<lparr>s_checked := put loop iter (s_checked s)\<rparr> else s)"
  have q1: "quiet s s1" by (simp add: s1_def quiet_def)
  have g1: "good k {i} {} s1" using g good_quiet [of s1 s k "{i}" "{}"]
    by (auto simp: s1_def carried_def lists_def books_def)
  show ?thesis
  proof (cases answer)
    case (Inl e)
    let ?s2 = "s1\<lparr>s_clock := Suc (s_clock s1)\<rparr>"
    have "quiet s ?s2" using q1 by (simp add: quiet_def)
    then have "keeps_order s ?s2" by (rule keeps_order_quiet)
    moreover have "keeps_order ?s2 (settle_result k i res False [] ?s2)" for res
      using g1 d True q1 by (intro keeps_order_settle [of k "{i}" "{}"]) (simp_all add: good_clock due_def quiet_def)
    ultimately have "keeps_order s (settle_result k i res False [] ?s2)" for res using keeps_order_trans by blast
    then show ?thesis using n Inl by (simp add: apply_expected_def Let_def tick_def flip: s1_def)
  next
    case (Inr count)
    define spec where "spec = get_or no_loop (s_loops s1) loop"
    define s2 where "s2 = emit k ((blank_event EventLoopExpected loop)\<lparr>ev_expected := count, ev_cap := l_max spec\<rparr>)
        (s1\<lparr>s_expected := put loop count (s_expected s1)\<rparr>)"
    define s3 where "s3 = upd_node i (\<lambda>n. n\<lparr>xn_life := Pending\<rparr>) s2"
    have "quiet s s2" using q1 by (simp add: s2_def quiet_def frame_sel [OF frame_emit])
    then have r2: "keeps_order s s2" by (rule keeps_order_quiet)
    have n2: "node_of s2 i = Some n" using n by (simp add: s2_def s1_def)
    then have "keeps_order s2 s3" using keeps_order_relabel [OF n2 n(2)] by (simp add: s3_def upd_node_def)
    with r2 have r3: "keeps_order s s3" by (rule keeps_order_trans)
    then have push: "keeps_order s (push i s3)" using keeps_order_push keeps_order_trans by blast
    have "keeps_order s3 (emit k e (s3\<lparr>s_paused := True, s_pause_detail := d\<rparr>))" for e d
      by (rule keeps_order_quiet) (simp add: quiet_def frame_sel [OF frame_emit])
    then have "keeps_order s (emit k e (s3\<lparr>s_paused := True, s_pause_detail := d\<rparr>))" for e d
      using r3 keeps_order_trans by blast
    then show ?thesis
      using n Inr push r3
      by (simp add: apply_expected_def Let_def flip: s1_def)
         (simp add: spec_def [symmetric] s2_def [symmetric] s3_def [symmetric])
  qed
qed

lemma keeps_order_push_sources: "keeps_order s (push_sources ids s)"
proof -
  have "keeps_order s (fold (\<lambda>x s. if g_indeg (s_g s) x = 0 then push x s else s) xs s)" for xs s
  proof (induction xs arbitrary: s)
    case (Cons x xs)
    have "keeps_order s (if g_indeg (s_g s) x = 0 then push x s else s)"
      using keeps_order_push keeps_order_quiet [of s s] by (simp add: quiet_def)
    from keeps_order_trans [OF this Cons.IH] show ?case by simp
  qed (simp add: keeps_order_quiet quiet_def)
  then show ?thesis by (simp add: push_sources_def)
qed

lemma due_push_sources: "due s i \<Longrightarrow> due (push_sources ids s) i"
proof -
  have one: "due s i \<Longrightarrow> due (push x s) i" for x s
    by (auto simp: due_def push_def terminal_def split: option.split)
  have "due s i \<Longrightarrow> due (fold (\<lambda>x s. if g_indeg (s_g s) x = 0 then push x s else s) xs s) i" for xs s
    by (induction xs arbitrary: s) (simp_all add: one)
  then show "due s i \<Longrightarrow> due (push_sources ids s) i" by (simp add: push_sources_def)
qed

text \<open>The new edges of a splice end in pending nodes, or in dependents of the unsettled generate, which
  have no verdict.\<close>

lemma keeps_order_extends:
  assumes e: "extends i ids s u" and i: "\<not> is_done (s_g s) i"
  shows "keeps_order s u"
  unfolding keeps_order_def
proof (intro conjI impI allI)
  show "set (succs (s_g s) a) \<subseteq> set (succs (s_g u) a)" for a using e by (simp add: extends_def)
  assume v: "verdict_ok s"
  show "verdict_ok u"
    unfolding verdict_ok_def
  proof (intro allI impI)
    fix j st a
    assume j: "life_at u j = Some (Done, st)" "\<not> skip_state st" and a: "j \<in> set (succs (s_g u) a)"
    have new: "j \<notin> set ids" using e j(1) by (auto simp: extends_def lives_def)
    then have lj: "life_at s j = Some (Done, st)" using e j(1) by (simp add: extends_def lives_def)
    have "j \<notin> set (succs (s_g s) i)" using v lj j(2) i by (auto simp: verdict_ok_def)
    then have "j \<in> set (succs (s_g s) a)" using e a new by (auto simp: extends_def)
    then have "is_done (s_g s) a \<and> \<not> stops (s_g s) a" using v lj j(2) by (auto simp: verdict_ok_def)
    then show "is_done (s_g u) a \<and> \<not> stops (s_g u) a"
      using frozen_done [OF frozen_extends [OF e]] frozen_stops [OF frozen_extends [OF e]] by blast
  qed
qed

lemma keeps_order_expansion:
  assumes g: "good k {i} {} s" and d: "i \<in> undone s \<longrightarrow> due s i"
    and cl: "\<And>insts. out = Inr insts \<Longrightarrow> \<forall>inst \<in> set insts. closed_ir (in_ir inst)"
  shows "keeps_order s (apply_expansion k i out s)"
proof (cases "i \<in> undone s")
  case False
  then show ?thesis using keeps_order_quiet [of s s]
    by (auto simp: apply_expansion_def undone_def quiet_def split: option.splits)
next
  case True
  then have due: "due s i" using d by simp
  show ?thesis
  proof (rule expansion_cases [OF g True cl])
    fix res c
    assume a: "apply_expansion k i out s = settle_result k i res False [] (s\<lparr>s_clock := c\<rparr>)"
    have "keeps_order s (s\<lparr>s_clock := c\<rparr>)" by (rule keeps_order_quiet) (simp add: quiet_def)
    moreover have "keeps_order (s\<lparr>s_clock := c\<rparr>) (settle_result k i res False [] (s\<lparr>s_clock := c\<rparr>))"
      using g due by (intro keeps_order_settle [of k "{i}" "{}"]) (simp_all add: good_clock due_def)
    ultimately show ?thesis unfolding a by (rule keeps_order_trans)
  next
    fix sc es e
    let ?t = "s\<lparr>s_scopes := sc, s_g := (s_g s)\<lparr>g_envs := es\<rparr>\<rparr>"
    assume a: "apply_expansion k i out s = settle_failed k i ReasonExpansion e ?t"
    have "good k {i} {} ?t = good k {i} {} (s\<lparr>s_g := (s_g s)\<lparr>g_envs := es\<rparr>\<rparr>)"
      by (rule good_quiet) (simp_all add: carried_def lists_def books_def)
    then have "good k {i} {} ?t" using g by (simp add: good_envs)
    moreover have "keeps_order s ?t" by (rule keeps_order_quiet) (simp add: quiet_def)
    moreover have "due ?t i" using due by (simp add: due_def)
    ultimately show ?thesis unfolding a using keeps_order_cheap(1) keeps_order_trans by blast
  next
    fix ids u ev p
    assume a: "apply_expansion k i out s = settle_ok k i p (emit k ev (push_sources ids u))"
      and u: "extends i ids s u" "good k {i} {i} u" "i \<in> undone u"
    let ?v = "push_sources ids u"
    have "keeps_order s u" using keeps_order_extends [OF u(1)] True by (simp add: undone_done)
    then have "keeps_order s ?v" using keeps_order_push_sources keeps_order_trans by blast
    moreover have "keeps_order ?v (emit k ev ?v)" by (rule keeps_order_quiet) simp
    ultimately have "keeps_order s (emit k ev ?v)" by (rule keeps_order_trans)
    moreover have "i \<notin> set ids" using u(1) due by (auto simp: extends_def due_def)
    then have "node_of u i = node_of s i" using u(1) by (simp add: extends_def)
    then have "due ?v i" using due due_push_sources [of u i ids] by (simp add: due_def)
    then have "due (emit k ev ?v) i" by (simp add: due_def)
    moreover have "good k {i} {i} (emit k ev ?v)" using good_push_sources [OF u(2)] by simp
    ultimately show ?thesis unfolding a using keeps_order_cheap(2) keeps_order_trans by blast
  qed
qed

interpretation order: loop_path k keeps_order for k
proof unfold_locales
  fix s :: sched and H :: "string set" and i st a :: string
  assume "good k H {} s" "i \<in> undone s" "skip_state st"
  then show "keeps_order s (settle_skip k i st a s)"
    using keeps_orderI [OF succs_frame [OF frame_settle_skip]] skip_verdict by blast
qed (blast intro: keeps_order_trans keeps_order_quiet keeps_order_relabel keeps_order_push keeps_order_settle
    keeps_order_expected keeps_order_expansion)+

lemma reachable_verdict:
  assumes "reachable k r s" and c: "closed_ir (rp_ir r)" and irs: "\<forall>p \<in> set (k_irs k). closed_ir (snd p)"
  shows "verdict_ok s"
  using assms(1)
proof induction
  case (start s)
  have g: "good k {} {} s" by (rule good_setup [OF start c])
  have n: "\<not> is_done (s_g s) i" for i by (rule setup_fresh [OF start c])
  have "run_start k s = drain k (push_sources (sorted_ids (s_g s)) s)"
    using sorted_sorted_keys by (simp add: run_start_def push_sources_def sorted_ids_def sorted_sort_id)
  moreover have "verdict_ok s" using n by (auto simp: verdict_ok_def lives_done)
  then have "verdict_ok (push_sources (sorted_ids (s_g s)) s)"
    using keeps_order_push_sources by (simp add: keeps_order_def)
  ultimately show ?case using order.drained [OF good_push_sources [OF g]] by (simp add: keeps_order_def)
next
  case (more s t)
  then show ?case using order.stepped [OF more(2) reachable_good [OF more(1) c irs] irs] by (simp add: keeps_order_def)
qed

subsection \<open>The abstract run\<close>

text \<open>What a run promises, without queues, pools or workers: a growing set of dependencies and a growing
  map of verdicts. A step of the abstract run settles some nodes; one that did not skip had every
  dependency settled, none of them failed or halted, and where a dependency failed or halted the
  dependent is skipped.\<close>

record abstract_run =
  ab_deps :: "(string \<times> string) set"
  ab_verdict :: "string \<Rightarrow> string option"

definition abs_run :: "sched \<Rightarrow> abstract_run" where
  "abs_run s = \<lparr>ab_deps = {(a, b). b \<in> set (succs (s_g s) a)},
     ab_verdict = (\<lambda>i. case node_of s i of None \<Rightarrow> None
        | Some n \<Rightarrow> if terminal n then Some (xn_status n) else None)\<rparr>"

definition abs_step :: "abstract_run \<Rightarrow> abstract_run \<Rightarrow> bool" where
  "abs_step A B \<longleftrightarrow> ab_deps A \<subseteq> ab_deps B \<and> ab_verdict A \<subseteq>\<^sub>m ab_verdict B \<and>
     (\<forall>i v a. ab_verdict B i = Some v \<longrightarrow> \<not> skip_state v \<longrightarrow> (a, i) \<in> ab_deps B \<longrightarrow>
        (\<exists>w. ab_verdict B a = Some w \<and> w \<noteq> StateFailed \<and> w \<noteq> StateHalted)) \<and>
     (\<forall>i w a. ab_verdict B a = Some w \<longrightarrow> w = StateFailed \<or> w = StateHalted \<longrightarrow> (a, i) \<in> ab_deps B \<longrightarrow>
        (\<exists>v. ab_verdict B i = Some v \<and> skip_state v))"

lemma abs_verdict: "ab_verdict (abs_run s) i = Some v \<longleftrightarrow> life_at s i = Some (Done, v)"
  by (auto simp: abs_run_def lives_def terminal_def split: option.splits)

lemma abs_step_sound:
  assumes "frozen s t" and "\<And>a. set (succs (s_g s) a) \<subseteq> set (succs (s_g t) a)" and v: "verdict_ok t"
    and g: "ginv {} (s_g t)"
  shows "abs_step (abs_run s) (abs_run t)"
  unfolding abs_step_def
proof (intro conjI allI impI)
  show "ab_deps (abs_run s) \<subseteq> ab_deps (abs_run t)" using assms(2) by (auto simp: abs_run_def)
  show "ab_verdict (abs_run s) \<subseteq>\<^sub>m ab_verdict (abs_run t)"
    unfolding map_le_def using frozen_life [OF assms(1)] abs_verdict by (metis domD)
  fix i w a
  assume i: "ab_verdict (abs_run t) i = Some w" "\<not> skip_state w" and "(a, i) \<in> ab_deps (abs_run t)"
  then have "i \<in> set (succs (s_g t) a)" by (simp add: abs_run_def)
  then have "is_done (s_g t) a" "\<not> stops (s_g t) a" using v i by (auto simp: verdict_ok_def abs_verdict)
  then obtain st where "life_at t a = Some (Done, st)" "st \<noteq> StateFailed" "st \<noteq> StateHalted"
    by (auto simp: lives_done lives_stops)
  then show "\<exists>w. ab_verdict (abs_run t) a = Some w \<and> w \<noteq> StateFailed \<and> w \<noteq> StateHalted" by (auto simp: abs_verdict)
next
  fix i w a
  assume a: "ab_verdict (abs_run t) a = Some w" "w = StateFailed \<or> w = StateHalted" and "(a, i) \<in> ab_deps (abs_run t)"
  then have i: "i \<in> set (succs (s_g t) a)" and st: "stops (s_g t) a" by (auto simp: abs_run_def lives_stops abs_verdict [symmetric])
  then have "is_done (s_g t) i" using ginvD(4) [OF g] by (auto simp: stopped_ok_def)
  then obtain st where d: "life_at t i = Some (Done, st)" by (auto simp: lives_done)
  then have "skip_state st" using v i st by (auto simp: verdict_ok_def)
  with d show "\<exists>v. ab_verdict (abs_run t) i = Some v \<and> skip_state v" by (auto simp: abs_verdict)
qed

end
