(* ===== verification/SampleRun.thy ===== *)
theory SampleRun
  imports ReachInv
begin

text \<open>
  A small execution for the witnesses: two agent steps, the second after the first, in a resource lane
  of one, under a concurrency bound of two. The external parts (CEL, image tags, the clock, the journal
  file) are instantiated with constant functions.
\<close>

definition sample_template :: template where
  "sample_template = \<lparr>t_name = ''agent'', t_packages = [], t_overlay = [], t_pin = None, t_identity = [],
     t_lane = ''gpu'', t_resources = \<lparr>res_memory = [], res_cpus = Fin 0 0\<rparr>, t_runtime = [], t_env = [],
     t_volumes = [], t_skill = [], t_model = [], t_effort = [], t_invoke = None, t_agent_optional = False,
     t_hooks = \<lparr>hk_context = [], hk_prelude = [], hk_postlude = [], hk_on_failure = []\<rparr>, t_skills = None,
     t_inputs = [], t_output = []\<rparr>"

definition sample_agent :: "string \<Rightarrow> node" where
  "sample_agent i = Node i KindAgent (Some sample_template) None None None [] None 0 [] []"

definition sample_ir :: ir where
  "sample_ir = IR 1 ''w'' [sample_agent ''w/a'', sample_agent ''w/b'']
     [\<lparr>e_from = ''w/a'', e_from_port = [], e_to = ''w/b'', e_to_port = []\<rparr>] [(''gpu'', 1)] []"

definition sample_cfg :: cfg where
  "sample_cfg = \<lparr>k_max_par = 2, k_chk = (\<lambda>_. None), k_cel = (\<lambda>_ _ _. Inr (Inl True)), k_pf = (\<lambda>_. None),
     k_ff = (\<lambda>_. ''0''), k_fj = (\<lambda>_. ''0''), k_sha = (\<lambda>s. s), k_tag = Some (\<lambda>_. Inr ''img''),
     k_lookup = None, k_class = None, k_boxes = True, k_sink = False, k_runner = None, k_irs = [],
     k_now = int, k_pause = None, k_append = (\<lambda>_ _. None)\<rparr>"

definition sample_run :: run_params where
  "sample_run = \<lparr>rp_ir = sample_ir, rp_params = [], rp_run = ''run''\<rparr>"

definition sample_setup :: sched where
  "sample_setup = (case run_setup sample_cfg sample_run of Inr s \<Rightarrow> s
     | Inl _ \<Rightarrow> blank_sched new_graph sample_ir)"

definition sample_start :: sched where
  "sample_start = run_start sample_cfg sample_setup"

text \<open>The only box in flight succeeds with an empty payload.\<close>

definition sample_fold :: "string \<Rightarrow> sched \<Rightarrow> sched" where
  "sample_fold i s = fold_event sample_cfg (EvSettled i (ok_result (Some ''{}'') zero_timing) [] True True)
     (s\<lparr>s_workers := []\<rparr>)"

definition sample_second :: sched where
  "sample_second = sample_fold ''w/a'' sample_start"

definition sample_end :: sched where
  "sample_end = sample_fold ''w/b'' sample_second"

lemma sample_closed: "closed_ir (rp_ir sample_run)"
  by (simp add: sample_run_def sample_ir_def closed_ir.simps level_edges_def node_conds_def sample_agent_def)

lemma sample_setup_ok: "run_setup sample_cfg sample_run = Inr sample_setup"
proof -
  have "case run_setup sample_cfg sample_run of Inr _ \<Rightarrow> True | Inl _ \<Rightarrow> False" by code_simp
  then show ?thesis by (simp add: sample_setup_def split: sum.splits)
qed

lemma sample_irs: "\<forall>p \<in> set (k_irs sample_cfg). closed_ir (snd p)"
  by (simp add: sample_cfg_def)

lemma sample_lives:
  "map worker_id (s_workers sample_start) = [''w/a''] \<and> looping sample_start"
  "map worker_id (s_workers sample_second) = [''w/b''] \<and> looping sample_second"
  by code_simp+

lemma sample_box: "list_all (\<lambda>w. case w of WBox _ \<Rightarrow> True | _ \<Rightarrow> False) (s_workers sample_start)"
  "list_all (\<lambda>w. case w of WBox _ \<Rightarrow> True | _ \<Rightarrow> False) (s_workers sample_second)"
  by code_simp+

lemma sample_deliver:
  assumes "map worker_id (s_workers s) = [i] \<and> looping s"
    and "list_all (\<lambda>w. case w of WBox _ \<Rightarrow> True | _ \<Rightarrow> False) (s_workers s)"
  shows "sched_step sample_cfg s (sample_fold i s)"
proof -
  obtain j where j: "s_workers s = [WBox j]" "jb_id j = i"
    using assms by (cases "s_workers s") (auto simp: worker_id_def split: worker.splits)
  show ?thesis
    unfolding sample_fold_def
    using sched_step.deliver [of s "[]" "WBox j" "[]" sample_cfg] reports.box_settled [of sample_cfg s j] assms(1) j
    by simp
qed

lemma sample_steps:
  "sched_step sample_cfg sample_start sample_second" "sched_step sample_cfg sample_second sample_end"
  unfolding sample_second_def sample_end_def
  using sample_deliver [OF sample_lives(1) sample_box(1)] sample_deliver [OF sample_lives(2) sample_box(2)]
  by (simp_all add: sample_second_def)

lemma sample_reachable:
  "reachable sample_cfg sample_run sample_start"
  "reachable sample_cfg sample_run sample_second"
  "reachable sample_cfg sample_run sample_end"
proof -
  show 1: "reachable sample_cfg sample_run sample_start"
    unfolding sample_start_def by (rule reachable.start [OF sample_setup_ok])
  show 2: "reachable sample_cfg sample_run sample_second" by (rule reachable.more [OF 1 sample_steps(1)])
  show "reachable sample_cfg sample_run sample_end" by (rule reachable.more [OF 2 sample_steps(2)])
qed

lemma sample_first_done:
  "case node_of sample_second ''w/a'' of None \<Rightarrow> False | Some n \<Rightarrow> terminal n \<and> xn_status n = StateOK"
  by code_simp

end
