(* ===== verification/RunProps.thy ===== *)
theory RunProps
  imports Liveness Verdicts SampleRun
begin

text \<open>
  What the scheduler promises of every execution it can reach (\<open>pipeline/scheduler.go\<close>,
  \<open>pipeline/executor.go\<close>), with the sample run as the witness of each.
\<close>

text \<open>
  C1. Whenever a node has left pending (it is queued, waits for a slot, runs or is deferred) in a state
  an execution can reach, every node it depends on has settled, and none of them failed or halted: no
  box is ever started on the outputs of a missing, failed or halted step.
\<close>
theorem dependencies_settle_first:
  assumes "reachable k r s" and "closed_ir (rp_ir r)" and "\<forall>p \<in> set (k_irs k). closed_ir (snd p)"
    and "node_of s i = Some n" and "xn_life n \<noteq> Pending" and "xn_life n \<noteq> Done"
    and "i \<in> set (succs (s_g s) a)"
  shows "\<exists>m. node_of s a = Some m \<and> terminal m \<and> xn_status m \<noteq> StateFailed \<and> xn_status m \<noteq> StateHalted"
proof -
  have "ginv {} (s_g s)" using reachable_good [OF assms(1-3)] by (simp add: good_def)
  from ginv_ready [OF this assms(4-7)] show ?thesis by (auto simp: is_done_def stops_def)
qed

lemma sample_second_runs:
  "map_option xn_life (node_of sample_second ''w/b'') = Some Running \<and>
   ''w/b'' \<in> set (succs (s_g sample_second) ''w/a'')"
  by code_simp

theorem dependencies_settle_first_witness:
  "\<exists>m. node_of sample_second ''w/a'' = Some m \<and> terminal m \<and> xn_status m \<noteq> StateFailed \<and> xn_status m \<noteq> StateHalted"
proof -
  obtain n where "node_of sample_second ''w/b'' = Some n" "xn_life n = Running"
    using sample_second_runs by auto
  with dependencies_settle_first [OF sample_reachable(2) sample_closed sample_irs, of "''w/b''" n "''w/a''"]
  show ?thesis using sample_second_runs by simp
qed

text \<open>
  C3. Concurrency is bounded in every state an execution can reach: with a slot bound, no more boxes
  are in flight than it allows; a generate's instances and the nodes of a resource lane never exceed
  their own positive bound.
\<close>
theorem concurrency_bounded:
  assumes "reachable k r s" and "closed_ir (rp_ir r)" and "\<forall>p \<in> set (k_irs k). closed_ir (snd p)"
  shows "(0 < k_max_par k \<longrightarrow> int (length (boxes s)) \<le> k_max_par k) \<and>
    (\<forall>c p. c \<noteq> [] \<longrightarrow> map_of (s_gen_pools s) c = Some p \<longrightarrow> 0 < p_max p \<longrightarrow>
      int (length (filter (\<lambda>i. gen_at s i = c) (boxes s))) \<le> p_max p) \<and>
    (\<forall>c p. c \<noteq> [] \<longrightarrow> map_of (s_lanes s) c = Some p \<longrightarrow> 0 < p_max p \<longrightarrow>
      int (length (filter (\<lambda>i. lane_at s i = c) (boxes s))) \<le> p_max p)"
  using reachable_good [OF assms] by (auto simp: good_core pool_inv_def counts_def)

theorem concurrency_bounded_witness:
  "int (length (boxes sample_start)) \<le> 2 \<and>
   int (length (filter (\<lambda>i. lane_at sample_start i = ''gpu'') (boxes sample_start))) \<le> 1"
proof -
  have l: "map_of (s_lanes sample_start) ''gpu'' = Some \<lparr>p_max = 1, p_used = 1\<rparr>" by code_simp
  have "k_max_par sample_cfg = 2" by (simp add: sample_cfg_def)
  with concurrency_bounded [OF sample_reachable(1) sample_closed sample_irs] l show ?thesis by fastforce
qed

text \<open>
  C4. In every reachable state, aborted ones included, the journal holds at most one result record per
  node and none for a node that has not settled, the failure counter is the number of failed nodes, and
  every halt listed is a halted node, listed once. As long as no append has failed and nothing has aborted
  the run, no settled node lacks its record and no halted node is missing from the list.
\<close>
theorem one_record_per_settled_node:
  assumes "reachable k r s" and "closed_ir (rp_ir r)" and "\<forall>p \<in> set (k_irs k). closed_ir (snd p)"
  shows "distinct (result_steps (s_journal s)) \<and>
    set (result_steps (s_journal s)) \<subseteq> {i. \<exists>n. node_of s i = Some n \<and> terminal n} \<and>
    s_failed s = int (card {i. \<exists>n. node_of s i = Some n \<and> terminal n \<and> xn_status n = StateFailed}) \<and>
    distinct (map hs_step (s_halts s)) \<and>
    set (map hs_step (s_halts s)) \<subseteq> {i. \<exists>n. node_of s i = Some n \<and> terminal n \<and> xn_status n = StateHalted} \<and>
    (s_fatal s = None \<longrightarrow>
      set (result_steps (s_journal s)) = {i. \<exists>n. node_of s i = Some n \<and> terminal n} \<and>
      set (map hs_step (s_halts s)) = {i. \<exists>n. node_of s i = Some n \<and> terminal n \<and> xn_status n = StateHalted})"
proof -
  have g: "journal_inv s" "count_inv s" using reachable_good [OF assms(1-3)] by (simp_all add: good_core core_def)
  have w: "with_status st s = {i. \<exists>n. node_of s i = Some n \<and> terminal n \<and> xn_status n = st}" for st
    by (auto simp: with_status_def lives_def terminal_def)
  have d: "{i. is_done (s_g s) i} = {i. \<exists>n. node_of s i = Some n \<and> terminal n}" by (simp add: is_done_def)
  show ?thesis using g unfolding journal_inv_def count_inv_def w d [symmetric] by blast
qed

theorem one_record_per_settled_node_witness:
  "set (result_steps (s_journal sample_end)) = {i. \<exists>n. node_of sample_end i = Some n \<and> terminal n} \<and>
   s_failed sample_end = 0"
proof -
  have "s_fatal sample_end = None" "s_failed sample_end = 0" by code_simp+
  then show ?thesis
    using one_record_per_settled_node [OF sample_reachable(3) sample_closed sample_irs] by blast
qed

text \<open>
  C5. A settled node is final: no later step of the run changes its verdict, its payload, its result
  or anything else recorded on it.
\<close>
theorem settled_nodes_are_final:
  assumes "reachable k r s" and "closed_ir (rp_ir r)" and "\<forall>p \<in> set (k_irs k). closed_ir (snd p)"
    and "sched_step k s t" and "node_of s i = Some n" and "terminal n"
  shows "node_of t i = Some n"
  using final.stepped [OF assms(4) reachable_good [OF assms(1-3)] assms(3)] assms(5,6) by (simp add: frozen_def)

theorem settled_nodes_are_final_witness:
  "node_of sample_end ''w/a'' = node_of sample_second ''w/a''"
proof -
  obtain n where n: "node_of sample_second ''w/a'' = Some n" "terminal n"
    using sample_first_done by (auto split: option.splits)
  show ?thesis using settled_nodes_are_final [OF sample_reachable(2) sample_closed sample_irs sample_steps(2) n] n by simp
qed

text \<open>
  The main loop is never stuck: in every reachable state in which it goes on waiting for an event,
  a worker or a timer is in flight to send one, provided the graph has no dependency cycle and no
  step is parked until in-flight budget is given back.
\<close>
theorem loop_never_stuck:
  assumes "reachable k r s" and "closed_ir (rp_ir r)" and "\<forall>p \<in> set (k_irs k). closed_ir (snd p)"
    and "looping s" and "acyclic {(a, b). b \<in> set (succs (s_g s) a)}" and "s_wait_zero s = []"
  shows "s_workers s \<noteq> [] \<or> s_timers s \<noteq> []"
  using never_stuck [OF assms(1-4) _ assms(6)] assms(5) by (simp add: depends_def)

lemma sample_second_edges:
  "g_succ (s_g sample_second) = [(''w/a'', [''w/b''])] \<and> s_wait_zero sample_second = []"
  by code_simp

theorem loop_never_stuck_witness: "0 < length (s_workers sample_second) + length (s_timers sample_second)"
proof -
  have "{(a, b). b \<in> set (succs (s_g sample_second) a)} = {(''w/a'', ''w/b'')}"
    using sample_second_edges by (auto simp: get_or_def split: if_splits)
  moreover have "acyclic {(''w/a'', ''w/b'')}" by (rule acyclicI) (auto dest: tranclD tranclD2)
  ultimately show ?thesis
    using loop_never_stuck [OF sample_reachable(2) sample_closed sample_irs] sample_lives(2) sample_second_edges
    by auto
qed

text \<open>
  C2. A run refines its abstract specification, in which only dependencies and verdicts exist: every
  step of the scheduler keeps the verdicts given and the dependencies known, a step with a verdict of
  its own had all its dependencies settled and none failed or halted, and every dependent of a failed
  or halted step is skipped.
\<close>
theorem run_refines_abstract_run:
  assumes "reachable k r s" and "closed_ir (rp_ir r)" and "\<forall>p \<in> set (k_irs k). closed_ir (snd p)"
    and "sched_step k s t"
  shows "abs_step (abs_run s) (abs_run t)"
proof (rule abs_step_sound)
  note g = reachable_good [OF assms(1-3)]
  have t: "reachable k r t" using assms(1,4) by (rule reachable.more)
  show "frozen s t" by (rule final.stepped [OF assms(4) g assms(3)])
  show "set (succs (s_g s) a) \<subseteq> set (succs (s_g t) a)" for a
    using order.stepped [OF assms(4) g assms(3)] by (simp add: keeps_order_def)
  show "verdict_ok t" by (rule reachable_verdict [OF t assms(2,3)])
  show "ginv {} (s_g t)" using reachable_good [OF t assms(2,3)] by (simp add: good_def)
qed

theorem run_refines_abstract_run_witness:
  "abs_step (abs_run sample_second) (abs_run sample_end)"
  by (rule run_refines_abstract_run [OF sample_reachable(2) sample_closed sample_irs sample_steps(2)])

text \<open>
  C6. The exit code tells how the run ended: once the loop has stopped it is 0 exactly when nothing
  aborted the run and every node settled without failing or halting, 3 exactly when a node halted and
  none failed, and 4 exactly when the run paused with nodes left and none failed or halted.
\<close>
theorem exit_code_accounts:
  assumes "reachable k r s" and "closed_ir (rp_ir r)" and "\<forall>p \<in> set (k_irs k). closed_ir (snd p)"
    and "\<not> looping s"
  shows "(exit_code (run_result s) = 0 \<longleftrightarrow> s_fatal s = None \<and> (\<forall>i n. node_of s i = Some n \<longrightarrow>
        terminal n \<and> xn_status n \<noteq> StateFailed \<and> xn_status n \<noteq> StateHalted)) \<and>
     (exit_code (run_result s) = 3 \<longleftrightarrow> s_fatal s = None \<and>
        with_status StateFailed s = {} \<and> with_status StateHalted s \<noteq> {}) \<and>
     (exit_code (run_result s) = 4 \<longleftrightarrow> s_fatal s = None \<and>
        with_status StateFailed s = {} \<and> with_status StateHalted s = {} \<and> undone s \<noteq> {})"
proof -
  have g: "good k {} {} s" by (rule reachable_good [OF assms(1-3)])
  then have c: "count_inv s" and gi: "ginv {} (s_g s)" by (simp_all add: good_core core_def)
  have f: "0 < s_failed s \<longleftrightarrow> with_status StateFailed s \<noteq> {}"
    using c finite_with_status by (auto simp: count_inv_def card_gt_0_iff)
  have h: "s_fatal s = None \<Longrightarrow> s_halts s = [] \<longleftrightarrow> with_status StateHalted s = {}"
    using c by (auto simp: count_inv_def)
  have u: "finished s \<longleftrightarrow> undone s = {}" by (rule finished_iff [OF gi])
  have p: "s_fatal s = None \<Longrightarrow> \<not> finished s \<Longrightarrow> s_paused s" using assms(4) by (auto simp: looping_def)
  have w: "(\<forall>i n. node_of s i = Some n \<longrightarrow> terminal n \<and> xn_status n \<noteq> StateFailed \<and> xn_status n \<noteq> StateHalted) \<longleftrightarrow>
      undone s = {} \<and> with_status StateFailed s = {} \<and> with_status StateHalted s = {}"
    by (auto simp: undone_def with_status_def lives_def terminal_def)
  show ?thesis
    unfolding w using f h u p
    by (cases "s_fatal s") (auto simp: exit_code_def run_result_def paused_end_def)
qed

theorem exit_code_accounts_witness: "exit_code (run_result sample_end) = 0"
proof -
  have e: "\<not> looping sample_end" by code_simp
  have "s_fatal sample_end = None" "list_all (\<lambda>(i, n). terminal n \<and> xn_status n \<noteq> StateFailed \<and> xn_status n \<noteq> StateHalted)
      (g_nodes (s_g sample_end))" by code_simp+
  then show ?thesis
    using exit_code_accounts [OF sample_reachable(3) sample_closed sample_irs e]
    by (auto simp: list_all_iff dest!: map_of_SomeD)
qed

end
