(* ===== verification/SpliceProps.thy ===== *)
theory SpliceProps
  imports Liveness SampleRun
begin

text \<open>
  Expansion and recursion properties of the scheduler: rolling a failed splice back, the recursion the
  settle path promises, and two places where the code of the expansion differs from what it means to do.
\<close>









text \<open>
  Skipping a node follows the recursion of the code to its end: the node is recorded and marked,
  its unsettled members are skipped the same way, its dependents are released and the parked nodes
  woken; the fuel of the definition never cuts it short.
\<close>
theorem skip_follows_its_recursion:
  assumes "node_of s i = Some n" and "\<not> terminal n" and "member_skip i st = (ms, ma)"
  shows "settle_skip k i st a s =
    wake_parked (release_succs i (fold (\<lambda>m s. case node_of s m of
        None \<Rightarrow> s
      | Some n \<Rightarrow> if terminal n then s else settle_skip k m ms ma s)
      (g_members (s_g s) i) (mark_done i st (skip_record k i st a s))))"
  by (rule settle_skip_unfold [OF assms])

theorem skip_follows_its_recursion_witness:
  "settle_skip sample_cfg ''w/b'' StateSkippedHalt ''w/a'' sample_start =
    wake_parked (release_succs ''w/b'' (fold (\<lambda>m s. case node_of s m of
        None \<Rightarrow> s
      | Some n \<Rightarrow> if terminal n then s else settle_skip sample_cfg m StateSkippedHalt ''w/b'' s)
      (g_members (s_g sample_start) ''w/b'')
      (mark_done ''w/b'' StateSkippedHalt (skip_record sample_cfg ''w/b'' StateSkippedHalt ''w/a'' sample_start))))"
proof -
  have "case node_of sample_start ''w/b'' of None \<Rightarrow> False | Some n \<Rightarrow> \<not> terminal n" by code_simp
  then obtain n where n: "node_of sample_start ''w/b'' = Some n" "\<not> terminal n" by (auto split: option.splits)
  have "member_skip ''w/b'' StateSkippedHalt = (StateSkippedHalt, ''w/b'')" by code_simp
  from skip_follows_its_recursion [OF n this] show ?thesis .
qed

text \<open>
  A loop expectation inside a sub-workflow of a generate's target is registered under an id no
  spliced node has: the id is rebased by stripping the nested graph's own workflow name, which is not
  the prefix its ids carry. The first iteration of the loop is dispatched without asking for the
  expected count, while the same loop at the target's own level does ask.
\<close>
theorem nested_expectation_lost:
  "(let spec = \<lparr>l_id = ''task/sub/cycle'', l_max = 3, l_command = ''count'', l_args = []\<rparr>;
        sub = IR 1 ''review'' [] [] [] [spec];
        target = IR 1 ''task'' [Node ''task/sub'' KindSubWorkflow None (Some sub) None None [] None 0 [] []] [] []
          [spec\<lparr>l_id := ''task/cycle''\<rparr>];
        specs = loop_specs target ''epic/tasks[I]/''
    in map fst specs = [''epic/tasks[I]/cycle'', ''epic/tasks[I]/task/sub/cycle''] \<and>
       rename_id ''task'' ''epic/tasks[I]'' ''task/sub/cycle@1/fix'' = ''epic/tasks[I]/sub/cycle@1/fix'' \<and>
       find_unexpected specs [] [] (split_on CHR ''/'' ''epic/tasks[I]/cycle@1/fix'') = Some (''epic/tasks[I]/cycle'', 1) \<and>
       find_unexpected specs [] [] (split_on CHR ''/'' ''epic/tasks[I]/sub/cycle@1/fix'') = None)"
  by code_simp

lemma bit_len_53: "bit_len 9007199254740993 = 54" "bit_len 9007199254740992 = 54"
  by (simp_all add: bit_len.simps)

lemma round53_edge: "round53 9007199254740993 = 9007199254740992" "round53 9007199254740992 = 9007199254740992"
  by (simp_all add: round53_def Let_def bit_len_53)

text \<open>
  The copy of a generate's target goes through JSON and re-reads every integer as a float64: a
  literal binding of 2^53 + 1 reaches the instances as 2^53, while one of 2^53 is kept.
\<close>
theorem cloned_literal_rounds:
  "clone_binding (\<lambda>_. None) \<lparr>b_kind = BindLiteral, b_value = VInt (2 ^ 53 + 1), b_type = ''int'', b_name = [], b_field = []\<rparr> =
     Some \<lparr>b_kind = BindLiteral, b_value = VFloat (Fin (2 ^ 53) 0), b_type = ''int'', b_name = [], b_field = []\<rparr> \<and>
   clone_value (\<lambda>_. None) (VInt (2 ^ 53)) = Some (VFloat (Fin (2 ^ 53) 0))"
  by (simp add: clone_binding_def round53_edge)

end
