(* ===== verification/ConfigModel.thy ===== *)
theory ConfigModel
  imports IRModel Refs
begin

text \<open>
  The struct tree of an assembled \<open>orchestrator.yaml\<close> (\<open>config/types.go\<close>), the normalisation and
  type names of the values YAML decodes to (\<open>config/params.go\<close>), and the small path predicate of
  \<open>config/load.go\<close> that tells a hook name from a hook path. A Go pointer or slice whose absence
  matters is an option; \<open>any\<close> is \<open>goval\<close>.
\<close>

subsection \<open>The substrate\<close>

record network_def =
  nw_name :: string
  nw_proxy :: string
  nw_no_proxy :: "string list"
  nw_nftables :: bool

record remote_def =
  rm_url :: string
  rm_host_key_file :: string
  rm_tofu :: bool

record service_def =
  sv_mode :: string
  sv_endpoint :: string

record credentials_def =
  cd_resolver :: string
  cd_services :: "service_def smap"

subsection \<open>The component libraries\<close>

record image_def =
  im_packages :: "string list"
  im_overlay :: string
  im_pin :: "pin_def option"

record build_def =
  bd_packages :: "string list"
  bd_overlay :: string
  bd_pin :: "pin_def option"

record invoke_profile =
  ip_subcommand :: "string list option"
  ip_prompt_flag :: "string option"
  ip_skill_mode :: string
  ip_skill_flag :: "string option"
  ip_prompt_template :: string
  ip_fixed_flags :: "string list option"
  ip_model_flag :: "string option"
  ip_effort_flag :: "string option"
  ip_budget_flag :: "string option"
  ip_session_dir :: "string option"
  ip_resume_argv :: "string list option"

record invoke_def =
  iv_profile :: string
  iv_fields :: invoke_profile

record skills_def =
  sk_dir :: string
  sk_link :: string

record skills_ref =
  sr_names :: "string list"
  sr_inline :: "skills_def option"

record run_def =
  rn_identity :: string
  rn_resources :: resource_def
  rn_runtime :: string
  rn_env :: "string smap"
  rn_volumes :: "string smap"

record template_def =
  td_image :: string
  td_identity :: string
  td_skills_link :: string
  td_build :: "build_def option"
  td_run :: run_def
  td_skill :: string
  td_model :: string
  td_effort :: string
  td_lane :: string
  td_agent_optional :: bool
  td_invoke :: "invoke_def option"
  td_hooks :: hook_set
  td_skills :: skills_ref
  td_inputs :: "param_def smap"
  td_output :: "param_def smap"

subsection \<open>Workflows\<close>

record source_def =
  so_command :: string
  so_args :: "string list"

record generate_def =
  gd_source :: string
  gd_workflow :: string
  gd_with :: "goval smap"
  gd_max_parallel :: int

datatype step_def =
  StepDef (sd_id: string) (sd_use: string) (sd_loop: "loop_def option") (sd_generate: "generate_def option")
    (sd_with: "goval smap") (sd_when: string) (sd_depends_on: "string list") (sd_retry: int)
    (sd_on_failure: string) (sd_tools: "string list")
and loop_def =
  LoopDef (ld_max: int) (ld_until: string) (ld_steps: "step_def list") (ld_expect: string)

record workflow_def =
  wf_params :: "param_def smap"
  wf_sources :: "source_def smap"
  wf_steps :: "step_def list"

record config =
  cf_version :: int
  cf_network :: network_def
  cf_remote :: remote_def
  cf_credentials :: credentials_def
  cf_identities :: "string smap"
  cf_lanes :: "int smap"
  cf_images :: "image_def smap"
  cf_skills :: "string smap"
  cf_hooks :: "string smap"
  cf_invoke_profiles :: "invoke_profile smap"
  cf_templates :: "template_def smap"
  cf_workflows :: "workflow_def smap"

text \<open>One violation with its YAML field path.\<close>

record field_error =
  fe_path :: string
  fe_msg :: string

definition field_error_string :: "field_error \<Rightarrow> string" where
  "field_error_string e = fe_path e @ '': '' @ fe_msg e"

text \<open>The loops of a step list are smaller than the list.\<close>

lemma sd_loop_size: "sd_loop s = Some l \<Longrightarrow> size l < size s"
  by (cases s) auto

lemma ld_steps_size: "size_list size (ld_steps l) < size l"
  by (cases l) auto

lemma step_loop_size [termination_simp]:
  "s \<in> set ss \<Longrightarrow> sd_loop s = Some l \<Longrightarrow> size_list size (ld_steps l) < size_list size ss"
  using sd_loop_size [of s l] ld_steps_size [of l] size_list_estimation' [of s ss "size s" size] by fastforce

subsection \<open>YAML values\<close>

text \<open>\<open>normalizePin\<close>: a pin with both fields blank is absent.\<close>

definition normalize_pin :: "pin_def option \<Rightarrow> pin_def option" where
  "normalize_pin p =
     (case p of None \<Rightarrow> None
      | Some q \<Rightarrow> if pin_rev q = [] \<and> pin_sha256 q = [] then None else p)"

text \<open>\<open>normalizeValue\<close>: the JSON-marshalable form of a decoded value. A YAML map with a key that is no
  string is the one thing that has none; the message names the key by \<open>%v\<close>, which \<open>show\<close> stands for.\<close>

fun map_values :: "('a \<Rightarrow> string + 'b) \<Rightarrow> ('k \<times> 'a) list \<Rightarrow> string + ('k \<times> 'b) list" where
  "map_values f [] = Inr []"
| "map_values f ((k, v) # m) =
     (case f v of Inl e \<Rightarrow> Inl e | Inr w \<Rightarrow> map_sum id ((#) (k, w)) (map_values f m))"

lemma map_values_cong [fundef_cong]:
  "m = m' \<Longrightarrow> (\<And>k v. (k, v) \<in> set m' \<Longrightarrow> f v = g v) \<Longrightarrow> map_values f m = map_values g m'"
proof (induction m arbitrary: m')
  case (Cons p m)
  obtain k v where p: "p = (k, v)" by (cases p)
  have "map_values f m = map_values g m"
    using Cons.prems by (intro Cons.IH [OF refl]) (metis list.set_intros(2))
  moreover have "f v = g v" using Cons.prems p by (metis list.set_intros(1))
  ultimately show ?case unfolding Cons.prems(1) [symmetric] p by (simp split: sum.split)
qed simp

function (sequential) normalize_value :: "(goval \<Rightarrow> string) \<Rightarrow> goval \<Rightarrow> string + goval" where
  "normalize_value shw (VMap m) = map_sum id VMap (map_values (normalize_value shw) m)"
| "normalize_value shw (VAnyMap m) =
     (case List.find (\<lambda>p. case fst p of VStr _ \<Rightarrow> False | _ \<Rightarrow> True) m of
        Some p \<Rightarrow> Inl (''non-string map key '' @ shw (fst p))
      | None \<Rightarrow> map_sum id (\<lambda>kvs. VMap (map (\<lambda>(k, v). (case k of VStr s \<Rightarrow> s | _ \<Rightarrow> [], v)) kvs))
                  (map_values (normalize_value shw) m))"
| "normalize_value shw (VList vs) =
     map_sum id (\<lambda>kvs. VList (map snd kvs)) (map_values (normalize_value shw) (map (Pair ()) vs))"
| "normalize_value shw v = Inr v"
  by pat_completeness auto
termination
proof (relation "measure (\<lambda>(s, v). size v)", goal_cases)
  case (2 shw m k v)
  have "size v \<le> size_prod (\<lambda>x. 0) size (k, v)" by simp
  with 2 have "size v \<le> size_list (size_prod (\<lambda>x. 0) size) m" by (intro size_list_estimation' [of "(k, v)" m]) auto
  then show ?case by simp
next
  case (3 shw m k v)
  have "size v \<le> size_prod size size (k, v)" by simp
  with 3 have "size v \<le> size_list (size_prod size size) m" by (intro size_list_estimation' [of "(k, v)" m]) auto
  then show ?case by simp
next
  case (4 shw vs k v)
  then have "size v \<le> size_list size vs" by (intro size_list_estimation' [of v vs]) auto
  then show ?case by simp
qed simp

text \<open>\<open>yamlTypeName\<close>\<close>

definition yaml_type_name :: "goval \<Rightarrow> string" where
  "yaml_type_name v =
     (case v of VStr _ \<Rightarrow> ''string'' | VInt _ \<Rightarrow> ''int'' | VBool _ \<Rightarrow> ''bool'' | VFloat _ \<Rightarrow> ''float''
      | VMap _ \<Rightarrow> ''object'' | VAnyMap _ \<Rightarrow> ''object'' | VList _ \<Rightarrow> ''object'' | VNull \<Rightarrow> ''null''
      | VNumber _ \<Rightarrow> ''json.Number'' | VRaw _ \<Rightarrow> ''json.RawMessage'')"

text \<open>\<open>isPath\<close>: a leading dot, tilde or slash, or any slash.\<close>

definition is_path :: "string \<Rightarrow> bool" where
  "is_path v \<longleftrightarrow> v \<noteq> [] \<and> (hd v \<in> {CHR ''.'', CHR ''~'', CHR ''/''} \<or> CHR ''/'' \<in> set v)"

end
