(* ===== verification/CelRefs.thy ===== *)
theory CelRefs
  imports ConfigModel
begin

text \<open>
  The rewriting of step references in condition sources (\<open>config/celref.go\<close>): \<open>steps.<id>.<field>\<close>
  outside string literals becomes \<open>steps["<node-id>"].<field>\<close>, and the node ids read are collected.
  The resolver is a function on a state, because resolving a name may create a selector node.
\<close>

definition is_ident_start :: "char \<Rightarrow> bool" where
  "is_ident_start c \<longleftrightarrow> c = CHR ''_'' \<or> (97 \<le> byte c \<and> byte c \<le> 122) \<or> (65 \<le> byte c \<and> byte c \<le> 90)"

definition is_ident_part :: "char \<Rightarrow> bool" where
  "is_ident_part c \<longleftrightarrow> is_ident_start c \<or> is_digit c"

text \<open>An identifier at the front of the text, and what follows it.\<close>

definition read_ident :: "string \<Rightarrow> string \<times> string" where
  "read_ident s =
     (case s of [] \<Rightarrow> ([], [])
      | c # _ \<Rightarrow> if is_ident_start c then (takeWhile is_ident_part s, dropWhile is_ident_part s) else ([], s))"

text \<open>The rest of a string literal after its opening quote, the closing quote included.\<close>

fun copy_literal :: "char \<Rightarrow> string \<Rightarrow> string \<times> string" where
  "copy_literal q [] = ([], [])"
| "copy_literal q [c] = ([c], [])"
| "copy_literal q (c # d # cs) =
     (if c = CHR 0x5C then (case copy_literal q cs of (a, b) \<Rightarrow> (c # d # a, b))
      else if c = q then ([c], d # cs)
      else (case copy_literal q (d # cs) of (a, b) \<Rightarrow> (c # a, b)))"

lemma copy_literal_split: "copy_literal q s = (a, b) \<Longrightarrow> s = a @ b"
  by (induction q s arbitrary: a b rule: copy_literal.induct) (auto split: prod.splits if_splits)

lemma read_ident_split: "read_ident s = (a, b) \<Longrightarrow> s = a @ b"
  by (auto simp: read_ident_def split: list.splits if_splits)

type_synonym 's resolver = "string \<Rightarrow> 's \<Rightarrow> (string + string) \<times> 's"

text \<open>A word may start here: the byte before is no identifier byte and no dot.\<close>

definition word_starts :: "char option \<Rightarrow> char \<Rightarrow> bool" where
  "word_starts prev c \<longleftrightarrow> is_ident_start c \<and>
     (case prev of None \<Rightarrow> True | Some p \<Rightarrow> \<not> is_ident_part p \<and> p \<noteq> CHR ''.'')"

lemma word_shorter:
  assumes "word_starts prev c" and "(word, rest) = read_ident (c # cs)"
  shows "length rest < length (c # cs)"
proof -
  have w: "word \<noteq> []"
    using assms by (auto simp: word_starts_def read_ident_def is_ident_part_def)
  have "c # cs = word @ rest" using read_ident_split assms(2) by metis
  then have "length (c # cs) = length word + length rest" by (metis length_append)
  with w show ?thesis by (cases word) auto
qed

text \<open>What follows the word \<open>steps\<close>: the step and field named, or the complaint about their form.\<close>

definition step_reference :: "string \<Rightarrow> string \<Rightarrow> string + string \<times> string \<times> string" where
  "step_reference src rest =
     (case read_ident (tl rest) of (step, r2) \<Rightarrow>
        if step = [] then Inl (''condition '' @ quote_str src @ '': malformed steps reference'')
        else if r2 = [] \<or> hd r2 \<noteq> CHR ''.'' then
          Inl (''condition '' @ quote_str src @ '': step reference must be steps.'' @ step @ ''.<field>'')
        else (case read_ident (tl r2) of (field, r3) \<Rightarrow>
          if field = [] then
            Inl (''condition '' @ quote_str src @ '': step reference must be steps.'' @ step @ ''.<field>'')
          else Inr (step, field, r3)))"

lemma step_reference_shorter:
  assumes "step_reference src rest = Inr (step, field, r3)" and "rest \<noteq> []"
  shows "length r3 < length rest"
proof -
  obtain r2 where r2: "read_ident (tl rest) = (step, r2)"
    using assms by (cases "read_ident (tl rest)") (auto simp: step_reference_def split: if_splits prod.splits)
  moreover have "read_ident (tl r2) = (field, r3)"
    using assms r2 by (auto simp: step_reference_def split: if_splits prod.splits)
  ultimately have "tl rest = step @ r2" "tl r2 = field @ r3" by (auto dest: read_ident_split)
  then have "length (tl rest) = length step + length r2" "length (tl r2) = length field + length r3" by simp_all
  then show ?thesis using assms(2) by (cases rest) auto
qed

function rewrite_from ::
  "string \<Rightarrow> 's resolver \<Rightarrow> char option \<Rightarrow> string \<Rightarrow> string \<Rightarrow> string list \<Rightarrow> 's
    \<Rightarrow> (string + string \<times> string list) \<times> 's" where
  "rewrite_from src res prev [] out deps st = (Inr (out, str_set deps), st)"
| "rewrite_from src res prev (c # cs) out deps st =
     (if c = CHR 0x22 \<or> c = CHR 0x27 then
        (case copy_literal c cs of (lit, rest) \<Rightarrow>
           rewrite_from src res (Some (last (c # lit))) rest (out @ c # lit) deps st)
      else if word_starts prev c then
        (case read_ident (c # cs) of (word, rest) \<Rightarrow>
           if word = ''steps'' \<and> rest \<noteq> [] \<and> hd rest = CHR ''.'' then
             (case step_reference src rest of
                Inl e \<Rightarrow> (Inl e, st)
              | Inr (step, field, r3) \<Rightarrow>
                  (case res step st of
                     (Inl e, st') \<Rightarrow> (Inl e, st')
                   | (Inr nid, st') \<Rightarrow>
                       rewrite_from src res (Some (last field)) r3
                         (out @ ''steps['' @ quote_str nid @ ''].'' @ field) (deps @ [nid]) st'))
           else rewrite_from src res (Some (last word)) rest (out @ word) deps st)
      else rewrite_from src res (Some c) cs (out @ [c]) deps st)"
  by pat_completeness auto
termination
proof (relation "measure (\<lambda>(src, res, prev, s, out, deps, st). length s)", goal_cases)
  case (2 src res prev c cs out deps st x y)
  then have "cs = x @ y" using copy_literal_split by metis
  then show ?case by simp
next
  case (3 src res prev c cs out deps st word rest r step y field r3)
  have "length r3 < length rest" by (rule step_reference_shorter [of src rest step field r3]) (use 3 in auto)
  then show ?case using word_shorter [OF 3(2,3)] by simp
next
  case (4 src res prev c cs out deps st word rest)
  then show ?case using word_shorter [of prev c word rest cs] by simp
qed simp_all

declare rewrite_from.simps [simp del]

definition rewrite_refs :: "string \<Rightarrow> 's resolver \<Rightarrow> 's \<Rightarrow> (string + string \<times> string list) \<times> 's" where
  "rewrite_refs src res st = rewrite_from src res None src [] [] st"

text \<open>A resolver that only looks at names, as the one for a loop's own condition.\<close>

definition pure_resolver :: "(string \<Rightarrow> string + string) \<Rightarrow> unit resolver" where
  "pure_resolver f step st = (f step, st)"

definition rewrite_pure :: "string \<Rightarrow> (string \<Rightarrow> string + string) \<Rightarrow> string + string \<times> string list" where
  "rewrite_pure src f = fst (rewrite_refs src (pure_resolver f) ())"

subsection \<open>What a rewriting does to the resolver's state\<close>

text \<open>Whatever each resolution does to the state, the whole rewriting does; and each id it returns has
  the property the resolutions establish.\<close>

locale resolving =
  fixes res :: "'s resolver" and grows :: "'s \<Rightarrow> 's \<Rightarrow> bool" and known :: "string \<Rightarrow> 's \<Rightarrow> bool"
  assumes grows_refl: "grows s s"
    and grows_trans: "grows s t \<Longrightarrow> grows t u \<Longrightarrow> grows s u"
    and known_grows: "known d s \<Longrightarrow> grows s t \<Longrightarrow> known d t"
    and resolved: "res step s = (r, t) \<Longrightarrow> grows s t"
    and resolved_known: "res step s = (Inr d, t) \<Longrightarrow> known d t"
begin

lemma rewriting:
  "rewrite_from src rs prev s out deps st = (r, t) \<Longrightarrow> rs = res \<Longrightarrow> \<forall>d \<in> set deps. known d st \<Longrightarrow>
   grows st t \<and> (\<forall>out' ds. r = Inr (out', ds) \<longrightarrow> (\<forall>d \<in> set ds. known d t))"
proof (induction src rs prev s out deps st rule: rewrite_from.induct)
  case (1 src rs prev out deps st)
  then show ?case by (auto simp: rewrite_from.simps str_set_def grows_refl)
next
  case (2 src rs prev c cs out deps st)
  note rs = 2(6)
  note eq = 2(5) [unfolded rewrite_from.simps(2) rs] and kn = 2(7)
  consider (lit) "c = CHR 0x22 \<or> c = CHR 0x27"
    | (ref) "\<not> (c = CHR 0x22 \<or> c = CHR 0x27)" "word_starts prev c"
        "fst (read_ident (c # cs)) = ''steps'' \<and> snd (read_ident (c # cs)) \<noteq> [] \<and> hd (snd (read_ident (c # cs))) = CHR ''.''"
    | (word) "\<not> (c = CHR 0x22 \<or> c = CHR 0x27)" "word_starts prev c"
        "\<not> (fst (read_ident (c # cs)) = ''steps'' \<and> snd (read_ident (c # cs)) \<noteq> [] \<and> hd (snd (read_ident (c # cs))) = CHR ''.'')"
    | (char) "\<not> (c = CHR 0x22 \<or> c = CHR 0x27)" "\<not> word_starts prev c"
    by blast
  then show ?case
  proof cases
    case lit
    obtain x y where cl: "copy_literal c cs = (x, y)" by fastforce
    show ?thesis using 2(1) [OF lit cl [symmetric]] rs eq lit cl kn by simp
  next
    case ref
    obtain w rest where w: "read_ident (c # cs) = (w, rest)" by fastforce
    show ?thesis
    proof (cases "step_reference src rest")
      case (Inl e)
      then show ?thesis using eq ref w grows_refl by auto
    next
      case (Inr q)
      obtain step field r3 where q: "q = (step, field, r3)" by (cases q) auto
      obtain nr u where u: "res step st = (nr, u)" by fastforce
      show ?thesis
      proof (cases nr)
        case Inl
        then show ?thesis using eq ref w Inr q u resolved [OF u] by auto
      next
        case (Inr nid)
        note ih = 2(2) [OF ref(1,2) w [symmetric] _ \<open>step_reference src rest = Inr q\<close> q [symmetric] refl u [symmetric, folded rs] Inr]
        have g: "grows st u" by (rule resolved [OF u])
        have "known nid u" using resolved_known u Inr by simp
        then have "\<forall>d \<in> set (deps @ [nid]). known d u" using kn known_grows [OF _ g] by simp
        then show ?thesis
          using ih rs ref w eq q u Inr \<open>step_reference src rest = Inr q\<close> grows_trans [OF g] by simp
      qed
    qed
  next
    case word
    obtain w rest where w: "read_ident (c # cs) = (w, rest)" by fastforce
    show ?thesis using 2(3) [OF word(1,2) w [symmetric]] rs eq word w kn by (simp split: if_splits)
  next
    case char
    show ?thesis using 2(4) [OF char] rs eq char kn by simp
  qed
qed

lemma rewritten:
  "rewrite_refs src res s = (r, t) \<Longrightarrow> grows s t"
  "rewrite_refs src res s = (Inr (out, ds), t) \<Longrightarrow> d \<in> set ds \<Longrightarrow> known d t"
  using rewriting [of src res None src "[]" "[]" s] by (auto simp: rewrite_refs_def)

end

interpretation pure: resolving "pure_resolver f" "\<lambda>s t. True" "\<lambda>d s. \<exists>step. f step = Inr d"
  by unfold_locales (auto simp: pure_resolver_def)

lemma rewrite_pure_deps:
  assumes "rewrite_pure src f = Inr (out, ds)" and "d \<in> set ds"
  shows "\<exists>step. f step = Inr d"
  using pure.rewritten(2) [of src f "()" out ds _ d] assms
  by (auto simp: rewrite_pure_def prod_eq_iff)

end
