(* ===== verification/TemplateRes.thy ===== *)
theory TemplateRes
  imports ConfigModel
begin

text \<open>
  The resolution of a template (\<open>config/desugar.go\<close> \<open>resolveTemplate\<close> and its helpers,
  \<open>config/ir.go\<close> \<open>DefaultInvoke\<close> and \<open>Violations\<close>): the named and the inline form of every aspect
  collapse into the one value the executor consumes, and the invocation dialect is layered over the
  built-in default.
\<close>

subsection \<open>Lexical paths\<close>

text \<open>\<open>path.Clean\<close>, on the segments of a slash-separated path.\<close>

fun clean_segs :: "bool \<Rightarrow> string list \<Rightarrow> string list \<Rightarrow> string list" where
  "clean_segs rooted [] acc = rev acc"
| "clean_segs rooted (s # ss) acc =
     (if s = [] \<or> s = ''.'' then clean_segs rooted ss acc
      else if s = ''..'' then
        (case acc of
           [] \<Rightarrow> if rooted then clean_segs rooted ss [] else clean_segs rooted ss [''..'']
         | a # as \<Rightarrow> if a = ''..'' then clean_segs rooted ss (''..'' # acc) else clean_segs rooted ss as)
      else clean_segs rooted ss (s # acc))"

definition is_abs :: "string \<Rightarrow> bool" where
  "is_abs p \<longleftrightarrow> has_prefix ''/'' p"

definition path_clean :: "string \<Rightarrow> string" where
  "path_clean p =
     (let segs = clean_segs (is_abs p) (split_on CHR ''/'' p) []
      in if is_abs p then ''/'' @ join ''/'' segs
         else if segs = [] then ''.'' else join ''/'' segs)"

definition has_dotdot_segment :: "string \<Rightarrow> bool" where
  "has_dotdot_segment p \<longleftrightarrow> ''..'' \<in> set (split_on CHR ''/'' p)"

subsection \<open>The invocation dialect\<close>

abbreviation SkillModePrefix :: string where "SkillModePrefix \<equiv> ''prefix''"
abbreviation SkillModeFlag :: string where "SkillModeFlag \<equiv> ''flag''"

definition default_invoke :: resolved_invoke where
  "default_invoke =
     \<lparr>ri_subcommand = [], ri_prompt_flag = ''-p'', ri_skill_mode = SkillModePrefix, ri_skill_flag = [],
      ri_prompt_template = ''/{skill}'' @ [CHR 0x0A, CHR 0x0A] @ ''{body}{extra}'',
      ri_fixed_flags = [''--permission-mode'', ''bypassPermissions''], ri_model_flag = ''--model'',
      ri_effort_flag = ''--effort'', ri_budget_flag = ''--max-budget-usd'', ri_session_dir = [],
      ri_resume_argv = []\<rparr>"

text \<open>A field that is set wins: a pointer or slice by not being nil, a plain string by not being empty.\<close>

definition over :: "'a option \<Rightarrow> 'a \<Rightarrow> 'a" where
  "over x d = (case x of None \<Rightarrow> d | Some v \<Rightarrow> v)"

definition over_str :: "string \<Rightarrow> string \<Rightarrow> string" where
  "over_str x d = (if x \<noteq> [] then x else d)"

definition overlay_invoke :: "resolved_invoke \<Rightarrow> invoke_profile \<Rightarrow> resolved_invoke" where
  "overlay_invoke ri p =
     \<lparr>ri_subcommand = over (ip_subcommand p) (ri_subcommand ri),
      ri_prompt_flag = over (ip_prompt_flag p) (ri_prompt_flag ri),
      ri_skill_mode = over_str (ip_skill_mode p) (ri_skill_mode ri),
      ri_skill_flag = over (ip_skill_flag p) (ri_skill_flag ri),
      ri_prompt_template = over_str (ip_prompt_template p) (ri_prompt_template ri),
      ri_fixed_flags = over (ip_fixed_flags p) (ri_fixed_flags ri),
      ri_model_flag = over (ip_model_flag p) (ri_model_flag ri),
      ri_effort_flag = over (ip_effort_flag p) (ri_effort_flag ri),
      ri_budget_flag = over (ip_budget_flag p) (ri_budget_flag ri),
      ri_session_dir = over (ip_session_dir p) (ri_session_dir ri),
      ri_resume_argv = over (ip_resume_argv p) (ri_resume_argv ri)\<rparr>"

definition resolve_invoke :: "config \<Rightarrow> template_def \<Rightarrow> resolved_invoke option" where
  "resolve_invoke cfg t =
     (case td_invoke t of
        None \<Rightarrow> None
      | Some iv \<Rightarrow>
          (let base = (case map_of (cf_invoke_profiles cfg) (iv_profile iv) of
                 None \<Rightarrow> default_invoke | Some p \<Rightarrow> overlay_invoke default_invoke p)
           in Some (overlay_invoke base (iv_fields iv))))"

definition verr :: "string \<Rightarrow> string \<Rightarrow> field_error" where
  "verr p m = \<lparr>fe_path = p, fe_msg = m\<rparr>"

definition skill_violations :: "resolved_invoke \<Rightarrow> field_error list" where
  "skill_violations ri =
     (if ri_skill_mode ri = SkillModePrefix then
        (if contains_str ''{skill}'' (ri_prompt_template ri) then []
         else [verr ''prompt_template'' (''skill_mode '' @ quote_str SkillModePrefix @
                 '' requires {skill} in the prompt template (the skill would be unreachable)'')]) @
        (if ri_skill_flag ri \<noteq> []
         then [verr ''skill_flag'' (''only meaningful with skill_mode '' @ quote_str SkillModeFlag)] else [])
      else if ri_skill_mode ri = SkillModeFlag then
        (if ri_skill_flag ri = []
         then [verr ''skill_flag'' (''required with skill_mode '' @ quote_str SkillModeFlag)] else []) @
        (if contains_str ''{skill}'' (ri_prompt_template ri)
         then [verr ''prompt_template'' (''skill_mode '' @ quote_str SkillModeFlag @
                 '' forbids {skill} in the prompt template (the skill is injected exactly once, via the flag pair); set a prompt_template without it'')]
         else [])
      else [verr ''skill_mode'' (''unknown mode '' @ quote_str (ri_skill_mode ri) @
              '' (legal: '' @ SkillModePrefix @ '', '' @ SkillModeFlag @ '')'')])"

definition session_violations :: "resolved_invoke \<Rightarrow> field_error list" where
  "session_violations ri =
     (let d = ri_session_dir ri in
      if d = [] then []
      else if has_prefix ''/'' d
        then [verr ''session_dir'' (''must be relative to $HOME, not absolute: '' @ quote_str d)]
      else if has_dotdot_segment d
        then [verr ''session_dir'' (''must not contain a '' @ quote_str ''..'' @ '' path segment: '' @ quote_str d)]
      else if path_clean d = ''.''
        then [verr ''session_dir'' (''must name a proper subpath of $HOME, not $HOME itself: '' @ quote_str d)]
      else [])"

fun empty_tokens :: "nat \<Rightarrow> string list \<Rightarrow> field_error list" where
  "empty_tokens i [] = []"
| "empty_tokens i (t # ts) =
     (if t = [] then [verr (''resume_argv['' @ itoa (int i) @ '']'') ''empty argv token''] else []) @
     empty_tokens (Suc i) ts"

definition violations :: "resolved_invoke \<Rightarrow> field_error list" where
  "violations ri =
     skill_violations ri @
     (if contains_str ''{body}'' (ri_prompt_template ri) then []
      else [verr ''prompt_template'' ''must contain {body} (the prompt cannot carry the context bundle without it)'']) @
     session_violations ri @
     (if ri_resume_argv ri \<noteq> [] \<and> ri_session_dir ri = []
      then [verr ''resume_argv'' ''requires a session_dir in the same effective profile (there is no session it could resume)'']
      else []) @
     empty_tokens 0 (ri_resume_argv ri)"

subsection \<open>The other aspects\<close>

definition resolve_build :: "config \<Rightarrow> template_def \<Rightarrow> build_def \<times> bool" where
  "resolve_build cfg t =
     (let none = (\<lparr>bd_packages = [], bd_overlay = [], bd_pin = None\<rparr>, False) in
      case td_build t of
        Some b \<Rightarrow> (b, True)
      | None \<Rightarrow>
          if td_image t = [] then none
          else (case map_of (cf_images cfg) (td_image t) of
                  None \<Rightarrow> none
                | Some im \<Rightarrow> (\<lparr>bd_packages = im_packages im, bd_overlay = im_overlay im, bd_pin = im_pin im\<rparr>, True)))"

definition resolve_identity :: "template_def \<Rightarrow> string" where
  "resolve_identity t = (if td_identity t \<noteq> [] then td_identity t else rn_identity (td_run t))"

definition resolve_hook :: "config \<Rightarrow> string \<Rightarrow> string" where
  "resolve_hook cfg v =
     (if v = [] \<or> is_path v then v else case map_of (cf_hooks cfg) v of None \<Rightarrow> v | Some p \<Rightarrow> p)"

definition resolve_hooks :: "config \<Rightarrow> hook_set \<Rightarrow> hook_set" where
  "resolve_hooks cfg h =
     \<lparr>hk_context = resolve_hook cfg (hk_context h), hk_prelude = resolve_hook cfg (hk_prelude h),
      hk_postlude = resolve_hook cfg (hk_postlude h), hk_on_failure = resolve_hook cfg (hk_on_failure h)\<rparr>"

fun dedup :: "string list \<Rightarrow> string list \<Rightarrow> string list" where
  "dedup seen [] = []"
| "dedup seen (x # xs) = (if x \<in> set seen then dedup seen xs else x # dedup (x # seen) xs)"

definition resolve_skills :: "config \<Rightarrow> template_def \<Rightarrow> resolved_skills option" where
  "resolve_skills cfg t =
     (if sr_names (td_skills t) \<noteq> [] then
        Some \<lparr>rs_sources = map (\<lambda>nm. \<lparr>ss_name = nm, ss_dir = get_or [] (cf_skills cfg) nm\<rparr>)
                             (dedup [] (sr_names (td_skills t))),
              rs_root = [], rs_primary = td_skill t, rs_link = td_skills_link t\<rparr>
      else case sr_inline (td_skills t) of
        Some d \<Rightarrow> Some \<lparr>rs_sources = [], rs_root = sk_dir d, rs_primary = td_skill t, rs_link = sk_link d\<rparr>
      | None \<Rightarrow> None)"

text \<open>\<open>normalizeDefs\<close>: the defaults of a schema, and what is wrong with them.\<close>

fun normalize_defs ::
  "(goval \<Rightarrow> string) \<Rightarrow> string \<Rightarrow> param_def smap \<Rightarrow> string list \<Rightarrow> field_error list \<times> param_def smap" where
  "normalize_defs shw sp defs [] = ([], [])"
| "normalize_defs shw sp defs (k # ks) =
     (case normalize_defs shw sp defs ks of (errs, out) \<Rightarrow>
        (case map_of defs k of
           None \<Rightarrow> (errs, out)
         | Some d \<Rightarrow>
             (case pd_default d of
                None \<Rightarrow> (errs, (k, d) # out)
              | Some v \<Rightarrow>
                  (case normalize_value shw v of
                     Inl e \<Rightarrow> (verr sp (''invalid default for '' @ quote_str k @ '': '' @ e) # errs, (k, d) # out)
                   | Inr nv \<Rightarrow> (errs, (k, d\<lparr>pd_default := Some nv\<rparr>) # out)))))"

definition resolve_template ::
  "(goval \<Rightarrow> string) \<Rightarrow> config \<Rightarrow> string \<Rightarrow> string \<Rightarrow> field_error list \<times> template option" where
  "resolve_template shw cfg name sp =
     (case map_of (cf_templates cfg) name of
        None \<Rightarrow> ([verr (sp @ ''.use'') (''unknown template '' @ quote_str name)], None)
      | Some t \<Rightarrow>
          (let build = fst (resolve_build cfg t);
               ins = normalize_defs shw sp (td_inputs t) (sorted_keys (td_inputs t));
               outs = normalize_defs shw sp (td_output t) (sorted_keys (td_output t))
           in (fst ins @ fst outs, Some
              \<lparr>t_name = name, t_packages = bd_packages build, t_overlay = bd_overlay build,
               t_pin = bd_pin build, t_identity = resolve_identity t, t_lane = td_lane t,
               t_resources = rn_resources (td_run t), t_runtime = rn_runtime (td_run t),
               t_env = rn_env (td_run t), t_volumes = rn_volumes (td_run t), t_skill = td_skill t,
               t_model = td_model t, t_effort = td_effort t, t_invoke = resolve_invoke cfg t,
               t_agent_optional = td_agent_optional t, t_hooks = resolve_hooks cfg (td_hooks t),
               t_skills = resolve_skills cfg t, t_inputs = snd ins, t_output = snd outs\<rparr>)))"

subsection \<open>Session directories stay inside the home directory\<close>

lemma clean_segs_plain:
  "''..'' \<notin> set ss \<Longrightarrow> clean_segs r ss acc = rev acc @ filter (\<lambda>s. s \<noteq> [] \<and> s \<noteq> ''.'') ss"
  by (induction r ss acc rule: clean_segs.induct) auto

end
