(* ===== verification/Desugar.thy ===== *)
theory Desugar
  imports CelRefs TemplateRes "HOL-Library.Product_Lexorder"
begin

text \<open>
  The desugarer (\<open>config/desugar.go\<close>): one workflow of an assembled configuration compiled into the
  graph the executor runs. Bounded loops are unrolled into chained copies of their body with gate
  conditions, compact bindings become data edges and binding descriptors, a workflow used as a step is
  inlined as a nested graph. \<open>shw\<close> renders a value for an error message.
\<close>

subsection \<open>State\<close>

text \<open>The errors and the node count are the desugarer's, the rest is the graph under construction.\<close>

record emission =
  em_errs :: "field_error list"
  em_count :: int
  em_nodes :: "node list"
  em_edges :: "edge list"
  em_loops :: "loop_spec list"
  em_made :: "string list"

definition max_unrolled_nodes :: int where
  "max_unrolled_nodes = 10000"

text \<open>Go's \<open>int\<close>: 64 bits, wrapping.\<close>

definition wrap_int :: "int \<Rightarrow> int" where
  "wrap_int i = (i + 9223372036854775808) mod 18446744073709551616 - 9223372036854775808"

definition addf :: "string \<Rightarrow> string \<Rightarrow> emission \<Rightarrow> emission" where
  "addf p m e = e\<lparr>em_errs := em_errs e @ [verr p m]\<rparr>"

definition add_errs :: "field_error list \<Rightarrow> emission \<Rightarrow> emission" where
  "add_errs es e = e\<lparr>em_errs := em_errs e @ es\<rparr>"

definition add_node :: "node \<Rightarrow> emission \<Rightarrow> emission" where
  "add_node n e = e\<lparr>em_nodes := em_nodes e @ [n], em_made := n_id n # em_made e\<rparr>"

definition add_edges_to :: "edge list \<Rightarrow> emission \<Rightarrow> emission" where
  "add_edges_to es e = e\<lparr>em_edges := em_edges e @ es\<rparr>"

definition count_node :: "emission \<Rightarrow> emission" where
  "count_node e = e\<lparr>em_count := wrap_int (em_count e + 1)\<rparr>"

definition ordering_edge :: "string \<Rightarrow> string \<Rightarrow> edge" where
  "ordering_edge a b = \<lparr>e_from = a, e_from_port = [], e_to = b, e_to_port = []\<rparr>"

subsection \<open>Name resolution levels\<close>

record loop_decl =
  lo_id :: string
  lo_prefix :: string
  lo_def :: loop_def
  lo_body :: "string list"

definition instance_prefix :: "loop_decl \<Rightarrow> int \<Rightarrow> string" where
  "instance_prefix ld i = lo_prefix ld @ ''/'' @ lo_id ld @ ''@'' @ itoa i"

text \<open>A level without its parent pointer: the chain of levels is a list, innermost first.\<close>

record level =
  lv_prefix :: string
  lv_plain :: "string smap"
  lv_loops :: "loop_decl smap"

definition loop_body :: "step_def list \<Rightarrow> string list" where
  "loop_body ss = remdups (map sd_id (filter (\<lambda>s. sd_id s \<noteq> [] \<and> sd_loop s = None) ss))"

definition note_step :: "string \<Rightarrow> step_def \<Rightarrow> level \<Rightarrow> level" where
  "note_step prefix s l =
     (if sd_id s = [] then l
      else let plain = l\<lparr>lv_plain := put (sd_id s) (prefix @ ''/'' @ sd_id s) (lv_plain l)\<rparr> in
        case sd_loop s of
          None \<Rightarrow> plain
        | Some d \<Rightarrow>
            if sd_use s = [] \<and> sd_generate s = None
            then l\<lparr>lv_loops := put (sd_id s) \<lparr>lo_id = sd_id s, lo_prefix = prefix, lo_def = d,
                     lo_body = loop_body (ld_steps d)\<rparr> (lv_loops l)\<rparr>
            else plain)"

definition new_level :: "string \<Rightarrow> step_def list \<Rightarrow> level" where
  "new_level prefix steps = fold (note_step prefix) steps \<lparr>lv_prefix = prefix, lv_plain = [], lv_loops = []\<rparr>"

subsection \<open>Conditions\<close>

record cond_piece =
  cp_cel :: string
  cp_deps :: "string list"
  cp_wrapped :: bool

definition combine_cond :: "cond_piece list \<Rightarrow> cond_spec option" where
  "combine_cond pieces =
     (if pieces = [] then None
      else Some
        \<lparr>c_cel = join '' && '' (map (\<lambda>p. if cp_wrapped p \<or> length pieces = 1 then cp_cel p
                                         else ''('' @ cp_cel p @ '')'') pieces),
         c_deps = str_set (concat (map cp_deps pieces))\<rparr>)"

text \<open>References of a loop's own condition, read at iteration \<open>i\<close>.\<close>

definition until_resolver :: "loop_decl \<Rightarrow> int \<Rightarrow> string \<Rightarrow> string + string" where
  "until_resolver ld i step =
     (if step \<in> set (lo_body ld) then Inr (instance_prefix ld i @ ''/'' @ step)
      else Inl (''until references step '' @ quote_str step @ '' outside the loop body''))"

definition until_at :: "loop_decl \<Rightarrow> int \<Rightarrow> string + string \<times> string list" where
  "until_at ld i = rewrite_pure (ld_until (lo_def ld)) (until_resolver ld i)"

definition loop_max :: "loop_decl \<Rightarrow> int" where
  "loop_max ld = ld_max (lo_def ld)"

text \<open>The ids of a body step's iterations, newest first.\<close>

definition candidates_of :: "loop_decl \<Rightarrow> string \<Rightarrow> string list" where
  "candidates_of ld step = map (\<lambda>i. instance_prefix ld i @ ''/'' @ step) (rev [1..loop_max ld])"

definition selector_node :: "string \<Rightarrow> string \<Rightarrow> string list \<Rightarrow> cond_spec \<Rightarrow> node" where
  "selector_node sid step cands ex =
     Node sid KindSelector None None None
       (Some \<lparr>sel_step = step, sel_candidates = cands, sel_exhausted = Some ex\<rparr>) [] None 0 [] []"

definition ensure_selector :: "loop_decl \<Rightarrow> string \<Rightarrow> emission \<Rightarrow> (string + string) \<times> emission" where
  "ensure_selector ld step e =
     (let sid = lo_prefix ld @ ''/'' @ step in
      if sid \<in> set (em_made e) then (Inr sid, e)
      else case until_at ld (loop_max ld) of
        Inl m \<Rightarrow> (Inl m, e)
      | Inr (u, udeps) \<Rightarrow>
          (Inr sid,
           add_edges_to (map (\<lambda>c. ordering_edge c sid) (candidates_of ld step))
             (count_node (add_node (selector_node sid step (candidates_of ld step)
                \<lparr>c_cel = ''!('' @ u @ '')'', c_deps = udeps\<rparr>) e))))"

fun resolve_step :: "level list \<Rightarrow> emission resolver" where
  "resolve_step [] step e = (Inl (''unknown step '' @ quote_str step), e)"
| "resolve_step (l # ls) step e =
     (case map_of (lv_plain l) step of
        Some nid \<Rightarrow> (Inr nid, e)
      | None \<Rightarrow>
          if map_of (lv_loops l) step \<noteq> None
          then (Inl (''steps.'' @ step @ '' references a loop step, which has no output fields; reference a body step instead''), e)
          else case List.find (\<lambda>q. case map_of (lv_loops l) q of None \<Rightarrow> False | Some ld \<Rightarrow> step \<in> set (lo_body ld))
                 (sorted_keys (lv_loops l)) of
            Some q \<Rightarrow> (case map_of (lv_loops l) q of None \<Rightarrow> resolve_step ls step e | Some ld \<Rightarrow> ensure_selector ld step e)
          | None \<Rightarrow> resolve_step ls step e)"

definition cond_piece_for :: "string \<Rightarrow> level list \<Rightarrow> string \<Rightarrow> emission \<Rightarrow> cond_piece option \<times> emission" where
  "cond_piece_for when lvls path e =
     (case rewrite_refs when (resolve_step lvls) e of
        (Inl m, e1) \<Rightarrow> (None, addf path m e1)
      | (Inr (cel, deps), e1) \<Rightarrow> (Some \<lparr>cp_cel = cel, cp_deps = deps, cp_wrapped = False\<rparr>, e1))"

text \<open>The pieces imposed on a step, and those with its own condition.\<close>

definition with_when :: "string \<Rightarrow> level list \<Rightarrow> string \<Rightarrow> cond_piece list \<Rightarrow> emission \<Rightarrow> cond_piece list \<times> emission" where
  "with_when when lvls sp gates e =
     (if when = [] then (gates, e)
      else case cond_piece_for when lvls (sp @ ''.when'') e of
        (None, e1) \<Rightarrow> (gates, e1)
      | (Some p, e1) \<Rightarrow> (gates @ [p], e1))"

definition step_cond :: "string \<Rightarrow> level list \<Rightarrow> string \<Rightarrow> cond_piece list \<Rightarrow> emission \<Rightarrow> cond_spec option \<times> emission" where
  "step_cond when lvls sp gates e =
     (case with_when when lvls sp gates e of (ps, e1) \<Rightarrow> (combine_cond ps, e1))"

subsection \<open>Bindings\<close>

fun expand_bindings ::
  "(goval \<Rightarrow> string) \<Rightarrow> goval smap \<Rightarrow> level list \<Rightarrow> string \<Rightarrow> string \<Rightarrow> bool \<Rightarrow> string list
    \<Rightarrow> binding_desc smap \<Rightarrow> emission \<Rightarrow> binding_desc smap \<times> emission" where
  "expand_bindings shw binds lvls path to_node allow_item [] out e = (out, e)"
| "expand_bindings shw binds lvls path to_node allow_item (slot # slots) out e =
     (let slot_path = path @ ''.'' @ slot; val = get_or VNull binds slot;
          blank = \<lparr>b_kind = [], b_value = VNull, b_type = [], b_name = [], b_field = []\<rparr>;
          go_on = expand_bindings shw binds lvls path to_node allow_item slots
      in case parse_binding val of
           Inl m \<Rightarrow> go_on out (addf slot_path m e)
         | Inr (BLit v) \<Rightarrow>
             (case normalize_value shw v of
                Inl m \<Rightarrow> go_on out (addf slot_path (''invalid literal: '' @ m) e)
              | Inr nv \<Rightarrow> go_on (put slot (blank\<lparr>b_kind := BindLiteral, b_value := nv, b_type := yaml_type_name nv\<rparr>) out) e)
         | Inr (BRef r) \<Rightarrow>
             (case ref_root r of
                RootParams \<Rightarrow> go_on (put slot (blank\<lparr>b_kind := BindParam, b_name := ref_name r\<rparr>) out) e
              | RootItem \<Rightarrow>
                  if \<not> allow_item
                  then go_on out (addf slot_path ''${item.*} is only legal inside a generate's with: bindings'' e)
                  else go_on (put slot (blank\<lparr>b_kind := BindItem, b_field := ref_name r\<rparr>) out) e
              | RootSteps \<Rightarrow>
                  (case resolve_step lvls (ref_name r) e of
                     (Inl m, e1) \<Rightarrow> go_on out (addf slot_path m e1)
                   | (Inr from_id, e1) \<Rightarrow>
                       go_on out (add_edges_to [\<lparr>e_from = from_id, e_from_port = ref_field r,
                          e_to = to_node, e_to_port = slot\<rparr>] e1))
              | RootSources \<Rightarrow> go_on out (addf slot_path ''${sources.*} is not a legal binding value'' e)))"

text \<open>The defaults of the target workflow's parameters that the step leaves unbound.\<close>

fun bake_defaults ::
  "(goval \<Rightarrow> string) \<Rightarrow> param_def smap \<Rightarrow> goval smap \<Rightarrow> string \<Rightarrow> string list
    \<Rightarrow> binding_desc smap \<Rightarrow> emission \<Rightarrow> binding_desc smap \<times> emission" where
  "bake_defaults shw decl binds sp [] out e = (out, e)"
| "bake_defaults shw decl binds sp (k # ks) out e =
     (case map_of decl k of
        None \<Rightarrow> bake_defaults shw decl binds sp ks out e
      | Some p \<Rightarrow>
          (case pd_default p of
             None \<Rightarrow> bake_defaults shw decl binds sp ks out e
           | Some v \<Rightarrow>
               if map_of binds k \<noteq> None then bake_defaults shw decl binds sp ks out e
               else case normalize_value shw v of
                 Inl m \<Rightarrow> bake_defaults shw decl binds sp ks out
                   (addf (sp @ ''.with.'' @ k) (''invalid default for param '' @ quote_str k @ '': '' @ m) e)
               | Inr nv \<Rightarrow> bake_defaults shw decl binds sp ks
                   (put k \<lparr>b_kind = BindLiteral, b_value = nv, b_type = pd_type p, b_name = [], b_field = []\<rparr> out) e))"

subsection \<open>Ordering dependencies\<close>

fun resolve_depends_on :: "level list \<Rightarrow> string \<Rightarrow> string + string list" where
  "resolve_depends_on [] dep = Inl (''unknown step '' @ quote_str dep @ '' in depends_on'')"
| "resolve_depends_on (l # ls) dep =
     (case map_of (lv_plain l) dep of
        Some nid \<Rightarrow> Inr [nid]
      | None \<Rightarrow>
          (case map_of (lv_loops l) dep of
             Some ld \<Rightarrow> Inr (map (\<lambda>b. instance_prefix ld (loop_max ld) @ ''/'' @ b) (sort (lo_body ld)))
           | None \<Rightarrow> resolve_depends_on ls dep))"

fun emit_depends_on :: "string list \<Rightarrow> level list \<Rightarrow> string \<Rightarrow> string \<Rightarrow> emission \<Rightarrow> emission" where
  "emit_depends_on [] lvls sp nid e = e"
| "emit_depends_on (dep # deps) lvls sp nid e =
     emit_depends_on deps lvls sp nid
       (case resolve_depends_on lvls dep of
          Inl m \<Rightarrow> addf (sp @ ''.depends_on'') m e
        | Inr froms \<Rightarrow> add_edges_to (map (\<lambda>a. ordering_edge a nid) froms) e)"

end
