(* ===== verification/Unroll.thy ===== *)
theory Unroll
  imports Desugar
begin

text \<open>
  The recursive part of the desugarer (\<open>config/desugar.go\<close>): step lists, loop unrolling and inlined
  workflows, the check against workflow reference cycles that bounds the inlining, and the canonical
  order of the emitted graph (\<open>config/ir.go\<close>).

  The inlining recursion is bounded by the argument \<open>f\<close>, the number of workflows that may still be
  nested; running out of it is an error of its own.
\<close>

subsection \<open>Leaf steps\<close>

definition node_id_of :: "level \<Rightarrow> step_def \<Rightarrow> string" where
  "node_id_of l s = lv_prefix l @ ''/'' @ sd_id s"

text \<open>What every step form ends with: condition, ordering edges, the node, the count.\<close>

definition finish_step ::
  "step_def \<Rightarrow> level list \<Rightarrow> string \<Rightarrow> cond_piece list \<Rightarrow> (cond_spec option \<Rightarrow> node) \<Rightarrow> string \<Rightarrow> emission \<Rightarrow> emission" where
  "finish_step s lvls sp gates mk nid e =
     (case step_cond (sd_when s) lvls sp gates e of (c, e1) \<Rightarrow>
        count_node (add_node (mk c) (emit_depends_on (sd_depends_on s) lvls sp nid e1)))"

definition emit_agent ::
  "(goval \<Rightarrow> string) \<Rightarrow> config \<Rightarrow> step_def \<Rightarrow> level \<Rightarrow> level list \<Rightarrow> string \<Rightarrow> cond_piece list \<Rightarrow> emission \<Rightarrow> emission" where
  "emit_agent shw cfg s l ls sp gates e =
     (let nid = node_id_of l s; rt = resolve_template shw cfg (sd_use s) sp in
      case expand_bindings shw (sd_with s) (l # ls) (sp @ ''.with'') nid False (sorted_keys (sd_with s)) []
             (add_errs (fst rt) e) of
        (bs, e1) \<Rightarrow> finish_step s (l # ls) sp gates
           (\<lambda>c. Node nid KindAgent (snd rt) None None None bs c (sd_retry s) (sd_on_failure s) (sd_tools s)) nid e1)"

definition workflow_of :: "config \<Rightarrow> string \<Rightarrow> workflow_def" where
  "workflow_of cfg name = get_or \<lparr>wf_params = [], wf_sources = [], wf_steps = []\<rparr> (cf_workflows cfg) name"

definition emit_sub ::
  "(goval \<Rightarrow> string) \<Rightarrow> config \<Rightarrow> step_def \<Rightarrow> level \<Rightarrow> level list \<Rightarrow> string \<Rightarrow> cond_piece list \<Rightarrow> ir \<Rightarrow> emission \<Rightarrow> emission" where
  "emit_sub shw cfg s l ls sp gates sub e =
     (let nid = node_id_of l s; decl = wf_params (workflow_of cfg (sd_use s)) in
      case expand_bindings shw (sd_with s) (l # ls) (sp @ ''.with'') nid False (sorted_keys (sd_with s)) [] e of
        (bs, e1) \<Rightarrow>
          (case bake_defaults shw decl (sd_with s) sp (sorted_keys decl) bs e1 of
             (bs', e2) \<Rightarrow> finish_step s (l # ls) sp gates
               (\<lambda>c. Node nid KindSubWorkflow None (Some sub) None None bs' c (sd_retry s) (sd_on_failure s) []) nid e2))"

definition emit_generate ::
  "(goval \<Rightarrow> string) \<Rightarrow> config \<Rightarrow> workflow_def \<Rightarrow> generate_def \<Rightarrow> step_def \<Rightarrow> level \<Rightarrow> level list \<Rightarrow> string
    \<Rightarrow> cond_piece list \<Rightarrow> emission \<Rightarrow> emission" where
  "emit_generate shw cfg wd g s l ls sp gates e =
     (case map_of (wf_sources wd) (gd_source g) of
        None \<Rightarrow> addf (sp @ ''.generate.source'') (''unknown source '' @ quote_str (gd_source g)) e
      | Some src \<Rightarrow>
          if map_of (cf_workflows cfg) (gd_workflow g) = None
          then addf (sp @ ''.generate.workflow'') (''unknown workflow '' @ quote_str (gd_workflow g)) e
          else
            (let nid = node_id_of l s; decl = wf_params (workflow_of cfg (gd_workflow g)) in
             case expand_bindings shw (gd_with g) (l # ls) (sp @ ''.generate.with'') nid True
                    (sorted_keys (gd_with g)) [] e of
               (bs, e1) \<Rightarrow>
                 (case bake_defaults shw decl (gd_with g) (sp @ ''.generate'') (sorted_keys decl) bs e1 of
                    (bs', e2) \<Rightarrow> finish_step s (l # ls) sp gates
                      (\<lambda>c. Node nid KindGenerate None None
                         (Some \<lparr>gs_source = gd_source g, gs_command = so_command src, gs_args = so_args src,
                            gs_workflow = gd_workflow g, gs_bindings = bs', gs_max_parallel = gd_max_parallel g\<rparr>)
                         None [] c (sd_retry s) (sd_on_failure s) []) nid e2)))"

subsection \<open>Loops\<close>

lemma loop_steps_size [termination_simp]:
  "sd_loop s = Some d \<Longrightarrow> size_list size (ld_steps d) < Suc (size s + n)"
  using sd_loop_size [of s d] ld_steps_size [of d] by linarith

fun count_steps :: "step_def list \<Rightarrow> int" where
  "count_steps [] = 0"
| "count_steps (s # ss) =
     wrap_int ((case sd_loop s of None \<Rightarrow> 1 | Some d \<Rightarrow> wrap_int (count_steps (ld_steps d) * ld_max d)) + count_steps ss)"

text \<open>The checks before a loop is unrolled, and the expectation it registers.\<close>

definition loop_plan ::
  "workflow_def \<Rightarrow> step_def \<Rightarrow> level \<Rightarrow> string \<Rightarrow> emission \<Rightarrow> loop_decl option \<times> emission" where
  "loop_plan wd s l sp e =
     (case map_of (lv_loops l) (sd_id s) of
        None \<Rightarrow> (None, addf (sp @ ''.loop'') ''loop requires max >= 1, until, and a non-empty body'' e)
      | Some ld \<Rightarrow>
          (let d = lo_def ld in
           if ld_max d < 1 \<or> ld_until d = [] \<or> ld_steps d = []
           then (None, addf (sp @ ''.loop'') ''loop requires max >= 1, until, and a non-empty body'' e)
           else if max_unrolled_nodes < wrap_int (em_count e + wrap_int (count_steps (ld_steps d) * ld_max d))
           then (None, addf (sp @ ''.loop'') (''unrolling loop '' @ quote_str (sd_id s) @ '' would exceed the '' @
                  itoa max_unrolled_nodes @ ''-node sanity ceiling ('' @ itoa (count_steps (ld_steps d)) @
                  '' body nodes x max '' @ itoa (ld_max d) @ '')'') e)
           else if ld_expect d = [] then (Some ld, e)
           else case map_of (wf_sources wd) (ld_expect d) of
             None \<Rightarrow> (None, addf (sp @ ''.loop.expect'') (''unknown source '' @ quote_str (ld_expect d)) e)
           | Some src \<Rightarrow> (Some ld, e\<lparr>em_loops := em_loops e @ [\<lparr>l_id = lv_prefix l @ ''/'' @ sd_id s, l_max = ld_max d,
                 l_command = so_command src, l_args = so_args src\<rparr>]\<rparr>)))"

lemma loop_plan_decl: "fst (loop_plan wd s l sp e) = Some ld \<Longrightarrow> map_of (lv_loops l) (sd_id s) = Some ld"
  by (auto simp: loop_plan_def Let_def split: option.splits if_splits)

text \<open>The gate of an iteration: the condition the one before it was left on, negated.\<close>

definition iter_gates :: "(string \<times> string list) option \<Rightarrow> cond_piece list \<Rightarrow> cond_piece list" where
  "iter_gates prev gates =
     (case prev of None \<Rightarrow> gates
      | Some (u, deps) \<Rightarrow> \<lparr>cp_cel = ''!('' @ u @ '')'', cp_deps = deps, cp_wrapped = True\<rparr> # gates)"

text \<open>The nodes the emission of one iteration appended under its prefix, and the chain to it.\<close>

definition iter_nodes :: "string \<Rightarrow> emission \<Rightarrow> emission \<Rightarrow> string list" where
  "iter_nodes inst e e1 =
     sort (filter (has_prefix (inst @ ''/'')) (map n_id (drop (length (em_nodes e)) (em_nodes e1))))"

definition chain_edges :: "string list \<Rightarrow> string list \<Rightarrow> edge list" where
  "chain_edges prev cur = concat (map (\<lambda>a. map (ordering_edge a) cur) prev)"

definition iter_done :: "string \<Rightarrow> string list \<Rightarrow> emission \<Rightarrow> emission \<Rightarrow> string list \<times> emission" where
  "iter_done inst prev e e1 =
     (let cur = iter_nodes inst e e1 in (cur, add_edges_to (chain_edges prev cur) e1))"

text \<open>A selector for every body step the loop's condition reads.\<close>

definition until_selector :: "loop_decl \<Rightarrow> emission resolver" where
  "until_selector ld step e =
     (if step \<notin> set (lo_body ld)
      then (Inl (''until references step '' @ quote_str step @ '' outside the loop body''), e)
      else case ensure_selector ld step e of
        (Inl m, e1) \<Rightarrow> (Inl m, e1)
      | (Inr _, e1) \<Rightarrow> (Inr step, e1))"

definition until_selectors :: "loop_decl \<Rightarrow> string \<Rightarrow> emission \<Rightarrow> emission" where
  "until_selectors ld sp e =
     (case rewrite_refs (ld_until (lo_def ld)) (until_selector ld) e of
        (Inl m, e1) \<Rightarrow> addf (sp @ ''.loop.until'') m e1
      | (Inr _, e1) \<Rightarrow> e1)"

subsection \<open>The recursion\<close>

definition step_forms :: "step_def \<Rightarrow> nat" where
  "step_forms s = (if sd_use s \<noteq> [] then 1 else 0) + (if sd_loop s \<noteq> None then 1 else 0) +
     (if sd_generate s \<noteq> None then 1 else 0)"

definition fresh_builder :: "emission \<Rightarrow> emission" where
  "fresh_builder e = \<lparr>em_errs = em_errs e, em_count = em_count e, em_nodes = [], em_edges = [], em_loops = [], em_made = []\<rparr>"

definition back_to :: "emission \<Rightarrow> emission \<Rightarrow> emission" where
  "back_to e b = e\<lparr>em_errs := em_errs b, em_count := em_count b\<rparr>"

definition emitted_ir :: "config \<Rightarrow> string \<Rightarrow> emission \<Rightarrow> ir" where
  "emitted_ir cfg name b = IR 2 name (em_nodes b) (em_edges b) (cf_lanes cfg) (em_loops b)"

text \<open>The weight of a level: the loops that can still be unrolled from it.\<close>

definition loops_size :: "loop_decl smap \<Rightarrow> nat" where
  "loops_size m = (\<Sum>p \<leftarrow> m. size (lo_def (snd p)))"

definition level_size :: "level \<Rightarrow> nat" where
  "level_size l = loops_size (lv_loops l)"

lemma loops_size_put: "loops_size (put k d m) \<le> loops_size m + size (lo_def d)"
  by (induction m) (auto simp: loops_size_def)

lemma level_size_note: "level_size (note_step p s l) \<le> level_size l + size s"
proof (cases "sd_loop s")
  case (Some d)
  then have "size d < size s" by (rule sd_loop_size)
  with Some show ?thesis
    using loops_size_put [of "sd_id s" "\<lparr>lo_id = sd_id s, lo_prefix = p, lo_def = d, lo_body = loop_body (ld_steps d)\<rparr>" "lv_loops l"]
    by (auto simp: note_step_def level_size_def Let_def)
qed (simp add: note_step_def level_size_def Let_def)

lemma level_size_new: "level_size (new_level p ss) \<le> size_list size ss"
proof -
  have "level_size (fold (note_step p) ss l) \<le> level_size l + size_list size ss" for l
  proof (induction ss arbitrary: l)
    case (Cons s ss)
    show ?case using Cons.IH [of "note_step p s l"] level_size_note [of p s l] by simp
  qed simp
  from this [of "\<lparr>lv_prefix = p, lv_plain = [], lv_loops = []\<rparr>"] show ?thesis
    by (simp add: new_level_def level_size_def loops_size_def)
qed

lemma loop_decl_size: "map_of (lv_loops l) k = Some ld \<Longrightarrow> size (lo_def ld) \<le> level_size l"
  unfolding level_size_def loops_size_def
  by (rule order_trans [OF _ member_le_sum_list [of "size (lo_def ld)"]])
    (auto dest!: map_of_SomeD simp: image_iff intro!: bexI [of _ "(k, ld)"])

lemma body_level_size: "level_size (new_level p (ld_steps d)) < size d"
  using level_size_new [of p "ld_steps d"] ld_steps_size [of d] by simp

function emit_workflow ::
    "nat \<Rightarrow> (goval \<Rightarrow> string) \<Rightarrow> config \<Rightarrow> string \<Rightarrow> string \<Rightarrow> emission \<Rightarrow> ir \<times> emission"
  and emit_steps ::
    "nat \<Rightarrow> (goval \<Rightarrow> string) \<Rightarrow> config \<Rightarrow> workflow_def \<Rightarrow> step_def list \<Rightarrow> level \<Rightarrow> level list \<Rightarrow> string \<Rightarrow> nat
      \<Rightarrow> cond_piece list \<Rightarrow> emission \<Rightarrow> emission"
  and emit_step ::
    "nat \<Rightarrow> (goval \<Rightarrow> string) \<Rightarrow> config \<Rightarrow> workflow_def \<Rightarrow> step_def \<Rightarrow> level \<Rightarrow> level list \<Rightarrow> string
      \<Rightarrow> cond_piece list \<Rightarrow> emission \<Rightarrow> emission"
  and unroll_loop ::
    "nat \<Rightarrow> (goval \<Rightarrow> string) \<Rightarrow> config \<Rightarrow> workflow_def \<Rightarrow> loop_decl \<Rightarrow> level list \<Rightarrow> string
      \<Rightarrow> cond_piece list \<Rightarrow> int \<Rightarrow> (string \<times> string list) option \<Rightarrow> string list \<Rightarrow> emission \<Rightarrow> bool \<times> emission"
where
  "emit_workflow f shw cfg name scope e =
     (let wd = workflow_of cfg name;
          b = emit_steps f shw cfg wd (wf_steps wd) (new_level scope (wf_steps wd)) []
                (''workflows.'' @ name @ ''.steps'') 0 [] (fresh_builder e)
      in (emitted_ir cfg name b, back_to e b))"
| "emit_steps f shw cfg wd [] l ls path i gates e = e"
| "emit_steps f shw cfg wd (s # ss) l ls path i gates e =
     emit_steps f shw cfg wd ss l ls path (Suc i) gates
       (emit_step f shw cfg wd s l ls (path @ ''['' @ itoa (int i) @ '']'') gates e)"
| "emit_step f shw cfg wd s l ls sp gates e =
     (if step_forms s \<noteq> 1 \<or> sd_id s = []
      then addf sp ''step must have an id and exactly one of use/loop/generate'' e
      else if sd_loop s \<noteq> None then
        (let plan = loop_plan wd s l sp e in
         case fst plan of
           None \<Rightarrow> snd plan
         | Some ld \<Rightarrow>
             (let g = with_when (sd_when s) (l # ls) sp gates (snd plan);
                  r = unroll_loop f shw cfg wd ld (l # ls) sp (fst g) 1 None [] (snd g)
              in if fst r then until_selectors ld sp (snd r) else snd r))
      else case sd_generate s of
        Some g \<Rightarrow> emit_generate shw cfg wd g s l ls sp gates e
      | None \<Rightarrow>
          if map_of (cf_templates cfg) (sd_use s) \<noteq> None then emit_agent shw cfg s l ls sp gates e
          else if map_of (cf_workflows cfg) (sd_use s) \<noteq> None then
            (case f of
               0 \<Rightarrow> addf (sp @ ''.use'') ''workflows nested too deep'' e
             | Suc f' \<Rightarrow>
                 (let r = emit_workflow f' shw cfg (sd_use s) (node_id_of l s) e
                  in emit_sub shw cfg s l ls sp gates (fst r) (snd r)))
          else addf (sp @ ''.use'') (''unknown template or workflow '' @ quote_str (sd_use s)) e)"
| "unroll_loop f shw cfg wd ld ls sp gates i prev prev_nodes e =
     (if loop_max ld < i then (True, e)
      else case until_at ld i of
        Inl m \<Rightarrow> (False, addf (sp @ ''.loop.until'') m e)
      | Inr u \<Rightarrow>
          (let q = iter_done (instance_prefix ld i) prev_nodes e
                  (emit_steps f shw cfg wd (ld_steps (lo_def ld))
                     (new_level (instance_prefix ld i) (ld_steps (lo_def ld))) ls (sp @ ''.loop.steps'') 0
                     (iter_gates prev gates) e)
           in unroll_loop f shw cfg wd ld ls sp gates (i + 1) (Some u) (fst q) (snd q)))"
  by pat_completeness auto
termination
  by (relation "inv_image (less_than <*lex*> less_than <*lex*> less_than <*lex*> less_than) (\<lambda>x. case x of
      Inl (Inl (f, shw, cfg, name, scope, e)) \<Rightarrow> (f, level_size (new_level scope (wf_steps (workflow_of cfg name))), 3, 0)
    | Inl (Inr (f, shw, cfg, wd, ss, l, ls, path, i, gates, e)) \<Rightarrow> (f, level_size l, 2, length ss)
    | Inr (Inl (f, shw, cfg, wd, s, l, ls, sp, gates, e)) \<Rightarrow> (f, level_size l, 1, 0)
    | Inr (Inr (f, shw, cfg, wd, ld, ls, sp, gates, i, prev, pn, e)) \<Rightarrow> (f, size (lo_def ld), 0, nat (loop_max ld + 1 - i)))")
    (auto dest!: loop_plan_decl dest: loop_decl_size simp: body_level_size)

declare emit_workflow.simps [simp del] emit_step.simps [simp del] unroll_loop.simps [simp del]

end
