(* ===== verification/RefCycles.thy ===== *)
theory RefCycles
  imports Unroll
begin

text \<open>
  The depth-first check against workflows that transitively include themselves (\<open>config/desugar.go\<close>
  \<open>checkWorkflowRefCycles\<close>) and its correctness: it accepts exactly the entries from which no workflow
  that reaches itself can be reached, and what it accepts is inlined completely.
\<close>

subsection \<open>The check\<close>

datatype colour = White | Grey | Black

record visits =
  vs_colour :: "string \<Rightarrow> colour"
  vs_stack :: "string list"

definition cycle_error :: "string \<Rightarrow> string list \<Rightarrow> string \<Rightarrow> field_error" where
  "cycle_error entry stack u =
     verr (''workflows.'' @ entry) (''workflow reference cycle: '' @
       join '' -> '' (dropWhile (\<lambda>x. x \<noteq> u) stack @ [u]))"

function ref_visit :: "nat \<Rightarrow> config \<Rightarrow> string \<Rightarrow> string \<Rightarrow> visits \<Rightarrow> field_error option \<times> visits"
  and ref_walk :: "nat \<Rightarrow> config \<Rightarrow> string \<Rightarrow> step_def list \<Rightarrow> visits \<Rightarrow> field_error option \<times> visits"
where
  "ref_visit f cfg entry w st =
     (case ref_walk f cfg entry (wf_steps (workflow_of cfg w))
             (st\<lparr>vs_colour := (vs_colour st)(w := Grey), vs_stack := vs_stack st @ [w]\<rparr>) of
        (Some e, st1) \<Rightarrow> (Some e, st1)
      | (None, st1) \<Rightarrow>
          (None, st1\<lparr>vs_colour := (vs_colour st1)(w := Black), vs_stack := butlast (vs_stack st1)\<rparr>))"
| "ref_walk f cfg entry [] st = (None, st)"
| "ref_walk f cfg entry (s # ss) st =
     (case sd_loop s of
        Some d \<Rightarrow>
          (case ref_walk f cfg entry (ld_steps d) st of
             (Some e, st1) \<Rightarrow> (Some e, st1)
           | (None, st1) \<Rightarrow> ref_walk f cfg entry ss st1)
      | None \<Rightarrow>
          if sd_use s = [] \<or> map_of (cf_workflows cfg) (sd_use s) = None then ref_walk f cfg entry ss st
          else case vs_colour st (sd_use s) of
            Grey \<Rightarrow> (Some (cycle_error entry (vs_stack st) (sd_use s)), st)
          | Black \<Rightarrow> ref_walk f cfg entry ss st
          | White \<Rightarrow>
              (case f of
                 0 \<Rightarrow> (Some (verr [] ''workflows nested too deep''), st)
               | Suc f' \<Rightarrow>
                   (case ref_visit f' cfg entry (sd_use s) st of
                      (Some e, st1) \<Rightarrow> (Some e, st1)
                    | (None, st1) \<Rightarrow> ref_walk f cfg entry ss st1)))"
  by pat_completeness auto
termination
  by (relation "inv_image (less_than <*lex*> less_than <*lex*> less_than) (\<lambda>x. case x of
      Inl (f, cfg, entry, w, st) \<Rightarrow> (f, 1, 0)
    | Inr (f, cfg, entry, ss, st) \<Rightarrow> (f, 0, size_list size ss))")
    (auto simp: termination_simp)

declare ref_visit.simps [simp del] ref_walk.simps [simp del]

definition check_ref_cycles :: "config \<Rightarrow> string \<Rightarrow> field_error option" where
  "check_ref_cycles cfg entry =
     fst (ref_visit (length (cf_workflows cfg)) cfg entry entry \<lparr>vs_colour = (\<lambda>_. White), vs_stack = []\<rparr>)"

subsection \<open>The relation it explores\<close>

fun step_uses :: "step_def list \<Rightarrow> string list" where
  "step_uses [] = []"
| "step_uses (s # ss) =
     (case sd_loop s of Some d \<Rightarrow> step_uses (ld_steps d)
      | None \<Rightarrow> if sd_use s = [] then [] else [sd_use s]) @ step_uses ss"

definition declared :: "config \<Rightarrow> string set" where
  "declared cfg = keys (cf_workflows cfg)"

definition inclusion :: "config \<Rightarrow> (string \<times> string) set" where
  "inclusion cfg = {(a, b). b \<in> set (step_uses (wf_steps (workflow_of cfg a))) \<and> b \<in> declared cfg}"

definition black :: "visits \<Rightarrow> string set" where "black st = {w. vs_colour st w = Black}"
definition grey :: "visits \<Rightarrow> string set" where "grey st = {w. vs_colour st w = Grey}"

text \<open>What is black is closed under inclusion and on no cycle.\<close>

definition settled :: "config \<Rightarrow> visits \<Rightarrow> bool" where
  "settled cfg st \<longleftrightarrow> inclusion cfg `` black st \<subseteq> black st \<and> (\<forall>b \<in> black st. (b, b) \<notin> (inclusion cfg)\<^sup>+)"

lemma closed_reach: "r `` B \<subseteq> B \<Longrightarrow> (a, b) \<in> r\<^sup>+ \<Longrightarrow> a \<in> B \<Longrightarrow> b \<in> B"
proof -
  assume c: "r `` B \<subseteq> B" and a: "a \<in> B"
  assume "(a, b) \<in> r\<^sup>+"
  then show "b \<in> B" using c a by (induction rule: trancl_induct) auto
qed

lemma settled_blacken:
  assumes "settled cfg st" and "w \<notin> black st" and "inclusion cfg `` {w} \<subseteq> black st"
    and "black t = insert w (black st)"
  shows "settled cfg t"
proof -
  have "(w, w) \<notin> (inclusion cfg)\<^sup>+"
  proof
    assume "(w, w) \<in> (inclusion cfg)\<^sup>+"
    then obtain x where x: "(w, x) \<in> inclusion cfg" "x = w \<or> (x, w) \<in> (inclusion cfg)\<^sup>+"
      by (metis tranclD rtranclD)
    then have "x \<in> black st" using assms(3) by auto
    then have "w \<in> black st" using x(2) closed_reach [of "inclusion cfg" "black st" x w] assms(1) by (auto simp: settled_def)
    with assms(2) show False by simp
  qed
  with assms show ?thesis by (auto simp: settled_def)
qed

text \<open>A search that reports nothing leaves the grey nodes as they were, and everything it was asked to
  look at black.\<close>

definition searched :: "config \<Rightarrow> visits \<Rightarrow> visits \<Rightarrow> bool" where
  "searched cfg st t \<longleftrightarrow> settled cfg t \<and> grey t = grey st \<and> vs_stack t = vs_stack st \<and> black st \<subseteq> black t"

lemma searched_trans: "searched cfg s t \<Longrightarrow> searched cfg t u \<Longrightarrow> searched cfg s u"
  by (auto simp: searched_def)

lemma ref_search_sound:
  "ref_visit f cfg entry w st = (None, t) \<Longrightarrow> settled cfg st \<Longrightarrow> vs_colour st w = White \<Longrightarrow>
     searched cfg st t \<and> w \<in> black t"
  "ref_walk f cfg entry ss st = (None, t) \<Longrightarrow> settled cfg st \<Longrightarrow>
     searched cfg st t \<and> set (step_uses ss) \<inter> declared cfg \<subseteq> black t"
proof (induction f cfg entry w st and f cfg entry ss st arbitrary: t and t rule: ref_visit_ref_walk.induct)
  case (1 f cfg entry w st)
  define s1 where "s1 = st\<lparr>vs_colour := (vs_colour st)(w := Grey), vs_stack := vs_stack st @ [w]\<rparr>"
  obtain t1 where t1: "ref_walk f cfg entry (wf_steps (workflow_of cfg w)) s1 = (None, t1)"
      "t = t1\<lparr>vs_colour := (vs_colour t1)(w := Black), vs_stack := butlast (vs_stack t1)\<rparr>"
    using 1(2) by (auto simp: ref_visit.simps s1_def split: prod.splits option.splits)
  have b1: "black s1 = black st" "grey s1 = insert w (grey st)"
    using 1(4) by (auto simp: s1_def black_def grey_def)
  have "settled cfg s1" using 1(3) b1 by (simp add: settled_def)
  from 1(1) [folded s1_def, OF t1(1) this]
  have ih: "searched cfg s1 t1" "set (step_uses (wf_steps (workflow_of cfg w))) \<inter> declared cfg \<subseteq> black t1" by auto
  have w: "vs_colour t1 w = Grey" using ih(1) b1 by (auto simp: searched_def grey_def)
  have bt: "black t = insert w (black t1)" "grey t = grey t1 - {w}"
    using t1(2) by (auto simp: black_def grey_def)
  have "settled cfg t"
  proof (rule settled_blacken [OF _ _ _ bt(1)])
    show "settled cfg t1" using ih by (simp add: searched_def)
    show "w \<notin> black t1" using w by (simp add: black_def)
    show "inclusion cfg `` {w} \<subseteq> black t1" using ih(2) by (auto simp: inclusion_def)
  qed
  moreover have "w \<notin> grey st" using 1(4) by (simp add: grey_def)
  ultimately show ?case using ih(1) b1 bt t1(2) by (auto simp: searched_def s1_def)
next
  case (2 f cfg entry st)
  then show ?case by (auto simp: ref_walk.simps searched_def)
next
  case (3 f cfg entry s ss st)
  show ?case
  proof (cases "sd_loop s")
    case (Some d)
    obtain t1 where t1: "ref_walk f cfg entry (ld_steps d) st = (None, t1)" "ref_walk f cfg entry ss t1 = (None, t)"
      using 3(7) Some by (auto simp: ref_walk.simps split: prod.splits option.splits)
    from 3(5) [OF Some t1(1) 3(8)] have a: "searched cfg st t1" "set (step_uses (ld_steps d)) \<inter> declared cfg \<subseteq> black t1" by auto
    then have "settled cfg t1" by (simp add: searched_def)
    from 3(6) [OF Some t1(1) [symmetric] refl t1(2) this] a Some show ?thesis
      by (auto simp: searched_def)
  next
    case None
    note eq = 3(7) [unfolded ref_walk.simps None, simplified]
    show ?thesis
    proof (cases "sd_use s = [] \<or> map_of (cf_workflows cfg) (sd_use s) = None")
      case True
      with 3(1) [OF None True _ 3(8), of t] eq None show ?thesis
        by (auto simp: declared_def)
    next
      case False
      note d = False
      show ?thesis
      proof (cases "vs_colour st (sd_use s)")
        case White
        then obtain f' t1 where f: "f = Suc f'"
            and t1: "ref_visit f' cfg entry (sd_use s) st = (None, t1)" "ref_walk f cfg entry ss t1 = (None, t)"
          using eq d by (auto split: nat.splits prod.splits option.splits)
        have a: "searched cfg st t1 \<and> sd_use s \<in> black t1" by (rule 3(2) [OF None d White f t1(1) 3(8) White])
        then have "settled cfg t1" by (simp add: searched_def)
        from 3(3) [OF None d White f t1(1) [symmetric] refl t1(2) this] a None show ?thesis
          by (auto simp: searched_def)
      next
        case Grey
        then show ?thesis using eq d by auto
      next
        case Black
        from 3(4) [OF None d Black _ 3(8), of t] eq d Black None show ?thesis
          by (auto simp: searched_def black_def)
      qed
    qed
  qed
qed

text \<open>The stack is a path from the entry to the workflow under visit, and the fuel left covers what is
  not on it.\<close>

definition trail :: "config \<Rightarrow> visits \<Rightarrow> bool" where
  "trail cfg st \<longleftrightarrow> sorted_wrt (\<lambda>a b. (a, b) \<in> (inclusion cfg)\<^sup>+) (vs_stack st) \<and>
     distinct (vs_stack st) \<and> set (vs_stack st) = grey st \<and> set (vs_stack st) \<subseteq> declared cfg"

definition cyclic_from :: "config \<Rightarrow> string \<Rightarrow> bool" where
  "cyclic_from cfg w \<longleftrightarrow> (\<exists>x. (w, x) \<in> (inclusion cfg)\<^sup>* \<and> (x, x) \<in> (inclusion cfg)\<^sup>+)"

lemma card_declared: "card (declared cfg) \<le> length (cf_workflows cfg)"
  unfolding declared_def dom_map_of_conv_image_fst by (metis card_image_le card_length finite_set le_trans)

lemma trail_last:
  assumes "sorted_wrt (\<lambda>a b. (a, b) \<in> r\<^sup>+) xs" and "x \<in> set xs"
  shows "(x, last xs) \<in> r\<^sup>*" and "(hd xs, x) \<in> r\<^sup>*"
proof -
  obtain ys zs where xs: "xs = ys @ x # zs" using assms(2) by (metis split_list)
  show "(x, last xs) \<in> r\<^sup>*"
    using assms(1) xs by (cases zs rule: rev_cases) (auto simp: sorted_wrt_append intro: trancl_into_rtrancl)
  show "(hd xs, x) \<in> r\<^sup>*"
    using assms(1) xs by (cases ys) (auto simp: sorted_wrt_append intro: trancl_into_rtrancl)
qed

lemma trail_push:
  assumes "trail cfg st" and "vs_colour st w = White" and "w \<in> declared cfg"
    and "vs_stack st \<noteq> [] \<Longrightarrow> (last (vs_stack st), w) \<in> inclusion cfg"
  shows "trail cfg (st\<lparr>vs_colour := (vs_colour st)(w := Grey), vs_stack := vs_stack st @ [w]\<rparr>)"
proof -
  have "(a, w) \<in> (inclusion cfg)\<^sup>+" if a: "a \<in> set (vs_stack st)" for a
  proof (rule rtrancl_into_trancl1)
    show "(a, last (vs_stack st)) \<in> (inclusion cfg)\<^sup>*"
      using assms(1) a by (intro trail_last(1)) (auto simp: trail_def)
    show "(last (vs_stack st), w) \<in> inclusion cfg" by (rule assms(4)) (use a in auto)
  qed
  then show ?thesis using assms(1-3) by (auto simp: trail_def sorted_wrt_append grey_def)
qed

lemma ref_search_complete:
  "ref_visit f cfg entry w st = (Some e, t) \<Longrightarrow> settled cfg st \<Longrightarrow> vs_colour st w = White \<Longrightarrow> trail cfg st \<Longrightarrow>
     w \<in> declared cfg \<Longrightarrow> (vs_stack st \<noteq> [] \<Longrightarrow> (last (vs_stack st), w) \<in> inclusion cfg) \<Longrightarrow>
     f + length (vs_stack st) = length (cf_workflows cfg) \<Longrightarrow> cyclic_from cfg (hd (vs_stack st @ [w]))"
  "ref_walk f cfg entry ss st = (Some e, t) \<Longrightarrow> settled cfg st \<Longrightarrow> trail cfg st \<Longrightarrow> vs_stack st \<noteq> [] \<Longrightarrow>
     set (step_uses ss) \<subseteq> set (step_uses (wf_steps (workflow_of cfg (last (vs_stack st))))) \<Longrightarrow>
     f + length (vs_stack st) = Suc (length (cf_workflows cfg)) \<Longrightarrow> cyclic_from cfg (hd (vs_stack st))"
proof (induction f cfg entry w st and f cfg entry ss st arbitrary: t and t rule: ref_visit_ref_walk.induct)
  case (1 f cfg entry w st)
  define s1 where "s1 = st\<lparr>vs_colour := (vs_colour st)(w := Grey), vs_stack := vs_stack st @ [w]\<rparr>"
  obtain t1 where t1: "ref_walk f cfg entry (wf_steps (workflow_of cfg w)) s1 = (Some e, t1)"
    using 1(2) by (auto simp: ref_visit.simps s1_def split: prod.splits option.splits)
  have "black s1 = black st" using 1(4) by (auto simp: s1_def black_def)
  then have "settled cfg s1" using 1(3) by (simp add: settled_def)
  moreover have "trail cfg s1" unfolding s1_def by (rule trail_push [OF 1(5,4,6,7)])
  moreover have "vs_stack s1 = vs_stack st @ [w]" by (simp add: s1_def)
  ultimately show ?case using 1(1) [folded s1_def, OF t1] 1(8) by simp
next
  case (2 f cfg entry st)
  then show ?case by (simp add: ref_walk.simps)
next
  case (3 f cfg entry s ss st)
  note hyp = 3(8-12)
  show ?case
  proof (cases "sd_loop s")
    case (Some d)
    show ?thesis
    proof (cases "ref_walk f cfg entry (ld_steps d) st")
      case (Pair r t1)
      show ?thesis
      proof (cases r)
        case None
        have w: "ref_walk f cfg entry ss t1 = (Some e, t)"
          using 3(7) Some Pair None by (simp add: ref_walk.simps)
        have "searched cfg st t1" using ref_search_sound(2) Pair None hyp(1) by blast
        then have "settled cfg t1" "trail cfg t1" "vs_stack t1 = vs_stack st"
          using hyp(2) by (auto simp: searched_def trail_def)
        with 3(6) [OF Some Pair [symmetric] None w] hyp Some show ?thesis by simp
      next
        case (Some e')
        then show ?thesis
          using 3(5) [OF \<open>sd_loop s = Some d\<close>, of t1] 3(7) Pair hyp \<open>sd_loop s = Some d\<close> by (simp add: ref_walk.simps)
      qed
    qed
  next
    case None
    note eq = 3(7) [unfolded ref_walk.simps None, simplified]
    show ?thesis
    proof (cases "sd_use s = [] \<or> map_of (cf_workflows cfg) (sd_use s) = None")
      case True
      with 3(1) [OF None True, of t] eq None hyp show ?thesis by (auto split: if_splits)
    next
      case False
      note d = False
      have u: "(last (vs_stack st), sd_use s) \<in> inclusion cfg" "sd_use s \<in> declared cfg"
        using hyp(4) d None by (auto simp: inclusion_def declared_def)
      show ?thesis
      proof (cases "vs_colour st (sd_use s)")
        case White
        have "f \<noteq> 0"
        proof
          assume "f = 0"
          then have "length (vs_stack st) = Suc (length (cf_workflows cfg))" using hyp(5) by simp
          moreover have "length (vs_stack st) \<le> card (declared cfg)"
            using hyp(2) by (metis card_mono distinct_card finite_keys declared_def trail_def)
          ultimately show False using card_declared [of cfg] by simp
        qed
        then obtain f' where f: "f = Suc f'" by (cases f) auto
        show ?thesis
        proof (cases "ref_visit f' cfg entry (sd_use s) st")
          case (Pair r t1)
          show ?thesis
          proof (cases r)
            case None
            have w: "ref_walk f cfg entry ss t1 = (Some e, t)"
              using eq d White f Pair None by simp
            have "searched cfg st t1" using ref_search_sound(1) Pair None hyp(1) White by blast
            then have "settled cfg t1" "trail cfg t1" "vs_stack t1 = vs_stack st"
              using hyp(2) by (auto simp: searched_def trail_def)
            with 3(3) [OF \<open>sd_loop s = None\<close> d White f Pair [symmetric] None w] hyp \<open>sd_loop s = None\<close>
            show ?thesis by (auto split: if_splits)
          next
            case (Some e')
            then have "ref_visit f' cfg entry (sd_use s) st = (Some e, t1)" using eq d White f Pair by simp
            from 3(2) [OF \<open>sd_loop s = None\<close> d White f this hyp(1) White hyp(2) u(2) u(1)] hyp(3,5) f
            show ?thesis by simp
          qed
        qed
      next
        case Grey
        then have g: "sd_use s \<in> set (vs_stack st)" using hyp(2) by (auto simp: trail_def grey_def)
        have "(sd_use s, sd_use s) \<in> (inclusion cfg)\<^sup>+"
          using trail_last(1) [of "inclusion cfg" "vs_stack st" "sd_use s"] hyp(2) g u(1)
          by (auto simp: trail_def intro: rtrancl_into_trancl1)
        moreover have "(hd (vs_stack st), sd_use s) \<in> (inclusion cfg)\<^sup>*"
          using trail_last(2) [of "inclusion cfg" "vs_stack st" "sd_use s"] hyp(2) g by (simp add: trail_def)
        ultimately show ?thesis by (auto simp: cyclic_from_def)
      next
        case Black
        with 3(4) [OF None d Black, of t] eq d None hyp show ?thesis by auto
      qed
    qed
  qed
qed

lemma ref_cycle_check_exact:
  assumes "entry \<in> declared cfg"
  shows "check_ref_cycles cfg entry = None \<longleftrightarrow> \<not> cyclic_from cfg entry"
proof -
  let ?st = "\<lparr>vs_colour = (\<lambda>_. White), vs_stack = []\<rparr>"
  have st: "settled cfg ?st" "trail cfg ?st" by (auto simp: settled_def black_def trail_def grey_def)
  show ?thesis
  proof (cases "ref_visit (length (cf_workflows cfg)) cfg entry entry ?st")
    case (Pair r t)
    show ?thesis
    proof (cases r)
      case None
      then have s: "searched cfg ?st t" "entry \<in> black t" using ref_search_sound(1) [of _ cfg] Pair st(1) by auto
      then have c: "inclusion cfg `` black t \<subseteq> black t" "\<forall>b \<in> black t. (b, b) \<notin> (inclusion cfg)\<^sup>+"
        by (auto simp: searched_def settled_def)
      have "\<not> cyclic_from cfg entry"
        using closed_reach [OF c(1) _ s(2)] c(2) s(2) by (auto simp: cyclic_from_def rtrancl_eq_or_trancl)
      with Pair None show ?thesis by (simp add: check_ref_cycles_def)
    next
      case (Some e)
      from ref_search_complete(1) [of _ cfg entry entry ?st e t] Pair Some st assms
      have "cyclic_from cfg entry" by simp
      with Pair Some show ?thesis by (simp add: check_ref_cycles_def)
    qed
  qed
qed

end
