(* ===== verification/Desugaring.thy ===== *)
theory Desugaring
  imports RefCycles
begin

text \<open>
  The desugarer's entry point (\<open>config/desugar.go\<close> \<open>Desugar\<close>), the canonical order of what it returns
  and the projection resume compares (\<open>config/ir.go\<close> \<open>canonicalize\<close>, \<open>capSteps\<close>), with the proof that
  the bound on inlining is never met: an accepted configuration is inlined to the end.
\<close>

subsection \<open>Canonical order\<close>

definition edge_key :: "edge \<Rightarrow> string \<times> string \<times> string \<times> string" where
  "edge_key e = (e_to e, e_to_port e, e_from e, e_from_port e)"

function canonicalize :: "ir \<Rightarrow> ir" where
  "canonicalize g = IR (ir_version g) (ir_workflow g)
     (map (\<lambda>n. Node (n_id n) (n_kind n) (n_template n)
         (case n_sub n of None \<Rightarrow> None | Some h \<Rightarrow> Some (canonicalize h))
         (n_gen n) (n_sel n) (n_bindings n) (n_when n) (n_retry n) (n_on_failure n) (n_tools n))
       (sort_key n_id (ir_nodes g)))
     (sort_key edge_key (ir_edges g)) (ir_lanes g) (ir_loops g)"
  by pat_completeness auto
termination by (relation "measure size") (auto simp: termination_simp)

declare canonicalize.simps [simp del]

subsection \<open>The entry point\<close>

definition desugar :: "(goval \<Rightarrow> string) \<Rightarrow> config \<Rightarrow> string \<Rightarrow> field_error list + ir" where
  "desugar shw cfg workflow =
     (if map_of (cf_workflows cfg) workflow = None
      then Inl [verr (''workflows.'' @ workflow) ''workflow not declared'']
      else case check_ref_cycles cfg workflow of
        Some e \<Rightarrow> Inl [e]
      | None \<Rightarrow>
          (case emit_workflow (length (cf_workflows cfg)) shw cfg workflow workflow
                  \<lparr>em_errs = [], em_count = 0, em_nodes = [], em_edges = [], em_loops = [], em_made = []\<rparr> of
             (g, e) \<Rightarrow> if em_errs e \<noteq> [] then Inl (em_errs e) else Inr (canonicalize g)))"

text \<open>\<open>capSteps\<close>: every loop cap set to one, and the configuration whose graph is the resume key.\<close>

function cap_step :: "step_def \<Rightarrow> step_def" where
  "cap_step s = StepDef (sd_id s) (sd_use s)
     (case sd_loop s of None \<Rightarrow> None
      | Some d \<Rightarrow> Some (LoopDef 1 (ld_until d) (map cap_step (ld_steps d)) (ld_expect d)))
     (sd_generate s) (sd_with s) (sd_when s) (sd_depends_on s) (sd_retry s) (sd_on_failure s) (sd_tools s)"
  by pat_completeness auto
termination
proof (relation "measure size", simp, goal_cases)
  case (1 s d x)
  have "size x \<le> size_list size (ld_steps d)" using 1(2) by (intro size_list_estimation' [of x]) auto
  with ld_steps_size [of d] sd_loop_size [OF 1(1)] show ?case by simp
qed

declare cap_step.simps [simp del]

definition cap_free :: "config \<Rightarrow> config" where
  "cap_free cfg = cfg\<lparr>cf_workflows := map (\<lambda>(k, w). (k, w\<lparr>wf_steps := map cap_step (wf_steps w)\<rparr>)) (cf_workflows cfg)\<rparr>"

definition cap_free_ir :: "(goval \<Rightarrow> string) \<Rightarrow> config \<Rightarrow> string \<Rightarrow> field_error list + ir" where
  "cap_free_ir shw cfg workflow = desugar shw (cap_free cfg) workflow"

subsection \<open>The bound on inlining\<close>

text \<open>How many workflows a workflow includes, directly or not.\<close>

definition depth :: "config \<Rightarrow> string \<Rightarrow> nat" where
  "depth cfg w = card {x. (w, x) \<in> (inclusion cfg)\<^sup>+}"

lemma reach_declared: "(w, x) \<in> (inclusion cfg)\<^sup>+ \<Longrightarrow> x \<in> declared cfg"
  by (induction rule: trancl_induct) (auto simp: inclusion_def)

lemma finite_reach: "finite {x. (w, x) \<in> (inclusion cfg)\<^sup>+}"
  by (rule finite_subset [of _ "declared cfg"]) (auto dest: reach_declared simp: declared_def)

lemma depth_bound: "depth cfg w \<le> length (cf_workflows cfg)"
proof -
  have "depth cfg w \<le> card (declared cfg)"
    unfolding depth_def by (intro card_mono) (auto dest: reach_declared simp: declared_def)
  then show ?thesis using card_declared [of cfg] by simp
qed

lemma cyclic_from_step: "\<not> cyclic_from cfg w \<Longrightarrow> (w, u) \<in> inclusion cfg \<Longrightarrow> \<not> cyclic_from cfg u"
  by (auto simp: cyclic_from_def intro: converse_rtrancl_into_rtrancl)

lemma depth_less:
  assumes "\<not> cyclic_from cfg w" and "(w, u) \<in> inclusion cfg"
  shows "depth cfg u < depth cfg w"
  unfolding depth_def
proof (rule psubset_card_mono [OF finite_reach])
  have "(u, u) \<notin> (inclusion cfg)\<^sup>+" using assms by (auto simp: cyclic_from_def)
  moreover have "(w, u) \<in> (inclusion cfg)\<^sup>+" using assms(2) by auto
  ultimately show "{x. (u, x) \<in> (inclusion cfg)\<^sup>+} \<subset> {x. (w, x) \<in> (inclusion cfg)\<^sup>+}"
    by (auto intro: trancl_into_trancl2 [OF assms(2)])
qed

text \<open>Steps and loops that only use workflows the bound covers.\<close>

definition covered :: "config \<Rightarrow> nat \<Rightarrow> string list \<Rightarrow> bool" where
  "covered cfg f us \<longleftrightarrow> (\<forall>u \<in> set us. u \<in> declared cfg \<longrightarrow> \<not> cyclic_from cfg u \<and> depth cfg u < f)"

definition covered_loop :: "config \<Rightarrow> nat \<Rightarrow> loop_decl \<Rightarrow> bool" where
  "covered_loop cfg f ld \<longleftrightarrow> covered cfg f (step_uses (ld_steps (lo_def ld)))"

definition covered_level :: "config \<Rightarrow> nat \<Rightarrow> level \<Rightarrow> bool" where
  "covered_level cfg f l \<longleftrightarrow> (\<forall>k ld. map_of (lv_loops l) k = Some ld \<longrightarrow> covered_loop cfg f ld)"

lemma covered_Cons:
  "covered cfg f (step_uses (s # ss)) \<longleftrightarrow>
     (case sd_loop s of Some d \<Rightarrow> covered cfg f (step_uses (ld_steps d))
      | None \<Rightarrow> sd_use s = [] \<or> covered cfg f [sd_use s]) \<and> covered cfg f (step_uses ss)"
  by (auto simp: covered_def split: option.splits)

lemma covered_new_level:
  assumes "covered cfg f (step_uses ss)"
  shows "covered_level cfg f (new_level p ss)"
proof -
  have "covered_level cfg f l \<Longrightarrow> covered cfg f (step_uses ss) \<Longrightarrow> covered_level cfg f (fold (note_step p) ss l)" for l
  proof (induction ss arbitrary: l)
    case (Cons s ss)
    have "covered_level cfg f (note_step p s l)"
      using Cons.prems unfolding covered_Cons
      by (auto simp: note_step_def covered_level_def covered_loop_def Let_def split: option.splits)
    then show ?case using Cons.IH Cons.prems(2) unfolding covered_Cons by simp
  qed simp
  from this [of "\<lparr>lv_prefix = p, lv_plain = [], lv_loops = []\<rparr>"] assms show ?thesis
    by (simp add: new_level_def covered_level_def)
qed

lemma covered_workflow:
  assumes "\<not> cyclic_from cfg w" and "depth cfg w \<le> f"
  shows "covered cfg f (step_uses (wf_steps (workflow_of cfg w)))"
  using assms cyclic_from_step depth_less
  by (fastforce simp: covered_def inclusion_def)

lemma emission_fuel:
  "\<not> cyclic_from cfg name \<Longrightarrow> depth cfg name \<le> f \<Longrightarrow> depth cfg name \<le> f' \<Longrightarrow>
     emit_workflow f shw cfg name scope e = emit_workflow f' shw cfg name scope e"
  "covered cfg f (step_uses ss) \<Longrightarrow> covered cfg f' (step_uses ss) \<Longrightarrow>
     covered_level cfg f l \<Longrightarrow> covered_level cfg f' l \<Longrightarrow>
     emit_steps f shw cfg wd ss l ls path i gates e = emit_steps f' shw cfg wd ss l ls path i gates e"
  "covered cfg f (step_uses [s]) \<Longrightarrow> covered cfg f' (step_uses [s]) \<Longrightarrow>
     covered_level cfg f l \<Longrightarrow> covered_level cfg f' l \<Longrightarrow>
     emit_step f shw cfg wd s l ls sp gates e = emit_step f' shw cfg wd s l ls sp gates e"
  "covered_loop cfg f ld \<Longrightarrow> covered_loop cfg f' ld \<Longrightarrow>
     unroll_loop f shw cfg wd ld ls sp gates n prev pn e = unroll_loop f' shw cfg wd ld ls sp gates n prev pn e"
proof (induction f shw cfg name scope e and f shw cfg wd ss l ls path i gates e
    and f shw cfg wd s l ls sp gates e and f shw cfg wd ld ls sp gates n prev pn e
    arbitrary: f' and f' and f' and f' rule: emit_workflow_emit_steps_emit_step_unroll_loop.induct)
  case (1 f shw cfg name scope e)
  note c = covered_workflow [OF 1(2,3)] covered_workflow [OF 1(2,4)]
  show ?case
    using 1(1) [OF refl c covered_new_level [OF c(1)] covered_new_level [OF c(2)]]
    by (simp add: emit_workflow.simps [of f] emit_workflow.simps [of f'] Let_def)
next
  case (2 f shw cfg wd l ls path i gates e)
  then show ?case by simp
next
  case (3 f shw cfg wd s ss l ls path i gates e)
  have c: "covered cfg g (step_uses [s]) \<and> covered cfg g (step_uses ss)" if "covered cfg g (step_uses (s # ss))" for g
    using that by (auto simp: covered_def split: option.splits)
  show ?case using 3(1) [of f'] 3(2) [of f'] c [OF 3(3)] c [OF 3(4)] 3(5,6) by simp
next
  case (4 f shw cfg wd s l ls sp gates e)
  show ?case
  proof (cases "step_forms s \<noteq> 1 \<or> sd_id s = []")
    case True
    then show ?thesis unfolding emit_step.simps [of f] emit_step.simps [of f'] by simp
  next
    case False
    note form = False
    show ?thesis
    proof (cases "sd_loop s")
      case (Some d)
      show ?thesis
      proof (cases "fst (loop_plan wd s l sp e)")
        case None
        then show ?thesis unfolding emit_step.simps [of f] emit_step.simps [of f'] using form Some by (simp add: Let_def)
      next
        case (Some ld)
        have "covered_loop cfg f ld" "covered_loop cfg f' ld"
          using loop_plan_decl [OF Some] 4(5,6) by (auto simp: covered_level_def)
        then have "unroll_loop f shw cfg wd ld (l # ls) sp g 1 None [] e2 = unroll_loop f' shw cfg wd ld (l # ls) sp g 1 None [] e2"
          if "(g, e2) = with_when (sd_when s) (l # ls) sp gates (snd (loop_plan wd s l sp e))" for g e2
          using 4(1) [OF form _ refl Some refl, of f'] that \<open>sd_loop s = Some d\<close> by (metis fst_conv option.discI snd_conv)
        from this [OF prod.collapse] show ?thesis
          unfolding emit_step.simps [of f] emit_step.simps [of f']
          using form \<open>sd_loop s = Some d\<close> Some by (simp add: Let_def)
      qed
    next
      case None
      note nl = None
      show ?thesis
      proof (cases "sd_generate s = None \<and> map_of (cf_templates cfg) (sd_use s) = None \<and> map_of (cf_workflows cfg) (sd_use s) \<noteq> None")
        case True
        then have "sd_use s \<noteq> []" using form nl by (auto simp: step_forms_def)
        then have u: "\<not> cyclic_from cfg (sd_use s)" "depth cfg (sd_use s) < f" "depth cfg (sd_use s) < f'"
          using 4(3,4) True nl by (auto simp: covered_def declared_def)
        obtain h h' where h: "f = Suc h" "f' = Suc h'" using u by (cases f; cases f') auto
        have "emit_workflow h shw cfg (sd_use s) (node_id_of l s) e = emit_workflow h' shw cfg (sd_use s) (node_id_of l s) e"
          using 4(2) [OF form _ _ _ _ h(1), of h'] nl True u h by simp
        then show ?thesis unfolding emit_step.simps [of f] emit_step.simps [of f'] using form nl True h by simp
      next
        case False
        then show ?thesis unfolding emit_step.simps [of f] emit_step.simps [of f'] using form nl
          by (auto split: option.splits)
      qed
    qed
  qed
next
  case (5 f shw cfg wd ld ls sp gates n prev pn e)
  have c: "covered cfg g (step_uses (ld_steps (lo_def ld)))" "covered_level cfg g (new_level q (ld_steps (lo_def ld)))"
    if "covered_loop cfg g ld" for g q
    using that covered_new_level by (auto simp: covered_loop_def)
  show ?case
  proof (cases "loop_max ld < n")
    case True
    then show ?thesis by (simp add: unroll_loop.simps [of f] unroll_loop.simps [of f'])
  next
    case False
    show ?thesis
    proof (cases "until_at ld n")
      case (Inl m)
      with False show ?thesis by (simp add: unroll_loop.simps [of f] unroll_loop.simps [of f'])
    next
      case (Inr u)
      note ih1 = 5(1) [OF False Inr c(1) [OF 5(3)] c(1) [OF 5(4)] c(2) [OF 5(3)] c(2) [OF 5(4)]]
      note ih2 = 5(2) [OF False Inr refl 5(3,4)]
      show ?thesis
        using False Inr ih1 ih2
        by (simp add: Let_def unroll_loop.simps [of f shw cfg wd ld ls sp gates n prev pn e]
            unroll_loop.simps [of f' shw cfg wd ld ls sp gates n prev pn e])
    qed
  qed
qed

lemma inlining_complete:
  assumes "workflow \<in> declared cfg" and "check_ref_cycles cfg workflow = None"
  shows "emit_workflow (length (cf_workflows cfg) + k) shw cfg workflow scope e =
    emit_workflow (length (cf_workflows cfg)) shw cfg workflow scope e"
  using emission_fuel(1) [of cfg workflow] ref_cycle_check_exact [OF assms(1)] assms(2)
    depth_bound [of cfg workflow] trans_le_add1 by blast

end
