(* ===== verification/DesugarInv.thy ===== *)
theory DesugarInv
  imports Desugaring GraphSplice
begin

text \<open>
  What a desugaring that reports no error has built: every edge endpoint and every condition
  dependency of every graph it emits, nested graphs included, is a node of that graph.
\<close>

subsection \<open>What a graph under construction mentions\<close>

definition em_ids :: "emission \<Rightarrow> string set" where
  "em_ids e = n_id ` set (em_nodes e)"

definition node_deps :: "node \<Rightarrow> string set" where
  "node_deps n = (\<Union>c \<in> set (node_conds n). set (c_deps c))"

definition mentioned :: "emission \<Rightarrow> string set" where
  "mentioned e = e_from ` set (em_edges e) \<union> e_to ` set (em_edges e) \<union> (\<Union>n \<in> set (em_nodes e). node_deps n)"

definition em_ok :: "string set \<Rightarrow> emission \<Rightarrow> bool" where
  "em_ok P e \<longleftrightarrow> mentioned e \<subseteq> em_ids e \<union> P \<and> set (em_made e) \<subseteq> em_ids e \<and>
     (\<forall>n \<in> set (em_nodes e). case n_sub n of None \<Rightarrow> True | Some h \<Rightarrow> closed_ir h)"

definition em_grows :: "emission \<Rightarrow> emission \<Rightarrow> bool" where
  "em_grows e t \<longleftrightarrow> em_ids e \<subseteq> em_ids t \<and> (\<exists>es. em_errs t = em_errs e @ es) \<and>
     (\<exists>ns. em_nodes t = em_nodes e @ ns) \<and> set (em_made e) \<subseteq> set (em_made t)"

lemma em_ok_mono: "em_ok P e \<Longrightarrow> P \<subseteq> Q \<Longrightarrow> em_ok Q e"
  by (auto simp: em_ok_def)

lemma em_ok_kept: "em_ok (P \<union> S) e \<Longrightarrow> S \<subseteq> em_ids e \<Longrightarrow> em_ok P e"
  by (auto simp: em_ok_def)

lemma em_grows_refl [simp]: "em_grows e e"
  by (simp add: em_grows_def)

lemma em_grows_trans [trans]: "em_grows a b \<Longrightarrow> em_grows b c \<Longrightarrow> em_grows a c"
  by (auto simp: em_grows_def)

lemma em_grows_errs: "em_grows e t \<Longrightarrow> em_errs t = [] \<Longrightarrow> em_errs e = []"
  by (auto simp: em_grows_def)

lemma em_grows_ids: "em_grows e t \<Longrightarrow> x \<in> em_ids e \<Longrightarrow> x \<in> em_ids t"
  by (auto simp: em_grows_def)

lemma em_step_grows [simp]:
  "em_grows e (addf p m e)" "em_grows e (add_errs es e)" "em_grows e (add_node n e)"
  "em_grows e (add_edges_to eds e)" "em_grows e (count_node e)" "em_grows e (e\<lparr>em_loops := ls\<rparr>)"
  by (auto simp: em_grows_def em_ids_def addf_def add_errs_def add_node_def add_edges_to_def count_node_def)

lemma em_step_ids [simp]:
  "em_ids (addf p m e) = em_ids e" "em_ids (add_errs es e) = em_ids e"
  "em_ids (add_node n e) = insert (n_id n) (em_ids e)" "em_ids (add_edges_to eds e) = em_ids e"
  "em_ids (count_node e) = em_ids e" "em_ids (e\<lparr>em_loops := ls\<rparr>) = em_ids e"
  by (auto simp: em_ids_def addf_def add_errs_def add_node_def add_edges_to_def count_node_def)

lemma em_step_ok [simp]:
  "em_ok P (addf p m e) = em_ok P e" "em_ok P (add_errs es e) = em_ok P e"
  "em_ok P (count_node e) = em_ok P e" "em_ok P (e\<lparr>em_loops := ls\<rparr>) = em_ok P e"
  by (auto simp: em_ok_def mentioned_def em_ids_def addf_def add_errs_def count_node_def)

lemma em_ok_add_node:
  "em_ok P e \<Longrightarrow> node_deps n \<subseteq> insert (n_id n) (em_ids e \<union> P) \<Longrightarrow>
   (case n_sub n of None \<Rightarrow> True | Some h \<Rightarrow> closed_ir h) \<Longrightarrow> em_ok P (add_node n e)"
  by (auto simp: em_ok_def mentioned_def em_ids_def add_node_def)

lemma em_ok_add_edges:
  "em_ok P (add_edges_to eds e) \<longleftrightarrow> em_ok P e \<and> (\<forall>x \<in> set eds. e_from x \<in> em_ids e \<union> P \<and> e_to x \<in> em_ids e \<union> P)"
  by (auto simp: em_ok_def mentioned_def em_ids_def add_edges_to_def)

subsection \<open>What a level promises\<close>

definition instance_ids :: "loop_decl \<Rightarrow> string set" where
  "instance_ids ld = {instance_prefix ld i @ ''/'' @ b | i b. b \<in> set (lo_body ld) \<and> (1 \<le> i \<and> i \<le> loop_max ld \<or> i = loop_max ld)}"

definition promised :: "level \<Rightarrow> string set" where
  "promised l = ran (map_of (lv_plain l)) \<union> (\<Union>ld \<in> ran (map_of (lv_loops l)). instance_ids ld)"

definition promises :: "level list \<Rightarrow> string set" where
  "promises ls = (\<Union>l \<in> set ls. promised l)"

lemma instance_idI:
  "b \<in> set (lo_body ld) \<Longrightarrow> 1 \<le> i \<and> i \<le> loop_max ld \<or> i = loop_max ld \<Longrightarrow>
   instance_prefix ld i @ ''/'' @ b \<in> instance_ids ld"
  unfolding instance_ids_def by blast

lemma until_at_deps: "until_at ld i = Inr (u, ds) \<Longrightarrow> d \<in> set ds \<Longrightarrow>
    \<exists>b \<in> set (lo_body ld). d = instance_prefix ld i @ ''/'' @ b"
  unfolding until_at_def by (drule (1) rewrite_pure_deps) (auto simp: until_resolver_def split: if_splits)

lemma until_at_promised:
  "until_at ld i = Inr (u, ds) \<Longrightarrow> 1 \<le> i \<and> i \<le> loop_max ld \<or> i = loop_max ld \<Longrightarrow> set ds \<subseteq> instance_ids ld"
  using until_at_deps instance_idI by blast

lemma ensure_selector_ok:
  assumes "ensure_selector ld step e = (r, t)"
  shows "em_grows e t \<and> (r = Inr d \<longrightarrow> d \<in> em_ids t \<union> set (em_made t)) \<and>
    (step \<in> set (lo_body ld) \<longrightarrow> instance_ids ld \<subseteq> P \<longrightarrow> em_ok P e \<longrightarrow> em_ok P t)"
proof (cases "lo_prefix ld @ ''/'' @ step \<in> set (em_made e)")
  case True
  with assms show ?thesis by (auto simp: ensure_selector_def em_ok_def)
next
  case False
  show ?thesis
  proof (cases "until_at ld (loop_max ld)")
    case (Inl m)
    with assms False show ?thesis by (auto simp: ensure_selector_def)
  next
    case (Inr q)
    obtain u ds where q: "q = (u, ds)" by (cases q)
    define n where "n = selector_node (lo_prefix ld @ ''/'' @ step) step (candidates_of ld step) \<lparr>c_cel = ''!('' @ u @ '')'', c_deps = ds\<rparr>"
    define e1 where "e1 = count_node (add_node n e)"
    have t: "r = Inr (n_id n)" "t = add_edges_to (map (\<lambda>c. ordering_edge c (n_id n)) (candidates_of ld step)) e1"
      using assms False Inr q by (auto simp: ensure_selector_def Let_def n_def e1_def selector_node_def)
    have g: "em_grows e t" unfolding t e1_def by (meson em_grows_trans em_step_grows)
    have d: "node_deps n = set ds" by (simp add: node_deps_def n_def selector_node_def node_conds_def)
    have "set ds \<subseteq> instance_ids ld" using until_at_promised Inr q by blast
    then have "em_ok P e \<Longrightarrow> instance_ids ld \<subseteq> P \<Longrightarrow> em_ok P e1"
      unfolding e1_def using d by (auto intro!: em_ok_add_node simp: n_def selector_node_def)
    moreover have "step \<in> set (lo_body ld) \<Longrightarrow> set (candidates_of ld step) \<subseteq> instance_ids ld"
      using instance_idI by (fastforce simp: candidates_of_def)
    ultimately show ?thesis
      using g t by (auto simp: em_ok_add_edges ordering_edge_def e1_def)
  qed
qed

lemma resolve_step_ok:
  "resolve_step ls step e = (r, t) \<Longrightarrow> em_grows e t \<and>
     (promises ls \<subseteq> P \<longrightarrow> (em_ok P e \<longrightarrow> em_ok P t) \<and> (\<forall>d. r = Inr d \<longrightarrow> d \<in> em_ids t \<union> set (em_made t) \<union> P))"
proof (induction ls step e rule: resolve_step.induct)
  case (1 step e)
  then show ?case by auto
next
  case (2 l ls step e)
  have up: "promises ls \<subseteq> promises (l # ls)" "promised l \<subseteq> promises (l # ls)" by (auto simp: promises_def)
  show ?case
  proof (cases "map_of (lv_plain l) step")
    case (Some nid)
    then have "nid \<in> promised l" by (auto simp: promised_def ran_def)
    with Some 2(3) up show ?thesis by auto
  next
    case None
    note np = None
    show ?thesis
    proof (cases "map_of (lv_loops l) step")
      case (Some ld)
      with np 2(3) show ?thesis by auto
    next
      case None
      let ?p = "\<lambda>q. case map_of (lv_loops l) q of None \<Rightarrow> False | Some ld \<Rightarrow> step \<in> set (lo_body ld)"
      show ?thesis
      proof (cases "List.find ?p (sorted_keys (lv_loops l))")
        case None
        with np \<open>map_of (lv_loops l) step = None\<close> 2 up show ?thesis by auto
      next
        case (Some q)
        then obtain ld where ld: "map_of (lv_loops l) q = Some ld" "step \<in> set (lo_body ld)"
          by (auto dest!: find_SomeD split: option.splits)
        then have "instance_ids ld \<subseteq> promised l" by (auto simp: promised_def ran_def)
        moreover have "ensure_selector ld step e = (r, t)"
          using 2(3) np \<open>map_of (lv_loops l) step = None\<close> Some ld by simp
        ultimately show ?thesis using ensure_selector_ok [of ld step e r t] ld(2) up by blast
      qed
    qed
  qed
qed

text \<open>The interface the rewriting of conditions relies on, provided by the level lookup.\<close>

definition reaches :: "string set \<Rightarrow> bool \<Rightarrow> emission \<Rightarrow> emission \<Rightarrow> bool" where
  "reaches P c e t \<longleftrightarrow> em_grows e t \<and> (c \<longrightarrow> em_ok P e \<longrightarrow> em_ok P t)"

interpretation names: resolving "resolve_step ls" "reaches P (promises ls \<subseteq> P)"
  "\<lambda>d e. promises ls \<subseteq> P \<longrightarrow> d \<in> em_ids e \<union> set (em_made e) \<union> P"
proof (unfold_locales, goal_cases)
  case (3 d s t)
  then show ?case by (auto simp: reaches_def em_grows_def)
qed (auto simp: reaches_def intro: em_grows_trans dest: resolve_step_ok)

lemma reaches_trans [trans]: "reaches P c a b \<Longrightarrow> reaches P c b d \<Longrightarrow> reaches P c a d"
  by (auto simp: reaches_def intro: em_grows_trans)

lemma reaches_refl [simp]: "reaches P c e e"
  by (simp add: reaches_def)

lemma reaches_steps [simp]:
  "reaches P c e (addf p m e)" "reaches P c e (add_errs es e)" "reaches P c e (count_node e)"
  "reaches P c e (e\<lparr>em_loops := ls\<rparr>)"
  by (simp_all add: reaches_def)

lemma until_selector_ok:
  "until_selector ld step e = (r, t) \<Longrightarrow> reaches P (instance_ids ld \<subseteq> P) e t"
  using ensure_selector_ok [of ld step e]
  by (fastforce simp: until_selector_def reaches_def split: if_splits prod.splits sum.splits)

interpretation selectors: resolving "until_selector ld" "reaches P (instance_ids ld \<subseteq> P)" "\<lambda>d e. True"
  by unfold_locales (auto intro: reaches_trans until_selector_ok)

lemma until_selectors_ok: "reaches P (instance_ids ld \<subseteq> P) e (until_selectors ld sp e)"
proof (cases "rewrite_refs (ld_until (lo_def ld)) (until_selector ld) e")
  case (Pair r t)
  then have "reaches P (instance_ids ld \<subseteq> P) e t" by (rule selectors.rewritten(1))
  also have "reaches P (instance_ids ld \<subseteq> P) t (until_selectors ld sp e)"
    using Pair by (auto simp: until_selectors_def split: sum.split)
  finally show ?thesis .
qed

subsection \<open>Conditions, bindings and ordering edges of one step\<close>

definition pieces_in :: "cond_piece list \<Rightarrow> string set \<Rightarrow> bool" where
  "pieces_in ps S \<longleftrightarrow> (\<forall>p \<in> set ps. set (cp_deps p) \<subseteq> S)"

lemma with_when_ok:
  assumes "with_when when ls sp gates e = (ps, t)"
  shows "reaches P (promises ls \<subseteq> P) e t \<and>
    (promises ls \<subseteq> P \<longrightarrow> pieces_in gates P \<longrightarrow> pieces_in ps (em_ids t \<union> set (em_made t) \<union> P))"
proof (cases "when = []")
  case True
  with assms show ?thesis by (auto simp: with_when_def pieces_in_def)
next
  case False
  obtain r e1 where r: "rewrite_refs when (resolve_step ls) e = (r, e1)" by fastforce
  have g: "reaches P (promises ls \<subseteq> P) e e1" by (rule names.rewritten(1) [OF r])
  show ?thesis
  proof (cases r)
    case (Inl m)
    then have "t = addf (sp @ ''.when'') m e1" "ps = gates"
      using assms False r by (auto simp: with_when_def cond_piece_for_def)
    with reaches_trans [OF g] show ?thesis by (auto simp: pieces_in_def)
  next
    case (Inr q)
    obtain cel ds where q: "q = (cel, ds)" by (cases q)
    then have t: "t = e1" "ps = gates @ [\<lparr>cp_cel = cel, cp_deps = ds, cp_wrapped = False\<rparr>]"
      using assms False r Inr by (auto simp: with_when_def cond_piece_for_def)
    have "promises ls \<subseteq> P \<Longrightarrow> set ds \<subseteq> em_ids e1 \<union> set (em_made e1) \<union> P"
      using names.rewritten(2) [OF r [unfolded Inr q]] by blast
    with t g show ?thesis by (auto simp: pieces_in_def)
  qed
qed

lemma combine_deps: "pieces_in ps S \<Longrightarrow> combine_cond ps = Some c \<Longrightarrow> set (c_deps c) \<subseteq> S"
  by (fastforce simp: combine_cond_def pieces_in_def str_set_def split: if_splits)

lemma reaches_edges:
  "c \<longrightarrow> em_ok P e \<longrightarrow> (\<forall>x \<in> set eds. e_from x \<in> em_ids e \<union> P \<and> e_to x \<in> em_ids e \<union> P) \<Longrightarrow>
   reaches P c e (add_edges_to eds e)"
  by (auto simp: reaches_def em_ok_add_edges)

lemma bound_edge:
  assumes "resolve_step ls step e = (Inr d, t)"
  shows "reaches P (promises ls \<subseteq> P \<and> nid \<in> P) e
    (add_edges_to [\<lparr>e_from = d, e_from_port = f, e_to = nid, e_to_port = slot\<rparr>] t)"
  using resolve_step_ok [OF assms, of P] em_grows_trans [of e t]
  by (auto simp: reaches_def em_ok_add_edges) (auto simp: em_ok_def)

lemma expand_bindings_ok:
  "expand_bindings shw binds ls path nid item slots out e = (out', t) \<Longrightarrow>
   reaches P (promises ls \<subseteq> P \<and> nid \<in> P) e t"
proof (induction slots arbitrary: out e)
  case Nil
  then show ?case by simp
next
  case (Cons slot slots)
  note d = reaches_trans [OF reaches_steps(1) Cons.IH]
  show ?case
  proof (cases "parse_binding (get_or VNull binds slot)")
    case (Inl m)
    with Cons.prems show ?thesis by (auto simp: Let_def intro: d)
  next
    case (Inr b)
    show ?thesis
    proof (cases b)
      case (BLit v)
      with Inr Cons.prems show ?thesis
        by (auto simp: Let_def split: sum.splits intro: d Cons.IH)
    next
      case (BRef r)
      show ?thesis
      proof (cases "ref_root r")
        case RootSteps
        obtain q e1 where q: "resolve_step ls (ref_name r) e = (q, e1)" by fastforce
        have g: "reaches P (promises ls \<subseteq> P \<and> nid \<in> P) e e1"
          using resolve_step_ok [OF q] by (auto simp: reaches_def)
        show ?thesis
        proof (cases q)
          case (Inl m)
          with Cons.prems Inr BRef RootSteps q show ?thesis by (auto simp: Let_def intro: reaches_trans [OF g d])
        next
          case (Inr d)
          with Cons.prems \<open>parse_binding (get_or VNull binds slot) = Inr b\<close> BRef RootSteps q show ?thesis
            by (auto simp: Let_def intro: reaches_trans [OF bound_edge Cons.IH])
        qed
      qed (use Inr BRef Cons.prems in \<open>auto simp: Let_def split: if_splits intro: d Cons.IH\<close>)
    qed
  qed
qed

lemma bake_defaults_ok:
  "bake_defaults shw decl binds sp ks out e = (out', t) \<Longrightarrow> reaches P c e t"
proof (induction ks arbitrary: out e)
  case (Cons k ks)
  note d = reaches_trans [OF reaches_steps(1) Cons.IH]
  from Cons.prems show ?case
    by (auto split: option.splits if_splits sum.splits intro: d Cons.IH)
qed simp

lemma resolve_depends_promised: "resolve_depends_on ls dep = Inr froms \<Longrightarrow> set froms \<subseteq> promises ls"
proof (induction ls dep rule: resolve_depends_on.induct)
  case (2 l ls dep)
  have up: "promises ls \<subseteq> promises (l # ls)" "promised l \<subseteq> promises (l # ls)" by (auto simp: promises_def)
  show ?case
  proof (cases "map_of (lv_plain l) dep")
    case (Some nid)
    then have "nid \<in> promised l" by (auto simp: promised_def ran_def)
    with Some 2(2) up show ?thesis by auto
  next
    case None
    note np = None
    show ?thesis
    proof (cases "map_of (lv_loops l) dep")
      case (Some ld)
      then have "instance_ids ld \<subseteq> promised l" by (auto simp: promised_def ran_def)
      moreover have "set froms \<subseteq> instance_ids ld" using 2(2) np Some instance_idI by fastforce
      ultimately show ?thesis using up by blast
    next
      case None
      with np 2 up show ?thesis by auto
    qed
  qed
qed simp

lemma emit_depends_ok: "reaches P (promises ls \<subseteq> P \<and> nid \<in> P) e (emit_depends_on deps ls sp nid e)"
proof (induction deps arbitrary: e)
  case (Cons dep deps)
  have "reaches P (promises ls \<subseteq> P \<and> nid \<in> P) e (case resolve_depends_on ls dep of
          Inl m \<Rightarrow> addf (sp @ ''.depends_on'') m e
        | Inr froms \<Rightarrow> add_edges_to (map (\<lambda>a. ordering_edge a nid) froms) e)"
  proof (cases "resolve_depends_on ls dep")
    case (Inr froms)
    then have "promises ls \<subseteq> P \<Longrightarrow> set froms \<subseteq> P" using resolve_depends_promised by blast
    then have "promises ls \<subseteq> P \<and> nid \<in> P \<longrightarrow> em_ok P e \<longrightarrow>
        (\<forall>x \<in> set (map (\<lambda>a. ordering_edge a nid) froms). e_from x \<in> em_ids e \<union> P \<and> e_to x \<in> em_ids e \<union> P)"
      unfolding ordering_edge_def by fastforce
    with Inr show ?thesis by (simp add: reaches_edges)
  qed simp
  from reaches_trans [OF this Cons.IH] show ?case by simp
qed simp

lemma finish_step_grows: "em_grows e (finish_step s ls sp gates mk nid e)"
proof -
  obtain ps e1 where w: "with_when (sd_when s) ls sp gates e = (ps, e1)" by fastforce
  have "em_grows e e1" using with_when_ok [OF w] by (simp add: reaches_def)
  moreover have "em_grows e1 (emit_depends_on (sd_depends_on s) ls sp nid e1)"
    using emit_depends_ok [of _ ls nid e1] by (simp add: reaches_def)
  ultimately show ?thesis
    using w by (simp add: finish_step_def step_cond_def) (meson em_grows_trans em_step_grows)
qed

lemma finish_step_ok:
  assumes "\<And>c. n_id (mk c) = nid" and "\<And>c. n_when (mk c) = c" and "\<And>c. n_sel (mk c) = None"
    and "\<And>c h. n_sub (mk c) = Some h \<Longrightarrow> closed_ir h"
  shows "em_grows e (finish_step s ls sp gates mk nid e) \<and> nid \<in> em_ids (finish_step s ls sp gates mk nid e) \<and>
    (promises ls \<subseteq> P \<longrightarrow> pieces_in gates P \<longrightarrow> em_ok (insert nid P) e \<longrightarrow> em_ok P (finish_step s ls sp gates mk nid e))"
proof -
  obtain ps e1 where w: "with_when (sd_when s) ls sp gates e = (ps, e1)" by fastforce
  define e2 where "e2 = emit_depends_on (sd_depends_on s) ls sp nid e1"
  define c where "c = combine_cond ps"
  have f: "finish_step s ls sp gates mk nid e = count_node (add_node (mk c) e2)"
    using w by (simp add: finish_step_def step_cond_def e2_def c_def)
  have r1: "reaches (insert nid P) (promises ls \<subseteq> insert nid P) e e1" using with_when_ok [OF w] by blast
  have r2: "reaches (insert nid P) (promises ls \<subseteq> insert nid P \<and> nid \<in> insert nid P) e1 e2"
    unfolding e2_def by (rule emit_depends_ok)
  have g: "em_grows e e2" using r1 r2 by (auto simp: reaches_def intro: em_grows_trans)
  then have "em_grows e (finish_step s ls sp gates mk nid e)"
    unfolding f by (meson em_grows_trans em_step_grows)
  moreover have "em_ok P (finish_step s ls sp gates mk nid e)"
    if p: "promises ls \<subseteq> P" "pieces_in gates P" "em_ok (insert nid P) e"
  proof -
    have ok: "em_ok (insert nid P) e1" "em_ok (insert nid P) e2" using r1 r2 p by (auto simp: reaches_def)
    have "pieces_in ps (em_ids e1 \<union> set (em_made e1) \<union> P)" using with_when_ok [OF w] p by blast
    moreover have "set (em_made e1) \<subseteq> em_ids e1" using ok(1) by (simp add: em_ok_def)
    ultimately have "set (c_deps k) \<subseteq> em_ids e1 \<union> P" if "c = Some k" for k
      using combine_deps [of ps _ k] that unfolding c_def by blast
    then have "node_deps (mk c) \<subseteq> em_ids e1 \<union> P"
      using assms(2,3) by (cases c) (auto simp: node_deps_def node_conds_def)
    moreover have "em_ids e1 \<subseteq> em_ids e2" using r2 by (auto simp: reaches_def em_grows_def)
    ultimately have "em_ok (insert nid P) (add_node (mk c) e2)"
      using ok(2) assms(1,4) by (intro em_ok_add_node) (auto split: option.splits)
    then have "em_ok (P \<union> {nid}) (add_node (mk c) e2)" by simp
    then have "em_ok P (add_node (mk c) e2)" by (rule em_ok_kept) (simp add: assms(1))
    then show ?thesis by (simp add: f)
  qed
  ultimately show ?thesis by (auto simp: f assms(1))
qed

subsection \<open>Leaf steps\<close>

text \<open>What emitting a leaf step establishes, for ids \<open>P\<close> promised to appear.\<close>

definition leaf_ok :: "level list \<Rightarrow> cond_piece list \<Rightarrow> string \<Rightarrow> emission \<Rightarrow> emission \<Rightarrow> bool" where
  "leaf_ok ls gates nid e t \<longleftrightarrow> em_grows e t \<and> (em_errs t = [] \<longrightarrow> nid \<in> em_ids t) \<and>
    (\<forall>P. promises ls \<subseteq> P \<longrightarrow> pieces_in gates P \<longrightarrow> em_ok P e \<longrightarrow> em_ok P t)"

lemma leaf_okI:
  assumes "\<And>P. reaches (insert nid P) (promises ls \<subseteq> insert nid P) e e1"
    and "\<And>c. n_id (mk c) = nid" and "\<And>c. n_when (mk c) = c" and "\<And>c. n_sel (mk c) = None"
    and "\<And>c h. n_sub (mk c) = Some h \<Longrightarrow> closed_ir h"
  shows "leaf_ok ls gates nid e (finish_step s ls sp gates mk nid e1)"
proof -
  have f: "em_grows e1 (finish_step s ls sp gates mk nid e1) \<and> nid \<in> em_ids (finish_step s ls sp gates mk nid e1) \<and>
    (promises ls \<subseteq> P \<longrightarrow> pieces_in gates P \<longrightarrow> em_ok (insert nid P) e1 \<longrightarrow> em_ok P (finish_step s ls sp gates mk nid e1))" for P
    by (rule finish_step_ok) (use assms(2-5) in auto)
  have "em_grows e (finish_step s ls sp gates mk nid e1)"
    using assms(1) f by (auto simp: reaches_def intro: em_grows_trans)
  moreover have "em_ok P (finish_step s ls sp gates mk nid e1)"
    if p: "promises ls \<subseteq> P" "pieces_in gates P" "em_ok P e" for P
  proof -
    have "em_ok (insert nid P) e" using p(3) by (rule em_ok_mono) auto
    then have "em_ok (insert nid P) e1" using assms(1) [of P] p(1) by (auto simp: reaches_def)
    then show ?thesis using f p by blast
  qed
  ultimately show ?thesis using f by (auto simp: leaf_ok_def)
qed

lemma leaf_ok_error: "leaf_ok ls gates nid e (addf p m e)"
  by (simp add: leaf_ok_def) (simp add: addf_def)

lemma expand_bindings_reaches:
  "expand_bindings shw binds ls path nid item slots out e = (out', t) \<Longrightarrow>
   reaches (insert nid P) (promises ls \<subseteq> insert nid P) e t"
  using expand_bindings_ok [of shw binds ls path nid item slots out e out' t "insert nid P"] by simp

lemma emit_agent_ok: "leaf_ok (l # ls) gates (node_id_of l s) e (emit_agent shw cfg s l ls sp gates e)"
proof -
  define e0 where "e0 = add_errs (fst (resolve_template shw cfg (sd_use s) sp)) e"
  obtain bs e1 where b: "expand_bindings shw (sd_with s) (l # ls) (sp @ ''.with'') (node_id_of l s) False
      (sorted_keys (sd_with s)) [] e0 = (bs, e1)" by fastforce
  have "reaches P c e e0" for P c by (simp add: e0_def)
  then have r: "reaches (insert (node_id_of l s) P) (promises (l # ls) \<subseteq> insert (node_id_of l s) P) e e1" for P
    using expand_bindings_reaches [OF b] reaches_trans by blast
  show ?thesis
    unfolding emit_agent_def Let_def using b
    by (simp flip: e0_def) (rule leaf_okI [OF r]; simp)
qed

lemma emit_sub_ok:
  assumes "closed_ir sub"
  shows "leaf_ok (l # ls) gates (node_id_of l s) e (emit_sub shw cfg s l ls sp gates sub e)"
proof -
  let ?decl = "wf_params (workflow_of cfg (sd_use s))"
  obtain bs e1 where b: "expand_bindings shw (sd_with s) (l # ls) (sp @ ''.with'') (node_id_of l s) False
      (sorted_keys (sd_with s)) [] e = (bs, e1)" by fastforce
  obtain bs' e2 where b2: "bake_defaults shw ?decl (sd_with s) sp (sorted_keys ?decl) bs e1 = (bs', e2)" by fastforce
  have r: "reaches (insert (node_id_of l s) P) (promises (l # ls) \<subseteq> insert (node_id_of l s) P) e e2" for P
    by (rule reaches_trans [OF expand_bindings_reaches [OF b] bake_defaults_ok [OF b2]])
  show ?thesis
    unfolding emit_sub_def Let_def using b b2 by simp (rule leaf_okI [OF r]; use assms in auto)
qed

lemma emit_sub_grows: "em_grows e (emit_sub shw cfg s l ls sp gates sub e)"
proof -
  let ?decl = "wf_params (workflow_of cfg (sd_use s))"
  obtain bs e1 where b: "expand_bindings shw (sd_with s) (l # ls) (sp @ ''.with'') (node_id_of l s) False
      (sorted_keys (sd_with s)) [] e = (bs, e1)" by fastforce
  obtain bs' e2 where b2: "bake_defaults shw ?decl (sd_with s) sp (sorted_keys ?decl) bs e1 = (bs', e2)" by fastforce
  have "em_grows e e1" using expand_bindings_ok [OF b] by (simp add: reaches_def)
  also have "em_grows e1 e2" using bake_defaults_ok [OF b2] by (simp add: reaches_def)
  finally show ?thesis
    unfolding emit_sub_def Let_def using b b2 by simp (rule em_grows_trans [OF _ finish_step_grows])
qed

lemma emit_generate_ok: "leaf_ok (l # ls) gates (node_id_of l s) e (emit_generate shw cfg wd g s l ls sp gates e)"
proof (cases "map_of (wf_sources wd) (gd_source g)")
  case None
  then show ?thesis by (simp add: emit_generate_def leaf_ok_error)
next
  case (Some src)
  let ?decl = "wf_params (workflow_of cfg (gd_workflow g))"
  obtain bs e1 where b: "expand_bindings shw (gd_with g) (l # ls) (sp @ ''.generate.with'') (node_id_of l s) True
      (sorted_keys (gd_with g)) [] e = (bs, e1)" by fastforce
  obtain bs' e2 where b2: "bake_defaults shw ?decl (gd_with g) (sp @ ''.generate'') (sorted_keys ?decl) bs e1 = (bs', e2)" by fastforce
  have r: "reaches (insert (node_id_of l s) P) (promises (l # ls) \<subseteq> insert (node_id_of l s) P) e e2" for P
    by (rule reaches_trans [OF expand_bindings_reaches [OF b] bake_defaults_ok [OF b2]])
  show ?thesis
  proof (cases "map_of (cf_workflows cfg) (gd_workflow g) = None")
    case True
    with Some show ?thesis by (simp add: emit_generate_def leaf_ok_error)
  next
    case False
    show ?thesis
      unfolding emit_generate_def Let_def using b b2 Some False
      by (simp split del: if_split) (auto intro!: leaf_okI [OF r])
  qed
qed

subsection \<open>Levels\<close>

definition level_ok :: "level \<Rightarrow> bool" where
  "level_ok l \<longleftrightarrow> (\<forall>k ld. map_of (lv_loops l) k = Some ld \<longrightarrow>
     lo_id ld = k \<and> lo_prefix ld = lv_prefix l \<and> lo_body ld = loop_body (ld_steps (lo_def ld)))"

definition plain_step :: "step_def \<Rightarrow> bool" where
  "plain_step s \<longleftrightarrow> sd_loop s = None \<or> sd_use s \<noteq> [] \<or> sd_generate s \<noteq> None"

lemma new_level_parts:
  "lv_prefix (new_level p ss) = p"
  "map_of (lv_plain (new_level p ss)) k = Some v \<Longrightarrow>
     \<exists>s \<in> set ss. sd_id s = k \<and> v = p @ ''/'' @ k \<and> k \<noteq> [] \<and> plain_step s"
  "map_of (lv_loops (new_level p ss)) k = Some ld \<Longrightarrow>
     lo_id ld = k \<and> lo_prefix ld = p \<and> lo_body ld = loop_body (ld_steps (lo_def ld)) \<and>
     (\<exists>s \<in> set ss. sd_id s = k \<and> sd_loop s \<noteq> None)"
proof -
  have a: "lv_prefix (fold (note_step p) ss l) = lv_prefix l" for l
    by (induction ss arbitrary: l) (auto simp: note_step_def Let_def split: option.splits)
  have b: "map_of (lv_plain (fold (note_step p) ss l)) k = Some v \<Longrightarrow> map_of (lv_plain l) k = Some v \<or>
     (\<exists>s \<in> set ss. sd_id s = k \<and> v = p @ ''/'' @ k \<and> k \<noteq> [] \<and> plain_step s)" for l
  proof (induction ss arbitrary: l)
    case (Cons s ss)
    have "map_of (lv_plain (note_step p s l)) k = Some v \<Longrightarrow> map_of (lv_plain l) k = Some v \<or>
        sd_id s = k \<and> v = p @ ''/'' @ k \<and> k \<noteq> [] \<and> plain_step s"
      by (auto simp: note_step_def Let_def plain_step_def split: option.splits if_splits)
    with Cons.IH [of "note_step p s l"] Cons.prems show ?case by auto
  qed simp
  have c: "map_of (lv_loops (fold (note_step p) ss l)) k = Some ld \<Longrightarrow> map_of (lv_loops l) k = Some ld \<or>
     lo_id ld = k \<and> lo_prefix ld = p \<and> lo_body ld = loop_body (ld_steps (lo_def ld)) \<and>
     (\<exists>s \<in> set ss. sd_id s = k \<and> sd_loop s \<noteq> None)" for l
  proof (induction ss arbitrary: l)
    case (Cons s ss)
    have "map_of (lv_loops (note_step p s l)) k = Some ld \<Longrightarrow> map_of (lv_loops l) k = Some ld \<or>
        lo_id ld = k \<and> lo_prefix ld = p \<and> lo_body ld = loop_body (ld_steps (lo_def ld)) \<and> sd_id s = k \<and> sd_loop s \<noteq> None"
      by (auto simp: note_step_def Let_def split: option.splits if_splits)
    with Cons.IH [of "note_step p s l"] Cons.prems show ?case by auto
  qed simp
  let ?l = "\<lparr>lv_prefix = p, lv_plain = [], lv_loops = []\<rparr>"
  show "lv_prefix (new_level p ss) = p" using a [of ?l] by (simp add: new_level_def)
  show "map_of (lv_plain (new_level p ss)) k = Some v \<Longrightarrow>
     \<exists>s \<in> set ss. sd_id s = k \<and> v = p @ ''/'' @ k \<and> k \<noteq> [] \<and> plain_step s"
    using b [of ?l] by (simp add: new_level_def)
  show "map_of (lv_loops (new_level p ss)) k = Some ld \<Longrightarrow>
     lo_id ld = k \<and> lo_prefix ld = p \<and> lo_body ld = loop_body (ld_steps (lo_def ld)) \<and>
     (\<exists>s \<in> set ss. sd_id s = k \<and> sd_loop s \<noteq> None)"
    using c [of ?l] by (simp add: new_level_def)
qed

lemma new_level_ok: "level_ok (new_level p ss)"
  using new_level_parts by (auto simp: level_ok_def)

text \<open>A step list that went through without an error has made good what its level promised.\<close>

definition emitted :: "level \<Rightarrow> step_def \<Rightarrow> emission \<Rightarrow> bool" where
  "emitted l s t \<longleftrightarrow> step_forms s = 1 \<and> sd_id s \<noteq> [] \<and>
     (if sd_loop s = None then node_id_of l s \<in> em_ids t
      else \<exists>ld. map_of (lv_loops l) (sd_id s) = Some ld \<and> instance_ids ld \<subseteq> em_ids t)"

lemma emitted_grows: "emitted l s e \<Longrightarrow> em_grows e t \<Longrightarrow> emitted l s t"
  by (auto simp: emitted_def em_grows_def)

lemma promises_kept:
  assumes "\<forall>s \<in> set ss. emitted (new_level p ss) s t"
  shows "promised (new_level p ss) \<subseteq> em_ids t"
proof
  fix x assume "x \<in> promised (new_level p ss)"
  then consider (plain) k where "map_of (lv_plain (new_level p ss)) k = Some x"
    | (loop) k ld where "map_of (lv_loops (new_level p ss)) k = Some ld" "x \<in> instance_ids ld"
    by (auto simp: promised_def ran_def)
  then show "x \<in> em_ids t"
  proof cases
    case plain
    then obtain s where s: "s \<in> set ss" "sd_id s = k" "x = p @ ''/'' @ k" "plain_step s"
      using new_level_parts(2) by blast
    have e: "emitted (new_level p ss) s t" using assms s(1) by blast
    then have "sd_loop s = None" using s(4) by (auto simp: emitted_def plain_step_def step_forms_def split: if_splits)
    with e s show ?thesis by (auto simp: emitted_def node_id_of_def new_level_parts(1))
  next
    case loop
    then obtain s where s: "s \<in> set ss" "sd_id s = k" "sd_loop s \<noteq> None"
      using new_level_parts(3) by blast
    have "emitted (new_level p ss) s t" using assms s(1) by blast
    with s loop show ?thesis by (auto simp: emitted_def)
  qed
qed

subsection \<open>The recursion\<close>

definition steps_ok :: "level \<Rightarrow> level list \<Rightarrow> cond_piece list \<Rightarrow> step_def list \<Rightarrow> emission \<Rightarrow> emission \<Rightarrow> bool" where
  "steps_ok l ls gates ss e t \<longleftrightarrow> em_grows e t \<and> (em_errs t = [] \<longrightarrow> (\<forall>s \<in> set ss. emitted l s t) \<and>
    (\<forall>P. promises (l # ls) \<subseteq> P \<longrightarrow> pieces_in gates P \<longrightarrow> em_ok P e \<longrightarrow> em_ok P t))"

definition unrolled :: "loop_decl \<Rightarrow> level list \<Rightarrow> cond_piece list \<Rightarrow> int \<Rightarrow> (string \<times> string list) option \<Rightarrow>
    string list \<Rightarrow> emission \<Rightarrow> bool \<times> emission \<Rightarrow> bool" where
  "unrolled ld ls gates n prev pn e q \<longleftrightarrow> em_grows e (snd q) \<and> (em_errs (snd q) = [] \<longrightarrow> fst q \<and>
    (\<forall>i b. n \<le> i \<and> i \<le> loop_max ld \<and> b \<in> set (lo_body ld) \<longrightarrow> instance_prefix ld i @ ''/'' @ b \<in> em_ids (snd q)) \<and>
    (\<forall>P. promises ls \<subseteq> P \<longrightarrow> pieces_in (iter_gates prev gates) P \<longrightarrow> pieces_in gates P \<longrightarrow> instance_ids ld \<subseteq> P \<longrightarrow>
       set pn \<subseteq> em_ids e \<longrightarrow> em_ok P e \<longrightarrow> em_ok P (snd q)))"

lemma steps_okI_leaf:
  assumes "leaf_ok (l # ls) gates (node_id_of l s) e t" and "step_forms s = 1" and "sd_id s \<noteq> []" and "sd_loop s = None"
  shows "steps_ok l ls gates [s] e t"
  using assms by (auto simp: leaf_ok_def steps_ok_def emitted_def)

lemma steps_ok_error: "steps_ok l ls gates [s] e (addf p m e)"
  by (simp add: steps_ok_def) (simp add: addf_def)

lemma loop_plan_grows:
  "fst (loop_plan wd s l sp e) = None \<Longrightarrow> em_grows e (snd (loop_plan wd s l sp e)) \<and> em_errs (snd (loop_plan wd s l sp e)) \<noteq> []"
  "fst (loop_plan wd s l sp e) = Some ld \<Longrightarrow> 1 \<le> loop_max ld \<and> em_grows e (snd (loop_plan wd s l sp e)) \<and>
     (\<forall>P. em_ok P (snd (loop_plan wd s l sp e)) = em_ok P e)"
proof -
  have f: "em_errs (addf p m e) \<noteq> []" for p m by (simp add: addf_def)
  show "fst (loop_plan wd s l sp e) = None \<Longrightarrow> em_grows e (snd (loop_plan wd s l sp e)) \<and> em_errs (snd (loop_plan wd s l sp e)) \<noteq> []"
    using f by (auto simp: loop_plan_def Let_def split: option.splits if_splits)
  show "fst (loop_plan wd s l sp e) = Some ld \<Longrightarrow> 1 \<le> loop_max ld \<and> em_grows e (snd (loop_plan wd s l sp e)) \<and>
     (\<forall>P. em_ok P (snd (loop_plan wd s l sp e)) = em_ok P e)"
    by (auto simp: loop_plan_def Let_def loop_max_def split: option.splits if_splits)
qed

lemma iter_nodes_ids: "em_grows e t \<Longrightarrow> set (iter_nodes inst e t) \<subseteq> em_ids t"
  by (auto simp: iter_nodes_def em_ids_def dest: in_set_dropD)

lemma chain_edges_ends:
  "x \<in> set (chain_edges pn cur) \<Longrightarrow> e_from x \<in> set pn \<and> e_to x \<in> set cur"
  by (auto simp: chain_edges_def ordering_edge_def)

lemma emitted_body:
  assumes "\<forall>s \<in> set ss. emitted (new_level p ss) s t" and "b \<in> set (loop_body ss)"
  shows "p @ ''/'' @ b \<in> em_ids t"
proof -
  obtain s where "s \<in> set ss" "sd_id s = b" "sd_loop s = None" using assms(2) by (auto simp: loop_body_def)
  with assms(1) show ?thesis by (fastforce simp: emitted_def node_id_of_def new_level_parts(1))
qed

lemma unroll_step:
  assumes u: "until_at ld n = Inr (u, ud)" and n: "1 \<le> n" "n \<le> loop_max ld"
    and body: "lo_body ld = loop_body (ld_steps (lo_def ld))"
    and ih1: "steps_ok (new_level (instance_prefix ld n) (ld_steps (lo_def ld))) ls (iter_gates prev gates) (ld_steps (lo_def ld)) e e1"
    and cur: "cur = iter_nodes (instance_prefix ld n) e e1"
    and ih2: "unrolled ld ls gates (n + 1) (Some (u, ud)) cur (add_edges_to (chain_edges pn cur) e1) q"
  shows "unrolled ld ls gates n prev pn e q"
proof -
  let ?ss = "ld_steps (lo_def ld)" and ?p = "instance_prefix ld n"
  let ?e2 = "add_edges_to (chain_edges pn cur) e1"
  have g1: "em_grows e e1" using ih1 by (simp add: steps_ok_def)
  have g2: "em_grows ?e2 (snd q)" using ih2 by (simp add: unrolled_def)
  have g: "em_grows e (snd q)" using g1 g2 by (meson em_grows_trans em_step_grows(4))
  have "fst q \<and>
    (\<forall>i b. n \<le> i \<and> i \<le> loop_max ld \<and> b \<in> set (lo_body ld) \<longrightarrow> instance_prefix ld i @ ''/'' @ b \<in> em_ids (snd q)) \<and>
    (\<forall>P. promises ls \<subseteq> P \<longrightarrow> pieces_in (iter_gates prev gates) P \<longrightarrow> pieces_in gates P \<longrightarrow> instance_ids ld \<subseteq> P \<longrightarrow>
       set pn \<subseteq> em_ids e \<longrightarrow> em_ok P e \<longrightarrow> em_ok P (snd q))" if err: "em_errs (snd q) = []"
  proof -
    have "em_errs ?e2 = []" using em_grows_errs [OF g2 err] .
    then have err1: "em_errs e1 = []" by (simp add: add_edges_to_def)
    have em: "\<forall>s \<in> set ?ss. emitted (new_level ?p ?ss) s e1" using ih1 err1 by (simp add: steps_ok_def)
    have bodies: "?p @ ''/'' @ b \<in> em_ids (snd q)" if "b \<in> set (lo_body ld)" for b
      using emitted_body [OF em] that body g2 by (simp add: em_grows_ids)
    have later: "fst q" "\<And>i b. n + 1 \<le> i \<Longrightarrow> i \<le> loop_max ld \<Longrightarrow> b \<in> set (lo_body ld) \<Longrightarrow> instance_prefix ld i @ ''/'' @ b \<in> em_ids (snd q)"
      using ih2 err by (simp_all add: unrolled_def)
    have "em_ok P (snd q)"
      if P: "promises ls \<subseteq> P" "pieces_in (iter_gates prev gates) P" "pieces_in gates P" "instance_ids ld \<subseteq> P"
        "set pn \<subseteq> em_ids e" "em_ok P e" for P
    proof -
      let ?Q = "P \<union> promised (new_level ?p ?ss)"
      have "em_ok ?Q e" using P(6) by (rule em_ok_mono) auto
      moreover have "promises (new_level ?p ?ss # ls) \<subseteq> ?Q" using P(1) by (auto simp: promises_def)
      moreover have "pieces_in (iter_gates prev gates) ?Q" using P(2) by (auto simp: pieces_in_def)
      ultimately have "em_ok ?Q e1" using ih1 err1 by (simp add: steps_ok_def)
      then have "em_ok P e1" by (rule em_ok_kept) (rule promises_kept [OF em])
      then have ok2: "em_ok P ?e2"
        using chain_edges_ends [of _ pn cur] iter_nodes_ids [OF g1, of ?p] P(5) em_grows_ids [OF g1]
        unfolding em_ok_add_edges cur by blast
      have "set ud \<subseteq> instance_ids ld" using until_at_promised [OF u] n by simp
      then have "pieces_in (iter_gates (Some (u, ud)) gates) P" using P(3,4) by (auto simp: iter_gates_def pieces_in_def)
      moreover have "set cur \<subseteq> em_ids ?e2" using iter_nodes_ids [OF g1] by (simp add: cur)
      ultimately show ?thesis using ih2 err P ok2 by (simp add: unrolled_def)
    qed
    moreover have "instance_prefix ld i @ ''/'' @ b \<in> em_ids (snd q)"
      if "n \<le> i" "i \<le> loop_max ld" "b \<in> set (lo_body ld)" for i b
      using that bodies later(2) [of i b] by (cases "i = n") auto
    ultimately show ?thesis using later(1) by blast
  qed
  with g show ?thesis by (simp add: unrolled_def)
qed

lemma emit_loop_ok:
  assumes form: "step_forms s = 1" "sd_id s \<noteq> []" "sd_loop s \<noteq> None"
    and plan: "fst (loop_plan wd s l sp e) = Some ld" and e1: "e1 = snd (loop_plan wd s l sp e)"
    and w: "with_when (sd_when s) (l # ls) sp gates e1 = (g, e2)"
    and ih: "unrolled ld (l # ls) g 1 None [] e2 (ok, e3)"
  shows "steps_ok l ls gates [s] e (if ok then until_selectors ld sp e3 else e3)"
proof -
  let ?t = "if ok then until_selectors ld sp e3 else e3"
  have ld: "map_of (lv_loops l) (sd_id s) = Some ld" by (rule loop_plan_decl [OF plan])
  have inst: "instance_ids ld \<subseteq> promises (l # ls)" using ld by (auto simp: promises_def promised_def ran_def)
  note p = loop_plan_grows(2) [OF plan, folded e1]
  have g12: "reaches P (promises (l # ls) \<subseteq> P) e1 e2" for P using with_when_ok [OF w] by blast
  have g23: "em_grows e2 e3" using ih by (simp add: unrolled_def)
  have r3: "reaches P (instance_ids ld \<subseteq> P) e3 ?t" for P using until_selectors_ok by auto
  have "em_grows e e1" "em_grows e1 e2" "em_grows e3 ?t" using p g12 r3 by (auto simp: reaches_def)
  with g23 have g: "em_grows e ?t" by (meson em_grows_trans)
  have "emitted l s ?t \<and> (\<forall>P. promises (l # ls) \<subseteq> P \<longrightarrow> pieces_in gates P \<longrightarrow> em_ok P e \<longrightarrow> em_ok P ?t)"
    if err: "em_errs ?t = []"
  proof -
    have g3t: "em_grows e3 ?t" using r3 by (auto simp: reaches_def)
    have err3: "em_errs e3 = []" using em_grows_errs [OF g3t err] .
    have "instance_ids ld \<subseteq> em_ids e3"
      using ih err3 p unfolding unrolled_def instance_ids_def by fastforce
    then have ids: "instance_ids ld \<subseteq> em_ids ?t" using em_grows_ids [OF g3t] by blast
    have "em_ok P ?t" if P: "promises (l # ls) \<subseteq> P" "pieces_in gates P" "em_ok P e" for P
    proof -
      have ok2: "em_ok P e2" using p g12 P by (simp add: reaches_def)
      let ?Q = "P \<union> (em_ids e2 \<union> set (em_made e2))"
      have "pieces_in g (em_ids e2 \<union> set (em_made e2) \<union> P)" using with_when_ok [OF w] P by blast
      then have "pieces_in g ?Q" by (auto simp: pieces_in_def)
      moreover have "em_ok ?Q e2" using ok2 by (rule em_ok_mono) auto
      moreover have "promises (l # ls) \<subseteq> ?Q" "instance_ids ld \<subseteq> ?Q" using P(1) inst by auto
      ultimately have "em_ok ?Q e3" using ih err3 by (simp add: unrolled_def iter_gates_def)
      moreover have "em_ids e2 \<union> set (em_made e2) \<subseteq> em_ids e3"
        using ok2 g23 by (auto simp: em_ok_def em_grows_def)
      ultimately have "em_ok P e3" by (rule em_ok_kept)
      then show ?thesis using r3 [of P] inst P(1) by (auto simp: reaches_def)
    qed
    with ids form ld show ?thesis by (auto simp: emitted_def)
  qed
  with g show ?thesis by (simp add: steps_ok_def)
qed

text \<open>A finished graph whose levels kept their promises is closed.\<close>

lemma closed_emitted:
  assumes "em_ok {} b"
  shows "closed_ir (emitted_ir cfg name b)"
proof -
  have l: "set (level_edges (emitted_ir cfg name b)) =
      (\<lambda>e. (e_from e, e_to e)) ` set (em_edges b) \<union> {(d, n_id n) | d n. n \<in> set (em_nodes b) \<and> d \<in> node_deps n}"
    by (auto simp: level_edges_def emitted_ir_def node_deps_def) 
  show ?thesis
    using assms unfolding closed_ir.simps [of "emitted_ir cfg name b"] l
    by (auto simp: em_ok_def mentioned_def em_ids_def emitted_ir_def)
qed

lemma emission_ok:
  "emit_workflow f shw cfg name scope e = (g, t) \<Longrightarrow> (\<exists>es. em_errs t = em_errs e @ es) \<and> em_nodes t = em_nodes e \<and>
     em_edges t = em_edges e \<and> em_made t = em_made e \<and> (em_errs t = [] \<longrightarrow> closed_ir g)"
  "level_ok l \<Longrightarrow> steps_ok l ls gates ss e (emit_steps f shw cfg wd ss l ls path i gates e)"
  "level_ok l \<Longrightarrow> steps_ok l ls gates [s] e (emit_step f shw cfg wd s l ls sp gates e)"
  "1 \<le> n \<Longrightarrow> lo_body ld = loop_body (ld_steps (lo_def ld)) \<Longrightarrow>
     unrolled ld ls gates n prev pn e (unroll_loop f shw cfg wd ld ls sp gates n prev pn e)"
proof (induction f shw cfg name scope e and f shw cfg wd ss l ls path i gates e
    and f shw cfg wd s l ls sp gates e and f shw cfg wd ld ls sp gates n prev pn e
    arbitrary: g t rule: emit_workflow_emit_steps_emit_step_unroll_loop.induct)
  case (1 f shw cfg name scope e)
  let ?w = "workflow_of cfg name"
  define b where "b = emit_steps f shw cfg ?w (wf_steps ?w) (new_level scope (wf_steps ?w)) []
                (''workflows.'' @ name @ ''.steps'') 0 [] (fresh_builder e)"
  have gt: "g = emitted_ir cfg name b" "t = back_to e b"
    using 1(2) by (simp_all add: emit_workflow.simps [of f] b_def Let_def)
  have b: "steps_ok (new_level scope (wf_steps ?w)) [] [] (wf_steps ?w) (fresh_builder e) b"
    unfolding b_def by (rule 1(1) [OF refl new_level_ok])
  have "closed_ir g" if "em_errs b = []"
  proof -
    have em: "\<forall>s \<in> set (wf_steps ?w). emitted (new_level scope (wf_steps ?w)) s b" using b that by (simp add: steps_ok_def)
    have "em_ok {} (fresh_builder e)" by (simp add: em_ok_def mentioned_def fresh_builder_def em_ids_def)
    then have "em_ok ({} \<union> promised (new_level scope (wf_steps ?w))) b"
      using b that em_ok_mono [of "{}" "fresh_builder e" "promised (new_level scope (wf_steps ?w))"]
      by (simp add: steps_ok_def promises_def pieces_in_def)
    then have "em_ok {} b" by (rule em_ok_kept) (rule promises_kept [OF em])
    then show ?thesis unfolding gt by (rule closed_emitted)
  qed
  with b show ?case by (auto simp: gt back_to_def steps_ok_def em_grows_def fresh_builder_def)
next
  case (2 f shw cfg wd l ls path i gates e)
  then show ?case by (simp add: steps_ok_def)
next
  case (3 f shw cfg wd s ss l ls path i gates e)
  let ?e1 = "emit_step f shw cfg wd s l ls (path @ ''['' @ itoa (int i) @ '']'') gates e"
  let ?e2 = "emit_steps f shw cfg wd ss l ls path (Suc i) gates ?e1"
  have a: "steps_ok l ls gates [s] e ?e1" "steps_ok l ls gates ss ?e1 ?e2" using 3 by blast+
  then have "em_grows e ?e2" "em_errs ?e2 = [] \<Longrightarrow> em_errs ?e1 = []"
    by (auto simp: steps_ok_def intro: em_grows_trans em_grows_errs)
  with a show ?case using emitted_grows [of l s ?e1 ?e2] by (auto simp: steps_ok_def)
next
  case (4 f shw cfg wd s l ls sp gates e)
  show ?case
  proof (cases "step_forms s = 1 \<and> sd_id s \<noteq> []")
    case False
    then show ?thesis unfolding emit_step.simps [of f] by (auto simp: steps_ok_error)
  next
    case True
    note form = True
    then have form': "\<not> (step_forms s \<noteq> 1 \<or> sd_id s = [])" by simp
    show ?thesis
    proof (cases "sd_loop s = None")
      case False
      show ?thesis
      proof (cases "fst (loop_plan wd s l sp e)")
        case None
        with loop_plan_grows(1) [OF None] form False show ?thesis
          unfolding emit_step.simps [of f] by (auto simp: steps_ok_def Let_def)
      next
        case (Some ld)
        define e1 where "e1 = snd (loop_plan wd s l sp e)"
        obtain g e2 where g: "with_when (sd_when s) (l # ls) sp gates e1 = (g, e2)" by fastforce
        obtain ok e3 where u: "unroll_loop f shw cfg wd ld (l # ls) sp g 1 None [] e2 = (ok, e3)" by fastforce
        have "map_of (lv_loops l) (sd_id s) = Some ld" by (rule loop_plan_decl [OF Some])
        then have "lo_body ld = loop_body (ld_steps (lo_def ld))" using 4(3) by (auto simp: level_ok_def)
        from 4(1) [OF form' False refl Some refl _ this, folded e1_def] g
        have "unrolled ld (l # ls) g 1 None [] e2 (unroll_loop f shw cfg wd ld (l # ls) sp g 1 None [] e2)" by simp
        then have "steps_ok l ls gates [s] e (if ok then until_selectors ld sp e3 else e3)"
          unfolding u using form False Some e1_def g by (intro emit_loop_ok) auto
        then show ?thesis
          unfolding emit_step.simps [of f] using form False Some g u by (auto simp: Let_def simp flip: e1_def)
      qed
    next
      case True
      note nl = True
      have leaf: "leaf_ok (l # ls) gates (node_id_of l s) e t \<Longrightarrow> steps_ok l ls gates [s] e t" for t
        using steps_okI_leaf form nl by blast
      show ?thesis
      proof (cases "sd_generate s")
        case (Some g)
        then show ?thesis unfolding emit_step.simps [of f] using form nl leaf [OF emit_generate_ok] by simp
      next
        case None
        note ng = None
        show ?thesis
        proof (cases "map_of (cf_templates cfg) (sd_use s) = None")
          case False
          then show ?thesis unfolding emit_step.simps [of f] using form nl ng leaf [OF emit_agent_ok] by simp
        next
          case True
          note nt = True
          show ?thesis
          proof (cases "map_of (cf_workflows cfg) (sd_use s) = None \<or> f = 0")
            case True
            then show ?thesis unfolding emit_step.simps [of f] using form nl ng nt by (auto simp: steps_ok_error)
          next
            case False
            then obtain f' where f: "f = Suc f'" by (cases f) auto
            obtain sub e1 where sub: "emit_workflow f' shw cfg (sd_use s) (node_id_of l s) e = (sub, e1)" by fastforce
            have nw: "map_of (cf_workflows cfg) (sd_use s) \<noteq> None" using False by simp
            have w: "(\<exists>es. em_errs e1 = em_errs e @ es) \<and> em_nodes e1 = em_nodes e \<and>
                em_edges e1 = em_edges e \<and> em_made e1 = em_made e \<and> (em_errs e1 = [] \<longrightarrow> closed_ir sub)"
              by (rule 4(2) [OF form' _ ng _ nw f, unfolded sub]) (use nl nt in auto)
            then have same: "em_grows e e1" "em_ok P e1 = em_ok P e" for P
              by (auto simp: em_grows_def em_ok_def mentioned_def em_ids_def)
            let ?t = "emit_sub shw cfg s l ls sp gates sub e1"
            have g: "em_grows e1 ?t" by (rule emit_sub_grows)
            have "steps_ok l ls gates [s] e ?t"
            proof (cases "em_errs ?t = []")
              case True
              then have "closed_ir sub" using w em_grows_errs [OF g] by blast
              from emit_sub_ok [OF this, of l ls gates s e1] have "leaf_ok (l # ls) gates (node_id_of l s) e ?t"
                using same by (auto simp: leaf_ok_def intro: em_grows_trans)
              then show ?thesis by (rule leaf)
            next
              case False
              then show ?thesis using em_grows_trans [OF same(1) g] by (simp add: steps_ok_def)
            qed
            then show ?thesis unfolding emit_step.simps [of f] using form nl ng nt nw f sub by simp
          qed
        qed
      qed
    qed
  qed
next
  case (5 f shw cfg wd ld ls sp gates n prev pn e)
  show ?case
  proof (cases "loop_max ld < n")
    case True
    then show ?thesis by (auto simp: unroll_loop.simps [of f] unrolled_def)
  next
    case False
    show ?thesis
    proof (cases "until_at ld n")
      case (Inl m)
      with False show ?thesis
        by (simp add: unroll_loop.simps [of f] unrolled_def) (simp add: addf_def)
    next
      case (Inr q)
      obtain u ud where q: "q = (u, ud)" by (cases q)
      note ih1 = 5(1) [OF False Inr new_level_ok]
      define e1 where "e1 = emit_steps f shw cfg wd (ld_steps (lo_def ld))
        (new_level (instance_prefix ld n) (ld_steps (lo_def ld))) ls (sp @ ''.loop.steps'') 0 (iter_gates prev gates) e"
      define cur where "cur = iter_nodes (instance_prefix ld n) e e1"
      have d: "(cur, add_edges_to (chain_edges pn cur) e1) = iter_done (instance_prefix ld n) pn e e1"
        by (simp add: iter_done_def cur_def Let_def)
      have "1 \<le> n + 1" using 5(3) by simp
      note ih2 = 5(2) [OF False Inr d [unfolded e1_def] this 5(4), folded e1_def, unfolded q fst_conv snd_conv]
      have "unrolled ld ls gates n prev pn e (unroll_loop f shw cfg wd ld ls sp gates (n + 1) (Some (u, ud)) cur
          (add_edges_to (chain_edges pn cur) e1))"
        by (rule unroll_step [OF Inr [unfolded q] 5(3) _ 5(4) ih1 [folded e1_def] cur_def ih2]) (use False in simp)
      then show ?thesis
        using False Inr q by (simp add: Let_def d [symmetric] unroll_loop.simps [of f shw cfg wd ld ls sp gates n prev pn e] flip: e1_def)
    qed
  qed
qed

subsection \<open>The emitted graph\<close>

definition canon_node :: "node \<Rightarrow> node" where
  "canon_node n = Node (n_id n) (n_kind n) (n_template n) (map_option canonicalize (n_sub n))
     (n_gen n) (n_sel n) (n_bindings n) (n_when n) (n_retry n) (n_on_failure n) (n_tools n)"

lemma canonicalize_parts:
  "ir_nodes (canonicalize g) = map canon_node (sort_key n_id (ir_nodes g))"
  "ir_edges (canonicalize g) = sort_key edge_key (ir_edges g)"
proof -
  have "(case x of None \<Rightarrow> None | Some h \<Rightarrow> Some (canonicalize h)) = map_option canonicalize x" for x
    by (cases x) auto
  then show "ir_nodes (canonicalize g) = map canon_node (sort_key n_id (ir_nodes g))"
    by (subst canonicalize.simps) (simp add: canon_node_def [abs_def])
  show "ir_edges (canonicalize g) = sort_key edge_key (ir_edges g)"
    by (subst canonicalize.simps) simp
qed

lemma canon_node_sel [simp]:
  "n_id (canon_node n) = n_id n" "node_conds (canon_node n) = node_conds n"
  "n_sub (canon_node n) = map_option canonicalize (n_sub n)"
  by (simp_all add: canon_node_def node_conds_def)

lemma closed_canonicalize: "closed_ir g \<Longrightarrow> closed_ir (canonicalize g)"
proof (induction g rule: canonicalize.induct)
  case (1 g)
  have e: "set (level_edges (canonicalize g)) = set (level_edges g)"
    by (simp add: level_edges_def canonicalize_parts image_image)
  have n: "n_id ` set (ir_nodes (canonicalize g)) = n_id ` set (ir_nodes g)"
    by (simp add: canonicalize_parts image_image)
  have "closed_ir (canonicalize h)" if "n \<in> set (ir_nodes g)" "n_sub n = Some h" for n h
    using 1 that closed_edges(3) by auto
  then show ?case
    using 1(2) unfolding closed_ir.simps [of "canonicalize g"] closed_ir.simps [of g] e n
    by (auto simp: canonicalize_parts split: option.splits)
qed

lemma desugared_closed:
  assumes "desugar shw cfg workflow = Inr g"
  shows "closed_ir g"
proof -
  let ?e = "\<lparr>em_errs = [], em_count = 0, em_nodes = [], em_edges = [], em_loops = [], em_made = []\<rparr>"
  obtain h e where h: "emit_workflow (length (cf_workflows cfg)) shw cfg workflow workflow ?e = (h, e)"
      "em_errs e = []" "g = canonicalize h"
    using assms by (auto simp: desugar_def split: if_splits option.splits prod.splits)
  then show ?thesis using emission_ok(1) [OF h(1)] closed_canonicalize by simp
qed

end
