(* ===== verification/ConfigSample.thy ===== *)
theory ConfigSample
  imports DesugarInv
begin

text \<open>A small configuration with a loop, a condition, a data edge and an inlined workflow, on which the
  properties of the frontend are applied.\<close>

definition sample_param :: param_def where
  "sample_param = \<lparr>pd_type = ''string'', pd_required = False, pd_default = None, pd_enum = []\<rparr>"

definition sample_box :: template_def where
  "sample_box = \<lparr>td_image = [], td_identity = [], td_skills_link = [],
     td_build = Some \<lparr>bd_packages = [''go''], bd_overlay = [], bd_pin = None\<rparr>,
     td_run = \<lparr>rn_identity = [], rn_resources = \<lparr>res_memory = [], res_cpus = Fin 0 0\<rparr>, rn_runtime = [],
       rn_env = [(''FABER_AGENT_CLI'', ''cli'')], rn_volumes = []\<rparr>,
     td_skill = ''s'', td_model = ''m'', td_effort = ''e'', td_lane = [], td_agent_optional = False, td_invoke = None,
     td_hooks = \<lparr>hk_context = [], hk_prelude = [], hk_postlude = [], hk_on_failure = []\<rparr>,
     td_skills = \<lparr>sr_names = [], sr_inline = None\<rparr>,
     td_inputs = [(''in'', sample_param)], td_output = [(''ok'', sample_param)]\<rparr>"

definition use_step :: "string \<Rightarrow> string \<Rightarrow> step_def" where
  "use_step i u = StepDef i u None None [] [] [] 0 [] []"

definition sample_loop :: loop_def where
  "sample_loop = LoopDef 2 ''steps.rev.ok''
     [use_step ''fix'' ''t'', StepDef ''rev'' ''t'' None None [(''in'', VStr ''${steps.fix.ok}'')] [] [] 0 [] []] []"

definition sample_config :: config where
  "sample_config = \<lparr>cf_version = 1,
     cf_network = \<lparr>nw_name = [], nw_proxy = [], nw_no_proxy = [], nw_nftables = False\<rparr>,
     cf_remote = \<lparr>rm_url = [], rm_host_key_file = [], rm_tofu = False\<rparr>,
     cf_credentials = \<lparr>cd_resolver = [], cd_services = []\<rparr>, cf_identities = [], cf_lanes = [],
     cf_images = [], cf_skills = [], cf_hooks = [], cf_invoke_profiles = [],
     cf_templates = [(''t'', sample_box)],
     cf_workflows =
       [(''w'', \<lparr>wf_params = [], wf_sources = [], wf_steps =
           [StepDef ''c'' [] (Some sample_loop) None [] [] [] 0 [] [],
            StepDef ''d'' ''v'' None None [] ''steps.rev.ok'' [] 0 [] []]\<rparr>),
        (''v'', \<lparr>wf_params = [], wf_sources = [], wf_steps = [use_step ''a'' ''t'']\<rparr>)]\<rparr>"

definition sample_show :: "goval \<Rightarrow> string" where "sample_show v = []"

lemma sample_desugars:
  "(case desugar sample_show sample_config ''w'' of
      Inl es \<Rightarrow> False
    | Inr g \<Rightarrow> map n_id (ir_nodes g) = [''w/c@1/fix'', ''w/c@1/rev'', ''w/c@2/fix'', ''w/c@2/rev'', ''w/d'', ''w/rev''])"
  by code_simp

end
