(* ===== verification/LoopGates.thy ===== *)
theory LoopGates
  imports DesugarInv
begin

text \<open>
  The gates of unrolled loops: every node emitted on a level has the level's prefix, and a condition that
  holds whatever is added to the gates it was emitted under. The only other nodes are selectors, which
  pick among iterations that are gated themselves.
\<close>

definition guarded :: "(cond_spec option \<Rightarrow> bool) \<Rightarrow> string \<Rightarrow> node \<Rightarrow> bool" where
  "guarded u D n \<longleftrightarrow> n_kind n = KindSelector \<or> has_prefix D (n_id n) \<and> u (n_when n)"

definition guards :: "(cond_spec option \<Rightarrow> bool) \<Rightarrow> string \<Rightarrow> emission \<Rightarrow> emission \<Rightarrow> bool" where
  "guards u D e t \<longleftrightarrow> (\<exists>ns. em_nodes t = em_nodes e @ ns \<and> (\<forall>n \<in> set ns. guarded u D n))"

definition gated :: "(cond_spec option \<Rightarrow> bool) \<Rightarrow> cond_piece list \<Rightarrow> bool" where
  "gated u ps \<longleftrightarrow> (\<forall>qs. set ps \<subseteq> set qs \<longrightarrow> u (combine_cond qs))"

text \<open>The level hands its own prefix to the loops it declares.\<close>

definition level_under :: "string \<Rightarrow> level \<Rightarrow> bool" where
  "level_under D l \<longleftrightarrow> has_prefix D (lv_prefix l @ ''/'') \<and>
     (\<forall>i ld. map_of (lv_loops l) i = Some ld \<longrightarrow> lo_prefix ld = lv_prefix l)"

lemma has_prefix_more: "has_prefix p a \<Longrightarrow> has_prefix p (a @ b)"
  by (auto simp: has_prefix_def dest: arg_cong [of "take _ _" _ length])

lemma level_under_new:
  assumes "has_prefix D (pre @ ''/'')"
  shows "level_under D (new_level pre ss)"
proof -
  have "level_under D l \<Longrightarrow> lv_prefix l = pre \<Longrightarrow> level_under D (fold (note_step pre) ss l)" for l
  proof (induction ss arbitrary: l)
    case (Cons s ss)
    have "level_under D (note_step pre s l) \<and> lv_prefix (note_step pre s l) = pre"
      using Cons.prems by (auto simp: note_step_def Let_def level_under_def split: option.split)
    with Cons.IH show ?case by simp
  qed simp
  with assms show ?thesis by (simp add: new_level_def level_under_def)
qed

lemma level_under_body:
  "has_prefix D (lo_prefix ld @ ''/'') \<Longrightarrow> level_under D (new_level (instance_prefix ld i) ss)"
  using has_prefix_more [of D "lo_prefix ld @ ''/''" "lo_id ld @ ''@'' @ itoa i @ ''/''"]
  by (intro level_under_new) (simp add: instance_prefix_def)

lemma node_id_under: "level_under D l \<Longrightarrow> has_prefix D (node_id_of l s)"
  using has_prefix_more [of D "lv_prefix l @ ''/''" "sd_id s"] by (simp add: level_under_def node_id_of_def)

lemma guards_refl [simp]: "guards u D e e"
  by (simp add: guards_def)

lemma guards_trans [trans]: "guards u D a b \<Longrightarrow> guards u D b c \<Longrightarrow> guards u D a c"
  by (fastforce simp: guards_def)

lemma guards_same: "em_nodes t = em_nodes e \<Longrightarrow> guards u D e t"
  by (simp add: guards_def)

lemma em_nodes_steps [simp]:
  "em_nodes (addf p m e) = em_nodes e" "em_nodes (add_errs es e) = em_nodes e"
  "em_nodes (add_edges_to eds e) = em_nodes e" "em_nodes (count_node e) = em_nodes e"
  "em_nodes (add_node n e) = em_nodes e @ [n]"
  by (simp_all add: addf_def add_errs_def add_edges_to_def count_node_def add_node_def)

lemma guards_keep [simp]:
  "guards u D e (addf p m t) = guards u D e t" "guards u D e (add_edges_to eds t) = guards u D e t"
  "guards u D e (add_errs es t) = guards u D e t" "guards u D e (count_node t) = guards u D e t"
  "guards u D (addf p m e) t = guards u D e t" "guards u D (add_edges_to eds e) t = guards u D e t"
  "guards u D (add_errs es e) t = guards u D e t" "guards u D (count_node e) t = guards u D e t"
  by (simp_all add: guards_def)

lemma ensure_selector_guards: "ensure_selector ld step e = (r, t) \<Longrightarrow> guards u D e t"
  by (auto simp: ensure_selector_def Let_def guards_def guarded_def selector_node_def
      split: if_splits sum.splits prod.splits)

lemma resolve_step_guards: "resolve_step ls step e = (r, t) \<Longrightarrow> guards u D e t"
proof (induction ls step e rule: resolve_step.induct)
  case (2 l ls step e)
  then show ?case by (auto split: option.splits if_splits dest: ensure_selector_guards)
qed simp

interpretation name_gates: resolving "resolve_step ls" "guards u D" "\<lambda>d e. True"
  by unfold_locales (auto intro: guards_trans resolve_step_guards)

interpretation until_gates: resolving "until_selector ld" "guards u D" "\<lambda>d e. True"
  by unfold_locales (auto simp: until_selector_def intro: guards_trans ensure_selector_guards
      split: if_splits prod.splits sum.splits)

lemma until_selectors_guards: "guards u D e (until_selectors ld sp e)"
  using until_gates.rewritten(1) by (auto simp: until_selectors_def split: prod.split sum.split)

lemma with_when_guards:
  assumes "with_when when ls sp gates e = (ps, t)"
  shows "guards u D e t" and "gated u gates \<Longrightarrow> gated u ps"
proof -
  show "guards u D e t"
    using assms name_gates.rewritten(1)
    by (auto simp: with_when_def cond_piece_for_def split: if_splits prod.splits option.splits sum.splits)
  have "set gates \<subseteq> set ps"
    using assms by (auto simp: with_when_def split: if_splits prod.splits option.splits)
  then show "gated u gates \<Longrightarrow> gated u ps" by (auto simp: gated_def)
qed

lemma expand_bindings_guards:
  "expand_bindings shw binds ls path nid item slots out e = (out', t) \<Longrightarrow> guards u D e t"
proof (induction slots arbitrary: item out e)
  case (Cons slot slots)
  note ih = Cons.IH
  note st = resolve_step_guards [of ls _ e _ _ u D]
  show ?case
  proof (cases "parse_binding (get_or VNull binds slot)")
    case (Inl m)
    with Cons.prems show ?thesis by (auto simp: Let_def dest: ih)
  next
    case (Inr b)
    show ?thesis
    proof (cases b)
      case (BLit v)
      with Inr Cons.prems show ?thesis by (auto simp: Let_def split: sum.splits dest: ih)
    next
      case (BRef r)
      with Inr Cons.prems show ?thesis
        by (cases "ref_root r") (auto simp: Let_def split: if_splits prod.splits sum.splits
            dest!: ih st intro: guards_trans)
    qed
  qed
qed simp

lemma bake_defaults_guards:
  "bake_defaults shw decl binds sp ks out e = (out', t) \<Longrightarrow> guards u D e t"
proof (induction ks arbitrary: out e)
  case (Cons k ks)
  from Cons.prems show ?case
    by (auto split: option.splits if_splits sum.splits dest!: Cons.IH simp: guards_def)
qed simp

lemma emit_depends_guards: "guards u D e (emit_depends_on deps ls sp nid e)"
proof (induction deps arbitrary: e)
  case (Cons dep deps)
  have "guards u D e (case resolve_depends_on ls dep of Inl m \<Rightarrow> addf (sp @ ''.depends_on'') m e
        | Inr froms \<Rightarrow> add_edges_to (map (\<lambda>a. ordering_edge a nid) froms) e)"
    by (auto split: sum.split)
  from guards_trans [OF this Cons.IH] show ?case by simp
qed simp

subsection \<open>Steps\<close>

lemma contains_mid: "contains_str u (a @ u @ b)"
proof (induction a)
  case Nil
  show ?case by (cases "u @ b") (auto simp: has_prefix_def append_eq_Cons_conv)
next
  case (Cons x a)
  then show ?case by simp
qed

lemma join_split: "x \<in> set xs \<Longrightarrow> \<exists>a b. join sep xs = a @ x @ b"
proof (induction sep xs rule: join.induct)
  case (2 sep y)
  then show ?case by (metis append_Nil append_Nil2 empty_iff insert_iff join.simps(2) list.set)
next
  case (3 sep y z zs)
  show ?case
  proof (cases "x = y")
    case True
    then show ?thesis by (metis append_Nil join.simps(3))
  next
    case False
    with 3 obtain a b where "join sep (z # zs) = a @ x @ b" by auto
    then have "join sep (y # z # zs) = (y @ sep @ a) @ x @ b" by simp
    then show ?thesis by blast
  qed
qed simp

lemma combine_guard:
  assumes "p \<in> set ps" and "cp_wrapped p"
  shows "\<exists>c. combine_cond ps = Some c \<and> contains_str (cp_cel p) (c_cel c) \<and> set (cp_deps p) \<subseteq> set (c_deps c)"
proof -
  let ?t = "\<lambda>p. if cp_wrapped p \<or> length ps = 1 then cp_cel p else ''('' @ cp_cel p @ '')''"
  have "cp_cel p \<in> set (map ?t ps)" using assms by (force simp: image_iff)
  then obtain a b where "join '' && '' (map ?t ps) = a @ cp_cel p @ b" using join_split by blast
  then have "contains_str (cp_cel p) (join '' && '' (map ?t ps))" using contains_mid by simp
  then show ?thesis using assms by (force simp: combine_cond_def str_set_def)
qed

lemma finish_step_guards:
  assumes "gated u gates" and "\<And>c. n_when (mk c) = c" and "has_prefix D nid" and "\<And>c. n_id (mk c) = nid"
    and "guards u D e e1"
  shows "guards u D e (finish_step s ls sp gates mk nid e1)"
proof -
  obtain ps e2 where w: "with_when (sd_when s) ls sp gates e1 = (ps, e2)" by fastforce
  note g = with_when_guards [OF w]
  have d: "guards u D e2 (emit_depends_on (sd_depends_on s) ls sp nid e2)" by (rule emit_depends_guards)
  have "guarded u D (mk (combine_cond ps))"
    using g(2) [OF assms(1)] assms(2,3,4) by (auto simp: guarded_def gated_def)
  then have "guards u D e (add_node (mk (combine_cond ps)) (emit_depends_on (sd_depends_on s) ls sp nid e2))"
    using guards_trans [OF guards_trans [OF assms(5) g(1)] d] by (auto simp: guards_def)
  then show ?thesis using w by (simp add: finish_step_def step_cond_def)
qed

lemma emit_agent_guards: "gated u gates \<Longrightarrow> level_under D l \<Longrightarrow> guards u D e (emit_agent shw cfg s l ls sp gates e)"
  unfolding emit_agent_def Let_def
  by (auto split: prod.split dest!: expand_bindings_guards [where u = u and D = D] intro!: finish_step_guards node_id_under)

lemma emit_sub_guards: "gated u gates \<Longrightarrow> level_under D l \<Longrightarrow> guards u D e (emit_sub shw cfg s l ls sp gates sub e)"
  unfolding emit_sub_def Let_def
  by (auto split: prod.split dest!: expand_bindings_guards [where u = u and D = D]
      bake_defaults_guards [where u = u and D = D] intro!: finish_step_guards node_id_under intro: guards_trans)

lemma emit_generate_guards: "gated u gates \<Longrightarrow> level_under D l \<Longrightarrow> guards u D e (emit_generate shw cfg wd g s l ls sp gates e)"
  unfolding emit_generate_def Let_def
  by (auto split: prod.split option.split dest!: expand_bindings_guards [where u = u and D = D]
      bake_defaults_guards [where u = u and D = D] intro!: finish_step_guards node_id_under intro: guards_trans)

lemma loop_plan_nodes: "em_nodes (snd (loop_plan wd s l sp e)) = em_nodes e"
  by (auto simp: loop_plan_def Let_def split: option.split)

lemma gated_iter: "gated u gates \<Longrightarrow> gated u (iter_gates prev gates)"
  by (auto simp: gated_def iter_gates_def split: option.split)

lemma emission_gated:
  "em_nodes (snd (emit_workflow f shw cfg name scope e)) = em_nodes e"
  "gated u gates \<Longrightarrow> level_under D l \<Longrightarrow> guards u D e (emit_steps f shw cfg wd ss l ls path i gates e)"
  "gated u gates \<Longrightarrow> level_under D l \<Longrightarrow> guards u D e (emit_step f shw cfg wd s l ls sp gates e)"
  "gated u gates \<Longrightarrow> has_prefix D (lo_prefix ld @ ''/'') \<Longrightarrow> guards u D e (snd (unroll_loop f shw cfg wd ld ls sp gates n prev pn e))"
proof (induction f shw cfg name scope e and f shw cfg wd ss l ls path i gates e
    and f shw cfg wd s l ls sp gates e and f shw cfg wd ld ls sp gates n prev pn e
    rule: emit_workflow_emit_steps_emit_step_unroll_loop.induct)
  case (1 f shw cfg name scope e)
  then show ?case by (simp add: emit_workflow.simps [of f] Let_def back_to_def)
next
  case (2 f shw cfg wd l ls path i gates e)
  then show ?case by simp
next
  case (3 f shw cfg wd s ss l ls path i gates e)
  then show ?case by (auto intro: guards_trans)
next
  case (4 f shw cfg wd s l ls sp gates e)
  show ?case
  proof (cases "step_forms s \<noteq> 1 \<or> sd_id s = []")
    case True
    then show ?thesis by (simp add: emit_step.simps [of f])
  next
    case False
    note form = False
    show ?thesis
    proof (cases "sd_loop s")
      case None
      have sub: "guards u D e (emit_sub shw cfg s l ls sp gates (fst (emit_workflow f' shw cfg (sd_use s) (node_id_of l s) e))
          (snd (emit_workflow f' shw cfg (sd_use s) (node_id_of l s) e)))"
        if "sd_generate s = None" "map_of (cf_templates cfg) (sd_use s) = None"
          "map_of (cf_workflows cfg) (sd_use s) \<noteq> None" "f = Suc f'" for f'
        using 4(2) [OF form _ that(1)] None that emit_sub_guards [OF 4(3,4)]
          guards_same [of "snd (emit_workflow f' shw cfg (sd_use s) (node_id_of l s) e)" e]
        by (metis guards_trans not_Some_eq)
      show ?thesis
        unfolding emit_step.simps [of f] using form None 4(3,4) sub
        by (auto simp: Let_def split: option.split nat.split intro: emit_agent_guards emit_generate_guards)
    next
      case (Some d)
      obtain pl e1 where pl: "loop_plan wd s l sp e = (pl, e1)" by fastforce
      have e1: "guards u D e e1" using loop_plan_nodes [of wd s l sp e] pl by (auto intro: guards_same)
      show ?thesis
      proof (cases pl)
        case None
        with form Some pl e1 show ?thesis by (simp add: emit_step.simps [of f])
      next
        case (Some ld)
        obtain g e2 where w: "with_when (sd_when s) (l # ls) sp gates e1 = (g, e2)" by fastforce
        have "map_of (lv_loops l) (sd_id s) = Some ld" by (rule loop_plan_decl [of wd s l sp e]) (use pl Some in simp)
        then have "has_prefix D (lo_prefix ld @ ''/'')" using 4(4) by (auto simp: level_under_def)
        then have "guards u D e2 (snd (unroll_loop f shw cfg wd ld (l # ls) sp g 1 None [] e2))"
          using 4(1) [OF form _ refl _ refl] with_when_guards(2) [OF w 4(3)] w pl Some \<open>sd_loop s = Some d\<close> by simp
        with e1 with_when_guards(1) [OF w] have "guards u D e (snd (unroll_loop f shw cfg wd ld (l # ls) sp g 1 None [] e2))"
          by (meson guards_trans)
        then show ?thesis
          using form \<open>sd_loop s = Some d\<close> pl Some w guards_trans [OF _ until_selectors_guards]
          by (simp add: emit_step.simps [of f] Let_def)
      qed
    qed
  qed
next
  case (5 f shw cfg wd ld ls sp gates n prev pn e)
  show ?case
  proof (cases "loop_max ld < n \<or> (\<exists>m. until_at ld n = Inl m)")
    case True
    then show ?thesis by (auto simp: unroll_loop.simps [of f])
  next
    case False
    then obtain x where x: "until_at ld n = Inr x" by (cases "until_at ld n") auto
    have n: "\<not> loop_max ld < n" using False by simp
    note a = 5(1) [OF n x gated_iter [OF 5(3)] level_under_body [OF 5(4)]]
    note b = 5(2) [OF n x refl 5(3,4)]
    show ?thesis
      using n x guards_trans [OF a] b
      by (simp add: unroll_loop.simps [of f shw cfg wd ld ls sp gates n prev pn e] Let_def iter_done_def)
  qed
qed

subsection \<open>Iterations\<close>

text \<open>The condition of a node waits on a negated condition, read as \<open>prev\<close> says.\<close>

definition waits_on :: "(string \<times> string list) option \<Rightarrow> cond_spec option \<Rightarrow> bool" where
  "waits_on prev c \<longleftrightarrow> (\<forall>u deps. prev = Some (u, deps) \<longrightarrow>
     (\<exists>d. c = Some d \<and> contains_str (''!('' @ u @ '')'') (c_cel d) \<and> set deps \<subseteq> set (c_deps d)))"

lemma gated_waits: "gated (waits_on prev) (iter_gates prev gates)"
  unfolding gated_def waits_on_def
proof (intro allI impI)
  fix qs u deps assume "set (iter_gates prev gates) \<subseteq> set qs" "prev = Some (u, deps)"
  then have "\<lparr>cp_cel = ''!('' @ u @ '')'', cp_deps = deps, cp_wrapped = True\<rparr> \<in> set qs" by (simp add: iter_gates_def)
  from combine_guard [OF this] show "\<exists>d. combine_cond qs = Some d \<and> contains_str (''!('' @ u @ '')'') (c_cel d) \<and>
      set deps \<subseteq> set (c_deps d)" by simp
qed

definition left_on :: "loop_decl \<Rightarrow> int \<Rightarrow> (string \<times> string list) option" where
  "left_on ld i = (case until_at ld i of Inl _ \<Rightarrow> None | Inr u \<Rightarrow> Some u)"

lemma unrolled_parts:
  assumes "unroll_loop f shw cfg wd ld ls sp gates n prev pn e = (True, t)"
  shows "\<exists>parts. length parts = nat (loop_max ld + 1 - n) \<and> em_nodes t = em_nodes e @ concat parts \<and>
    (\<forall>j < length parts. left_on ld (n + int j) \<noteq> None \<and>
      (\<forall>m \<in> set (parts ! j). guarded (waits_on (if j = 0 then prev else left_on ld (n + int j - 1)))
         (instance_prefix ld (n + int j) @ ''/'') m))"
  using assms
proof (induction "nat (loop_max ld + 1 - n)" arbitrary: n prev pn e)
  case 0
  then show ?case by (simp add: unroll_loop.simps [of f])
next
  case (Suc k)
  then have n: "\<not> loop_max ld < n" by simp
  with Suc.prems obtain x where x: "until_at ld n = Inr x"
    by (cases "until_at ld n") (auto simp: unroll_loop.simps [of f])
  let ?e = "emit_steps f shw cfg wd (ld_steps (lo_def ld)) (new_level (instance_prefix ld n) (ld_steps (lo_def ld)))
      ls (sp @ ''.loop.steps'') 0 (iter_gates prev gates) e"
  obtain pn' e' where q: "iter_done (instance_prefix ld n) pn e ?e = (pn', e')" by fastforce
  have e': "em_nodes e' = em_nodes ?e" using q by (auto simp: iter_done_def Let_def)
  have "level_under (instance_prefix ld n @ ''/'') (new_level (instance_prefix ld n) (ld_steps (lo_def ld)))"
    by (rule level_under_new) (simp add: has_prefix_def)
  from emission_gated(2) [OF gated_waits this] obtain ns where ns: "em_nodes ?e = em_nodes e @ ns"
      "\<forall>m \<in> set ns. guarded (waits_on prev) (instance_prefix ld n @ ''/'') m"
    unfolding guards_def by blast
  have r: "unroll_loop f shw cfg wd ld ls sp gates (n + 1) (Some x) pn' e' = (True, t)"
    using Suc.prems n x q by (simp add: unroll_loop.simps [of f shw cfg wd ld ls sp gates n prev pn e] Let_def)
  have "k = nat (loop_max ld + 1 - (n + 1))" using Suc.hyps(2) by simp
  from Suc.hyps(1) [OF this r] obtain parts where p: "length parts = nat (loop_max ld + 1 - (n + 1))"
      "em_nodes t = em_nodes e' @ concat parts"
      "\<forall>j < length parts. left_on ld (n + 1 + int j) \<noteq> None \<and>
        (\<forall>m \<in> set (parts ! j). guarded (waits_on (if j = 0 then Some x else left_on ld (n + 1 + int j - 1)))
           (instance_prefix ld (n + 1 + int j) @ ''/'') m)" by blast
  have lx: "left_on ld n = Some x" using x by (simp add: left_on_def)
  show ?case
  proof (intro exI [of _ "ns # parts"] conjI allI impI)
    show "length (ns # parts) = nat (loop_max ld + 1 - n)" using p(1) n by simp
    show "em_nodes t = em_nodes e @ concat (ns # parts)" using p(2) e' ns(1) by simp
    fix j assume j: "j < length (ns # parts)"
    show "left_on ld (n + int j) \<noteq> None"
    proof (cases j)
      case (Suc i)
      have "left_on ld (n + 1 + int i) \<noteq> None" using p(3) j Suc by simp
      then show ?thesis using Suc by (simp add: algebra_simps)
    qed (simp add: lx)
    show "\<forall>m \<in> set ((ns # parts) ! j). guarded (waits_on (if j = 0 then prev else left_on ld (n + int j - 1)))
        (instance_prefix ld (n + int j) @ ''/'') m"
    proof (cases j)
      case (Suc i)
      have "\<forall>m \<in> set (parts ! i). guarded (waits_on (if i = 0 then Some x else left_on ld (n + 1 + int i - 1)))
           (instance_prefix ld (n + 1 + int i) @ ''/'') m" using p(3) j Suc by simp
      moreover have "(if i = 0 then Some x else left_on ld (n + 1 + int i - 1)) = left_on ld (n + int j - 1)"
        using Suc lx by (simp add: algebra_simps)
      moreover have "n + 1 + int i = n + int j" using Suc by simp
      ultimately show ?thesis using Suc by simp
    qed (use ns(2) in simp)
  qed
qed

end
