(* ===== verification/ConfigProps.thy ===== *)
theory ConfigProps
  imports ConfigSample LoopGates Liveness
begin

text \<open>
  Properties of the configuration frontend: what the reference rewriting changes, that the cycle check
  is exact and the inlining it licenses complete, that emitted graphs are closed and loop iterations
  gated, and where the unrolling ceiling fails.
\<close>

subsection \<open>References in conditions\<close>

lemma contains_suffix: "contains_str p b \<Longrightarrow> contains_str p (a @ b)"
  by (induction a) auto

lemma rewrite_unmentioned:
  "\<not> contains_str ''steps.'' s \<Longrightarrow> rewrite_from src res prev s out deps st = (Inr (out @ s, str_set deps), st)"
proof (induction src res prev s out deps st rule: rewrite_from.induct)
  case (1 src res prev out deps st)
  then show ?case by (simp add: rewrite_from.simps)
next
  case (2 src res prev c cs out deps st)
  have suf: "\<not> contains_str ''steps.'' b" if "c # cs = a @ b" for a b
    using 2(5) contains_suffix [of _ b a] that by metis
  show ?case
  proof (cases "c = CHR 0x22 \<or> c = CHR 0x27")
    case True
    obtain x y where cl: "copy_literal c cs = (x, y)" by fastforce
    then have cs: "cs = x @ y" by (rule copy_literal_split)
    have "\<not> contains_str ''steps.'' y" by (rule suf [of "c # x"]) (simp add: cs)
    with 2(1) [OF True cl [symmetric]] True cl cs show ?thesis by (simp add: rewrite_from.simps(2))
  next
    case False
    note lit = False
    show ?thesis
    proof (cases "word_starts prev c")
      case True
      obtain w r where w: "read_ident (c # cs) = (w, r)" by fastforce
      then have cs: "c # cs = w @ r" by (rule read_ident_split)
      have n: "\<not> (w = ''steps'' \<and> r \<noteq> [] \<and> hd r = CHR ''.'')"
      proof
        assume a: "w = ''steps'' \<and> r \<noteq> [] \<and> hd r = CHR ''.''"
        then have "c # cs = ''steps.'' @ tl r" using cs by (cases r) auto
        then have "contains_str ''steps.'' (c # cs)" by (simp add: has_prefix_def)
        with 2(5) show False by simp
      qed
      have "\<not> contains_str ''steps.'' r" by (rule suf [OF cs])
      moreover have "rewrite_from src res prev (c # cs) out deps st =
          rewrite_from src res (Some (last w)) r (out @ w) deps st"
        unfolding rewrite_from.simps(2) using lit True w n by (simp only: if_False if_True Let_def prod.case)
      ultimately show ?thesis using 2(3) [OF lit True w [symmetric] n] cs by simp
    next
      case False
      have "\<not> contains_str ''steps.'' cs" by (rule suf [of "[c]"]) simp
      with 2(4) [OF lit False] lit False show ?thesis by (simp add: rewrite_from.simps(2))
    qed
  qed
qed

text \<open>
  A condition source without an occurrence of \<open>steps.\<close> passes the reference rewriting
  unchanged, byte for byte, and depends on no step, whatever the resolver does.
\<close>
theorem rewriting_leaves_the_rest:
  assumes "\<not> contains_str ''steps.'' src"
  shows "rewrite_refs src res st = (Inr (src, []), st)"
  using rewrite_unmentioned [OF assms, of src res None "[]" "[]" st] by (simp add: rewrite_refs_def str_set_def)

theorem rewriting_leaves_the_rest_witness:
  "rewrite_refs ''params.n > 1 && 'steps' != x.steps'' (pure_resolver (\<lambda>_. Inl [])) () =
     (Inr (''params.n > 1 && 'steps' != x.steps'', []), ())"
  by (rule rewriting_leaves_the_rest) (code_simp)

text \<open>
  A step id with a dash cannot be read by a condition, although the id grammar admits it: the
  reference ends at the dash, so the rewriting reports a malformed reference whatever the resolver
  knows.
\<close>
theorem dashed_step_unreadable:
  "\<exists>m. rewrite_refs ''steps.fix-it.done'' res st = (Inl m, st)"
  by (simp add: rewrite_refs_def rewrite_from.simps word_starts_def is_ident_start_def byte_def read_ident_def
      is_ident_part_def is_digit_def step_reference_def)

subsection \<open>The emitted graph\<close>

definition no_emission :: emission where
  "no_emission = \<lparr>em_errs = [], em_count = 0, em_nodes = [], em_edges = [], em_loops = [], em_made = []\<rparr>"


lemma sample_accepted:
  "case desugar sample_show sample_config ''w'' of Inl _ \<Rightarrow> False | Inr g \<Rightarrow> length (ir_nodes g) = 6"
  using sample_desugars by (auto split: sum.splits dest: arg_cong [where f = length])

text \<open>
  C17. The graph a desugaring returns is closed: every edge endpoint and every step a condition reads,
  in it and in the graphs of the workflows inlined into it, is a node of the graph that mentions it.
\<close>
theorem desugared_graphs_closed:
  assumes "desugar shw cfg w = Inr g"
  shows "closed_ir g"
  by (rule desugared_closed [OF assms])

theorem desugared_graphs_closed_witness:
  "\<exists>g. desugar sample_show sample_config ''w'' = Inr g \<and> length (ir_nodes g) = 6 \<and> closed_ir g"
proof -
  obtain g where g: "desugar sample_show sample_config ''w'' = Inr g" "length (ir_nodes g) = 6"
    using sample_accepted by (auto split: sum.splits)
  with desugared_graphs_closed [OF g(1)] show ?thesis by blast
qed

text \<open>
  C19. The depth-first check accepts an entry workflow exactly when no workflow it includes, itself
  counted, includes itself.
\<close>
theorem ref_cycle_check_complete:
  assumes "entry \<in> declared cfg"
  shows "check_ref_cycles cfg entry = None \<longleftrightarrow>
    (\<forall>w. (entry, w) \<in> (inclusion cfg)\<^sup>* \<longrightarrow> (w, w) \<notin> (inclusion cfg)\<^sup>+)"
  using ref_cycle_check_exact [OF assms] by (auto simp: cyclic_from_def)

theorem ref_cycle_check_complete_witness:
  "(''v'', ''v'') \<notin> (inclusion sample_config)\<^sup>+"
proof -
  have d: "''v'' \<in> declared sample_config" by (simp add: declared_def sample_config_def)
  have "check_ref_cycles sample_config ''v'' = None" by code_simp
  with ref_cycle_check_complete [OF d] show ?thesis by blast
qed

text \<open>
  C20. Inlining ends by itself: for an entry the cycle check accepts, a larger bound on the nesting of
  workflows than their number changes nothing, so the bound of the model never cuts an inlining short.
\<close>
theorem inlining_ends:
  assumes "entry \<in> declared cfg" and "check_ref_cycles cfg entry = None"
  shows "emit_workflow (length (cf_workflows cfg) + k) shw cfg entry scope e =
    emit_workflow (length (cf_workflows cfg)) shw cfg entry scope e"
  by (rule inlining_complete [OF assms])

theorem inlining_ends_witness:
  "emit_workflow (length (cf_workflows sample_config) + 5) sample_show sample_config ''w'' ''w'' no_emission =
     emit_workflow (length (cf_workflows sample_config)) sample_show sample_config ''w'' ''w'' no_emission"
proof (rule inlining_ends)
  show "''w'' \<in> declared sample_config" by (simp add: declared_def sample_config_def)
  show "check_ref_cycles sample_config ''w'' = None" by code_simp
qed

subsection \<open>Loops\<close>



text \<open>
  The ceiling on unrolled nodes is computed in wrapping 64-bit arithmetic: a loop of four body nodes
  with a maximum of \<open>2 ^ 62\<close> projects to zero further nodes, so its unrolling is admitted by a workflow
  that is within the ceiling so far, although it stands for \<open>2 ^ 64\<close> nodes.
\<close>
theorem unrolling_ceiling_wraps:
  assumes "map_of (lv_loops l) (sd_id s) = Some ld" and "ld_max (lo_def ld) = 2 ^ 62"
    and "ld_until (lo_def ld) \<noteq> []" and "ld_expect (lo_def ld) = []"
    and "count_steps (ld_steps (lo_def ld)) = 4" and "0 \<le> em_count e" and "em_count e \<le> max_unrolled_nodes"
  shows "loop_plan wd s l sp e = (Some ld, e) \<and>
    max_unrolled_nodes < em_count e + count_steps (ld_steps (lo_def ld)) * ld_max (lo_def ld)"
proof
  have s: "ld_steps (lo_def ld) \<noteq> []" using assms(5) by auto
  have "wrap_int (em_count e) = em_count e" using assms(6,7) by (simp add: wrap_int_def max_unrolled_nodes_def)
  with assms s show "loop_plan wd s l sp e = (Some ld, e)"
    by (simp add: loop_plan_def Let_def) (simp add: wrap_int_def)
  show "max_unrolled_nodes < em_count e + count_steps (ld_steps (lo_def ld)) * ld_max (lo_def ld)"
    using assms by (simp add: max_unrolled_nodes_def)
qed

definition runaway_loop :: step_def where
  "runaway_loop = StepDef ''c'' [] (Some (LoopDef (2 ^ 62) ''steps.a.ok''
     [use_step ''a'' ''t'', use_step ''b'' ''t'', use_step ''d'' ''t'', use_step ''f'' ''t''] [])) None [] [] [] 0 [] []"

theorem unrolling_ceiling_wraps_witness:
  "\<exists>ld. fst (loop_plan (workflow_of sample_config ''w'') runaway_loop (new_level ''w'' [runaway_loop]) [] no_emission) = Some ld"
proof -
  obtain ld where ld: "map_of (lv_loops (new_level ''w'' [runaway_loop])) (sd_id runaway_loop) = Some ld"
      "lo_def ld = LoopDef (2 ^ 62) ''steps.a.ok''
        [use_step ''a'' ''t'', use_step ''b'' ''t'', use_step ''d'' ''t'', use_step ''f'' ''t''] []"
    by (simp add: new_level_def note_step_def runaway_loop_def Let_def)
  have c: "count_steps (ld_steps (lo_def ld)) = 4" by (simp add: ld(2) use_step_def wrap_int_def)
  show ?thesis
    using unrolling_ceiling_wraps [OF ld(1) _ _ _ c, of no_emission "workflow_of sample_config ''w''" "[]"] ld(2)
    by (simp add: no_emission_def max_unrolled_nodes_def)
qed

end
