(* ===== verification/FrontendRun.thy ===== *)
theory FrontendRun
  imports ConfigSample SampleRun
begin

text \<open>
  From the configuration to the run: what the scheduler guarantees for closed graphs holds for every
  graph the desugarer returns, with a run of a desugared two-step workflow as the witness.
\<close>

definition pair_config :: config where
  "pair_config = sample_config\<lparr>cf_workflows := [(''p'', \<lparr>wf_params = [], wf_sources = [], wf_steps =
     [use_step ''a'' ''t'', StepDef ''b'' ''t'' None None [] [] [''a''] 0 [] []]\<rparr>)]\<rparr>"

definition pair_ir :: ir where
  "pair_ir = (case desugar sample_show pair_config ''p'' of Inr g \<Rightarrow> g | Inl _ \<Rightarrow> sample_ir)"

definition pair_run :: run_params where
  "pair_run = \<lparr>rp_ir = pair_ir, rp_params = [], rp_run = ''run''\<rparr>"

definition pair_setup :: sched where
  "pair_setup = (case run_setup sample_cfg pair_run of Inr s \<Rightarrow> s | Inl _ \<Rightarrow> blank_sched new_graph sample_ir)"

definition pair_start :: sched where
  "pair_start = run_start sample_cfg pair_setup"

definition pair_second :: sched where
  "pair_second = sample_fold ''p/a'' pair_start"

lemma pair_desugars: "desugar sample_show pair_config ''p'' = Inr pair_ir"
proof -
  have "case desugar sample_show pair_config ''p'' of Inr _ \<Rightarrow> True | Inl _ \<Rightarrow> False" by code_simp
  then show ?thesis by (simp add: pair_ir_def split: sum.splits)
qed

lemma pair_setup_ok: "run_setup sample_cfg pair_run = Inr pair_setup"
proof -
  have "case run_setup sample_cfg pair_run of Inr _ \<Rightarrow> True | Inl _ \<Rightarrow> False" by code_simp
  then show ?thesis by (simp add: pair_setup_def split: sum.splits)
qed

lemma pair_lives: "map worker_id (s_workers pair_start) = [''p/a''] \<and> looping pair_start"
  by code_simp

lemma pair_box: "list_all (\<lambda>w. case w of WBox _ \<Rightarrow> True | _ \<Rightarrow> False) (s_workers pair_start)"
  by code_simp

lemma pair_second_runs:
  "map_option xn_life (node_of pair_second ''p/b'') = Some Running \<and> ''p/b'' \<in> set (succs (s_g pair_second) ''p/a'')"
  by code_simp

lemma pair_reachable: "reachable sample_cfg pair_run pair_second"
proof -
  have "reachable sample_cfg pair_run pair_start"
    unfolding pair_start_def by (rule reachable.start [OF pair_setup_ok])
  moreover have "sched_step sample_cfg pair_start pair_second"
    unfolding pair_second_def by (rule sample_deliver [OF pair_lives pair_box])
  ultimately show ?thesis by (rule reachable.more)
qed

text \<open>
  Running what the desugarer returned, generate targets included, no step leaves pending before
  every step it takes data or order from has settled without failing or halting; no hypothesis on the
  graphs is left.
\<close>
theorem desugared_runs_ordered:
  assumes "desugar shw cfg w = Inr (rp_ir r)" and "\<forall>p \<in> set (k_irs k). desugar shw cfg (fst p) = Inr (snd p)"
    and "reachable k r s" and "node_of s i = Some n" and "xn_life n \<noteq> Pending" and "xn_life n \<noteq> Done"
    and "i \<in> set (succs (s_g s) a)"
  shows "\<exists>m. node_of s a = Some m \<and> terminal m \<and> xn_status m \<noteq> StateFailed \<and> xn_status m \<noteq> StateHalted"
proof -
  have "\<forall>p \<in> set (k_irs k). closed_ir (snd p)" using assms(2) by (blast dest: desugared_closed)
  with assms(3) desugared_closed [OF assms(1)] have "good k {} {} s" by (rule reachable_good)
  then have "ginv {} (s_g s)" by (simp add: good_def)
  from ginv_ready [OF this assms(4-7)] show ?thesis by (auto simp: is_done_def stops_def)
qed

theorem desugared_runs_ordered_witness:
  "\<exists>m. node_of pair_second ''p/a'' = Some m \<and> terminal m \<and> xn_status m \<noteq> StateFailed \<and> xn_status m \<noteq> StateHalted"
proof -
  have d: "desugar sample_show pair_config ''p'' = Inr (rp_ir pair_run)" by (simp add: pair_run_def pair_desugars)
  have i: "\<forall>p \<in> set (k_irs sample_cfg). desugar sample_show pair_config (fst p) = Inr (snd p)" by (simp add: sample_cfg_def)
  obtain n where "node_of pair_second ''p/b'' = Some n" "xn_life n = Running" using pair_second_runs by auto
  with desugared_runs_ordered [OF d i pair_reachable, of "''p/b''" n "''p/a''"] show ?thesis
    using pair_second_runs by simp
qed

end
