(* ===== verification/Assembly.thy ===== *)
theory Assembly
  imports TemplateRes
begin

text \<open>
  The assembly of a project file and its includes into one configuration (\<open>config/load.go\<close>): the
  depth-first walk with its cycle and diamond checks, the union of the named libraries with the file
  each key came from, and the rewriting of declared paths against the declaring file. Reading a file,
  decoding YAML and resolving symlinks are parameters. The walk is bounded by a fuel; \<open>None\<close> is the
  fuel running out, which a file system with finitely many readable files never meets.
\<close>

subsection \<open>Paths\<close>

definition path_join :: "string \<Rightarrow> string \<Rightarrow> string" where
  "path_join a b =
     (if a = [] then (if b = [] then [] else path_clean b)
      else if b = [] then path_clean a else path_clean (a @ ''/'' @ b))"

text \<open>\<open>filepath.Dir\<close>: what precedes the last separator, cleaned.\<close>

definition path_dir :: "string \<Rightarrow> string" where
  "path_dir p = path_clean (rev (dropWhile (\<lambda>c. c \<noteq> CHR ''/'') (rev p)))"

definition join_rel :: "string \<Rightarrow> string \<Rightarrow> string" where
  "join_rel dir p = (if p = [] \<or> is_abs p then p else path_join dir p)"

definition resolve_hook_field :: "string \<Rightarrow> string \<Rightarrow> string" where
  "resolve_hook_field dir v = (if is_path v then join_rel dir v else v)"

definition map_vals :: "('a \<Rightarrow> 'b) \<Rightarrow> 'a smap \<Rightarrow> 'b smap" where
  "map_vals f m = map (\<lambda>(k, v). (k, f v)) m"

definition resolve_template_paths :: "string \<Rightarrow> template_def \<Rightarrow> template_def" where
  "resolve_template_paths dir t =
     (let h = td_hooks t in
      t\<lparr>td_build := map_option (\<lambda>b. b\<lparr>bd_overlay := join_rel dir (bd_overlay b)\<rparr>) (td_build t),
        td_skills := (td_skills t)\<lparr>sr_inline :=
          map_option (\<lambda>d. d\<lparr>sk_dir := join_rel dir (sk_dir d)\<rparr>) (sr_inline (td_skills t))\<rparr>,
        td_hooks := \<lparr>hk_context = resolve_hook_field dir (hk_context h),
          hk_prelude = resolve_hook_field dir (hk_prelude h),
          hk_postlude = resolve_hook_field dir (hk_postlude h),
          hk_on_failure = resolve_hook_field dir (hk_on_failure h)\<rparr>\<rparr>)"

definition resolve_paths :: "string \<Rightarrow> config \<Rightarrow> config" where
  "resolve_paths dir c =
     c\<lparr>cf_images := map_vals (\<lambda>im. im\<lparr>im_overlay := join_rel dir (im_overlay im)\<rparr>) (cf_images c),
       cf_skills := map_vals (join_rel dir) (cf_skills c),
       cf_hooks := map_vals (join_rel dir) (cf_hooks c),
       cf_templates := map_vals (resolve_template_paths dir) (cf_templates c),
       cf_identities := map_vals (join_rel dir) (cf_identities c),
       cf_credentials := (cf_credentials c)\<lparr>cd_resolver := join_rel dir (cd_resolver (cf_credentials c))\<rparr>,
       cf_remote := (cf_remote c)\<lparr>rm_host_key_file := join_rel dir (rm_host_key_file (cf_remote c))\<rparr>\<rparr>"

definition has_substrate :: "config \<Rightarrow> bool" where
  "has_substrate c \<longleftrightarrow>
     (let n = cf_network c; r = cf_remote c; cr = cf_credentials c in
      cf_version c \<noteq> 0 \<or>
      (nw_name n \<noteq> [] \<or> nw_proxy n \<noteq> [] \<or> nw_no_proxy n \<noteq> [] \<or> nw_nftables n) \<or>
      (rm_url r \<noteq> [] \<or> rm_host_key_file r \<noteq> [] \<or> rm_tofu r) \<or>
      (cd_resolver cr \<noteq> [] \<or> cd_services cr \<noteq> []) \<or>
      cf_identities c \<noteq> [] \<or> cf_lanes c \<noteq> [])"

subsection \<open>State\<close>

record assembly_violation =
  av_path :: string
  av_msg :: string

record assembler =
  as_result :: config
  as_origin :: "string smap"
  as_seen :: "string list"
  as_viols :: "assembly_violation list"

text \<open>What the walk asks of the operating system and the YAML library. A decoded file is its include
  list and the rest of its configuration.\<close>

record file_system =
  fs_read :: "string \<Rightarrow> string + string"
  fs_yaml :: "string \<Rightarrow> string + (string list \<times> config)"
  fs_links :: "string \<Rightarrow> string option"
  fs_cwd :: "string option"

definition path_abs :: "file_system \<Rightarrow> string \<Rightarrow> string option" where
  "path_abs fs p = (if is_abs p then Some (path_clean p) else map_option (\<lambda>wd. path_join wd p) (fs_cwd fs))"

definition file_identity :: "file_system \<Rightarrow> string \<Rightarrow> string" where
  "file_identity fs p =
     (let q = (case fs_links fs p of None \<Rightarrow> p | Some r \<Rightarrow> r) in
      case path_abs fs q of None \<Rightarrow> path_clean q | Some a \<Rightarrow> path_clean a)"

definition blank_config :: config where
  "blank_config = \<lparr>cf_version = 0,
     cf_network = \<lparr>nw_name = [], nw_proxy = [], nw_no_proxy = [], nw_nftables = False\<rparr>,
     cf_remote = \<lparr>rm_url = [], rm_host_key_file = [], rm_tofu = False\<rparr>,
     cf_credentials = \<lparr>cd_resolver = [], cd_services = []\<rparr>, cf_identities = [], cf_lanes = [],
     cf_images = [], cf_skills = [], cf_hooks = [], cf_invoke_profiles = [], cf_templates = [], cf_workflows = []\<rparr>"

subsection \<open>Merging\<close>

text \<open>One library of a file into the result: the keys in order, one already declared elsewhere is a
  violation and keeps its first value.\<close>

fun merge_keys ::
  "string \<Rightarrow> string \<Rightarrow> 'v smap \<Rightarrow> string list \<Rightarrow> string smap \<times> assembly_violation list \<times> 'v smap
    \<Rightarrow> string smap \<times> assembly_violation list \<times> 'v smap" where
  "merge_keys file lib src [] acc = acc"
| "merge_keys file lib src (k # ks) acc =
     (let origin = fst acc; viols = fst (snd acc); dst = snd (snd acc); key = lib @ ''/'' @ k in
      merge_keys file lib src ks
        (case map_of origin key of
           Some prev \<Rightarrow> (origin, viols @ [\<lparr>av_path = lib @ ''.'' @ k,
             av_msg = ''duplicate library key: defined in both '' @ prev @ '' and '' @ file\<rparr>], dst)
         | None \<Rightarrow> (case map_of src k of None \<Rightarrow> acc | Some v \<Rightarrow> (put key file origin, viols, put k v dst))))"

definition merge_lib ::
  "string \<Rightarrow> string \<Rightarrow> (config \<Rightarrow> 'v smap) \<Rightarrow> ('v smap \<Rightarrow> config \<Rightarrow> config) \<Rightarrow> config \<Rightarrow> assembler \<Rightarrow> assembler" where
  "merge_lib file lib get set_lib src st =
     (let r = merge_keys file lib (get src) (sorted_keys (get src)) (as_origin st, as_viols st, get (as_result st))
      in st\<lparr>as_origin := fst r, as_viols := fst (snd r), as_result := set_lib (snd (snd r)) (as_result st)\<rparr>)"

definition merge_libs :: "string \<Rightarrow> config \<Rightarrow> assembler \<Rightarrow> assembler" where
  "merge_libs file c st =
     merge_lib file ''workflows'' cf_workflows (\<lambda>m r. r\<lparr>cf_workflows := m\<rparr>) c
     (merge_lib file ''templates'' cf_templates (\<lambda>m r. r\<lparr>cf_templates := m\<rparr>) c
     (merge_lib file ''invoke_profiles'' cf_invoke_profiles (\<lambda>m r. r\<lparr>cf_invoke_profiles := m\<rparr>) c
     (merge_lib file ''hooks'' cf_hooks (\<lambda>m r. r\<lparr>cf_hooks := m\<rparr>) c
     (merge_lib file ''skills'' cf_skills (\<lambda>m r. r\<lparr>cf_skills := m\<rparr>) c
     (merge_lib file ''images'' cf_images (\<lambda>m r. r\<lparr>cf_images := m\<rparr>) c st)))))"

text \<open>The substrate of the root file is taken over, that of an included one is a violation.\<close>

definition take_substrate :: "string \<Rightarrow> bool \<Rightarrow> config \<Rightarrow> assembler \<Rightarrow> assembler" where
  "take_substrate file root c st =
     (if root then st\<lparr>as_result := (as_result st)\<lparr>cf_version := cf_version c, cf_network := cf_network c,
          cf_remote := cf_remote c, cf_credentials := cf_credentials c, cf_identities := cf_identities c\<rparr>\<rparr>
      else if has_substrate c then st\<lparr>as_viols := as_viols st @ [\<lparr>av_path = file,
          av_msg = ''included files may only contribute libraries (substrate keys are honored only in the root project file)''\<rparr>]\<rparr>
      else st)"

definition merge_file :: "string \<Rightarrow> bool \<Rightarrow> config \<Rightarrow> assembler \<Rightarrow> assembler" where
  "merge_file file root c st =
     (let c' = (if root then c else resolve_paths (path_dir file) c)
      in merge_libs file c' (take_substrate file root c' st))"

subsection \<open>The walk\<close>

function assemble_file ::
    "nat \<Rightarrow> file_system \<Rightarrow> string \<Rightarrow> bool \<Rightarrow> string list \<Rightarrow> assembler \<Rightarrow> (string + assembler) option"
  and assemble_includes ::
    "nat \<Rightarrow> file_system \<Rightarrow> string \<Rightarrow> string list \<Rightarrow> string list \<Rightarrow> assembler \<Rightarrow> (string + assembler) option"
where
  "assemble_file f fs path root stack st =
     (let i = file_identity fs path in
      if \<exists>s \<in> set stack. file_identity fs s = i
      then Some (Inl (''config: include cycle: '' @ join '' -> '' (stack @ [path])))
      else if i \<in> set (as_seen st) then Some (Inr st)
      else case fs_read fs path of
        Inl e \<Rightarrow> Some (Inl (''config: read '' @ path @ '': '' @ e))
      | Inr text \<Rightarrow>
          (case fs_yaml fs text of
             Inl e \<Rightarrow> Some (Inl (''config: parse '' @ path @ '': '' @ e))
           | Inr file \<Rightarrow>
               (case f of
                  0 \<Rightarrow> None
                | Suc f' \<Rightarrow> assemble_includes f' fs (path_dir path) (fst file) (stack @ [path])
                    (merge_file path root (snd file) (st\<lparr>as_seen := i # as_seen st\<rparr>)))))"
| "assemble_includes f fs dir [] stack st = Some (Inr st)"
| "assemble_includes f fs dir (inc # incs) stack st =
     (case assemble_file f fs (join_rel dir inc) False stack st of
        None \<Rightarrow> None
      | Some (Inl e) \<Rightarrow> Some (Inl e)
      | Some (Inr st') \<Rightarrow> assemble_includes f fs dir incs stack st')"
  by pat_completeness auto
termination
  by (relation "inv_image (less_than <*lex*> less_than <*lex*> less_than) (\<lambda>x. case x of
      Inl (f, fs, path, root, stack, st) \<Rightarrow> (f, 0, 0)
    | Inr (f, fs, dir, incs, stack, st) \<Rightarrow> (f, 1, length incs))") auto

declare assemble_file.simps [simp del]

definition blank_assembler :: assembler where
  "blank_assembler = \<lparr>as_result = blank_config, as_origin = [], as_seen = [], as_viols = []\<rparr>"

definition assemble ::
  "nat \<Rightarrow> file_system \<Rightarrow> string \<Rightarrow> (string + config \<times> assembly_violation list) option" where
  "assemble f fs path =
     map_option (map_sum id (\<lambda>st. (as_result st, as_viols st))) (assemble_file f fs path True [] blank_assembler)"

end
