(* ===== verification/AssemblyInv.thy ===== *)
theory AssemblyInv
  imports Assembly
begin

text \<open>
  What an assembly does: it ends on a finite file system, it keeps the first declaration of every
  library key and loses none when it reports no violation, and it takes no lanes over.
\<close>

subsection \<open>Termination\<close>

text \<open>The files that can be read and decoded, by identity.\<close>

definition readable :: "file_system \<Rightarrow> string set" where
  "readable fs = {file_identity fs p | p. \<exists>content file. fs_read fs p = Inr content \<and> fs_yaml fs content = Inr file}"

definition seen_grows :: "assembler \<Rightarrow> assembler \<Rightarrow> bool" where
  "seen_grows a b \<longleftrightarrow> set (as_seen a) \<subseteq> set (as_seen b)"

lemma merge_keeps_seen [simp]:
  "as_seen (merge_lib file lib get set_lib c st) = as_seen st"
  "as_seen (merge_libs file c st) = as_seen st" "as_seen (take_substrate file root c st) = as_seen st"
  "as_seen (merge_file file root c st) = as_seen st"
  by (simp_all add: merge_lib_def merge_libs_def take_substrate_def merge_file_def Let_def)

text \<open>The two ways a file can go through: it was merged before, or it is merged with its includes.\<close>

lemma assembled_file_cases:
  assumes "assemble_file f fs path root stack st = Some (Inr t)"
  obtains (seen) "file_identity fs path \<in> set (as_seen st)" "t = st"
  | (merged) content incs c f' where "\<not> (\<exists>s \<in> set stack. file_identity fs s = file_identity fs path)"
      "file_identity fs path \<notin> set (as_seen st)" "fs_read fs path = Inr content" "fs_yaml fs content = Inr (incs, c)"
      "f = Suc f'" "assemble_includes f' fs (path_dir path) incs (stack @ [path])
         (merge_file path root c (st\<lparr>as_seen := file_identity fs path # as_seen st\<rparr>)) = Some (Inr t)"
proof (cases "file_identity fs path \<in> set (as_seen st)")
  case True
  with assms seen show ?thesis by (auto simp: assemble_file.simps [of f] Let_def split: if_splits)
next
  case False
  with assms merged show ?thesis
    by (auto simp: assemble_file.simps [of f] Let_def split: if_splits sum.splits nat.splits)
qed

lemma assembled_include_cases:
  assumes "assemble_includes f fs dir (inc # incs) stack st = Some (Inr t)"
  obtains u where "assemble_file f fs (join_rel dir inc) False stack st = Some (Inr u)"
    "assemble_includes f fs dir incs stack u = Some (Inr t)"
  using assms by (auto split: option.splits sum.splits)

text \<open>Whatever every merge of a file keeps, a whole assembly keeps.\<close>

lemma assembly_keeps:
  assumes refl: "\<And>s. P s s" and trans: "\<And>a b c. P a b \<Longrightarrow> P b c \<Longrightarrow> P a c"
    and merge: "\<And>path root c s i. P s (merge_file path root c (s\<lparr>as_seen := i # as_seen s\<rparr>))"
  shows "assemble_file f fs path root stack st = Some (Inr t) \<Longrightarrow> P st t"
    and "assemble_includes f fs dir incs stack st = Some (Inr t) \<Longrightarrow> P st t"
proof (induction f fs path root stack st and f fs dir incs stack st arbitrary: t and t
    rule: assemble_file_assemble_includes.induct)
  case (1 f fs path root stack st)
  from 1(2) show ?case
  proof (cases rule: assembled_file_cases)
    case seen
    then show ?thesis using refl by simp
  next
    case (merged content incs c f')
    have "P (merge_file path root c (st\<lparr>as_seen := file_identity fs path # as_seen st\<rparr>)) t"
      using 1(1) [OF HOL.refl merged(1,2,3,4,5)] merged(6) by simp
    with merge show ?thesis by (rule trans)
  qed
next
  case (2 f fs dir stack st)
  then show ?case using refl by simp
next
  case (3 f fs dir inc incs stack st)
  from 3(3) obtain u where u: "assemble_file f fs (join_rel dir inc) False stack st = Some (Inr u)"
      "assemble_includes f fs dir incs stack u = Some (Inr t)"
    by (rule assembled_include_cases)
  from 3(1) [OF u(1)] 3(2) [OF u(1) HOL.refl u(2)] show ?case by (rule trans)
qed

lemma assemble_seen:
  "assemble_file f fs path root stack st = Some (Inr t) \<Longrightarrow> seen_grows st t"
  by (rule assembly_keeps(1) [where P = seen_grows]) (auto simp: seen_grows_def)

lemma card_left_mono:
  "finite U \<Longrightarrow> seen_grows a b \<Longrightarrow> card (U - set (as_seen b)) \<le> card (U - set (as_seen a))"
  by (auto simp: seen_grows_def intro!: card_mono)

lemma assembly_ends:
  assumes "finite (readable fs)"
  shows "card (readable fs - set (as_seen st)) \<le> f \<Longrightarrow> \<exists>r. assemble_file f fs path root stack st = Some r"
    and "card (readable fs - set (as_seen st)) \<le> f \<Longrightarrow> \<exists>r. assemble_includes f fs dir incs stack st = Some r"
  using assms
proof (induction f fs path root stack st and f fs dir incs stack st rule: assemble_file_assemble_includes.induct)
  case (1 f fs path root stack st)
  let ?i = "file_identity fs path"
  show ?case
  proof (cases "\<exists>content fl. \<not> (\<exists>s \<in> set stack. file_identity fs s = ?i) \<and> ?i \<notin> set (as_seen st) \<and>
      fs_read fs path = Inr content \<and> fs_yaml fs content = Inr fl")
    case False
    then show ?thesis by (auto simp: assemble_file.simps [of f] Let_def split: sum.splits)
  next
    case True
    then obtain content fl where r: "\<not> (\<exists>s \<in> set stack. file_identity fs s = ?i)" "?i \<notin> set (as_seen st)"
        "fs_read fs path = Inr content" "fs_yaml fs content = Inr fl" by blast
    then have i: "?i \<in> readable fs - set (as_seen st)" by (auto simp: readable_def)
    then have c: "card (readable fs - set (?i # as_seen st)) < card (readable fs - set (as_seen st))"
      using 1(3) by (intro psubset_card_mono) auto
    with 1(2) obtain f' where f: "f = Suc f'" by (cases f) auto
    have "\<exists>r. assemble_includes f' fs (path_dir path) (fst fl) (stack @ [path])
        (merge_file path root (snd fl) (st\<lparr>as_seen := ?i # as_seen st\<rparr>)) = Some r"
      using 1(1) [OF refl r f] 1(2,3) c f by simp
    with r f show ?thesis by (simp add: assemble_file.simps [of "Suc f'"] Let_def)
  qed
next
  case (2 f fs dir stack st)
  then show ?case by simp
next
  case (3 f fs dir inc incs stack st)
  obtain r where r: "assemble_file f fs (join_rel dir inc) False stack st = Some r"
    using 3(1) [OF 3(3,4)] by blast
  show ?case
  proof (cases r)
    case (Inl e)
    with r show ?thesis by simp
  next
    case (Inr u)
    have "seen_grows st u" using r Inr assemble_seen by simp
    then have "card (readable fs - set (as_seen u)) \<le> f" using card_left_mono [OF 3(4)] 3(3) by (meson le_trans)
    then show ?thesis using 3(2) [OF r Inr _ 3(4)] r Inr by simp
  qed
qed

subsection \<open>Lanes\<close>

lemma merge_keeps_lanes:
  "(\<And>m r. cf_lanes (set_lib m r) = cf_lanes r) \<Longrightarrow>
     cf_lanes (as_result (merge_lib file lib get set_lib c st)) = cf_lanes (as_result st)"
  by (simp add: merge_lib_def Let_def)

lemma merge_file_lanes: "cf_lanes (as_result (merge_file file root c st)) = cf_lanes (as_result st)"
  by (simp add: merge_file_def Let_def merge_libs_def merge_keeps_lanes take_substrate_def)

lemma assemble_lanes:
  "assemble_file f fs path root stack st = Some (Inr t) \<Longrightarrow> cf_lanes (as_result t) = cf_lanes (as_result st)"
  by (rule assembly_keeps(1) [where P = "\<lambda>a b. cf_lanes (as_result b) = cf_lanes (as_result a)"])
    (auto simp: merge_file_lanes)

subsection \<open>Libraries\<close>

definition keeps_libraries :: "config \<Rightarrow> config \<Rightarrow> bool" where
  "keeps_libraries a b \<longleftrightarrow>
     map_of (cf_images a) \<subseteq>\<^sub>m map_of (cf_images b) \<and> map_of (cf_skills a) \<subseteq>\<^sub>m map_of (cf_skills b) \<and>
     map_of (cf_hooks a) \<subseteq>\<^sub>m map_of (cf_hooks b) \<and>
     map_of (cf_invoke_profiles a) \<subseteq>\<^sub>m map_of (cf_invoke_profiles b) \<and>
     map_of (cf_templates a) \<subseteq>\<^sub>m map_of (cf_templates b) \<and> map_of (cf_workflows a) \<subseteq>\<^sub>m map_of (cf_workflows b)"

text \<open>Every library key of the result is accounted for by an origin.\<close>

definition tracked :: "string \<Rightarrow> string smap \<Rightarrow> 'v smap \<Rightarrow> bool" where
  "tracked lib origin m \<longleftrightarrow> (\<forall>k. map_of m k \<noteq> None \<longrightarrow> map_of origin (lib @ ''/'' @ k) \<noteq> None)"

definition origins_ok :: "assembler \<Rightarrow> bool" where
  "origins_ok st \<longleftrightarrow>
     tracked ''images'' (as_origin st) (cf_images (as_result st)) \<and>
     tracked ''skills'' (as_origin st) (cf_skills (as_result st)) \<and>
     tracked ''hooks'' (as_origin st) (cf_hooks (as_result st)) \<and>
     tracked ''invoke_profiles'' (as_origin st) (cf_invoke_profiles (as_result st)) \<and>
     tracked ''templates'' (as_origin st) (cf_templates (as_result st)) \<and>
     tracked ''workflows'' (as_origin st) (cf_workflows (as_result st))"

lemma merge_keys_ok:
  assumes "merge_keys file lib src ks (o1, v1, d1) = (o2, v2, d2)" and "tracked lib o1 d1"
  shows "tracked lib o2 d2 \<and> map_of o1 \<subseteq>\<^sub>m map_of o2 \<and> map_of d1 \<subseteq>\<^sub>m map_of d2 \<and> (\<exists>vs. v2 = v1 @ vs) \<and>
    (v2 = v1 \<longrightarrow> (\<forall>k \<in> set ks. \<forall>v. map_of src k = Some v \<longrightarrow> map_of d2 k = Some v))"
  using assms
proof (induction ks arbitrary: o1 v1 d1)
  case (Cons k ks)
  show ?case
  proof (cases "map_of o1 (lib @ ''/'' @ k)")
    case (Some prev)
    with Cons.prems Cons.IH show ?thesis by (force simp: Let_def)
  next
    case None
    note no = None
    show ?thesis
    proof (cases "map_of src k")
      case None
      with no Cons.prems Cons.IH show ?thesis by (auto simp: Let_def)
    next
      case (Some v)
      let ?o = "put (lib @ ''/'' @ k) file o1" and ?d = "put k v d1"
      have m: "merge_keys file lib src ks (?o, v1, ?d) = (o2, v2, d2)" using Cons.prems(1) no Some by (simp add: Let_def)
      have "map_of d1 k = None" using Cons.prems(2) no by (auto simp: tracked_def)
      then have d: "map_of d1 \<subseteq>\<^sub>m map_of ?d" by (auto simp: map_le_def)
      have o: "map_of o1 \<subseteq>\<^sub>m map_of ?o" using no by (auto simp: map_le_def)
      have "tracked lib ?o ?d" using Cons.prems(2) by (auto simp: tracked_def)
      from Cons.IH [OF m this] have ih: "tracked lib o2 d2" "map_of ?o \<subseteq>\<^sub>m map_of o2" "map_of ?d \<subseteq>\<^sub>m map_of d2"
          "\<exists>vs. v2 = v1 @ vs" "v2 = v1 \<longrightarrow> (\<forall>k \<in> set ks. \<forall>v. map_of src k = Some v \<longrightarrow> map_of d2 k = Some v)" by blast+
      have "map_of d2 k = Some v" using ih(3) by (auto simp: map_le_def dest: bspec [of _ _ k])
      moreover have "map_of o1 \<subseteq>\<^sub>m map_of o2" by (rule map_le_trans [OF o ih(2)])
      moreover have "map_of d1 \<subseteq>\<^sub>m map_of d2" by (rule map_le_trans [OF d ih(3)])
      ultimately show ?thesis using ih(1,4,5) Some by auto
    qed
  qed
qed simp


text \<open>One library of a file, then the six of them.\<close>

lemma merge_lib_ok:
  assumes "t = merge_lib file lib get set_lib c s" and "tracked lib (as_origin s) (get (as_result s))"
    and "\<And>m r. get (set_lib m r) = m"
  shows "tracked lib (as_origin t) (get (as_result t))"
    and "map_of (as_origin s) \<subseteq>\<^sub>m map_of (as_origin t)"
    and "map_of (get (as_result s)) \<subseteq>\<^sub>m map_of (get (as_result t))"
    and "\<exists>vs. as_viols t = as_viols s @ vs"
    and "as_viols t = as_viols s \<Longrightarrow> map_of (get c) \<subseteq>\<^sub>m map_of (get (as_result t))"
proof -
  obtain o2 v2 d2 where m: "merge_keys file lib (get c) (sorted_keys (get c)) (as_origin s, as_viols s, get (as_result s)) = (o2, v2, d2)"
    by (metis prod.collapse)
  have t: "as_origin t = o2" "as_viols t = v2" "get (as_result t) = d2"
    using assms(1,3) m by (simp_all add: merge_lib_def Let_def)
  note k = merge_keys_ok [OF m assms(2)]
  show "tracked lib (as_origin t) (get (as_result t))" "map_of (as_origin s) \<subseteq>\<^sub>m map_of (as_origin t)"
    "map_of (get (as_result s)) \<subseteq>\<^sub>m map_of (get (as_result t))" "\<exists>vs. as_viols t = as_viols s @ vs"
    unfolding t using k by blast+
  show "map_of (get c) \<subseteq>\<^sub>m map_of (get (as_result t))" if "as_viols t = as_viols s"
    unfolding t map_le_def
  proof
    fix a assume "a \<in> dom (map_of (get c))"
    then obtain v where "map_of (get c) a = Some v" by blast
    moreover from this have "a \<in> set (sorted_keys (get c))" unfolding sorted_keys_dom by blast
    ultimately show "map_of (get c) a = map_of d2 a" using k that t by auto
  qed
qed

lemma tracked_mono: "tracked lib o1 m \<Longrightarrow> map_of o1 \<subseteq>\<^sub>m map_of o2 \<Longrightarrow> tracked lib o2 m"
  using map_le_implies_dom_le unfolding tracked_def by blast

lemma merge_lib_others [simp]:
  "(\<And>m r. cf_images (sl m r) = cf_images r) \<Longrightarrow> cf_images (as_result (merge_lib f l g sl c s)) = cf_images (as_result s)"
  "(\<And>m r. cf_skills (sl m r) = cf_skills r) \<Longrightarrow> cf_skills (as_result (merge_lib f l g sl c s)) = cf_skills (as_result s)"
  "(\<And>m r. cf_hooks (sl m r) = cf_hooks r) \<Longrightarrow> cf_hooks (as_result (merge_lib f l g sl c s)) = cf_hooks (as_result s)"
  "(\<And>m r. cf_invoke_profiles (sl m r) = cf_invoke_profiles r) \<Longrightarrow>
     cf_invoke_profiles (as_result (merge_lib f l g sl c s)) = cf_invoke_profiles (as_result s)"
  "(\<And>m r. cf_templates (sl m r) = cf_templates r) \<Longrightarrow> cf_templates (as_result (merge_lib f l g sl c s)) = cf_templates (as_result s)"
  "(\<And>m r. cf_workflows (sl m r) = cf_workflows r) \<Longrightarrow> cf_workflows (as_result (merge_lib f l g sl c s)) = cf_workflows (as_result s)"
  by (simp_all add: merge_lib_def Let_def)

text \<open>What merging keeps, and what it promises when it reports nothing.\<close>

definition merged_ok :: "config \<Rightarrow> assembler \<Rightarrow> assembler \<Rightarrow> bool" where
  "merged_ok c s t \<longleftrightarrow> origins_ok t \<and> keeps_libraries (as_result s) (as_result t) \<and>
     (\<exists>vs. as_viols t = as_viols s @ vs) \<and> (as_viols t = as_viols s \<longrightarrow> keeps_libraries c (as_result t))"

lemma merge_libs_ok:
  assumes "origins_ok s"
  shows "merged_ok c s (merge_libs file c s)"
proof -
  define s1 where "s1 = merge_lib file ''images'' cf_images (\<lambda>m r. r\<lparr>cf_images := m\<rparr>) c s"
  define s2 where "s2 = merge_lib file ''skills'' cf_skills (\<lambda>m r. r\<lparr>cf_skills := m\<rparr>) c s1"
  define s3 where "s3 = merge_lib file ''hooks'' cf_hooks (\<lambda>m r. r\<lparr>cf_hooks := m\<rparr>) c s2"
  define s4 where "s4 = merge_lib file ''invoke_profiles'' cf_invoke_profiles (\<lambda>m r. r\<lparr>cf_invoke_profiles := m\<rparr>) c s3"
  define s5 where "s5 = merge_lib file ''templates'' cf_templates (\<lambda>m r. r\<lparr>cf_templates := m\<rparr>) c s4"
  define s6 where "s6 = merge_lib file ''workflows'' cf_workflows (\<lambda>m r. r\<lparr>cf_workflows := m\<rparr>) c s5"
  have t: "merge_libs file c s = s6" by (simp add: merge_libs_def s1_def s2_def s3_def s4_def s5_def s6_def)
  note o = assms [unfolded origins_ok_def]
  note m1 = merge_lib_ok [OF s1_def]
  have a1: "tracked ''images'' (as_origin s) (cf_images (as_result s))" using o by simp
  note m1 = merge_lib_ok [OF s1_def a1, simplified]
  have a2: "tracked ''skills'' (as_origin s1) (cf_skills (as_result s1))"
    by (intro tracked_mono [OF _ m1(2)]) (simp add: o s1_def)
  note m2 = merge_lib_ok [OF s2_def a2, simplified]
  note l2 = map_le_trans [OF m1(2) m2(2)]
  have a3: "tracked ''hooks'' (as_origin s2) (cf_hooks (as_result s2))"
    by (intro tracked_mono [OF _ l2]) (simp add: o s1_def s2_def)
  note m3 = merge_lib_ok [OF s3_def a3, simplified]
  note l3 = map_le_trans [OF l2 m3(2)]
  have a4: "tracked ''invoke_profiles'' (as_origin s3) (cf_invoke_profiles (as_result s3))"
    by (intro tracked_mono [OF _ l3]) (simp add: o s1_def s2_def s3_def)
  note m4 = merge_lib_ok [OF s4_def a4, simplified]
  note l4 = map_le_trans [OF l3 m4(2)]
  have a5: "tracked ''templates'' (as_origin s4) (cf_templates (as_result s4))"
    by (intro tracked_mono [OF _ l4]) (simp add: o s1_def s2_def s3_def s4_def)
  note m5 = merge_lib_ok [OF s5_def a5, simplified]
  note l5 = map_le_trans [OF l4 m5(2)]
  have a6: "tracked ''workflows'' (as_origin s5) (cf_workflows (as_result s5))"
    by (intro tracked_mono [OF _ l5]) (simp add: o s1_def s2_def s3_def s4_def s5_def)
  note m6 = merge_lib_ok [OF s6_def a6, simplified]
  have e: "cf_images (as_result s6) = cf_images (as_result s1)" "cf_skills (as_result s6) = cf_skills (as_result s2)"
    "cf_hooks (as_result s6) = cf_hooks (as_result s3)" "cf_invoke_profiles (as_result s6) = cf_invoke_profiles (as_result s4)"
    "cf_templates (as_result s6) = cf_templates (as_result s5)"
    by (simp_all add: s2_def s3_def s4_def s5_def s6_def)
  have e': "cf_skills (as_result s1) = cf_skills (as_result s)" "cf_hooks (as_result s2) = cf_hooks (as_result s)"
    "cf_invoke_profiles (as_result s3) = cf_invoke_profiles (as_result s)"
    "cf_templates (as_result s4) = cf_templates (as_result s)" "cf_workflows (as_result s5) = cf_workflows (as_result s)"
    by (simp_all add: s1_def s2_def s3_def s4_def s5_def)
  note t6 = m6(2)
  note t5 = map_le_trans [OF m5(2) t6]
  note t4 = map_le_trans [OF m4(2) t5]
  note t3 = map_le_trans [OF m3(2) t4]
  note t2 = map_le_trans [OF m2(2) t3]
  have "origins_ok s6"
    unfolding origins_ok_def e
    using tracked_mono [OF m1(1) t2] tracked_mono [OF m2(1) t3] tracked_mono [OF m3(1) t4]
      tracked_mono [OF m4(1) t5] tracked_mono [OF m5(1) t6] m6(1) by simp
  moreover have "keeps_libraries (as_result s) (as_result s6)"
    unfolding keeps_libraries_def e using m1(3) m2(3) m3(3) m4(3) m5(3) m6(3) unfolding e' by simp
  moreover have v: "\<exists>v1 v2 v3 v4 v5 v6. as_viols s1 = as_viols s @ v1 \<and> as_viols s2 = as_viols s1 @ v2 \<and>
      as_viols s3 = as_viols s2 @ v3 \<and> as_viols s4 = as_viols s3 @ v4 \<and> as_viols s5 = as_viols s4 @ v5 \<and>
      as_viols s6 = as_viols s5 @ v6"
    using m1(4) m2(4) m3(4) m4(4) m5(4) m6(4) by simp
  moreover have "keeps_libraries c (as_result s6)" if "as_viols s6 = as_viols s"
  proof -
    obtain v1 v2 v3 v4 v5 v6 where w: "as_viols s1 = as_viols s @ v1" "as_viols s2 = as_viols s1 @ v2"
        "as_viols s3 = as_viols s2 @ v3" "as_viols s4 = as_viols s3 @ v4" "as_viols s5 = as_viols s4 @ v5"
        "as_viols s6 = as_viols s5 @ v6" using v by blast
    have "v1 @ v2 @ v3 @ v4 @ v5 @ v6 = []" using that unfolding w append_assoc by (simp only: append_self_conv)
    then have "as_viols s1 = as_viols s" "as_viols s2 = as_viols s1" "as_viols s3 = as_viols s2"
      "as_viols s4 = as_viols s3" "as_viols s5 = as_viols s4" "as_viols s6 = as_viols s5"
      by (simp_all add: w)
    then show ?thesis unfolding keeps_libraries_def e using m1(5) m2(5) m3(5) m4(5) m5(5) m6(5) by simp
  qed
  moreover have "\<exists>vs. as_viols s6 = as_viols s @ vs" using v append_assoc by metis
  ultimately show ?thesis unfolding merged_ok_def t by blast
qed

lemma keeps_refl [simp]: "keeps_libraries a a"
  by (simp add: keeps_libraries_def)

lemma keeps_trans: "keeps_libraries a b \<Longrightarrow> keeps_libraries b c \<Longrightarrow> keeps_libraries a c"
  by (auto simp: keeps_libraries_def intro: map_le_trans)

lemma take_substrate_ok:
  assumes "origins_ok s"
  shows "origins_ok (take_substrate file root c s) \<and> (\<exists>vs. as_viols (take_substrate file root c s) = as_viols s @ vs) \<and>
    keeps_libraries (as_result s) (as_result (take_substrate file root c s)) \<and>
    keeps_libraries (as_result (take_substrate file root c s)) (as_result s)"
  using assms by (simp add: take_substrate_def origins_ok_def keeps_libraries_def)

lemma merge_file_ok:
  assumes "origins_ok s"
  shows "merged_ok (if root then c else resolve_paths (path_dir p) c) s (merge_file p root c s)"
proof -
  let ?c = "if root then c else resolve_paths (path_dir p) c"
  let ?u = "take_substrate p root ?c s"
  note u = take_substrate_ok [OF assms, of p root ?c]
  have m: "merged_ok ?c ?u (merge_libs p ?c ?u)" using u by (intro merge_libs_ok) blast
  have "keeps_libraries (as_result s) (as_result (merge_libs p ?c ?u))"
    using m u keeps_trans unfolding merged_ok_def by blast
  moreover have "\<exists>vs ws. as_viols ?u = as_viols s @ vs \<and> as_viols (merge_libs p ?c ?u) = as_viols ?u @ ws"
    using m u unfolding merged_ok_def by blast
  ultimately show ?thesis using m unfolding merged_ok_def merge_file_def Let_def by auto
qed

text \<open>The whole walk.\<close>

lemma origins_seen [simp]: "origins_ok (s\<lparr>as_seen := x\<rparr>) = origins_ok s"
  by (simp add: origins_ok_def)

definition walk_ok :: "assembler \<Rightarrow> assembler \<Rightarrow> bool" where
  "walk_ok s t \<longleftrightarrow> origins_ok s \<longrightarrow> origins_ok t \<and> keeps_libraries (as_result s) (as_result t) \<and>
     (\<exists>vs. as_viols t = as_viols s @ vs)"

lemma walk_ok_trans: "walk_ok a b \<Longrightarrow> walk_ok b c \<Longrightarrow> walk_ok a c"
  unfolding walk_ok_def using keeps_trans by (metis append_assoc)

lemma merge_walk_ok: "walk_ok s (merge_file p root c (s\<lparr>as_seen := i # as_seen s\<rparr>))"
  using merge_file_ok [of "s\<lparr>as_seen := i # as_seen s\<rparr>" root c p] by (auto simp: walk_ok_def merged_ok_def)

lemma walk_ok_refl: "walk_ok s s"
  by (simp add: walk_ok_def)

lemma assembled_walk_ok:
  "assemble_file f fs path root stack st = Some (Inr t) \<Longrightarrow> walk_ok st t"
  "assemble_includes f fs dir incs stack st = Some (Inr t) \<Longrightarrow> walk_ok st t"
  by (rule assembly_keeps [where P = walk_ok], rule walk_ok_refl, erule (1) walk_ok_trans, rule merge_walk_ok, assumption)+

lemma assembled_from:
  assumes "assemble f fs path = Some (Inr (cfg, viols))"
  obtains st where "assemble_file f fs path True [] blank_assembler = Some (Inr st)" "cfg = as_result st" "viols = as_viols st"
proof (cases "assemble_file f fs path True [] blank_assembler")
  case (Some r)
  with assms that show ?thesis by (cases r) (auto simp: assemble_def)
qed (use assms in \<open>simp add: assemble_def\<close>)

lemma merged_file_kept:
  assumes "assemble_file f fs path root stack st = Some (Inr t)" and "origins_ok st"
    and "file_identity fs path \<notin> set (as_seen st)" and "fs_read fs path = Inr content"
    and "fs_yaml fs content = Inr (incs, c)" and "as_viols t = as_viols st"
  shows "keeps_libraries (if root then c else resolve_paths (path_dir path) c) (as_result t)"
  using assms(1)
proof (cases rule: assembled_file_cases)
  case seen
  with assms(3) show ?thesis by simp
next
  case (merged content' incs' c' f')
  let ?s = "st\<lparr>as_seen := file_identity fs path # as_seen st\<rparr>"
  let ?u = "merge_file path root c ?s"
  have c: "incs' = incs" "c' = c" using merged assms(4,5) by simp_all
  have m: "merged_ok (if root then c else resolve_paths (path_dir path) c) ?s ?u"
    by (rule merge_file_ok) (simp add: assms(2))
  have w: "walk_ok ?u t" using assembled_walk_ok(2) merged(6) unfolding c by blast
  have k: "keeps_libraries (as_result ?u) (as_result t)" using w m by (simp add: walk_ok_def merged_ok_def)
  obtain vs ws where "as_viols t = as_viols ?u @ vs" "as_viols ?u = as_viols ?s @ ws"
    using w m unfolding walk_ok_def merged_ok_def by blast
  with assms(6) have "as_viols ?u = as_viols ?s" by simp
  with m have "keeps_libraries (if root then c else resolve_paths (path_dir path) c) (as_result ?u)"
    unfolding merged_ok_def by blast
  then show ?thesis by (rule keeps_trans [OF _ k])
qed

end
