(* ===== verification/AssemblyProps.thy ===== *)
theory AssemblyProps
  imports AssemblyInv
begin

text \<open>Properties of the assembly of a project from its files, on a project of a root file and a library.\<close>

definition sample_root :: config where
  "sample_root = blank_config\<lparr>cf_version := 1, cf_lanes := [(''gpu'', 1)], cf_skills := [(''s'', ''skills/s'')]\<rparr>"

definition sample_lib :: config where
  "sample_lib = blank_config\<lparr>cf_hooks := [(''h'', ''./h.sh'')]\<rparr>"

definition sample_fs :: file_system where
  "sample_fs = \<lparr>fs_read = (\<lambda>p. if p = ''f.yaml'' then Inr ''root'' else if p = ''lib/l.yaml'' then Inr ''lib''
       else Inl ''no such file''),
     fs_yaml = (\<lambda>c. if c = ''root'' then Inr ([''lib/l.yaml''], sample_root) else Inr ([], sample_lib)),
     fs_links = (\<lambda>p. None), fs_cwd = Some ''/work''\<rparr>"

lemma sample_assembles:
  "case assemble 2 sample_fs ''f.yaml'' of Some (Inr (cfg, [])) \<Rightarrow>
       cf_version cfg = 1 \<and> cf_skills cfg = [(''s'', ''skills/s'')] \<and> cf_hooks cfg = [(''h'', ''lib/h.sh'')]
   | _ \<Rightarrow> False"
  by code_simp

text \<open>
  C21. Assembling a project drops its lanes: whatever files are read, and although the root file is the
  only one allowed to declare them, the assembled configuration has none.
\<close>
theorem assembled_lanes_lost:
  assumes "assemble f fs path = Some (Inr (cfg, viols))"
  shows "cf_lanes cfg = []"
  using assms
proof (rule assembled_from)
  fix st assume "assemble_file f fs path True [] blank_assembler = Some (Inr st)" "cfg = as_result st"
  then show ?thesis using assemble_lanes by (simp add: blank_assembler_def blank_config_def)
qed

theorem assembled_lanes_lost_witness:
  "cf_lanes sample_root \<noteq> [] \<and> (\<exists>cfg. assemble 2 sample_fs ''f.yaml'' = Some (Inr (cfg, [])) \<and> cf_lanes cfg = [])"
proof -
  obtain cfg where c: "assemble 2 sample_fs ''f.yaml'' = Some (Inr (cfg, []))"
    using sample_assembles by (auto split: option.splits sum.splits prod.splits list.splits)
  with assembled_lanes_lost [OF c] show ?thesis by (auto simp: sample_root_def)
qed

text \<open>
  C22. Assembly ends: with finitely many readable files, as many nested includes as there are files are
  enough for a result, a configuration or an error.
\<close>
theorem assembly_terminates:
  assumes "finite (readable fs)" and "card (readable fs) \<le> f"
  shows "\<exists>r. assemble f fs path = Some r"
proof -
  have "\<exists>r. assemble_file f fs path True [] blank_assembler = Some r"
    by (rule assembly_ends(1)) (use assms in \<open>simp_all add: blank_assembler_def\<close>)
  then show ?thesis by (auto simp: assemble_def)
qed

theorem assembly_terminates_witness: "\<exists>r. assemble 2 sample_fs ''lib/l.yaml'' = Some r"
proof -
  have i: "file_identity sample_fs ''f.yaml'' = ''/work/f.yaml''" "file_identity sample_fs ''lib/l.yaml'' = ''/work/lib/l.yaml''"
    by code_simp+
  have "readable sample_fs \<subseteq> {''/work/f.yaml'', ''/work/lib/l.yaml''}"
  proof
    fix x assume "x \<in> readable sample_fs"
    then obtain p c where p: "x = file_identity sample_fs p" "fs_read sample_fs p = Inr c" by (auto simp: readable_def)
    then have "p = ''f.yaml'' \<or> p = ''lib/l.yaml''" by (auto simp: sample_fs_def split: if_splits)
    with p(1) i show "x \<in> {''/work/f.yaml'', ''/work/lib/l.yaml''}" by auto
  qed
  note sub = this
  have "finite (readable sample_fs)" by (rule finite_subset [OF sub]) simp
  moreover have "card (readable sample_fs) \<le> 2" using card_mono [OF _ sub] by simp
  ultimately show ?thesis by (rule assembly_terminates)
qed

text \<open>
  C23. The union of the libraries loses nothing in silence: merging a file and all it includes keeps
  every library entry there was, and when it reports no violation, every entry the file declares is
  in the result as declared, its paths resolved against the file's directory unless it is the root.
\<close>
theorem merged_files_lose_nothing:
  assumes "assemble_file f fs path root stack st = Some (Inr t)" and "origins_ok st"
    and "file_identity fs path \<notin> set (as_seen st)" and "fs_read fs path = Inr content"
    and "fs_yaml fs content = Inr (incs, c)"
  shows "keeps_libraries (as_result st) (as_result t) \<and> (\<exists>vs. as_viols t = as_viols st @ vs \<and>
    (vs = [] \<longrightarrow> keeps_libraries (if root then c else resolve_paths (path_dir path) c) (as_result t)))"
proof -
  have "keeps_libraries (as_result st) (as_result t)" "\<exists>vs. as_viols t = as_viols st @ vs"
    using assembled_walk_ok(1) [OF assms(1)] assms(2) by (simp_all add: walk_ok_def)
  then show ?thesis using merged_file_kept [OF assms] by fastforce
qed

theorem merged_files_lose_nothing_witness:
  "\<exists>t. assemble_file 2 sample_fs ''f.yaml'' True [] blank_assembler = Some (Inr t) \<and>
     keeps_libraries sample_root (as_result t)"
proof -
  obtain cfg where "assemble 2 sample_fs ''f.yaml'' = Some (Inr (cfg, []))"
    using sample_assembles by (auto split: option.splits sum.splits prod.splits list.splits)
  then obtain t where t: "assemble_file 2 sample_fs ''f.yaml'' True [] blank_assembler = Some (Inr t)" "as_viols t = []"
    by (rule assembled_from) simp
  have o: "origins_ok blank_assembler" by (simp add: origins_ok_def tracked_def blank_assembler_def blank_config_def)
  have "\<exists>vs. as_viols t = as_viols blank_assembler @ vs \<and> (vs = [] \<longrightarrow> keeps_libraries (if True then sample_root
      else resolve_paths (path_dir ''f.yaml'') sample_root) (as_result t))"
    using merged_files_lose_nothing [OF t(1) o, of "''root''" "[''lib/l.yaml'']" sample_root]
    by (simp add: sample_fs_def blank_assembler_def)
  with t show ?thesis by (auto simp: blank_assembler_def)
qed

end
