(* ===== verification/CondCheck.thy ===== *)
theory CondCheck
  imports ConfigModel
begin

text \<open>
  The reference discipline of compiled conditions (\<open>config/condcheck.go\<close>), a walk over the syntax
  tree the CEL library hands back, of which the datatype carries what the walk reads.
\<close>

datatype cel_expr =
    CelIdent string
  | CelLiteral "string option"  \<comment> \<open>the text of a string literal, none for any other\<close>
  | CelSelect cel_expr string
  | CelCall string "cel_expr option" "cel_expr list"  \<comment> \<open>function, target of a member call, arguments\<close>
  | CelList "cel_expr list"
  | CelMap "(cel_expr \<times> cel_expr) list"
  | CelStruct "cel_expr list"
  | CelComprehension cel_expr cel_expr cel_expr cel_expr cel_expr
  | CelUnspecified

abbreviation OpIndex :: string where "OpIndex \<equiv> ''_[_]''"

text \<open>The UTF-8 bytes of the dash in the messages.\<close>

definition em_dash :: string where
  "em_dash = map char_of [226 :: nat, 128, 148]"

record cond_scope =
  cs_deps :: "string set"
  cs_declared :: "string set"
  cs_guaranteed :: "string set"

definition check_param_name :: "cond_scope \<Rightarrow> string \<Rightarrow> string list" where
  "check_param_name scope name =
     (if name \<notin> cs_declared scope
      then [''condition reads params.'' @ name @ '', which is not a declared param of this scope'']
      else if name \<notin> cs_guaranteed scope
      then [''condition reads params.'' @ name @
        '', which is optional without a default and may be absent at evaluation '' @ em_dash @
          '' give it a default or make it required'']
      else [])"

definition check_steps_id :: "cond_scope \<Rightarrow> string \<Rightarrow> string list" where
  "check_steps_id scope i =
     (if i \<notin> cs_deps scope
      then [''condition reads steps['' @ quote_str i @ ''], which the desugarer did not derive as a dependency; write steps.<step>.<field> so the reference becomes an edge'']
      else [])"

text \<open>Exactly \<open>steps["<literal>"]\<close>.\<close>

definition steps_index_arg :: "cel_expr \<Rightarrow> string option" where
  "steps_index_arg e =
     (case e of CelCall f t args \<Rightarrow>
        if f = OpIndex \<and> length args = 2 \<and> args ! 0 = CelIdent ''steps''
        then (case args ! 1 of CelLiteral s \<Rightarrow> s | _ \<Rightarrow> None) else None
      | _ \<Rightarrow> None)"

text \<open>An index of one of the reserved maps: the reports, and whether the walk stops there.\<close>

definition reserved_index :: "cond_scope \<Rightarrow> cel_expr \<Rightarrow> string list option" where
  "reserved_index scope e =
     (case e of CelCall f t args \<Rightarrow>
        if f = OpIndex \<and> length args = 2 then
          (if args ! 0 = CelIdent ''steps'' then
             Some (case steps_index_arg e of
                 Some i \<Rightarrow> check_steps_id scope i @ [''condition reads steps['' @ quote_str i @
                   ''] without selecting a field; write steps.<step>.<field>'']
               | None \<Rightarrow> [''condition indexes steps with a non-literal key; write steps.<step>.<field>''])
           else if args ! 0 = CelIdent ''params'' then
             Some (case args ! 1 of
                 CelLiteral (Some name) \<Rightarrow> check_param_name scope name
               | _ \<Rightarrow> [''condition indexes params with a non-literal key; write params.<name>''])
           else None)
        else None
      | _ \<Rightarrow> None)"

definition ident_reports :: "string \<Rightarrow> string list" where
  "ident_reports i =
     (if i = ''steps'' then [''condition uses steps outside a steps.<step>.<field> reference'']
      else if i = ''params'' then [''condition uses params outside a params.<name> reference'']
      else if i = ''item'' then [''condition references item, which is not available in conditions; thread the value through a param'']
      else [])"

fun walk_cond :: "cond_scope \<Rightarrow> cel_expr \<Rightarrow> string list" where
  "walk_cond scope (CelSelect e f) =
     (if e = CelIdent ''params'' then check_param_name scope f
      else case steps_index_arg e of Some i \<Rightarrow> check_steps_id scope i | None \<Rightarrow> walk_cond scope e)"
| "walk_cond scope (CelCall f t args) =
     (case reserved_index scope (CelCall f t args) of
        Some rs \<Rightarrow> rs
      | None \<Rightarrow> concat (map (walk_cond scope) args) @ (case t of None \<Rightarrow> [] | Some e \<Rightarrow> walk_cond scope e))"
| "walk_cond scope (CelIdent i) = ident_reports i"
| "walk_cond scope (CelList es) = concat (map (walk_cond scope) es)"
| "walk_cond scope (CelMap es) = concat (map (\<lambda>(k, v). walk_cond scope k @ walk_cond scope v) es)"
| "walk_cond scope (CelStruct es) = concat (map (walk_cond scope) es)"
| "walk_cond scope (CelComprehension a b c d e) =
     walk_cond scope a @ walk_cond scope b @ walk_cond scope c @ walk_cond scope d @ walk_cond scope e"
| "walk_cond scope (CelLiteral s) = []"
| "walk_cond scope CelUnspecified = []"

subsection \<open>What a clean walk means\<close>

text \<open>The occurrences of an identifier, and the canonical references of the two maps, anywhere in the
  tree.\<close>

fun idents :: "string \<Rightarrow> cel_expr \<Rightarrow> nat" where
  "idents x (CelIdent i) = (if i = x then 1 else 0)"
| "idents x (CelSelect e f) = idents x e"
| "idents x (CelCall f t args) = sum_list (map (idents x) args) + (case t of None \<Rightarrow> 0 | Some e \<Rightarrow> idents x e)"
| "idents x (CelList es) = sum_list (map (idents x) es)"
| "idents x (CelMap es) = sum_list (map (\<lambda>(k, v). idents x k + idents x v) es)"
| "idents x (CelStruct es) = sum_list (map (idents x) es)"
| "idents x (CelComprehension a b c d e) = idents x a + idents x b + idents x c + idents x d + idents x e"
| "idents x (CelLiteral s) = 0"
| "idents x CelUnspecified = 0"

definition opt_list :: "'a option \<Rightarrow> 'a list" where
  "opt_list x = (case x of None \<Rightarrow> [] | Some v \<Rightarrow> [v])"

fun step_refs :: "cel_expr \<Rightarrow> string list" where
  "step_refs (CelSelect e f) = opt_list (steps_index_arg e) @ step_refs e"
| "step_refs (CelCall f t args) = concat (map step_refs args) @ (case t of None \<Rightarrow> [] | Some e \<Rightarrow> step_refs e)"
| "step_refs (CelList es) = concat (map step_refs es)"
| "step_refs (CelMap es) = concat (map (\<lambda>(k, v). step_refs k @ step_refs v) es)"
| "step_refs (CelStruct es) = concat (map step_refs es)"
| "step_refs (CelComprehension a b c d e) = step_refs a @ step_refs b @ step_refs c @ step_refs d @ step_refs e"
| "step_refs _ = []"

definition params_index_arg :: "cel_expr \<Rightarrow> string option" where
  "params_index_arg e =
     (case e of CelCall f t args \<Rightarrow>
        if f = OpIndex \<and> length args = 2 \<and> args ! 0 = CelIdent ''params''
        then (case args ! 1 of CelLiteral s \<Rightarrow> s | _ \<Rightarrow> None) else None
      | _ \<Rightarrow> None)"

fun param_refs :: "cel_expr \<Rightarrow> string list" where
  "param_refs (CelSelect e f) = (if e = CelIdent ''params'' then [f] else param_refs e)"
| "param_refs (CelCall f t args) = opt_list (params_index_arg (CelCall f t args)) @
     concat (map param_refs args) @ (case t of None \<Rightarrow> [] | Some e \<Rightarrow> param_refs e)"
| "param_refs (CelList es) = concat (map param_refs es)"
| "param_refs (CelMap es) = concat (map (\<lambda>(k, v). param_refs k @ param_refs v) es)"
| "param_refs (CelStruct es) = concat (map param_refs es)"
| "param_refs (CelComprehension a b c d e) = param_refs a @ param_refs b @ param_refs c @ param_refs d @ param_refs e"
| "param_refs _ = []"

text \<open>The index operator is no member function.\<close>

fun plain_index :: "cel_expr \<Rightarrow> bool" where
  "plain_index (CelSelect e f) = plain_index e"
| "plain_index (CelCall f t args) \<longleftrightarrow> (f = OpIndex \<longrightarrow> t = None) \<and> list_all plain_index args \<and>
     (case t of None \<Rightarrow> True | Some e \<Rightarrow> plain_index e)"
| "plain_index (CelList es) = list_all plain_index es"
| "plain_index (CelMap es) = list_all (\<lambda>(k, v). plain_index k \<and> plain_index v) es"
| "plain_index (CelStruct es) = list_all plain_index es"
| "plain_index (CelComprehension a b c d e) \<longleftrightarrow>
     plain_index a \<and> plain_index b \<and> plain_index c \<and> plain_index d \<and> plain_index e"
| "plain_index _ = True"

definition canonical :: "cond_scope \<Rightarrow> cel_expr \<Rightarrow> bool" where
  "canonical scope e \<longleftrightarrow>
     idents ''steps'' e = length (step_refs e) \<and> set (step_refs e) \<subseteq> cs_deps scope \<and>
     idents ''params'' e = length (param_refs e) \<and> set (param_refs e) \<subseteq> cs_guaranteed scope \<and>
     idents ''item'' e = 0"

lemma canonical_concat:
  assumes "\<And>x. x \<in> set xs \<Longrightarrow> canonical scope x"
  shows "sum_list (map (idents ''steps'') xs) = length (concat (map step_refs xs))"
    and "set (concat (map step_refs xs)) \<subseteq> cs_deps scope"
    and "sum_list (map (idents ''params'') xs) = length (concat (map param_refs xs))"
    and "set (concat (map param_refs xs)) \<subseteq> cs_guaranteed scope"
    and "sum_list (map (idents ''item'') xs) = 0"
  using assms by (induction xs) (auto simp: canonical_def)

lemma map_pairs:
  "sum_list (map (\<lambda>(k, v). f k + f v) es) = sum_list (map f (concat (map (\<lambda>(k, v). [k, v]) es)))"
  "concat (map (\<lambda>(k, v). g k @ g v) es) = concat (map g (concat (map (\<lambda>(k, v). [k, v]) es)))"
  for f :: "cel_expr \<Rightarrow> nat"
  by (induction es) auto

lemma two_args: "length args = 2 \<Longrightarrow> \<exists>a b. args = [a, b]"
  by (cases args; cases "tl args"; cases "tl (tl args)") auto

lemma steps_index_eq:
  "steps_index_arg e = Some i \<longleftrightarrow> (\<exists>t. e = CelCall OpIndex t [CelIdent ''steps'', CelLiteral (Some i)])"
proof
  assume "steps_index_arg e = Some i"
  then obtain f t args where e: "e = CelCall f t args" "f = OpIndex" "length args = 2" "args ! 0 = CelIdent ''steps''"
      "(case args ! 1 of CelLiteral s \<Rightarrow> s | _ \<Rightarrow> None) = Some i"
    by (auto simp: steps_index_arg_def split: cel_expr.splits if_splits)
  obtain a b where "args = [a, b]" using two_args [OF e(3)] by auto
  with e show "\<exists>t. e = CelCall OpIndex t [CelIdent ''steps'', CelLiteral (Some i)]" by (cases b) auto
qed (auto simp: steps_index_arg_def)

lemma clean_walk_canonical:
  "walk_cond scope e = [] \<Longrightarrow> plain_index e \<Longrightarrow> canonical scope e"
proof (induction scope e rule: walk_cond.induct)
  case (1 scope e f)
  show ?case
  proof (cases "e = CelIdent ''params''")
    case True
    with 1(2) show ?thesis
      by (auto simp: canonical_def check_param_name_def steps_index_arg_def opt_list_def split: if_splits)
  next
    case False
    note np = False
    show ?thesis
    proof (cases "steps_index_arg e")
      case None
      with 1 np show ?thesis by (simp add: canonical_def opt_list_def)
    next
      case (Some i)
      then obtain t where e: "e = CelCall OpIndex t [CelIdent ''steps'', CelLiteral (Some i)]"
        by (auto simp: steps_index_eq)
      with 1(3) have "t = None" by simp
      with 1(2) np Some e show ?thesis
        by (auto simp: canonical_def check_steps_id_def opt_list_def params_index_arg_def split: if_splits)
    qed
  qed
next
  case (2 scope f t args)
  show ?case
  proof (cases "reserved_index scope (CelCall f t args)")
    case None
    have a: "canonical scope x" if "x \<in> set args" for x using 2(1) [OF None that] 2(3,4) None that by (auto simp: list_all_iff)
    have b: "canonical scope x" if "t = Some x" for x using 2(2) [OF None that] 2(3,4) None that by auto
    have "params_index_arg (CelCall f t args) = None"
      using None by (auto simp: reserved_index_def params_index_arg_def split: if_splits)
    then show ?thesis
      using canonical_concat [of args scope, OF a] b
      by (cases t) (auto simp: canonical_def opt_list_def)
  next
    case (Some rs)
    with 2(3) have r: "reserved_index scope (CelCall f t args) = Some []" by simp
    then have f: "f = OpIndex" "length args = 2" by (auto simp: reserved_index_def split: if_splits)
    with 2(4) have t: "t = None" by simp
    obtain a b where args: "args = [a, b]" using two_args [OF f(2)] by auto
    have p: "a = CelIdent ''params'' \<and> (\<exists>n. b = CelLiteral (Some n) \<and> check_param_name scope n = [])"
      using r f t args by (auto simp: reserved_index_def split: if_splits option.splits cel_expr.splits)
    then show ?thesis
      using args f t by (auto simp: canonical_def params_index_arg_def opt_list_def check_param_name_def split: if_splits)
  qed
next
  case (3 scope i)
  then show ?case by (auto simp: canonical_def ident_reports_def split: if_splits)
next
  case (4 scope es)
  then have "canonical scope x" if "x \<in> set es" for x using that by (auto simp: list_all_iff)
  from canonical_concat [OF this] show ?case by (simp add: canonical_def)
next
  case (5 scope es)
  have k: "canonical scope k" "canonical scope v" if "(k, v) \<in> set es" for k v
    using 5(1) [OF that refl] 5(2) [OF that refl] 5(3,4) that by (fastforce simp: list_all_iff)+
  have "canonical scope x" if "x \<in> set (concat (map (\<lambda>(k, v). [k, v]) es))" for x using that k by fastforce
  from canonical_concat [OF this] show ?case
    by (simp only: canonical_def idents.simps step_refs.simps param_refs.simps map_pairs)
next
  case (6 scope es)
  then have "canonical scope x" if "x \<in> set es" for x using that by (auto simp: list_all_iff)
  from canonical_concat [OF this] show ?case by (simp add: canonical_def)
next
  case (7 scope a b c d e)
  then show ?case by (simp add: canonical_def)
qed (simp_all add: canonical_def)

end
