(* ===== verification/Wiring.thy ===== *)
theory Wiring
  imports Desugaring Expansion CondCheck
begin

text \<open>
  The checks of an emitted graph before a run (\<open>config/wiring.go\<close>): references, slots, types,
  cycles, conditions and tools, every violation collected and sorted. The CEL compiler is the
  parameter \<open>cel\<close>, \<open>shw\<close> renders a value for a message.
\<close>

record wiring_error =
  we_node :: string
  we_path :: string
  we_msg :: string

definition wiring_error_string :: "wiring_error \<Rightarrow> string" where
  "wiring_error_string e =
     (if we_path e = [] then we_node e @ '': '' @ we_msg e else we_node e @ ''.'' @ we_path e @ '': '' @ we_msg e)"

definition werr :: "string \<Rightarrow> string \<Rightarrow> string \<Rightarrow> wiring_error" where
  "werr n p m = \<lparr>we_node = n, we_path = p, we_msg = m\<rparr>"

subsection \<open>Suggestions\<close>

text \<open>One row of the edit-distance table: \<open>left\<close> is the cell before, \<open>diag\<close> the one above it.\<close>

fun lev_row :: "char \<Rightarrow> string \<Rightarrow> nat list \<Rightarrow> nat \<Rightarrow> nat \<Rightarrow> nat list" where
  "lev_row a (b # bs) (up # prev) diag left =
     (let d = min (up + 1) (min (left + 1) (diag + (if a = b then 0 else 1))) in d # lev_row a bs prev up d)"
| "lev_row a bs prev diag left = []"

fun lev_rows :: "nat \<Rightarrow> string \<Rightarrow> string \<Rightarrow> nat list \<Rightarrow> nat list" where
  "lev_rows i [] b prev = prev"
| "lev_rows i (x # xs) b prev = lev_rows (Suc i) xs b (Suc i # lev_row x b (tl prev) (hd prev) (Suc i))"

definition levenshtein :: "string \<Rightarrow> string \<Rightarrow> nat" where
  "levenshtein a b = (if a = b then 0 else last (lev_rows 0 a b [0..<Suc (length b)]))"

fun nearest :: "string \<Rightarrow> string list \<Rightarrow> string \<Rightarrow> nat \<Rightarrow> string" where
  "nearest name [] best dist = best"
| "nearest name (c # cs) best dist =
     (if levenshtein name c < dist then nearest name cs c (levenshtein name c) else nearest name cs best dist)"

definition did_you_mean :: "string \<Rightarrow> string list \<Rightarrow> string" where
  "did_you_mean name cands =
     (case nearest name cands [] 3 of [] \<Rightarrow> [] | c # cs \<Rightarrow> '' (did you mean '' @ (c # cs) @ ''?)'')"

subsection \<open>Flat ids\<close>

function flat_ids :: "ir \<Rightarrow> string list" where
  "flat_ids g = concat (map (\<lambda>n. n_id n # (case n_sub n of None \<Rightarrow> [] | Some h \<Rightarrow> flat_ids h)) (ir_nodes g))"
  by pat_completeness auto
termination by (relation "measure size") (auto simp: termination_simp)

declare flat_ids.simps [simp del]

fun duplicates :: "string list \<Rightarrow> string list \<Rightarrow> wiring_error list" where
  "duplicates seen [] = []"
| "duplicates seen (i # is) =
     (if i \<in> set seen
      then [werr i [] (''duplicate node id '' @ quote_str i @
        '' in the desugared graph (step ids must be unique across nesting levels)'')] else []) @
     duplicates (i # seen) is"

definition pass_flat_ids :: "ir \<Rightarrow> wiring_error list" where
  "pass_flat_ids g = duplicates [] (flat_ids g)"

subsection \<open>The schemas of a level\<close>

type_synonym schemas = "param_def smap smap"

definition params_of :: "config \<Rightarrow> string \<Rightarrow> param_def smap" where
  "params_of cfg w = wf_params (workflow_of cfg w)"

definition node_outputs :: "node \<Rightarrow> schemas \<Rightarrow> schemas" where
  "node_outputs n outs =
     (if n_kind n = KindAgent then (case n_template n of None \<Rightarrow> outs | Some t \<Rightarrow> put (n_id n) (t_output t) outs)
      else if n_kind n = KindSubWorkflow \<or> n_kind n = KindGenerate then put (n_id n) [] outs else outs)"

definition selector_outputs :: "node \<Rightarrow> schemas \<Rightarrow> schemas" where
  "selector_outputs n outs =
     (case n_sel n of
        Some s \<Rightarrow> (case sel_candidates s of [] \<Rightarrow> outs | c # _ \<Rightarrow> put (n_id n) (get_or [] outs c) outs)
      | None \<Rightarrow> outs)"

definition outputs_of :: "ir \<Rightarrow> schemas" where
  "outputs_of g =
     fold selector_outputs (filter (\<lambda>n. n_kind n = KindSelector) (ir_nodes g)) (fold node_outputs (ir_nodes g) [])"

definition node_inputs :: "config \<Rightarrow> node \<Rightarrow> schemas \<Rightarrow> schemas" where
  "node_inputs cfg n ins =
     (if n_kind n = KindAgent then (case n_template n of None \<Rightarrow> ins | Some t \<Rightarrow> put (n_id n) (t_inputs t) ins)
      else if n_kind n = KindSubWorkflow then
        (case n_sub n of None \<Rightarrow> ins | Some h \<Rightarrow> put (n_id n) (params_of cfg (ir_workflow h)) ins)
      else if n_kind n = KindGenerate then
        (case n_gen n of None \<Rightarrow> ins | Some s \<Rightarrow> put (n_id n) (params_of cfg (gs_workflow s)) ins)
      else ins)"

definition inputs_of :: "config \<Rightarrow> ir \<Rightarrow> schemas" where
  "inputs_of cfg g = fold (node_inputs cfg) (ir_nodes g) []"

definition kind_errors :: "node \<Rightarrow> wiring_error list" where
  "kind_errors n =
     (if n_kind n \<in> {KindAgent, KindSubWorkflow, KindGenerate, KindSelector} then []
      else [werr (n_id n) [] (''unsupported node kind '' @ quote_str (n_kind n) @
        '' (no non-agent kinds ship in this IR version)'')])"

definition ids_of :: "ir \<Rightarrow> string list" where
  "ids_of g = map n_id (ir_nodes g)"

subsection \<open>Resolution\<close>

definition edge_path :: "edge \<Rightarrow> string" where
  "edge_path e = (if is_ordering e then ''depends_on'' else ''with.'' @ e_to_port e)"

definition field_errors :: "schemas \<Rightarrow> edge \<Rightarrow> wiring_error list" where
  "field_errors outs e =
     (case map_of outs (e_from e) of None \<Rightarrow> []
      | Some fs \<Rightarrow>
          if map_of fs (e_from_port e) \<noteq> None then []
          else [werr (e_to e) (edge_path e) (''references '' @ e_from e @ ''.'' @ e_from_port e @
            '' '' @ em_dash @ '' output field does not exist'' @ did_you_mean (e_from_port e) (sorted_keys fs))])"

definition slot_errors :: "schemas \<Rightarrow> edge \<Rightarrow> wiring_error list" where
  "slot_errors ins e =
     (case map_of ins (e_to e) of None \<Rightarrow> []
      | Some slots \<Rightarrow>
          if map_of slots (e_to_port e) \<noteq> None then []
          else [werr (e_to e) (edge_path e) (''binds undeclared input slot '' @ quote_str (e_to_port e) @
            did_you_mean (e_to_port e) (sorted_keys slots))])"

definition resolve_edge :: "string list \<Rightarrow> schemas \<Rightarrow> schemas \<Rightarrow> edge \<Rightarrow> wiring_error list" where
  "resolve_edge ids outs ins e =
     (if e_from e \<notin> set ids
      then [werr (e_to e) (edge_path e) (''references unknown node '' @ quote_str (e_from e))]
      else if e_to e \<notin> set ids
      then [werr (e_from e) (edge_path e) (''targets unknown node '' @ quote_str (e_to e))]
      else if is_ordering e then [] else field_errors outs e @ slot_errors ins e)"

definition pass_resolution :: "ir \<Rightarrow> schemas \<Rightarrow> schemas \<Rightarrow> wiring_error list" where
  "pass_resolution g outs ins = concat (map (resolve_edge (ids_of g) outs ins) (ir_edges g))"

subsection \<open>Slots\<close>

definition effective_bindings :: "node \<Rightarrow> binding_desc smap" where
  "effective_bindings n =
     (if n_kind n = KindGenerate then (case n_gen n of Some s \<Rightarrow> gs_bindings s | None \<Rightarrow> n_bindings n) else n_bindings n)"

text \<open>The data edges into a slot.\<close>

definition inbound :: "ir \<Rightarrow> string \<Rightarrow> string \<Rightarrow> nat" where
  "inbound g i slot =
     length (filter (\<lambda>e. \<not> is_ordering e \<and> e_to e = i \<and> e_to_port e = slot) (ir_edges g))"

definition times_bound :: "ir \<Rightarrow> node \<Rightarrow> string \<Rightarrow> nat" where
  "times_bound g n slot =
     inbound g (n_id n) slot + (if map_of (effective_bindings n) slot \<noteq> None then 1 else 0)"

definition slot_binding :: "ir \<Rightarrow> node \<Rightarrow> param_def smap \<Rightarrow> string \<Rightarrow> wiring_error list" where
  "slot_binding g n slots slot =
     (case map_of slots slot of None \<Rightarrow> []
      | Some d \<Rightarrow>
          if 1 < times_bound g n slot
          then [werr (n_id n) (''with.'' @ slot) (''input slot bound '' @ itoa (int (times_bound g n slot)) @
            '' times '' @ em_dash @ '' a slot is bound exactly once'')]
          else if times_bound g n slot = 0 \<and> pd_required d \<and> pd_default d = None
          then [werr (n_id n) (''with.'' @ slot) (''required input slot '' @ quote_str slot @ '' is unbound'')]
          else [])"

definition node_slots :: "ir \<Rightarrow> schemas \<Rightarrow> node \<Rightarrow> wiring_error list" where
  "node_slots g ins n =
     (case map_of ins (n_id n) of None \<Rightarrow> []
      | Some slots \<Rightarrow>
          concat (map (\<lambda>slot. if map_of slots slot \<noteq> None then []
              else [werr (n_id n) (''with.'' @ slot) (''binds undeclared input slot '' @ quote_str slot @
                did_you_mean slot (sorted_keys slots))]) (sorted_keys (effective_bindings n))) @
          concat (map (slot_binding g n slots) (sorted_keys slots)))"

definition pass_slots :: "ir \<Rightarrow> schemas \<Rightarrow> wiring_error list" where
  "pass_slots g ins = concat (map (node_slots g ins) (ir_nodes g))"

subsection \<open>Types\<close>

definition item_field_type :: "string \<Rightarrow> string" where
  "item_field_type f = (if f = ''id'' then ''string'' else if f = ''deps'' then ''object'' else [])"

text \<open>The reason a source of one type does not fit a slot of another, empty when it does.\<close>

definition type_satisfies :: "param_def \<Rightarrow> param_def \<Rightarrow> string" where
  "type_satisfies src dst =
     (if pd_type src \<noteq> pd_type dst then ''is '' @ pd_type src @ '', slot wants '' @ pd_type dst
      else if pd_enum dst = [] then []
      else if pd_enum src = []
      then ''is a plain '' @ pd_type src @ '', slot wants enum ['' @ join '', '' (pd_enum dst) @ '']''
      else (case filter (\<lambda>v. v \<notin> set (pd_enum dst)) (pd_enum src) of
          [] \<Rightarrow> []
        | m # ms \<Rightarrow> ''enum values ['' @ join '', '' (m # ms) @ ''] are not accepted by slot enum ['' @
            join '', '' (pd_enum dst) @ '']''))"

definition edge_type :: "schemas \<Rightarrow> schemas \<Rightarrow> edge \<Rightarrow> wiring_error list" where
  "edge_type outs ins e =
     (if is_ordering e then []
      else case (map_of (get_or [] outs (e_from e)) (e_from_port e), map_of (get_or [] ins (e_to e)) (e_to_port e)) of
        (Some src, Some dst) \<Rightarrow>
          (case type_satisfies src dst of [] \<Rightarrow> []
           | r # rs \<Rightarrow> [werr (e_to e) (edge_path e) (''type mismatch: '' @ e_from e @ ''.'' @ e_from_port e @ '' '' @ r # rs)])
      | _ \<Rightarrow> [])"

definition binding_type ::
  "(goval \<Rightarrow> string) \<Rightarrow> param_def smap \<Rightarrow> string \<Rightarrow> string \<Rightarrow> param_def \<Rightarrow> binding_desc \<Rightarrow> wiring_error list" where
  "binding_type shw params i slot dst b =
     (if b_kind b = BindParam then
        (case map_of params (b_name b) of
           None \<Rightarrow> [werr i (''with.'' @ slot) (''references params.'' @ b_name b @ '' '' @ em_dash @ '' param not declared'' @
             did_you_mean (b_name b) (sorted_keys params))]
         | Some d \<Rightarrow>
             (case type_satisfies d dst of [] \<Rightarrow> []
              | r # rs \<Rightarrow> [werr i (''with.'' @ slot) (''type mismatch: params.'' @ b_name b @ '' '' @ r # rs)]))
      else if b_kind b = BindItem then
        (if item_field_type (b_field b) \<noteq> [] \<and> item_field_type (b_field b) \<noteq> pd_type dst
         then [werr i (''with.'' @ slot) (''type mismatch: item.'' @ b_field b @ '' is '' @ item_field_type (b_field b) @
           '', slot wants '' @ pd_type dst)] else [])
      else if b_kind b = BindLiteral then
        (if b_type b \<noteq> pd_type dst
         then [werr i (''with.'' @ slot) (''type mismatch: literal is '' @ b_type b @ '', slot wants '' @ pd_type dst)]
         else if pd_enum dst \<noteq> [] \<and> (case b_value b of VStr s \<Rightarrow> s \<notin> set (pd_enum dst) | _ \<Rightarrow> True)
         then [werr i (''with.'' @ slot) (''literal '' @ shw (b_value b) @ '' not in slot enum ['' @
           join '', '' (pd_enum dst) @ '']'')]
         else [])
      else [])"

definition node_types :: "(goval \<Rightarrow> string) \<Rightarrow> param_def smap \<Rightarrow> schemas \<Rightarrow> node \<Rightarrow> wiring_error list" where
  "node_types shw params ins n =
     (case map_of ins (n_id n) of None \<Rightarrow> []
      | Some slots \<Rightarrow>
          concat (map (\<lambda>slot. case (map_of slots slot, map_of (effective_bindings n) slot) of
              (Some dst, Some b) \<Rightarrow> binding_type shw params (n_id n) slot dst b
            | _ \<Rightarrow> []) (sorted_keys (effective_bindings n))))"

definition pass_types :: "(goval \<Rightarrow> string) \<Rightarrow> config \<Rightarrow> ir \<Rightarrow> schemas \<Rightarrow> schemas \<Rightarrow> wiring_error list" where
  "pass_types shw cfg g outs ins =
     concat (map (edge_type outs ins) (ir_edges g)) @
     concat (map (node_types shw (params_of cfg (ir_workflow g)) ins) (ir_nodes g))"

subsection \<open>Cycles\<close>

text \<open>What orders a node after another: the edges, and the dependencies of its conditions.\<close>

definition cond_dep_edges :: "ir \<Rightarrow> (string \<times> string) list" where
  "cond_dep_edges g = concat (map (\<lambda>n. concat (map (\<lambda>c.
     map (\<lambda>d. (d, n_id n)) (filter (\<lambda>d. d \<in> set (ids_of g)) (c_deps c))) (node_conds n))) (ir_nodes g))"

definition order_edges :: "ir \<Rightarrow> (string \<times> string) list" where
  "order_edges g =
     filter (\<lambda>(a, b). a \<in> set (ids_of g) \<and> b \<in> set (ids_of g))
       (map (\<lambda>e. (e_from e, e_to e)) (ir_edges g) @ cond_dep_edges g)"

definition succ_in :: "(string \<times> string) list \<Rightarrow> string \<Rightarrow> string list" where
  "succ_in es a = map snd (filter (\<lambda>p. fst p = a) es)"

definition indeg_in :: "string list \<Rightarrow> (string \<times> string) list \<Rightarrow> int smap" where
  "indeg_in is es = map (\<lambda>i. (i, int (length (filter (\<lambda>p. snd p = i) es)))) (remdups is)"

text \<open>Nodes without a successor among those left are dropped until none is.\<close>

fun prune_pass :: "(string \<Rightarrow> string list) \<Rightarrow> string list \<Rightarrow> string list \<Rightarrow> string list" where
  "prune_pass succ [] left = left"
| "prune_pass succ (i # ks) left =
     prune_pass succ ks (if \<exists>n \<in> set (succ i). n \<in> set left then left else removeAll i left)"

lemma prune_pass_length: "length (prune_pass succ ks left) \<le> length left"
  by (induction ks arbitrary: left) (auto intro: le_trans [OF _ length_removeAll_less_eq])

lemma prune_pass_same: "length (prune_pass succ ks left) = length left \<Longrightarrow> prune_pass succ ks left = left"
proof (induction ks arbitrary: left)
  case (Cons i ks)
  show ?case
  proof (cases "\<exists>n \<in> set (succ i). n \<in> set left")
    case True
    with Cons show ?thesis by simp
  next
    case False
    have "length (prune_pass succ ks (removeAll i left)) \<le> length (removeAll i left)" by (rule prune_pass_length)
    with Cons.prems False have "length (removeAll i left) = length left"
      using length_removeAll_less_eq [of i left] by simp
    then have "i \<notin> set left" using length_removeAll_less [of i left] by linarith
    then have "removeAll i left = left" by (rule removeAll_id)
    with Cons False show ?thesis by simp
  qed
qed simp

function prune_loop :: "(string \<Rightarrow> string list) \<Rightarrow> string list \<Rightarrow> string list" where
  "prune_loop succ left =
     (let left' = prune_pass succ (sort left) left in if left' = left then left else prune_loop succ left')"
  by pat_completeness auto
termination
proof (relation "measure (\<lambda>(s, l). length l)", simp, goal_cases)
  case (1 succ left x)
  then show ?case using prune_pass_length [of succ "sort left" left] prune_pass_same [of succ "sort left" left] by fastforce
qed

declare prune_loop.simps [simp del]

text \<open>Following the first successor left, the empty name where there is none, until a node repeats.\<close>

definition next_member :: "(string \<Rightarrow> string list) \<Rightarrow> string list \<Rightarrow> string \<Rightarrow> string" where
  "next_member succ left cur =
     (case List.find (\<lambda>n. n \<in> set left) (sort (succ cur)) of None \<Rightarrow> [] | Some n \<Rightarrow> n)"

function find_cycle :: "(string \<Rightarrow> string list) \<Rightarrow> string list \<Rightarrow> string list \<Rightarrow> string \<Rightarrow> string list" where
  "find_cycle succ left path cur =
     (let nxt = next_member succ left cur in
      if nxt \<in> set path then dropWhile (\<lambda>p. p \<noteq> nxt) path @ [nxt]
      else find_cycle succ left (path @ [nxt]) nxt)"
  by pat_completeness auto
termination
proof (relation "measure (\<lambda>(s, l, p, c). card (insert [] (set l) - set p))", simp, goal_cases)
  case (1 succ left path cur nxt)
  then have "nxt \<in> insert [] (set left) - set path"
    by (auto simp: next_member_def dest!: find_SomeD split: option.splits)
  then have "insert [] (set left) - set (path @ [nxt]) \<subset> insert [] (set left) - set path" by auto
  then show ?case by (simp add: psubset_card_mono)
qed

declare find_cycle.simps [simp del]

definition pass_acyclic :: "ir \<Rightarrow> wiring_error list" where
  "pass_acyclic g =
     (let es = order_edges g; indeg = indeg_in (ids_of g) es;
          r = kahn (succ_in es) (filter (\<lambda>i. get_or 0 indeg i = 0) (sorted_keys indeg)) indeg 0
      in if fst r = length (ir_nodes g) then []
         else case prune_loop (succ_in es) (sort (filter (\<lambda>i. 0 < get_or 0 (snd r) i) (map fst (snd r)))) of
           [] \<Rightarrow> []
         | s # ss \<Rightarrow>
             (case find_cycle (succ_in es) (s # ss) [hd (sort (s # ss))] (hd (sort (s # ss))) of
                [] \<Rightarrow> []
              | c # cs \<Rightarrow> [werr c [] (''reference cycle: '' @ join '' -> '' (c # cs))]))"

subsection \<open>Conditions\<close>

text \<open>The canonical form \<open>steps["<node-id>"].<field>\<close> at the front of a text.\<close>

definition match_ref :: "string \<Rightarrow> (string \<times> string \<times> string) option" where
  "match_ref s =
     (let r = drop 7 s; i = takeWhile (\<lambda>c. c \<noteq> CHR 0x22) r; r2 = drop (length i) r; w = read_ident (drop 3 r2)
      in if has_prefix (''steps['' @ [CHR 0x22]) s \<and> i \<noteq> [] \<and> has_prefix (CHR 0x22 # ''].'') r2 \<and> fst w \<noteq> []
         then Some (i, fst w, snd w) else None)"

lemma match_ref_shorter: "match_ref s = Some (i, f, r) \<Longrightarrow> length r < length s"
proof -
  assume m: "match_ref s = Some (i, f, r)"
  define t where "t = drop 3 (drop (length i) (drop 7 s))"
  have w: "read_ident t = (f, r)" "f \<noteq> []" using m by (auto simp: match_ref_def Let_def t_def prod_eq_iff split: if_splits)
  then have "t = f @ r" using read_ident_split by blast
  then have "length r < length t" using w(2) by (cases f) auto
  then show ?thesis by (simp add: t_def)
qed

function cond_field_refs :: "string \<Rightarrow> (string \<times> string) list" where
  "cond_field_refs [] = []"
| "cond_field_refs (c # cs) =
     (case match_ref (c # cs) of
        Some (i, f, r) \<Rightarrow> (i, f) # cond_field_refs r
      | None \<Rightarrow> cond_field_refs cs)"
  by pat_completeness auto
termination
  by (relation "measure length") (auto dest: match_ref_shorter)

text \<open>The nodes reachable from the front of a stack, those already taken left out.\<close>

function descend :: "(string \<times> string) list \<Rightarrow> string list \<Rightarrow> string list \<Rightarrow> string list" where
  "descend es [] out = out"
| "descend es (x # stack) out =
     (if x \<in> set out then descend es stack out else descend es (rev (succ_in es x) @ stack) (x # out))"
  by pat_completeness auto
termination
proof (relation "inv_image (less_than <*lex*> less_than) (\<lambda>(es, st, out). (card (set st \<union> snd ` set es - set out), length st))")
  fix es :: "(string \<times> string) list" and x :: string and stack out :: "string list"
  let ?r = "inv_image (less_than <*lex*> less_than) (\<lambda>(es, st, out). (card (set st \<union> snd ` set es - set out), length st))"
  show "((es, stack, out), (es, x # stack, out)) \<in> ?r" if "x \<in> set out"
  proof -
    have "set stack \<union> snd ` set es - set out = set (x # stack) \<union> snd ` set es - set out" using that by auto
    then show ?thesis by (simp only: in_inv_image in_lex_prod less_than_iff prod.case simp_thms length_Cons lessI)
  qed
  show "((es, rev (succ_in es x) @ stack, x # out), (es, x # stack, out)) \<in> ?r" if "x \<notin> set out"
  proof -
    have "set (succ_in es x) \<subseteq> snd ` set es" unfolding succ_in_def by auto
    then have "set (rev (succ_in es x) @ stack) \<union> snd ` set es - set (x # out) \<subset> set (x # stack) \<union> snd ` set es - set out"
      unfolding set_append set_rev list.set using that by blast
    then have "card (set (rev (succ_in es x) @ stack) \<union> snd ` set es - set (x # out)) <
        card (set (x # stack) \<union> snd ` set es - set out)" by (rule psubset_card_mono [rotated]) simp
    then show ?thesis by (simp only: in_inv_image in_lex_prod in_measure less_than_iff prod.case simp_thms)
  qed
qed (simp only: wf_inv_image wf_lex_prod wf_less_than)

definition descendants :: "ir \<Rightarrow> string \<Rightarrow> string list" where
  "descendants g i =
     (let es = map (\<lambda>e. (e_from e, e_to e)) (ir_edges g) in descend es (rev (succ_in es i)) [])"

definition guaranteed_params :: "param_def smap \<Rightarrow> string set" where
  "guaranteed_params ps = {k \<in> set (map fst ps). case map_of ps k of None \<Rightarrow> False
     | Some d \<Rightarrow> pd_required d \<or> pd_default d \<noteq> None}"

definition cond_scope_of :: "param_def smap \<Rightarrow> cond_spec \<Rightarrow> cond_scope" where
  "cond_scope_of ps c =
     \<lparr>cs_deps = set (c_deps c), cs_declared = set (map fst ps), cs_guaranteed = guaranteed_params ps\<rparr>"

definition dep_errors :: "ir \<Rightarrow> string \<Rightarrow> string \<Rightarrow> cond_spec \<Rightarrow> wiring_error list" where
  "dep_errors g i path c =
     concat (map (\<lambda>d.
       if d \<notin> set (ids_of g) then [werr i path (''condition references unknown node '' @ quote_str d)]
       else if d \<in> set (descendants g i)
       then [werr i path (''condition reads '' @ quote_str d @ '', which does not precede this node (it is a descendant)'')]
       else []) (c_deps c))"

definition ref_errors :: "schemas \<Rightarrow> string \<Rightarrow> string \<Rightarrow> cond_spec \<Rightarrow> wiring_error list" where
  "ref_errors outs i path c =
     concat (map (\<lambda>(n, f).
       case map_of outs n of None \<Rightarrow> []
       | Some fs \<Rightarrow>
           if map_of fs f \<noteq> None then []
           else [werr i path (''references '' @ n @ ''.'' @ f @ '' '' @ em_dash @ '' output field does not exist'' @
             did_you_mean f (sorted_keys fs))]) (cond_field_refs (c_cel c)))"

type_synonym cel_compiler = "string \<Rightarrow> string + cel_expr"

definition ast_errors :: "cel_compiler \<Rightarrow> param_def smap \<Rightarrow> string \<Rightarrow> string \<Rightarrow> cond_spec \<Rightarrow> wiring_error list" where
  "ast_errors cel ps i path c =
     (case cel (c_cel c) of
        Inl m \<Rightarrow> [werr i path (''condition does not compile: '' @ m)]
      | Inr e \<Rightarrow> map (werr i path) (walk_cond (cond_scope_of ps c) e))"

definition cond_errors ::
  "cel_compiler \<Rightarrow> param_def smap \<Rightarrow> ir \<Rightarrow> schemas \<Rightarrow> string \<Rightarrow> string \<Rightarrow> cond_spec option \<Rightarrow> wiring_error list" where
  "cond_errors cel ps g outs i path c =
     (case c of None \<Rightarrow> []
      | Some s \<Rightarrow> dep_errors g i path s @ ref_errors outs i path s @ ast_errors cel ps i path s)"

definition pass_conditions :: "cel_compiler \<Rightarrow> config \<Rightarrow> ir \<Rightarrow> schemas \<Rightarrow> wiring_error list" where
  "pass_conditions cel cfg g outs =
     concat (map (\<lambda>n.
       cond_errors cel (params_of cfg (ir_workflow g)) g outs (n_id n) ''when'' (n_when n) @
       cond_errors cel (params_of cfg (ir_workflow g)) g outs (n_id n) ''until''
         (case n_sel n of None \<Rightarrow> None | Some s \<Rightarrow> sel_exhausted s)) (ir_nodes g))"

subsection \<open>Tools and the whole check\<close>

definition tool_errors :: "node \<Rightarrow> wiring_error list" where
  "tool_errors n =
     (if n_kind n \<noteq> KindAgent \<or> n_tools n = [] then []
      else case n_template n of None \<Rightarrow> []
        | Some t \<Rightarrow>
            (case filter (\<lambda>x. x \<notin> set (t_packages t)) (n_tools n) of
               [] \<Rightarrow> []
             | m # ms \<Rightarrow> [werr (n_id n) ''tools'' (''tools not provided by template '' @ quote_str (t_name t) @
                 '' packages: ['' @ join '', '' (sort (m # ms)) @ '']'')]))"

definition pass_tools :: "ir \<Rightarrow> wiring_error list" where
  "pass_tools g = concat (map tool_errors (ir_nodes g))"

definition level_errors :: "cel_compiler \<Rightarrow> (goval \<Rightarrow> string) \<Rightarrow> config \<Rightarrow> ir \<Rightarrow> wiring_error list" where
  "level_errors cel shw cfg g =
     (let outs = outputs_of g; ins = inputs_of cfg g in
      concat (map kind_errors (ir_nodes g)) @ pass_resolution g outs ins @ pass_slots g ins @
      pass_types shw cfg g outs ins @ pass_acyclic g @ pass_conditions cel cfg g outs @ pass_tools g)"

function check_graph :: "cel_compiler \<Rightarrow> (goval \<Rightarrow> string) \<Rightarrow> config \<Rightarrow> ir \<Rightarrow> wiring_error list" where
  "check_graph cel shw cfg g =
     level_errors cel shw cfg g @
     concat (map (\<lambda>n. case n_sub n of None \<Rightarrow> [] | Some h \<Rightarrow> check_graph cel shw cfg h) (ir_nodes g))"
  by pat_completeness auto
termination by (relation "measure (\<lambda>(c, s, f, g). size g)") (auto simp: termination_simp)

declare check_graph.simps [simp del]

definition check_wiring :: "cel_compiler \<Rightarrow> (goval \<Rightarrow> string) \<Rightarrow> ir \<Rightarrow> config \<Rightarrow> wiring_error list" where
  "check_wiring cel shw g cfg =
     sort_key (\<lambda>e. (we_node e, we_path e, we_msg e)) (pass_flat_ids g @ check_graph cel shw cfg g)"

end
