(* ===== verification/Validate.thy ===== *)
theory Validate
  imports Wiring MeterTiers Assembly
begin

text \<open>
  The schema checks of an assembled configuration (\<open>config/validate.go\<close>): every rule that needs no
  graph, collected in the order the code collects them. The checks of a section return the list of
  their violations; the maps that remember a first claimant (\<open>tokens\<close>, \<open>seen\<close>) are threaded.
  Names are byte strings and \<open>EnvToken\<close> is applied to names of the ASCII grammars only, where
  \<open>strings.ToUpper\<close> is the letter case of ASCII. The Go maps are association lists, ranged over in
  sorted key order as the code does.
\<close>

subsection \<open>Grammars\<close>

definition is_lower :: "char \<Rightarrow> bool" where
  "is_lower c \<longleftrightarrow> 97 \<le> byte c \<and> byte c \<le> 122"

definition is_upper :: "char \<Rightarrow> bool" where
  "is_upper c \<longleftrightarrow> 65 \<le> byte c \<and> byte c \<le> 90"

text \<open>\<open>^[a-z0-9][a-z0-9_-]*$\<close>\<close>

definition service_name_ok :: "string \<Rightarrow> bool" where
  "service_name_ok s = (case s of [] \<Rightarrow> False
     | c # cs \<Rightarrow> (is_lower c \<or> is_digit c) \<and>
         list_all (\<lambda>x. is_lower x \<or> is_digit x \<or> x = CHR ''_'' \<or> x = CHR ''-'') cs)"

text \<open>\<open>^[A-Za-z][A-Za-z0-9_-]*$\<close>, the grammar of step ids and of slot names.\<close>

definition ident_ok :: "string \<Rightarrow> bool" where
  "ident_ok s = (case s of [] \<Rightarrow> False
     | c # cs \<Rightarrow> (is_lower c \<or> is_upper c) \<and>
         list_all (\<lambda>x. is_lower x \<or> is_upper x \<or> is_digit x \<or> x = CHR ''_'' \<or> x = CHR ''-'') cs)"

text \<open>\<open>^[0-9]+(\.[0-9]+)?[bkmgBKMG]?$\<close>: digits, a fraction, a unit; each part ends where the next
  character is not its own.\<close>

definition unit_ok :: "string \<Rightarrow> bool" where
  "unit_ok s \<longleftrightarrow> s = [] \<or> (length s = 1 \<and> hd s \<in> set ''bkmgBKMG'')"

definition memory_ok :: "string \<Rightarrow> bool" where
  "memory_ok s =
     (let ds = takeWhile is_digit s; r = dropWhile is_digit s in
      ds \<noteq> [] \<and>
      (case r of
         [] \<Rightarrow> True
       | c # cs \<Rightarrow>
           if c = CHR ''.'' then takeWhile is_digit cs \<noteq> [] \<and> unit_ok (dropWhile is_digit cs)
           else unit_ok r))"

text \<open>\<open>^[A-Za-z0-9:+/=._-]+$\<close>\<close>

definition pin_ok :: "string \<Rightarrow> bool" where
  "pin_ok s \<longleftrightarrow> s \<noteq> [] \<and>
     list_all (\<lambda>x. is_lower x \<or> is_upper x \<or> is_digit x \<or> x \<in> set '':+/=._-'') s"

definition ident_pattern :: string where
  "ident_pattern = ''^[A-Za-z][A-Za-z0-9_-]*$''"

definition service_pattern :: string where
  "service_pattern = ''^[a-z0-9][a-z0-9_-]*$''"

definition pin_pattern :: string where
  "pin_pattern = ''^[A-Za-z0-9:+/=._-]+$''"

subsection \<open>Names\<close>

definition to_upper :: "char \<Rightarrow> char" where
  "to_upper c = (if is_lower c then char_of (byte c - 32) else c)"

definition env_token :: "string \<Rightarrow> string" where
  "env_token s = map (\<lambda>c. to_upper (if c = CHR ''-'' then CHR ''_'' else c)) s"

definition runner_owned :: "string list" where
  "runner_owned = [''PATH'', ''HOME'', ''GIT_SSH_COMMAND'', ''SSH_AUTH_SOCK'']"

definition engine_owned :: "string \<Rightarrow> bool" where
  "engine_owned k \<longleftrightarrow> has_prefix ''FABER_'' k \<or> k = ''SSH_AUTH_SOCK''"

definition reserved_paths :: "string list" where
  "reserved_paths = [''/faber'', ''/run/secrets'', ''/ssh-agent'', ''/workspace'', ''/home/box'', ''/tmp'']"

definition safe_name :: "string \<Rightarrow> bool" where
  "safe_name s \<longleftrightarrow> s \<noteq> [] \<and> \<not> is_abs s \<and> hd s \<noteq> CHR ''.'' \<and> hd s \<noteq> CHR ''~'' \<and>
     CHR ''/'' \<notin> set s \<and> CHR 0x5C \<notin> set s \<and> \<not> has_dotdot_segment s"

text \<open>\<open>containerPathUnder\<close>: the first cleaned path is the second or lies below it.\<close>

definition trim_slash :: "string \<Rightarrow> string" where
  "trim_slash p = (if p \<noteq> [] \<and> last p = CHR ''/'' then butlast p else p)"

definition container_path_under :: "string \<Rightarrow> string \<Rightarrow> bool" where
  "container_path_under a b =
     (let a' = path_clean a; b' = path_clean b
      in a' = b' \<or> has_prefix (trim_slash b' @ ''/'') a')"

subsection \<open>The substrate\<close>

definition check_version :: "config \<Rightarrow> field_error list" where
  "check_version cfg =
     (if cf_version cfg \<noteq> 1 then [verr ''version'' (''must be 1 (got '' @ itoa (cf_version cfg) @ '')'')] else [])"

definition check_network :: "network_def \<Rightarrow> field_error list" where
  "check_network n =
     (if nw_name n = [] \<and> nw_proxy n = [] \<and> nw_no_proxy n = [] \<and> \<not> nw_nftables n then []
      else (if nw_name n = [] then [verr ''network.name'' ''required when a network is configured''] else []) @
        (if nw_proxy n \<noteq> [] \<and> nw_nftables n
         then [verr ''network'' ''exactly one of proxy / nftables must be set (both given)''] else []) @
        (if nw_proxy n = [] \<and> \<not> nw_nftables n
         then [verr ''network'' ''exactly one of proxy / nftables must be set (neither given)''] else []))"

definition check_remote :: "remote_def \<Rightarrow> field_error list" where
  "check_remote r =
     (if rm_url r = [] \<and> rm_host_key_file r = [] \<and> \<not> rm_tofu r then []
      else (if rm_url r = [] then [verr ''remote.url'' ''required when a remote is configured''] else []) @
        (if rm_host_key_file r \<noteq> [] \<and> rm_tofu r
         then [verr ''remote'' ''exactly one of host_key_file / tofu must be set (both given)''] else []) @
        (if rm_host_key_file r = [] \<and> \<not> rm_tofu r
         then [verr ''remote'' ''exactly one of host_key_file / tofu must be set (neither given)''] else []))"

text \<open>The services in name order; \<open>toks\<close> maps an env token to the first service that claimed it.\<close>

definition service_mode_errors :: "string \<Rightarrow> service_def \<Rightarrow> field_error list" where
  "service_mode_errors name svc =
     (if sv_mode svc \<in> {''proxy'', ''file'', ''helper''} then []
      else [verr (''credentials.services.'' @ name @ ''.mode'')
              (''unknown mode '' @ quote_str (sv_mode svc) @ '' (legal: proxy, file, helper)'')])"

fun check_services :: "service_def smap \<Rightarrow> string list \<Rightarrow> string smap \<Rightarrow> field_error list" where
  "check_services svcs [] toks = []"
| "check_services svcs (name # names) toks =
     (let p = ''credentials.services.'' @ name; tok = env_token name;
          modes = (case map_of svcs name of None \<Rightarrow> [] | Some svc \<Rightarrow> service_mode_errors name svc)
      in if \<not> service_name_ok name
         then verr p (''invalid service name (must match '' @ service_pattern @ '')'') # modes @ check_services svcs names toks
         else if tok \<in> set runner_owned \<or> engine_owned tok
         then verr p (''service name exports the engine- or runner-owned variable '' @ tok @
                '' inside the box; rename the service'') # modes @ check_services svcs names toks
         else (case map_of toks tok of
             Some first \<Rightarrow> verr p (''service name collides with '' @ quote_str first @
                '': both export the env variable '' @ tok) # modes @ check_services svcs names toks
           | None \<Rightarrow> modes @ check_services svcs names (put tok name toks)))"

definition check_credentials :: "config \<Rightarrow> field_error list" where
  "check_credentials cfg =
     (let svcs = cd_services (cf_credentials cfg) in check_services svcs (sorted_keys svcs) [])"

subsection \<open>Names of the libraries\<close>

definition section_keys :: "config \<Rightarrow> (string \<times> string list) list" where
  "section_keys cfg =
     [(''identities'', sorted_keys (cf_identities cfg)), (''templates'', sorted_keys (cf_templates cfg)),
      (''workflows'', sorted_keys (cf_workflows cfg)), (''images'', sorted_keys (cf_images cfg)),
      (''skills'', sorted_keys (cf_skills cfg)), (''hooks'', sorted_keys (cf_hooks cfg)),
      (''invoke_profiles'', sorted_keys (cf_invoke_profiles cfg))]"

definition name_errors :: "string \<Rightarrow> string \<Rightarrow> field_error list" where
  "name_errors sec k =
     (if k = [] then [verr sec ''empty name'']
      else if \<not> safe_name k
      then [verr (sec @ ''.'' @ quote_str k)
              (''name must be a safe identifier (no '' @ [CHR 0x22] @ ''/'' @ [CHR 0x22] @ '', '' @ [CHR 0x22] @ ''..'' @
               [CHR 0x22] @ '', or leading '' @ [CHR 0x22] @ ''.'' @ [CHR 0x22] @ '')'')]
      else [])"

definition check_name_discipline :: "config \<Rightarrow> field_error list" where
  "check_name_discipline cfg =
     concat (map (\<lambda>(sec, ks). concat (map (name_errors sec) ks)) (section_keys cfg)) @
     concat (map (\<lambda>n. if map_of (cf_workflows cfg) n \<noteq> None
         then [verr (''templates.'' @ n) ''name collides with a workflow of the same name; use: would be ambiguous'']
         else []) (sorted_keys (cf_templates cfg)))"

definition check_lanes :: "config \<Rightarrow> field_error list" where
  "check_lanes cfg =
     concat (map (\<lambda>n. if get_or 0 (cf_lanes cfg) n < 1 then [verr (''lanes.'' @ n) ''must be >= 1''] else [])
       (sorted_keys (cf_lanes cfg)))"

definition check_pin :: "string \<Rightarrow> pin_def option \<Rightarrow> field_error list" where
  "check_pin path pin =
     (case pin of None \<Rightarrow> []
      | Some p \<Rightarrow>
          (if pin_rev p = [] \<or> pin_sha256 p = [] then [verr path ''rev and sha256 are both required''] else []) @
          (if pin_rev p \<noteq> [] \<and> \<not> pin_ok (pin_rev p)
           then [verr (path @ ''.rev'') (''invalid characters (allowed: '' @ pin_pattern @ '')'')] else []) @
          (if pin_sha256 p \<noteq> [] \<and> \<not> pin_ok (pin_sha256 p)
           then [verr (path @ ''.sha256'') (''invalid characters (allowed: '' @ pin_pattern @ '')'')] else []))"

definition check_images :: "config \<Rightarrow> field_error list" where
  "check_images cfg =
     concat (map (\<lambda>n. case map_of (cf_images cfg) n of None \<Rightarrow> []
         | Some im \<Rightarrow> check_pin (''images.'' @ n @ ''.pin'') (im_pin im)) (sorted_keys (cf_images cfg)))"

definition check_resolved_invoke :: "string \<Rightarrow> resolved_invoke \<Rightarrow> field_error list" where
  "check_resolved_invoke path ri = map (\<lambda>e. verr (path @ ''.'' @ fe_path e) (fe_msg e)) (violations ri)"

definition check_invoke_profiles :: "config \<Rightarrow> field_error list" where
  "check_invoke_profiles cfg =
     concat (map (\<lambda>n. case map_of (cf_invoke_profiles cfg) n of None \<Rightarrow> []
         | Some p \<Rightarrow> check_resolved_invoke (''invoke_profiles.'' @ n) (overlay_invoke default_invoke p))
       (sorted_keys (cf_invoke_profiles cfg)))"

subsection \<open>Templates\<close>

definition check_toolset :: "config \<Rightarrow> string \<Rightarrow> template_def \<Rightarrow> field_error list" where
  "check_toolset cfg path t =
     (case td_build t of
        Some b \<Rightarrow>
          if td_image t \<noteq> [] then [verr path ''image and build are mutually exclusive'']
          else if bd_packages b = []
          then [verr (path @ ''.build.packages'') ''must be non-empty (the toolset is the environment)''] else []
      | None \<Rightarrow>
          if td_image t = [] then [verr path ''a toolset is required: set image (a name) or build (inline)'']
          else (case map_of (cf_images cfg) (td_image t) of
              None \<Rightarrow> [verr (path @ ''.image'') (''unknown image '' @ quote_str (td_image t) @
                        did_you_mean (td_image t) (sorted_keys (cf_images cfg)))]
            | Some im \<Rightarrow> if im_packages im = []
                then [verr (path @ ''.image'') (''image '' @ quote_str (td_image t) @
                        '' has no packages (the toolset is the environment)'')] else []))"

definition check_invoke :: "config \<Rightarrow> string \<Rightarrow> template_def \<Rightarrow> field_error list" where
  "check_invoke cfg path t =
     (case td_invoke t of None \<Rightarrow> []
      | Some iv \<Rightarrow>
          if iv_profile iv \<noteq> [] \<and> map_of (cf_invoke_profiles cfg) (iv_profile iv) = None
          then [verr (path @ ''.invoke.profile'') (''unknown invoke profile '' @ quote_str (iv_profile iv) @
                  did_you_mean (iv_profile iv) (sorted_keys (cf_invoke_profiles cfg)))]
          else (case resolve_invoke cfg t of None \<Rightarrow> [] | Some ri \<Rightarrow> check_resolved_invoke (path @ ''.invoke'') ri))"

definition check_identity :: "config \<Rightarrow> string \<Rightarrow> template_def \<Rightarrow> field_error list" where
  "check_identity cfg path t =
     (if td_identity t \<noteq> [] \<and> rn_identity (td_run t) \<noteq> []
      then [verr path ''identity and run.identity are mutually exclusive''] else []) @
     (let ident = (if td_identity t \<noteq> [] then td_identity t else rn_identity (td_run t));
          ipath = (if td_identity t \<noteq> [] then path @ ''.identity'' else path @ ''.run.identity'')
      in if ident \<noteq> [] \<and> map_of (cf_identities cfg) ident = None
         then [verr ipath (''unknown identity '' @ quote_str ident @
                 did_you_mean ident (sorted_keys (cf_identities cfg)))] else [])"

definition check_hook :: "config \<Rightarrow> string \<Rightarrow> string \<times> string \<Rightarrow> field_error list" where
  "check_hook cfg path f =
     (if snd f = [] \<or> is_path (snd f) then []
      else if map_of (cf_hooks cfg) (snd f) = None
      then [verr (path @ ''.hooks.'' @ fst f) (''unknown hook '' @ quote_str (snd f) @
              did_you_mean (snd f) (sorted_keys (cf_hooks cfg)))]
      else [])"

definition check_hooks :: "config \<Rightarrow> string \<Rightarrow> template_def \<Rightarrow> field_error list" where
  "check_hooks cfg path t =
     concat (map (check_hook cfg path)
       [(''context'', hk_context (td_hooks t)), (''prelude'', hk_prelude (td_hooks t)),
        (''postlude'', hk_postlude (td_hooks t)), (''on_failure'', hk_on_failure (td_hooks t))])"

definition check_link :: "string \<Rightarrow> string \<Rightarrow> field_error list" where
  "check_link p link =
     (if is_abs link then [verr p (''must be relative to $HOME, not absolute: '' @ quote_str link)]
      else if has_dotdot_segment link
      then [verr p (''must not contain a '' @ quote_str ''..'' @ '' path segment: '' @ quote_str link)]
      else [])"

definition check_skill_name :: "config \<Rightarrow> string \<Rightarrow> string \<Rightarrow> field_error list" where
  "check_skill_name cfg p nm =
     (if \<not> safe_name nm
      then [verr p (''skill name must be a safe identifier (no '' @ [CHR 0x22] @ ''/'' @ [CHR 0x22] @ '', '' @ [CHR 0x22] @
              ''..'' @ [CHR 0x22] @ '', or leading '' @ [CHR 0x22] @ ''.'' @ [CHR 0x22] @ ''): '' @ quote_str nm)]
      else if map_of (cf_skills cfg) nm = None
      then [verr p (''unknown skill '' @ quote_str nm @ did_you_mean nm (sorted_keys (cf_skills cfg)))]
      else [])"

fun check_skill_names :: "config \<Rightarrow> string \<Rightarrow> nat \<Rightarrow> string list \<Rightarrow> field_error list" where
  "check_skill_names cfg path i [] = []"
| "check_skill_names cfg path i (nm # nms) =
     check_skill_name cfg (path @ ''.skills['' @ itoa (int i) @ '']'') nm @ check_skill_names cfg path (Suc i) nms"

definition check_skills :: "config \<Rightarrow> string \<Rightarrow> template_def \<Rightarrow> field_error list" where
  "check_skills cfg path t =
     (let link = td_skills_link t; names = sr_names (td_skills t) in
      if names \<noteq> [] then
        (if link = [] then [verr (path @ ''.skills_link'') ''required when skills is a named list'']
         else check_link (path @ ''.skills_link'') link) @
        check_skill_names cfg path 0 names @
        (if td_skill t \<noteq> [] \<and> td_skill t \<notin> set names
         then [verr (path @ ''.skill'') (''primary skill '' @ quote_str (td_skill t) @
                 '' must be one of the delivered skills ['' @ join '', '' names @ '']'')] else [])
      else (case sr_inline (td_skills t) of
          Some sk \<Rightarrow>
            (if link \<noteq> [] then [verr (path @ ''.skills_link'')
                ''must not be set with an inline skills mapping (the link lives at skills.link)''] else []) @
            (if sk_dir sk = [] then [verr (path @ ''.skills.dir'') ''required when skills is present''] else []) @
            (if sk_link sk = [] then [verr (path @ ''.skills.link'') ''required when skills is present'']
             else check_link (path @ ''.skills.link'') (sk_link sk))
        | None \<Rightarrow>
            (if link \<noteq> [] then [verr (path @ ''.skills_link'')
                ''set without a skills leg (a discovery path with nothing to deliver)''] else [])))"

subsection \<open>Declarations\<close>

text \<open>Names in order; \<open>toks\<close> maps an env token to the first name that claimed it.\<close>

fun check_slot_names :: "string \<Rightarrow> string list \<Rightarrow> string smap \<Rightarrow> field_error list" where
  "check_slot_names path [] toks = []"
| "check_slot_names path (n # ns) toks =
     (let p = path @ ''.'' @ n; tok = env_token n in
      if \<not> ident_ok n
      then verr p (''invalid name '' @ quote_str n @ '' (must match '' @ ident_pattern @ ''; names embed into env variables)'')
             # check_slot_names path ns toks
      else (case map_of toks tok of
          Some first \<Rightarrow> verr p (''name collides with '' @ quote_str first @ '': both map to the env token '' @ tok)
             # check_slot_names path ns toks
        | None \<Rightarrow> check_slot_names path ns (put tok n toks)))"

definition default_errors :: "(goval \<Rightarrow> string) \<Rightarrow> string \<Rightarrow> param_def \<Rightarrow> field_error list" where
  "default_errors shw p d =
     (case pd_default d of None \<Rightarrow> []
      | Some v \<Rightarrow>
          if yaml_type_name v \<noteq> pd_type d
          then [verr (p @ ''.default'') (''default is '' @ yaml_type_name v @ '', declared type is '' @ pd_type d)]
          else if pd_enum d \<noteq> [] \<and> \<not> (case v of VStr s \<Rightarrow> s \<in> set (pd_enum d) | _ \<Rightarrow> False)
          then [verr (p @ ''.default'') (''default '' @ shw v @ '' not in enum ['' @ join '', '' (pd_enum d) @ '']'')]
          else [])"

definition check_def :: "(goval \<Rightarrow> string) \<Rightarrow> string \<Rightarrow> param_def \<Rightarrow> field_error list" where
  "check_def shw p d =
     (if pd_type d \<in> {''string'', ''int'', ''bool'', ''object''} then []
      else if pd_type d = [] then [verr (p @ ''.type'') ''required (one of string, int, bool, object)'']
      else [verr (p @ ''.type'') (''unknown type '' @ quote_str (pd_type d) @ '' (one of string, int, bool, object)'')]) @
     (if pd_enum d \<noteq> [] \<and> pd_type d \<noteq> ''string'' then [verr (p @ ''.enum'') ''enum is only valid on string fields''] else []) @
     default_errors shw p d"

definition check_param_defs :: "(goval \<Rightarrow> string) \<Rightarrow> string \<Rightarrow> param_def smap \<Rightarrow> field_error list" where
  "check_param_defs shw path defs =
     check_slot_names path (sorted_keys defs) [] @
     concat (map (\<lambda>n. case map_of defs n of None \<Rightarrow> [] | Some d \<Rightarrow> check_def shw (path @ ''.'' @ n) d) (sorted_keys defs))"

text \<open>\<open>checkRunContract\<close>: the agent CLI is named, no engine-owned variable is set, no volume overlaps a
  reserved path (the first overlapped path is reported).\<close>

definition volume_errors :: "string \<Rightarrow> string smap \<Rightarrow> string \<Rightarrow> field_error list" where
  "volume_errors path vols host =
     (let c = get_or [] vols host in
      case List.find (\<lambda>r. container_path_under c r \<or> container_path_under r c) reserved_paths of
        None \<Rightarrow> []
      | Some r \<Rightarrow> [verr (path @ ''.run.volumes.'' @ host)
          (''container path '' @ quote_str c @ '' overlaps the reserved path '' @ quote_str r)])"

definition check_run_contract :: "string \<Rightarrow> template_def \<Rightarrow> field_error list" where
  "check_run_contract path t =
     (let env = rn_env (td_run t); vols = rn_volumes (td_run t) in
      (if get_or [] env ''FABER_AGENT_CLI'' = []
       then [verr (path @ ''.run.env.FABER_AGENT_CLI'')
          ''required (faber defaults no agent vendor); name the agent CLI binary the box invokes''] else []) @
      concat (map (\<lambda>k. if k \<noteq> ''FABER_AGENT_CLI'' \<and> engine_owned k
          then [verr (path @ ''.run.env.'' @ k) ''engine- or security-owned name (only FABER_AGENT_CLI may be set here)'']
          else []) (sorted_keys env)) @
      concat (map (volume_errors path vols) (sorted_keys vols)))"

definition check_template :: "(goval \<Rightarrow> string) \<Rightarrow> config \<Rightarrow> string \<Rightarrow> template_def \<Rightarrow> field_error list" where
  "check_template shw cfg path t =
     (if td_skill t = [] then [verr (path @ ''.skill'') ''required''] else []) @
     (if td_model t = [] then [verr (path @ ''.model'')
        ''required; the agent model is pinned per template, never left to the CLI's vendor default''] else []) @
     (if td_effort t = [] then [verr (path @ ''.effort'')
        ''required; the agent effort level is pinned per template, never left to the CLI's vendor default''] else []) @
     check_toolset cfg path t @
     (case td_build t of None \<Rightarrow> [] | Some b \<Rightarrow> check_pin (path @ ''.build.pin'') (bd_pin b)) @
     check_invoke cfg path t @
     check_identity cfg path t @
     (if td_lane t \<noteq> [] \<and> map_of (cf_lanes cfg) (td_lane t) = None
      then [verr (path @ ''.lane'') (''unknown lane '' @ quote_str (td_lane t) @
              did_you_mean (td_lane t) (sorted_keys (cf_lanes cfg)))] else []) @
     check_hooks cfg path t @
     check_skills cfg path t @
     (let m = res_memory (rn_resources (td_run t)) in
      if m \<noteq> [] \<and> \<not> memory_ok m
      then [verr (path @ ''.run.resources.memory'') (''invalid memory string '' @ quote_str m)] else []) @
     (if f64_less (res_cpus (rn_resources (td_run t))) (Fin 0 0)
      then [verr (path @ ''.run.resources.cpus'') ''must be >= 0''] else []) @
     check_param_defs shw (path @ ''.inputs'') (td_inputs t) @
     check_param_defs shw (path @ ''.output'') (td_output t) @
     check_run_contract path t"

definition check_templates :: "(goval \<Rightarrow> string) \<Rightarrow> config \<Rightarrow> field_error list" where
  "check_templates shw cfg =
     concat (map (\<lambda>n. case map_of (cf_templates cfg) n of None \<Rightarrow> []
         | Some t \<Rightarrow> check_template shw cfg (''templates.'' @ n) t) (sorted_keys (cf_templates cfg)))"

subsection \<open>Workflows\<close>

definition binding_errors :: "bool \<Rightarrow> string \<Rightarrow> goval \<Rightarrow> field_error list" where
  "binding_errors in_gen p v =
     (case parse_binding v of
        Inl e \<Rightarrow> [verr p e]
      | Inr (BLit _) \<Rightarrow> []
      | Inr (BRef r) \<Rightarrow>
          (case ref_root r of
             RootItem \<Rightarrow> if in_gen then []
               else [verr p ''${item.*} is only legal inside a generate's with: bindings'']
           | RootSources \<Rightarrow> [verr p
               ''${sources.*} is not a legal binding value; name the source in a generate's source: field'']
           | _ \<Rightarrow> []))"

definition check_bindings :: "string \<Rightarrow> goval smap \<Rightarrow> bool \<Rightarrow> field_error list" where
  "check_bindings path w in_gen =
     concat (map (\<lambda>slot. binding_errors in_gen (path @ ''.'' @ slot) (get_or VNull w slot)) (sorted_keys w))"

definition arg_errors :: "string \<Rightarrow> string \<Rightarrow> field_error list" where
  "arg_errors p a =
     (case parse_binding (VStr a) of
        Inl e \<Rightarrow> [verr p e]
      | Inr (BLit _) \<Rightarrow> []
      | Inr (BRef r) \<Rightarrow> if ref_root r = RootParams then []
          else [verr p (''source args may only reference ${params.*} (got '' @ ref_string r @ '')'')])"

fun check_args :: "string \<Rightarrow> nat \<Rightarrow> string list \<Rightarrow> field_error list" where
  "check_args p i [] = []"
| "check_args p i (a # as) = arg_errors (p @ ''['' @ itoa (int i) @ '']'') a @ check_args p (Suc i) as"

definition check_source :: "string \<Rightarrow> string \<Rightarrow> source_def \<Rightarrow> field_error list" where
  "check_source path src s =
     (if so_command s = [] then [verr (path @ ''.sources.'' @ src @ ''.command'') ''required''] else []) @
     check_args (path @ ''.sources.'' @ src @ ''.args'') 0 (so_args s)"

text \<open>\<open>stepIDsAt\<close>: what a \<open>depends_on\<close> may name at one nesting level.\<close>

definition step_ids_at :: "step_def list \<Rightarrow> string set \<Rightarrow> string set" where
  "step_ids_at steps outer = outer \<union> set (filter (\<lambda>i. i \<noteq> []) (map sd_id steps))"

text \<open>The errors of a step's id against the ids seen so far, with the ids seen after it.\<close>

definition id_errors :: "string \<Rightarrow> string \<Rightarrow> string smap \<Rightarrow> field_error list \<times> string smap" where
  "id_errors sp i seen =
     (if i = [] then ([verr (sp @ ''.id'') ''required''], seen)
      else if \<not> ident_ok i
      then ([verr (sp @ ''.id'') (''invalid step id '' @ quote_str i @ '' (must match '' @ ident_pattern @ ''; '' @
               [CHR 0x27] @ ''/'' @ [CHR 0x27] @ '', '' @ [CHR 0x27] @ ''@'' @ [CHR 0x27] @ '', '' @ [CHR 0x27] @ ''['' @
               [CHR 0x27] @ '', '' @ [CHR 0x27] @ '']'' @ [CHR 0x27] @ '' and '' @ [CHR 0x27, CHR 0x22, CHR 0x27] @
               '' are reserved for node-id namespacing)'')], seen)
      else (case map_of seen i of
          Some first \<Rightarrow> ([verr (sp @ ''.id'') (''duplicate step id '' @ quote_str i @
              '' (first declared at '' @ first @ '')'')], seen)
        | None \<Rightarrow> ([], put i sp seen)))"

definition retry_errors :: "string \<Rightarrow> step_def \<Rightarrow> field_error list" where
  "retry_errors sp s = (if sd_retry s < 0 then [verr (sp @ ''.retry'') ''must be >= 0''] else [])"

definition depends_errors :: "string \<Rightarrow> step_def \<Rightarrow> string set \<Rightarrow> field_error list" where
  "depends_errors sp s ids =
     concat (map (\<lambda>dep. if dep \<notin> ids \<or> dep = sd_id s
         then [verr (sp @ ''.depends_on'') (''unknown step id '' @ quote_str dep @ '' in this scope'')] else [])
       (sd_depends_on s))"

definition forms :: "step_def \<Rightarrow> nat" where
  "forms s = (if sd_use s \<noteq> [] then 1 else 0) + (if sd_loop s \<noteq> None then 1 else 0) +
     (if sd_generate s \<noteq> None then 1 else 0)"

definition use_errors :: "config \<Rightarrow> string \<Rightarrow> step_def \<Rightarrow> field_error list" where
  "use_errors cfg sp s =
     (if map_of (cf_templates cfg) (sd_use s) = None \<and> map_of (cf_workflows cfg) (sd_use s) = None
      then [verr (sp @ ''.use'') (''unknown template or workflow '' @ quote_str (sd_use s))] else []) @
     check_bindings (sp @ ''.with'') (sd_with s) False"

definition generate_errors :: "config \<Rightarrow> workflow_def \<Rightarrow> string \<Rightarrow> generate_def \<Rightarrow> field_error list" where
  "generate_errors cfg w sp g =
     (if map_of (wf_sources w) (gd_source g) = None
      then [verr (sp @ ''.generate.source'') (''unknown source '' @ quote_str (gd_source g))] else []) @
     (if map_of (cf_workflows cfg) (gd_workflow g) = None
      then [verr (sp @ ''.generate.workflow'') (''unknown workflow '' @ quote_str (gd_workflow g))] else []) @
     check_bindings (sp @ ''.generate.with'') (gd_with g) True @
     (if gd_max_parallel g < 0
      then [verr (sp @ ''.generate.max_parallel'') ''must be >= 1 (0 or absent = unbounded)''] else [])"

definition loop_errors :: "workflow_def \<Rightarrow> string \<Rightarrow> step_def \<Rightarrow> loop_def \<Rightarrow> field_error list" where
  "loop_errors w sp s l =
     (if sd_with s \<noteq> [] then [verr (sp @ ''.with'') ''loop steps take no with: bindings''] else []) @
     (if ld_expect l \<noteq> [] \<and> map_of (wf_sources w) (ld_expect l) = None
      then [verr (sp @ ''.loop.expect'') (''unknown source '' @ quote_str (ld_expect l))] else [])"

definition loop_head_errors :: "string \<Rightarrow> loop_def \<Rightarrow> field_error list" where
  "loop_head_errors sp l =
     (if ld_max l < 1 then [verr (sp @ ''.loop.max'') ''required and must be >= 1 (bounded loops only)''] else []) @
     (if ld_until l = [] then [verr (sp @ ''.loop.until'') ''required''] else [])"

text \<open>\<open>checkSteps\<close>: the errors of the steps from index \<open>i\<close> on, and the ids seen, for the steps after a
  loop as for those inside it.\<close>

function (sequential) check_steps ::
  "config \<Rightarrow> workflow_def \<Rightarrow> string set \<Rightarrow> string \<Rightarrow> nat \<Rightarrow> step_def list \<Rightarrow> string smap
    \<Rightarrow> field_error list \<times> string smap" where
  "check_steps cfg w ids path i [] seen = ([], seen)"
| "check_steps cfg w ids path i (s # ss) seen =
     (let sp = path @ ''['' @ itoa (int i) @ '']'';
          ie = id_errors sp (sd_id s) seen;
          common = fst ie @ retry_errors sp s @ depends_errors sp s ids;
          body = (if forms s \<noteq> 1 then ([verr sp ''step must have exactly one of use/loop/generate''], snd ie)
            else if sd_use s \<noteq> [] then (use_errors cfg sp s, snd ie)
            else (case sd_loop s of
                Some l \<Rightarrow>
                  if ld_steps l = []
                  then (loop_head_errors sp l @ [verr (sp @ ''.loop.steps'') ''must be non-empty''], snd ie)
                  else (let r = check_steps cfg w (step_ids_at (ld_steps l) ids) (sp @ ''.loop.steps'') 0 (ld_steps l) (snd ie)
                        in (loop_head_errors sp l @ loop_errors w sp s l @ fst r, snd r))
              | None \<Rightarrow> (case sd_generate s of Some g \<Rightarrow> (generate_errors cfg w sp g, snd ie) | None \<Rightarrow> ([], snd ie))));
          rest = check_steps cfg w ids path (Suc i) ss (snd body)
      in (common @ fst body @ fst rest, snd rest))"
  by pat_completeness auto
termination
proof (relation "measure (\<lambda>(cfg, w, ids, path, i, ss, seen). size_list size ss)", goal_cases)
  case (2 cfg w ids path i s ss seen sp ie common l)
  then show ?case using step_loop_size [of s "s # ss" l] by simp
qed simp_all

definition check_workflow :: "(goval \<Rightarrow> string) \<Rightarrow> config \<Rightarrow> string \<Rightarrow> workflow_def \<Rightarrow> field_error list" where
  "check_workflow shw cfg path w =
     check_param_defs shw (path @ ''.params'') (wf_params w) @
     concat (map (\<lambda>src. case map_of (wf_sources w) src of None \<Rightarrow> [] | Some s \<Rightarrow> check_source path src s)
       (sorted_keys (wf_sources w))) @
     (if wf_steps w = [] then [verr (path @ ''.steps'') ''must be non-empty'']
      else fst (check_steps cfg w (step_ids_at (wf_steps w) {}) (path @ ''.steps'') 0 (wf_steps w) []))"

definition check_workflows :: "(goval \<Rightarrow> string) \<Rightarrow> config \<Rightarrow> field_error list" where
  "check_workflows shw cfg =
     concat (map (\<lambda>n. case map_of (cf_workflows cfg) n of None \<Rightarrow> []
         | Some w \<Rightarrow> check_workflow shw cfg (''workflows.'' @ n) w) (sorted_keys (cf_workflows cfg)))"

text \<open>\<open>Validate\<close>: the violations of the assembly first, then every check.\<close>

definition validate_config :: "(goval \<Rightarrow> string) \<Rightarrow> config \<Rightarrow> assembly_violation list \<Rightarrow> field_error list" where
  "validate_config shw cfg viols =
     map (\<lambda>a. verr (av_path a) (av_msg a)) viols @
     check_version cfg @ check_network (cf_network cfg) @ check_remote (cf_remote cfg) @
     check_credentials cfg @ check_name_discipline cfg @ check_lanes cfg @ check_images cfg @
     check_invoke_profiles cfg @ check_templates shw cfg @ check_workflows shw cfg"

end
