(* ===== verification/Kahn.thy ===== *)
theory Kahn
  imports Expansion
begin

text \<open>
  Kahn's algorithm as the code runs it, twice (\<open>pipeline/generate.go\<close> over items,
  \<open>config/wiring.go\<close> over nodes): the count it returns is the number of nodes exactly when the edges
  have no cycle, and the in-degrees it leaves are positive exactly on the nodes it never took off.
\<close>

subsection \<open>Lowering\<close>

lemma lower_all_get: "get_or 0 (snd (lower_all xs m)) k = get_or 0 m k - int (count_list xs k)"
proof (induction xs arbitrary: m)
  case (Cons x xs)
  then show ?case by (simp add: Let_def split_beta)
qed simp

lemma lower_all_keys: "set xs \<subseteq> keys m \<Longrightarrow> keys (snd (lower_all xs m)) = keys m"
proof (induction xs arbitrary: m)
  case (Cons x xs)
  have "keys (snd (lower_all xs (put x (get_or 0 m x - 1) m))) = keys (put x (get_or 0 m x - 1) m)"
    using Cons.prems by (intro Cons.IH) auto
  then show ?case using Cons.prems by (auto simp: Let_def split_beta)
qed simp

lemma lower_all_fst: "distinct (map fst m) \<Longrightarrow> distinct (map fst (snd (lower_all xs m)))"
  by (induction xs arbitrary: m) (auto simp: Let_def split_beta distinct_update)

lemma lower_all_ready:
  "\<forall>k \<in> set xs. int (count_list xs k) \<le> get_or 0 m k \<Longrightarrow>
   distinct (fst (lower_all xs m)) \<and>
   set (fst (lower_all xs m)) = {k \<in> set xs. get_or 0 m k = int (count_list xs k)}"
proof (induction xs arbitrary: m)
  case (Cons x xs)
  define m1 where "m1 = put x (get_or 0 m x - 1) m"
  have le: "int (count_list xs k) \<le> get_or 0 m1 k" if "k \<in> set xs" for k
    using Cons.prems that by (auto simp: m1_def split: if_splits)
  note ih = Cons.IH [of m1] le
  have x: "get_or 0 m1 x = get_or 0 m x - 1" by (simp add: m1_def)
  have o: "get_or 0 m1 k = get_or 0 m k" if "k \<noteq> x" for k using that by (simp add: m1_def)
  have c: "x \<notin> set xs" if "get_or 0 m x = 1"
  proof
    assume "x \<in> set xs"
    then have "0 < count_list xs x" by (simp add: count_list_0_iff zero_less_iff_neq_zero)
    with Cons.prems that show False by (auto dest: bspec [of _ _ x])
  qed
  have "distinct (fst (lower_all xs m1)) \<and> set (fst (lower_all xs m1)) = {k \<in> set xs. get_or 0 m1 k = int (count_list xs k)}"
    using ih by blast
  moreover have "fst (lower_all (x # xs) m) = (if get_or 0 m x = 1 then x # fst (lower_all xs m1) else fst (lower_all xs m1))"
    by (simp add: Let_def split_beta m1_def)
  ultimately show ?case using c x o by auto
qed simp

subsection \<open>The invariant of the loop\<close>

definition waiting :: "(string \<times> string) list \<Rightarrow> string set \<Rightarrow> string \<Rightarrow> nat" where
  "waiting es P k = length (filter (\<lambda>p. snd p = k \<and> fst p \<notin> P) es)"

definition kahn_inv :: "string set \<Rightarrow> (string \<times> string) list \<Rightarrow> string set \<Rightarrow> string list \<Rightarrow> int smap \<Rightarrow> bool" where
  "kahn_inv V es P q m \<longleftrightarrow> keys m = V \<and> P \<subseteq> V \<and> set q \<subseteq> V \<and> distinct q \<and> set q \<inter> P = {} \<and>
     (\<forall>k \<in> V. get_or 0 m k = int (waiting es P k)) \<and>
     (\<forall>k \<in> V. waiting es P k = 0 \<longleftrightarrow> k \<in> P \<union> set q) \<and> acyclic (set es \<inter> P \<times> P)"

lemma waiting_zero: "waiting es P k = 0 \<longleftrightarrow> (\<forall>a. (a, k) \<in> set es \<longrightarrow> a \<in> P)"
  by (auto simp: waiting_def filter_empty_conv)

lemma succ_count: "count_list (map snd (filter (\<lambda>p. fst p = x) es)) k = length (filter (\<lambda>p. fst p = x \<and> snd p = k) es)"
  by (induction es) auto

lemma waiting_insert:
  "x \<notin> P \<Longrightarrow> waiting es P k = waiting es (insert x P) k + count_list (map snd (filter (\<lambda>p. fst p = x) es)) k"
  unfolding succ_count waiting_def by (induction es) auto

lemma acyclic_add_sink:
  assumes "acyclic (E \<inter> P \<times> P)" and "\<And>b. b \<in> P \<Longrightarrow> (x, b) \<notin> E" and "(x, x) \<notin> E"
  shows "acyclic (E \<inter> insert x P \<times> insert x P)"
proof -
  let ?A = "E \<inter> P \<times> P" and ?B = "E \<inter> P \<times> {x}"
  have e: "E \<inter> insert x P \<times> insert x P = ?A \<union> ?B" if "x \<notin> P" using assms that by auto
  show ?thesis
  proof (cases "x \<in> P")
    case True
    then show ?thesis using assms(1) by (simp add: insert_absorb)
  next
    case False
    have "(a, b) \<in> (?A \<union> ?B)\<^sup>+ \<Longrightarrow> a \<in> P \<and> (b = x \<or> (a, b) \<in> ?A\<^sup>+)" for a b
    proof (induction rule: trancl_induct)
      case (step y z)
      with False show ?case by (auto intro: trancl_into_trancl)
    qed auto
    then have "acyclic (?A \<union> ?B)" using assms(1) False by (auto simp: acyclic_def)
    with e [OF False] show ?thesis by simp
  qed
qed

lemma kahn_inv_step:
  assumes "kahn_inv V es P (x # q) m" and "set es \<subseteq> V \<times> V"
    and "lower_all (map snd (filter (\<lambda>p. fst p = x) es)) m = (ready, m')"
  shows "kahn_inv V es (insert x P) (q @ ready) m'"
proof -
  let ?s = "map snd (filter (\<lambda>p. fst p = x) es)"
  note i = assms(1) [unfolded kahn_inv_def]
  have x: "x \<in> V" "x \<notin> P" "x \<notin> set q" using i by auto
  have sub: "set ?s \<subseteq> V" using assms(2) by auto
  have r: "ready = fst (lower_all ?s m)" "m' = snd (lower_all ?s m)" using assms(3) by simp_all
  have w: "waiting es P k = waiting es (insert x P) k + count_list ?s k" for k by (rule waiting_insert [OF x(2)])
  have g: "get_or 0 m' k = int (waiting es (insert x P) k)" if "k \<in> V" for k
    using i that w [of k] by (simp add: r lower_all_get)
  have le: "\<forall>k \<in> set ?s. int (count_list ?s k) \<le> get_or 0 m k"
  proof
    fix k assume "k \<in> set ?s"
    then have "get_or 0 m k = int (waiting es P k)" using i sub by blast
    then show "int (count_list ?s k) \<le> get_or 0 m k" unfolding w [of k] by simp
  qed
  note rd = lower_all_ready [OF le, folded r]
  have rs: "set ready = {k \<in> set ?s. waiting es (insert x P) k = 0}"
  proof -
    have "get_or 0 m k = int (count_list ?s k) \<longleftrightarrow> waiting es (insert x P) k = 0" if "k \<in> set ?s" for k
    proof -
      have "get_or 0 m k = int (waiting es P k)" using i sub that by blast
      with w [of k] show ?thesis by simp
    qed
    then show ?thesis using conjunct2 [OF rd] by blast
  qed
  have px: "a \<in> P" if "(a, x) \<in> set es" for a
    using i x that by (auto simp: waiting_zero)
  have sx: "k \<notin> P \<union> set (x # q)" if "k \<in> set ?s" for k
  proof
    assume "k \<in> P \<union> set (x # q)"
    with i have "k \<in> V" "waiting es P k = 0" by auto
    moreover have "(x, k) \<in> set es" using that by auto
    ultimately show False using x by (auto simp: waiting_zero)
  qed
  have z: "waiting es (insert x P) k = 0 \<longleftrightarrow> k \<in> insert x P \<union> set (q @ ready)" if k: "k \<in> V" for k
  proof (cases "k \<in> set ?s")
    case True
    then show ?thesis using sx [OF True] by (auto simp: rs)
  next
    case False
    then have "count_list ?s k = 0" by (simp add: count_list_0_iff)
    then have "waiting es (insert x P) k = waiting es P k" using w [of k] by simp
    then show ?thesis using i k False by (auto simp: rs)
  qed
  have ac: "acyclic (set es \<inter> insert x P \<times> insert x P)"
  proof (rule acyclic_add_sink)
    show "acyclic (set es \<inter> P \<times> P)" using i by blast
    show "(x, b) \<notin> set es" if "b \<in> P" for b
    proof
      assume "(x, b) \<in> set es"
      then have "b \<in> set ?s" unfolding set_map set_filter by (intro image_eqI [of _ _ "(x, b)"]) simp_all
      from sx [OF this] that show False by blast
    qed
    show "(x, x) \<notin> set es" using px x by blast
  qed
  have ky: "keys m' = V" using i lower_all_keys [of ?s m] sub by (simp add: r)
  have "set ready \<subseteq> set ?s" unfolding rs by blast
  then have ry: "set ready \<subseteq> V" "set ready \<inter> (P \<union> set (x # q)) = {}" using sub sx by blast+
  have q: "distinct (q @ ready)" "set (q @ ready) \<inter> insert x P = {}" "set (q @ ready) \<subseteq> V"
    using i conjunct1 [OF rd] ry x by auto
  have p: "insert x P \<subseteq> V" using i x by blast
  show ?thesis unfolding kahn_inv_def
    by (intro conjI ballI ky p q g ac) (simp_all only: z)
qed

lemma kahn_run:
  assumes "set es \<subseteq> V \<times> V" and "finite V" and "kahn (\<lambda>a. map snd (filter (\<lambda>p. fst p = a) es)) q m n = (c, l)"
    and "kahn_inv V es P q m" and "n = card P"
  shows "\<exists>P'. kahn_inv V es P' [] l \<and> c = card P'"
  using assms(3-5)
proof (induction "\<lambda>a. map snd (filter (\<lambda>p. fst p = a) es)" q m n arbitrary: P rule: kahn.induct)
  case (1 m n)
  then show ?case by auto
next
  case (2 x q m n)
  obtain ready m' where r: "lower_all (map snd (filter (\<lambda>p. fst p = x) es)) m = (ready, m')" by fastforce
  have fin: "finite P" "x \<notin> P" using 2(3) assms(2) by (auto simp: kahn_inv_def intro: finite_subset)
  show ?case
    by (rule 2(1) [OF r [symmetric], of "insert x P"])
      (use 2(2,4) r fin kahn_inv_step [OF 2(3) assms(1) r] in simp_all)
qed

lemma no_source_cycle:
  assumes "finite A" and "A \<noteq> {}" and "\<And>k. k \<in> A \<Longrightarrow> \<exists>a \<in> A. (a, k) \<in> E"
  shows "\<not> acyclic E"
proof
  assume a: "acyclic E"
  have "acyclic (E \<inter> A \<times> A)" using a by (rule acyclic_subset) auto
  moreover have "finite (E \<inter> A \<times> A)" using assms(1) by simp
  ultimately have "wf (E \<inter> A \<times> A)" by (rule finite_acyclic_wf [rotated])
  then obtain z where "z \<in> A" "\<And>y. (y, z) \<in> E \<inter> A \<times> A \<Longrightarrow> y \<notin> A"
    using assms(2) wfE_min [of "E \<inter> A \<times> A" _ A] by blast
  with assms(3) [of z] show False by blast
qed

text \<open>The algorithm decides acyclicity.\<close>

lemma kahn_decides:
  assumes "set es \<subseteq> V \<times> V" and "finite V" and "kahn (\<lambda>a. map snd (filter (\<lambda>p. fst p = a) es)) q m 0 = (c, l)"
    and "keys m = V" and "\<forall>k \<in> V. get_or 0 m k = int (length (filter (\<lambda>p. snd p = k) es))"
    and "distinct q" and "set q = {k \<in> V. get_or 0 m k = 0}"
  shows "c = card V \<longleftrightarrow> acyclic (set es)"
    and "keys l = V" and "{k \<in> V. 0 < get_or 0 l k} = {} \<longleftrightarrow> acyclic (set es)"
    and "k \<in> V \<Longrightarrow> 0 < get_or 0 l k \<Longrightarrow> \<exists>a \<in> V. 0 < get_or 0 l a \<and> (a, k) \<in> set es"
    and "(a, b) \<in> set es \<Longrightarrow> 0 < get_or 0 l a \<Longrightarrow> 0 < get_or 0 l b"
proof -
  have "kahn_inv V es {} q m"
    unfolding kahn_inv_def using assms(4-7) by (auto simp: waiting_def acyclic_def)
  from kahn_run [OF assms(1-3) this] obtain P where P: "kahn_inv V es P [] l" "c = card P" by auto
  note i = P(1) [unfolded kahn_inv_def]
  have iz: "waiting es P k = 0 \<longleftrightarrow> k \<in> P" if "k \<in> V" for k
    using i that by (metis Un_empty_right list.set(1))
  have left: "0 < get_or 0 l k \<longleftrightarrow> k \<notin> P" if "k \<in> V" for k
  proof -
    have "get_or 0 l k = int (waiting es P k)" "waiting es P k = 0 \<longleftrightarrow> k \<in> P" using i that by auto
    then show ?thesis by (metis neq0_conv of_nat_0_less_iff)
  qed
  show "keys l = V" using i by simp
  show pred: "\<exists>a \<in> V. 0 < get_or 0 l a \<and> (a, k) \<in> set es" if "k \<in> V" "0 < get_or 0 l k" for k
  proof -
    have "waiting es P k \<noteq> 0" using iz left that by blast
    then obtain a where "(a, k) \<in> set es" "a \<notin> P" by (auto simp: waiting_zero)
    with left [of a] assms(1) show ?thesis by blast
  qed
  have "P = V \<longleftrightarrow> acyclic (set es)"
  proof
    assume "P = V"
    with assms(1) have "set es \<inter> P \<times> P = set es" by auto
    with i show "acyclic (set es)" by simp
  next
    assume a: "acyclic (set es)"
    show "P = V"
    proof (rule ccontr)
      assume "P \<noteq> V"
      with i have ne: "V - P \<noteq> {}" by auto
      have "\<exists>a \<in> V - P. (a, k) \<in> set es" if "k \<in> V - P" for k using pred [of k] that left by auto
      from no_source_cycle [OF _ ne this] assms(2) a show False by blast
    qed
  qed
  moreover have "card P = card V \<longleftrightarrow> P = V" using i assms(2) card_subset_eq by blast
  moreover have "{k \<in> V. 0 < get_or 0 l k} = V - P" using left by auto
  moreover have "V - P = {} \<longleftrightarrow> P = V" using i by blast
  ultimately show "c = card V \<longleftrightarrow> acyclic (set es)" "{k \<in> V. 0 < get_or 0 l k} = {} \<longleftrightarrow> acyclic (set es)"
    unfolding P(2) by simp_all
  show "0 < get_or 0 l b" if "(a, b) \<in> set es" "0 < get_or 0 l a"
  proof -
    have v: "a \<in> V" "b \<in> V" using that assms(1) by auto
    then have "a \<notin> P" using left that by blast
    then have "waiting es P b \<noteq> 0" using that unfolding waiting_zero by blast
    then show ?thesis using iz [OF v(2)] left [OF v(2)] by (simp only: simp_thms)
  qed
qed

end
