(* ===== verification/Params.thy ===== *)
theory Params
  imports TemplateRes Dataflow
begin

text \<open>
  The typed parameters of a run (\<open>config/params.go\<close>): coercion of a supplied string to its declared
  type, enum membership, presence and defaults, all violations collected. \<open>pf\<close> reads a float,
  \<open>jerr\<close> is the text of a JSON syntax error, \<open>shw\<close> renders a YAML key.
\<close>

record typed_value =
  tv_type :: string
  tv_value :: goval

text \<open>\<open>strconv.ParseBool\<close>\<close>

definition parse_bool :: "string \<Rightarrow> bool option" where
  "parse_bool s =
     (if s \<in> {''1'', ''t'', ''T'', ''TRUE'', ''true'', ''True''} then Some True
      else if s \<in> {''0'', ''f'', ''F'', ''FALSE'', ''false'', ''False''} then Some False else None)"

definition coerce_param ::
  "(string \<Rightarrow> f64 option) \<Rightarrow> (string \<Rightarrow> string) \<Rightarrow> param_def \<Rightarrow> string \<Rightarrow> string + goval" where
  "coerce_param pf jerr d raw =
     (if pd_type d = ''string'' then
        (if pd_enum d \<noteq> [] \<and> raw \<notin> set (pd_enum d)
         then Inl (''value '' @ quote_str raw @ '' not in enum ['' @ join '', '' (pd_enum d) @ '']'')
         else Inr (VStr raw))
      else if pd_type d = ''int'' then
        (case atoi raw of None \<Rightarrow> Inl (''value '' @ quote_str raw @ '' is not an int'') | Some n \<Rightarrow> Inr (VInt n))
      else if pd_type d = ''bool'' then
        (case parse_bool raw of None \<Rightarrow> Inl (''value '' @ quote_str raw @ '' is not a bool'') | Some b \<Rightarrow> Inr (VBool b))
      else if pd_type d = ''object'' then
        (case json_unmarshal pf raw of None \<Rightarrow> Inl (''value is not valid JSON: '' @ jerr raw) | Some v \<Rightarrow> Inr v)
      else Inl (''undeclarable type '' @ quote_str (pd_type d)))"

text \<open>The supplied values in order, then the declared ones that were not supplied.\<close>

fun check_supplied ::
  "(string \<Rightarrow> f64 option) \<Rightarrow> (string \<Rightarrow> string) \<Rightarrow> param_def smap \<Rightarrow> string smap \<Rightarrow> string list
    \<Rightarrow> field_error list \<Rightarrow> typed_value smap \<Rightarrow> field_error list \<times> typed_value smap" where
  "check_supplied pf jerr decl supplied [] errs out = (errs, out)"
| "check_supplied pf jerr decl supplied (k # ks) errs out =
     (case map_of decl k of
        None \<Rightarrow> check_supplied pf jerr decl supplied ks
          (errs @ [verr (''params.'' @ k) (''unknown param (declared params: '' @ join '', '' (sorted_keys decl) @ '')'')]) out
      | Some d \<Rightarrow>
          (case coerce_param pf jerr d (get_or [] supplied k) of
             Inl m \<Rightarrow> check_supplied pf jerr decl supplied ks (errs @ [verr (''params.'' @ k) m]) out
           | Inr v \<Rightarrow> check_supplied pf jerr decl supplied ks errs (put k \<lparr>tv_type = pd_type d, tv_value = v\<rparr> out)))"

fun check_missing ::
  "(goval \<Rightarrow> string) \<Rightarrow> param_def smap \<Rightarrow> string smap \<Rightarrow> string list
    \<Rightarrow> field_error list \<Rightarrow> typed_value smap \<Rightarrow> field_error list \<times> typed_value smap" where
  "check_missing shw decl supplied [] errs out = (errs, out)"
| "check_missing shw decl supplied (k # ks) errs out =
     (case map_of decl k of
        None \<Rightarrow> check_missing shw decl supplied ks errs out
      | Some d \<Rightarrow>
          if map_of supplied k \<noteq> None then check_missing shw decl supplied ks errs out
          else case pd_default d of
            Some v \<Rightarrow>
              (case normalize_value shw v of
                 Inl m \<Rightarrow> check_missing shw decl supplied ks
                   (errs @ [verr (''params.'' @ k) (''invalid default: '' @ m)]) out
               | Inr nv \<Rightarrow> check_missing shw decl supplied ks errs (put k \<lparr>tv_type = pd_type d, tv_value = nv\<rparr> out))
          | None \<Rightarrow>
              if pd_required d
              then check_missing shw decl supplied ks (errs @ [verr (''params.'' @ k) ''required param missing'']) out
              else check_missing shw decl supplied ks errs out)"

definition check_params ::
  "(string \<Rightarrow> f64 option) \<Rightarrow> (string \<Rightarrow> string) \<Rightarrow> (goval \<Rightarrow> string) \<Rightarrow> param_def smap \<Rightarrow> string smap
    \<Rightarrow> field_error list + typed_value smap" where
  "check_params pf jerr shw decl supplied =
     (let q = check_supplied pf jerr decl supplied (sorted_keys supplied) [] [];
          r = check_missing shw decl supplied (sorted_keys decl) (fst q) (snd q)
      in if fst r \<noteq> [] then Inl (fst r) else Inr (snd r))"

definition check_run_params ::
  "(string \<Rightarrow> f64 option) \<Rightarrow> (string \<Rightarrow> string) \<Rightarrow> (goval \<Rightarrow> string) \<Rightarrow> workflow_def \<Rightarrow> string smap
    \<Rightarrow> field_error list + typed_value smap" where
  "check_run_params pf jerr shw wd supplied = check_params pf jerr shw (wf_params wd) supplied"

subsection \<open>Conformance\<close>

text \<open>A value of a declared type, within its enumeration.\<close>

definition conforms :: "param_def \<Rightarrow> goval \<Rightarrow> bool" where
  "conforms d v \<longleftrightarrow> yaml_type_name v = pd_type d \<and> (pd_enum d = [] \<or> (\<exists>s \<in> set (pd_enum d). v = VStr s))"

lemma coerced_conforms:
  assumes "coerce_param pf jerr d raw = Inr v" and "pd_type d \<noteq> ''object''" and "pd_type d \<noteq> ''string'' \<longrightarrow> pd_enum d = []"
  shows "conforms d v"
  using assms by (auto simp: coerce_param_def conforms_def yaml_type_name_def split: if_splits option.splits)

lemma check_supplied_grows: "\<exists>es. fst (check_supplied pf jerr decl supplied ks errs out) = errs @ es"
proof (induction ks arbitrary: errs out)
  case (Cons k ks)
  have "\<exists>es. fst (check_supplied pf jerr decl supplied ks (errs @ [x]) o2) = errs @ es" for x o2
    using Cons.IH [of "errs @ [x]" o2] by auto
  then show ?case using Cons.IH by (auto split: option.split sum.split)
qed simp

lemma check_supplied_ok:
  assumes "check_supplied pf jerr decl supplied ks [] out = ([], out')"
  shows "set ks \<subseteq> keys decl \<and> map_of out' = (\<lambda>k. if k \<in> set ks
      then (case map_of decl k of None \<Rightarrow> None | Some d \<Rightarrow>
        (case coerce_param pf jerr d (get_or [] supplied k) of Inl _ \<Rightarrow> None
         | Inr v \<Rightarrow> Some \<lparr>tv_type = pd_type d, tv_value = v\<rparr>)) else map_of out k)
    \<and> (\<forall>k \<in> set ks. map_of out' k \<noteq> None)"
  using assms
proof (induction ks arbitrary: out)
  case (Cons k ks)
  have ne: "check_supplied pf jerr decl supplied ks [x] o2 \<noteq> ([], o3)" for x o2 o3
    using check_supplied_grows [of pf jerr decl supplied ks "[x]" o2] by auto
  obtain d where d: "map_of decl k = Some d"
    using Cons.prems ne by (cases "map_of decl k") auto
  obtain v where v: "coerce_param pf jerr d (get_or [] supplied k) = Inr v"
    using Cons.prems d ne by (cases "coerce_param pf jerr d (get_or [] supplied k)") auto
  have "check_supplied pf jerr decl supplied ks [] (put k \<lparr>tv_type = pd_type d, tv_value = v\<rparr> out) = ([], out')"
    using Cons.prems d v by simp
  from Cons.IH [OF this] d v show ?case by (auto simp: fun_eq_iff)
qed simp

lemma check_missing_grows: "\<exists>es. fst (check_missing shw decl supplied ks errs out) = errs @ es"
proof (induction ks arbitrary: errs out)
  case (Cons k ks)
  have "\<exists>es. fst (check_missing shw decl supplied ks (errs @ [x]) o2) = errs @ es" for x o2
    using Cons.IH [of "errs @ [x]" o2] by auto
  then show ?case using Cons.IH by (auto split: option.split sum.split)
qed simp

definition default_value :: "(goval \<Rightarrow> string) \<Rightarrow> param_def \<Rightarrow> typed_value option" where
  "default_value shw d =
     (case pd_default d of None \<Rightarrow> None
      | Some v \<Rightarrow> (case normalize_value shw v of Inl _ \<Rightarrow> None | Inr nv \<Rightarrow> Some \<lparr>tv_type = pd_type d, tv_value = nv\<rparr>))"

lemma check_missing_ok:
  assumes "check_missing shw decl supplied ks [] out = ([], out')"
  shows "map_of out' = (\<lambda>k. if k \<in> set ks \<and> map_of supplied k = None
      then (case map_of decl k of None \<Rightarrow> map_of out k
        | Some d \<Rightarrow> (case pd_default d of None \<Rightarrow> map_of out k | Some _ \<Rightarrow> default_value shw d)) else map_of out k)
    \<and> (\<forall>k \<in> set ks. map_of supplied k = None \<longrightarrow> (\<forall>d. map_of decl k = Some d \<longrightarrow>
        (case pd_default d of None \<Rightarrow> \<not> pd_required d | Some _ \<Rightarrow> default_value shw d \<noteq> None)))"
  using assms
proof (induction ks arbitrary: out)
  case (Cons k ks)
  have ne: "check_missing shw decl supplied ks [x] o2 \<noteq> ([], o3)" for x o2 o3
    using check_missing_grows [of shw decl supplied ks "[x]" o2] by auto
  show ?case
  proof (cases "map_of decl k = None \<or> map_of supplied k \<noteq> None")
    case True
    with Cons.prems have "check_missing shw decl supplied ks [] out = ([], out')" by (auto split: option.splits)
    from Cons.IH [OF this] True show ?thesis by (auto simp: fun_eq_iff)
  next
    case False
    then obtain d where d: "map_of decl k = Some d" "map_of supplied k = None" by auto
    show ?thesis
    proof (cases "pd_default d")
      case None
      with Cons.prems d ne have "\<not> pd_required d" "check_missing shw decl supplied ks [] out = ([], out')"
        by (auto split: if_splits)
      with Cons.IH d None show ?thesis by (auto simp: fun_eq_iff)
    next
      case (Some v)
      obtain nv where nv: "normalize_value shw v = Inr nv"
        using Cons.prems d Some ne by (cases "normalize_value shw v") auto
      let ?t = "\<lparr>tv_type = pd_type d, tv_value = nv\<rparr>"
      have "check_missing shw decl supplied ks [] (put k ?t out) = ([], out')" using Cons.prems d Some nv by simp
      moreover have "default_value shw d = Some ?t" using Some nv by (simp add: default_value_def)
      ultimately show ?thesis using Cons.IH d Some by (auto simp: fun_eq_iff cong: option.case_cong)
    qed
  qed
qed simp

text \<open>What an accepted parameter environment holds under a name.\<close>

lemma check_params_ok:
  assumes "check_params pf jerr shw decl supplied = Inr out"
  shows "keys supplied \<subseteq> keys decl"
    and "map_of supplied k = Some raw \<Longrightarrow> \<exists>d v. map_of decl k = Some d \<and> coerce_param pf jerr d raw = Inr v \<and>
      map_of out k = Some \<lparr>tv_type = pd_type d, tv_value = v\<rparr>"
    and "map_of supplied k = None \<Longrightarrow> map_of decl k = Some d \<Longrightarrow>
      map_of out k = default_value shw d \<and> (pd_default d \<noteq> None \<longrightarrow> map_of out k \<noteq> None) \<and>
      (pd_required d \<longrightarrow> map_of out k \<noteq> None)"
    and "map_of supplied k = None \<Longrightarrow> map_of decl k = None \<Longrightarrow> map_of out k = None"
proof -
  obtain es o1 where a: "check_supplied pf jerr decl supplied (sorted_keys supplied) [] [] = (es, o1)" by fastforce
  have b: "check_missing shw decl supplied (sorted_keys decl) es o1 = ([], out)"
    using assms a by (auto simp: check_params_def Let_def prod_eq_iff split: if_splits)
  then have "es = []" using check_missing_grows [of shw decl supplied "sorted_keys decl" es o1] by auto
  note s = check_supplied_ok [OF a [unfolded this], unfolded sorted_keys_dom]
  note m = check_missing_ok [OF b [unfolded \<open>es = []\<close>], unfolded sorted_keys_dom]
  show "keys supplied \<subseteq> keys decl" using s by blast
  show "\<exists>d v. map_of decl k = Some d \<and> coerce_param pf jerr d raw = Inr v \<and>
      map_of out k = Some \<lparr>tv_type = pd_type d, tv_value = v\<rparr>" if r: "map_of supplied k = Some raw"
  proof -
    have k: "k \<in> keys supplied" using r by blast
    have "map_of out k = map_of o1 k" by (simp add: conjunct1 [OF m] r)
    moreover have "map_of o1 k \<noteq> None" using s k by blast
    moreover have "map_of o1 k = (case map_of decl k of None \<Rightarrow> None | Some d \<Rightarrow> (case coerce_param pf jerr d raw of
        Inl _ \<Rightarrow> None | Inr v \<Rightarrow> Some \<lparr>tv_type = pd_type d, tv_value = v\<rparr>))"
      by (simp add: conjunct1 [OF conjunct2 [OF s]] k r get_or_def cong: option.case_cong)
    ultimately show ?thesis by (auto split: option.splits sum.splits)
  qed
  have o1: "map_of o1 k = None" if "map_of supplied k = None" using s that by (auto simp: domIff)
  show "map_of out k = default_value shw d \<and> (pd_default d \<noteq> None \<longrightarrow> map_of out k \<noteq> None) \<and>
      (pd_required d \<longrightarrow> map_of out k \<noteq> None)" if n: "map_of supplied k = None" "map_of decl k = Some d"
  proof -
    have k: "k \<in> keys decl" using n(2) by blast
    have e: "map_of out k = (case pd_default d of None \<Rightarrow> map_of o1 k | Some _ \<Rightarrow> default_value shw d)"
      by (simp add: conjunct1 [OF m] n k)
    moreover have "case pd_default d of None \<Rightarrow> \<not> pd_required d | Some _ \<Rightarrow> default_value shw d \<noteq> None"
      using m k n by blast
    ultimately show ?thesis using o1 [OF n(1)] by (cases "pd_default d") (simp_all add: default_value_def)
  qed
  show "map_of out k = None" if n: "map_of supplied k = None" "map_of decl k = None"
    using m n o1 [OF n(1)] by (auto simp: domIff)
qed

end
