(* ===== verification/WiringInv.thy ===== *)
theory WiringInv
  imports Wiring Kahn Params
begin

text \<open>
  What the wiring checks establish: the type test decides subtyping, the cycle pass decides acyclicity,
  and a graph without violations binds every slot at most once with values of its type.
\<close>

subsection \<open>Types\<close>

text \<open>The declarations the validator admits: a known type, an enumeration on strings only.\<close>

definition wf_def :: "param_def \<Rightarrow> bool" where
  "wf_def d \<longleftrightarrow> pd_type d \<in> {''string'', ''int'', ''bool'', ''object''} \<and> (pd_enum d \<noteq> [] \<longrightarrow> pd_type d = ''string'')"

lemma type_satisfies_iff:
  "type_satisfies src dst = [] \<longleftrightarrow> pd_type src = pd_type dst \<and>
     (pd_enum dst = [] \<or> pd_enum src \<noteq> [] \<and> set (pd_enum src) \<subseteq> set (pd_enum dst))"
proof -
  have "filter (\<lambda>v. v \<notin> set (pd_enum dst)) (pd_enum src) = [] \<longleftrightarrow> set (pd_enum src) \<subseteq> set (pd_enum dst)"
    by (auto simp: filter_empty_conv)
  then show ?thesis
    by (cases "filter (\<lambda>v. v \<notin> set (pd_enum dst)) (pd_enum src)") (auto simp: type_satisfies_def)
qed

lemma type_satisfies_sound: "type_satisfies src dst = [] \<Longrightarrow> conforms src v \<Longrightarrow> conforms dst v"
  by (auto simp: type_satisfies_iff conforms_def)

lemma fresh_text: "\<exists>s. s \<notin> set (xs :: string list)"
  using infinite_UNIV_listI ex_new_if_finite finite_set by blast

lemma inhabited: "wf_def d \<Longrightarrow> \<exists>v. conforms d v"
proof -
  assume d: "wf_def d"
  consider "pd_type d = ''string''" | "pd_type d = ''int''" | "pd_type d = ''bool''" | "pd_type d = ''object''"
    using d by (auto simp: wf_def_def)
  then show ?thesis
  proof cases
    case 1
    then show ?thesis
      by (intro exI [of _ "VStr (if pd_enum d = [] then [] else hd (pd_enum d))"])
        (auto simp: conforms_def yaml_type_name_def)
  next
    case 2
    with d show ?thesis by (intro exI [of _ "VInt 0"]) (auto simp: conforms_def yaml_type_name_def wf_def_def)
  next
    case 3
    with d show ?thesis by (intro exI [of _ "VBool True"]) (auto simp: conforms_def yaml_type_name_def wf_def_def)
  next
    case 4
    with d show ?thesis by (intro exI [of _ "VList []"]) (auto simp: conforms_def yaml_type_name_def wf_def_def)
  qed
qed

lemma type_satisfies_complete:
  assumes "wf_def src" and "\<forall>v. conforms src v \<longrightarrow> conforms dst v"
  shows "type_satisfies src dst = []"
proof -
  obtain v where "conforms src v" using inhabited [OF assms(1)] by blast
  with assms(2) have t: "pd_type src = pd_type dst" by (auto simp: conforms_def)
  moreover have "pd_enum src \<noteq> [] \<and> set (pd_enum src) \<subseteq> set (pd_enum dst)" if e: "pd_enum dst \<noteq> []"
  proof
    show ne: "pd_enum src \<noteq> []"
    proof
      assume n: "pd_enum src = []"
      obtain w where w: "conforms src w" using inhabited [OF assms(1)] by blast
      with assms(2) e obtain s where "w = VStr s" by (auto simp: conforms_def)
      with w have "pd_type src = ''string''" by (simp add: conforms_def yaml_type_name_def)
      then have "conforms src (VStr s)" for s using n by (simp add: conforms_def yaml_type_name_def)
      with assms(2) e have "s \<in> set (pd_enum dst)" for s by (fastforce simp: conforms_def)
      with fresh_text show False by blast
    qed
    show "set (pd_enum src) \<subseteq> set (pd_enum dst)"
    proof
      fix s assume s: "s \<in> set (pd_enum src)"
      have "pd_type src = ''string''" using assms(1) ne by (simp add: wf_def_def)
      with s have "conforms src (VStr s)" by (simp add: conforms_def yaml_type_name_def)
      with assms(2) e show "s \<in> set (pd_enum dst)" by (fastforce simp: conforms_def)
    qed
  qed
  ultimately show ?thesis unfolding type_satisfies_iff by blast
qed

subsection \<open>Levels\<close>

lemma concat_empty: "concat (map f xs) = [] \<longleftrightarrow> (\<forall>x \<in> set xs. f x = [])"
  by (induction xs) auto

text \<open>A graph and the graphs nested in it.\<close>

function levels :: "ir \<Rightarrow> ir list" where
  "levels g = g # concat (map (\<lambda>n. case n_sub n of None \<Rightarrow> [] | Some h \<Rightarrow> levels h) (ir_nodes g))"
  by pat_completeness auto
termination by (relation "measure size") (auto simp: termination_simp)

declare levels.simps [simp del]

lemma check_graph_levels: "check_graph cel shw cfg g = [] \<Longrightarrow> h \<in> set (levels g) \<Longrightarrow> level_errors cel shw cfg h = []"
proof (induction g rule: levels.induct)
  case (1 g)
  from 1(2) have e: "level_errors cel shw cfg g = []"
      "\<forall>n \<in> set (ir_nodes g). (case n_sub n of None \<Rightarrow> [] | Some h \<Rightarrow> check_graph cel shw cfg h) = []"
    unfolding check_graph.simps [of cel shw cfg g] by (auto simp: concat_empty)
  from 1(3) consider "h = g" | n k where "n \<in> set (ir_nodes g)" "n_sub n = Some k" "h \<in> set (levels k)"
    unfolding levels.simps [of g] by (auto split: option.splits dest: sym)
  then show ?case
  proof cases
    case 1
    with e show ?thesis by simp
  next
    case (2 n k)
    with e(2) have "check_graph cel shw cfg k = []" by fastforce
    with "1.IH" 2 show ?thesis by blast
  qed
qed

lemma check_wiring_levels:
  "check_wiring cel shw g cfg = [] \<Longrightarrow> pass_flat_ids g = [] \<and> (\<forall>h \<in> set (levels g). level_errors cel shw cfg h = [])"
proof -
  assume "check_wiring cel shw g cfg = []"
  then have "set (pass_flat_ids g @ check_graph cel shw cfg g) = {}"
    unfolding check_wiring_def by (metis set_empty set_sort)
  then show ?thesis using check_graph_levels by auto
qed

text \<open>What the passes over one level say about its edges, its literals and its slots.\<close>

definition well_typed :: "config \<Rightarrow> ir \<Rightarrow> bool" where
  "well_typed cfg g \<longleftrightarrow> (let outs = outputs_of g; ins = inputs_of cfg g in
     (\<forall>e \<in> set (ir_edges g). e_from e \<in> set (ids_of g) \<and> e_to e \<in> set (ids_of g)) \<and>
     (\<forall>e \<in> set (ir_edges g). \<not> is_ordering e \<longrightarrow>
       (\<forall>fs slots. map_of outs (e_from e) = Some fs \<longrightarrow> map_of ins (e_to e) = Some slots \<longrightarrow>
         (\<exists>src dst. map_of fs (e_from_port e) = Some src \<and> map_of slots (e_to_port e) = Some dst \<and>
           (\<forall>v. conforms src v \<longrightarrow> conforms dst v)))) \<and>
     (\<forall>n \<in> set (ir_nodes g). \<forall>slots. map_of ins (n_id n) = Some slots \<longrightarrow>
       (\<forall>slot b. map_of (effective_bindings n) slot = Some b \<longrightarrow> (\<exists>dst. map_of slots slot = Some dst \<and>
         (b_kind b = BindLiteral \<longrightarrow> b_type b = yaml_type_name (b_value b) \<longrightarrow> conforms dst (b_value b)) \<and>
         (b_kind b = BindParam \<longrightarrow> (\<exists>d. map_of (params_of cfg (ir_workflow g)) (b_name b) = Some d \<and>
           (\<forall>v. conforms d v \<longrightarrow> conforms dst v))))) \<and>
       (\<forall>slot dst. map_of slots slot = Some dst \<longrightarrow> times_bound g n slot \<le> 1 \<and>
         (pd_required dst \<longrightarrow> pd_default dst = None \<longrightarrow> times_bound g n slot = 1))))"

lemma map_of_sorted_keys: "map_of m k = Some v \<Longrightarrow> k \<in> set (sorted_keys m)"
  unfolding sorted_keys_dom by blast

lemma resolved_edge:
  assumes "resolve_edge ids outs ins e = []"
  shows "e_from e \<in> set ids \<and> e_to e \<in> set ids \<and> (\<not> is_ordering e \<longrightarrow>
    (\<forall>fs slots. map_of outs (e_from e) = Some fs \<longrightarrow> map_of ins (e_to e) = Some slots \<longrightarrow>
      map_of fs (e_from_port e) \<noteq> None \<and> map_of slots (e_to_port e) \<noteq> None))"
  using assms by (auto simp: resolve_edge_def field_errors_def slot_errors_def split: if_splits option.splits)

lemma typed_edge:
  assumes "edge_type outs ins e = []" and "\<not> is_ordering e" and "map_of outs (e_from e) = Some fs"
    and "map_of ins (e_to e) = Some slots" and "map_of fs (e_from_port e) = Some src"
    and "map_of slots (e_to_port e) = Some dst"
  shows "type_satisfies src dst = []"
  using assms by (auto simp: edge_type_def get_or_def split: list.splits)

lemma node_slots_ok:
  assumes "node_slots g ins n = []" and "map_of ins (n_id n) = Some slots"
  shows "map_of (effective_bindings n) slot = Some b \<Longrightarrow> map_of slots slot \<noteq> None"
    and "map_of slots slot = Some d \<Longrightarrow> slot_binding g n slots slot = []"
proof -
  have a: "(if map_of slots k \<noteq> None then [] else [werr (n_id n) (''with.'' @ k) (''binds undeclared input slot '' @ quote_str k @
      did_you_mean k (sorted_keys slots))]) = []" if "k \<in> set (sorted_keys (effective_bindings n))" for k
    using assms that by (simp only: node_slots_def option.case append_is_Nil_conv concat_empty)
  have b: "slot_binding g n slots k = []" if "k \<in> set (sorted_keys slots)" for k
    using assms that by (simp only: node_slots_def option.case append_is_Nil_conv concat_empty)
  show "map_of slots slot \<noteq> None" if "map_of (effective_bindings n) slot = Some b"
    using a [OF map_of_sorted_keys [OF that]] by (simp split: if_splits)
  show "map_of slots slot = Some d \<Longrightarrow> slot_binding g n slots slot = []" by (rule b [OF map_of_sorted_keys])
qed

lemma bound_slot:
  assumes "slot_binding g n slots slot = []" and "map_of slots slot = Some d"
  shows "times_bound g n slot \<le> 1 \<and> (pd_required d \<longrightarrow> pd_default d = None \<longrightarrow> times_bound g n slot = 1)"
  using assms by (auto simp: slot_binding_def split: if_splits)

lemma typed_binding:
  assumes "binding_type shw params i slot dst b = []"
  shows "(b_kind b = BindLiteral \<longrightarrow> b_type b = yaml_type_name (b_value b) \<longrightarrow> conforms dst (b_value b)) \<and>
    (b_kind b = BindParam \<longrightarrow> (\<exists>d. map_of params (b_name b) = Some d \<and> type_satisfies d dst = []))"
  using assms by (auto simp: binding_type_def conforms_def split: if_splits option.splits list.splits goval.splits)

lemma level_well_typed:
  assumes "level_errors cel shw cfg g = []"
  shows "well_typed cfg g"
proof -
  let ?o = "outputs_of g" and ?i = "inputs_of cfg g"
  have r: "\<forall>e \<in> set (ir_edges g). resolve_edge (ids_of g) ?o ?i e = []"
    and s: "\<forall>n \<in> set (ir_nodes g). node_slots g ?i n = []"
    and t: "\<forall>e \<in> set (ir_edges g). edge_type ?o ?i e = []"
    and u: "\<forall>n \<in> set (ir_nodes g). node_types shw (params_of cfg (ir_workflow g)) ?i n = []"
    using assms by (auto simp: level_errors_def Let_def pass_resolution_def pass_slots_def pass_types_def concat_empty)
  have edges: "\<exists>src dst. map_of fs (e_from_port e) = Some src \<and> map_of slots (e_to_port e) = Some dst \<and>
      (\<forall>v. conforms src v \<longrightarrow> conforms dst v)"
    if e: "e \<in> set (ir_edges g)" "\<not> is_ordering e" "map_of ?o (e_from e) = Some fs" "map_of ?i (e_to e) = Some slots" for e fs slots
  proof -
    obtain src dst where sd: "map_of fs (e_from_port e) = Some src" "map_of slots (e_to_port e) = Some dst"
      using resolved_edge [OF bspec [OF r e(1)]] e by auto
    with typed_edge [OF bspec [OF t e(1)] e(2,3,4) sd] type_satisfies_sound show ?thesis by blast
  qed
  have slots: "\<exists>dst. map_of slots slot = Some dst \<and>
      (b_kind b = BindLiteral \<longrightarrow> b_type b = yaml_type_name (b_value b) \<longrightarrow> conforms dst (b_value b)) \<and>
      (b_kind b = BindParam \<longrightarrow> (\<exists>d. map_of (params_of cfg (ir_workflow g)) (b_name b) = Some d \<and>
        (\<forall>v. conforms d v \<longrightarrow> conforms dst v)))"
    if n: "n \<in> set (ir_nodes g)" "map_of ?i (n_id n) = Some slots" "map_of (effective_bindings n) slot = Some b" for n slots slot b
  proof -
    have k: "slot \<in> set (sorted_keys (effective_bindings n))" using n(3) by (rule map_of_sorted_keys)
    have "map_of slots slot \<noteq> None"
      by (rule node_slots_ok(1) [OF bspec [OF s n(1)] n(2,3)])
    then obtain dst where dst: "map_of slots slot = Some dst" by blast
    have "binding_type shw (params_of cfg (ir_workflow g)) (n_id n) slot dst b = []"
      using bspec [OF u n(1), unfolded node_types_def] n(2,3) k dst by (auto simp only: option.case prod.case concat_empty dest!: bspec)
    from typed_binding [OF this] dst type_satisfies_sound show ?thesis by blast
  qed
  have bound: "times_bound g n slot \<le> 1 \<and> (pd_required dst \<longrightarrow> pd_default dst = None \<longrightarrow> times_bound g n slot = 1)"
    if n: "n \<in> set (ir_nodes g)" "map_of ?i (n_id n) = Some slots" "map_of slots slot = Some dst" for n slots slot dst
  proof (rule bound_slot)
    show "slot_binding g n slots slot = []"
      by (rule node_slots_ok(2) [OF bspec [OF s n(1)] n(2,3)])
  qed (rule n(3))
  show ?thesis
    unfolding well_typed_def Let_def
  proof (intro conjI ballI allI impI)
    fix e assume "e \<in> set (ir_edges g)"
    then have "resolve_edge (ids_of g) ?o ?i e = []" using r by blast
    then show "e_from e \<in> set (ids_of g)" "e_to e \<in> set (ids_of g)" using resolved_edge by blast+
  qed (use edges slots bound in blast)+
qed


subsection \<open>Cycles\<close>

lemma prune_pass_keeps:
  "A \<subseteq> set left \<Longrightarrow> \<forall>a \<in> A. \<exists>b \<in> A. b \<in> set (succ a) \<Longrightarrow> A \<subseteq> set (prune_pass succ ks left)"
proof (induction ks arbitrary: left)
  case (Cons k ks)
  show ?case
  proof (cases "\<exists>n \<in> set (succ k). n \<in> set left")
    case True
    with Cons show ?thesis by simp
  next
    case False
    then have "k \<notin> A" using Cons.prems by blast
    then have "A \<subseteq> set (removeAll k left)" using Cons.prems(1) by auto
    with Cons False show ?thesis by simp
  qed
qed simp

lemma prune_loop_keeps:
  "A \<subseteq> set left \<Longrightarrow> \<forall>a \<in> A. \<exists>b \<in> A. b \<in> set (succ a) \<Longrightarrow> A \<subseteq> set (prune_loop succ left)"
proof (induction succ left rule: prune_loop.induct)
  case (1 succ left)
  note k = prune_pass_keeps [OF 1(2,3), of "sort left"]
  show ?case
  proof (cases "prune_pass succ (sort left) left = left")
    case True
    with 1(2) show ?thesis by (simp add: prune_loop.simps [of succ left])
  next
    case False
    from 1(1) [OF refl False k 1(3)] False show ?thesis by (simp add: prune_loop.simps [of succ left] Let_def)
  qed
qed

lemma find_cycle_nonempty: "find_cycle succ left path cur \<noteq> []"
proof (induction succ left path cur rule: find_cycle.induct)
  case (1 succ left path cur)
  show ?case
  proof (cases "next_member succ left cur \<in> set path")
    case True
    then show ?thesis by (simp add: find_cycle.simps [of succ left path cur] Let_def)
  next
    case False
    with 1 [OF refl False] show ?thesis by (simp add: find_cycle.simps [of succ left path cur] Let_def)
  qed
qed

lemma indeg_in_get: "k \<in> set ks \<Longrightarrow> get_or 0 (indeg_in ks es) k = int (length (filter (\<lambda>p. snd p = k) es))"
  and indeg_in_keys: "keys (indeg_in ks es) = set ks"
proof -
  have m: "map_of (indeg_in ks es) = (\<lambda>k. if k \<in> set ks then Some (int (length (filter (\<lambda>p. snd p = k) es))) else None)"
    unfolding indeg_in_def by (auto simp: fun_eq_iff map_of_map_restrict restrict_map_def)
  show "k \<in> set ks \<Longrightarrow> get_or 0 (indeg_in ks es) k = int (length (filter (\<lambda>p. snd p = k) es))"
    by (simp add: get_or_def m)
  show "keys (indeg_in ks es) = set ks" by (auto simp: m split: if_splits)
qed

text \<open>A nonempty finite set whose members all have a predecessor in it holds a set whose members all
  have a successor in it.\<close>

lemma inner_cycle:
  assumes "finite L" and "L \<noteq> {}" and "\<And>k. k \<in> L \<Longrightarrow> \<exists>a \<in> L. (a, k) \<in> E"
  shows "\<exists>A. A \<noteq> {} \<and> A \<subseteq> L \<and> (\<forall>a \<in> A. \<exists>b \<in> A. (a, b) \<in> E)"
proof -
  let ?R = "E \<inter> L \<times> L"
  have "\<not> acyclic ?R" by (rule no_source_cycle [OF assms(1,2)]) (use assms(3) in blast)
  then obtain x where x: "(x, x) \<in> ?R\<^sup>+" by (auto simp: acyclic_def)
  let ?A = "{y. (x, y) \<in> ?R\<^sup>+ \<and> (y, x) \<in> ?R\<^sup>+}"
  have "\<exists>b \<in> ?A. (a, b) \<in> E" if "a \<in> ?A" for a
  proof -
    have "(a, x) \<in> ?R\<^sup>+" using that by simp
    from tranclD [OF this] obtain b where b: "(a, b) \<in> ?R" "(b, x) \<in> ?R\<^sup>*" by blast
    have "(x, b) \<in> ?R\<^sup>+" using that b(1) by (auto intro: trancl_into_trancl)
    moreover have "(b, x) \<in> ?R\<^sup>+" using b(2) x by (auto intro: rtrancl_trancl_trancl)
    ultimately show ?thesis using b(1) by blast
  qed
  moreover have "?A \<subseteq> L"
  proof
    fix y assume "y \<in> ?A"
    then have "(x, y) \<in> ?R\<^sup>+" by simp
    from tranclD2 [OF this] show "y \<in> L" by blast
  qed
  moreover have "?A \<noteq> {}" using x by blast
  ultimately show ?thesis by (intro exI [of _ ?A] conjI ballI)
qed

lemma succ_in_edge: "(a, b) \<in> set es \<Longrightarrow> b \<in> set (succ_in es a)"
  unfolding succ_in_def set_map set_filter by (intro image_eqI [of _ _ "(a, b)"]) simp_all

lemma pass_acyclic_iff:
  assumes "distinct (ids_of g)"
  shows "pass_acyclic g = [] \<longleftrightarrow> acyclic (set (order_edges g))"
proof -
  let ?V = "set (ids_of g)" and ?es = "order_edges g" and ?m = "indeg_in (ids_of g) (order_edges g)"
  let ?q = "filter (\<lambda>i. get_or 0 ?m i = 0) (sorted_keys ?m)"
  obtain c l where k: "kahn (succ_in ?es) ?q ?m 0 = (c, l)" by fastforce
  have su: "succ_in ?es = (\<lambda>a. map snd (filter (\<lambda>p. fst p = a) ?es))" by (rule ext) (simp add: succ_in_def)
  have sub: "set ?es \<subseteq> ?V \<times> ?V" by (auto simp: order_edges_def)
  have q: "distinct ?q" "set ?q = {k \<in> ?V. get_or 0 ?m k = 0}"
    unfolding set_filter sorted_keys_dom indeg_in_keys by simp_all
  have gt: "\<forall>k \<in> ?V. get_or 0 ?m k = int (length (filter (\<lambda>p. snd p = k) ?es))" using indeg_in_get by blast
  note kd = kahn_decides [OF sub finite_set k [unfolded su] indeg_in_keys gt q]
  have n: "length (ir_nodes g) = card ?V" using assms distinct_card [of "ids_of g"] by (simp add: ids_of_def)
  show ?thesis
  proof (cases "acyclic (set ?es)")
    case True
    then have "c = length (ir_nodes g)" using kd(1) n by simp
    with True show ?thesis by (simp add: pass_acyclic_def Let_def k)
  next
    case False
    let ?L = "{k \<in> ?V. 0 < get_or 0 l k}"
    let ?left = "sort (filter (\<lambda>i. 0 < get_or 0 l i) (map fst l))"
    have ne: "?L \<noteq> {}" using kd(3) False by blast
    have pre: "\<exists>a \<in> ?L. (a, k) \<in> set ?es" if "k \<in> ?L" for k using kd(4) [of k] that by blast
    have "finite ?L" by simp
    from inner_cycle [OF this ne pre] obtain A where A: "A \<noteq> {}" "A \<subseteq> ?L" "\<forall>a \<in> A. \<exists>b \<in> A. (a, b) \<in> set ?es" by blast
    have "set ?left = ?L" using kd(2) by (auto simp: dom_map_of_conv_image_fst)
    then have "A \<subseteq> set (prune_loop (succ_in ?es) ?left)"
      using A by (intro prune_loop_keeps) (use succ_in_edge in blast)+
    then obtain s ss where p: "prune_loop (succ_in ?es) ?left = s # ss" using A(1)
      by (cases "prune_loop (succ_in ?es) ?left") auto
    obtain x xs where f: "find_cycle (succ_in ?es) (s # ss) [hd (sort (s # ss))] (hd (sort (s # ss))) = x # xs"
      using find_cycle_nonempty by (meson neq_Nil_conv)
    have "c \<noteq> length (ir_nodes g)" using kd(1) False n by simp
    then have "pass_acyclic g \<noteq> []" using p f by (simp add: pass_acyclic_def Let_def k)
    with False show ?thesis by blast
  qed
qed

lemma duplicates_empty: "duplicates seen is = [] \<longleftrightarrow> distinct is \<and> set is \<inter> set seen = {}"
  by (induction seen "is" rule: duplicates.induct) auto

lemma heads_distinct:
  "distinct (concat (map (\<lambda>n. h n # f n) ns)) \<Longrightarrow> distinct (map h ns) \<and> (\<forall>n \<in> set ns. distinct (f n))"
  by (induction ns) auto

lemma level_ids_flat: "h \<in> set (levels g) \<Longrightarrow> distinct (flat_ids g) \<Longrightarrow> distinct (ids_of h)"
proof (induction g rule: levels.induct)
  case (1 g)
  note d = heads_distinct [OF 1(3) [unfolded flat_ids.simps [of g]]]
  from 1(2) consider "h = g" | n k where "n \<in> set (ir_nodes g)" "n_sub n = Some k" "h \<in> set (levels k)"
    unfolding levels.simps [of g] by (auto split: option.splits dest: sym)
  then show ?case
  proof cases
    case 1
    with d show ?thesis by (simp add: ids_of_def)
  next
    case (2 n k)
    with d have "distinct (flat_ids k)" by fastforce
    with "1.IH" 2 show ?thesis by blast
  qed
qed

text \<open>What a graph without violations is.\<close>

lemma wired:
  assumes "check_wiring cel shw g cfg = []"
  shows "distinct (flat_ids g)" and "h \<in> set (levels g) \<Longrightarrow> well_typed cfg h"
    and "h \<in> set (levels g) \<Longrightarrow> acyclic (set (order_edges h))"
proof -
  note l = check_wiring_levels [OF assms]
  show d: "distinct (flat_ids g)" using l by (simp add: pass_flat_ids_def duplicates_empty)
  show "well_typed cfg h" if "h \<in> set (levels g)" using l that level_well_typed by blast
  show "acyclic (set (order_edges h))" if h: "h \<in> set (levels g)"
  proof -
    have "pass_acyclic h = []" using l h by (auto simp: level_errors_def Let_def)
    then show ?thesis using pass_acyclic_iff [OF level_ids_flat [OF h d]] by simp
  qed
qed

end
