(* ===== verification/ValidateInv.thy ===== *)
theory ValidateInv
  imports Validate WiringInv
begin

text \<open>What a configuration without violations satisfies.\<close>

lemmas concat_map_Nil = concat_eq_Nil_conv

lemma concat_Nil [simp]: "concat (map f xs) = [] \<longleftrightarrow> (\<forall>x \<in> set xs. f x = [])"
  by (induction xs) auto

lemma all_sorted_keys:
  "(\<forall>n \<in> set (sorted_keys m). case map_of m n of None \<Rightarrow> True | Some v \<Rightarrow> P n v) \<longleftrightarrow>
     (\<forall>n v. map_of m n = Some v \<longrightarrow> P n v)"
  unfolding sorted_keys_dom by (auto split: option.splits)

lemma keyed_Nil [simp]:
  "(\<forall>n \<in> set (sorted_keys m). (case map_of m n of None \<Rightarrow> [] | Some v \<Rightarrow> f n v) = []) \<longleftrightarrow>
     (\<forall>n v. map_of m n = Some v \<longrightarrow> f n v = [])"
  unfolding sorted_keys_dom by (auto split: option.splits)

subsection \<open>Declarations\<close>

text \<open>An env token of a name of the slot grammar is an environment variable name.\<close>

definition env_name :: "string \<Rightarrow> bool" where
  "env_name s \<longleftrightarrow> s \<noteq> [] \<and> is_upper (hd s) \<and> (\<forall>c \<in> set s. is_upper c \<or> is_digit c \<or> c = CHR ''_'')"

lemma byte_char_of: "n < 256 \<Longrightarrow> byte (char_of n) = n"
  by (simp add: byte_def)

lemma upper_of_lower: "is_lower c \<Longrightarrow> is_upper (to_upper c)"
  by (auto simp: to_upper_def is_lower_def is_upper_def byte_char_of)

lemma to_upper_other: "\<not> is_lower c \<Longrightarrow> to_upper c = c"
  by (simp add: to_upper_def)

lemma token_char:
  assumes "is_lower c \<or> is_upper c \<or> is_digit c \<or> c = CHR ''_'' \<or> c = CHR ''-''"
  shows "is_upper (to_upper (if c = CHR ''-'' then CHR ''_'' else c)) \<or>
    is_digit (to_upper (if c = CHR ''-'' then CHR ''_'' else c)) \<or>
    to_upper (if c = CHR ''-'' then CHR ''_'' else c) = CHR ''_''"
proof (cases "is_lower c")
  case True
  then have "c \<noteq> CHR ''-''" by (auto simp: is_lower_def byte_def)
  then show ?thesis using upper_of_lower [OF True] by simp
next
  case False
  have "\<not> is_lower (CHR ''_'')" by (simp add: is_lower_def byte_def)
  with False assms show ?thesis by (auto simp: to_upper_other)
qed

lemma env_token_name:
  assumes "ident_ok s"
  shows "env_name (env_token s)"
proof -
  obtain c cs where s: "s = c # cs" "is_lower c \<or> is_upper c"
      and all: "\<forall>x \<in> set s. is_lower x \<or> is_upper x \<or> is_digit x \<or> x = CHR ''_'' \<or> x = CHR ''-''"
    using assms by (auto simp: ident_ok_def list_all_iff split: list.splits)
  have nd: "c \<noteq> CHR ''-''" using s(2) by (auto simp: is_lower_def is_upper_def byte_def)
  have "is_upper (to_upper c)" using s(2) upper_of_lower to_upper_other by (cases "is_lower c") auto
  with nd s(1) have h: "is_upper (hd (env_token s))" by (simp add: env_token_def)
  have "\<forall>x \<in> set (env_token s). is_upper x \<or> is_digit x \<or> x = CHR ''_''"
    unfolding env_token_def using all token_char by auto
  with h show ?thesis using s(1) by (simp add: env_name_def env_token_def)
qed

lemma slot_names_ok:
  assumes "check_slot_names path ns toks = []" and "distinct ns" 
    and "\<forall>n \<in> set ns. \<forall>t. map_of toks t \<noteq> Some n"
  shows "(\<forall>n \<in> set ns. ident_ok n \<and> map_of toks (env_token n) = None) \<and> inj_on env_token (set ns)"
  using assms
proof (induction ns arbitrary: toks)
  case (Cons n ns)
  then have n: "ident_ok n" "map_of toks (env_token n) = None"
      and r: "check_slot_names path ns (put (env_token n) n toks) = []"
    by (auto simp: Let_def split: if_splits option.splits)
  have "\<forall>m \<in> set ns. \<forall>t. map_of (put (env_token n) n toks) t \<noteq> Some m" using Cons.prems by auto
  from Cons.IH [OF r _ this] Cons.prems(2) n show ?case by (auto simp: inj_on_def split: if_splits)
qed simp

definition sound_defs :: "param_def smap \<Rightarrow> bool" where
  "sound_defs defs \<longleftrightarrow> inj_on env_token (keys defs) \<and>
     (\<forall>n d. map_of defs n = Some d \<longrightarrow> env_name (env_token n) \<and> wf_def d \<and>
        (\<forall>v. pd_default d = Some v \<longrightarrow> conforms d v))"

lemma check_def_ok: "check_def shw p d = [] \<Longrightarrow> wf_def d \<and> (\<forall>v. pd_default d = Some v \<longrightarrow> conforms d v)"
  by (auto simp: check_def_def wf_def_def default_errors_def conforms_def
      split: option.splits if_splits goval.splits)

lemma param_defs_ok: "check_param_defs shw path defs = [] \<Longrightarrow> sound_defs defs"
proof -
  assume a: "check_param_defs shw path defs = []"
  then have "check_slot_names path (sorted_keys defs) [] = []" by (simp add: check_param_defs_def)
  from slot_names_ok [OF this] have n: "\<forall>n \<in> keys defs. ident_ok n" "inj_on env_token (keys defs)"
    unfolding sorted_keys_dom by auto
  have "\<forall>n d. map_of defs n = Some d \<longrightarrow> check_def shw (path @ ''.'' @ n) d = []"
    using a unfolding check_param_defs_def append_is_Nil_conv concat_Nil keyed_Nil by blast
  with n check_def_ok env_token_name show ?thesis unfolding sound_defs_def by blast
qed

subsection \<open>Paths\<close>

definition path_segs :: "string \<Rightarrow> string list" where
  "path_segs p = clean_segs (is_abs p) (split_on CHR ''/'' p) []"

lemma clean_segs_snoc:
  assumes "n \<noteq> []" and "n \<noteq> ''.''" and "n \<noteq> ''..''"
  shows "clean_segs r (ss @ [n]) acc = clean_segs r ss acc @ [n]"
  using assms by (induction r ss acc rule: clean_segs.induct) (auto split: list.splits)

lemma split_on_snoc: "c \<notin> set n \<Longrightarrow> split_on c (p @ c # n) = split_on c p @ [n]"
  by (induction p) (auto simp: split_on_none split: list.splits)

lemma is_abs_append: "p \<noteq> [] \<Longrightarrow> is_abs (p @ q) = is_abs p"
  by (cases p) (auto simp: is_abs_def has_prefix_def)

lemma path_segs_child:
  assumes "safe_name n" and "p \<noteq> []"
  shows "path_segs (p @ CHR ''/'' # n) = path_segs p @ [n]"
proof -
  have "n \<noteq> []" "n \<noteq> ''.''" "n \<noteq> ''..''" "CHR ''/'' \<notin> set n" using assms(1) by (auto simp: safe_name_def)
  then show ?thesis using assms(2)
    by (simp add: path_segs_def split_on_snoc clean_segs_snoc is_abs_append)
qed

lemma path_clean_segs:
  "path_clean p = (if is_abs p then ''/'' @ join ''/'' (path_segs p)
     else if path_segs p = [] then ''.'' else join ''/'' (path_segs p))"
  by (simp add: path_clean_def path_segs_def Let_def)

lemma join_snoc: "xs \<noteq> [] \<Longrightarrow> join s (xs @ [n]) = join s xs @ s @ n"
  by (induction s xs rule: join.induct) auto

lemma clean_child:
  assumes "safe_name n" and "p \<noteq> []"
  shows "path_join p n = (if path_segs p = [] then (if is_abs p then ''/'' @ n else n) else path_clean p @ ''/'' @ n)"
proof -
  have "n \<noteq> []" using assms(1) by (simp add: safe_name_def)
  then have "path_join p n = path_clean (p @ CHR ''/'' # n)" using assms(2) by (simp add: path_join_def)
  then show ?thesis using assms
    by (auto simp: path_clean_segs path_segs_child is_abs_append join_snoc)
qed

text \<open>Cleaned segments have no separator, are not empty and not a dot.\<close>

lemma clean_segs_from:
  "x \<in> set (clean_segs r ss acc) \<Longrightarrow> x \<in> set acc \<or> (x \<in> set ss \<and> x \<noteq> [] \<and> x \<noteq> ''.'')"
  by (induction r ss acc rule: clean_segs.induct) (auto split: list.splits if_splits)

lemma path_segs_plain: "s \<in> set (path_segs p) \<Longrightarrow> CHR ''/'' \<notin> set s \<and> s \<noteq> [] \<and> s \<noteq> ''.''"
  unfolding path_segs_def using clean_segs_from split_on_no_sep by fastforce

lemma split_on_join:
  assumes "\<forall>s \<in> set ss. c \<notin> set s" and "ss \<noteq> []"
  shows "split_on c (join [c] ss) = ss"
  using assms
proof (induction "[c]" ss rule: join.induct)
  case (3 x y ys)
  then show ?case by (simp add: split_on_sep)
qed (auto simp: split_on_none)

text \<open>The overlap rule on segments: for absolute paths \<open>containerPathUnder\<close> is the prefix order.\<close>

lemma join_prefix_iff:
  assumes "\<forall>s \<in> set xs \<union> set ys. c \<notin> set s" and "ys \<noteq> []" and "xs \<noteq> []"
  shows "(\<exists>t. join [c] xs = join [c] ys @ [c] @ t) \<longleftrightarrow> (\<exists>z zs. xs = ys @ z # zs)"
proof
  assume "\<exists>t. join [c] xs = join [c] ys @ [c] @ t"
  then obtain t where t: "join [c] xs = join [c] ys @ c # t" by auto
  have "split_on c (join [c] ys @ c # t) = split_on c (join [c] ys) @ split_on c t"
  proof -
    have "split_on c (p @ c # t) = split_on c p @ split_on c t" for p
      by (induction p) (auto split: list.splits)
    then show ?thesis .
  qed
  then have "xs = ys @ split_on c t" using t assms by (metis UnI1 UnI2 split_on_join)
  then show "\<exists>z zs. xs = ys @ z # zs" by (cases "split_on c t") auto
next
  assume "\<exists>z zs. xs = ys @ z # zs"
  then obtain z zs where x: "xs = ys @ z # zs" by blast
  have "join [c] (ys @ z # zs) = join [c] ys @ [c] @ join [c] (z # zs)"
    using \<open>ys \<noteq> []\<close> by (induction "[c]" ys rule: join.induct) (auto simp: neq_Nil_conv)
  then show "\<exists>t. join [c] xs = join [c] ys @ [c] @ t" using x by blast
qed

lemma has_prefix_iff: "has_prefix p s \<longleftrightarrow> (\<exists>t. s = p @ t)"
  by (metis append_eq_conv_conj append_take_drop_id has_prefix_def)

lemma join_last:
  assumes "xs \<noteq> []" and "\<forall>s \<in> set xs. s \<noteq> [] \<and> c \<notin> set s"
  shows "join [c] xs \<noteq> [] \<and> last (join [c] xs) \<noteq> c"
  using assms by (induction "[c]" xs rule: join.induct) auto

lemma under_iff:
  assumes "is_abs a" and "is_abs b"
  shows "container_path_under a b \<longleftrightarrow> (\<exists>zs. path_segs a = path_segs b @ zs)"
proof -
  let ?A = "path_segs a" and ?B = "path_segs b"
  have pl: "\<forall>s \<in> set ?A \<union> set ?B. CHR ''/'' \<notin> set s" using path_segs_plain by blast
  have ca: "path_clean a = ''/'' @ join ''/'' ?A" and cb: "path_clean b = ''/'' @ join ''/'' ?B"
    using assms by (simp_all add: path_clean_segs)
  show ?thesis
  proof (cases "?B = []")
    case True
    then have "trim_slash (path_clean b) = []" using cb by (simp add: trim_slash_def)
    then show ?thesis using True ca by (simp add: container_path_under_def has_prefix_def)
  next
    case False
    have jl: "join ''/'' ?B \<noteq> [] \<and> last (join ''/'' ?B) \<noteq> CHR ''/''" using join_last [OF False, of "CHR ''/''"] path_segs_plain by blast
    then have tb: "trim_slash (path_clean b) = path_clean b" using cb by (simp add: trim_slash_def)
    have u: "container_path_under a b \<longleftrightarrow> join ''/'' ?A = join ''/'' ?B \<or> (\<exists>t. join ''/'' ?A = join ''/'' ?B @ ''/'' @ t)"
      unfolding container_path_under_def Let_def tb has_prefix_iff by (simp add: ca cb)
    show ?thesis
    proof (cases "?A = []")
      case True
      then show ?thesis using u jl False by auto
    next
      case ne: False
      have "join ''/'' ?A = join ''/'' ?B \<longleftrightarrow> ?A = ?B"
        using split_on_join [of ?A "CHR ''/''"] split_on_join [of ?B "CHR ''/''"] pl ne False by (metis UnI1 UnI2)
      moreover have "(\<exists>t. join ''/'' ?A = join ''/'' ?B @ ''/'' @ t) \<longleftrightarrow> (\<exists>z zs. ?A = ?B @ z # zs)"
        by (rule join_prefix_iff [OF pl False ne])
      ultimately show ?thesis unfolding u by (metis append_Nil2 list.exhaust)
    qed
  qed
qed

subsection \<open>Steps\<close>

text \<open>The step ids of all nesting levels, in order.\<close>

fun tree_ids :: "step_def list \<Rightarrow> string list" where
  "tree_ids [] = []"
| "tree_ids (s # ss) =
     sd_id s # (case sd_loop s of None \<Rightarrow> [] | Some l \<Rightarrow> tree_ids (ld_steps l)) @ tree_ids ss"

text \<open>A step that names only what exists, in exactly one form; the steps of a loop see the ids around
  it.\<close>

definition sound_use :: "config \<Rightarrow> workflow_def \<Rightarrow> step_def \<Rightarrow> bool" where
  "sound_use cfg w s \<longleftrightarrow>
     (sd_use s \<noteq> [] \<longrightarrow> map_of (cf_templates cfg) (sd_use s) \<noteq> None \<or> map_of (cf_workflows cfg) (sd_use s) \<noteq> None) \<and>
     (\<forall>g. sd_generate s = Some g \<longrightarrow> map_of (wf_sources w) (gd_source g) \<noteq> None \<and>
        map_of (cf_workflows cfg) (gd_workflow g) \<noteq> None \<and> 0 \<le> gd_max_parallel g)"

fun sound_steps :: "config \<Rightarrow> workflow_def \<Rightarrow> string set \<Rightarrow> step_def list \<Rightarrow> bool" where
  "sound_steps cfg w ids [] \<longleftrightarrow> True"
| "sound_steps cfg w ids (s # ss) \<longleftrightarrow>
     forms s = 1 \<and> 0 \<le> sd_retry s \<and> set (sd_depends_on s) \<subseteq> ids - {sd_id s} \<and> sound_use cfg w s \<and>
     (case sd_loop s of None \<Rightarrow> True
      | Some l \<Rightarrow> 1 \<le> ld_max l \<and> ld_until l \<noteq> [] \<and> ld_steps l \<noteq> [] \<and>
          sound_steps cfg w (step_ids_at (ld_steps l) ids) (ld_steps l)) \<and>
     sound_steps cfg w ids ss"

lemma id_errors_ok:
  "id_errors sp i seen = ([], seen') \<Longrightarrow> ident_ok i \<and> map_of seen i = None \<and> seen' = put i sp seen"
  by (auto simp: id_errors_def split: if_splits option.splits)

lemma depends_errors_ok: "depends_errors sp s ids = [] \<longleftrightarrow> set (sd_depends_on s) \<subseteq> ids - {sd_id s}"
  by (auto simp: depends_errors_def)

text \<open>The errors of the form a step takes, with the ids seen after it.\<close>

definition body_check ::
  "config \<Rightarrow> workflow_def \<Rightarrow> string set \<Rightarrow> string \<Rightarrow> step_def \<Rightarrow> string smap \<Rightarrow> field_error list \<times> string smap" where
  "body_check cfg w ids sp s seen =
     (if forms s \<noteq> 1 then ([verr sp ''step must have exactly one of use/loop/generate''], seen)
      else if sd_use s \<noteq> [] then (use_errors cfg sp s, seen)
      else (case sd_loop s of
          Some l \<Rightarrow>
            if ld_steps l = []
            then (loop_head_errors sp l @ [verr (sp @ ''.loop.steps'') ''must be non-empty''], seen)
            else (let r = check_steps cfg w (step_ids_at (ld_steps l) ids) (sp @ ''.loop.steps'') 0 (ld_steps l) seen
                  in (loop_head_errors sp l @ loop_errors w sp s l @ fst r, snd r))
        | None \<Rightarrow> (case sd_generate s of Some g \<Rightarrow> (generate_errors cfg w sp g, seen) | None \<Rightarrow> ([], seen))))"

lemma check_steps_Cons:
  "check_steps cfg w ids path i (s # ss) seen =
     (let sp = path @ ''['' @ itoa (int i) @ '']''; ie = id_errors sp (sd_id s) seen;
          body = body_check cfg w ids sp s (snd ie); rest = check_steps cfg w ids path (Suc i) ss (snd body)
      in (fst ie @ retry_errors sp s @ depends_errors sp s ids @ fst body @ fst rest, snd rest))"
  by (simp add: Let_def body_check_def)

lemmas check_steps_unfold = check_steps.simps(1) check_steps_Cons

lemma forms_one:
  "forms s = 1 \<longleftrightarrow> (sd_use s \<noteq> [] \<and> sd_loop s = None \<and> sd_generate s = None) \<or>
     (sd_use s = [] \<and> sd_loop s \<noteq> None \<and> sd_generate s = None) \<or>
     (sd_use s = [] \<and> sd_loop s = None \<and> sd_generate s \<noteq> None)"
  by (auto simp: forms_def)

lemma check_steps_ok:
  assumes "check_steps cfg w ids path i ss seen = ([], seen')"
  shows "sound_steps cfg w ids ss \<and> distinct (tree_ids ss) \<and>
    (\<forall>n \<in> set (tree_ids ss). ident_ok n \<and> map_of seen n = None) \<and> keys seen' = keys seen \<union> set (tree_ids ss)"
  using assms
proof (induction "size_list size ss" arbitrary: ids path i ss seen seen' rule: less_induct)
  case less
  show ?case
  proof (cases ss)
    case Nil
    with less.prems show ?thesis by simp
  next
    case (Cons s rest)
    let ?sp = "path @ ''['' @ itoa (int i) @ '']''"
    obtain ie s1 where ie: "id_errors ?sp (sd_id s) seen = (ie, s1)" by fastforce
    obtain be s2 where b: "body_check cfg w ids ?sp s s1 = (be, s2)" by fastforce
    obtain re s3 where r: "check_steps cfg w ids path (Suc i) rest s2 = (re, s3)" by fastforce
    have e: "ie = []" "retry_errors ?sp s = []" "depends_errors ?sp s ids = []" "be = []" "re = []" "s3 = seen'"
      using less.prems ie b r unfolding Cons check_steps_Cons Let_def by simp_all
    note i = id_errors_ok [OF ie [unfolded e(1)]]
    have "size_list size rest < size_list size ss" using Cons by simp
    note R = less.hyps [OF this r [unfolded e(5,6)]]
    have ret: "0 \<le> sd_retry s" using e(2) by (simp add: retry_errors_def split: if_splits)
    note dep = e(3) [unfolded depends_errors_ok]
    have f: "forms s = 1" using b e(4) by (simp add: body_check_def split: if_splits)
    consider (use) "sd_use s \<noteq> []" "sd_loop s = None" "sd_generate s = None"
      | (lp) l where "sd_use s = []" "sd_loop s = Some l" "sd_generate s = None"
      | (gen) g where "sd_use s = []" "sd_loop s = None" "sd_generate s = Some g"
      using f unfolding forms_one by auto
    then show ?thesis
    proof cases
      case use
      with b e(4) f have "s2 = s1" "use_errors cfg ?sp s = []" by (simp_all add: body_check_def)
      with use have "sound_use cfg w s" by (simp add: sound_use_def use_errors_def split: if_splits)
      with use f ret dep R i \<open>s2 = s1\<close> Cons show ?thesis by (auto split: if_splits)
    next
      case gen
      with b e(4) f have "s2 = s1" "generate_errors cfg w ?sp g = []" by (simp_all add: body_check_def)
      with gen have "sound_use cfg w s" by (auto simp add: sound_use_def generate_errors_def split: if_splits)
      with gen f ret dep R i \<open>s2 = s1\<close> Cons show ?thesis by (auto split: if_splits)
    next
      case lp
      obtain le s4 where c: "check_steps cfg w (step_ids_at (ld_steps l) ids) (?sp @ ''.loop.steps'') 0 (ld_steps l) s1 = (le, s4)"
        by fastforce
      have ne: "ld_steps l \<noteq> []" and h: "loop_head_errors ?sp l = []" and l: "le = []" "s4 = s2"
        using b e(4) f lp c by (auto simp: body_check_def Let_def split: if_splits)
      have "size_list size (ld_steps l) < size_list size ss" using Cons lp step_loop_size [of s ss l] by simp
      note L = less.hyps [OF this c [unfolded l]]
      have "sound_use cfg w s" using lp by (simp add: sound_use_def)
      moreover have "1 \<le> ld_max l" "ld_until l \<noteq> []" using h by (auto simp: loop_head_errors_def split: if_splits)
      moreover have "n \<noteq> sd_id s \<and> map_of seen n = None \<and> n \<notin> set (tree_ids (ld_steps l))" if "map_of s2 n = None" for n
      proof -
        have "n \<notin> keys s2" using that by (simp add: domIff)
        then show ?thesis using L i by (auto simp: domIff)
      qed
      then have "\<forall>n \<in> set (tree_ids rest). n \<noteq> sd_id s \<and> map_of seen n = None \<and> n \<notin> set (tree_ids (ld_steps l))"
        using R by blast
      ultimately show ?thesis using lp f ret dep R L i ne Cons by (auto split: if_splits)
    qed
  qed
qed

subsection \<open>The whole configuration\<close>

lemma validated_parts:
  assumes "validate_config shw cfg viols = []"
  shows "viols = []"
    and "map_of (cf_templates cfg) t = Some td \<Longrightarrow> check_template shw cfg (''templates.'' @ t) td = []"
    and "map_of (cf_workflows cfg) n = Some w \<Longrightarrow> check_workflow shw cfg (''workflows.'' @ n) w = []"
    and "check_name_discipline cfg = []" and "check_lanes cfg = []"
  using assms unfolding validate_config_def append_is_Nil_conv check_templates_def check_workflows_def concat_Nil keyed_Nil
  by auto

lemma template_parts:
  assumes "check_template shw cfg path td = []"
  shows "check_param_defs shw (path @ ''.inputs'') (td_inputs td) = []"
    and "check_param_defs shw (path @ ''.output'') (td_output td) = []"
    and "check_run_contract path td = []" and "check_skills cfg path td = []" and "check_toolset cfg path td = []"
    and "td_lane td \<noteq> [] \<Longrightarrow> map_of (cf_lanes cfg) (td_lane td) \<noteq> None"
  using assms unfolding check_template_def append_is_Nil_conv by (auto split: if_splits)

lemma workflow_parts:
  assumes "check_workflow shw cfg path w = []"
  shows "check_param_defs shw (path @ ''.params'') (wf_params w) = []"
    and "wf_steps w \<noteq> []"
    and "fst (check_steps cfg w (step_ids_at (wf_steps w) {}) (path @ ''.steps'') 0 (wf_steps w) []) = []"
  using assms unfolding check_workflow_def append_is_Nil_conv by (auto split: if_splits)

lemma names_safe:
  assumes "check_name_discipline cfg = []"
  shows "n \<in> keys (cf_identities cfg) \<union> keys (cf_templates cfg) \<union> keys (cf_workflows cfg) \<union> keys (cf_images cfg) \<union>
    keys (cf_skills cfg) \<union> keys (cf_hooks cfg) \<union> keys (cf_invoke_profiles cfg) \<Longrightarrow> safe_name n"
    and "keys (cf_templates cfg) \<inter> keys (cf_workflows cfg) = {}"
proof -
  have ne: "name_errors s k = [] \<Longrightarrow> safe_name k" for s k by (simp add: name_errors_def split: if_splits)
  have all: "\<forall>(sec, ks) \<in> set (section_keys cfg). \<forall>k \<in> set ks. name_errors sec k = []"
    using assms unfolding check_name_discipline_def append_is_Nil_conv concat_Nil by (auto simp del: set_sorted_keys)
  show "safe_name n" if "n \<in> keys (cf_identities cfg) \<union> keys (cf_templates cfg) \<union> keys (cf_workflows cfg) \<union>
      keys (cf_images cfg) \<union> keys (cf_skills cfg) \<union> keys (cf_hooks cfg) \<union> keys (cf_invoke_profiles cfg)"
    using all ne that unfolding section_keys_def list.set ball_simps prod.case sorted_keys_dom by blast
  have "\<forall>n \<in> keys (cf_templates cfg). map_of (cf_workflows cfg) n = None"
    using assms unfolding check_name_discipline_def append_is_Nil_conv concat_Nil sorted_keys_dom
    by (auto split: if_splits)
  then show "keys (cf_templates cfg) \<inter> keys (cf_workflows cfg) = {}" by (metis IntE domIff equals0I)
qed

lemma volumes_apart:
  assumes "check_run_contract path td = []" and "map_of (rn_volumes (td_run td)) h = Some c" and "is_abs c"
    and "r \<in> set reserved_paths"
  shows "\<not> (\<exists>zs. path_segs c = path_segs r @ zs) \<and> \<not> (\<exists>zs. path_segs r = path_segs c @ zs)"
proof -
  have h: "h \<in> set (sorted_keys (rn_volumes (td_run td)))" using assms(2) by (auto simp del: set_sorted_keys simp: sorted_keys_dom)
  have "volume_errors path (rn_volumes (td_run td)) h = []"
    using assms(1) h unfolding check_run_contract_def Let_def append_is_Nil_conv concat_Nil by blast
  then have "List.find (\<lambda>r. container_path_under c r \<or> container_path_under r c) reserved_paths = None"
    using assms(2) by (auto simp: volume_errors_def get_or_def Let_def split: option.splits)
  then have "\<not> container_path_under c r \<and> \<not> container_path_under r c" using assms(4) by (auto simp: find_None_iff)
  moreover have "is_abs r" using assms(4) by (auto simp: reserved_paths_def is_abs_def has_prefix_def)
  ultimately show ?thesis using under_iff assms(3) by blast
qed

end
