(* ===== verification/WiringProps.thy ===== *)
theory WiringProps
  imports ValidateInv ConfigSample
begin

text \<open>Properties of run parameters and of the wiring checks.\<close>

subsection \<open>Run parameters\<close>

lemma map_sum_Inr: "map_sum id f x = Inr y \<longleftrightarrow> (\<exists>z. x = Inr z \<and> y = f z)"
  by (cases x) auto

lemma normalize_conforms: "normalize_value shw v = Inr w \<Longrightarrow> conforms d v \<Longrightarrow> conforms d w"
  by (cases v) (auto simp: conforms_def yaml_type_name_def map_sum_Inr split: option.splits)

text \<open>
  C24. An accepted parameter environment is the declared one, for declarations the validator admits: only
  declared names were supplied and only declared names are bound, a name is bound exactly when it was
  supplied or has a default, every required parameter is bound, each value is the coerced text or the
  normalised default, tagged with its declared type, and it conforms to its declaration, enumeration
  included. The exception is a supplied object, which is any value its text denotes as JSON.
\<close>
theorem accepted_params_conform:
  assumes "check_params pf jerr shw decl supplied = Inr out" and "sound_defs decl"
  shows "keys supplied \<subseteq> keys decl \<and> keys out \<subseteq> keys decl \<and>
    (\<forall>k d. map_of decl k = Some d \<longrightarrow>
      (map_of out k \<noteq> None \<longleftrightarrow> map_of supplied k \<noteq> None \<or> pd_default d \<noteq> None) \<and>
      (pd_required d \<longrightarrow> map_of out k \<noteq> None) \<and>
      (\<forall>tv. map_of out k = Some tv \<longrightarrow> tv_type tv = pd_type d \<and>
        (case map_of supplied k of
           Some raw \<Rightarrow> coerce_param pf jerr d raw = Inr (tv_value tv) \<and>
             (if pd_type d = ''object'' then json_unmarshal pf raw = Some (tv_value tv) else conforms d (tv_value tv))
         | None \<Rightarrow> (\<exists>v. pd_default d = Some v \<and> normalize_value shw v = Inr (tv_value tv)) \<and> conforms d (tv_value tv))))"
proof (intro conjI allI impI)
  note ok = check_params_ok [OF assms(1)]
  show "keys supplied \<subseteq> keys decl" by (rule ok(1))
  then show "keys out \<subseteq> keys decl" using ok(4) by (fastforce simp: domIff)
  fix k d assume d: "map_of decl k = Some d"
  then have wf: "wf_def d" "\<And>v. pd_default d = Some v \<Longrightarrow> conforms d v" using assms(2) by (auto simp: sound_defs_def)
  note given = ok(2) [of k] and absent = ok(3) [OF _ d]
  have dv: "default_value shw d = Some tv \<Longrightarrow> tv_type tv = pd_type d \<and>
      (\<exists>v. pd_default d = Some v \<and> normalize_value shw v = Inr (tv_value tv))" for tv
    by (auto simp: default_value_def split: option.splits sum.splits)
  show "map_of out k \<noteq> None \<longleftrightarrow> map_of supplied k \<noteq> None \<or> pd_default d \<noteq> None"
  proof (cases "map_of supplied k")
    case None
    then have "map_of out k = default_value shw d" "pd_default d \<noteq> None \<longrightarrow> map_of out k \<noteq> None" using absent by blast+
    then show ?thesis using dv None by (cases "default_value shw d") auto
  next
    case (Some raw)
    with given [OF Some] show ?thesis by auto
  qed
  show "map_of out k \<noteq> None" if "pd_required d"
    using given absent that by (cases "map_of supplied k") (blast | auto)+
  fix tv assume tv: "map_of out k = Some tv"
  have parts: "tv_type tv = pd_type d \<and>
      (case map_of supplied k of
         Some raw \<Rightarrow> coerce_param pf jerr d raw = Inr (tv_value tv)
       | None \<Rightarrow> (\<exists>v. pd_default d = Some v \<and> normalize_value shw v = Inr (tv_value tv)))"
  proof (cases "map_of supplied k")
    case None
    with absent tv have "default_value shw d = Some tv" by simp
    with dv None show ?thesis by simp
  next
    case (Some raw)
    with given [OF Some] d tv show ?thesis by auto
  qed
  then show "tv_type tv = pd_type d" by blast
  show "case map_of supplied k of
       Some raw \<Rightarrow> coerce_param pf jerr d raw = Inr (tv_value tv) \<and>
         (if pd_type d = ''object'' then json_unmarshal pf raw = Some (tv_value tv) else conforms d (tv_value tv))
     | None \<Rightarrow> (\<exists>v. pd_default d = Some v \<and> normalize_value shw v = Inr (tv_value tv)) \<and> conforms d (tv_value tv)"
  proof (cases "map_of supplied k")
    case None
    with parts obtain v where "pd_default d = Some v" "normalize_value shw v = Inr (tv_value tv)" by auto
    with None wf(2) normalize_conforms show ?thesis by (auto simp del: normalize_value.simps)
  next
    case (Some raw)
    with parts have c: "coerce_param pf jerr d raw = Inr (tv_value tv)" by simp
    moreover have "json_unmarshal pf raw = Some (tv_value tv)" if "pd_type d = ''object''"
      using c that by (simp add: coerce_param_def split: option.splits)
    moreover have "conforms d (tv_value tv)" if "pd_type d \<noteq> ''object''"
      using coerced_conforms [OF c that] wf(1) by (auto simp: wf_def_def)
    ultimately show ?thesis using Some by simp
  qed
qed

definition mode_param :: param_def where
  "mode_param = \<lparr>pd_type = ''string'', pd_required = True, pd_default = None, pd_enum = [''fast'', ''slow'']\<rparr>"

definition retry_param :: param_def where
  "retry_param = \<lparr>pd_type = ''int'', pd_required = False, pd_default = Some (VInt 2), pd_enum = []\<rparr>"

theorem accepted_params_conform_witness:
  "\<exists>tv out. check_params (\<lambda>_. None) id sample_show [(''mode'', mode_param), (''n'', retry_param)] [(''mode'', ''slow'')] = Inr out \<and>
     map_of out ''n'' = Some tv \<and> tv_value tv = VInt 2 \<and> conforms retry_param (tv_value tv)"
proof -
  let ?decl = "[(''mode'', mode_param), (''n'', retry_param)]"
  have c: "check_params (\<lambda>_. None) id sample_show ?decl [(''mode'', ''slow'')] =
      Inr [(''mode'', \<lparr>tv_type = ''string'', tv_value = VStr ''slow''\<rparr>), (''n'', \<lparr>tv_type = ''int'', tv_value = VInt 2\<rparr>)]" by code_simp
  have "env_token ''mode'' \<noteq> env_token ''n''" "env_name (env_token ''mode'')" "env_name (env_token ''n'')" by code_simp+
  then have "sound_defs ?decl"
    by (auto simp: sound_defs_def wf_def_def conforms_def yaml_type_name_def mode_param_def retry_param_def)
  from accepted_params_conform [OF c this] have "conforms retry_param (VInt 2)"
    by (auto dest!: spec [of _ "''n''"])
  with c show ?thesis by simp
qed

subsection \<open>Wiring\<close>

text \<open>
  C25. The type test between a source and a slot decides subtyping: for a declaration the validator
  admits it finds no reason against the pair exactly when every value of the source's type, within its
  enumeration, is a value of the slot's type, within its.
\<close>
theorem type_test_decides_subtyping:
  assumes "wf_def src"
  shows "type_satisfies src dst = [] \<longleftrightarrow> (\<forall>v. conforms src v \<longrightarrow> conforms dst v)"
  using type_satisfies_sound type_satisfies_complete [OF assms] by blast

theorem type_test_decides_subtyping_witness:
  "\<not> (\<forall>v. conforms (mode_param\<lparr>pd_enum := []\<rparr>) v \<longrightarrow> conforms mode_param v)"
proof -
  have "wf_def (mode_param\<lparr>pd_enum := []\<rparr>)" by (simp add: wf_def_def mode_param_def)
  moreover have "type_satisfies (mode_param\<lparr>pd_enum := []\<rparr>) mode_param \<noteq> []"
    by (simp add: type_satisfies_def mode_param_def)
  ultimately show ?thesis using type_test_decides_subtyping by metis
qed

text \<open>
  C26. A graph without wiring violations is safe to run: its node ids are distinct across all nesting
  levels, and on every level the edges join nodes of the level, the value an edge carries always
  conforms to the slot it is bound to, a literal conforms to its slot, no slot is bound twice, every
  required slot without a default is bound, and edges and conditions order the nodes without a cycle.
\<close>
theorem wired_graphs_sound:
  assumes "check_wiring cel shw g cfg = []"
  shows "distinct (flat_ids g) \<and> (\<forall>h \<in> set (levels g). well_typed cfg h \<and> acyclic (set (order_edges h)))"
  using wired [OF assms] by blast

lemma sample_wired:
  "case desugar sample_show sample_config ''w'' of Inl _ \<Rightarrow> False
   | Inr g \<Rightarrow> check_wiring (\<lambda>_. Inr CelUnspecified) sample_show g sample_config = [] \<and> length (ir_edges g) = 8"
  by code_simp

theorem wired_graphs_sound_witness:
  "\<exists>g. desugar sample_show sample_config ''w'' = Inr g \<and> distinct (flat_ids g) \<and> well_typed sample_config g \<and>
     acyclic (set (order_edges g))"
proof -
  obtain g where g: "desugar sample_show sample_config ''w'' = Inr g"
      "check_wiring (\<lambda>_. Inr CelUnspecified) sample_show g sample_config = []"
    using sample_wired by (auto split: sum.splits)
  have "g \<in> set (levels g)" by (simp add: levels.simps [of g])
  with wired_graphs_sound [OF g(2)] g(1) show ?thesis by blast
qed

text \<open>
  C27. The cycle pass is exact: for distinct node ids it reports a cycle exactly when the edges and the
  condition dependencies of the level have one.
\<close>
theorem cycle_pass_exact:
  assumes "distinct (map n_id (ir_nodes g))"
  shows "pass_acyclic g = [] \<longleftrightarrow> acyclic (set (order_edges g))"
  using pass_acyclic_iff assms by (simp add: ids_of_def)

definition gate_node :: "string \<Rightarrow> string \<Rightarrow> node" where
  "gate_node i d = Node i KindAgent None None None None [] (Some \<lparr>c_cel = ''true'', c_deps = [d]\<rparr>) 0 [] []"

definition mutual_gates :: ir where
  "mutual_gates = IR 2 ''w'' [gate_node ''a'' ''b'', gate_node ''b'' ''a''] [] [] []"

theorem cycle_pass_exact_witness:
  "pass_acyclic mutual_gates = [werr ''a'' [] ''reference cycle: a -> b -> a''] \<and> \<not> acyclic (set (order_edges mutual_gates))"
proof -
  have p: "pass_acyclic mutual_gates = [werr ''a'' [] ''reference cycle: a -> b -> a'']" by code_simp
  have d: "distinct (map n_id (ir_nodes mutual_gates))" by (simp add: mutual_gates_def gate_node_def)
  from cycle_pass_exact [OF d] p show ?thesis by simp
qed

text \<open>
  A condition whose syntax tree passes the reference walk reads nothing it has no edge for: every
  occurrence of \<open>steps\<close> in it is the \<open>steps["<id>"].<field>\<close> form with an id among the
  condition's dependencies, every occurrence of \<open>params\<close> names a declared parameter that is required
  or defaulted, and \<open>item\<close> does not occur.
\<close>
theorem clean_conditions_canonical:
  assumes "walk_cond scope e = []" and "plain_index e"
  shows "idents ''steps'' e = length (step_refs e) \<and> set (step_refs e) \<subseteq> cs_deps scope \<and>
    idents ''params'' e = length (param_refs e) \<and> set (param_refs e) \<subseteq> cs_guaranteed scope \<and>
    idents ''item'' e = 0"
  using clean_walk_canonical [OF assms] by (simp add: canonical_def)

definition sample_scope :: cond_scope where
  "sample_scope = \<lparr>cs_deps = {''w/a''}, cs_declared = {''n''}, cs_guaranteed = {''n''}\<rparr>"

definition sample_cond :: cel_expr where
  "sample_cond = CelCall ''_>_'' None
     [CelSelect (CelCall OpIndex None [CelIdent ''steps'', CelLiteral (Some ''w/a'')]) ''count'',
      CelSelect (CelIdent ''params'') ''n'']"

theorem clean_conditions_canonical_witness:
  "set (step_refs sample_cond) \<subseteq> {''w/a''} \<and> idents ''steps'' sample_cond = 1"
proof -
  have w: "walk_cond sample_scope sample_cond = []"
    by (simp add: sample_cond_def sample_scope_def reserved_index_def steps_index_arg_def check_steps_id_def check_param_name_def)
  have "plain_index sample_cond" by (simp add: sample_cond_def)
  from clean_conditions_canonical [OF w this] show ?thesis
    by (simp add: sample_scope_def) (simp add: sample_cond_def)
qed

text \<open>
  The pattern that reads the fields of a condition back does not tell references from text: a
  string literal that spells a reference survives the rewriting unchanged and without a dependency,
  and the pattern still reports it.
\<close>
theorem quoted_reference_reported:
  "rewrite_refs ('' 'steps['' @ [CHR 0x22] @ ''w/a'' @ [CHR 0x22] @ ''].nope' '') res st =
     (Inr ('' 'steps['' @ [CHR 0x22] @ ''w/a'' @ [CHR 0x22] @ ''].nope' '', []), st) \<and>
   cond_field_refs ('' 'steps['' @ [CHR 0x22] @ ''w/a'' @ [CHR 0x22] @ ''].nope' '') = [(''w/a'', ''nope'')]"
proof
  show "rewrite_refs ('' 'steps['' @ [CHR 0x22] @ ''w/a'' @ [CHR 0x22] @ ''].nope' '') res st =
     (Inr ('' 'steps['' @ [CHR 0x22] @ ''w/a'' @ [CHR 0x22] @ ''].nope' '', []), st)"
    by (simp add: rewrite_refs_def rewrite_from.simps word_starts_def is_ident_start_def byte_def str_set_def)
  show "cond_field_refs ('' 'steps['' @ [CHR 0x22] @ ''w/a'' @ [CHR 0x22] @ ''].nope' '') = [(''w/a'', ''nope'')]"
    by code_simp
qed

end
