(* ===== verification/ValidateProps.thy ===== *)
theory ValidateProps
  imports ValidateInv ConfigSample
begin

text \<open>Properties of the schema validation.\<close>

lemma sample_valid: "validate_config sample_show sample_config [] = []"
  by code_simp

text \<open>
  C28. In a validated configuration every declaration of inputs, outputs and parameters is sound: no two
  names of a section map to the same environment variable, each maps to a legal variable name, types
  are known, enumerations are of strings, and a default conforms to its declaration.
\<close>
theorem validated_declarations:
  assumes "validate_config shw cfg viols = []"
  shows "(\<forall>n t. map_of (cf_templates cfg) n = Some t \<longrightarrow> sound_defs (td_inputs t) \<and> sound_defs (td_output t)) \<and>
    (\<forall>n w. map_of (cf_workflows cfg) n = Some w \<longrightarrow> sound_defs (wf_params w))"
  using validated_parts(2,3) [OF assms] template_parts(1,2) workflow_parts(1) param_defs_ok by metis

theorem validated_declarations_witness:
  "sound_defs (td_inputs sample_box) \<and> map_of (cf_templates sample_config) ''t'' = Some sample_box"
proof
  show t: "map_of (cf_templates sample_config) ''t'' = Some sample_box" by (simp add: sample_config_def)
  show "sound_defs (td_inputs sample_box)" using validated_declarations [OF sample_valid] t by blast
qed



text \<open>
  No name of a validated configuration leads out of the directory it is joined to: below any
  directory, the path of an identity, template, workflow, image, skill, hook or profile name is the
  cleaned directory with the name as its one further segment, and templates and workflows share no name.
\<close>
theorem validated_names_stay_inside:
  assumes "validate_config shw cfg viols = []"
    and "n \<in> keys (cf_identities cfg) \<union> keys (cf_templates cfg) \<union> keys (cf_workflows cfg) \<union> keys (cf_images cfg) \<union>
      keys (cf_skills cfg) \<union> keys (cf_hooks cfg) \<union> keys (cf_invoke_profiles cfg)"
    and "dir \<noteq> []" and "path_clean dir \<noteq> ''/''" and "path_clean dir \<noteq> ''.''"
  shows "path_join dir n = path_clean dir @ ''/'' @ n \<and> CHR ''/'' \<notin> set n \<and> n \<notin> {[], ''.'', ''..''} \<and>
    keys (cf_templates cfg) \<inter> keys (cf_workflows cfg) = {}"
proof -
  note nd = validated_parts(4) [OF assms(1)]
  have s: "safe_name n" by (rule names_safe(1) [OF nd assms(2)])
  have "path_segs dir \<noteq> []" using assms(4,5) by (auto simp: path_clean_segs split: if_splits)
  then show ?thesis using clean_child [OF s assms(3)] s names_safe(2) [OF nd] by (auto simp: safe_name_def)
qed

theorem validated_names_stay_inside_witness:
  "path_join ''/stage/..//runs/x/'' ''t'' = ''/runs/x/t''"
proof -
  have "''t'' \<in> keys (cf_templates sample_config)" by (simp add: sample_config_def)
  moreover have "path_clean ''/stage/..//runs/x/'' = ''/runs/x''" by code_simp
  ultimately show ?thesis using validated_names_stay_inside [OF sample_valid, of "''t''" "''/stage/..//runs/x/''"] by simp
qed

text \<open>
  No volume of a validated template touches what the box owns: the cleaned path of an absolute
  container path is neither a prefix nor an extension, segment by segment, of a reserved path, and no
  variable of the engine's namespace but the agent CLI is set.
\<close>
theorem reserved_paths_untouched:
  assumes "validate_config shw cfg viols = []" and "map_of (cf_templates cfg) n = Some t"
  shows "(\<forall>h c r. map_of (rn_volumes (td_run t)) h = Some c \<and> is_abs c \<and> r \<in> set reserved_paths \<longrightarrow>
      \<not> (\<exists>zs. path_segs c = path_segs r @ zs) \<and> \<not> (\<exists>zs. path_segs r = path_segs c @ zs)) \<and>
    (\<forall>k \<in> keys (rn_env (td_run t)). engine_owned k \<longrightarrow> k = ''FABER_AGENT_CLI'')"
proof
  note c = template_parts(3) [OF validated_parts(2) [OF assms]]
  show "\<forall>h c r. map_of (rn_volumes (td_run t)) h = Some c \<and> is_abs c \<and> r \<in> set reserved_paths \<longrightarrow>
      \<not> (\<exists>zs. path_segs c = path_segs r @ zs) \<and> \<not> (\<exists>zs. path_segs r = path_segs c @ zs)"
    using volumes_apart [OF c] by blast
  show "\<forall>k \<in> keys (rn_env (td_run t)). engine_owned k \<longrightarrow> k = ''FABER_AGENT_CLI''"
    using c unfolding check_run_contract_def Let_def append_is_Nil_conv concat_Nil sorted_keys_dom
    by (auto split: if_splits)
qed

definition cache_config :: config where
  "cache_config = sample_config\<lparr>cf_templates :=
     [(''t'', sample_box\<lparr>td_run := (td_run sample_box)\<lparr>rn_volumes := [(''/var/cache'', ''/tmpfiles'')]\<rparr>\<rparr>)]\<rparr>"

lemma cache_valid: "validate_config sample_show cache_config [] = []"
  by code_simp

theorem reserved_paths_untouched_witness:
  "\<not> (\<exists>zs. path_segs ''/tmpfiles'' = path_segs ''/tmp'' @ zs)"
proof -
  have "map_of (cf_templates cache_config) ''t'' =
      Some (sample_box\<lparr>td_run := (td_run sample_box)\<lparr>rn_volumes := [(''/var/cache'', ''/tmpfiles'')]\<rparr>\<rparr>)"
    by (simp add: cache_config_def)
  from conjunct1 [OF reserved_paths_untouched [OF cache_valid this], THEN spec, of "''/var/cache''", THEN spec, of "''/tmpfiles''",
      THEN spec, of "''/tmp''"]
  show ?thesis by (simp add: reserved_paths_def is_abs_def has_prefix_def)
qed

end
