(* ===== verification/Replay.thy ===== *)
theory Replay
  imports JournalRecords
begin

text \<open>
  The journal file (\<open>failure/journal.go\<close>): appending a line, repairing a torn tail, and the replay of
  a file's bytes. The file is its byte string. The JSON encoding of the record structs is a parameter
  (\<open>codec\<close>: the encoder and, per record kind, the typed decoder of \<open>encoding/json\<close>); everything
  else, down to the line scanner and the blank-line test, is the code's own or that of \<open>bufio\<close> and
  \<open>bytes\<close>. Reads, writes and syncs of the operating system succeed.
\<close>

subsection \<open>Lines\<close>

abbreviation newline :: char where "newline \<equiv> CHR 0x0A"

definition max_journal_line :: int where "max_journal_line = 67108864"

definition journal_format :: int where "journal_format = 1"

text \<open>The bytes one white-space character takes at the front, as \<open>bytes.TrimSpace\<close> reads UTF-8.\<close>

definition ws_len :: "string \<Rightarrow> nat" where
  "ws_len s =
     (case map byte (take 3 s) of
        a # bs \<Rightarrow>
          if a \<in> {9, 10, 11, 12, 13, 32} then 1
          else (case bs of
              b # cs \<Rightarrow>
                if a = 0xC2 \<and> b \<in> {0x85, 0xA0} then 2
                else (case cs of
                    [c] \<Rightarrow>
                      if (a = 0xE1 \<and> b = 0x9A \<and> c = 0x80) \<or>
                         (a = 0xE2 \<and> b = 0x80 \<and> (0x80 \<le> c \<and> c \<le> 0x8A \<or> c \<in> {0xA8, 0xA9, 0xAF})) \<or>
                         (a = 0xE2 \<and> b = 0x81 \<and> c = 0x9F) \<or> (a = 0xE3 \<and> b = 0x80 \<and> c = 0x80)
                      then 3 else 0
                  | _ \<Rightarrow> 0)
            | [] \<Rightarrow> 0)
      | [] \<Rightarrow> 0)"

function blank :: "string \<Rightarrow> bool" where
  "blank s = (if s = [] then True else if ws_len s = 0 then False else blank (drop (ws_len s) s))"
  by pat_completeness auto
termination by (relation "measure length") auto

declare blank.simps [simp del]

text \<open>\<open>bufio.ScanLines\<close>: lines end at a newline, a final carriage return is dropped, nothing follows a
  final newline; a line that does not fit the scanner's buffer is an error.\<close>

definition strip_cr :: "string \<Rightarrow> string" where
  "strip_cr l = (if l \<noteq> [] \<and> last l = CHR 0x0D then butlast l else l)"

definition raw_lines :: "string \<Rightarrow> string list" where
  "raw_lines s = (let ps = split_on newline s in if last ps = [] then butlast ps else ps)"

definition scan_lines :: "string \<Rightarrow> string + string list" where
  "scan_lines s =
     (if \<exists>l \<in> set (raw_lines s). max_journal_line \<le> int (length l) then Inl ''bufio.Scanner: token too long''
      else Inr (map strip_cr (raw_lines s)))"

definition ends_with_newline :: "string \<Rightarrow> bool" where
  "ends_with_newline s \<longleftrightarrow> s \<noteq> [] \<and> last s = newline"

subsection \<open>Records\<close>

record codec =
  cd_enc :: "entry \<Rightarrow> string option"
  cd_kind :: "string \<Rightarrow> string + string"
  cd_header :: "string \<Rightarrow> string + header"
  cd_result :: "string \<Rightarrow> string + result_record"
  cd_cost :: "string \<Rightarrow> string + cost_record"
  cd_cleanup :: "string \<Rightarrow> string + cleanup_record"
  cd_defer :: "string \<Rightarrow> string + defer_record"
  cd_start :: "string \<Rightarrow> string + start_record"
  cd_run_end :: "string \<Rightarrow> string + run_end_record"

abbreviation KindHeader :: string where "KindHeader \<equiv> ''header''"
abbreviation KindResult :: string where "KindResult \<equiv> ''result''"
abbreviation KindCost :: string where "KindCost \<equiv> ''cost''"
abbreviation KindCleanup :: string where "KindCleanup \<equiv> ''cleanup''"
abbreviation KindDefer :: string where "KindDefer \<equiv> ''defer''"
abbreviation KindStart :: string where "KindStart \<equiv> ''start''"
abbreviation KindRunEnd :: string where "KindRunEnd \<equiv> ''run-end''"

subsection \<open>Appending\<close>

text \<open>One write of one line, after the checks; \<open>Inl\<close> leaves the file as it was.\<close>

definition append_line :: "codec \<Rightarrow> entry \<Rightarrow> string \<Rightarrow> string + string" where
  "append_line cd e content =
     (case cd_enc cd e of
        None \<Rightarrow> Inl ''failure: journal encode''
      | Some b \<Rightarrow>
          (let line = b @ [newline] in
           if max_journal_line < int (length line)
           then Inl (''failure: journal append: record is '' @ itoa (int (length line)) @ '' bytes, over the '' @
                  itoa max_journal_line @ ''-byte line limit (replay could not read it back)'')
           else Inr (content @ line)))"

definition append_checked :: "codec \<Rightarrow> entry \<Rightarrow> string \<Rightarrow> string + string" where
  "append_checked cd e content =
     (case append_refuses e of Some m \<Rightarrow> Inl m | None \<Rightarrow> append_line cd e content)"

text \<open>The header of a new journal; the format stamp is the journal's own.\<close>

definition append_header :: "codec \<Rightarrow> header \<Rightarrow> string \<Rightarrow> string + string" where
  "append_header cd h content = append_line cd (JHeader (h\<lparr>hd_format := journal_format\<rparr>)) content"

subsection \<open>Repair\<close>

text \<open>\<open>bytes.LastIndexByte\<close>, and the backward scan for the last newline in chunks of \<open>ch\<close> bytes:
  the number of bytes to keep when all from \<open>off\<close> on has been searched.\<close>

fun last_index :: "char \<Rightarrow> string \<Rightarrow> nat option" where
  "last_index c [] = None"
| "last_index c (x # xs) =
     (case last_index c xs of Some i \<Rightarrow> Some (Suc i) | None \<Rightarrow> if x = c then Some 0 else None)"

function scan_back :: "nat \<Rightarrow> string \<Rightarrow> nat \<Rightarrow> nat" where
  "scan_back ch s off =
     (if off = 0 \<or> ch = 0 then 0
      else let n = min ch off; off' = off - n in
        (case last_index newline (take n (drop off' s)) of
           Some i \<Rightarrow> off' + i + 1
         | None \<Rightarrow> scan_back ch s off'))"
  by pat_completeness auto
termination by (relation "measure (\<lambda>(ch, s, off). off)") auto

declare scan_back.simps [simp del]

definition repair_torn_tail :: "string \<Rightarrow> string" where
  "repair_torn_tail s =
     (if s = [] \<or> last s = newline then s else take (scan_back 4096 s (length s)) s)"

subsection \<open>Replay\<close>

record replay =
  rp_header :: header
  rp_results :: "((string \<times> string) \<times> result_record) list"
  rp_last :: "result_record smap"
  rp_costs :: "cost_record list"
  rp_cleanups :: "cleanup_record list"
  rp_defers :: "defer_record list"
  rp_starts :: "start_record list"
  rp_end :: "run_end_record option"

definition blank_header :: header where
  "blank_header = \<lparr>hd_format = 0, hd_run_id = [], hd_name = [], hd_sessions = False, hd_config_path = [],
     hd_config_hash = [], hd_workflow = [], hd_params = [], hd_ir_hash = [], hd_ir_hash_cap_free = [],
     hd_ir_version = 0, hd_images = [], hd_started = 0\<rparr>"

definition blank_replay :: replay where
  "blank_replay = \<lparr>rp_header = blank_header, rp_results = [], rp_last = [], rp_costs = [], rp_cleanups = [],
     rp_defers = [], rp_starts = [], rp_end = None\<rparr>"

text \<open>What one record adds: the last record of a key, of a step, and the last end marker win.\<close>

definition fold_record :: "entry \<Rightarrow> replay \<Rightarrow> replay" where
  "fold_record e rp =
     (case e of
        JHeader h \<Rightarrow> rp\<lparr>rp_header := h\<rparr>
      | JResult r \<Rightarrow> rp\<lparr>rp_results := AList.update (rr_step r, rr_hash r) r (rp_results rp),
                        rp_last := put (rr_step r) r (rp_last rp)\<rparr>
      | JCost c \<Rightarrow> rp\<lparr>rp_costs := rp_costs rp @ [c]\<rparr>
      | JCleanup c \<Rightarrow> rp\<lparr>rp_cleanups := rp_cleanups rp @ [c]\<rparr>
      | JDefer d \<Rightarrow> rp\<lparr>rp_defers := rp_defers rp @ [d]\<rparr>
      | JStart s \<Rightarrow> rp\<lparr>rp_starts := rp_starts rp @ [s]\<rparr>
      | JRunEnd e \<Rightarrow> rp\<lparr>rp_end := Some e\<rparr>)"

definition mdash :: string where
  "mdash = [CHR 0xE2, CHR 0x80, CHR 0x94]"

definition format_error :: "string \<Rightarrow> int \<Rightarrow> string" where
  "format_error path f =
     (if journal_format < f
      then ''failure: journal '' @ path @ '': written by a newer faber (journal format '' @ itoa f @
        '', this faber reads '' @ itoa journal_format @ '') '' @ mdash @ '' use the faber that wrote it, or start over with --fresh''
      else ''failure: journal '' @ path @ '': journaled under schema v'' @ itoa f @ '', current v'' @
        itoa journal_format @
        ''; no auto-migration '' @ mdash @ '' finish the run on the faber that wrote it, or start over with --fresh'')"

definition line_error :: "string \<Rightarrow> nat \<Rightarrow> string \<Rightarrow> string" where
  "line_error path i m = ''failure: journal '' @ path @ '': line '' @ itoa (int (Suc i)) @ '': '' @ m"

text \<open>One line with kind \<open>k\<close> into the replay; the flag tells whether the header has been seen. An unknown
  kind is skipped.\<close>

definition load_record ::
  "codec \<Rightarrow> string \<Rightarrow> nat \<Rightarrow> string \<Rightarrow> string \<Rightarrow> replay \<times> bool \<Rightarrow> string + replay \<times> bool" where
  "load_record cd path i k l st =
     (let rp = fst st; seen = snd st;
          take_rec = (\<lambda>name d con. (case d of Inl e \<Rightarrow> Inl (line_error path i (name @ '': '' @ e))
                                | Inr r \<Rightarrow> Inr (fold_record (con r) rp, seen)))
      in if k = KindHeader then
           (if seen then Inl (line_error path i ''duplicate header'')
            else case cd_header cd l of
                Inl e \<Rightarrow> Inl (line_error path i (''header: '' @ e))
              | Inr h \<Rightarrow> if hd_format h \<noteq> journal_format then Inl (format_error path (hd_format h))
                         else Inr (fold_record (JHeader h) rp, True))
         else if k = KindResult then
           (case cd_result cd l of
              Inl e \<Rightarrow> Inl (line_error path i (''result record: '' @ e))
            | Inr r \<Rightarrow> if validate (rr_result r) \<noteq> [] then Inl (line_error path i (validate_error (validate (rr_result r))))
                       else Inr (fold_record (JResult r) rp, seen))
         else if k = KindCost then take_rec ''cost record'' (map_sum id JCost (cd_cost cd l)) id
         else if k = KindCleanup then take_rec ''cleanup record'' (map_sum id JCleanup (cd_cleanup cd l)) id
         else if k = KindDefer then take_rec ''defer record'' (map_sum id JDefer (cd_defer cd l)) id
         else if k = KindStart then take_rec ''start record'' (map_sum id JStart (cd_start cd l)) id
         else if k = KindRunEnd then take_rec ''run-end record'' (map_sum id JRunEnd (cd_run_end cd l)) id
         else Inr st)"

fun load_lines ::
  "codec \<Rightarrow> string \<Rightarrow> bool \<Rightarrow> nat \<Rightarrow> string list \<Rightarrow> replay \<times> bool \<Rightarrow> string + replay \<times> bool" where
  "load_lines cd path terminated i [] st = Inr st"
| "load_lines cd path terminated i (l # ls) st =
     (if ls = [] \<and> \<not> terminated then Inr st
      else if blank l then load_lines cd path terminated (Suc i) ls st
      else case cd_kind cd l of
          Inl e \<Rightarrow> Inl (line_error path i e)
        | Inr k \<Rightarrow>
            if i = 0 \<and> k \<noteq> KindHeader
            then Inl (''failure: journal '' @ path @ '': first record is '' @ quote_str k @ '', want '' @ quote_str KindHeader)
            else (case load_record cd path i k l st of
                Inl e \<Rightarrow> Inl e
              | Inr st' \<Rightarrow> load_lines cd path terminated (Suc i) ls st'))"

definition load_journal :: "codec \<Rightarrow> string \<Rightarrow> string \<Rightarrow> string + replay" where
  "load_journal cd path content =
     (case scan_lines content of
        Inl e \<Rightarrow> Inl (''failure: read journal '' @ path @ '': '' @ e)
      | Inr ls \<Rightarrow>
          if ls = [] then Inl (''failure: journal '' @ path @ '' is empty (no header)'')
          else (case load_lines cd path (ends_with_newline content) 0 ls (blank_replay, False) of
              Inl e \<Rightarrow> Inl e
            | Inr (rp, seen) \<Rightarrow>
                if \<not> seen then Inl (''failure: journal '' @ path @ '': missing header'') else Inr rp))"

text \<open>\<open>Running\<close>: the steps whose newest start no result finished after, newest first (ties in any
  order, here that of the sort).\<close>

record running_step =
  rs_step :: string
  rs_attempt :: int
  rs_since :: time

definition last_starts :: "start_record list \<Rightarrow> start_record smap" where
  "last_starts ss = fold (\<lambda>s m. put (sr_step s) s m) ss []"

definition still_running :: "replay \<Rightarrow> string \<times> start_record \<Rightarrow> bool" where
  "still_running rp p =
     (case map_of (rp_last rp) (fst p) of
        None \<Rightarrow> True
      | Some r \<Rightarrow> tm_finished (r_timing (rr_result r)) < sr_started (snd p))"

definition running :: "replay \<Rightarrow> running_step list" where
  "running rp =
     sort_key (\<lambda>r. - rs_since r)
       (map (\<lambda>p. \<lparr>rs_step = fst p, rs_attempt = sr_attempt (snd p), rs_since = sr_started (snd p)\<rparr>)
          (filter (still_running rp) (last_starts (rp_starts rp))))"

end
