(* ===== verification/Recovery.thy ===== *)
theory Recovery
  imports Replay Hashing Assembly
begin

text \<open>
  The run store and the recovery modes (\<open>failure/store.go\<close>, \<open>lock.go\<close>, \<open>pause.go\<close>, \<open>runs.go\<close>,
  \<open>recover.go\<close>): one directory per run with its journal, its pause marker and its advisory lock. An
  operation takes the store and returns it with its result. The calls of the operating system behave
  as documented: a missing file is an error, nothing else fails, and the root directory exists. \<open>hash_ir\<close> stands for the hash of the
  encoded graph, \<open>me\<close> is the process id.
\<close>

subsection \<open>The store\<close>

datatype lock_state = LockFree | LockHeld int

record run_dir =
  rd_journal :: "string option"
  rd_pause :: bool
  rd_lock :: lock_state

record store =
  st_root :: string
  st_dirs :: "run_dir smap"

definition empty_dir :: run_dir where
  "empty_dir = \<lparr>rd_journal = None, rd_pause = False, rd_lock = LockFree\<rparr>"

definition run_path :: "store \<Rightarrow> string \<Rightarrow> string" where
  "run_path st rid = path_join (st_root st) rid"

definition journal_path :: "store \<Rightarrow> string \<Rightarrow> string" where
  "journal_path st rid = path_join (run_path st rid) ''journal.jsonl''"

definition journal_of :: "store \<Rightarrow> string \<Rightarrow> string option" where
  "journal_of st rid = (case map_of (st_dirs st) rid of None \<Rightarrow> None | Some d \<Rightarrow> rd_journal d)"

definition upd_dir :: "string \<Rightarrow> (run_dir \<Rightarrow> run_dir) \<Rightarrow> store \<Rightarrow> store" where
  "upd_dir rid f st =
     (case map_of (st_dirs st) rid of None \<Rightarrow> st | Some d \<Rightarrow> st\<lparr>st_dirs := put rid (f d) (st_dirs st)\<rparr>)"

definition not_there :: "string \<Rightarrow> string \<Rightarrow> string" where
  "not_there op path = op @ '' '' @ path @ '': no such file or directory''"

subsection \<open>The lock and the pause marker\<close>

definition acquire_run_lock :: "int \<Rightarrow> string \<Rightarrow> store \<Rightarrow> string option \<times> store" where
  "acquire_run_lock me rid st =
     (let path = path_join (run_path st rid) ''run.lock'' in
      case map_of (st_dirs st) rid of
        None \<Rightarrow> (Some (''failure: open run lock '' @ path @ '': '' @ not_there ''open'' path), st)
      | Some d \<Rightarrow>
          (case rd_lock d of
             LockHeld pid \<Rightarrow> (Some (''failure: run '' @ rid @ '' is live: another faber process (pid '' @ itoa pid @
               '') holds '' @ path @ ''; a run accepts one process at a time '' @ mdash @
               '' wait for it or stop it first''), st)
           | LockFree \<Rightarrow> (None, upd_dir rid (\<lambda>d. d\<lparr>rd_lock := LockHeld me\<rparr>) st)))"

definition release_run_lock :: "string \<Rightarrow> store \<Rightarrow> store" where
  "release_run_lock rid = upd_dir rid (\<lambda>d. d\<lparr>rd_lock := LockFree\<rparr>)"

definition run_live :: "store \<Rightarrow> string \<Rightarrow> bool" where
  "run_live st rid =
     (case map_of (st_dirs st) rid of None \<Rightarrow> False | Some d \<Rightarrow> rd_lock d \<noteq> LockFree)"

definition clear_pause :: "string \<Rightarrow> store \<Rightarrow> store" where
  "clear_pause rid = upd_dir rid (\<lambda>d. d\<lparr>rd_pause := False\<rparr>)"

definition pause_requested :: "store \<Rightarrow> string \<Rightarrow> bool" where
  "pause_requested st rid = (case map_of (st_dirs st) rid of None \<Rightarrow> False | Some d \<Rightarrow> rd_pause d)"

definition request_pause :: "string \<Rightarrow> store \<Rightarrow> string option \<times> store" where
  "request_pause rid st =
     (if journal_of st rid = None
      then (Some (''failure: pause run '' @ rid @ '': '' @ not_there ''stat'' (journal_path st rid)), st)
      else if \<not> run_live st rid
      then (Some (''failure: pause run '' @ rid @
        '': the run is not live (no process holds its lock); only a running run can pause '' @ mdash @
        '' a stopped run is already stopped and resumes with `faber resume`''), st)
      else (None, upd_dir rid (\<lambda>d. d\<lparr>rd_pause := True\<rparr>) st))"

subsection \<open>Beginning and reopening\<close>

definition begin_run :: "codec \<Rightarrow> int \<Rightarrow> header \<Rightarrow> store \<Rightarrow> string option \<times> store" where
  "begin_run cd me hdr st =
     (let rid = hd_run_id hdr in
      if rid = [] then (Some ''failure: begin run: empty run id'', st)
      else let s1 = (if map_of (st_dirs st) rid = None then st\<lparr>st_dirs := put rid empty_dir (st_dirs st)\<rparr> else st) in
        (case acquire_run_lock me rid s1 of
           (Some m, s2) \<Rightarrow> (Some m, s2)
         | (None, s2) \<Rightarrow>
             (let s3 = clear_pause rid s2 in
              if journal_of s3 rid \<noteq> None
              then (Some (''failure: begin run '' @ rid @ '': open '' @ journal_path st rid @ '': file exists''),
                    release_run_lock rid s3)
              else (case append_header cd hdr [] of
                  Inl m \<Rightarrow> (Some m, release_run_lock rid (upd_dir rid (\<lambda>d. d\<lparr>rd_journal := Some []\<rparr>) s3))
                | Inr c \<Rightarrow> (None, upd_dir rid (\<lambda>d. d\<lparr>rd_journal := Some c\<rparr>) s3)))))"

text \<open>The journal of a locked run, its torn tail cut off.\<close>

definition reopen_locked :: "string \<Rightarrow> store \<Rightarrow> string option \<times> store" where
  "reopen_locked rid st =
     (case journal_of st rid of
        None \<Rightarrow> (Some (''failure: reopen run '' @ rid @ '': '' @ not_there ''stat'' (journal_path st rid)), st)
      | Some c \<Rightarrow> (None, upd_dir rid (\<lambda>d. d\<lparr>rd_journal := Some (repair_torn_tail c)\<rparr>) st))"

definition reopen_run :: "int \<Rightarrow> string \<Rightarrow> store \<Rightarrow> string option \<times> store" where
  "reopen_run me rid st =
     (case acquire_run_lock me rid st of
        (Some m, s1) \<Rightarrow> (Some m, s1)
      | (None, s1) \<Rightarrow>
          (case reopen_locked rid s1 of
             (Some m, s2) \<Rightarrow> (Some m, release_run_lock rid s2)
           | (None, s2) \<Rightarrow> (None, s2)))"

definition load_run :: "codec \<Rightarrow> string \<Rightarrow> store \<Rightarrow> string + replay" where
  "load_run cd rid st =
     (case journal_of st rid of
        None \<Rightarrow> Inl (''failure: open journal: '' @ not_there ''open'' (journal_path st rid))
      | Some c \<Rightarrow> load_journal cd (journal_path st rid) c)"

subsection \<open>Resume\<close>

record run_seed =
  se_header :: header
  se_prior :: "((string \<times> string) \<times> result_record) list"
  se_costs :: "cost_record list"

text \<open>The iterations the journal shows executed, and the caps they exceed (in any order).\<close>

definition executed_bounds :: "replay \<Rightarrow> int smap" where
  "executed_bounds rp =
     fold (\<lambda>p out.
         if snd (fst p) = [] \<or> r_status (rr_result (snd p)) \<notin> {StatusOK, StatusFailed, StatusHalted} then out
         else note_loop_bounds (fst (fst p)) out)
       (rp_results rp) []"

definition cap_error :: "string \<times> int \<Rightarrow> int \<Rightarrow> string" where
  "cap_error p cap =
     ''loop '' @ fst p @ '': cap '' @ itoa cap @ '' is below iteration '' @ itoa (snd p) @
     '', which the journal shows executed; a cap may be raised on resume, never lowered below done work''"

definition cap_floor :: "ir \<Rightarrow> replay \<Rightarrow> string list" where
  "cap_floor g rp =
     concat (map (\<lambda>p. case map_of (loop_bounds g) (fst p) of
           None \<Rightarrow> []
         | Some cap \<Rightarrow> if cap < snd p then [cap_error p cap] else [])
       (executed_bounds rp))"

definition maps_equal :: "string smap \<Rightarrow> string smap \<Rightarrow> bool" where
  "maps_equal a b \<longleftrightarrow> sorted_keys a = sorted_keys b \<and> list_all (\<lambda>k. map_of a k = map_of b k) (sorted_keys a)"

text \<open>What refuses a replayed journal against the current graph and parameters.\<close>

definition drift ::
  "ir \<Rightarrow> string \<Rightarrow> string \<Rightarrow> string \<Rightarrow> string smap \<Rightarrow> replay \<Rightarrow> string option" where
  "drift g hash cap_free_hash rid supplied rp =
     (let h = rp_header rp; pre = ''failure: resume '' @ rid @ '': '' in
      if hd_ir_version h \<noteq> 0 \<and> hd_ir_version h \<noteq> ir_version g
      then Some (pre @ ''faber's IR schema changed since this run was journaled (journal IR v'' @ itoa (hd_ir_version h) @
             '', current v'' @ itoa (ir_version g) @ ''); no auto-migration '' @ mdash @
             '' finish the run on the faber that wrote it, or start over with --fresh'')
      else if hash \<noteq> hd_ir_hash h \<and>
              \<not> (cap_free_hash \<noteq> [] \<and> hd_ir_hash_cap_free h \<noteq> [] \<and> cap_free_hash = hd_ir_hash_cap_free h)
      then Some (pre @ ''config drift: IR hash mismatch (journal '' @ hd_ir_hash h @ '', current '' @ hash @ '') '' @ mdash @
             '' journal keys cannot be trusted; use --fresh to start over'')
      else if hash \<noteq> hd_ir_hash h \<and> cap_floor g rp \<noteq> []
      then Some (pre @ join [newline] (cap_floor g rp))
      else if \<not> maps_equal supplied (hd_params h)
      then Some (pre @ ''config drift: supplied params differ from the journaled run's '' @ mdash @
             '' journal keys cannot be trusted; use --fresh to start over'')
      else None)"

definition resume_with ::
  "codec \<Rightarrow> (ir \<Rightarrow> string + string) \<Rightarrow> int \<Rightarrow> ir \<Rightarrow> string \<Rightarrow> string \<Rightarrow> string smap \<Rightarrow> store
    \<Rightarrow> (string + run_seed) \<times> store" where
  "resume_with cd hash_ir me g cap_free_hash rid supplied st =
     (case acquire_run_lock me rid st of
        (Some m, s1) \<Rightarrow> (Inl m, s1)
      | (None, s1) \<Rightarrow>
          (let s2 = clear_pause rid s1; fail = (\<lambda>m. (Inl m, release_run_lock rid s2)) in
           case load_run cd rid s2 of
             Inl m \<Rightarrow> fail m
           | Inr rp \<Rightarrow>
               (case hash_ir g of
                  Inl e \<Rightarrow> fail (''failure: resume '' @ rid @ '': '' @ e)
                | Inr hash \<Rightarrow>
                    (case drift g hash cap_free_hash rid supplied rp of
                       Some m \<Rightarrow> fail m
                     | None \<Rightarrow>
                         (case reopen_locked rid s2 of
                            (Some m, s3) \<Rightarrow> (Inl m, release_run_lock rid s3)
                          | (None, s3) \<Rightarrow>
                              (Inr \<lparr>se_header = rp_header rp, se_prior = rp_results rp, se_costs = rp_costs rp\<rparr>, s3))))))"

definition resume_run ::
  "codec \<Rightarrow> (ir \<Rightarrow> string + string) \<Rightarrow> int \<Rightarrow> ir \<Rightarrow> string \<Rightarrow> string smap \<Rightarrow> store
    \<Rightarrow> (string + run_seed) \<times> store" where
  "resume_run cd hash_ir me g rid supplied st = resume_with cd hash_ir me g [] rid supplied st"

definition fresh_run :: "codec \<Rightarrow> int \<Rightarrow> header \<Rightarrow> store \<Rightarrow> (string + run_seed) \<times> store" where
  "fresh_run cd me hdr st =
     (case begin_run cd me hdr st of
        (Some m, s1) \<Rightarrow> (Inl m, s1)
      | (None, s1) \<Rightarrow> (Inr \<lparr>se_header = hdr, se_prior = [], se_costs = []\<rparr>, s1))"

text \<open>\<open>Lookup\<close>: the prior ok record under the step's key, if there is one.\<close>

definition seed_lookup ::
  "(string \<Rightarrow> string) \<Rightarrow> (f64 \<Rightarrow> string) \<Rightarrow> run_seed \<Rightarrow> string \<Rightarrow> goval smap \<Rightarrow> string \<Rightarrow> string \<Rightarrow> string + result option" where
  "seed_lookup sha ff seed sid inputs template img =
     (case input_hash sha ff inputs template img of
        Inl e \<Rightarrow> Inl (''failure: lookup '' @ sid @ '': '' @ e)
      | Inr h \<Rightarrow> Inr (case map_of (se_prior seed) (sid, h) of
            None \<Rightarrow> None
          | Some r \<Rightarrow> if r_status (rr_result r) = StatusOK then Some (rr_result r) else None))"

subsection \<open>Interactive re-entry\<close>

record interactive_target =
  it_run_dir :: string
  it_header :: header
  it_step :: string
  it_record :: result_record
  it_shell :: bool

definition handoff_of :: "result_record \<Rightarrow> string" where
  "handoff_of r = (case r_error (rr_result r) of None \<Rightarrow> [] | Some e \<Rightarrow> er_handoff e)"

definition handoff_path :: "interactive_target \<Rightarrow> string option" where
  "handoff_path t =
     (let h = handoff_of (it_record t); joined = path_join (it_run_dir t) h in
      if h = [] then None
      else if \<not> has_prefix (path_clean (it_run_dir t) @ ''/'') joined then None
      else Some joined)"

text \<open>The target of a re-entry, or the reason there is none; what re-enters it is a parameter of the
  caller.\<close>

definition interactive :: "codec \<Rightarrow> string \<Rightarrow> string \<Rightarrow> bool \<Rightarrow> store \<Rightarrow> string + interactive_target" where
  "interactive cd rid sid shell st =
     (case load_run cd rid st of
        Inl m \<Rightarrow> Inl m
      | Inr rp \<Rightarrow>
          (case map_of (rp_last rp) sid of
             None \<Rightarrow> Inl (''failure: interactive: run '' @ rid @ '' has no journal record for step '' @ sid @
               '' (it never settled); resume will run it normally'')
           | Some r \<Rightarrow>
               if r_status (rr_result r) \<noteq> StatusFailed
               then Inl (''failure: interactive: step '' @ sid @ '' settled '' @ quote_str (r_status (rr_result r)) @
                 '' in run '' @ rid @ ''; interactive re-entry is only for failed steps'')
               else if rr_hash r = []
               then Inl (''failure: interactive: step '' @ sid @ '' settled without executing a box in run '' @ rid @
                 '' (a skip or launch-stage failure); there is no box state to re-enter'')
               else if handoff_of r = []
               then Inl (''failure: interactive: step '' @ sid @ '' preserved no handoff state in run '' @ rid @
                 ''; re-run the step instead'')
               else Inr \<lparr>it_run_dir = run_path st rid, it_header = rp_header rp, it_step = sid, it_record = r,
                 it_shell = shell\<rparr>))"

subsection \<open>The tolerant scans\<close>

record audit_probe =
  ap_kind :: string
  ap_format :: int
  ap_status :: string
  ap_name :: string
  ap_workflow :: string
  ap_started :: "time option"

record run_audit =
  ra_run :: string
  ra_live :: bool
  ra_complete :: bool
  ra_format :: int
  ra_name :: string
  ra_workflow :: string
  ra_started :: time
  ra_end_status :: string

text \<open>The decoder of a line's probe, and that of a raw value as a string.\<close>

type_synonym prober = "(string \<Rightarrow> audit_probe option) \<times> (string \<Rightarrow> string option)"

definition probe_string :: "prober \<Rightarrow> string \<Rightarrow> string" where
  "probe_string pr raw = (if raw = [] then [] else case snd pr raw of None \<Rightarrow> [] | Some s \<Rightarrow> s)"

definition note_header :: "prober \<Rightarrow> audit_probe \<Rightarrow> run_audit \<Rightarrow> run_audit" where
  "note_header pr p a =
     a\<lparr>ra_format := ap_format p, ra_name := probe_string pr (ap_name p),
       ra_workflow := probe_string pr (ap_workflow p),
       ra_started := (case ap_started p of None \<Rightarrow> ra_started a | Some t \<Rightarrow> t)\<rparr>"

fun audit_lines :: "prober \<Rightarrow> nat \<Rightarrow> string list \<Rightarrow> run_audit \<Rightarrow> string \<Rightarrow> string \<Rightarrow> run_audit \<times> string \<times> string" where
  "audit_lines pr i [] a k s = (a, k, s)"
| "audit_lines pr i (l # ls) a k s =
     (case fst pr l of
        None \<Rightarrow> audit_lines pr (Suc i) ls a [] []
      | Some p \<Rightarrow>
          audit_lines pr (Suc i) ls (if i = 0 \<and> ap_kind p = KindHeader then note_header pr p a else a)
            (ap_kind p) (probe_string pr (ap_status p)))"

definition audit_run :: "prober \<Rightarrow> store \<Rightarrow> string \<Rightarrow> string \<Rightarrow> string + run_audit" where
  "audit_run pr st rid content =
     (case scan_lines content of
        Inl e \<Rightarrow> Inl e
      | Inr ls \<Rightarrow>
          (let a = \<lparr>ra_run = rid, ra_live = run_live st rid, ra_complete = False, ra_format = 0, ra_name = [],
                    ra_workflow = [], ra_started = 0, ra_end_status = []\<rparr>;
               ls' = (if \<not> ends_with_newline content \<and> ls \<noteq> [] then butlast ls else ls)
           in case audit_lines pr 0 ls' a [] [] of (b, k, s) \<Rightarrow>
                Inr (if k = KindRunEnd then b\<lparr>ra_complete := True, ra_end_status := s\<rparr> else b)))"

fun audit_dirs :: "prober \<Rightarrow> store \<Rightarrow> string list \<Rightarrow> string + run_audit list" where
  "audit_dirs pr st [] = Inr []"
| "audit_dirs pr st (rid # rids) =
     (case journal_of st rid of
        None \<Rightarrow> audit_dirs pr st rids
      | Some c \<Rightarrow>
          (case audit_run pr st rid c of
             Inl e \<Rightarrow> Inl (''failure: audit run '' @ rid @ '': '' @ e)
           | Inr a \<Rightarrow> map_sum id ((#) a) (audit_dirs pr st rids)))"

definition audit_runs :: "prober \<Rightarrow> store \<Rightarrow> string + run_audit list" where
  "audit_runs pr st = audit_dirs pr st (sorted_keys (st_dirs st))"

subsection \<open>Run administration\<close>

definition load_header :: "codec \<Rightarrow> store \<Rightarrow> string \<Rightarrow> string + header" where
  "load_header cd st rid =
     (case journal_of st rid of
        None \<Rightarrow> Inl (''failure: run '' @ rid @ '': '' @ not_there ''open'' (journal_path st rid))
      | Some c \<Rightarrow>
          (case raw_lines c of
             [] \<Rightarrow> Inl (''failure: run '' @ rid @ '': journal is empty (no header)'')
           | l # ls \<Rightarrow>
               if max_journal_line \<le> int (length l)
               then Inl (''failure: run '' @ rid @ '': read journal: bufio.Scanner: token too long'')
               else (case cd_header cd (strip_cr l) of
                   Inl e \<Rightarrow> Inl (''failure: run '' @ rid @ '': journal header: '' @ e)
                 | Inr h \<Rightarrow>
                     (let k = (case cd_kind cd (strip_cr l) of Inl _ \<Rightarrow> [] | Inr k \<Rightarrow> k) in
                      if k \<noteq> KindHeader
                      then Inl (''failure: run '' @ rid @ '': first journal record is '' @ quote_str k @ '', want '' @
                             quote_str KindHeader)
                      else Inr h))))"

definition named :: "codec \<Rightarrow> store \<Rightarrow> string \<Rightarrow> string \<Rightarrow> bool" where
  "named cd st ref rid = (case load_header cd st rid of Inl _ \<Rightarrow> False | Inr h \<Rightarrow> hd_name h = ref)"

definition resolve_run_ref :: "codec \<Rightarrow> store \<Rightarrow> string \<Rightarrow> string + string" where
  "resolve_run_ref cd st ref =
     (if ref = [] then Inl ''failure: empty run reference''
      else if journal_of st ref \<noteq> None then Inr ref
      else (case filter (named cd st ref) (sorted_keys (st_dirs st)) of
          [] \<Rightarrow> Inl (''failure: no run with id or name '' @ quote_str ref)
        | [r] \<Rightarrow> Inr r
        | ms \<Rightarrow> Inl (''failure: run name '' @ quote_str ref @ '' is ambiguous: it names runs '' @ join '', '' ms @ '' '' @
            mdash @ '' use a run id'')))"

text \<open>\<open>PruneRuns\<close> over the directories in name order; the lock of a removed run goes with it.\<close>

fun prune_dirs ::
  "prober \<Rightarrow> int \<Rightarrow> bool \<Rightarrow> string list \<Rightarrow> string list \<Rightarrow> store \<Rightarrow> (string option \<times> string list) \<times> store" where
  "prune_dirs pr me everything [] removed st = ((None, removed), st)"
| "prune_dirs pr me everything (rid # rids) removed st =
     (case journal_of st rid of
        None \<Rightarrow> prune_dirs pr me everything rids removed st
      | Some c \<Rightarrow>
          (case audit_run pr st rid c of
             Inl e \<Rightarrow> ((Some (''failure: prune run '' @ rid @ '': '' @ e), removed), st)
           | Inr a \<Rightarrow>
               if ra_live a \<or> (\<not> ra_complete a \<and> \<not> everything) \<or> (ra_end_status a = RunEndPaused \<and> \<not> everything)
               then prune_dirs pr me everything rids removed st
               else (case acquire_run_lock me rid st of
                   (Some _, s1) \<Rightarrow> prune_dirs pr me everything rids removed s1
                 | (None, s1) \<Rightarrow>
                     prune_dirs pr me everything rids (removed @ [rid]) (s1\<lparr>st_dirs := del rid (st_dirs s1)\<rparr>))))"

definition prune_runs :: "prober \<Rightarrow> int \<Rightarrow> bool \<Rightarrow> store \<Rightarrow> (string option \<times> string list) \<times> store" where
  "prune_runs pr me everything st = prune_dirs pr me everything (sorted_keys (st_dirs st)) [] st"

end
