(* ===== verification/ReplayInv.thy ===== *)
theory ReplayInv
  imports Replay
begin

text \<open>What replay and repair do to a journal that was cut anywhere: the complete lines count, the
  fragment after the last newline does not.\<close>

subsection \<open>Lines and a tail\<close>

definition unlines :: "string list \<Rightarrow> string" where
  "unlines ls = concat (map (\<lambda>l. l @ [newline]) ls)"

lemma unlines_simps [simp]:
  "unlines [] = []" "unlines (l # ls) = l @ newline # unlines ls" "unlines (ks @ ls) = unlines ks @ unlines ls"
  by (simp_all add: unlines_def)

definition plain_lines :: "string list \<Rightarrow> bool" where
  "plain_lines ls \<longleftrightarrow> (\<forall>l \<in> set ls. newline \<notin> set l)"

lemma plain_lines_simps [simp]:
  "plain_lines []" "plain_lines (l # ls) \<longleftrightarrow> newline \<notin> set l \<and> plain_lines ls"
  by (simp_all add: plain_lines_def)

lemma split_on_end: "c \<notin> set s \<Longrightarrow> split_on c s = [s]"
  by (induction s) auto

lemma split_on_line: "c \<notin> set s \<Longrightarrow> split_on c (s @ c # t) = s # split_on c t"
  by (induction s) auto

lemma split_unlines: "plain_lines ls \<Longrightarrow> newline \<notin> set t \<Longrightarrow> split_on newline (unlines ls @ t) = ls @ [t]"
  by (induction ls) (simp_all add: split_on_end split_on_line)

lemma raw_unlines:
  "plain_lines ls \<Longrightarrow> newline \<notin> set t \<Longrightarrow> raw_lines (unlines ls @ t) = ls @ (if t = [] then [] else [t])"
  by (simp add: raw_lines_def split_unlines)

lemma lines_and_tail: "\<exists>ls t. s = unlines ls @ t \<and> plain_lines ls \<and> newline \<notin> set t"
proof (induction s)
  case Nil
  have "[] = unlines [] @ [] \<and> plain_lines [] \<and> newline \<notin> set ([] :: string)" by simp
  then show ?case by blast
next
  case (Cons c s)
  then obtain ls t where s: "s = unlines ls @ t" "plain_lines ls" "newline \<notin> set t" by blast
  show ?case
  proof (cases "c = newline")
    case True
    with s have "c # s = unlines ([] # ls) @ t \<and> plain_lines ([] # ls) \<and> newline \<notin> set t" by simp
    then show ?thesis by blast
  next
    case c: False
    show ?thesis
    proof (cases ls)
      case Nil
      with s c have "c # s = unlines [] @ (c # t) \<and> plain_lines [] \<and> newline \<notin> set (c # t)" by simp
      then show ?thesis by blast
    next
      case (Cons l ks)
      with s c have "c # s = unlines ((c # l) # ks) @ t \<and> plain_lines ((c # l) # ks) \<and> newline \<notin> set t" by simp
      then show ?thesis by blast
    qed
  qed
qed

lemma ends_unlines: "newline \<notin> set t \<Longrightarrow> ls \<noteq> [] \<Longrightarrow> ends_with_newline (unlines ls @ t) \<longleftrightarrow> t = []"
  by (induction ls rule: rev_induct) (auto simp: ends_with_newline_def dest: last_in_set)

subsection \<open>Repair\<close>

lemma last_index_append:
  "last_index c (xs @ ys) =
     (case last_index c ys of Some i \<Rightarrow> Some (length xs + i) | None \<Rightarrow> last_index c xs)"
  by (induction xs) (auto split: option.splits)

lemma last_index_None: "last_index c xs = None \<longleftrightarrow> c \<notin> set xs"
  by (induction xs) (auto split: option.splits)

text \<open>The chunked scan finds what one scan of the whole prefix finds.\<close>

lemma scan_back_eq:
  assumes "0 < ch" and "off \<le> length s"
  shows "scan_back ch s off = (case last_index newline (take off s) of Some i \<Rightarrow> Suc i | None \<Rightarrow> 0)"
  using assms
proof (induction ch s off rule: scan_back.induct)
  case (1 ch s off)
  show ?case
  proof (cases "off = 0")
    case True
    then show ?thesis by (simp add: scan_back.simps)
  next
    case False
    let ?n = "min ch off" and ?o = "off - min ch off"
    have t: "take off s = take ?o s @ take ?n (drop ?o s)"
      using take_add [of ?o ?n s] by simp
    have len: "length (take ?o s) = ?o" using 1(3) by simp
    note step = scan_back.simps [of ch s off]
    show ?thesis
    proof (cases "last_index newline (take ?n (drop ?o s))")
      case None
      have "scan_back ch s ?o = (case last_index newline (take ?o s) of Some i \<Rightarrow> Suc i | None \<Rightarrow> 0)"
        by (rule 1(1)) (use False 1(2,3) None in auto)
      with None False 1(2) show ?thesis by (simp add: step Let_def t last_index_append)
    next
      case (Some i)
      with False 1(2) len show ?thesis by (simp add: step Let_def t last_index_append)
    qed
  qed
qed

lemma repair_unlines:
  assumes "newline \<notin> set t"
  shows "repair_torn_tail (unlines ls @ t) = unlines ls"
proof (cases "t = []")
  case True
  then show ?thesis by (cases ls rule: rev_cases) (auto simp: repair_torn_tail_def)
next
  case t: False
  let ?s = "unlines ls @ t"
  have "last t \<noteq> newline" using t assms last_in_set [of t] by metis
  then have l: "last ?s \<noteq> newline" using t by simp
  have none: "last_index newline t = None" using assms by (simp add: last_index_None)
  have "scan_back 4096 ?s (length ?s) = (case last_index newline ?s of Some i \<Rightarrow> Suc i | None \<Rightarrow> 0)"
    by (subst scan_back_eq) simp_all
  also have "\<dots> = length (unlines ls)"
    using none by (cases ls rule: rev_cases) (auto simp: none last_index_append)
  finally show ?thesis using t l by (simp add: repair_torn_tail_def)
qed

subsection \<open>Replay of a cut file\<close>

lemma load_lines_torn:
  "load_lines cd p False i (ls @ [t]) st = load_lines cd p True i ls st"
  by (induction ls arbitrary: i st) (auto split: sum.split)

definition fits :: "string list \<Rightarrow> bool" where
  "fits ls \<longleftrightarrow> (\<forall>l \<in> set ls. int (length l) < max_journal_line)"

lemma scan_unlines:
  assumes "plain_lines ls" and "newline \<notin> set t"
  shows "scan_lines (unlines ls @ t) =
    (if fits ls \<and> (t = [] \<or> int (length t) < max_journal_line)
     then Inr (map strip_cr (ls @ (if t = [] then [] else [t]))) else Inl ''bufio.Scanner: token too long'')"
  using assms by (auto simp: scan_lines_def raw_unlines fits_def not_le [symmetric])

lemma load_unlines:
  assumes "plain_lines ls" and "newline \<notin> set t" and "int (length t) < max_journal_line" and "ls \<noteq> []"
  shows "load_journal cd p (unlines ls @ t) = load_journal cd p (unlines ls)"
proof (cases "t = [] \<or> \<not> fits ls")
  case True
  then show ?thesis
    using scan_unlines [OF assms(1,2)] scan_unlines [OF assms(1), of "[]"] by (auto simp: load_journal_def)
next
  case False
  then have "\<not> ends_with_newline (unlines ls @ t)" "ends_with_newline (unlines ls)"
    using ends_unlines [OF assms(2,4)] ends_unlines [of "[]" ls] assms(4) by auto
  then show ?thesis
    using False scan_unlines [OF assms(1,2)] scan_unlines [OF assms(1), of "[]"] assms(3,4)
    by (simp add: load_journal_def load_lines_torn)
qed

lemma load_of_fragment: "newline \<notin> set t \<Longrightarrow> \<exists>e. load_journal cd p t = Inl e"
  using scan_unlines [of "[]" t] load_lines_torn [of cd p 0 "[]" "strip_cr t"]
  by (auto simp: load_journal_def ends_with_newline_def dest: last_in_set split: if_splits)

lemma repaired_load:
  assumes "load_journal cd p s = Inr rp"
  shows "load_journal cd p (repair_torn_tail s) = Inr rp"
proof -
  obtain ls t where s: "s = unlines ls @ t" "plain_lines ls" "newline \<notin> set t" using lines_and_tail by blast
  have ne: "ls \<noteq> []" 
  proof
    assume "ls = []"
    with s(1) assms have "load_journal cd p t = Inr rp" by simp
    with load_of_fragment [OF s(3), of cd p] show False by auto
  qed
  have "scan_lines s \<noteq> Inl e" for e using assms by (auto simp: load_journal_def)
  then have "t = [] \<or> int (length t) < max_journal_line" using scan_unlines [OF s(2,3)] s(1) by (auto split: if_splits)
  then have "int (length t) < max_journal_line" by (auto simp: max_journal_line_def)
  from load_unlines [OF s(2,3) this ne] assms s repair_unlines [OF s(3)] show ?thesis by simp
qed

subsection \<open>A journal as it was written\<close>

definition kind_of :: "entry \<Rightarrow> string" where
  "kind_of e = (case e of JHeader _ \<Rightarrow> KindHeader | JResult _ \<Rightarrow> KindResult | JCost _ \<Rightarrow> KindCost
     | JCleanup _ \<Rightarrow> KindCleanup | JDefer _ \<Rightarrow> KindDefer | JStart _ \<Rightarrow> KindStart | JRunEnd _ \<Rightarrow> KindRunEnd)"

definition decodes :: "codec \<Rightarrow> string \<Rightarrow> entry \<Rightarrow> bool" where
  "decodes cd b e =
     (case e of JHeader h \<Rightarrow> cd_header cd b = Inr h | JResult r \<Rightarrow> cd_result cd b = Inr r
      | JCost c \<Rightarrow> cd_cost cd b = Inr c | JCleanup c \<Rightarrow> cd_cleanup cd b = Inr c
      | JDefer d \<Rightarrow> cd_defer cd b = Inr d | JStart s \<Rightarrow> cd_start cd b = Inr s | JRunEnd r \<Rightarrow> cd_run_end cd b = Inr r)"

text \<open>What the JSON codec does with a record it can represent: one line of text, read back as it was.\<close>

definition faithful :: "codec \<Rightarrow> entry \<Rightarrow> bool" where
  "faithful cd e \<longleftrightarrow> (\<forall>b. cd_enc cd e = Some b \<longrightarrow>
     newline \<notin> set b \<and> \<not> blank b \<and> last b \<noteq> CHR 0x0D \<and> cd_kind cd b = Inr (kind_of e) \<and> decodes cd b e)"

fun write_all :: "codec \<Rightarrow> entry list \<Rightarrow> string \<Rightarrow> string + string" where
  "write_all cd [] c = Inr c"
| "write_all cd (e # es) c = (case append_checked cd e c of Inl m \<Rightarrow> Inl m | Inr c' \<Rightarrow> write_all cd es c')"

definition is_header :: "entry \<Rightarrow> bool" where
  "is_header e = (case e of JHeader _ \<Rightarrow> True | _ \<Rightarrow> False)"

lemma append_lineD:
  assumes "append_line cd e c = Inr c'"
  obtains b where "cd_enc cd e = Some b" "c' = c @ unlines [b]" "int (length b) < max_journal_line"
  using assms by (auto simp: append_line_def Let_def split: option.splits if_splits)

lemma append_checkedD:
  assumes "append_checked cd e c = Inr c'"
  obtains b where "cd_enc cd e = Some b" "c' = c @ unlines [b]" "int (length b) < max_journal_line" "append_refuses e = None"
  using assms by (auto simp: append_checked_def elim: append_lineD split: option.splits)

definition line_of :: "codec \<Rightarrow> entry \<Rightarrow> string \<Rightarrow> bool" where
  "line_of cd e b \<longleftrightarrow> cd_enc cd e = Some b \<and> int (length b) < max_journal_line \<and> append_refuses e = None"

lemma write_all_lines:
  "write_all cd es c = Inr c' \<longleftrightarrow> (\<exists>bs. list_all2 (line_of cd) es bs \<and> c' = c @ unlines bs)"
proof (induction es arbitrary: c)
  case (Cons e es)
  show ?case
  proof
    assume "write_all cd (e # es) c = Inr c'"
    then obtain d where d: "append_checked cd e c = Inr d" "write_all cd es d = Inr c'" by (auto split: sum.splits)
    from d(1) obtain b where b: "line_of cd e b" "d = c @ unlines [b]" by (rule append_checkedD) (auto simp: line_of_def)
    from d(2) Cons.IH obtain bs where "list_all2 (line_of cd) es bs" "c' = d @ unlines bs" by blast
    with b have "list_all2 (line_of cd) (e # es) (b # bs) \<and> c' = c @ unlines (b # bs)" by simp
    then show "\<exists>bs. list_all2 (line_of cd) (e # es) bs \<and> c' = c @ unlines bs" by blast
  next
    assume "\<exists>bs. list_all2 (line_of cd) (e # es) bs \<and> c' = c @ unlines bs"
    then obtain b bs where b: "line_of cd e b" "list_all2 (line_of cd) es bs" "c' = (c @ unlines [b]) @ unlines bs"
      by (auto simp: list_all2_Cons1)
    then have "append_checked cd e c = Inr (c @ unlines [b])" by (simp add: line_of_def append_checked_def append_line_def)
    with b Cons.IH show "write_all cd (e # es) c = Inr c'" by auto
  qed
qed auto

lemma strip_cr_id: "last b \<noteq> CHR 0x0D \<Longrightarrow> strip_cr b = b"
  by (simp add: strip_cr_def)

lemma load_record_written:
  assumes "decodes cd b e" and "append_refuses e = None" and "\<not> is_header e"
  shows "load_record cd p i (kind_of e) b (rp, seen) = Inr (fold_record e rp, seen)"
  using assms by (cases e) (auto simp: load_record_def decodes_def kind_of_def is_header_def append_refuses_def split: if_splits)

lemma load_lines_written:
  assumes "list_all2 (line_of cd) es bs" and "\<forall>e \<in> set es. faithful cd e \<and> \<not> is_header e" and "0 < i"
  shows "load_lines cd p True i bs (rp, True) = Inr (fold fold_record es rp, True)"
  using assms
proof (induction es bs arbitrary: i rp rule: list_all2_induct)
  case (Cons e es b bs)
  then have f: "faithful cd e" "\<not> is_header e" "line_of cd e b" by auto
  then have b: "\<not> blank b" "cd_kind cd b = Inr (kind_of e)" "decodes cd b e" "append_refuses e = None"
    by (auto simp: faithful_def line_of_def)
  have "load_lines cd p True (Suc i) bs (fold_record e rp, True) = Inr (fold fold_record es (fold_record e rp), True)"
    using Cons.IH Cons.prems by simp
  with b load_record_written [OF b(3,4) f(2), of p i rp True] Cons.prems show ?case by simp
qed simp

lemma faithful_lines:
  assumes "list_all2 (line_of cd) es bs" and "\<forall>e \<in> set es. faithful cd e"
  shows "plain_lines bs \<and> fits bs \<and> map strip_cr bs = bs"
  using assms by (induction es bs rule: list_all2_induct) (auto simp: faithful_def line_of_def fits_def strip_cr_id)

lemma load_written:
  assumes "line_of cd (JHeader h) hb" and "hd_format h = journal_format" and "faithful cd (JHeader h)"
    and "list_all2 (line_of cd) es bs" and "\<forall>e \<in> set es. faithful cd e \<and> \<not> is_header e"
  shows "load_journal cd p (unlines (hb # bs)) = Inr (fold fold_record es (fold_record (JHeader h) blank_replay))"
proof -
  have all: "list_all2 (line_of cd) (JHeader h # es) (hb # bs)" using assms(1,4) by simp
  have pl: "plain_lines (hb # bs) \<and> fits (hb # bs) \<and> map strip_cr (hb # bs) = hb # bs"
    by (rule faithful_lines [OF all]) (use assms(3,5) in auto)
  have sc: "scan_lines (unlines (hb # bs)) = Inr (hb # bs)"
    using scan_unlines [of "hb # bs" "[]"] pl by simp
  have en: "ends_with_newline (unlines (hb # bs))" using ends_unlines [of "[]" "hb # bs"] by simp
  have b: "\<not> blank hb" "cd_kind cd hb = Inr KindHeader" "cd_header cd hb = Inr h"
    using assms(1,3) by (auto simp: faithful_def line_of_def kind_of_def decodes_def)
  have "load_lines cd p True 0 (hb # bs) (blank_replay, False) = load_lines cd p True 1 bs (fold_record (JHeader h) blank_replay, True)"
    using b assms(2) by (simp add: load_record_def)
  with load_lines_written [OF assms(4,5), of 1 p "fold_record (JHeader h) blank_replay"] sc en
  show ?thesis by (simp add: load_journal_def)
qed

text \<open>Cutting a file of lines leaves complete lines and a fragment.\<close>

lemma take_unlines:
  assumes "plain_lines bs"
  shows "\<exists>k t. k \<le> length bs \<and> take n (unlines bs) = unlines (take k bs) @ t \<and> newline \<notin> set t \<and>
    (k < length bs \<longrightarrow> length t \<le> length (bs ! k) \<and> n < length (unlines (take (Suc k) bs))) \<and> (k = length bs \<longrightarrow> t = [])"
  using assms
proof (induction bs arbitrary: n)
  case (Cons b bs)
  show ?case
  proof (cases "n \<le> length b")
    case True
    have "newline \<notin> set (take n b)" using Cons.prems by (auto dest: in_set_takeD)
    with True show ?thesis by (intro exI [of _ 0] exI [of _ "take n b"]) simp
  next
    case False
    have "plain_lines bs" using Cons.prems by simp
    from Cons.IH [OF this, of "n - Suc (length b)"] obtain k t where k: "k \<le> length bs"
        "take (n - Suc (length b)) (unlines bs) = unlines (take k bs) @ t" "newline \<notin> set t"
        "k < length bs \<longrightarrow> length t \<le> length (bs ! k) \<and> n - Suc (length b) < length (unlines (take (Suc k) bs))"
        "k = length bs \<longrightarrow> t = []" by blast
    have "take n (unlines (b # bs)) = b @ newline # take (n - Suc (length b)) (unlines bs)"
      using False by (simp add: take_Cons' split: nat.split)
    then have "take n (unlines (b # bs)) = unlines (take (Suc k) (b # bs)) @ t" using k(2) by simp
    moreover have "Suc k < length (b # bs) \<longrightarrow>
        length t \<le> length ((b # bs) ! Suc k) \<and> n < length (unlines (take (Suc (Suc k)) (b # bs)))"
      using k(4) False by auto
    ultimately show ?thesis using k by (intro exI [of _ "Suc k"] exI [of _ t]) simp
  qed
qed simp

text \<open>A journal cut behind its header replays to the entries whose lines are complete; the repair is the
  journal of exactly those.\<close>

lemma cut_journal:
  assumes "append_header cd h [] = Inr c0" and "write_all cd es c0 = Inr c" and "length c0 \<le> n"
    and "faithful cd (JHeader (h\<lparr>hd_format := journal_format\<rparr>))" and "\<forall>e \<in> set es. faithful cd e \<and> \<not> is_header e"
  shows "\<exists>m \<le> length es.
    load_journal cd p (take n c) =
      Inr (fold fold_record (take m es) (fold_record (JHeader (h\<lparr>hd_format := journal_format\<rparr>)) blank_replay)) \<and>
    write_all cd (take m es) c0 = Inr (repair_torn_tail (take n c)) \<and>
    (\<forall>x. m < length es \<and> write_all cd (take (Suc m) es) c0 = Inr x \<longrightarrow> n < length x)"
proof -
  let ?h = "h\<lparr>hd_format := journal_format\<rparr>"
  obtain hb where hb: "line_of cd (JHeader ?h) hb" "c0 = unlines [hb]"
    using assms(1) unfolding append_header_def by (auto simp: line_of_def append_refuses_def elim!: append_lineD)
  obtain bs where bs: "list_all2 (line_of cd) es bs" "c = unlines (hb # bs)"
    using assms(2) hb(2) unfolding write_all_lines by auto
  have len: "length es = length bs" using bs(1) by (rule list_all2_lengthD)
  have pl: "plain_lines bs \<and> fits bs" using faithful_lines [OF bs(1)] assms(5) by blast
  have hpl: "newline \<notin> set hb" using assms(4) hb(1) by (auto simp: faithful_def line_of_def)
  obtain k t where k: "k \<le> length bs" "take (n - length c0) (unlines bs) = unlines (take k bs) @ t" "newline \<notin> set t"
      "k < length bs \<longrightarrow> length t \<le> length (bs ! k) \<and> n - length c0 < length (unlines (take (Suc k) bs))"
      "k = length bs \<longrightarrow> t = []"
    using take_unlines [OF conjunct1 [OF pl], of "n - length c0"] by blast
  have cut: "take n c = unlines (hb # take k bs) @ t"
    using bs(2) hb(2) k(2) assms(3) by (simp add: take_Cons' split: nat.split)
  have lt: "int (length t) < max_journal_line"
  proof (cases "k = length bs")
    case False
    then have "length t \<le> length (bs ! k)" "bs ! k \<in> set bs" using k(1,4) by auto
    then show ?thesis using pl by (auto simp: fits_def)
  qed (use k(5) in \<open>simp add: max_journal_line_def\<close>)
  have plk: "plain_lines (hb # take k bs)" using pl hpl by (auto simp: plain_lines_def dest: in_set_takeD)
  have lk: "list_all2 (line_of cd) (take k es) (take k bs)" using bs(1) by (rule list_all2_takeI)
  have ek: "\<forall>e \<in> set (take k es). faithful cd e \<and> \<not> is_header e" using assms(5) by (auto dest: in_set_takeD)
  have "load_journal cd p (take n c) = load_journal cd p (unlines (hb # take k bs))"
    unfolding cut by (rule load_unlines [OF plk k(3) lt]) simp
  also have "\<dots> = Inr (fold fold_record (take k es) (fold_record (JHeader ?h) blank_replay))"
    by (rule load_written [OF hb(1) _ assms(4) lk ek]) simp
  finally have load: "load_journal cd p (take n c) = \<dots>" .
  have rep: "write_all cd (take k es) c0 = Inr (repair_torn_tail (take n c))"
    unfolding cut repair_unlines [OF k(3)] write_all_lines using lk hb(2) by auto
  have "n < length x" if "k < length es" "write_all cd (take (Suc k) es) c0 = Inr x" for x
  proof -
    note w = that
    obtain bs' where b': "list_all2 (line_of cd) (take (Suc k) es) bs'" "x = c0 @ unlines bs'"
      using w(2) unfolding write_all_lines by blast
    have "list_all2 (line_of cd) (take (Suc k) es) (take (Suc k) bs)" using bs(1) by (rule list_all2_takeI)
    with b'(1) have "bs' = take (Suc k) bs"
      by (intro nth_equalityI) (auto simp: list_all2_conv_all_nth line_of_def)
    with b'(2) k(4) w(1) len show ?thesis by auto
  qed
  with load rep k(1) len show ?thesis by (intro exI [of _ k]) auto
qed

end
