(* ===== verification/RecoveryInv.thy ===== *)
theory RecoveryInv
  imports Recovery ReplayInv
begin

text \<open>
  The store as a state machine: processes begin, resume, append, close, pause and prune runs in any
  order, and the holder of a run may die at any byte of a write. What a journal holds in every store
  reached this way, and what no step takes from it.
\<close>

subsection \<open>Directories\<close>

lemma map_of_upd_dir [simp]:
  "map_of (st_dirs (upd_dir rid f st)) i =
     (if i = rid then map_option f (map_of (st_dirs st) i) else map_of (st_dirs st) i)"
  by (auto simp: upd_dir_def split: option.splits)

lemma journal_of_upd:
  "journal_of (upd_dir rid f st) i =
     (if i = rid then (case map_of (st_dirs st) i of None \<Rightarrow> None | Some d \<Rightarrow> rd_journal (f d)) else journal_of st i)"
  by (auto simp: journal_of_def split: option.splits)

definition held :: "store \<Rightarrow> string \<Rightarrow> int option" where
  "held st rid = (case map_of (st_dirs st) rid of None \<Rightarrow> None | Some d \<Rightarrow>
     (case rd_lock d of LockFree \<Rightarrow> None | LockHeld p \<Rightarrow> Some p))"

lemma run_live_held: "run_live st rid \<longleftrightarrow> held st rid \<noteq> None"
  by (auto simp: run_live_def held_def split: option.splits lock_state.splits)

lemma held_upd:
  "held (upd_dir rid f st) i =
     (if i = rid then (case map_of (st_dirs st) i of None \<Rightarrow> None | Some d \<Rightarrow>
        (case rd_lock (f d) of LockFree \<Rightarrow> None | LockHeld p \<Rightarrow> Some p)) else held st i)"
  by (auto simp: held_def split: option.splits)

lemma release_simps [simp]:
  "journal_of (release_run_lock rid st) i = journal_of st i"
  "held (release_run_lock rid st) i = (if i = rid then None else held st i)"
  by (auto simp: release_run_lock_def journal_of_upd held_upd journal_of_def split: option.splits)

lemma clear_pause_simps [simp]:
  "journal_of (clear_pause rid st) i = journal_of st i"
  "held (clear_pause rid st) i = held st i"
  "(rid \<in> keys (st_dirs (clear_pause j st))) = (rid \<in> keys (st_dirs st))"
  by (auto simp: clear_pause_def journal_of_upd held_upd journal_of_def held_def domIff split: option.splits)

lemma acquired:
  assumes "acquire_run_lock me rid st = (r, s1)"
  shows "journal_of s1 i = journal_of st i"
    and "r \<noteq> None \<Longrightarrow> s1 = st"
    and "r = None \<Longrightarrow> held st rid = None \<and> held s1 rid = Some me \<and> (i \<noteq> rid \<longrightarrow> held s1 i = held st i) \<and>
      rid \<in> keys (st_dirs s1)"
proof -
  have c: "(r \<noteq> None \<and> s1 = st) \<or>
      (\<exists>d. r = None \<and> map_of (st_dirs st) rid = Some d \<and> rd_lock d = LockFree \<and>
        s1 = upd_dir rid (\<lambda>d. d\<lparr>rd_lock := LockHeld me\<rparr>) st)"
    using assms by (auto simp: acquire_run_lock_def Let_def split: option.splits lock_state.splits)
  then show "journal_of s1 i = journal_of st i" by (auto simp: journal_of_upd journal_of_def)
  show "s1 = st" if "r \<noteq> None" using c that by blast
  show "held st rid = None \<and> held s1 rid = Some me \<and> (i \<noteq> rid \<longrightarrow> held s1 i = held st i) \<and> rid \<in> keys (st_dirs s1)"
    if "r = None"
    using c that by (auto simp: held_upd) (simp_all add: held_def)
qed

text \<open>The two effects an operation has on a run: who holds it and what its journal is.\<close>

lemma set_journal_simps:
  "journal_of (upd_dir rid (\<lambda>d. d\<lparr>rd_journal := Some c\<rparr>) st) i =
     (if i = rid \<and> rid \<in> keys (st_dirs st) then Some c else journal_of st i)"
  "held (upd_dir rid (\<lambda>d. d\<lparr>rd_journal := Some c\<rparr>) st) i = held st i"
  by (auto simp: journal_of_upd held_upd journal_of_def held_def domIff split: option.splits)

lemma reopened:
  assumes "reopen_locked rid st = (r, s1)"
  shows "held s1 i = held st i"
    and "r \<noteq> None \<Longrightarrow> s1 = st"
    and "r = None \<Longrightarrow> journal_of s1 i = (if i = rid then map_option repair_torn_tail (journal_of st i) else journal_of st i) \<and>
      journal_of st rid \<noteq> None"
  using assms
  by (auto simp: reopen_locked_def set_journal_simps domIff journal_of_def split: option.splits)

lemma begun:
  assumes "begin_run cd me hdr st = (r, s1)"
  shows "r = None \<Longrightarrow> journal_of st (hd_run_id hdr) = None \<and> held st (hd_run_id hdr) = None \<and>
      (\<exists>c. append_header cd hdr [] = Inr c \<and> journal_of s1 (hd_run_id hdr) = Some c)"
    and "r \<noteq> None \<Longrightarrow> held s1 (hd_run_id hdr) = held st (hd_run_id hdr) \<and>
      (journal_of s1 (hd_run_id hdr) = journal_of st (hd_run_id hdr) \<or>
       journal_of st (hd_run_id hdr) = None \<and> journal_of s1 (hd_run_id hdr) = Some [])"
    and "i \<noteq> hd_run_id hdr \<Longrightarrow> journal_of s1 i = journal_of st i \<and> held s1 i = held st i"
proof -
  let ?rid = "hd_run_id hdr"
  let ?s1 = "if map_of (st_dirs st) ?rid = None then st\<lparr>st_dirs := put ?rid empty_dir (st_dirs st)\<rparr> else st"
  have j: "journal_of ?s1 i = journal_of st i" and h: "held ?s1 i = held st i" for i
    by (auto simp: journal_of_def held_def empty_dir_def)
  obtain a s2 where a: "acquire_run_lock me ?rid ?s1 = (a, s2)" by fastforce
  note acq = acquired [OF a]
  have "(r = None \<longrightarrow> journal_of st ?rid = None \<and> held st ?rid = None \<and>
      (\<exists>c. append_header cd hdr [] = Inr c \<and> journal_of s1 ?rid = Some c)) \<and>
    (r \<noteq> None \<longrightarrow> held s1 ?rid = held st ?rid \<and>
      (journal_of s1 ?rid = journal_of st ?rid \<or> journal_of st ?rid = None \<and> journal_of s1 ?rid = Some [])) \<and>
    (i \<noteq> ?rid \<longrightarrow> journal_of s1 i = journal_of st i \<and> held s1 i = held st i)"
  proof (cases "?rid = []")
    case True
    with assms show ?thesis by (auto simp: begin_run_def)
  next
    case ne: False
    show ?thesis
    proof (cases a)
      case (Some m)
      with acq(2) have "s2 = ?s1" by simp
      then show ?thesis using assms a ne Some j h by (auto simp: begin_run_def Let_def)
    next
      case None
      have key: "?rid \<in> keys (st_dirs (clear_pause ?rid s2))" using acq(3) [OF None] by simp
      have hd2: "held st ?rid = None" using acq(3) [OF None] h by simp
      show ?thesis
      proof (cases "journal_of (clear_pause ?rid s2) ?rid")
        case (Some c)
        then have s: "s1 = release_run_lock ?rid (clear_pause ?rid s2)" "r \<noteq> None"
          using assms a ne None by (auto simp: begin_run_def Let_def)
        then show ?thesis using acq(1) acq(3) [OF None, of i] j h hd2 by auto
      next
        case jn: None
        then have jst: "journal_of st ?rid = None" using acq(1) j by simp
        show ?thesis
        proof (cases "append_header cd hdr []")
          case (Inl m)
          then have s: "s1 = release_run_lock ?rid (upd_dir ?rid (\<lambda>d. d\<lparr>rd_journal := Some []\<rparr>) (clear_pause ?rid s2))" "r \<noteq> None"
            using assms a ne None jn by (auto simp: begin_run_def Let_def)
          then show ?thesis using acq(1) acq(3) [OF None, of i] j h hd2 jst key by (auto simp: set_journal_simps)
        next
          case (Inr c)
          then have s: "s1 = upd_dir ?rid (\<lambda>d. d\<lparr>rd_journal := Some c\<rparr>) (clear_pause ?rid s2)" "r = None"
            using assms a ne None jn by (auto simp: begin_run_def Let_def)
          then show ?thesis using acq(1) acq(3) [OF None, of i] j h hd2 jst key Inr by (auto simp: set_journal_simps)
        qed
      qed
    qed
  qed
  then show "r = None \<Longrightarrow> journal_of st ?rid = None \<and> held st ?rid = None \<and>
      (\<exists>c. append_header cd hdr [] = Inr c \<and> journal_of s1 ?rid = Some c)"
    and "r \<noteq> None \<Longrightarrow> held s1 ?rid = held st ?rid \<and>
      (journal_of s1 ?rid = journal_of st ?rid \<or> journal_of st ?rid = None \<and> journal_of s1 ?rid = Some [])"
    and "i \<noteq> ?rid \<Longrightarrow> journal_of s1 i = journal_of st i \<and> held s1 i = held st i" by blast+
qed

lemma resumed:
  assumes "resume_with cd hir me g cf rid given st = (r, s1)"
  shows "i \<noteq> rid \<Longrightarrow> journal_of s1 i = journal_of st i \<and> held s1 i = held st i"
    and "r = Inl m \<Longrightarrow> journal_of s1 rid = journal_of st rid \<and> held s1 rid = held st rid"
    and "r = Inr seed \<Longrightarrow> held st rid = None \<and> held s1 rid = Some me \<and>
      (\<exists>c rp hash. journal_of st rid = Some c \<and> load_journal cd (journal_path st rid) c = Inr rp \<and> hir g = Inr hash \<and>
        drift g hash cf rid given rp = None \<and> journal_of s1 rid = Some (repair_torn_tail c) \<and>
        seed = \<lparr>se_header = rp_header rp, se_prior = rp_results rp, se_costs = rp_costs rp\<rparr>)"
proof -
  obtain a s2 where a: "acquire_run_lock me rid st = (a, s2)" by fastforce
  note acq = acquired [OF a]
  have jp: "journal_path (clear_pause rid s2) rid = journal_path st rid"
  proof -
    have "st_root s2 = st_root st"
      using a by (auto simp: acquire_run_lock_def Let_def upd_dir_def split: option.splits lock_state.splits)
    moreover have "st_root (clear_pause rid s2) = st_root s2" by (auto simp: clear_pause_def upd_dir_def split: option.splits)
    ultimately show ?thesis by (simp add: journal_path_def run_path_def)
  qed
  let ?s = "clear_pause rid s2"
  have "(i \<noteq> rid \<longrightarrow> journal_of s1 i = journal_of st i \<and> held s1 i = held st i) \<and>
    (\<forall>m. r = Inl m \<longrightarrow> journal_of s1 rid = journal_of st rid \<and> held s1 rid = held st rid) \<and>
    (\<forall>seed. r = Inr seed \<longrightarrow> held st rid = None \<and> held s1 rid = Some me \<and>
      (\<exists>c rp hash. journal_of st rid = Some c \<and> load_journal cd (journal_path st rid) c = Inr rp \<and> hir g = Inr hash \<and>
        drift g hash cf rid given rp = None \<and> journal_of s1 rid = Some (repair_torn_tail c) \<and>
        seed = \<lparr>se_header = rp_header rp, se_prior = rp_results rp, se_costs = rp_costs rp\<rparr>))"
  proof (cases a)
    case (Some m)
    with acq(2) have "s2 = st" by simp
    with assms a Some show ?thesis by (auto simp: resume_with_def)
  next
    case None
    note l = acq(3) [OF None]
    have failed: ?thesis if "s1 = release_run_lock rid ?s" "r = Inl m" for m
      using that acq(1) l [of i] l [of rid] by auto
    show ?thesis
    proof (cases "load_run cd rid ?s")
      case (Inl m)
      with assms a None show ?thesis by (intro failed [of m]) (auto simp: resume_with_def Let_def)
    next
      case (Inr rp)
      note ld = Inr
      obtain c where c: "journal_of st rid = Some c" "load_journal cd (journal_path st rid) c = Inr rp"
        using Inr acq(1) jp by (auto simp: load_run_def split: option.splits)
      show ?thesis
      proof (cases "hir g")
        case (Inl e)
        with assms a None ld show ?thesis
          by (intro failed [of "''failure: resume '' @ rid @ '': '' @ e"]) (auto simp: resume_with_def Let_def)
      next
        case (Inr hash)
        note hh = Inr
        show ?thesis
        proof (cases "drift g hash cf rid given rp")
          case (Some m)
          with assms a None ld hh show ?thesis by (intro failed [of m]) (auto simp: resume_with_def Let_def)
        next
          case dr: None
          obtain b s3 where b: "reopen_locked rid ?s = (b, s3)" by fastforce
          note re = reopened [OF b]
          have "b = None" using b c(1) acq(1) [of rid] by (auto simp: reopen_locked_def split: option.splits)
          then have "r = Inr \<lparr>se_header = rp_header rp, se_prior = rp_results rp, se_costs = rp_costs rp\<rparr>" "s1 = s3"
            using assms a None ld hh dr b by (auto simp: resume_with_def Let_def)
          then show ?thesis using re(1) re(3) [OF \<open>b = None\<close>] l [of i] l [of rid] acq(1) c hh dr by auto
        qed
      qed
    qed
  qed
  then show "i \<noteq> rid \<Longrightarrow> journal_of s1 i = journal_of st i \<and> held s1 i = held st i"
    and "r = Inl m \<Longrightarrow> journal_of s1 rid = journal_of st rid \<and> held s1 rid = held st rid"
    and "r = Inr seed \<Longrightarrow> held st rid = None \<and> held s1 rid = Some me \<and>
      (\<exists>c rp hash. journal_of st rid = Some c \<and> load_journal cd (journal_path st rid) c = Inr rp \<and> hir g = Inr hash \<and>
        drift g hash cf rid given rp = None \<and> journal_of s1 rid = Some (repair_torn_tail c) \<and>
        seed = \<lparr>se_header = rp_header rp, se_prior = rp_results rp, se_costs = rp_costs rp\<rparr>)" by blast+
qed

subsection \<open>Pruning\<close>

definition prunable :: "prober \<Rightarrow> bool \<Rightarrow> store \<Rightarrow> string \<Rightarrow> bool" where
  "prunable pr everything st rid \<longleftrightarrow> held st rid = None \<and>
     (\<exists>c a. journal_of st rid = Some c \<and> audit_run pr st rid c = Inr a \<and>
       (everything \<or> ra_complete a \<and> ra_end_status a \<noteq> RunEndPaused))"

lemma audit_lines_frame:
  "audit_lines pr i ls a k s = (b, k', s') \<Longrightarrow> ra_live b = ra_live a \<and> ra_complete b = ra_complete a \<and> ra_end_status b = ra_end_status a"
  by (induction ls arbitrary: i a k s) (fastforce simp: note_header_def split: option.splits if_splits)+

lemma audit_live: "audit_run pr st rid c = Inr a \<Longrightarrow> ra_live a = run_live st rid"
  by (auto simp: audit_run_def Let_def split: sum.splits prod.splits if_splits dest: audit_lines_frame)

lemma audit_cong:
  assumes "run_live st rid = run_live st' rid"
  shows "audit_run pr st rid c = audit_run pr st' rid c"
  unfolding audit_run_def assms ..

lemma pruned:
  assumes "prune_dirs pr me everything rids removed st = ((r, out), s1)" and "distinct rids"
  shows "\<exists>gone. out = removed @ gone \<and> set gone \<subseteq> set rids \<and> (\<forall>rid \<in> set gone. prunable pr everything st rid \<and> map_of (st_dirs s1) rid = None) \<and>
    (\<forall>i. i \<notin> set gone \<longrightarrow> map_of (st_dirs s1) i = map_of (st_dirs st) i)"
  using assms
proof (induction rids arbitrary: removed st)
  case (Cons rid rids)
  have skip: ?case if "prune_dirs pr me everything rids removed st = ((r, out), s1)"
    using Cons.IH [OF that] Cons.prems(2) by auto
  show ?case
  proof (cases "journal_of st rid")
    case None
    with Cons.prems(1) show ?thesis by (intro skip) simp
  next
    case (Some c)
    show ?thesis
    proof (cases "audit_run pr st rid c")
      case (Inl e)
      with Some Cons.prems(1) show ?thesis by (intro exI [of _ "[]"]) auto
    next
      case (Inr a)
      let ?keep = "ra_live a \<or> (\<not> ra_complete a \<and> \<not> everything) \<or> (ra_end_status a = RunEndPaused \<and> \<not> everything)"
      show ?thesis
      proof (cases ?keep)
        case True
        with Some Inr Cons.prems(1) show ?thesis by (intro skip) simp
      next
        case False
        then have free: "held st rid = None" using audit_live [OF Inr] by (simp add: run_live_held)
        obtain q s2 where q: "acquire_run_lock me rid st = (q, s2)" by fastforce
        show ?thesis
        proof (cases q)
          case (Some m)
          with acquired(2) [OF q] have "s2 = st" by simp
          with \<open>journal_of st rid = Some c\<close> Inr False q Some Cons.prems(1) show ?thesis by (intro skip) (auto split: if_splits)
        next
          case None
          let ?s = "s2\<lparr>st_dirs := del rid (st_dirs s2)\<rparr>"
          have "prune_dirs pr me everything rids (removed @ [rid]) ?s = ((r, out), s1)"
            using \<open>journal_of st rid = Some c\<close> Inr False q None Cons.prems(1) by (auto split: if_splits)
          from Cons.IH [OF this] Cons.prems(2) obtain gone where g: "out = (removed @ [rid]) @ gone" "set gone \<subseteq> set rids"
              "\<forall>i \<in> set gone. prunable pr everything ?s i \<and> map_of (st_dirs s1) i = None"
              "\<forall>i. i \<notin> set gone \<longrightarrow> map_of (st_dirs s1) i = map_of (st_dirs ?s) i" by auto
          have nr: "rid \<notin> set gone" using g(2) Cons.prems(2) by auto
          have other: "map_of (st_dirs ?s) i = map_of (st_dirs st) i" if "i \<noteq> rid" for i
            using q None that by (auto simp: acquire_run_lock_def Let_def split: option.splits lock_state.splits)
          have "prunable pr everything st i" if i: "i \<in> set gone" for i
          proof -
            have "i \<noteq> rid" using i nr by blast
            note o = other [OF this]
            have "held ?s i = held st i" "journal_of ?s i = journal_of st i" using o by (simp_all add: held_def journal_of_def)
            moreover from this have "audit_run pr ?s i c = audit_run pr st i c" for c
              by (intro audit_cong) (simp add: run_live_held)
            moreover have "prunable pr everything ?s i" using g(3) i by blast
            ultimately show ?thesis by (simp add: prunable_def)
          qed
          moreover have "prunable pr everything st rid" using free \<open>journal_of st rid = Some c\<close> Inr False by (auto simp: prunable_def)
          moreover have "map_of (st_dirs s1) rid = None" using g(4) nr by simp
          moreover have "map_of (st_dirs s1) i = map_of (st_dirs st) i" if "i \<notin> set (rid # gone)" for i
            using g(4) other that by simp
          ultimately show ?thesis using g by (intro exI [of _ "rid # gone"]) auto
        qed
      qed
    qed
  qed
qed simp

subsection \<open>The store as a state machine\<close>

definition with_dir :: "string \<Rightarrow> store \<Rightarrow> store" where
  "with_dir rid st = (if map_of (st_dirs st) rid = None then st\<lparr>st_dirs := put rid empty_dir (st_dirs st)\<rparr> else st)"

text \<open>The steps of processes on the store: whole operations, an append by the holder, and the death of a
  process while it writes a header or an entry, which leaves any front part of the line and frees the
  lock.\<close>

inductive store_step :: "codec \<Rightarrow> (ir \<Rightarrow> string + string) \<Rightarrow> prober \<Rightarrow> store \<Rightarrow> store \<Rightarrow> bool"
  for cd hir pr where
  step_begin: "begin_run cd me hdr st = (r, st') \<Longrightarrow> store_step cd hir pr st st'"
| step_begin_dies: "journal_of st rid = None \<Longrightarrow> held st rid = None \<Longrightarrow> append_header cd hdr [] = Inr c \<Longrightarrow>
    k < length c \<Longrightarrow> store_step cd hir pr st (upd_dir rid (\<lambda>d. d\<lparr>rd_journal := Some (take k c)\<rparr>) (with_dir rid st))"
| step_resume: "resume_with cd hir me g cf rid given st = (r, st') \<Longrightarrow> store_step cd hir pr st st'"
| step_append: "held st rid = Some me \<Longrightarrow> journal_of st rid = Some c \<Longrightarrow> \<not> is_header e \<Longrightarrow>
    append_checked cd e c = Inr c' \<Longrightarrow> store_step cd hir pr st (upd_dir rid (\<lambda>d. d\<lparr>rd_journal := Some c'\<rparr>) st)"
| step_dies: "held st rid = Some me \<Longrightarrow> journal_of st rid = Some c \<Longrightarrow> \<not> is_header e \<Longrightarrow>
    append_checked cd e c = Inr c' \<Longrightarrow> length c \<le> k \<Longrightarrow>
    store_step cd hir pr st (upd_dir rid (\<lambda>d. d\<lparr>rd_journal := Some (take k c'), rd_lock := LockFree\<rparr>) st)"
| step_close: "held st rid = Some me \<Longrightarrow> store_step cd hir pr st (release_run_lock rid st)"
| step_pause: "request_pause rid st = (r, st') \<Longrightarrow> store_step cd hir pr st st'"
| step_prune: "prune_runs pr me everything st = (r, st') \<Longrightarrow> store_step cd hir pr st st'"

inductive store_reachable :: "codec \<Rightarrow> (ir \<Rightarrow> string + string) \<Rightarrow> prober \<Rightarrow> store \<Rightarrow> bool"
  for cd hir pr where
  reach_empty: "st_dirs st = [] \<Longrightarrow> store_reachable cd hir pr st"
| reach_step: "store_reachable cd hir pr st \<Longrightarrow> store_step cd hir pr st st' \<Longrightarrow> store_reachable cd hir pr st'"

subsection \<open>What a journal holds\<close>

text \<open>The complete lines of a journal: its header, then entries, each as it was written.\<close>

definition records :: "codec \<Rightarrow> header \<Rightarrow> entry list \<Rightarrow> string list \<Rightarrow> bool" where
  "records cd h es ls \<longleftrightarrow> hd_format h = journal_format \<and> (\<forall>e \<in> set es. \<not> is_header e) \<and>
     list_all2 (line_of cd) (JHeader h # es) ls"

definition journal_ok :: "codec \<Rightarrow> bool \<Rightarrow> string \<Rightarrow> bool" where
  "journal_ok cd locked c \<longleftrightarrow>
     (newline \<notin> set c \<and> \<not> locked) \<or>
     (\<exists>h es ls t. records cd h es ls \<and> c = unlines ls @ t \<and> newline \<notin> set t \<and> int (length t) < max_journal_line \<and>
        (locked \<longrightarrow> t = []))"

definition store_ok :: "codec \<Rightarrow> store \<Rightarrow> bool" where
  "store_ok cd st \<longleftrightarrow> (\<forall>rid. held st rid \<noteq> None \<longrightarrow> journal_of st rid \<noteq> None) \<and>
     (\<forall>rid c. journal_of st rid = Some c \<longrightarrow> journal_ok cd (held st rid \<noteq> None) c)"

definition codec_ok :: "codec \<Rightarrow> bool" where
  "codec_ok cd \<longleftrightarrow> (\<forall>e. faithful cd e)"

lemma header_written:
  assumes "append_header cd hdr [] = Inr c"
  obtains h hb where "records cd h [] [hb]" "c = unlines [hb]" "int (length hb) < max_journal_line"
proof -
  let ?h = "hdr\<lparr>hd_format := journal_format\<rparr>"
  obtain b where b: "cd_enc cd (JHeader ?h) = Some b" "c = [] @ unlines [b]" "int (length b) < max_journal_line"
    using assms unfolding append_header_def by (rule append_lineD)
  then have "records cd ?h [] [b]" by (simp add: records_def line_of_def append_refuses_def)
  with b that show thesis by simp
qed

lemma records_plain: "codec_ok cd \<Longrightarrow> records cd h es ls \<Longrightarrow> plain_lines ls"
  using faithful_lines unfolding records_def codec_ok_def by blast

lemma records_snoc: "records cd h es ls \<Longrightarrow> line_of cd e b \<Longrightarrow> \<not> is_header e \<Longrightarrow> records cd h (es @ [e]) (ls @ [b])"
  using list_all2_appendI [of "line_of cd" "JHeader h # es" ls "[e]" "[b]"] by (auto simp: records_def)

lemma records_load:
  assumes "codec_ok cd" and "records cd h es ls" and "newline \<notin> set t" and "int (length t) < max_journal_line"
  shows "load_journal cd p (unlines ls @ t) = Inr (fold fold_record es (fold_record (JHeader h) blank_replay))"
proof -
  obtain hb bs where ls: "ls = hb # bs" "line_of cd (JHeader h) hb" "list_all2 (line_of cd) es bs"
    using assms(2) by (auto simp: records_def list_all2_Cons1)
  have "load_journal cd p (unlines ls @ t) = load_journal cd p (unlines ls)"
    by (rule load_unlines [OF records_plain [OF assms(1,2)] assms(3,4)]) (simp add: ls)
  with load_written [OF ls(2) _ _ ls(3)] assms(1,2) ls(1) show ?thesis by (simp add: records_def codec_ok_def)
qed

text \<open>A line being appended, cut off anywhere.\<close>

lemma cut_append:
  assumes "codec_ok cd" and "records cd h es ls" and "append_checked cd e (unlines ls) = Inr c'" and "\<not> is_header e"
    and "length (unlines ls) \<le> k"
  shows "\<exists>es' ls' t. records cd h es' ls' \<and> take k c' = unlines ls' @ t \<and> newline \<notin> set t \<and> int (length t) < max_journal_line \<and>
    (\<exists>x. ls' = ls @ x) \<and> (length c' \<le> k \<longrightarrow> t = [])"
proof -
  obtain b where b: "line_of cd e b" "c' = unlines ls @ unlines [b]"
    using assms(3) by (auto elim!: append_checkedD simp: line_of_def)
  have nb: "newline \<notin> set b" "int (length b) < max_journal_line"
    using b(1) assms(1) by (auto simp: line_of_def codec_ok_def faithful_def)
  let ?j = "k - length (unlines ls)"
  have tk: "take k c' = unlines ls @ take ?j (b @ [newline])" using b(2) assms(5) by simp
  show ?thesis
  proof (cases "?j \<le> length b")
    case True
    then have "take k c' = unlines ls @ take ?j b" "newline \<notin> set (take ?j b)" "int (length (take ?j b)) < max_journal_line"
      using tk nb by (auto dest: in_set_takeD)
    moreover have "\<not> length c' \<le> k" using True b(2) assms(5) by simp
    ultimately show ?thesis using assms(2) by blast
  next
    case False
    then have "take k c' = unlines (ls @ [b]) @ []" using tk by simp
    with records_snoc [OF assms(2) b(1) assms(4)] show ?thesis
      by (intro exI [of _ "es @ [e]"] exI [of _ "ls @ [b]"] exI [of _ "[]"]) (simp add: max_journal_line_def)
  qed
qed

text \<open>What a step leaves of a run: its journal grown by complete lines, or the run pruned.\<close>

definition kept :: "string \<Rightarrow> string \<Rightarrow> bool" where
  "kept c c' \<longleftrightarrow> (\<exists>x. repair_torn_tail c' = repair_torn_tail c @ x)"

lemma kept_refl [simp]: "kept c c"
  by (simp add: kept_def)

lemma kept_lines:
  assumes "newline \<notin> set t" and "newline \<notin> set t'"
  shows "kept (unlines ls @ t) (unlines (ls @ x) @ t')"
  using repair_unlines [OF assms(1), of ls] repair_unlines [OF assms(2), of "ls @ x"] by (simp add: kept_def)

definition run_after :: "codec \<Rightarrow> prober \<Rightarrow> store \<Rightarrow> store \<Rightarrow> string \<Rightarrow> bool" where
  "run_after cd pr st st' rid \<longleftrightarrow>
     (journal_of st rid = None \<or>
      (\<exists>c c'. journal_of st rid = Some c \<and> journal_of st' rid = Some c' \<and> kept c c') \<or>
      (\<exists>me everything q out. prune_runs pr me everything st = ((q, out), st') \<and> rid \<in> set out \<and>
        prunable pr everything st rid \<and> journal_of st' rid = None)) \<and>
     (held st' rid \<noteq> None \<longrightarrow> journal_of st' rid \<noteq> None) \<and>
     (\<forall>c. journal_of st' rid = Some c \<longrightarrow> journal_ok cd (held st' rid \<noteq> None) c)"

lemma same_run:
  "store_ok cd st \<Longrightarrow> journal_of st' rid = journal_of st rid \<Longrightarrow> held st' rid = held st rid \<Longrightarrow> run_after cd pr st st' rid"
  by (cases "journal_of st rid") (auto simp: run_after_def store_ok_def)

lemma journal_ok_unlocked: "journal_ok cd l c \<Longrightarrow> journal_ok cd False c"
  by (auto simp: journal_ok_def)

lemma fragment_ok: "newline \<notin> set c \<Longrightarrow> journal_ok cd False c"
  by (simp add: journal_ok_def)

lemma store_steps:
  assumes "store_step cd hir pr st st'" and "codec_ok cd" and "store_ok cd st"
  shows "run_after cd pr st st' rid"
  using assms(1)
proof cases
  case (step_begin me hdr r)
  show ?thesis
  proof (cases "rid = hd_run_id hdr")
    case False
    with begun(3) [OF step_begin] show ?thesis by (intro same_run [OF assms(3)]) auto
  next
    case True
    show ?thesis
    proof (cases r)
      case None
      from begun(1) [OF step_begin None] obtain c where c: "journal_of st rid = None" "append_header cd hdr [] = Inr c"
          "journal_of st' rid = Some c" using True by blast
      from header_written [OF c(2)] obtain h hb where h: "records cd h [] [hb]" "c = unlines [hb]" by metis
      have "journal_ok cd l c" for l
        unfolding journal_ok_def using h by (intro disjI2 exI [of _ h] exI [of _ "[]"] exI [of _ "[hb]"]) (simp add: max_journal_line_def)
      with c show ?thesis by (auto simp: run_after_def)
    next
      case (Some m)
      note f = begun(2) [OF step_begin, unfolded Some, simplified, folded True]
      show ?thesis
      proof (cases "journal_of st' rid = journal_of st rid")
        case True
        with f show ?thesis by (intro same_run [OF assms(3)]) auto
      next
        case False
        with f have j: "journal_of st rid = None" "journal_of st' rid = Some []" "held st' rid = held st rid" by auto
        then have "held st' rid = None" using assms(3) unfolding store_ok_def by metis
        with j show ?thesis using fragment_ok [of "[]" cd] by (simp add: run_after_def)
      qed
    qed
  qed
next
  case (step_begin_dies r hdr c k)
  have w: "journal_of (with_dir r st) i = journal_of st i" "held (with_dir r st) i = held st i" for i
    by (auto simp: with_dir_def journal_of_def held_def empty_dir_def)
  have key: "r \<in> keys (st_dirs (with_dir r st))" by (auto simp: with_dir_def domIff)
  show ?thesis
  proof (cases "rid = r")
    case False
    with step_begin_dies w show ?thesis by (intro same_run [OF assms(3)]) (simp_all add: set_journal_simps)
  next
    case True
    from header_written [OF step_begin_dies(4)] obtain h hb where h: "records cd h [] [hb]" "c = unlines [hb]" by metis
    have "newline \<notin> set hb" using records_plain [OF assms(2) h(1)] by simp
    moreover have "take k c = take k hb" using h(2) step_begin_dies(5) by simp
    ultimately have "newline \<notin> set (take k c)" by (auto dest: in_set_takeD)
    with step_begin_dies True w key show ?thesis by (simp add: run_after_def set_journal_simps fragment_ok)
  qed
next
  case (step_resume me g cf r given q)
  show ?thesis
  proof (cases "rid = r")
    case False
    with resumed(1) [OF step_resume] show ?thesis by (intro same_run [OF assms(3)]) auto
  next
    case True
    show ?thesis
    proof (cases q)
      case (Inl m)
      from resumed(2) [OF step_resume Inl] True show ?thesis by (intro same_run [OF assms(3)]) auto
    next
      case (Inr seed)
      from resumed(3) [OF step_resume Inr] obtain c rp where c: "journal_of st r = Some c"
          "load_journal cd (journal_path st r) c = Inr rp" "journal_of st' r = Some (repair_torn_tail c)" by blast
      have ok: "journal_ok cd (held st r \<noteq> None) c" using assms(3) c(1) by (auto simp: store_ok_def)
      have "\<exists>n \<in> set c. n = newline" using load_of_fragment [of c cd "journal_path st r"] c(2) by auto
      with ok obtain h es ls t where l: "records cd h es ls" "c = unlines ls @ t" "newline \<notin> set t"
        by (auto simp: journal_ok_def)
      have rp: "repair_torn_tail c = unlines ls @ []" using repair_unlines [OF l(3)] l(2) by simp
      have "journal_ok cd b (repair_torn_tail c)" for b
        unfolding journal_ok_def rp using l(1)
        by (intro disjI2 exI [of _ h] exI [of _ es] exI [of _ ls] exI [of _ "[]"]) (simp add: max_journal_line_def)
      moreover have "kept c (repair_torn_tail c)"
        using kept_lines [OF l(3), of "[]" ls "[]"] rp l(2) by simp
      ultimately show ?thesis using c True by (auto simp: run_after_def)
    qed
  qed
next
  case (step_append r me c e c')
  have key: "r \<in> keys (st_dirs st)" using step_append(3) by (auto simp: journal_of_def split: option.splits)
  show ?thesis
  proof (cases "rid = r")
    case False
    with step_append show ?thesis by (intro same_run [OF assms(3)]) (simp_all add: set_journal_simps)
  next
    case True
    have "journal_ok cd True c" using assms(3) step_append(2,3) unfolding store_ok_def by fastforce
    then obtain h es ls where l: "records cd h es ls" "c = unlines ls" by (auto simp: journal_ok_def)
    from cut_append [OF assms(2) l(1) step_append(5) [unfolded l(2)] step_append(4), of "length (unlines ls) + length c'"]
    obtain es' ls' x where r: "records cd h es' ls'" "c' = unlines ls'" "ls' = ls @ x" by auto
    have "journal_ok cd b c'" for b
      unfolding journal_ok_def using r(1,2)
      by (intro disjI2 exI [of _ h] exI [of _ es'] exI [of _ ls'] exI [of _ "[]"]) (simp add: max_journal_line_def)
    moreover have "kept c c'" using kept_lines [of "[]" "[]" ls x] r l(2) by simp
    ultimately show ?thesis using step_append True key by (simp add: run_after_def set_journal_simps)
  qed
next
  case (step_dies r me c e c' k)
  let ?f = "\<lambda>d. d\<lparr>rd_journal := Some (take k c'), rd_lock := LockFree\<rparr>"
  have key: "r \<in> keys (st_dirs st)" using step_dies(3) by (auto simp: journal_of_def split: option.splits)
  then have up: "journal_of (upd_dir r ?f st) i = (if i = r then Some (take k c') else journal_of st i)"
      "held (upd_dir r ?f st) i = (if i = r then None else held st i)" for i
    by (auto simp: journal_of_upd held_upd)
  show ?thesis
  proof (cases "rid = r")
    case False
    with step_dies up show ?thesis by (intro same_run [OF assms(3)]) simp_all
  next
    case True
    have "journal_ok cd True c" using assms(3) step_dies(2,3) unfolding store_ok_def by fastforce
    then obtain h es ls where l: "records cd h es ls" "c = unlines ls" by (auto simp: journal_ok_def)
    from cut_append [OF assms(2) l(1) step_dies(5) [unfolded l(2)] step_dies(4) step_dies(6) [unfolded l(2)]]
    obtain es' ls' t x where r: "records cd h es' ls'" "take k c' = unlines ls' @ t" "newline \<notin> set t"
        "int (length t) < max_journal_line" "ls' = ls @ x" by blast
    have "journal_ok cd False (take k c')" unfolding journal_ok_def using r by blast
    moreover have "kept c (take k c')" using kept_lines [OF _ r(3), of "[]" ls x] r(2,5) l(2) by simp
    ultimately show ?thesis using step_dies True up by (simp add: run_after_def)
  qed
next
  case (step_close r me)
  show ?thesis
  proof (cases "rid = r")
    case False
    with step_close show ?thesis by (intro same_run [OF assms(3)]) simp_all
  next
    case True
    have "journal_ok cd False c" if "journal_of st rid = Some c" for c
      using assms(3) that journal_ok_unlocked unfolding store_ok_def by blast
    then show ?thesis using step_close True
      by (cases "journal_of st rid") (auto simp: run_after_def)
  qed
next
  case (step_pause r q)
  then have "st' = st \<or> st' = upd_dir r (\<lambda>d. d\<lparr>rd_pause := True\<rparr>) st" by (auto simp: request_pause_def split: if_splits)
  moreover have "journal_of (upd_dir r (\<lambda>d. d\<lparr>rd_pause := True\<rparr>) st) rid = journal_of st rid"
      "held (upd_dir r (\<lambda>d. d\<lparr>rd_pause := True\<rparr>) st) rid = held st rid"
    by (simp_all add: journal_of_upd held_upd) (simp_all add: journal_of_def held_def split: option.splits)
  ultimately show ?thesis by (intro same_run [OF assms(3)]) auto
next
  case (step_prune me everything r)
  obtain q out where r: "r = (q, out)" by fastforce
  from pruned [OF step_prune [unfolded prune_runs_def r]] obtain gone where g:
      "\<forall>i \<in> set gone. prunable pr everything st i \<and> map_of (st_dirs st') i = None"
      "\<forall>i. i \<notin> set gone \<longrightarrow> map_of (st_dirs st') i = map_of (st_dirs st) i" "set gone \<subseteq> set (sorted_keys (st_dirs st))"
      "out = [] @ gone" by auto
  show ?thesis
  proof (cases "rid \<in> set gone")
    case False
    with g(2) show ?thesis by (intro same_run [OF assms(3)]) (simp_all add: journal_of_def held_def)
  next
    case True
    then have n: "journal_of st' rid = None" "prunable pr everything st rid" "held st' rid = None" "rid \<in> set out"
      using g(1,4) by (auto simp: journal_of_def held_def)
    have "\<exists>me everything q out. prune_runs pr me everything st = ((q, out), st') \<and> rid \<in> set out \<and>
        prunable pr everything st rid \<and> journal_of st' rid = None"
      using step_prune [unfolded r] n by (intro exI conjI)
    with n show ?thesis by (simp add: run_after_def)
  qed
qed

lemma reachable_ok:
  assumes "store_reachable cd hir pr st" and "codec_ok cd"
  shows "store_ok cd st"
  using assms(1)
proof induction
  case (reach_empty st)
  then show ?case by (simp add: store_ok_def held_def journal_of_def)
next
  case (reach_step st st')
  with store_steps [OF reach_step.hyps(2) assms(2)] show ?case by (auto simp: store_ok_def run_after_def)
qed

subsection \<open>What a replay remembers\<close>

fun last_result :: "entry list \<Rightarrow> string \<times> string \<Rightarrow> result_record option" where
  "last_result [] k = None"
| "last_result (e # es) k =
     (case last_result es k of
        Some r \<Rightarrow> Some r
      | None \<Rightarrow> (case e of JResult r \<Rightarrow> if (rr_step r, rr_hash r) = k then Some r else None | _ \<Rightarrow> None))"

fun costs_of :: "entry list \<Rightarrow> cost_record list" where
  "costs_of [] = []"
| "costs_of (e # es) = (case e of JCost c \<Rightarrow> [c] | _ \<Rightarrow> []) @ costs_of es"

lemma fold_results:
  "map_of (rp_results (fold fold_record es rp)) k =
     (case last_result es k of Some r \<Rightarrow> Some r | None \<Rightarrow> map_of (rp_results rp) k)"
proof (induction es arbitrary: rp)
  case (Cons e es)
  then show ?case by (cases e) (auto simp: fold_record_def update_conv' split: option.splits)
qed simp

lemma fold_costs: "rp_costs (fold fold_record es rp) = rp_costs rp @ costs_of es"
proof (induction es arbitrary: rp)
  case (Cons e es)
  then show ?case by (cases e) (auto simp: fold_record_def)
qed simp

lemma fold_header: "\<forall>e \<in> set es. \<not> is_header e \<Longrightarrow> rp_header (fold fold_record es rp) = rp_header rp"
proof (induction es arbitrary: rp)
  case (Cons e es)
  then show ?case by (cases e) (auto simp: fold_record_def is_header_def)
qed simp

lemma fold_keys: "distinct (map fst (rp_results rp)) \<Longrightarrow> distinct (map fst (rp_results (fold fold_record es rp)))"
proof (induction es arbitrary: rp)
  case (Cons e es)
  then show ?case by (cases e) (simp_all add: fold_record_def distinct_update)
qed simp

subsection \<open>What the cap check of a resume sees\<close>

text \<open>A node id lies in an iteration of a loop: one of its segments is the iteration's.\<close>

definition in_iteration :: "string \<Rightarrow> string \<Rightarrow> int \<Rightarrow> bool" where
  "in_iteration sid loop i \<longleftrightarrow> (\<exists>done seg rest name. split_on CHR ''/'' sid = done @ seg # rest \<and>
     iteration_of seg = Some (name, i) \<and> loop = join ''/'' (done @ [name]))"

definition above :: "int smap \<Rightarrow> string \<Rightarrow> int \<Rightarrow> bool" where
  "above out loop cap \<longleftrightarrow> (\<exists>b. map_of out loop = Some b \<and> cap < b)"

lemma iteration_positive: "iteration_of seg = Some (name, i) \<Longrightarrow> 0 < i"
  by (auto simp: iteration_of_def split: option.splits prod.splits if_splits)

lemma note_segs_above:
  "above (note_segs pre segs out) loop cap \<longleftrightarrow> above out loop cap \<or>
     (\<exists>mid seg rest name i. segs = mid @ seg # rest \<and> iteration_of seg = Some (name, i) \<and>
        loop = join ''/'' (pre @ mid @ [name]) \<and> cap < i)"
proof (induction segs arbitrary: pre out)
  case (Cons s segs)
  let ?out = "case iteration_of s of None \<Rightarrow> out
        | Some (name, i) \<Rightarrow> (let loop = join ''/'' (pre @ [name]) in if get_or 0 out loop < i then put loop i out else out)"
  have one: "above ?out loop cap \<longleftrightarrow> above out loop cap \<or>
      (\<exists>name i. iteration_of s = Some (name, i) \<and> loop = join ''/'' (pre @ [name]) \<and> cap < i)"
  proof (cases "iteration_of s")
    case (Some p)
    obtain name i where p: "p = (name, i)" by fastforce
    from iteration_positive [OF Some [unfolded p]] Some p show ?thesis
      by (auto simp: above_def Let_def get_or_def split: option.splits)
  qed simp
  have split: "(\<exists>mid seg rest name i. s # segs = mid @ seg # rest \<and> iteration_of seg = Some (name, i) \<and>
        loop = join ''/'' (pre @ mid @ [name]) \<and> cap < i) \<longleftrightarrow>
      (\<exists>name i. iteration_of s = Some (name, i) \<and> loop = join ''/'' (pre @ [name]) \<and> cap < i) \<or>
      (\<exists>mid seg rest name i. segs = mid @ seg # rest \<and> iteration_of seg = Some (name, i) \<and>
        loop = join ''/'' ((pre @ [s]) @ mid @ [name]) \<and> cap < i)" (is "?L \<longleftrightarrow> ?A \<or> ?B")
  proof
    assume ?L
    then obtain mid seg rest name i where l: "s # segs = mid @ seg # rest" "iteration_of seg = Some (name, i)"
        "loop = join ''/'' (pre @ mid @ [name])" "cap < i" by blast
    show "?A \<or> ?B"
    proof (cases mid)
      case Nil
      with l show ?thesis by auto
    next
      case (Cons a mid')
      with l have "segs = mid' @ seg # rest" "loop = join ''/'' ((pre @ [s]) @ mid' @ [name])" by auto
      with l(2,4) show ?thesis by blast
    qed
  next
    assume "?A \<or> ?B"
    then show ?L
    proof
      assume ?A
      then show ?L by (metis append_Nil)
    next
      assume ?B
      then obtain mid seg rest name i where l: "segs = mid @ seg # rest" "iteration_of seg = Some (name, i)"
          "loop = join ''/'' ((pre @ [s]) @ mid @ [name])" "cap < i" by blast
      then have "s # segs = (s # mid) @ seg # rest" "loop = join ''/'' (pre @ (s # mid) @ [name])" by auto
      with l(2,4) show ?L by blast
    qed
  qed
  have "note_segs pre (s # segs) out = note_segs (pre @ [s]) segs ?out" by (simp add: Let_def)
  then show ?case unfolding split using Cons.IH [of "pre @ [s]" ?out] one by simp
qed simp

lemma note_bounds_above:
  "above (note_loop_bounds sid out) loop cap \<longleftrightarrow> above out loop cap \<or> (\<exists>i. in_iteration sid loop i \<and> cap < i)"
  unfolding note_loop_bounds_def note_segs_above in_iteration_def by fastforce

lemma note_segs_keys: "distinct (map fst out) \<Longrightarrow> distinct (map fst (note_segs pre segs out))"
  by (induction segs arbitrary: pre out) (auto simp: Let_def distinct_update split: option.splits)

definition executed_record :: "(string \<times> string) \<times> result_record \<Rightarrow> bool" where
  "executed_record p \<longleftrightarrow> snd (fst p) \<noteq> [] \<and> r_status (rr_result (snd p)) \<in> {StatusOK, StatusFailed, StatusHalted}"

lemma executed_bounds_above:
  "above (executed_bounds rp) loop cap \<longleftrightarrow>
     (\<exists>p \<in> set (rp_results rp). executed_record p \<and> (\<exists>i. in_iteration (fst (fst p)) loop i \<and> cap < i))"
  and executed_bounds_distinct: "distinct (map fst (executed_bounds rp))"
proof -
  let ?f = "\<lambda>p out. if snd (fst p) = [] \<or> r_status (rr_result (snd p)) \<notin> {StatusOK, StatusFailed, StatusHalted} then out
         else note_loop_bounds (fst (fst p)) out"
  have "above (fold ?f ps out) loop cap \<longleftrightarrow> above out loop cap \<or>
      (\<exists>p \<in> set ps. executed_record p \<and> (\<exists>i. in_iteration (fst (fst p)) loop i \<and> cap < i))" for ps out
    by (induction ps arbitrary: out) (auto simp: note_bounds_above executed_record_def)
  then show "above (executed_bounds rp) loop cap \<longleftrightarrow>
     (\<exists>p \<in> set (rp_results rp). executed_record p \<and> (\<exists>i. in_iteration (fst (fst p)) loop i \<and> cap < i))"
    unfolding executed_bounds_def by (simp add: above_def)
  have d: "distinct (map fst out) \<Longrightarrow> distinct (map fst (fold ?f ps out))" for ps out
    by (induction ps arbitrary: out) (auto simp: note_loop_bounds_def note_segs_keys)
  show "distinct (map fst (executed_bounds rp))" unfolding executed_bounds_def by (rule d) simp
qed

lemma cap_floor_exact:
  "cap_floor g rp = [] \<longleftrightarrow>
     (\<forall>p \<in> set (rp_results rp). \<forall>loop i cap. executed_record p \<and> in_iteration (fst (fst p)) loop i \<and>
        map_of (loop_bounds g) loop = Some cap \<longrightarrow> i \<le> cap)"
proof -
  have "cap_floor g rp = [] \<longleftrightarrow> (\<forall>loop cap. map_of (loop_bounds g) loop = Some cap \<longrightarrow> \<not> above (executed_bounds rp) loop cap)"
    using executed_bounds_distinct [of rp] by (fastforce simp: cap_floor_def above_def split: option.splits if_splits)
  then show ?thesis unfolding executed_bounds_above by (auto simp: not_less)
qed

text \<open>When a resume of a journaled run that nobody holds is accepted.\<close>

lemma resume_accepts:
  assumes "journal_of st rid = Some c" and "held st rid = None" and "hir g = Inr hash"
    and "load_journal cd (journal_path st rid) c = Inr rp"
  shows "(\<exists>seed st'. resume_with cd hir me g cf rid given st = (Inr seed, st')) \<longleftrightarrow> drift g hash cf rid given rp = None"
proof -
  obtain d where d: "map_of (st_dirs st) rid = Some d" "rd_lock d = LockFree"
    using assms(1,2) by (auto simp: journal_of_def held_def split: option.splits lock_state.splits)
  let ?s = "upd_dir rid (\<lambda>d. d\<lparr>rd_lock := LockHeld me\<rparr>) st"
  have a: "acquire_run_lock me rid st = (None, ?s)" using d by (simp add: acquire_run_lock_def Let_def)
  have j: "journal_of (clear_pause rid ?s) rid = Some c" using acquired(1) [OF a, of rid] assms(1) by simp
  have "st_root (clear_pause rid ?s) = st_root st" by (auto simp: clear_pause_def upd_dir_def split: option.splits)
  then have "load_run cd rid (clear_pause rid ?s) = Inr rp"
    using j assms(4) by (simp add: load_run_def journal_path_def run_path_def)
  then show ?thesis using a j assms(3)
    by (auto simp: resume_with_def Let_def reopen_locked_def split: option.splits)
qed

end
