(* ===== verification/RecoveryProps.thy ===== *)
theory RecoveryProps
  imports RecoveryInv
begin

text \<open>Properties of the journal file and of the recovery modes.\<close>

subsection \<open>A run to apply them to\<close>

definition demo_header :: header where
  "demo_header = blank_header\<lparr>hd_format := 1, hd_run_id := ''r'', hd_ir_hash := ''h''\<rparr>"

definition demo_record :: result_record where
  "demo_record = \<lparr>rr_step = ''w/c@3/a'', rr_hash = ''k'',
     rr_result = \<lparr>r_status = StatusOK, r_payload = Some ''{}'', r_error = None, r_halt = None,
       r_timing = \<lparr>tm_started = 1, tm_finished = 2\<rparr>, r_attempt = 1, r_attempts = [], r_agent_skipped = False, r_check = False\<rparr>\<rparr>"

text \<open>An encoding of these two records.\<close>

definition demo_enc :: "entry \<Rightarrow> string option" where
  "demo_enc e = (if e = JHeader demo_header then Some ''H'' else if e = JResult demo_record then Some ''R'' else None)"

definition demo_codec :: codec where
  "demo_codec = \<lparr>cd_enc = demo_enc, cd_kind = (\<lambda>s. Inr (if s = ''H'' then KindHeader else KindResult)),
     cd_header = (\<lambda>_. Inr demo_header), cd_result = (\<lambda>_. Inr demo_record), cd_cost = (\<lambda>_. Inl []),
     cd_cleanup = (\<lambda>_. Inl []), cd_defer = (\<lambda>_. Inl []), cd_start = (\<lambda>_. Inl []), cd_run_end = (\<lambda>_. Inl [])\<rparr>"

lemma demo_codec_ok: "codec_ok demo_codec"
  unfolding codec_ok_def faithful_def
  by (auto simp: demo_codec_def demo_enc_def kind_of_def decodes_def blank.simps ws_len_def byte_def split: if_splits)

lemma demo_header_line: "append_header demo_codec demo_header [] = Inr [CHR ''H'', newline]"
proof -
  have "demo_header\<lparr>hd_format := journal_format\<rparr> = demo_header" by (simp add: demo_header_def journal_format_def)
  then show ?thesis by (simp add: append_header_def append_line_def demo_codec_def demo_enc_def max_journal_line_def)
qed

lemma demo_append: "append_checked demo_codec (JResult demo_record) c = Inr (c @ [CHR ''R'', newline])"
proof -
  have "validate (rr_result demo_record) = []" by code_simp
  then show ?thesis
    by (simp add: append_checked_def append_refuses_def append_line_def demo_codec_def demo_enc_def max_journal_line_def)
qed

definition demo_store :: "string \<Rightarrow> store" where
  "demo_store c = \<lparr>st_root = ''/runs'', st_dirs = [(''r'', \<lparr>rd_journal = Some c, rd_pause = True, rd_lock = LockFree\<rparr>)]\<rparr>"

subsection \<open>The properties\<close>

text \<open>
  C30. A journal survives a crash at any byte: a file that was begun and appended to, cut anywhere behind
  its header line, replays to a front part of the entries, none left out whose line is complete, and the
  repair of its tail is byte for byte the journal of exactly those entries.
\<close>
theorem journal_survives_crash:
  assumes "append_header cd h [] = Inr c0" and "write_all cd es c0 = Inr c" and "length c0 \<le> n"
    and "codec_ok cd" and "\<forall>e \<in> set es. \<not> is_header e"
  shows "\<exists>m \<le> length es.
    load_journal cd p (take n c) =
      Inr (fold fold_record (take m es) (fold_record (JHeader (h\<lparr>hd_format := journal_format\<rparr>)) blank_replay)) \<and>
    write_all cd (take m es) c0 = Inr (repair_torn_tail (take n c)) \<and>
    (\<forall>x. m < length es \<and> write_all cd (take (Suc m) es) c0 = Inr x \<longrightarrow> n < length x)"
  by (rule cut_journal [OF assms(1,2,3)]) (use assms(4,5) in \<open>auto simp: codec_ok_def\<close>)

theorem journal_survives_crash_witness:
  "repair_torn_tail [CHR ''H'', newline, CHR ''R''] = [CHR ''H'', newline] \<and>
   (\<exists>rp. load_journal demo_codec ''p'' [CHR ''H'', newline, CHR ''R''] = Inr rp \<and> rp_results rp = [])"
proof -
  have w: "write_all demo_codec [JResult demo_record] [CHR ''H'', newline] = Inr [CHR ''H'', newline, CHR ''R'', newline]"
    by (simp add: demo_append)
  have r: "repair_torn_tail [CHR ''H'', newline, CHR ''R''] = [CHR ''H'', newline]" by code_simp
  obtain m where m: "m \<le> 1" "load_journal demo_codec ''p'' [CHR ''H'', newline, CHR ''R''] =
        Inr (fold fold_record (take m [JResult demo_record])
          (fold_record (JHeader (demo_header\<lparr>hd_format := journal_format\<rparr>)) blank_replay))"
      "write_all demo_codec (take m [JResult demo_record]) [CHR ''H'', newline] = Inr [CHR ''H'', newline]"
    using journal_survives_crash [OF demo_header_line w, of 3 "''p''"] demo_codec_ok r by (auto simp: is_header_def)
  have "m = 0"
  proof (rule ccontr)
    assume "m \<noteq> 0"
    with m(1) have "m = 1" by simp
    with m(3) w show False by simp
  qed
  with m(2) r show ?thesis by (simp add: fold_record_def blank_replay_def)
qed

text \<open>
  C31. In every store that processes reach by beginning, resuming, appending to, closing, pausing and
  pruning runs in any order, dying at any byte of a write, every journal that has its header line
  replays without an error, to exactly the records of its complete lines.
\<close>
theorem journals_always_replay:
  assumes "store_reachable cd hir pr st" and "codec_ok cd" and "journal_of st rid = Some c" and "newline \<in> set c"
  shows "\<exists>h es ls t. records cd h es ls \<and> c = unlines ls @ t \<and> newline \<notin> set t \<and>
    load_run cd rid st = Inr (fold fold_record es (fold_record (JHeader h) blank_replay))"
proof -
  have "journal_ok cd (held st rid \<noteq> None) c" using reachable_ok [OF assms(1,2)] assms(3) by (simp add: store_ok_def)
  with assms(4) obtain h es ls t where l: "records cd h es ls" "c = unlines ls @ t" "newline \<notin> set t" "int (length t) < max_journal_line"
    by (auto simp: journal_ok_def)
  have "load_run cd rid st = Inr (fold fold_record es (fold_record (JHeader h) blank_replay))"
    using records_load [OF assms(2) l(1,3,4)] assms(3) l(2) by (simp add: load_run_def)
  with l show ?thesis by blast
qed

definition demo_begun :: store where
  "demo_begun = \<lparr>st_root = ''/runs'', st_dirs = [(''r'', \<lparr>rd_journal = Some [CHR ''H'', newline], rd_pause = False, rd_lock = LockHeld 7\<rparr>)]\<rparr>"

lemma demo_reachable: "store_reachable demo_codec hir pr demo_begun"
proof -
  have b: "begin_run demo_codec 7 demo_header \<lparr>st_root = ''/runs'', st_dirs = []\<rparr> = (None, demo_begun)" by code_simp
  have "store_reachable demo_codec hir pr \<lparr>st_root = ''/runs'', st_dirs = []\<rparr>" by (rule reach_empty) simp
  from reach_step [OF this step_begin [OF b]] show ?thesis .
qed

lemma demo_begun_simps: "journal_of demo_begun ''r'' = Some [CHR ''H'', newline]" "held demo_begun ''r'' = Some 7"
  by (simp_all add: demo_begun_def journal_of_def held_def)

theorem journals_always_replay_witness:
  "\<exists>st rp. store_reachable demo_codec (\<lambda>_. Inl []) (\<lambda>_. None, \<lambda>_. None) st \<and> load_run demo_codec ''r'' st = Inr rp"
proof -
  note st = demo_reachable [of "\<lambda>_. Inl []" "(\<lambda>_. None, \<lambda>_. None)"]
  from journals_always_replay [OF st demo_codec_ok demo_begun_simps(1)] st show ?thesis by auto
qed

text \<open>
  C32. No record is lost: a step of any process leaves a journal with all the complete lines it had, unless it
  is a prune that reports the run as removed. A prune removes exactly the runs it reports, and reports only a
  run nobody holds, which without the request for everything has ended otherwise than paused.
\<close>
theorem records_never_lost:
  assumes "store_reachable cd hir pr st" and "codec_ok cd" and "journal_of st rid = Some c"
  shows "(\<forall>st'. store_step cd hir pr st st' \<longrightarrow>
      (\<exists>c' x. journal_of st' rid = Some c' \<and> repair_torn_tail c' = repair_torn_tail c @ x) \<or>
      (journal_of st' rid = None \<and> (\<exists>me everything q out. prune_runs pr me everything st = ((q, out), st') \<and> rid \<in> set out))) \<and>
    (\<forall>me everything q out st'. prune_runs pr me everything st = ((q, out), st') \<longrightarrow>
      (if rid \<in> set out
       then journal_of st' rid = None \<and> held st rid = None \<and>
         (\<exists>a. audit_run pr st rid c = Inr a \<and> (everything \<or> ra_complete a \<and> ra_end_status a \<noteq> RunEndPaused))
       else journal_of st' rid = Some c))"
proof (intro conjI allI impI)
  fix st' assume "store_step cd hir pr st st'"
  from store_steps [OF this assms(2) reachable_ok [OF assms(1,2)], of rid] assms(3)
  show "(\<exists>c' x. journal_of st' rid = Some c' \<and> repair_torn_tail c' = repair_torn_tail c @ x) \<or>
      (journal_of st' rid = None \<and> (\<exists>me everything q out. prune_runs pr me everything st = ((q, out), st') \<and> rid \<in> set out))"
    unfolding run_after_def kept_def by auto
next
  fix me everything q out st' assume "prune_runs pr me everything st = ((q, out), st')"
  from pruned [OF this [unfolded prune_runs_def]]
  have g: "\<forall>i \<in> set out. prunable pr everything st i \<and> map_of (st_dirs st') i = None"
      "\<forall>i. i \<notin> set out \<longrightarrow> map_of (st_dirs st') i = map_of (st_dirs st) i" by auto
  then show "if rid \<in> set out
       then journal_of st' rid = None \<and> held st rid = None \<and>
         (\<exists>a. audit_run pr st rid c = Inr a \<and> (everything \<or> ra_complete a \<and> ra_end_status a \<noteq> RunEndPaused))
       else journal_of st' rid = Some c"
    using assms(3) by (auto simp: prunable_def journal_of_def)
qed

text \<open>A run that ended paused outlives a plain prune and is removed when everything is asked for.\<close>

definition paused_probe :: prober where
  "paused_probe = (\<lambda>_. Some \<lparr>ap_kind = KindRunEnd, ap_format = 1, ap_status = RunEndPaused, ap_name = [],
     ap_workflow = [], ap_started = None\<rparr>, \<lambda>s. Some s)"

definition demo_closed :: store where
  "demo_closed = release_run_lock ''r'' demo_begun"

theorem records_never_lost_witness:
  "(\<exists>hir out st'. store_reachable demo_codec hir paused_probe demo_closed \<and>
      prune_runs paused_probe 9 False demo_closed = ((None, out), st') \<and> journal_of st' ''r'' = Some [CHR ''H'', newline]) \<and>
   (\<exists>out st'. prune_runs paused_probe 9 True demo_closed = ((None, out), st') \<and> journal_of st' ''r'' = None)"
proof -
  have st: "store_reachable demo_codec (\<lambda>_. Inl []) paused_probe demo_closed"
    unfolding demo_closed_def by (rule reach_step [OF demo_reachable step_close [OF demo_begun_simps(2)]])
  have j: "journal_of demo_closed ''r'' = Some [CHR ''H'', newline]"
    by (simp add: demo_closed_def demo_begun_simps)
  note w = conjunct2 [OF records_never_lost [OF st demo_codec_ok j], rule_format]
  have p: "case prune_runs paused_probe 9 False demo_closed of ((q, out), st') \<Rightarrow> q = None \<and> out = []"
      "case prune_runs paused_probe 9 True demo_closed of ((q, out), st') \<Rightarrow> q = None \<and> out = [''r'']"
    by code_simp+
  then obtain s1 s2 where s: "prune_runs paused_probe 9 False demo_closed = ((None, []), s1)"
      "prune_runs paused_probe 9 True demo_closed = ((None, [''r'']), s2)" by (auto split: prod.splits)
  with w [OF s(1)] w [OF s(2)] st show ?thesis by auto
qed

text \<open>
  C33. A resume after a crash reuses exactly what had settled: with the journal cut anywhere behind its
  header, an accepted resume finds under every key the last result whose line is complete, folds the
  costs of the complete lines in order, holds the run, and continues the journal of exactly those lines.
\<close>
theorem resume_reuses_complete_records:
  assumes "append_header cd h [] = Inr c0" and "write_all cd es c0 = Inr c" and "length c0 \<le> n"
    and "codec_ok cd" and "\<forall>e \<in> set es. \<not> is_header e"
    and "journal_of st rid = Some (take n c)" and "resume_with cd hir me g cf rid given st = (Inr seed, st')"
  shows "\<exists>m \<le> length es.
    (\<forall>k. map_of (se_prior seed) k = last_result (take m es) k) \<and> se_costs seed = costs_of (take m es) \<and>
    held st' rid = Some me \<and> (\<exists>c'. journal_of st' rid = Some c' \<and> write_all cd (take m es) c0 = Inr c') \<and>
    (\<forall>x. m < length es \<and> write_all cd (take (Suc m) es) c0 = Inr x \<longrightarrow> n < length x)"
proof -
  obtain m where m: "m \<le> length es" "load_journal cd (journal_path st rid) (take n c) =
      Inr (fold fold_record (take m es) (fold_record (JHeader (h\<lparr>hd_format := journal_format\<rparr>)) blank_replay))"
      "write_all cd (take m es) c0 = Inr (repair_torn_tail (take n c))"
      "\<forall>x. m < length es \<and> write_all cd (take (Suc m) es) c0 = Inr x \<longrightarrow> n < length x"
    using cut_journal [OF assms(1,2,3)] assms(4,5) unfolding codec_ok_def by blast
  from resumed(3) [OF assms(7) refl] assms(6) m(2) have s: "held st' rid = Some me"
      "journal_of st' rid = Some (repair_torn_tail (take n c))"
      "se_prior seed = rp_results (fold fold_record (take m es) (fold_record (JHeader (h\<lparr>hd_format := journal_format\<rparr>)) blank_replay))"
      "se_costs seed = rp_costs (fold fold_record (take m es) (fold_record (JHeader (h\<lparr>hd_format := journal_format\<rparr>)) blank_replay))"
    by auto
  have "rp_results (fold_record (JHeader (h\<lparr>hd_format := journal_format\<rparr>)) blank_replay) = []"
      "rp_costs (fold_record (JHeader (h\<lparr>hd_format := journal_format\<rparr>)) blank_replay) = []"
    by (simp_all add: fold_record_def blank_replay_def)
  with s m show ?thesis by (intro exI [of _ m]) (auto simp: fold_results fold_costs split: option.splits)
qed

definition small_cap :: ir where
  "small_cap = IR 1 ''w'' [Node ''w/c@1/a'' KindAgent None None None None [] None 0 [] [],
     Node ''w/c@2/a'' KindAgent None None None None [] None 0 [] []] [] [] []"

theorem resume_reuses_complete_records_witness:
  "\<exists>seed st'. resume_with demo_codec (\<lambda>_. Inr ''h'') 9 small_cap [] ''r'' [] (demo_store ([CHR ''H'', newline, CHR ''R'', newline])) = (Inr seed, st') \<and>
     map_of (se_prior seed) (''w/c@3/a'', ''k'') = Some demo_record"
proof -
  have w: "write_all demo_codec [JResult demo_record] [CHR ''H'', newline] = Inr [CHR ''H'', newline, CHR ''R'', newline]"
    by (simp add: demo_append)
  obtain seed st' where r: "resume_with demo_codec (\<lambda>_. Inr ''h'') 9 small_cap [] ''r'' []
      (demo_store [CHR ''H'', newline, CHR ''R'', newline]) = (Inr seed, st')"
  proof -
    have "case resume_with demo_codec (\<lambda>_. Inr ''h'') 9 small_cap [] ''r'' []
        (demo_store [CHR ''H'', newline, CHR ''R'', newline]) of (Inr seed, st') \<Rightarrow> True | _ \<Rightarrow> False" by code_simp
    then show thesis using that by (auto split: prod.splits sum.splits)
  qed
  have j: "journal_of (demo_store [CHR ''H'', newline, CHR ''R'', newline]) ''r'' = Some (take 4 [CHR ''H'', newline, CHR ''R'', newline])"
    by (simp add: demo_store_def journal_of_def)
  from resume_reuses_complete_records [OF demo_header_line w _ demo_codec_ok _ j r] obtain m where
      m: "m \<le> 1" "\<forall>k. map_of (se_prior seed) k = last_result (take m [JResult demo_record]) k"
        "\<forall>x. m < 1 \<and> write_all demo_codec (take (Suc m) [JResult demo_record]) [CHR ''H'', newline] = Inr x \<longrightarrow> 4 < length x"
    by (auto simp: is_header_def)
  have "m = 1"
  proof (rule ccontr)
    assume "m \<noteq> 1"
    with m(1) have "m = 0" by simp
    with m(3) w show False by simp
  qed
  with m(2) r show ?thesis by (auto simp: demo_record_def)
qed








end
