(* ===== verification/MeterConfig.thy ===== *)
theory MeterConfig
  imports Admitter
begin

text \<open>
  The metering file (\<open>metering/config.go\<close>): the checks of its endpoint classes, the class that covers a
  template, and the meters built from it. Reading the file and decoding its YAML are left out; a nil
  pointer dereference is \<open>None\<close>.
\<close>

subsection \<open>The file\<close>

record tokenizer_def =
  tk_command :: "string list"
  tk_max_output :: int64

record probe_def =
  pb_command :: "string list"
  pb_threshold :: "f64 option"

record class_def =
  cl_tier :: string
  cl_unit :: string
  cl_fields :: "string smap"
  cl_templates :: "string list"
  cl_tokenizer :: "tokenizer_def option"
  cl_probe :: "probe_def option"

abbreviation TierExact :: string where "TierExact \<equiv> ''exact''"
abbreviation TierReported :: string where "TierReported \<equiv> ''reported''"
abbreviation TierProbe :: string where "TierProbe \<equiv> ''probe''"

subsection \<open>Checks\<close>

definition require :: "bool \<Rightarrow> string \<Rightarrow> string \<Rightarrow> string list" where
  "require c path m = (if c then [] else [path @ '': '' @ m])"

text \<open>\<open>x <= y\<close> on floats, false when either is NaN.\<close>

definition f64_le :: "f64 \<Rightarrow> f64 \<Rightarrow> bool" where
  "f64_le x y \<longleftrightarrow> x \<noteq> NaN \<and> y \<noteq> NaN \<and> \<not> f64_less y x"

definition tier_errors :: "string \<Rightarrow> class_def \<Rightarrow> string list" where
  "tier_errors path c =
     (if cl_tier c = TierExact then
        require (cl_unit c \<noteq> []) (path @ ''.unit'') ''required for the exact tier'' @
        (case cl_tokenizer c of
           None \<Rightarrow> require False (path @ ''.tokenizer'') ''required for the exact tier''
         | Some t \<Rightarrow> require (tk_command t \<noteq> []) (path @ ''.tokenizer.command'') ''required'' @
             require (0 \<le> sint (tk_max_output t)) (path @ ''.tokenizer.max_output'') ''must not be negative'') @
        concat (map (\<lambda>f. require (get_or [] (cl_fields c) f = cl_unit c) (path @ ''.fields.'' @ f)
           ''exact tier usage fields must map to the tier's unit'') (sorted_keys (cl_fields c)))
      else if cl_tier c = TierReported then
        require (cl_unit c \<noteq> []) (path @ ''.unit'') ''required for the reported tier'' @
        require (cl_fields c \<noteq> []) (path @ ''.fields'') ''required for the reported tier'' @
        concat (map (\<lambda>f. require (get_or [] (cl_fields c) f \<noteq> []) (path @ ''.fields.'' @ f) ''unit must not be empty'')
          (sorted_keys (cl_fields c)))
      else if cl_tier c = TierProbe then
        (case cl_probe c of
           None \<Rightarrow> require False (path @ ''.probe'') ''required for the probe tier''
         | Some p \<Rightarrow> require (pb_command p \<noteq> []) (path @ ''.probe.command'') ''required'' @
             (case pb_threshold p of None \<Rightarrow> []
              | Some t \<Rightarrow> require (f64_le (Fin 0 0) t \<and> f64_le t (Fin 1 0)) (path @ ''.probe.threshold'')
                  ''must be within [0, 1]''))
      else require False (path @ ''.tier'') (''unknown tier '' @ quote_str (cl_tier c) @ '' (exact|reported|probe)''))"

text \<open>The templates a class lists; \<open>claimed\<close> maps a template to the class that listed it first.\<close>

fun claim_errors ::
  "string list option \<Rightarrow> string \<Rightarrow> string \<Rightarrow> string list \<Rightarrow> string smap \<Rightarrow> string list \<times> string smap" where
  "claim_errors known path name [] claimed = ([], claimed)"
| "claim_errors known path name (t # ts) claimed =
     (case map_of claimed t of
        Some prev \<Rightarrow>
          (let r = claim_errors known path name ts claimed
           in (require False (path @ ''.templates'') (''template '' @ quote_str t @ '' already covered by class '' @ quote_str prev @
                 ''; a template must map to one class'') @ fst r, snd r))
      | None \<Rightarrow>
          (let r = claim_errors known path name ts (put t name claimed)
           in ((case known of None \<Rightarrow> []
                | Some ks \<Rightarrow> require (t \<in> set ks) (path @ ''.templates'') (''unknown template '' @ quote_str t)) @ fst r, snd r)))"

fun class_errors ::
  "class_def smap \<Rightarrow> string list option \<Rightarrow> string list \<Rightarrow> string smap \<Rightarrow> string \<Rightarrow> string list" where
  "class_errors cs known [] claimed catch_all = []"
| "class_errors cs known (name # names) claimed catch_all =
     (case map_of cs name of
        None \<Rightarrow> class_errors cs known names claimed catch_all
      | Some c \<Rightarrow>
          (let path = ''endpoints.'' @ name in
           tier_errors path c @
           (if cl_templates c = [] then
              (if catch_all \<noteq> []
               then require False (path @ ''.templates'') (''classes '' @ quote_str catch_all @ '' and '' @ quote_str name @
                      '' both cover all templates; a template must map to one class'') @
                    class_errors cs known names claimed catch_all
               else class_errors cs known names claimed name)
            else (let r = claim_errors known path name (cl_templates c) claimed
                  in fst r @ class_errors cs known names (snd r) catch_all))))"

definition validate_metering :: "class_def smap \<Rightarrow> string list option \<Rightarrow> string list" where
  "validate_metering cs known = class_errors cs known (sorted_keys cs) [] []"

subsection \<open>Coverage\<close>

fun class_search :: "class_def smap \<Rightarrow> string \<Rightarrow> string list \<Rightarrow> string \<Rightarrow> string" where
  "class_search cs t [] catch_all = catch_all"
| "class_search cs t (name # names) catch_all =
     (case map_of cs name of
        None \<Rightarrow> class_search cs t names catch_all
      | Some c \<Rightarrow>
          if cl_templates c = [] then class_search cs t names name
          else if t \<in> set (cl_templates c) then name
          else class_search cs t names catch_all)"

definition class_for_template :: "class_def smap option \<Rightarrow> string \<Rightarrow> string" where
  "class_for_template cfg t = (case cfg of None \<Rightarrow> [] | Some cs \<Rightarrow> class_search cs t (sorted_keys cs) [])"

subsection \<open>Meters\<close>

text \<open>The meters of a class; a tier of no known name gets none.\<close>

definition class_meters :: "class_def \<Rightarrow> meter list option" where
  "class_meters c =
     (if cl_tier c = TierExact then
        (case cl_tokenizer c of None \<Rightarrow> None
         | Some t \<Rightarrow> Some [ExactM \<lparr>ex_unit = cl_unit c, ex_tokenizer = tk_command t, ex_max_output = tk_max_output t,
             ex_fields = sorted_keys (cl_fields c), ex_bounds = (\<lambda>_. None)\<rparr>])
      else if cl_tier c = TierReported then
        Some [ReportedM \<lparr>rm_unit = cl_unit c, rm_fields = cl_fields c\<rparr>]
      else if cl_tier c = TierProbe then
        (case cl_probe c of None \<Rightarrow> None
         | Some p \<Rightarrow> Some [ProbeM \<lparr>pm_command = pb_command p,
             pm_threshold = (case pb_threshold p of None \<Rightarrow> Fin 1 0 | Some t \<Rightarrow> t)\<rparr>])
      else Some [])"

fun meters_of :: "class_def smap \<Rightarrow> string list \<Rightarrow> meter list smap option" where
  "meters_of cs [] = Some []"
| "meters_of cs (name # names) =
     (case map_of cs name of
        None \<Rightarrow> meters_of cs names
      | Some c \<Rightarrow>
          (case class_meters c of
             None \<Rightarrow> None
           | Some ms \<Rightarrow> map_option (\<lambda>m. if ms = [] then m else (name, ms) # m) (meters_of cs names)))"

definition build_meters :: "class_def smap option \<Rightarrow> meter list smap option" where
  "build_meters cfg = (case cfg of None \<Rightarrow> Some [] | Some cs \<Rightarrow> meters_of cs (sorted_keys cs))"

subsection \<open>What a validated file gives\<close>

lemma require_Nil [simp]: "require c p m = [] \<longleftrightarrow> c"
  by (simp add: require_def)

lemma claims_ok:
  assumes "claim_errors known path name ts claimed = ([], claimed')"
  shows "(\<forall>t \<in> set ts. map_of claimed t = None \<and> (case known of None \<Rightarrow> True | Some ks \<Rightarrow> t \<in> set ks)) \<and> distinct ts \<and>
    map_of claimed' = (\<lambda>t. if t \<in> set ts then Some name else map_of claimed t)"
  using assms
proof (induction ts arbitrary: claimed)
  case (Cons t ts)
  then have n: "map_of claimed t = None" by (auto simp: Let_def require_def split: option.splits)
  with Cons.prems have k: "case known of None \<Rightarrow> True | Some ks \<Rightarrow> t \<in> set ks"
      and r: "claim_errors known path name ts (put t name claimed) = ([], claimed')"
    by (auto simp: Let_def prod_eq_iff split: option.splits)
  from Cons.IH [OF r] n k show ?case by (auto simp: fun_eq_iff split: if_splits)
qed simp

text \<open>The class that lists a template is unique, and so is, among the classes with a name, the one that
  covers all of them.\<close>

lemma class_errors_ok:
  assumes "class_errors cs known names claimed catch_all = []" and "distinct names"
  shows "(\<forall>n \<in> set names. \<forall>c. map_of cs n = Some c \<longrightarrow> tier_errors (''endpoints.'' @ n) c = [] \<and>
      (\<forall>t \<in> set (cl_templates c). map_of claimed t = None \<and>
        (case known of None \<Rightarrow> True | Some ks \<Rightarrow> t \<in> set ks)) \<and>
      (catch_all \<noteq> [] \<longrightarrow> cl_templates c \<noteq> [])) \<and>
    (\<forall>n \<in> set names. \<forall>m \<in> set names. \<forall>c d. map_of cs n = Some c \<and> map_of cs m = Some d \<and> n \<noteq> m \<longrightarrow>
      set (cl_templates c) \<inter> set (cl_templates d) = {} \<and> (n \<noteq> [] \<and> m \<noteq> [] \<longrightarrow> \<not> (cl_templates c = [] \<and> cl_templates d = [])))"
  using assms
proof (induction names arbitrary: claimed catch_all)
  case (Cons n ns)
  show ?case
  proof (cases "map_of cs n")
    case None
    with Cons.prems have e: "class_errors cs known ns claimed catch_all = []" by simp
    have d: "distinct ns" using Cons.prems by auto
    show ?thesis using Cons.IH [OF e d] None by (metis option.distinct(1) set_ConsD)
  next
    case (Some c)
    have d: "distinct ns" and nn: "n \<notin> set ns" using Cons.prems by auto
    have te: "tier_errors (''endpoints.'' @ n) c = []" using Cons.prems(1) Some by (auto simp: Let_def split: if_splits)
    show ?thesis
    proof (cases "cl_templates c = []")
      case True
      with Cons.prems(1) Some have ca: "catch_all = []" and e: "class_errors cs known ns claimed n = []"
        by (auto simp: Let_def split: if_splits)
      from Cons.IH [OF e d] have A: "\<forall>m \<in> set ns. \<forall>c. map_of cs m = Some c \<longrightarrow> tier_errors (''endpoints.'' @ m) c = [] \<and>
            (\<forall>t \<in> set (cl_templates c). map_of claimed t = None \<and> (case known of None \<Rightarrow> True | Some ks \<Rightarrow> t \<in> set ks)) \<and>
            (n \<noteq> [] \<longrightarrow> cl_templates c \<noteq> [])"
          and B: "\<forall>n \<in> set ns. \<forall>m \<in> set ns. \<forall>c d. map_of cs n = Some c \<and> map_of cs m = Some d \<and> n \<noteq> m \<longrightarrow>
            set (cl_templates c) \<inter> set (cl_templates d) = {} \<and> (n \<noteq> [] \<and> m \<noteq> [] \<longrightarrow> \<not> (cl_templates c = [] \<and> cl_templates d = []))"
        by blast+
      show ?thesis
      proof (intro conjI)
        show "\<forall>m \<in> set (n # ns). \<forall>c. map_of cs m = Some c \<longrightarrow> tier_errors (''endpoints.'' @ m) c = [] \<and>
            (\<forall>t \<in> set (cl_templates c). map_of claimed t = None \<and> (case known of None \<Rightarrow> True | Some ks \<Rightarrow> t \<in> set ks)) \<and>
            (catch_all \<noteq> [] \<longrightarrow> cl_templates c \<noteq> [])"
          using A Some te True ca by auto
        show "\<forall>i \<in> set (n # ns). \<forall>m \<in> set (n # ns). \<forall>c d. map_of cs i = Some c \<and> map_of cs m = Some d \<and> i \<noteq> m \<longrightarrow>
            set (cl_templates c) \<inter> set (cl_templates d) = {} \<and> (i \<noteq> [] \<and> m \<noteq> [] \<longrightarrow> \<not> (cl_templates c = [] \<and> cl_templates d = []))"
          using A B Some True by auto
      qed
    next
      case False
      obtain es cl where r: "claim_errors known (''endpoints.'' @ n) n (cl_templates c) claimed = (es, cl)" by fastforce
      with Cons.prems(1) Some False have e: "es = []" "class_errors cs known ns cl catch_all = []" by (auto simp: Let_def)
      note co = claims_ok [OF r [unfolded e(1)]]
      note IH = Cons.IH [OF e(2) d]
      have A: "\<forall>m \<in> set ns. \<forall>c'. map_of cs m = Some c' \<longrightarrow> tier_errors (''endpoints.'' @ m) c' = [] \<and>
            (\<forall>t \<in> set (cl_templates c'). map_of claimed t = None \<and> t \<notin> set (cl_templates c) \<and>
              (case known of None \<Rightarrow> True | Some ks \<Rightarrow> t \<in> set ks)) \<and> (catch_all \<noteq> [] \<longrightarrow> cl_templates c' \<noteq> [])"
      proof -
        have "map_of cl t = None \<longleftrightarrow> t \<notin> set (cl_templates c) \<and> map_of claimed t = None" for t
          using co by auto
        then show ?thesis using conjunct1 [OF IH] by blast
      qed
      show ?thesis
      proof (intro conjI)
        show "\<forall>m \<in> set (n # ns). \<forall>c. map_of cs m = Some c \<longrightarrow> tier_errors (''endpoints.'' @ m) c = [] \<and>
            (\<forall>t \<in> set (cl_templates c). map_of claimed t = None \<and> (case known of None \<Rightarrow> True | Some ks \<Rightarrow> t \<in> set ks)) \<and>
            (catch_all \<noteq> [] \<longrightarrow> cl_templates c \<noteq> [])"
          using A Some te False co by auto
        show "\<forall>i \<in> set (n # ns). \<forall>m \<in> set (n # ns). \<forall>c d. map_of cs i = Some c \<and> map_of cs m = Some d \<and> i \<noteq> m \<longrightarrow>
            set (cl_templates c) \<inter> set (cl_templates d) = {} \<and> (i \<noteq> [] \<and> m \<noteq> [] \<longrightarrow> \<not> (cl_templates c = [] \<and> cl_templates d = []))"
          using A conjunct2 [OF IH] Some False by (auto simp: disjoint_iff)
      qed
    qed
  qed
qed simp

lemma class_meters_total:
  "tier_errors p c = [] \<Longrightarrow> \<exists>m. class_meters c = Some [m]"
  by (auto simp: tier_errors_def class_meters_def split: if_splits option.splits)

lemma meters_of_ok:
  assumes "\<forall>n \<in> set names. \<forall>c. map_of cs n = Some c \<longrightarrow> (\<exists>m. class_meters c = Some [m])" and "distinct names"
  shows "\<exists>ms. meters_of cs names = Some ms \<and>
    map_of ms = (\<lambda>n. if n \<in> set names then (case map_of cs n of None \<Rightarrow> None | Some c \<Rightarrow> class_meters c) else None)"
  using assms
proof (induction names)
  case (Cons n ns)
  then obtain ms where ms: "meters_of cs ns = Some ms"
      "map_of ms = (\<lambda>n. if n \<in> set ns then (case map_of cs n of None \<Rightarrow> None | Some c \<Rightarrow> class_meters c) else None)" by auto
  show ?case
  proof (cases "map_of cs n")
    case None
    with ms show ?thesis by (auto simp: fun_eq_iff)
  next
    case (Some c)
    with Cons.prems obtain m where "class_meters c = Some [m]" by auto
    with ms Some show ?thesis by (auto simp: fun_eq_iff)
  qed
qed simp

lemma sorted_last:
  assumes "sorted xs" and "\<And>m. m \<in> set xs \<Longrightarrow> m = n \<or> m = z" and "n \<in> set xs" and "z < n"
  shows "last xs = n"
proof -
  have "n \<le> last xs" using assms(1,3)
    by (induction xs) (auto split: if_splits simp: order_trans)
  moreover have "last xs \<in> set xs" using assms(3) by (intro last_in_set) auto
  ultimately show ?thesis using assms(2,4) by fastforce
qed

lemma class_search_ok:
  assumes "\<forall>n \<in> set names. map_of cs n \<noteq> None"
  shows "(\<forall>n c. n \<in> set names \<and> map_of cs n = Some c \<and> t \<in> set (cl_templates c) \<and>
       (\<forall>m d. m \<in> set names \<and> map_of cs m = Some d \<and> t \<in> set (cl_templates d) \<longrightarrow> m = n) \<longrightarrow> class_search cs t names ca = n) \<and>
    ((\<forall>n c. n \<in> set names \<and> map_of cs n = Some c \<longrightarrow> t \<notin> set (cl_templates c)) \<longrightarrow>
       class_search cs t names ca =
         (case filter (\<lambda>n. (case map_of cs n of None \<Rightarrow> False | Some c \<Rightarrow> cl_templates c = [])) names of
            [] \<Rightarrow> ca | ns \<Rightarrow> last ns))"
  using assms
proof (induction names arbitrary: ca)
  case (Cons n ns)
  then obtain c where c: "map_of cs n = Some c" by auto
  have p: "\<forall>n \<in> set ns. map_of cs n \<noteq> None" using Cons.prems by simp
  show ?case using Cons.IH [OF p, of n] Cons.IH [OF p, of ca] c
    by (intro conjI allI impI; cases "cl_templates c = []"; cases "t \<in> set (cl_templates c)")
      (auto split: list.splits)
qed simp

text \<open>
  C36. A metering file without violations builds exactly one meter for each of its classes, and a template is
  charged to the one class that lists it; a template no class lists is charged to the one class with a
  name that lists none, else to none. A class whose name is empty is outside the check: it may list none
  beside a class with a name that lists none too, and then it gets no template at all.
\<close>
theorem metering_file_total:
  assumes "validate_metering cs known = []"
  shows "(\<exists>ms. build_meters (Some cs) = Some ms \<and> keys ms = keys cs \<and> (\<forall>n l. map_of ms n = Some l \<longrightarrow> length l = 1)) \<and>
    (\<forall>n c t. map_of cs n = Some c \<and> t \<in> set (cl_templates c) \<longrightarrow> class_for_template (Some cs) t = n) \<and>
    (\<forall>t. (\<forall>m d. map_of cs m = Some d \<longrightarrow> t \<notin> set (cl_templates d)) \<longrightarrow>
      (\<forall>n c. n \<noteq> [] \<and> map_of cs n = Some c \<and> cl_templates c = [] \<longrightarrow> class_for_template (Some cs) t = n) \<and>
      ((\<forall>n c. n \<noteq> [] \<and> map_of cs n = Some c \<longrightarrow> cl_templates c \<noteq> []) \<longrightarrow> class_for_template (Some cs) t = []))"
proof -
  have e: "class_errors cs known (sorted_keys cs) [] [] = []" using assms by (simp add: validate_metering_def)
  note ok = class_errors_ok [OF e distinct_sorted_keys, unfolded sorted_keys_dom]
  have uniq: "\<And>n m c d. map_of cs n = Some c \<Longrightarrow> map_of cs m = Some d \<Longrightarrow> n \<noteq> m \<Longrightarrow>
      set (cl_templates c) \<inter> set (cl_templates d) = {} \<and> (n \<noteq> [] \<and> m \<noteq> [] \<longrightarrow> \<not> (cl_templates c = [] \<and> cl_templates d = []))"
    using conjunct2 [OF ok] by blast
  have tot: "\<forall>n \<in> set (sorted_keys cs). \<forall>c. map_of cs n = Some c \<longrightarrow> (\<exists>m. class_meters c = Some [m])"
    using conjunct1 [OF ok] class_meters_total unfolding sorted_keys_dom by blast
  from meters_of_ok [OF tot distinct_sorted_keys] obtain ms where ms: "meters_of cs (sorted_keys cs) = Some ms"
      "map_of ms = (\<lambda>n. if n \<in> keys cs then (case map_of cs n of None \<Rightarrow> None | Some c \<Rightarrow> class_meters c) else None)"
    unfolding sorted_keys_dom by blast
  have one: "\<forall>n l. map_of ms n = Some l \<longrightarrow> length l = 1"
    using tot ms(2) unfolding sorted_keys_dom by (fastforce split: if_splits option.splits)
  have "n \<in> keys ms \<longleftrightarrow> n \<in> keys cs" for n
  proof (cases "map_of cs n")
    case (Some c)
    then have "n \<in> set (sorted_keys cs)" unfolding sorted_keys_dom by blast
    with tot Some obtain m where "class_meters c = Some [m]" by blast
    with Some ms(2) show ?thesis by (auto simp: domIff)
  qed (simp add: ms(2) domIff)
  then have k: "keys ms = keys cs" by blast
  have pres: "\<forall>n \<in> set (sorted_keys cs). map_of cs n \<noteq> None" unfolding sorted_keys_dom by auto
  note search = class_search_ok [OF pres, unfolded sorted_keys_dom]
  let ?P = "\<lambda>n. case map_of cs n of None \<Rightarrow> False | Some c \<Rightarrow> cl_templates c = []"
  show ?thesis
  proof (intro conjI)
    show "\<exists>ms. build_meters (Some cs) = Some ms \<and> keys ms = keys cs \<and> (\<forall>n l. map_of ms n = Some l \<longrightarrow> length l = 1)"
      using ms(1) k one by (auto simp: build_meters_def)
    show "\<forall>n c t. map_of cs n = Some c \<and> t \<in> set (cl_templates c) \<longrightarrow> class_for_template (Some cs) t = n"
    proof (intro allI impI)
      fix n c t assume n: "map_of cs n = Some c \<and> t \<in> set (cl_templates c)"
      have "\<forall>m d. m \<in> keys cs \<and> map_of cs m = Some d \<and> t \<in> set (cl_templates d) \<longrightarrow> m = n"
        using uniq n by blast
      with n conjunct1 [OF search [of t "[]"]] show "class_for_template (Some cs) t = n"
        by (auto simp: class_for_template_def)
    qed
    show "\<forall>t. (\<forall>m d. map_of cs m = Some d \<longrightarrow> t \<notin> set (cl_templates d)) \<longrightarrow>
      (\<forall>n c. n \<noteq> [] \<and> map_of cs n = Some c \<and> cl_templates c = [] \<longrightarrow> class_for_template (Some cs) t = n) \<and>
      ((\<forall>n c. n \<noteq> [] \<and> map_of cs n = Some c \<longrightarrow> cl_templates c \<noteq> []) \<longrightarrow> class_for_template (Some cs) t = [])"
    proof (intro allI impI)
      fix t assume "\<forall>m d. map_of cs m = Some d \<longrightarrow> t \<notin> set (cl_templates d)"
      then have "\<forall>n c. n \<in> keys cs \<and> map_of cs n = Some c \<longrightarrow> t \<notin> set (cl_templates c)" by blast
      from mp [OF conjunct2 [OF search [of t "[]"]] this]
      have s: "class_for_template (Some cs) t = (case filter ?P (sorted_keys cs) of [] \<Rightarrow> [] | ns \<Rightarrow> last ns)"
        by (simp only: class_for_template_def option.case)
      show "(\<forall>n c. n \<noteq> [] \<and> map_of cs n = Some c \<and> cl_templates c = [] \<longrightarrow> class_for_template (Some cs) t = n) \<and>
          ((\<forall>n c. n \<noteq> [] \<and> map_of cs n = Some c \<longrightarrow> cl_templates c \<noteq> []) \<longrightarrow> class_for_template (Some cs) t = [])"
      proof (intro conjI allI impI)
        fix n c assume n: "n \<noteq> [] \<and> map_of cs n = Some c \<and> cl_templates c = []"
        have in_n: "n \<in> set (filter ?P (sorted_keys cs))"
        proof -
          have "n \<in> set (sorted_keys cs)" using n unfolding sorted_keys_dom by blast
          then show ?thesis using n by simp
        qed
        have only: "m = n \<or> m = []" if "m \<in> set (filter ?P (sorted_keys cs))" for m
          using that uniq n by (auto split: option.splits)
        have "sorted (filter ?P (sorted_keys cs))" by (simp add: sorted_keys_def sorted_wrt_filter)
        moreover have "[] < n" using n by (cases n) simp_all
        ultimately have "last (filter ?P (sorted_keys cs)) = n"
          using sorted_last [OF _ only in_n] by simp
        with s in_n show "class_for_template (Some cs) t = n" by (cases "filter ?P (sorted_keys cs)") auto
      next
        assume n: "\<forall>n c. n \<noteq> [] \<and> map_of cs n = Some c \<longrightarrow> cl_templates c \<noteq> []"
        have "m = []" if "m \<in> set (filter ?P (sorted_keys cs))" for m
          using that n by (auto split: option.splits)
        with s show "class_for_template (Some cs) t = []"
          by (cases "filter ?P (sorted_keys cs)") (auto dest: last_in_set)
      qed
    qed
  qed
qed

text \<open>Two classes that list no templates, one of them with the empty name.\<close>

definition demo_classes :: "class_def smap" where
  "demo_classes = [(''api'', \<lparr>cl_tier = TierReported, cl_unit = ''tokens'', cl_fields = [(''out'', ''tokens'')],
       cl_templates = [''coder''], cl_tokenizer = None, cl_probe = None\<rparr>),
     ([], \<lparr>cl_tier = TierProbe, cl_unit = [], cl_fields = [], cl_templates = [],
       cl_tokenizer = None, cl_probe = Some \<lparr>pb_command = [''probe''], pb_threshold = None\<rparr>\<rparr>),
     (''rest'', \<lparr>cl_tier = TierProbe, cl_unit = [], cl_fields = [], cl_templates = [],
       cl_tokenizer = None, cl_probe = Some \<lparr>pb_command = [''probe''], pb_threshold = None\<rparr>\<rparr>)]"

theorem metering_file_total_witness:
  "class_for_template (Some demo_classes) ''coder'' = ''api'' \<and> class_for_template (Some demo_classes) ''other'' = ''rest''"
proof -
  have ok: "validate_metering demo_classes (Some [''coder'']) = []" by code_simp
  obtain a where a: "map_of demo_classes ''api'' = Some a" "cl_templates a = [''coder'']"
    by (simp add: demo_classes_def)
  obtain r where r: "map_of demo_classes ''rest'' = Some r" "cl_templates r = []"
    by (simp add: demo_classes_def)
  note total = metering_file_total [OF ok]
  have "map_of demo_classes ''api'' = Some a \<and> ''coder'' \<in> set (cl_templates a)" using a by simp
  with total have "class_for_template (Some demo_classes) ''coder'' = ''api''" by blast
  moreover have "\<forall>m d. map_of demo_classes m = Some d \<longrightarrow> ''other'' \<notin> set (cl_templates d)"
    by (auto simp: demo_classes_def split: if_splits)
  with total r have "class_for_template (Some demo_classes) ''other'' = ''rest''" by blast
  ultimately show ?thesis ..
qed

end
