(* ===== verification/Rollup.thy ===== *)
theory Rollup
  imports Settling
begin

text \<open>
  The report's reading of a run's lines (\<open>pipeline/rollup.go\<close>): unrolled loops are folded back into
  iterations, and node ids are put in dependency order. A Go map from loop to group is an association
  list in first-seen order, which is the order the code keeps beside its map.
\<close>

subsection \<open>Lines\<close>

record step_line =
  sl_id :: string
  sl_status :: string
  sl_cached :: bool
  sl_agent_skipped :: bool
  sl_check :: bool
  sl_duration :: string
  sl_attempts :: int
  sl_deferred :: int
  sl_deferred_for :: string
  sl_outputs :: "goval smap"
  sl_error :: "error_record option"
  sl_halt :: "halt_record option"
  sl_ancestor :: string
  sl_chose :: string

datatype loop_rollup =
  LoopRollup (lr_loop: string) (lr_bound: int) (lr_ran: int) (lr_status: string) (lr_chose: string)
    (lr_exhausted: bool) (lr_iterations: "loop_iteration list") (lr_not_reached: "int \<times> int")
    (lr_ancestor: string) (lr_absent: "int \<times> int")
and loop_iteration =
  LoopIteration (li_index: int) (li_status: string) (li_steps: "step_line list") (li_loops: "loop_rollup list")

subsection \<open>Iteration ids\<close>

fun first_iter :: "string list \<Rightarrow> string list \<Rightarrow> (string \<times> int) option" where
  "first_iter done [] = None"
| "first_iter done (seg # segs) =
     (case iteration_of seg of
        Some (name, i) \<Rightarrow> Some (join ''/'' (done @ [name]), i)
      | None \<Rightarrow> first_iter (done @ [seg]) segs)"

definition loop_of :: "string \<Rightarrow> string \<Rightarrow> (string \<times> int) option" where
  "loop_of i scope =
     (if \<not> has_prefix scope i then None
      else map_option (\<lambda>p. (scope @ fst p, snd p)) (first_iter [] (split_on CHR ''/'' (drop (length scope) i))))"

text \<open>The innermost iteration segment, for the loop a selector's candidate belongs to.\<close>

fun last_iter :: "string list \<Rightarrow> string list \<Rightarrow> string option" where
  "last_iter done [] = None"
| "last_iter done (seg # segs) =
     (case last_iter (done @ [seg]) segs of
        Some l \<Rightarrow> Some l
      | None \<Rightarrow> map_option (\<lambda>p. join ''/'' (done @ [fst p])) (iteration_of seg))"

record ir_info =
  ii_kind :: string
  ii_sel :: "sel_spec option"
  ii_target :: string

definition selector_loop :: "ir_info \<Rightarrow> string option" where
  "selector_loop info =
     (if ii_kind info \<noteq> KindSelector then None
      else case ii_sel info of
          None \<Rightarrow> None
        | Some s \<Rightarrow> (case sel_candidates s of [] \<Rightarrow> None | c # cs \<Rightarrow> last_iter [] (split_on CHR ''/'' c)))"

definition selector_loops :: "ir_info smap \<Rightarrow> string smap" where
  "selector_loops nodes =
     concat (map (\<lambda>p. case selector_loop (snd p) of None \<Rightarrow> [] | Some l \<Rightarrow> [(fst p, l)]) nodes)"

definition executed :: "string \<Rightarrow> bool" where
  "executed st \<longleftrightarrow> st = StateOK \<or> st = StateFailed \<or> st = StateHalted"

subsection \<open>Grouping\<close>

record group =
  gr_iters :: "(int \<times> step_line list) list"
  gr_sel :: "step_line option"

definition empty_group :: group where
  "empty_group = \<lparr>gr_iters = [], gr_sel = None\<rparr>"

definition group_at :: "(string \<times> group) list \<Rightarrow> string \<Rightarrow> group" where
  "group_at gs loop = (case map_of gs loop of None \<Rightarrow> empty_group | Some g \<Rightarrow> g)"

definition iter_at :: "group \<Rightarrow> int \<Rightarrow> step_line list" where
  "iter_at g i = (case map_of (gr_iters g) i of None \<Rightarrow> [] | Some ls \<Rightarrow> ls)"

definition add_iter :: "string \<Rightarrow> int \<Rightarrow> step_line \<Rightarrow> (string \<times> group) list \<Rightarrow> (string \<times> group) list" where
  "add_iter loop i l gs =
     (let g = group_at gs loop
      in AList.update loop (g\<lparr>gr_iters := AList.update i (iter_at g i @ [l]) (gr_iters g)\<rparr>) gs)"

definition set_sel :: "string \<Rightarrow> step_line \<Rightarrow> (string \<times> group) list \<Rightarrow> (string \<times> group) list" where
  "set_sel loop l gs = AList.update loop ((group_at gs loop)\<lparr>gr_sel := Some l\<rparr>) gs"

definition group_line ::
  "string smap \<Rightarrow> string \<Rightarrow> step_line \<Rightarrow> step_line list \<times> (string \<times> group) list \<Rightarrow> step_line list \<times> (string \<times> group) list" where
  "group_line sels scope l st =
     (let lo = loop_of (sl_id l) scope in
      case map_of sels (sl_id l) of
        Some loop \<Rightarrow>
          (case lo of
             Some (outer, i) \<Rightarrow>
               if outer \<noteq> loop then (fst st, add_iter outer i l (snd st)) else (fst st, set_sel loop l (snd st))
           | None \<Rightarrow> (fst st, set_sel loop l (snd st)))
      | None \<Rightarrow>
          (case lo of
             None \<Rightarrow> (fst st @ [l], snd st)
           | Some (loop, i) \<Rightarrow> (fst st, add_iter loop i l (snd st))))"

definition group_lines :: "string smap \<Rightarrow> string \<Rightarrow> step_line list \<Rightarrow> step_line list \<times> (string \<times> group) list" where
  "group_lines sels scope ls = fold (group_line sels scope) ls ([], [])"

subsection \<open>Iterations\<close>

definition note_range :: "int \<times> int \<Rightarrow> int \<Rightarrow> int \<times> int" where
  "note_range r i = (if fst r = 0 \<or> i < fst r then i else fst r, if snd r < i then i else snd r)"

fun worst :: "string list \<Rightarrow> string \<Rightarrow> string" where
  "worst [] st = st"
| "worst (s # ss) st = (if s = StateFailed then StateFailed else worst ss (if s = StateHalted then StateHalted else st))"

text \<open>\<open>iterationStatus\<close>: the lines first, then the nested loops; the first failure decides.\<close>

definition iteration_status :: "step_line list \<Rightarrow> loop_rollup list \<Rightarrow> string" where
  "iteration_status ls rs = worst (map sl_status ls @ map lr_status rs) StateOK"

fun idle_lines :: "step_line list \<Rightarrow> string \<Rightarrow> (string \<times> string) + string" where
  "idle_lines [] kind = Inr kind"
| "idle_lines (l # ls) kind =
     (if sl_status l = StateSkippedDependency \<or> sl_status l = StateSkippedHalt
      then Inl (StateSkippedDependency, sl_ancestor l)
      else idle_lines ls (if sl_status l = StateAbsent then StateAbsent else kind))"

fun idle_loops :: "loop_rollup list \<Rightarrow> string \<Rightarrow> string \<times> string" where
  "idle_loops [] kind = (kind, [])"
| "idle_loops (r # rs) kind =
     (if 0 < fst (lr_not_reached r) then (StateSkippedDependency, lr_ancestor r)
      else idle_loops rs (if 0 < fst (lr_absent r) then StateAbsent else kind))"

definition idle_iteration_kind :: "step_line list \<Rightarrow> loop_rollup list \<Rightarrow> string \<times> string" where
  "idle_iteration_kind ls rs =
     (case idle_lines ls StateSkippedCondition of Inl r \<Rightarrow> r | Inr kind \<Rightarrow> idle_loops rs kind)"

definition iter_ran :: "step_line list \<Rightarrow> loop_rollup list \<Rightarrow> bool" where
  "iter_ran ls rs \<longleftrightarrow> list_ex (\<lambda>l. executed (sl_status l)) ls \<or> list_ex (\<lambda>r. 0 < lr_ran r) rs"

text \<open>One iteration into its loop's rollup: executed, or counted into the range it was idle in.\<close>

definition fold_iteration :: "int \<times> step_line list \<times> loop_rollup list \<Rightarrow> loop_rollup \<Rightarrow> loop_rollup" where
  "fold_iteration p r =
     (let i = fst p; ip = fst (snd p); il = snd (snd p) in
      case r of LoopRollup lo bd rn st ch ex its nr an ab \<Rightarrow>
        if iter_ran ip il
        then LoopRollup lo bd (rn + 1) st ch ex (its @ [LoopIteration i (iteration_status ip il) ip il]) nr an ab
        else (let k = idle_iteration_kind ip il in
          if fst k = StateSkippedDependency
          then LoopRollup lo bd rn st ch ex its (note_range nr i) (if an = [] then snd k else an) ab
          else if fst k = StateAbsent then LoopRollup lo bd rn st ch ex its nr an (note_range ab i)
          else r))"

definition loop_status :: "loop_rollup \<Rightarrow> string" where
  "loop_status r =
     (let sts = map li_status (lr_iterations r) in
      if lr_exhausted r \<or> StateFailed \<in> set sts then StateFailed
      else if StateHalted \<in> set sts then StateHalted
      else if lr_ran r = 0 \<and> 0 < fst (lr_not_reached r) then ''not-reached''
      else if lr_ran r = 0 \<and> 0 < fst (lr_absent r) then StateAbsent
      else StateOK)"

definition sel_exhausted_line :: "step_line \<Rightarrow> bool" where
  "sel_exhausted_line l \<longleftrightarrow> sl_status l = StateFailed \<and>
     (case sl_error l of None \<Rightarrow> False | Some e \<Rightarrow> er_reason e = ReasonLoopExhausted)"

definition finish_loop ::
  "int smap \<Rightarrow> string \<Rightarrow> group \<Rightarrow> (int \<times> step_line list \<times> loop_rollup list) list \<Rightarrow> loop_rollup" where
  "finish_loop bounds loop g its =
     (let bd = fold (\<lambda>i b. if b < i then i else b) (map fst its) (get_or 0 bounds loop);
          ex = (case gr_sel g of None \<Rightarrow> False | Some l \<Rightarrow> sel_exhausted_line l);
          ch = (case gr_sel g of None \<Rightarrow> [] | Some l \<Rightarrow> sl_chose l)
      in case fold fold_iteration its (LoopRollup loop bd 0 [] ch ex [] (0, 0) [] (0, 0)) of
           LoopRollup lo b rn st c e is nr an ab \<Rightarrow>
             LoopRollup lo b rn (loop_status (LoopRollup lo b rn st c e is nr an ab)) c e is nr an ab)"

subsection \<open>The recursion\<close>

definition iter_scope :: "string \<Rightarrow> int \<Rightarrow> string" where
  "iter_scope loop i = loop @ ''@'' @ itoa i @ ''/''"

text \<open>The lines of a group stand under the loop in the scope they were grouped in.\<close>

definition grouped :: "string \<Rightarrow> step_line list \<Rightarrow> (string \<times> group) list \<Rightarrow> bool" where
  "grouped scope ls gs \<longleftrightarrow> (\<forall>loop g i xs. (loop, g) \<in> set gs \<longrightarrow> (i, xs) \<in> set (gr_iters g) \<longrightarrow>
     xs \<noteq> [] \<and> (\<forall>l \<in> set xs. l \<in> set ls \<and> loop_of (sl_id l) scope = Some (loop, i)))"

lemma update_set: "p \<in> set (AList.update k v m) \<Longrightarrow> p = (k, v) \<or> p \<in> set m"
  by (induction m) (auto split: if_splits)

lemma group_at_cases: "group_at gs loop = empty_group \<or> (loop, group_at gs loop) \<in> set gs"
  by (auto simp: group_at_def split: option.split dest: map_of_SomeD)

lemma iter_at_cases: "iter_at g i = [] \<or> (i, iter_at g i) \<in> set (gr_iters g)"
  by (auto simp: iter_at_def split: option.split dest: map_of_SomeD)

lemma grouped_add:
  assumes "grouped scope ls gs" and "l \<in> set ls" and "loop_of (sl_id l) scope = Some (loop, i)"
  shows "grouped scope ls (add_iter loop i l gs)"
  unfolding grouped_def
proof (intro allI impI)
  fix lo g j xs assume a: "(lo, g) \<in> set (add_iter loop i l gs)" "(j, xs) \<in> set (gr_iters g)"
  let ?g = "group_at gs loop"
  have old: "\<forall>x \<in> set (iter_at ?g i). x \<in> set ls \<and> loop_of (sl_id x) scope = Some (loop, i)"
  proof (cases "iter_at ?g i = []")
    case False
    then have m: "(i, iter_at ?g i) \<in> set (gr_iters ?g)" using iter_at_cases by blast
    then have "(loop, ?g) \<in> set gs" using group_at_cases [of gs loop] by (auto simp: empty_group_def)
    with m show ?thesis using assms(1) unfolding grouped_def by blast
  qed simp
  from update_set [OF a(1) [unfolded add_iter_def Let_def]]
  show "xs \<noteq> [] \<and> (\<forall>x \<in> set xs. x \<in> set ls \<and> loop_of (sl_id x) scope = Some (lo, j))"
  proof
    assume e: "(lo, g) = (loop, ?g\<lparr>gr_iters := AList.update i (iter_at ?g i @ [l]) (gr_iters ?g)\<rparr>)"
    with a(2) have "(j, xs) = (i, iter_at ?g i @ [l]) \<or> (j, xs) \<in> set (gr_iters ?g)" using update_set by fastforce
    then show ?thesis
    proof
      assume "(j, xs) = (i, iter_at ?g i @ [l])"
      with old assms e show ?thesis by auto
    next
      assume x: "(j, xs) \<in> set (gr_iters ?g)"
      then have "(loop, ?g) \<in> set gs" using group_at_cases [of gs loop] by (auto simp: empty_group_def)
      with x assms(1) e show ?thesis unfolding grouped_def by blast
    qed
  next
    assume "(lo, g) \<in> set gs"
    with a(2) assms(1) show ?thesis unfolding grouped_def by blast
  qed
qed

lemma grouped_sel:
  assumes "grouped scope ls gs"
  shows "grouped scope ls (set_sel loop l gs)"
  unfolding grouped_def
proof (intro allI impI)
  fix lo g j xs assume a: "(lo, g) \<in> set (set_sel loop l gs)" "(j, xs) \<in> set (gr_iters g)"
  from update_set [OF a(1) [unfolded set_sel_def]]
  show "xs \<noteq> [] \<and> (\<forall>x \<in> set xs. x \<in> set ls \<and> loop_of (sl_id x) scope = Some (lo, j))"
  proof
    assume e: "(lo, g) = (loop, (group_at gs loop)\<lparr>gr_sel := Some l\<rparr>)"
    with a(2) have x: "(j, xs) \<in> set (gr_iters (group_at gs loop))" by simp
    then have "(loop, group_at gs loop) \<in> set gs" using group_at_cases [of gs loop] by (auto simp: empty_group_def)
    with x assms e show ?thesis unfolding grouped_def by blast
  next
    assume "(lo, g) \<in> set gs"
    with a(2) assms show ?thesis unfolding grouped_def by blast
  qed
qed

lemma group_line_ok:
  "grouped scope ls (snd st) \<Longrightarrow> l \<in> set ls \<Longrightarrow> grouped scope ls (snd (group_line sels scope l st))"
  by (auto simp: group_line_def Let_def grouped_add grouped_sel split: option.split)

lemma group_lines_ok: "grouped scope ls (snd (group_lines sels scope ls))"
proof -
  have "grouped scope ls (snd (fold (group_line sels scope) xs st))" if "set xs \<subseteq> set ls" "grouped scope ls (snd st)" for xs st
    using that by (induction xs arbitrary: st) (auto simp: group_line_ok)
  from this [of ls "([], [])"] show ?thesis unfolding group_lines_def by (simp add: grouped_def)
qed

definition id_bound :: "step_line list \<Rightarrow> nat" where
  "id_bound ls = fold max (map (\<lambda>l. length (sl_id l)) ls) 0"

lemma fold_max_ge: "(m :: nat) \<le> fold max xs m \<and> (\<forall>x \<in> set xs. x \<le> fold max xs m)"
proof (induction xs arbitrary: m)
  case (Cons x xs)
  have "max x m \<le> fold max xs (max x m)" "\<forall>y \<in> set xs. y \<le> fold max xs (max x m)" using Cons [of "max x m"] by blast+
  then show ?case by simp
qed simp

lemma fold_max_le: "(\<forall>x \<in> set xs. x \<le> b) \<Longrightarrow> m \<le> b \<Longrightarrow> fold max xs m \<le> (b :: nat)"
  by (induction xs arbitrary: m) auto

lemma id_bound_ge: "l \<in> set ls \<Longrightarrow> length (sl_id l) \<le> id_bound ls"
  unfolding id_bound_def using fold_max_ge by fastforce

lemma id_bound_mono: "set xs \<subseteq> set ls \<Longrightarrow> id_bound xs \<le> id_bound ls"
  unfolding id_bound_def by (rule fold_max_le) (use id_bound_ge in \<open>auto simp: id_bound_def\<close>)

lemma loop_of_longer: "loop_of i scope = Some (loop, k) \<Longrightarrow> length scope \<le> length i \<and> length scope \<le> length loop"
  by (auto simp: loop_of_def has_prefix_def split: if_splits dest: arg_cong [of "take _ _" _ length])

lemma inner_smaller:
  assumes "(loop, g) \<in> set (snd (group_lines sels scope ls))" and "(i, xs) \<in> set (gr_iters g)"
  shows "Suc (id_bound xs) - length (iter_scope loop i) < Suc (id_bound ls) - length scope"
proof -
  have "xs \<noteq> []" and x: "\<forall>l \<in> set xs. l \<in> set ls \<and> loop_of (sl_id l) scope = Some (loop, i)"
    using group_lines_ok [of scope ls sels] assms unfolding grouped_def by blast+
  then obtain l where "l \<in> set ls" "loop_of (sl_id l) scope = Some (loop, i)" by (cases xs) auto
  with loop_of_longer have "length scope \<le> id_bound ls" "length scope < length (iter_scope loop i)"
    using id_bound_ge [of l ls] by (fastforce simp: iter_scope_def)+
  moreover have "id_bound xs \<le> id_bound ls" using x by (intro id_bound_mono) auto
  ultimately show ?thesis by linarith
qed

definition sorted_iters :: "group \<Rightarrow> (int \<times> step_line list) list" where
  "sorted_iters g = sort_key fst (gr_iters g)"

function rollup_loops ::
  "int smap \<Rightarrow> string smap \<Rightarrow> string \<Rightarrow> step_line list \<Rightarrow> step_line list \<times> loop_rollup list" where
  "rollup_loops bounds sels scope ls =
     (let r = group_lines sels scope ls
      in (fst r, map (\<lambda>(loop, g). finish_loop bounds loop g
            (map (\<lambda>(i, xs). (i, rollup_loops bounds sels (iter_scope loop i) xs)) (sorted_iters g))) (snd r)))"
  by pat_completeness auto
termination
  by (relation "measure (\<lambda>(bounds, sels, scope, ls). Suc (id_bound ls) - length scope)")
    (auto simp: sorted_iters_def intro!: inner_smaller)

declare rollup_loops.simps [simp del]

subsection \<open>Dependency order\<close>

text \<open>The readiness dependencies of a graph, in the order of the walk, and the ids it mentions.\<close>

function topo_pairs :: "ir \<Rightarrow> (string \<times> string) list" where
  "topo_pairs g =
     concat (map (\<lambda>n. (case n_when n of None \<Rightarrow> [] | Some c \<Rightarrow> map (\<lambda>d. (d, n_id n)) (c_deps c)) @
       (case n_sub n of None \<Rightarrow> [] | Some h \<Rightarrow> topo_pairs h)) (ir_nodes g)) @
     map (\<lambda>e. (e_from e, e_to e)) (ir_edges g)"
  by pat_completeness auto
termination by (relation "measure size") (auto simp: termination_simp)

declare topo_pairs.simps [simp del]

definition topo_ids :: "ir \<Rightarrow> string list" where
  "topo_ids g = remdups (deep_ids g @ concat (map (\<lambda>(a, b). [a, b]) (topo_pairs g)))"

definition pair_indeg :: "(string \<times> string) list \<Rightarrow> string list \<Rightarrow> int smap" where
  "pair_indeg ps ids = map (\<lambda>i. (i, int (length (filter (\<lambda>p. snd p = i) ps)))) ids"

definition pair_succ :: "(string \<times> string) list \<Rightarrow> string \<Rightarrow> string list" where
  "pair_succ ps i = map snd (filter (\<lambda>p. fst p = i) ps)"

fun lower_succs :: "string list \<Rightarrow> int smap \<Rightarrow> string list \<Rightarrow> int smap \<times> string list" where
  "lower_succs [] deg ready = (deg, ready)"
| "lower_succs (s # ss) deg ready =
     (let d = get_or 0 deg s - 1
      in lower_succs ss (put s d deg) (if d = 0 then sort (ready @ [s]) else ready))"

definition waiting_count :: "int smap \<Rightarrow> nat" where
  "waiting_count deg = length (filter (\<lambda>p. 0 < snd p) deg)"

lemma waiting_put:
  "waiting_count (put s (get_or 0 deg s - 1) deg) + (if get_or 0 deg s - 1 = 0 then 1 else 0) \<le> waiting_count deg"
  by (induction deg) (auto simp: waiting_count_def get_or_def split: if_splits option.splits)

lemma lower_succs_measure:
  "length (snd (lower_succs ss deg ready)) + waiting_count (fst (lower_succs ss deg ready)) \<le> length ready + waiting_count deg"
proof (induction ss arbitrary: deg ready)
  case (Cons s ss)
  let ?d = "get_or 0 deg s - 1"
  show ?case
    using Cons [of "put s ?d deg" "if ?d = 0 then sort (ready @ [s]) else ready"] waiting_put [of s deg]
    by (auto simp: Let_def split: if_splits)
qed simp

function topo_loop :: "(string \<times> string) list \<Rightarrow> string list \<Rightarrow> int smap \<Rightarrow> string list" where
  "topo_loop ps [] deg = []"
| "topo_loop ps (i # ready) deg =
     (let r = lower_succs (pair_succ ps i) deg ready in i # topo_loop ps (snd r) (fst r))"
  by pat_completeness auto
termination
proof (relation "measure (\<lambda>(ps, ready, deg). length ready + waiting_count deg)", goal_cases)
  case (2 ps i ready deg r)
  then show ?case using lower_succs_measure [of "pair_succ ps i" deg ready] by simp
qed simp

definition topo_extras :: "string list \<Rightarrow> string list \<Rightarrow> string list" where
  "topo_extras order extra = order @ sort (remdups (filter (\<lambda>i. i \<notin> set order) extra))"

definition topo_order :: "ir option \<Rightarrow> string list \<Rightarrow> string list" where
  "topo_order g extra =
     (case g of None \<Rightarrow> topo_extras [] extra
      | Some h \<Rightarrow>
          (let ps = topo_pairs h; ids = topo_ids h; deg = pair_indeg ps ids;
               ready = sort (filter (\<lambda>i. get_or 0 deg i = 0) ids)
           in topo_extras (topo_loop ps ready deg) extra))"

definition instance_order :: "ir \<Rightarrow> string \<Rightarrow> string list \<Rightarrow> string list" where
  "instance_order tgt scope ids =
     topo_extras (map (\<lambda>i. scope @ trim_prefix (ir_workflow tgt @ ''/'') i) (topo_order (Some tgt) [])) ids"

definition instance_bounds :: "ir \<Rightarrow> string \<Rightarrow> int smap \<Rightarrow> int smap" where
  "instance_bounds tgt scope base =
     fold (\<lambda>p m. put (scope @ trim_prefix (ir_workflow tgt @ ''/'') (fst p)) (snd p) m) (loop_bounds tgt) base"

end
