(* ===== verification/Report.thy ===== *)
theory Report
  imports Rollup Replay
begin

text \<open>
  The run report (\<open>pipeline/report.go\<close>): the journal replay joined with the graph. Ranges over Go maps
  whose order cannot be seen in the result are taken in key order. Durations are printed as
  \<open>time.Duration.String\<close> prints them. The encoding to JSON and the human text are left out.
\<close>

subsection \<open>Durations\<close>

fun pad_digits :: "nat \<Rightarrow> nat \<Rightarrow> string" where
  "pad_digits 0 n = []"
| "pad_digits (Suc w) n = pad_digits w (n div 10) @ show_nat (n mod 10)"

definition trim_zeros :: "string \<Rightarrow> string" where
  "trim_zeros s = rev (dropWhile (\<lambda>c. c = CHR ''0'') (rev s))"

definition frac_string :: "nat \<Rightarrow> nat \<Rightarrow> string" where
  "frac_string w n = (let f = trim_zeros (pad_digits w n) in if f = [] then [] else ''.'' @ f)"

definition duration_string :: "duration \<Rightarrow> string" where
  "duration_string d =
     (let u = nat \<bar>d\<bar>; neg = (if d < 0 then ''-'' else []) in
      if u = 0 then ''0s''
      else if u < 1000 then neg @ show_nat u @ ''ns''
      else if u < 1000000 then neg @ show_nat (u div 1000) @ frac_string 3 (u mod 1000) @ [CHR 0xC2, CHR 0xB5] @ ''s''
      else if u < 1000000000 then neg @ show_nat (u div 1000000) @ frac_string 6 (u mod 1000000) @ ''ms''
      else (let secs = u div 1000000000; h = secs div 3600; m = secs div 60 mod 60;
                tail = show_nat (secs mod 60) @ frac_string 9 (u mod 1000000000) @ ''s''
            in neg @ (if secs < 60 then tail
               else if secs < 3600 then show_nat m @ ''m'' @ tail
               else show_nat h @ ''h'' @ show_nat m @ ''m'' @ tail)))"

subsection \<open>The report\<close>

record totals =
  to_ok :: int
  to_failed :: int
  to_halted :: int
  to_skipped_condition :: int
  to_skipped_dependency :: int
  to_skipped_halt :: int
  to_absent :: int

record run_header =
  rh_run_id :: string
  rh_name :: string
  rh_workflow :: string
  rh_config_hash :: string
  rh_ir_hash :: string
  rh_params :: "string smap"
  rh_totals :: totals
  rh_wall :: string
  rh_journal :: string
  rh_paused :: bool

datatype read_item = ReadLine step_line | ReadLoop loop_rollup

record gen_item =
  gi_id :: string
  gi_status :: string
  gi_duration :: string
  gi_ok :: int
  gi_failed :: int
  gi_halted :: int
  gi_skipped :: int
  gi_steps :: "step_line list"
  gi_loops :: "loop_rollup list"
  gi_items :: "read_item list"

record gen_rollup =
  gn_node :: string
  gn_summary :: string
  gn_items :: "gen_item list"

record run_report =
  rt_run :: run_header
  rt_steps :: "step_line list"
  rt_generate :: "gen_rollup list"
  rt_loops :: "loop_rollup list"
  rt_items :: "read_item list"
  rt_sels :: "string smap"
  rt_scope :: string

definition no_totals :: totals where
  "no_totals = \<lparr>to_ok = 0, to_failed = 0, to_halted = 0, to_skipped_condition = 0, to_skipped_dependency = 0,
     to_skipped_halt = 0, to_absent = 0\<rparr>"

definition tally :: "string \<Rightarrow> totals \<Rightarrow> totals" where
  "tally st t =
     (if st = StateOK then t\<lparr>to_ok := to_ok t + 1\<rparr>
      else if st = StateFailed then t\<lparr>to_failed := to_failed t + 1\<rparr>
      else if st = StateHalted then t\<lparr>to_halted := to_halted t + 1\<rparr>
      else if st = StateSkippedCondition then t\<lparr>to_skipped_condition := to_skipped_condition t + 1\<rparr>
      else if st = StateSkippedDependency then t\<lparr>to_skipped_dependency := to_skipped_dependency t + 1\<rparr>
      else if st = StateSkippedHalt then t\<lparr>to_skipped_halt := to_skipped_halt t + 1\<rparr>
      else t\<lparr>to_absent := to_absent t + 1\<rparr>)"

subsection \<open>Lines\<close>

fun decode_annotations :: "attempt_info list \<Rightarrow> int \<times> duration \<times> bool \<times> int \<Rightarrow> int \<times> duration \<times> bool \<times> int" where
  "decode_annotations [] acc = acc"
| "decode_annotations (a # as) (deferred, df, cached, real) =
     decode_annotations as
       (if \<not> is_annotation a then (deferred, df, cached, real + 1)
        else case ai_error a of
            None \<Rightarrow> (deferred, df, cached, real)
          | Some e \<Rightarrow> if er_reason e = ReasonDeferred then (deferred + 1, df + timing_duration (ai_timing a), cached, real)
                      else if er_reason e = ReasonCached then (deferred, df, True, real)
                      else (deferred, df, cached, real))"

definition is_skip_record :: "result_record \<Rightarrow> string \<Rightarrow> bool" where
  "is_skip_record r reason \<longleftrightarrow> rr_hash r = [] \<and>
     (case r_error (rr_result r) of None \<Rightarrow> False | Some e \<Rightarrow> er_reason e = reason)"

definition blank_line :: "string \<Rightarrow> string \<Rightarrow> step_line" where
  "blank_line i st = \<lparr>sl_id = i, sl_status = st, sl_cached = False, sl_agent_skipped = False, sl_check = False,
     sl_duration = [], sl_attempts = 0, sl_deferred = 0, sl_deferred_for = [], sl_outputs = [], sl_error = None,
     sl_halt = None, sl_ancestor = [], sl_chose = []\<rparr>"

definition line_outputs :: "(string \<Rightarrow> f64 option) \<Rightarrow> string option \<Rightarrow> goval smap" where
  "line_outputs pf p =
     (case p of None \<Rightarrow> [] | Some s \<Rightarrow> (case json_unmarshal pf s of Some (VMap m) \<Rightarrow> m | _ \<Rightarrow> []))"

definition error_detail :: "result \<Rightarrow> string" where
  "error_detail res = (case r_error res of None \<Rightarrow> [] | Some e \<Rightarrow> er_detail e)"

definition line_from_record :: "(string \<Rightarrow> f64 option) \<Rightarrow> string \<Rightarrow> result_record \<Rightarrow> step_line" where
  "line_from_record pf i r =
     (let res = rr_result r; (deferred, df, cached, real) = decode_annotations (r_attempts res) (0, 0, False, 0);
          (s, f) = record_span res;
          l = (blank_line i [])\<lparr>sl_cached := cached, sl_agent_skipped := r_agent_skipped res, sl_check := r_check res,
             sl_deferred := deferred, sl_deferred_for := (if 0 < df then duration_string df else []),
             sl_duration := (if s \<noteq> 0 \<and> s < f then duration_string (f - s) else [])\<rparr>
      in if r_status res = StatusOK
         then l\<lparr>sl_status := StateOK, sl_attempts := r_attempt res, sl_outputs := line_outputs pf (r_payload res)\<rparr>
         else if r_status res = StatusHalted
         then l\<lparr>sl_status := StateHalted, sl_attempts := r_attempt res, sl_halt := r_halt res\<rparr>
         else if is_skip_record r StateSkippedCondition
         then l\<lparr>sl_status := StateSkippedCondition, sl_duration := []\<rparr>
         else if is_skip_record r StateSkippedDependency
         then l\<lparr>sl_status := StateSkippedDependency, sl_ancestor := error_detail res, sl_duration := []\<rparr>
         else if is_skip_record r StateSkippedHalt
         then l\<lparr>sl_status := StateSkippedHalt, sl_ancestor := error_detail res, sl_duration := []\<rparr>
         else l\<lparr>sl_status := StateFailed, sl_attempts := r_attempt res, sl_error := r_error res\<rparr>)"

definition choose_candidate :: "sel_spec option \<Rightarrow> replay \<Rightarrow> string" where
  "choose_candidate sel rp =
     (case sel of None \<Rightarrow> []
      | Some s \<Rightarrow>
          (case List.find (\<lambda>c. case map_of (rp_last rp) c of None \<Rightarrow> False
                 | Some r \<Rightarrow> r_status (rr_result r) = StatusOK) (sel_candidates s) of
             None \<Rightarrow> [] | Some c \<Rightarrow> c))"

subsection \<open>Nodes and instances\<close>

definition node_info :: "node \<Rightarrow> ir_info" where
  "node_info n = \<lparr>ii_kind = n_kind n, ii_sel = n_sel n,
     ii_target = (case n_gen n of None \<Rightarrow> [] | Some g \<Rightarrow> gs_workflow g)\<rparr>"

function collect_ir_nodes :: "ir \<Rightarrow> (string \<times> ir_info) list" where
  "collect_ir_nodes g =
     concat (map (\<lambda>n. (n_id n, node_info n) # (case n_sub n of None \<Rightarrow> [] | Some h \<Rightarrow> collect_ir_nodes h)) (ir_nodes g))"
  by pat_completeness auto
termination by (relation "measure size") (auto simp: termination_simp)

declare collect_ir_nodes.simps [simp del]

text \<open>The map the walk fills: the last node of an id wins.\<close>

definition ir_nodes_map :: "ir option \<Rightarrow> ir_info smap" where
  "ir_nodes_map g = (case g of None \<Rightarrow> [] | Some h \<Rightarrow> fold (\<lambda>p m. put (fst p) (snd p) m) (collect_ir_nodes h) [])"

definition gen_ids :: "ir_info smap \<Rightarrow> string list" where
  "gen_ids nodes = filter (\<lambda>i. case map_of nodes i of None \<Rightarrow> False | Some x \<Rightarrow> ii_kind x = KindGenerate) (sorted_keys nodes)"

fun index_str :: "string \<Rightarrow> string \<Rightarrow> nat option" where
  "index_str p [] = (if p = [] then Some 0 else None)"
| "index_str p (x # xs) = (if has_prefix p (x # xs) then Some 0 else map_option Suc (index_str p xs))"

fun instance_of :: "string \<Rightarrow> string list \<Rightarrow> (string \<times> string) option" where
  "instance_of i [] = None"
| "instance_of i (g # gs) =
     (if \<not> has_prefix (g @ ''['') i then instance_of i gs
      else let rest = drop (length g + 1) i in
        (case index_str '']/'' rest of None \<Rightarrow> instance_of i gs | Some e \<Rightarrow> Some (g, take e rest)))"

text \<open>Where a journaled id belongs: to the graph, to an instance of a generate, or nowhere (a stray,
  reported like a node).\<close>

definition instance_key :: "ir_info smap \<Rightarrow> string \<Rightarrow> (string \<times> string) option" where
  "instance_key nodes i = (if map_of nodes i \<noteq> None then None else instance_of i (gen_ids nodes))"

definition top_ids :: "ir_info smap \<Rightarrow> replay \<Rightarrow> string list" where
  "top_ids nodes rp = sort (remdups (map fst nodes @ filter (\<lambda>i. instance_key nodes i = None) (map fst (rp_last rp))))"

definition inst_ids :: "ir_info smap \<Rightarrow> replay \<Rightarrow> string \<times> string \<Rightarrow> string list" where
  "inst_ids nodes rp k = filter (\<lambda>i. instance_key nodes i = Some k) (sorted_keys (rp_last rp))"

definition item_ids :: "ir_info smap \<Rightarrow> replay \<Rightarrow> string \<Rightarrow> string list" where
  "item_ids nodes rp gen = sort (remdups (concat (map (\<lambda>i. case instance_key nodes i of
       None \<Rightarrow> [] | Some (g, item) \<Rightarrow> if g = gen then [item] else []) (map fst (rp_last rp)))))"

definition top_line :: "(string \<Rightarrow> f64 option) \<Rightarrow> ir_info smap \<Rightarrow> replay \<Rightarrow> string \<Rightarrow> step_line" where
  "top_line pf nodes rp i =
     (let l = (case map_of (rp_last rp) i of None \<Rightarrow> blank_line i StateAbsent | Some r \<Rightarrow> line_from_record pf i r)
      in case map_of nodes i of
           None \<Rightarrow> l
         | Some info \<Rightarrow> if ii_kind info = KindSelector \<and> sl_status l = StateOK
             then l\<lparr>sl_chose := choose_candidate (ii_sel info) rp\<rparr> else l)"

subsection \<open>Reading order\<close>

definition lines_in :: "step_line list \<Rightarrow> string list \<Rightarrow> step_line list" where
  "lines_in ls order =
     concat (map (\<lambda>i. case filter (\<lambda>l. sl_id l = i) ls of [] \<Rightarrow> [] | xs \<Rightarrow> [last xs]) order)"

definition in_loop :: "string smap \<Rightarrow> string \<Rightarrow> loop_rollup \<Rightarrow> step_line \<Rightarrow> bool" where
  "in_loop sels scope lp l \<longleftrightarrow>
     (case loop_of (sl_id l) scope of Some (lo, i) \<Rightarrow> lo = lr_loop lp | None \<Rightarrow> False) \<or>
     get_or [] sels (sl_id l) = lr_loop lp"

fun loop_marks :: "string smap \<Rightarrow> string \<Rightarrow> step_line list \<Rightarrow> nat \<Rightarrow> loop_rollup list \<Rightarrow> (string \<times> nat) list \<Rightarrow> (string \<times> nat) list" where
  "loop_marks sels scope ls i [] m = m"
| "loop_marks sels scope ls i (lp # lps) m =
     loop_marks sels scope ls (Suc i) lps
       (case List.find (in_loop sels scope lp) ls of None \<Rightarrow> m | Some l \<Rightarrow> put (sl_id l) i m)"

fun place_items ::
  "string set \<Rightarrow> loop_rollup list \<Rightarrow> (string \<times> nat) list \<Rightarrow> nat set \<Rightarrow> step_line list \<Rightarrow> read_item list" where
  "place_items plain loops marks placed [] = []"
| "place_items plain loops marks placed (l # ls) =
     (if sl_id l \<in> plain then ReadLine l # place_items plain loops marks placed ls
      else case map_of marks (sl_id l) of
          Some i \<Rightarrow>
            if i \<notin> placed then ReadLoop (loops ! i) # place_items plain loops marks (insert i placed) ls
            else place_items plain loops marks placed ls
        | None \<Rightarrow> place_items plain loops marks placed ls)"

definition order_and_rollup ::
  "step_line list \<Rightarrow> string list \<Rightarrow> string \<Rightarrow> int smap \<Rightarrow> string smap \<Rightarrow> read_item list \<times> loop_rollup list" where
  "order_and_rollup ls order scope bounds sels =
     (let ordered = lines_in ls order; r = rollup_loops bounds sels scope ordered;
          marks = loop_marks sels scope ordered 0 (snd r) []
      in (place_items (set (map sl_id (fst r))) (snd r) marks {} ordered, snd r))"

text \<open>The selectors of an instance, recognized by shape; the first id that fits, in id order.\<close>

definition has_suffix :: "string \<Rightarrow> string \<Rightarrow> bool" where
  "has_suffix p s \<longleftrightarrow> length p \<le> length s \<and> drop (length s - length p) s = p"

definition last_segment :: "string \<Rightarrow> string" where
  "last_segment s = rev (takeWhile (\<lambda>c. c \<noteq> CHR ''/'') (rev s))"

definition selector_of_line :: "string list \<Rightarrow> string \<Rightarrow> step_line \<Rightarrow> (string \<times> string) option" where
  "selector_of_line ids scope l =
     (if loop_of (sl_id l) scope \<noteq> None then None
      else let rel = trim_prefix scope (sl_id l); step = last_segment rel;
               parent = scope @ take (length rel - length step) rel;
               fits = (\<lambda>i. if has_prefix parent i \<and> has_suffix (''/'' @ step) i then
                   (case loop_of i parent of
                      Some (loop, k) \<Rightarrow> if k = 1 \<and> i = loop @ ''@1/'' @ step then Some loop else None
                    | None \<Rightarrow> None) else None)
           in case filter (\<lambda>i. fits i \<noteq> None) ids of
                [] \<Rightarrow> None
              | i # is' \<Rightarrow> map_option (Pair (sl_id l)) (fits i))"

definition instance_selectors :: "step_line list \<Rightarrow> string \<Rightarrow> string smap" where
  "instance_selectors ls scope =
     fold (\<lambda>l m. case selector_of_line (sort (remdups (map sl_id ls))) scope l of
         None \<Rightarrow> m | Some (i, loop) \<Rightarrow> put i loop m) ls []"

subsection \<open>Generate rollups\<close>

definition count_status :: "string \<Rightarrow> step_line list \<Rightarrow> int" where
  "count_status st ls = int (length (filter (\<lambda>l. sl_status l = st) ls))"

definition item_status :: "step_line list \<Rightarrow> string" where
  "item_status ls =
     (if 0 < count_status StateFailed ls then StateFailed
      else if 0 < count_status StateHalted ls then StateHalted
      else if 0 < count_status StateSkippedHalt ls \<and> count_status StateSkippedDependency ls = 0 then StateSkippedHalt
      else if 0 < count_status StateSkippedDependency ls then StateSkippedDependency
      else StateOK)"

definition span_of :: "result list \<Rightarrow> time \<times> time" where
  "span_of rs =
     fold (\<lambda>r (start, finish).
         (if fst (record_span r) \<noteq> 0 \<and> (start = 0 \<or> fst (record_span r) < start) then fst (record_span r) else start,
          if finish < snd (record_span r) then snd (record_span r) else finish)) rs (0, 0)"

definition gen_item_of ::
  "(string \<Rightarrow> f64 option) \<Rightarrow> ir smap \<Rightarrow> ir_info smap \<Rightarrow> replay \<Rightarrow> int smap \<Rightarrow> string \<Rightarrow> string \<Rightarrow> gen_item" where
  "gen_item_of pf targets nodes rp bounds gen item =
     (let ids = inst_ids nodes rp (gen, item);
          recs = concat (map (\<lambda>i. case map_of (rp_last rp) i of None \<Rightarrow> [] | Some r \<Rightarrow> [(i, r)]) ids);
          ls = map (\<lambda>(i, r). line_from_record pf i r) recs;
          (start, finish) = span_of (map (\<lambda>p. rr_result (snd p)) recs);
          scope = gen @ ''['' @ item @ '']/'';
          tgt = (case map_of nodes gen of None \<Rightarrow> None | Some x \<Rightarrow> map_of targets (ii_target x));
          order = (case tgt of None \<Rightarrow> map sl_id ls | Some t \<Rightarrow> instance_order t scope (map sl_id ls));
          ibounds = (case tgt of None \<Rightarrow> bounds | Some t \<Rightarrow> instance_bounds t scope bounds);
          (items, loops) = order_and_rollup ls order scope ibounds (instance_selectors ls scope)
      in \<lparr>gi_id = item, gi_status = item_status ls,
          gi_duration = (if start \<noteq> 0 \<and> start < finish then duration_string (finish - start) else []),
          gi_ok = count_status StateOK ls, gi_failed = count_status StateFailed ls, gi_halted = count_status StateHalted ls,
          gi_skipped = int (length ls) - count_status StateOK ls - count_status StateFailed ls - count_status StateHalted ls,
          gi_steps = ls, gi_loops = loops, gi_items = items\<rparr>)"

definition gen_summary :: "gen_item list \<Rightarrow> string" where
  "gen_summary items =
     (let n = (\<lambda>st. length (filter (\<lambda>it. gi_status it = st) items));
          rest = length items - n StateOK - n StateFailed - n StateHalted - n StateSkippedCondition;
          part = (\<lambda>k w. if 0 < k then [show_nat k @ w] else [])
      in show_nat (length items) @ '' items: '' @
         join '', '' ([show_nat (n StateOK) @ '' ok''] @ part (n StateFailed) '' failed'' @ part (n StateHalted) '' halted'' @
           part (n StateSkippedCondition) '' not needed'' @ part rest '' not reached''))"

definition gen_rollup_of ::
  "(string \<Rightarrow> f64 option) \<Rightarrow> ir smap \<Rightarrow> ir_info smap \<Rightarrow> replay \<Rightarrow> int smap \<Rightarrow> string \<Rightarrow> gen_rollup" where
  "gen_rollup_of pf targets nodes rp bounds gen =
     (let items = map (gen_item_of pf targets nodes rp bounds gen) (item_ids nodes rp gen)
      in \<lparr>gn_node = gen, gn_summary = gen_summary items, gn_items = items\<rparr>)"

subsection \<open>The whole\<close>

definition wall_clock :: "replay \<Rightarrow> string" where
  "wall_clock rp =
     (let started = hd_started (rp_header rp);
          last_finish = fold (\<lambda>p f. if f < snd (record_span (rr_result (snd p))) then snd (record_span (rr_result (snd p))) else f)
            (rp_last rp) 0
      in if started \<noteq> 0 \<and> started < last_finish then duration_string (last_finish - started) else [])"

definition item_sels :: "gen_item \<Rightarrow> string \<Rightarrow> string smap" where
  "item_sels it gen = instance_selectors (gi_steps it) (gen @ ''['' @ gi_id it @ '']/'')"

definition report_lines :: "run_report \<Rightarrow> step_line list" where
  "report_lines r = rt_steps r @ concat (map (\<lambda>g. concat (map gi_steps (gn_items g))) (rt_generate r))"

definition run_report_of ::
  "(string \<Rightarrow> f64 option) \<Rightarrow> ir smap \<Rightarrow> replay option \<Rightarrow> ir option \<Rightarrow> string \<Rightarrow> string + run_report" where
  "run_report_of pf targets rpo g journal =
     (case rpo of
        None \<Rightarrow> Inl ''pipeline: report: nil journal replay''
      | Some rp \<Rightarrow>
          (let nodes = ir_nodes_map g; h = rp_header rp;
               steps = map (top_line pf nodes rp) (top_ids nodes rp);
               bounds = (case g of None \<Rightarrow> [] | Some x \<Rightarrow> loop_bounds x);
               scope = (case g of None \<Rightarrow> [] | Some x \<Rightarrow> if ir_workflow x \<noteq> [] then ir_workflow x @ ''/'' else []);
               sels = selector_loops nodes;
               (items, loops) = order_and_rollup steps (topo_order g (top_ids nodes rp)) scope bounds sels;
               gens = map (gen_rollup_of pf targets nodes rp bounds) (gen_ids nodes);
               inst_sels = concat (map (\<lambda>gr. concat (map (\<lambda>it. item_sels it (gn_node gr)) (gn_items gr))) gens);
               all_lines = steps @ concat (map (\<lambda>gr. concat (map gi_steps (gn_items gr))) gens)
           in Inr \<lparr>rt_run = \<lparr>rh_run_id = hd_run_id h, rh_name = hd_name h, rh_workflow = hd_workflow h,
                   rh_config_hash = hd_config_hash h, rh_ir_hash = hd_ir_hash h, rh_params = hd_params h,
                   rh_totals = fold tally (map sl_status all_lines) no_totals, rh_wall = wall_clock rp,
                   rh_journal = journal,
                   rh_paused = (case rp_end rp of None \<Rightarrow> False | Some e \<Rightarrow> re_status e = RunEndPaused)\<rparr>,
                 rt_steps = steps, rt_generate = gens, rt_loops = loops, rt_items = items,
                 rt_sels = fold (\<lambda>p m. put (fst p) (snd p) m) inst_sels sels, rt_scope = scope\<rparr>))"

end
