(* ===== verification/ReportProps.thy ===== *)
theory ReportProps
  imports Report
begin

text \<open>Properties of the run report.\<close>

subsection \<open>Every step has its line\<close>

lemma line_id [simp]: "sl_id (line_from_record pf i r) = i"
  by (simp add: line_from_record_def blank_line_def Let_def split: prod.split)

lemma top_line_id [simp]: "sl_id (top_line pf nodes rp i) = i"
  by (auto simp: top_line_def blank_line_def Let_def split: option.split)

lemma instance_of_gen: "instance_of i gs = Some (g, item) \<Longrightarrow> g \<in> set gs"
  by (induction i gs rule: instance_of.induct) (auto simp: Let_def split: if_splits option.splits)

lemma record_lines:
  assumes "set ids \<subseteq> keys m"
  shows "map sl_id (map (\<lambda>(i, r). line_from_record pf i r)
    (concat (map (\<lambda>i. case map_of m i of None \<Rightarrow> [] | Some r \<Rightarrow> [(i, r)]) ids))) = ids"
  using assms by (induction ids) auto

lemma inst_ids_keys: "set (inst_ids nodes rp k) = {i \<in> keys (rp_last rp). instance_key nodes i = Some k}"
  by (auto simp: inst_ids_def dom_map_of_conv_image_fst)

lemma item_steps_ids: "map sl_id (gi_steps (gen_item_of pf targets nodes rp bounds gen item)) = inst_ids nodes rp (gen, item)"
  using record_lines [of "inst_ids nodes rp (gen, item)" "rp_last rp" pf] inst_ids_keys [of nodes rp "(gen, item)"]
  by (auto simp: gen_item_of_def Let_def split: prod.split)

lemma distinct_concat_map:
  assumes "distinct xs" and "\<And>x. x \<in> set xs \<Longrightarrow> distinct (f x)"
    and "\<And>x y. x \<in> set xs \<Longrightarrow> y \<in> set xs \<Longrightarrow> x \<noteq> y \<Longrightarrow> set (f x) \<inter> set (f y) = {}"
  shows "distinct (concat (map f xs))"
  using assms
proof (induction xs)
  case (Cons x xs)
  have "distinct (concat (map f xs))" by (rule Cons.IH) (use Cons.prems in auto)
  moreover have "set (f x) \<inter> set (f y) = {}" if "y \<in> set xs" for y using Cons.prems that by (metis distinct.simps(2) list.set_intros(1,2))
  ultimately show ?case using Cons.prems(2) [of x] by auto
qed simp

definition gen_line_ids :: "ir_info smap \<Rightarrow> replay \<Rightarrow> string \<Rightarrow> string list" where
  "gen_line_ids nodes rp gen = concat (map (\<lambda>item. inst_ids nodes rp (gen, item)) (item_ids nodes rp gen))"

lemma item_ids_set:
  "set (item_ids nodes rp gen) = {item. \<exists>i \<in> keys (rp_last rp). instance_key nodes i = Some (gen, item)}"
  by (force simp: item_ids_def dom_map_of_conv_image_fst split: option.splits if_splits)

lemma gen_line_ids_set:
  "set (gen_line_ids nodes rp gen) = {i \<in> keys (rp_last rp). \<exists>item. instance_key nodes i = Some (gen, item)}"
  using item_ids_set [of nodes rp gen] by (auto simp: gen_line_ids_def inst_ids_keys)

lemma distinct_item_ids [simp]: "distinct (item_ids nodes rp gen)"
  by (simp add: item_ids_def)

lemma distinct_gen_line_ids: "distinct (gen_line_ids nodes rp gen)"
  unfolding gen_line_ids_def
  by (rule distinct_concat_map) (auto simp: inst_ids_keys, simp add: inst_ids_def)

definition all_ids :: "ir_info smap \<Rightarrow> replay \<Rightarrow> string list" where
  "all_ids nodes rp = top_ids nodes rp @ concat (map (gen_line_ids nodes rp) (gen_ids nodes))"

lemma top_ids_set:
  "set (top_ids nodes rp) = keys nodes \<union> {i \<in> keys (rp_last rp). instance_key nodes i = None}"
  by (auto simp: top_ids_def dom_map_of_conv_image_fst)

lemma all_ids_set: "set (all_ids nodes rp) = keys nodes \<union> keys (rp_last rp)"
proof -
  have "i \<in> set (all_ids nodes rp)" if i: "i \<in> keys (rp_last rp)" for i
  proof (cases "instance_key nodes i")
    case None
    with i show ?thesis by (auto simp: all_ids_def top_ids_set)
  next
    case (Some k)
    obtain g item where k: "k = (g, item)" by (cases k)
    with Some have "instance_of i (gen_ids nodes) = Some (g, item)" by (simp add: instance_key_def split: if_splits)
    then have "g \<in> set (gen_ids nodes)" by (rule instance_of_gen)
    with i Some k show ?thesis by (auto simp: all_ids_def gen_line_ids_set)
  qed
  then show ?thesis by (auto simp: all_ids_def top_ids_set gen_line_ids_set)
qed

lemma distinct_all_ids: "distinct (all_ids nodes rp)"
proof -
  have "distinct (concat (map (gen_line_ids nodes rp) (gen_ids nodes)))"
    by (rule distinct_concat_map) (auto simp: distinct_gen_line_ids gen_line_ids_set, simp add: gen_ids_def)
  moreover have "set (top_ids nodes rp) \<inter> set (gen_line_ids nodes rp g) = {}" for g
    by (auto simp: top_ids_set gen_line_ids_set instance_key_def split: if_splits)
  ultimately show ?thesis by (auto simp: all_ids_def top_ids_def)
qed

lemma report_line_ids:
  assumes "run_report_of pf targets (Some rp) g j = Inr r"
  shows "map sl_id (report_lines r) = all_ids (ir_nodes_map g) rp \<and>
    rh_totals (rt_run r) = fold tally (map sl_status (report_lines r)) no_totals"
proof -
  let ?n = "ir_nodes_map g"
  have s: "rt_steps r = map (top_line pf ?n rp) (top_ids ?n rp)" and
    gn: "\<exists>b. rt_generate r = map (gen_rollup_of pf targets ?n rp b) (gen_ids ?n)" and
    t: "rh_totals (rt_run r) = fold tally (map sl_status (report_lines r)) no_totals"
    using assms by (auto simp: run_report_of_def Let_def report_lines_def split: prod.splits)
  from gn obtain b where b: "rt_generate r = map (gen_rollup_of pf targets ?n rp b) (gen_ids ?n)" by blast
  have "map sl_id (concat (map gi_steps (gn_items (gen_rollup_of pf targets ?n rp b x)))) = gen_line_ids ?n rp x" for x
    by (simp add: gen_rollup_of_def Let_def gen_line_ids_def map_concat comp_def item_steps_ids)
  then have "map sl_id (concat (map (\<lambda>g. concat (map gi_steps (gn_items g))) (rt_generate r))) =
      concat (map (gen_line_ids ?n rp) (gen_ids ?n))"
    by (simp add: b map_concat comp_def)
  moreover have "map sl_id (rt_steps r) = top_ids ?n rp" by (simp add: s comp_def)
  ultimately show ?thesis using t by (simp add: report_lines_def all_ids_def)
qed

subsection \<open>The totals\<close>

definition total_sum :: "totals \<Rightarrow> int" where
  "total_sum t = to_ok t + to_failed t + to_halted t + to_skipped_condition t + to_skipped_dependency t +
     to_skipped_halt t + to_absent t"

lemma tally_sum: "total_sum (fold tally sts t) = total_sum t + int (length sts)"
  by (induction sts arbitrary: t) (simp_all add: tally_def total_sum_def)

lemma tally_counts:
  "to_ok (fold tally sts t) = to_ok t + int (length (filter (\<lambda>s. s = StateOK) sts)) \<and>
   to_failed (fold tally sts t) = to_failed t + int (length (filter (\<lambda>s. s = StateFailed) sts)) \<and>
   to_halted (fold tally sts t) = to_halted t + int (length (filter (\<lambda>s. s = StateHalted) sts))"
  by (induction sts arbitrary: t) (simp_all add: tally_def)

text \<open>
  C34. The report accounts for everything once: its lines are those of all the nodes of the graph, nested
  graphs included, and of all the steps the journal has a record of, each exactly once, and the totals
  count these lines, the ok, failed and halted ones by their status.
\<close>
theorem report_accounts_for_everything:
  assumes "run_report_of pf targets (Some rp) g j = Inr r"
  shows "distinct (map sl_id (report_lines r)) \<and>
    set (map sl_id (report_lines r)) = keys (ir_nodes_map g) \<union> keys (rp_last rp) \<and>
    total_sum (rh_totals (rt_run r)) = int (length (report_lines r)) \<and>
    to_ok (rh_totals (rt_run r)) = count_status StateOK (report_lines r) \<and>
    to_failed (rh_totals (rt_run r)) = count_status StateFailed (report_lines r) \<and>
    to_halted (rh_totals (rt_run r)) = count_status StateHalted (report_lines r)"
proof -
  note l = report_line_ids [OF assms]
  have z: "total_sum no_totals = 0" "to_ok no_totals = 0" "to_failed no_totals = 0" "to_halted no_totals = 0"
    by (simp_all add: no_totals_def total_sum_def)
  have c: "length (filter (\<lambda>s. s = st) (map sl_status ls)) = length (filter (\<lambda>x. sl_status x = st) ls)" for st ls
    by (induction ls) simp_all
  have sum: "total_sum (rh_totals (rt_run r)) = int (length (report_lines r))"
    using tally_sum [of "map sl_status (report_lines r)" no_totals] l z by simp
  have counts: "to_ok (rh_totals (rt_run r)) = count_status StateOK (report_lines r) \<and>
      to_failed (rh_totals (rt_run r)) = count_status StateFailed (report_lines r) \<and>
      to_halted (rh_totals (rt_run r)) = count_status StateHalted (report_lines r)"
    using tally_counts [of "map sl_status (report_lines r)" no_totals] l z
    unfolding c count_status_def by simp
  show ?thesis
    using conjunct1 [OF l] distinct_all_ids [of "ir_nodes_map g" rp] all_ids_set [of "ir_nodes_map g" rp] sum counts
    by metis
qed

definition demo_graph :: ir where
  "demo_graph = IR 1 ''w'' [Node ''w/a'' KindAgent None None None None [] None 0 [] [],
     Node ''w/g'' KindGenerate None None None None [] None 0 [] []] [] [] []"

definition demo_replay :: replay where
  "demo_replay = fold_record (JResult \<lparr>rr_step = ''w/g[x]/s'', rr_hash = ''k'',
     rr_result = \<lparr>r_status = StatusOK, r_payload = None, r_error = None, r_halt = None,
       r_timing = \<lparr>tm_started = 1, tm_finished = 1500000001\<rparr>, r_attempt = 1, r_attempts = [], r_agent_skipped = False,
       r_check = False\<rparr>\<rparr>) blank_replay"

theorem report_accounts_for_everything_witness:
  "\<exists>r. run_report_of (\<lambda>_. None) [] (Some demo_replay) (Some demo_graph) ''j'' = Inr r \<and>
     set (map sl_id (report_lines r)) = {''w/a'', ''w/g'', ''w/g[x]/s''}"
proof -
  obtain r where r: "run_report_of (\<lambda>_. None) [] (Some demo_replay) (Some demo_graph) ''j'' = Inr r"
    by (cases "run_report_of (\<lambda>_. None) [] (Some demo_replay) (Some demo_graph) ''j''")
      (auto simp: run_report_of_def Let_def split: prod.splits)
  have "keys (ir_nodes_map (Some demo_graph)) = {''w/a'', ''w/g''}"
    by (auto simp: ir_nodes_map_def demo_graph_def collect_ir_nodes.simps)
  moreover have "keys (rp_last demo_replay) = {''w/g[x]/s''}"
    by (simp add: demo_replay_def fold_record_def blank_replay_def)
  ultimately show ?thesis using report_accounts_for_everything [OF r] r by auto
qed

subsection \<open>Folding loops\<close>












lemma iter_at_sel [simp]: "iter_at (g\<lparr>gr_sel := s\<rparr>) = iter_at g"
  by (simp add: iter_at_def fun_eq_iff)














end
