(* ===== verification/BoxContract.thy ===== *)
theory BoxContract
  imports Validate Replay Admitter Dataflow
begin

text \<open>
  The contract between the engine and the program inside a box (\<open>agent/contract/schema.go\<close>,
  \<open>agent/contract/record.go\<close>) and the host's reading of an attempt record (\<open>agent/extract.go\<close>): the
  output schema and what satisfies it, the record shapes, the re-validation of a record a box wrote.
  The JSON codec of the record structs is a parameter; a payload is decoded by the model's own reader.
\<close>

subsection \<open>Strings\<close>

fun trim_right :: "string \<Rightarrow> string" where
  "trim_right [] = []"
| "trim_right (c # cs) = (if blank (c # cs) then [] else c # trim_right cs)"

function trim_left :: "string \<Rightarrow> string" where
  "trim_left s = (if s = [] \<or> ws_len s = 0 then s else trim_left (drop (ws_len s) s))"
  by pat_completeness auto
termination by (relation "measure length") auto

declare trim_left.simps [simp del]

text \<open>\<open>strings.TrimSpace\<close>.\<close>

definition trim_space :: "string \<Rightarrow> string" where
  "trim_space s = trim_right (trim_left s)"

text \<open>\<open>strings.Cut\<close> at a character.\<close>

fun cut_at :: "char \<Rightarrow> string \<Rightarrow> (string \<times> string) option" where
  "cut_at c [] = None"
| "cut_at c (x # xs) = (if x = c then Some ([], xs) else map_option (apfst ((#) x)) (cut_at c xs))"

definition cut_prefix :: "string \<Rightarrow> string \<Rightarrow> string option" where
  "cut_prefix p s = (if has_prefix p s then Some (drop (length p) s) else None)"

subsection \<open>The output schema\<close>

type_synonym output_schema = "param_def smap"

definition parse_output_schema :: "(string \<Rightarrow> string + output_schema) \<Rightarrow> string \<Rightarrow> string + output_schema" where
  "parse_output_schema dec raw =
     (if trim_space raw = [] then Inr []
      else case dec raw of
          Inl e \<Rightarrow> Inl (''contract: parse output schema: '' @ e)
        | Inr s \<Rightarrow> Inr s)"

record violation =
  vi_field :: string
  vi_msg :: string

definition join_violations :: "violation list \<Rightarrow> string" where
  "join_violations vs = join ''; '' (map (\<lambda>v. vi_field v @ '': '' @ vi_msg v) vs)"

text \<open>The kind of a decoded JSON value; the last cases name Go types a decoder does not produce.\<close>

definition json_kind :: "goval \<Rightarrow> string" where
  "json_kind v =
     (case v of
        VNull \<Rightarrow> ''null''
      | VStr _ \<Rightarrow> ''string''
      | VBool _ \<Rightarrow> ''bool''
      | VFloat x \<Rightarrow> if f64_integral x \<noteq> None \<or> x = PInf \<or> x = NInf then ''number'' else ''non-integral number''
      | VMap _ \<Rightarrow> ''object''
      | VList _ \<Rightarrow> ''array''
      | VInt _ \<Rightarrow> ''int''
      | VNumber _ \<Rightarrow> ''json.Number''
      | VAnyMap _ \<Rightarrow> ''map[interface {}]interface {}''
      | VRaw _ \<Rightarrow> ''json.RawMessage'')"

definition check_kind :: "param_def \<Rightarrow> goval \<Rightarrow> string" where
  "check_kind d v =
     (if pd_type d = ''string'' then
        (case v of
           VStr s \<Rightarrow>
             if pd_enum d \<noteq> [] \<and> s \<notin> set (pd_enum d)
             then ''value '' @ quote_str s @ '' not in enum ['' @ join '', '' (pd_enum d) @ '']'' else []
         | _ \<Rightarrow> ''expected string, got '' @ json_kind v)
      else if pd_type d = ''int'' then
        (case v of
           VFloat x \<Rightarrow> if f64_integral x = None then ''expected int, got '' @ json_kind v else []
         | _ \<Rightarrow> ''expected int, got '' @ json_kind v)
      else if pd_type d = ''bool'' then
        (case v of VBool _ \<Rightarrow> [] | _ \<Rightarrow> ''expected bool, got '' @ json_kind v)
      else if pd_type d = ''object'' then
        (case v of VMap _ \<Rightarrow> [] | _ \<Rightarrow> ''expected object, got '' @ json_kind v)
      else ''undeclarable field type '' @ quote_str (pd_type d))"

definition field_violations :: "output_schema \<Rightarrow> goval smap \<Rightarrow> string \<Rightarrow> violation list" where
  "field_violations schema payload name =
     (case map_of schema name of
        None \<Rightarrow> []
      | Some d \<Rightarrow>
          (case map_of payload name of
             None \<Rightarrow> if pd_required d then [\<lparr>vi_field = name, vi_msg = ''required field missing''\<rparr>] else []
           | Some v \<Rightarrow> if check_kind d v \<noteq> [] then [\<lparr>vi_field = name, vi_msg = check_kind d v\<rparr>] else []))"

definition validate_output :: "output_schema \<Rightarrow> goval smap \<Rightarrow> violation list \<times> string list" where
  "validate_output schema payload =
     (concat (map (field_violations schema payload) (sorted_keys schema)),
      filter (\<lambda>n. map_of schema n = None) (sorted_keys payload))"

definition placeholder :: "param_def \<Rightarrow> goval option" where
  "placeholder d =
     (if pd_type d = ''string'' then (case pd_enum d of [] \<Rightarrow> Some (VStr []) | e # _ \<Rightarrow> Some (VStr e))
      else if pd_type d = ''int'' then Some (VFloat (Fin 0 0))
      else if pd_type d = ''bool'' then Some (VBool False)
      else if pd_type d = ''object'' then Some (VMap [])
      else None)"

definition placeholder_payload :: "output_schema \<Rightarrow> goval smap" where
  "placeholder_payload schema =
     concat (map (\<lambda>n. case map_of schema n of None \<Rightarrow> []
       | Some d \<Rightarrow> (case placeholder d of None \<Rightarrow> [] | Some v \<Rightarrow> [(n, v)])) (sorted_keys schema))"

subsection \<open>Records\<close>

definition contract_version :: int where "contract_version = 1"

abbreviation ReasonSecrets :: string where "ReasonSecrets \<equiv> ''secrets''"
abbreviation ReasonHostKeyPolicy :: string where "ReasonHostKeyPolicy \<equiv> ''host-key-policy''"
abbreviation ReasonCloneFailed :: string where "ReasonCloneFailed \<equiv> ''clone-failed''"
abbreviation ReasonSigning :: string where "ReasonSigning \<equiv> ''signing''"
abbreviation ReasonHookFailed :: string where "ReasonHookFailed \<equiv> ''hook-failed''"
abbreviation ReasonBundleMissing :: string where "ReasonBundleMissing \<equiv> ''bundle-missing''"
abbreviation ReasonBundleMalformed :: string where "ReasonBundleMalformed \<equiv> ''bundle-malformed''"
abbreviation ReasonAgentFailed :: string where "ReasonAgentFailed \<equiv> ''agent-failed''"
abbreviation ReasonOutputSchema :: string where "ReasonOutputSchema \<equiv> ''output-schema''"
abbreviation ReasonMissingOutput :: string where "ReasonMissingOutput \<equiv> ''missing-output''"
abbreviation ReasonSideEffectUnverified :: string where "ReasonSideEffectUnverified \<equiv> ''side-effect-unverified''"
abbreviation ReasonResultWrite :: string where "ReasonResultWrite \<equiv> ''result-write''"
abbreviation ReasonBoxVanished :: string where "ReasonBoxVanished \<equiv> ''box-vanished''"
abbreviation ReasonContractVersion :: string where "ReasonContractVersion \<equiv> ''contract-version''"
abbreviation ReasonHaltInvalid :: string where "ReasonHaltInvalid \<equiv> ''halt-invalid''"

abbreviation OutputFile :: string where "OutputFile \<equiv> ''output.json''"
abbreviation ResultFile :: string where "ResultFile \<equiv> ''result.json''"
abbreviation HaltFile :: string where "HaltFile \<equiv> ''halt.json''"
abbreviation HandoffFile :: string where "HandoffFile \<equiv> ''handoff.json''"
abbreviation HandoffKeyingSlot :: string where "HandoffKeyingSlot \<equiv> ''slot''"

record result_halt =
  rh_reason :: string
  rh_detail :: string
  rh_phase :: string

record result_error =
  be_reason :: string
  be_detail :: string
  be_handoff :: string

record box_result =
  br_status :: string
  br_contract :: int
  br_payload :: "goval smap"
  br_unthreaded :: "string list"
  br_fallback :: bool
  br_agent_skipped :: bool
  br_check :: bool
  br_error :: "result_error option"
  br_halt :: "result_halt option"
  br_timing :: "duration smap"
  br_attempt :: int

record handoff =
  ho_keying :: string
  ho_phase :: string
  ho_reason :: string
  ho_exit_code :: int
  ho_stderr_tail :: string
  ho_inputs :: "string smap"
  ho_workdir :: string

definition zero_box_result :: box_result where
  "zero_box_result = \<lparr>br_status = [], br_contract = 0, br_payload = [], br_unthreaded = [], br_fallback = False,
     br_agent_skipped = False, br_check = False, br_error = None, br_halt = None, br_timing = [], br_attempt = 0\<rparr>"

text \<open>The stamp \<open>WriteResultFile\<close> puts on a record that carries none.\<close>

definition stamp :: "box_result \<Rightarrow> box_result" where
  "stamp r = (if br_contract r = 0 then r\<lparr>br_contract := contract_version\<rparr> else r)"

subsection \<open>Reading a record\<close>

definition max_record_bytes :: int where "max_record_bytes = 67108864"

definition base_name :: "string \<Rightarrow> string" where
  "base_name p = rev (takeWhile (\<lambda>c. c \<noteq> CHR ''/'') (rev p))"

text \<open>A file read: its bytes, absent, or another error.\<close>

datatype file_read = Bytes string | Missing | ReadErr string

text \<open>The reader stops one byte past the bound, so a longer file is an error.\<close>

definition read_bounded :: "string \<Rightarrow> file_read \<Rightarrow> file_read" where
  "read_bounded path f =
     (case f of
        Bytes raw \<Rightarrow>
          if max_record_bytes < int (length raw)
          then ReadErr (''contract: '' @ base_name path @ '' exceeds the '' @ itoa max_record_bytes @ ''-byte record bound'')
          else Bytes raw
      | _ \<Rightarrow> f)"

definition read_result_file :: "(string \<Rightarrow> string + box_result) \<Rightarrow> file_read \<Rightarrow> string + box_result" where
  "read_result_file dec f =
     (case read_bounded ResultFile f of
        Missing \<Rightarrow> Inl (''contract: read '' @ ResultFile @ '': file does not exist'')
      | ReadErr e \<Rightarrow> Inl (''contract: read '' @ ResultFile @ '': '' @ e)
      | Bytes raw \<Rightarrow>
          (case dec raw of
             Inl e \<Rightarrow> Inl (''contract: parse '' @ ResultFile @ '': '' @ e)
           | Inr rec \<Rightarrow>
               if br_status rec \<noteq> StatusOK \<and> br_status rec \<noteq> StatusFailed \<and> br_status rec \<noteq> StatusHalted
               then Inl (''contract: '' @ ResultFile @ '': unknown status '' @ quote_str (br_status rec))
               else Inr rec))"

definition failed_record :: "string \<Rightarrow> string \<Rightarrow> box_result" where
  "failed_record reason detail = zero_box_result\<lparr>br_status := StatusFailed,
     br_error := Some \<lparr>be_reason = reason, be_detail = detail, be_handoff = []\<rparr>\<rparr>"

definition extract_result ::
  "(string \<Rightarrow> string + box_result) \<Rightarrow> string \<Rightarrow> file_read \<Rightarrow> output_schema \<Rightarrow> string + box_result" where
  "extract_result dec dir f schema =
     (if dir = [] then Inl ''agent: extract result: empty result dir''
      else case read_result_file dec f of
          Inl e \<Rightarrow> Inr (failed_record ReasonBoxVanished (''no readable attempt record: '' @ e))
        | Inr rec \<Rightarrow>
            if br_contract rec \<noteq> contract_version then
              Inr ((failed_record ReasonContractVersion (''result record carries contract v'' @ itoa (br_contract rec) @
                  '', host speaks v'' @ itoa contract_version @
                  '' '' @ em_dash @ '' a stale image bakes a mismatched faber-box: run faber build''))
                \<lparr>br_agent_skipped := br_agent_skipped rec, br_check := br_check rec, br_timing := br_timing rec,
                 br_attempt := br_attempt rec\<rparr>)
            else if br_status rec = StatusHalted then
              (case br_halt rec of
                 None \<Rightarrow> Inr ((failed_record ReasonHaltInvalid ''halted record without a halt reason'')
                   \<lparr>br_timing := br_timing rec, br_attempt := br_attempt rec\<rparr>)
               | Some h \<Rightarrow>
                   if rh_reason h = []
                   then Inr ((failed_record ReasonHaltInvalid ''halted record without a halt reason'')
                     \<lparr>br_timing := br_timing rec, br_attempt := br_attempt rec\<rparr>)
                   else Inr (rec\<lparr>br_payload := []\<rparr>))
            else if br_status rec \<noteq> StatusOK then Inr (rec\<lparr>br_payload := []\<rparr>)
            else (let r = validate_output schema (br_payload rec) in
              if fst r \<noteq> [] then
                Inr ((failed_record ReasonOutputSchema (''host re-validation: '' @ join_violations (fst r)))
                  \<lparr>br_agent_skipped := br_agent_skipped rec, br_check := br_check rec, br_timing := br_timing rec,
                   br_attempt := br_attempt rec\<rparr>)
              else Inr (rec\<lparr>br_unthreaded := snd r\<rparr>)))"

subsection \<open>What satisfies a schema\<close>

text \<open>The values of a declared type.\<close>

fun of_type :: "param_def \<Rightarrow> goval \<Rightarrow> bool" where
  "of_type d (VStr s) = (pd_type d = ''string'' \<and> (pd_enum d = [] \<or> s \<in> set (pd_enum d)))"
| "of_type d (VFloat x) = (pd_type d = ''int'' \<and> f64_integral x \<noteq> None)"
| "of_type d (VBool b) = (pd_type d = ''bool'')"
| "of_type d (VMap m) = (pd_type d = ''object'')"
| "of_type d v = False"

definition satisfies :: "output_schema \<Rightarrow> goval smap \<Rightarrow> bool" where
  "satisfies schema payload \<longleftrightarrow> (\<forall>n d. map_of schema n = Some d \<longrightarrow>
     (case map_of payload n of None \<Rightarrow> \<not> pd_required d | Some v \<Rightarrow> of_type d v))"

lemma check_kind_iff: "check_kind d v = [] \<longleftrightarrow> of_type d v"
  by (cases v) (auto simp: check_kind_def)

lemma validate_output_iff: "fst (validate_output schema payload) = [] \<longleftrightarrow> satisfies schema payload"
proof -
  have "fst (validate_output schema payload) = [] \<longleftrightarrow> (\<forall>n \<in> keys schema. field_violations schema payload n = [])"
    by (simp add: validate_output_def dom_map_of_conv_image_fst)
  also have "\<dots> \<longleftrightarrow> satisfies schema payload"
    unfolding satisfies_def field_violations_def by (auto simp: check_kind_iff dom_def split: option.splits)
  finally show ?thesis .
qed

lemma set_extras: "set (snd (validate_output schema payload)) = keys payload - keys schema"
  unfolding validate_output_def snd_conv set_filter sorted_keys_dom by auto

lemma map_of_singles:
  assumes "distinct ns"
  shows "map_of (concat (map (\<lambda>n. case f n of None \<Rightarrow> [] | Some v \<Rightarrow> [(n, v)]) ns)) k = (if k \<in> set ns then f k else None)"
  using assms by (induction ns) (auto split: option.split)

lemma map_of_placeholder:
  "map_of (placeholder_payload schema) n = Option.bind (map_of schema n) placeholder"
proof -
  have "placeholder_payload schema = concat (map (\<lambda>n. case Option.bind (map_of schema n) placeholder of
      None \<Rightarrow> [] | Some v \<Rightarrow> [(n, v)]) (sorted_keys schema))"
    unfolding placeholder_payload_def by (intro arg_cong [where f = concat] map_cong refl) (auto split: option.split)
  then have "map_of (placeholder_payload schema) n =
      (if n \<in> keys schema then Option.bind (map_of schema n) placeholder else None)"
    by (simp only: map_of_singles distinct_sorted_keys sorted_keys_dom)
  then show ?thesis by (auto simp: domIff)
qed

lemma placeholder_of_type:
  "pd_type d \<in> {''string'', ''int'', ''bool'', ''object''} \<Longrightarrow> \<exists>v. placeholder d = Some v \<and> of_type d v"
  by (auto simp: placeholder_def split: list.split)

lemma placeholder_satisfies:
  assumes "\<forall>n d. map_of schema n = Some d \<longrightarrow> pd_type d \<in> {''string'', ''int'', ''bool'', ''object''}"
  shows "satisfies schema (placeholder_payload schema)"
  unfolding satisfies_def map_of_placeholder
  using assms placeholder_of_type by (fastforce split: option.split)

end
