(* ===== verification/BoxEnv.thy ===== *)
theory BoxEnv
  imports BoxContract
begin

text \<open>
  The environment contract as the program inside the box reads it (\<open>agent/box/env.go\<close>): decoding a
  process environment, a list of \<open>KEY=value\<close> strings, and the check of the env phase. The encoders and
  decoders of \<open>encoding/json\<close> for the structs of the contract are a parameter.
\<close>

record box_codec =
  bc_schema_enc :: "output_schema \<Rightarrow> string + string"
  bc_schema_dec :: "string \<Rightarrow> string + output_schema"
  bc_invoke_enc :: "resolved_invoke \<Rightarrow> string + string"
  bc_invoke_dec :: "string \<Rightarrow> string + resolved_invoke"
  bc_result_enc :: "box_result \<Rightarrow> string + string"
  bc_result_dec :: "string \<Rightarrow> string + box_result"
  bc_handoff_enc :: "handoff \<Rightarrow> string + string"

subsection \<open>Names\<close>

abbreviation EnvSkill :: string where "EnvSkill \<equiv> ''FABER_SKILL''"
abbreviation EnvAgentCLI :: string where "EnvAgentCLI \<equiv> ''FABER_AGENT_CLI''"
abbreviation EnvIdentity :: string where "EnvIdentity \<equiv> ''FABER_IDENTITY''"
abbreviation EnvResultDir :: string where "EnvResultDir \<equiv> ''FABER_RESULT_DIR''"
abbreviation EnvBundleDir :: string where "EnvBundleDir \<equiv> ''FABER_BUNDLE_DIR''"
abbreviation EnvOutputSchema :: string where "EnvOutputSchema \<equiv> ''FABER_OUTPUT_SCHEMA''"
abbreviation EnvRequiredInputs :: string where "EnvRequiredInputs \<equiv> ''FABER_REQUIRED_INPUTS''"
abbreviation EnvAttempt :: string where "EnvAttempt \<equiv> ''FABER_ATTEMPT''"
abbreviation EnvModel :: string where "EnvModel \<equiv> ''FABER_MODEL''"
abbreviation EnvEffort :: string where "EnvEffort \<equiv> ''FABER_EFFORT''"
abbreviation EnvExtraInstruction :: string where "EnvExtraInstruction \<equiv> ''FABER_EXTRA_INSTRUCTION''"
abbreviation EnvMaxBudget :: string where "EnvMaxBudget \<equiv> ''FABER_MAX_BUDGET''"
abbreviation EnvInvokeProfile :: string where "EnvInvokeProfile \<equiv> ''FABER_INVOKE_PROFILE''"
abbreviation EnvSessionsDir :: string where "EnvSessionsDir \<equiv> ''FABER_SESSIONS_DIR''"
abbreviation EnvGitName :: string where "EnvGitName \<equiv> ''FABER_GIT_NAME''"
abbreviation EnvGitEmail :: string where "EnvGitEmail \<equiv> ''FABER_GIT_EMAIL''"
abbreviation EnvHooksDir :: string where "EnvHooksDir \<equiv> ''FABER_HOOKS_DIR''"
abbreviation EnvSecretsDir :: string where "EnvSecretsDir \<equiv> ''FABER_SECRETS_DIR''"
abbreviation EnvWorkspaceDir :: string where "EnvWorkspaceDir \<equiv> ''FABER_WORKSPACE_DIR''"
abbreviation EnvRunUID :: string where "EnvRunUID \<equiv> ''FABER_RUN_UID''"
abbreviation EnvRunGID :: string where "EnvRunGID \<equiv> ''FABER_RUN_GID''"
abbreviation EnvGitCache :: string where "EnvGitCache \<equiv> ''FABER_GIT_CACHE''"
abbreviation EnvSkillsLink :: string where "EnvSkillsLink \<equiv> ''FABER_SKILLS_LINK''"
abbreviation EnvAgentOptional :: string where "EnvAgentOptional \<equiv> ''FABER_AGENT_OPTIONAL''"
abbreviation EnvCheck :: string where "EnvCheck \<equiv> ''FABER_CHECK''"
abbreviation EnvSecretsStdin :: string where "EnvSecretsStdin \<equiv> ''FABER_SECRETS_STDIN''"
abbreviation EnvContractVersion :: string where "EnvContractVersion \<equiv> ''FABER_CONTRACT_VERSION''"
abbreviation EnvInputSlots :: string where "EnvInputSlots \<equiv> ''FABER_INPUT_SLOTS''"
abbreviation InputEnvPrefix :: string where "InputEnvPrefix \<equiv> ''FABER_INPUT_''"
abbreviation EnvRemoteURL :: string where "EnvRemoteURL \<equiv> ''FABER_REMOTE_URL''"
abbreviation EnvHostKey :: string where "EnvHostKey \<equiv> ''FABER_HOST_KEY''"
abbreviation EnvHostKeyTOFU :: string where "EnvHostKeyTOFU \<equiv> ''FABER_HOST_KEY_TOFU''"
abbreviation EnvAgentSocketGID :: string where "EnvAgentSocketGID \<equiv> ''FABER_AGENT_SOCKET_GID''"

abbreviation ContainerResultDir :: string where "ContainerResultDir \<equiv> ''/faber/result''"
abbreviation ContainerBundleDir :: string where "ContainerBundleDir \<equiv> ''/faber/bundle''"
abbreviation ContainerHooksDir :: string where "ContainerHooksDir \<equiv> ''/faber/hooks''"
abbreviation ContainerSkillsDir :: string where "ContainerSkillsDir \<equiv> ''/faber/skills''"
abbreviation ContainerEntry :: string where "ContainerEntry \<equiv> ''/faber/bin/faber-box''"
abbreviation ContainerWorkspace :: string where "ContainerWorkspace \<equiv> ''/workspace''"
abbreviation ContainerHome :: string where "ContainerHome \<equiv> ''/home/box''"
abbreviation ContainerSecretsDir :: string where "ContainerSecretsDir \<equiv> ''/run/secrets''"

definition input_env :: "string \<Rightarrow> string" where
  "input_env slot = InputEnvPrefix @ env_token slot"

subsection \<open>Decoding\<close>

record box_env =
  ev_skill :: string
  ev_agent_cli :: string
  ev_identity :: string
  ev_result_dir :: string
  ev_bundle_dir :: string
  ev_remote_url :: string
  ev_host_key :: string
  ev_tofu :: bool
  ev_inputs :: "string smap"
  ev_required :: "string list"
  ev_slots :: "string list"
  ev_schema :: output_schema
  ev_attempt :: int
  ev_model :: string
  ev_effort :: string
  ev_extra :: string
  ev_max_budget :: string
  ev_invoke :: resolved_invoke
  ev_git_name :: string
  ev_git_email :: string
  ev_hooks_dir :: string
  ev_secrets_dir :: string
  ev_workspace_dir :: string
  ev_run_uid :: int
  ev_run_gid :: int
  ev_agent_socket_gid :: int
  ev_git_cache :: string
  ev_skills_link :: string
  ev_sessions_dir :: string
  ev_secrets_stdin :: bool
  ev_agent_optional :: bool
  ev_check :: bool
  raw_schema :: string
  raw_attempt :: string
  raw_tofu :: string
  raw_contract :: string
  raw_agent_optional :: string
  raw_check :: string
  raw_invoke :: string

text \<open>The first entry of a key decides.\<close>

fun env_get :: "string list \<Rightarrow> string \<Rightarrow> string" where
  "env_get [] key = []"
| "env_get (kv # kvs) key =
     (case cut_prefix (key @ ''='') kv of Some v \<Rightarrow> v | None \<Rightarrow> env_get kvs key)"

definition with_default :: "string \<Rightarrow> string \<Rightarrow> string" where
  "with_default v d = (if v = [] then d else v)"

definition name_list :: "string \<Rightarrow> string list" where
  "name_list raw =
     (if trim_space raw = [] then []
      else filter (\<lambda>n. n \<noteq> []) (map trim_space (split_on CHR '','' (trim_space raw))))"

text \<open>\<open>strconv.Atoi\<close> with its error dropped: a number out of range is the nearest \<open>int\<close>, anything else 0.\<close>

definition atoi_value :: "string \<Rightarrow> int" where
  "atoi_value s =
     (case atoi s of
        Some i \<Rightarrow> i
      | None \<Rightarrow>
          (let neg = (s \<noteq> [] \<and> hd s = CHR ''-'');
               ds = (if s \<noteq> [] \<and> (hd s = CHR ''-'' \<or> hd s = CHR ''+'') then tl s else s)
           in if ds = [] \<or> read_nat 0 ds = None then 0
              else if neg then - max_int64 - 1 else max_int64))"

definition note_input :: "string \<Rightarrow> string smap \<Rightarrow> string smap" where
  "note_input kv m =
     (case cut_prefix InputEnvPrefix kv of
        None \<Rightarrow> m
      | Some rest \<Rightarrow>
          (case cut_at CHR ''='' rest of
             None \<Rightarrow> m
           | Some (token, v) \<Rightarrow> if token = [] then m else put token v m))"

definition parse_inputs :: "string list \<Rightarrow> string smap" where
  "parse_inputs environ = fold note_input environ []"

definition zero_invoke :: resolved_invoke where
  "zero_invoke = \<lparr>ri_subcommand = [], ri_prompt_flag = [], ri_skill_mode = [], ri_skill_flag = [],
     ri_prompt_template = [], ri_fixed_flags = [], ri_model_flag = [], ri_effort_flag = [], ri_budget_flag = [],
     ri_session_dir = [], ri_resume_argv = []\<rparr>"

definition parse_env :: "string list \<Rightarrow> box_env" where
  "parse_env environ =
     \<lparr>ev_skill = env_get environ EnvSkill, ev_agent_cli = env_get environ EnvAgentCLI,
      ev_identity = env_get environ EnvIdentity, ev_result_dir = env_get environ EnvResultDir,
      ev_bundle_dir = env_get environ EnvBundleDir, ev_remote_url = env_get environ EnvRemoteURL,
      ev_host_key = env_get environ EnvHostKey, ev_tofu = False, ev_inputs = parse_inputs environ,
      ev_required = name_list (env_get environ EnvRequiredInputs),
      ev_slots = name_list (env_get environ EnvInputSlots), ev_schema = [], ev_attempt = 0,
      ev_model = env_get environ EnvModel, ev_effort = env_get environ EnvEffort,
      ev_extra = env_get environ EnvExtraInstruction, ev_max_budget = env_get environ EnvMaxBudget,
      ev_invoke = zero_invoke, ev_git_name = env_get environ EnvGitName, ev_git_email = env_get environ EnvGitEmail,
      ev_hooks_dir = with_default (env_get environ EnvHooksDir) ContainerHooksDir,
      ev_secrets_dir = with_default (env_get environ EnvSecretsDir) ContainerSecretsDir,
      ev_workspace_dir = with_default (env_get environ EnvWorkspaceDir) ContainerWorkspace,
      ev_run_uid = atoi_value (env_get environ EnvRunUID), ev_run_gid = atoi_value (env_get environ EnvRunGID),
      ev_agent_socket_gid =
        (let raw = env_get environ EnvAgentSocketGID in
         if raw = [] then -1 else case atoi raw of None \<Rightarrow> -1 | Some n \<Rightarrow> n),
      ev_git_cache = env_get environ EnvGitCache, ev_skills_link = env_get environ EnvSkillsLink,
      ev_sessions_dir = env_get environ EnvSessionsDir,
      ev_secrets_stdin = (env_get environ EnvSecretsStdin = ''1''), ev_agent_optional = False, ev_check = False,
      raw_schema = env_get environ EnvOutputSchema, raw_attempt = env_get environ EnvAttempt,
      raw_tofu = env_get environ EnvHostKeyTOFU, raw_contract = env_get environ EnvContractVersion,
      raw_agent_optional = env_get environ EnvAgentOptional, raw_check = env_get environ EnvCheck,
      raw_invoke = env_get environ EnvInvokeProfile\<rparr>"

subsection \<open>The env phase's check\<close>

definition needed :: "string \<Rightarrow> string \<Rightarrow> string list" where
  "needed v name = (if v = [] then [name @ '': required and empty''] else [])"

definition flag_errors :: "string \<Rightarrow> string \<Rightarrow> string \<Rightarrow> string list" where
  "flag_errors name raw what =
     (if raw = [] \<or> raw = ''1'' then []
      else [name @ '': '' @ quote_str raw @ '' is not the contract value '' @ quote_str ''1'' @ '' '' @ em_dash @
        '' refusing to guess '' @ what])"

definition required_errors :: "box_env \<Rightarrow> string list" where
  "required_errors e =
     concat (map (\<lambda>slot. if get_or [] (ev_inputs e) (env_token slot) = []
       then [input_env slot @ '': required input slot '' @ quote_str slot @ '' is absent or empty''] else []) (ev_required e))"

definition contract_errors :: "box_env \<Rightarrow> string list" where
  "contract_errors e =
     (if raw_contract e \<noteq> [] \<and> raw_contract e \<noteq> itoa contract_version
      then [EnvContractVersion @ '': host speaks contract v'' @ raw_contract e @ '', this faber-box implements v'' @
        itoa contract_version @ '' '' @ em_dash @ '' a stale image: run faber build'']
      else [])"

text \<open>A profile that does not decode leaves the field as it was, up to what the decoder wrote before
  it failed; no phase after this one runs.\<close>

definition decode_invoke :: "box_codec \<Rightarrow> box_env \<Rightarrow> string list \<times> resolved_invoke" where
  "decode_invoke cd e =
     (if raw_invoke e = [] then ([], default_invoke)
      else case bc_invoke_dec cd (raw_invoke e) of
          Inl m \<Rightarrow> ([EnvInvokeProfile @ '': '' @ m], ev_invoke e)
        | Inr p \<Rightarrow> (map (\<lambda>fe. EnvInvokeProfile @ '': '' @ fe_path fe @ '': '' @ fe_msg fe) (violations p), p))"

definition decode_attempt :: "box_env \<Rightarrow> string list \<times> int" where
  "decode_attempt e =
     (if raw_attempt e = [] then ([], 1)
      else case atoi (raw_attempt e) of
          Some n \<Rightarrow> if n < 1 then ([EnvAttempt @ '': '' @ quote_str (raw_attempt e) @ '' is not a positive integer''], 1) else ([], n)
        | None \<Rightarrow> ([EnvAttempt @ '': '' @ quote_str (raw_attempt e) @ '' is not a positive integer''], 1))"

definition decode_schema :: "box_codec \<Rightarrow> box_env \<Rightarrow> string list \<times> output_schema" where
  "decode_schema cd e =
     (case parse_output_schema (bc_schema_dec cd) (raw_schema e) of
        Inl m \<Rightarrow> ([EnvOutputSchema @ '': '' @ m], ev_schema e)
      | Inr s \<Rightarrow> ([], s))"

definition env_validate :: "box_codec \<Rightarrow> box_env \<Rightarrow> string list \<times> box_env" where
  "env_validate cd e =
     (let tofu = (raw_tofu e = ''1''); inv = decode_invoke cd e; sch = decode_schema cd e; att = decode_attempt e
      in (needed (ev_skill e) EnvSkill @ needed (ev_agent_cli e) EnvAgentCLI @
          needed (ev_result_dir e) EnvResultDir @ needed (ev_bundle_dir e) EnvBundleDir @
          contract_errors e @ required_errors e @
          flag_errors EnvHostKeyTOFU (raw_tofu e) ''a trust policy'' @
          flag_errors EnvAgentOptional (raw_agent_optional e) ''whether the agent is skippable'' @
          flag_errors EnvCheck (raw_check e) ''whether this is a check run'' @
          fst inv @
          (if ev_host_key e \<noteq> [] \<and> tofu then [EnvHostKey @ '' and '' @ EnvHostKeyTOFU @ '' are mutually exclusive''] else []) @
          fst sch @ fst att,
          e\<lparr>ev_tofu := tofu, ev_agent_optional := raw_agent_optional e = ''1'', ev_check := raw_check e = ''1'',
            ev_invoke := snd inv, ev_schema := snd sch, ev_attempt := snd att\<rparr>))"

subsection \<open>Reading an assembled environment\<close>

lemma cut_prefix_append [simp]: "cut_prefix p (p @ s) = Some s"
  by (simp add: cut_prefix_def)

lemma has_prefix_split: "has_prefix p s \<longleftrightarrow> (\<exists>r. s = p @ r)"
  unfolding has_prefix_def by (metis append_eq_conv_conj append_take_drop_id)

text \<open>Two entries with keys that hold no equals sign start alike only if their keys agree.\<close>

lemma same_key:
  "k @ ''='' @ v = k' @ ''='' @ w \<Longrightarrow> CHR ''='' \<notin> set k \<Longrightarrow> CHR ''='' \<notin> set k' \<Longrightarrow> k = k' \<and> v = w"
proof (induction k arbitrary: k')
  case Nil
  then show ?case by (cases k') auto
next
  case (Cons c k)
  then show ?case by (cases k') auto
qed

lemma cut_prefix_entry:
  assumes "CHR ''='' \<notin> set k" and "CHR ''='' \<notin> set k'"
  shows "cut_prefix (k' @ ''='') (k @ ''='' @ v) = (if k = k' then Some v else None)"
proof (cases "k = k'")
  case True
  have "cut_prefix (k' @ ''='') ((k' @ ''='') @ v) = Some v" by (rule cut_prefix_append)
  with True show ?thesis by simp
next
  case False
  have "\<not> has_prefix (k' @ ''='') (k @ ''='' @ v)"
  proof
    assume "has_prefix (k' @ ''='') (k @ ''='' @ v)"
    then obtain r where "k @ ''='' @ v = k' @ ''='' @ r" unfolding has_prefix_split by auto
    from same_key [OF this assms] False show False by simp
  qed
  with False show ?thesis by (simp add: cut_prefix_def)
qed

lemma cut_at_entry: "CHR ''='' \<notin> set k \<Longrightarrow> cut_at CHR ''='' (k @ CHR ''='' # v) = Some (k, v)"
  by (induction k) auto

end
