(* ===== verification/ContainerSpec.thy ===== *)
theory ContainerSpec
  imports BoxEnv Assembly
begin

text \<open>
  The host's half of the box contract (\<open>agent/containerspec.go\<close>): the name, the mounts and the
  environment of the container of one step attempt, and the argument list they become
  (\<open>infra/run.go\<close> \<open>buildArgs\<close>). The hash of the name and the printing of a float are parameters; so
  are the user and group of the host process.
\<close>

record box_spec =
  bs_run_id :: string
  bs_node_id :: string
  bs_attempt :: int
  bs_template :: "template option"
  bs_image :: string
  bs_inputs :: "string smap"
  bs_result_dir :: string
  bs_skills_link :: string
  bs_agent_cli :: string
  bs_model :: string
  bs_effort :: string
  bs_extra :: string
  bs_max_budget :: string
  bs_git_name :: string
  bs_git_email :: string
  bs_git_cache :: string
  bs_sessions_dir :: string
  bs_check :: bool

datatype mount_kind = KindBind | KindVolume | KindTmpfs

record mount =
  mt_kind :: mount_kind
  mt_host :: string
  mt_container :: string
  mt_read_only :: bool

record container_spec =
  cs_name :: string
  cs_image :: string
  cs_resources :: resource_def
  cs_mounts :: "mount list"
  cs_env :: "string smap"
  cs_bindings :: "string list"
  cs_stdin_secrets :: string
  cs_entry :: "string list"

subsection \<open>Names and paths\<close>

definition slug_char :: "char \<Rightarrow> bool" where
  "slug_char c \<longleftrightarrow> (97 \<le> byte c \<and> byte c \<le> 122) \<or> is_digit c"

fun slug_go :: "bool \<Rightarrow> string \<Rightarrow> string \<Rightarrow> string" where
  "slug_go dash out [] = out"
| "slug_go dash out (c # cs) =
     (if slug_char c then slug_go False (out @ [c]) cs
      else if \<not> dash \<and> out \<noteq> [] then slug_go True (out @ ''-'') cs
      else slug_go dash out cs)"

definition slug :: "string \<Rightarrow> string" where
  "slug s = (let r = slug_go False [] (to_lower s) in if r \<noteq> [] \<and> last r = CHR ''-'' then butlast r else r)"

definition container_name :: "(string \<Rightarrow> string) \<Rightarrow> string \<Rightarrow> string \<Rightarrow> int \<Rightarrow> string" where
  "container_name sha4 run_id node_id attempt =
     ''faber-'' @ slug run_id @ ''-'' @ slug node_id @ ''-'' @ sha4 (run_id @ [CHR 0x00] @ node_id) @ ''-a'' @ itoa attempt"

definition path_under :: "string \<Rightarrow> string \<Rightarrow> bool" where
  "path_under a b \<longleftrightarrow> a = b \<or> has_prefix (trim_slash b @ ''/'') a"

definition reserved_mount_conflict :: "string \<Rightarrow> string" where
  "reserved_mount_conflict container =
     (case List.find (\<lambda>r. path_under (path_clean container) r \<or> path_under r (path_clean container)) reserved_paths of
        None \<Rightarrow> [] | Some r \<Rightarrow> r)"

subsection \<open>The checks\<close>

definition unless_msg :: "bool \<Rightarrow> string \<Rightarrow> string list" where
  "unless_msg c m = (if c then [] else [m])"

definition sessions_target :: "box_spec \<Rightarrow> template \<Rightarrow> string list \<times> string" where
  "sessions_target spec t =
     (if bs_sessions_dir spec = [] then ([], [])
      else case t_invoke t of
          None \<Rightarrow> ([''sessions: dir set but the template's invocation profile names no session_dir''], [])
        | Some p \<Rightarrow>
            if ri_session_dir p = []
            then ([''sessions: dir set but the template's invocation profile names no session_dir''], [])
            else (let d = path_join ContainerHome (ri_session_dir p) in
              if \<not> path_under d ContainerHome \<or> d = ContainerHome
              then ([''sessions: profile session_dir '' @ quote_str (ri_session_dir p) @
                  '' does not resolve to a proper subpath of '' @ ContainerHome], [])
              else ([], d)))"

definition template_env_errors :: "template \<Rightarrow> string list" where
  "template_env_errors t =
     concat (map (\<lambda>k. if k \<noteq> EnvAgentCLI \<and> engine_owned k
       then [''template env '' @ quote_str k @ '': engine- or security-owned name (only '' @ EnvAgentCLI @ '' may be set here)'']
       else []) (sorted_keys (t_env t)))"

definition spec_volume_errors :: "template \<Rightarrow> string list" where
  "spec_volume_errors t =
     concat (map (\<lambda>h. let c = get_or [] (t_volumes t) h; r = reserved_mount_conflict c in
       if r \<noteq> [] then [''template volume '' @ quote_str h @ '' -> '' @ quote_str c @
         '': overlaps the reserved container path '' @ quote_str r] else []) (sorted_keys (t_volumes t)))"

definition undeclared_inputs :: "box_spec \<Rightarrow> template \<Rightarrow> string list" where
  "undeclared_inputs spec t =
     concat (map (\<lambda>slot. if map_of (t_inputs t) slot = None
       then [''input '' @ quote_str slot @ '': not declared by template '' @ t_name t] else []) (sorted_keys (bs_inputs spec)))"

definition required_slots :: "template \<Rightarrow> string list" where
  "required_slots t =
     filter (\<lambda>slot. case map_of (t_inputs t) slot of None \<Rightarrow> False | Some d \<Rightarrow> pd_required d) (sorted_keys (t_inputs t))"

definition missing_inputs :: "box_spec \<Rightarrow> template \<Rightarrow> string list" where
  "missing_inputs spec t =
     concat (map (\<lambda>slot. if get_or [] (bs_inputs spec) slot = []
       then [''input '' @ quote_str slot @ '': required by template '' @ t_name t @ '' and absent or empty''] else [])
       (required_slots t))"

definition encode_invoke :: "box_codec \<Rightarrow> template \<Rightarrow> string + string" where
  "encode_invoke cd t = (case t_invoke t of None \<Rightarrow> Inr [] | Some p \<Rightarrow> bc_invoke_enc cd p)"

definition spec_errors :: "box_codec \<Rightarrow> box_spec \<Rightarrow> template \<Rightarrow> string list" where
  "spec_errors cd spec t =
     unless_msg (bs_image spec \<noteq> []) ''image: required'' @ unless_msg (bs_run_id spec \<noteq> []) ''run id: required'' @
     unless_msg (bs_node_id spec \<noteq> []) ''node id: required'' @ unless_msg (1 \<le> bs_attempt spec) ''attempt: must be >= 1'' @
     unless_msg (bs_result_dir spec \<noteq> []) ''result dir: required'' @
     unless_msg (t_skill t \<noteq> []) ''template skill: required'' @
     unless_msg (bs_agent_cli spec \<noteq> [] \<or> get_or [] (t_env t) EnvAgentCLI \<noteq> [])
       (''agent cli: required (no vendor default); set BoxSpec.AgentCLI or the template env '' @ EnvAgentCLI) @
     fst (sessions_target spec t) @ template_env_errors t @ spec_volume_errors t @
     undeclared_inputs spec t @ missing_inputs spec t @
     (case bc_schema_enc cd (t_output t) of Inl m \<Rightarrow> [''output schema: '' @ m] | Inr s \<Rightarrow> []) @
     (case encode_invoke cd t of Inl m \<Rightarrow> [''invoke profile: '' @ m] | Inr s \<Rightarrow> [])"

subsection \<open>The environment\<close>

definition put_when :: "bool \<Rightarrow> string \<Rightarrow> string \<Rightarrow> string smap \<Rightarrow> string smap" where
  "put_when c k v m = (if c then put k v m else m)"

definition set_if :: "string \<Rightarrow> string \<Rightarrow> string smap \<Rightarrow> string smap" where
  "set_if k v m = put_when (v \<noteq> []) k v m"

definition engine_env :: "template \<Rightarrow> string \<Rightarrow> box_spec \<Rightarrow> string smap \<Rightarrow> string smap" where
  "engine_env t schema spec m =
     put_when (t_inputs t \<noteq> []) EnvInputSlots (join '','' (sorted_keys (t_inputs t)))
     (put_when (required_slots t \<noteq> []) EnvRequiredInputs (join '','' (required_slots t))
     (put EnvAttempt (itoa (bs_attempt spec)) (put EnvOutputSchema schema
     (put EnvBundleDir ContainerBundleDir (put EnvResultDir ContainerResultDir
     (put EnvSkill (t_skill t) (put EnvContractVersion (itoa contract_version) m)))))))"

definition optional_env :: "template \<Rightarrow> string \<Rightarrow> string \<Rightarrow> box_spec \<Rightarrow> string smap \<Rightarrow> string smap" where
  "optional_env t invoke sessions spec m =
     set_if EnvSessionsDir sessions (set_if EnvSkillsLink (bs_skills_link spec) (set_if EnvGitCache (bs_git_cache spec)
     (set_if EnvGitEmail (bs_git_email spec) (set_if EnvGitName (bs_git_name spec)
     (set_if EnvMaxBudget (bs_max_budget spec) (set_if EnvExtraInstruction (bs_extra spec)
     (set_if EnvEffort (bs_effort spec) (set_if EnvModel (bs_model spec) (set_if EnvAgentCLI (bs_agent_cli spec)
     (set_if EnvInvokeProfile invoke (set_if EnvIdentity (t_identity t) m)))))))))))"

definition base_env ::
  "int \<Rightarrow> int \<Rightarrow> template \<Rightarrow> string \<Rightarrow> string \<Rightarrow> string \<Rightarrow> box_spec \<Rightarrow> string smap" where
  "base_env uid gid t schema invoke sessions spec =
     put EnvRunGID (itoa gid) (put EnvRunUID (itoa uid) (put_when (bs_check spec) EnvCheck ''1''
     (put_when (t_agent_optional t) EnvAgentOptional ''1''
     (optional_env t invoke sessions spec (engine_env t schema spec (t_env t))))))"

text \<open>The inputs come last; two slots with one token would be written in no particular order.\<close>

definition put_inputs :: "string smap \<Rightarrow> string smap \<Rightarrow> string smap" where
  "put_inputs ins m = fold (\<lambda>p. put (input_env (fst p)) (snd p)) ins m"

definition container_env ::
  "int \<Rightarrow> int \<Rightarrow> template \<Rightarrow> string \<Rightarrow> string \<Rightarrow> string \<Rightarrow> box_spec \<Rightarrow> string smap" where
  "container_env uid gid t schema invoke sessions spec =
     put_inputs (bs_inputs spec) (base_env uid gid t schema invoke sessions spec)"

subsection \<open>The container\<close>

definition bind_mount :: "string \<Rightarrow> string \<Rightarrow> mount" where
  "bind_mount h c = \<lparr>mt_kind = KindBind, mt_host = h, mt_container = c, mt_read_only = False\<rparr>"

definition scratch_mount :: "mount_kind \<Rightarrow> string \<Rightarrow> mount" where
  "scratch_mount k c = \<lparr>mt_kind = k, mt_host = [], mt_container = c, mt_read_only = False\<rparr>"

definition container_mounts :: "template \<Rightarrow> string \<Rightarrow> box_spec \<Rightarrow> mount list" where
  "container_mounts t sessions spec =
     [bind_mount (bs_result_dir spec) ContainerResultDir, scratch_mount KindVolume ContainerWorkspace,
      scratch_mount KindTmpfs ContainerBundleDir, scratch_mount KindTmpfs ''/tmp'', scratch_mount KindTmpfs ContainerHome] @
     (if sessions \<noteq> [] then [bind_mount (bs_sessions_dir spec) sessions] else []) @
     map (\<lambda>h. bind_mount h (get_or [] (t_volumes t) h)) (sorted_keys (t_volumes t))"

definition build_container_spec ::
  "box_codec \<Rightarrow> (string \<Rightarrow> string) \<Rightarrow> int \<Rightarrow> int \<Rightarrow> box_spec \<Rightarrow> string + container_spec" where
  "build_container_spec cd sha4 uid gid spec =
     (case bs_template spec of
        None \<Rightarrow> Inl (''agent: build run spec: '' @ join [CHR 0x0A]
          (''template: required'' # unless_msg (bs_image spec \<noteq> []) ''image: required'' @
           unless_msg (bs_run_id spec \<noteq> []) ''run id: required'' @ unless_msg (bs_node_id spec \<noteq> []) ''node id: required'' @
           unless_msg (1 \<le> bs_attempt spec) ''attempt: must be >= 1'' @
           unless_msg (bs_result_dir spec \<noteq> []) ''result dir: required''))
      | Some t \<Rightarrow>
          (let errs = spec_errors cd spec t; sessions = snd (sessions_target spec t) in
           if errs \<noteq> [] then Inl (''agent: build run spec for '' @ bs_node_id spec @ '': '' @ join [CHR 0x0A] errs)
           else (case (bc_schema_enc cd (t_output t), encode_invoke cd t) of
               (Inr schema, Inr invoke) \<Rightarrow>
                 Inr \<lparr>cs_name = container_name sha4 (bs_run_id spec) (bs_node_id spec) (bs_attempt spec),
                   cs_image = bs_image spec, cs_resources = t_resources t,
                   cs_mounts = container_mounts t sessions spec,
                   cs_env = container_env uid gid t schema invoke sessions spec,
                   cs_bindings = [], cs_stdin_secrets = [], cs_entry = [ContainerEntry]\<rparr>
             | _ \<Rightarrow> Inl [])))"

subsection \<open>The argument list\<close>

definition mount_args :: "mount \<Rightarrow> string list" where
  "mount_args m =
     (case mt_kind m of
        KindTmpfs \<Rightarrow> [''--tmpfs'', mt_container m]
      | KindVolume \<Rightarrow> [''-v'', mt_container m @ (if mt_read_only m then '':ro'' else [])]
      | KindBind \<Rightarrow> [''-v'', mt_host m @ '':'' @ mt_container m @ (if mt_read_only m then '':ro'' else [])])"

definition env_entries :: "string smap \<Rightarrow> string list" where
  "env_entries m = map (\<lambda>k. k @ ''='' @ get_or [] m k) (sorted_keys m)"

definition f64_nonzero :: "f64 \<Rightarrow> bool" where
  "f64_nonzero x = (case x of Fin m e \<Rightarrow> m \<noteq> 0 | _ \<Rightarrow> True)"

definition build_args :: "(f64 \<Rightarrow> string) \<Rightarrow> container_spec \<Rightarrow> string list" where
  "build_args fg s =
     [''run'', ''--rm''] @ (if cs_stdin_secrets s \<noteq> [] then [''-i''] else []) @ [''--name'', cs_name s] @
     (if res_memory (cs_resources s) \<noteq> [] then [''--memory='' @ res_memory (cs_resources s)] else []) @
     (if f64_nonzero (res_cpus (cs_resources s)) then [''--cpus='' @ fg (res_cpus (cs_resources s))] else []) @
     concat (map mount_args (cs_mounts s)) @
     concat (map (\<lambda>e. [''-e'', e]) (env_entries (cs_env s))) @
     cs_bindings s @ cs_image s # cs_entry s"

end
