(* ===== verification/ContractInv.thy ===== *)
theory ContractInv
  imports ContainerSpec ValidateInv
begin

text \<open>
  Reading back the environment the host assembles: lookups in the list of entries, the name lists, the
  input slots.
\<close>

subsection \<open>Lookups\<close>

lemma prefix_ends_before:
  assumes "CHR ''='' \<notin> set p" and "has_prefix p (k @ ''='' @ v)"
  shows "has_prefix p k"
proof -
  obtain r where "k @ ''='' @ v = p @ r" using assms(2) unfolding has_prefix_split by blast
  then obtain us where us: "k = p @ us \<and> us @ ''='' @ v = r \<or> k @ us = p \<and> ''='' @ v = us @ r"
    unfolding append_eq_append_conv2 by blast
  then show ?thesis
  proof
    assume "k = p @ us \<and> us @ ''='' @ v = r"
    then show ?thesis by simp
  next
    assume u: "k @ us = p \<and> ''='' @ v = us @ r"
    with assms(1) have "CHR ''='' \<notin> set us" by auto
    with u have "us = []" by (cases us) auto
    with u show ?thesis by (simp add: has_prefix_def)
  qed
qed

text \<open>The keys of a container environment: engine names hold no equals sign, others are not of the engine.\<close>

definition engine_key :: "string \<Rightarrow> bool" where
  "engine_key k \<longleftrightarrow> has_prefix ''FABER_'' k \<and> CHR ''='' \<notin> set k"

definition sane_key :: "string \<Rightarrow> bool" where
  "sane_key k \<longleftrightarrow> \<not> has_prefix ''FABER_'' k \<or> CHR ''='' \<notin> set k"

definition foreign :: "string list \<Rightarrow> bool" where
  "foreign es \<longleftrightarrow> (\<forall>e \<in> set es. \<not> has_prefix ''FABER_'' e)"

lemma has_prefix_trans: "has_prefix p q \<Longrightarrow> has_prefix q s \<Longrightarrow> has_prefix p s"
  unfolding has_prefix_split by auto

lemma cut_engine_key:
  assumes "engine_key key" and "sane_key k"
  shows "cut_prefix (key @ ''='') (k @ ''='' @ v) = (if k = key then Some v else None)"
proof (cases "has_prefix ''FABER_'' k")
  case True
  with assms have "CHR ''='' \<notin> set k" by (auto simp: sane_key_def)
  moreover have "CHR ''='' \<notin> set key" using assms(1) by (simp add: engine_key_def)
  ultimately show ?thesis by (rule cut_prefix_entry)
next
  case False
  then have "\<not> has_prefix ''FABER_'' (k @ ''='' @ v)" using prefix_ends_before [of "''FABER_''" k v] by auto
  moreover have "has_prefix ''FABER_'' (key @ ''='')"
    using assms(1) unfolding engine_key_def has_prefix_split by auto
  ultimately have "\<not> has_prefix (key @ ''='') (k @ ''='' @ v)" using has_prefix_trans by blast
  then show ?thesis using False assms(1) by (auto simp: cut_prefix_def engine_key_def)
qed

lemma env_get_foreign: "foreign es \<Longrightarrow> engine_key key \<Longrightarrow> env_get es key = []"
proof (induction es)
  case (Cons e es)
  have "has_prefix ''FABER_'' (key @ ''='')" using Cons.prems(2) unfolding engine_key_def has_prefix_split by auto
  then have "\<not> has_prefix (key @ ''='') e" using Cons.prems(1) has_prefix_trans unfolding foreign_def by auto
  with Cons show ?case by (simp add: cut_prefix_def foreign_def)
qed simp

lemma env_get_entries:
  assumes "engine_key key" and "\<forall>k \<in> keys m. sane_key k" and "foreign es"
  shows "env_get (env_entries m @ es) key = get_or [] m key"
proof -
  have "env_get (map (\<lambda>k. k @ ''='' @ get_or [] m k) ks @ es) key = (if key \<in> set ks then get_or [] m key else [])"
    if "\<forall>k \<in> set ks. sane_key k" for ks
    using that
  proof (induction ks)
    case Nil
    with assms show ?case by (simp add: env_get_foreign)
  next
    case (Cons k ks)
    with cut_engine_key [OF assms(1), of k "get_or [] m k"] show ?case by auto
  qed
  from this [of "sorted_keys m"] assms(2) show ?thesis
    by (auto simp: env_entries_def sorted_keys_dom get_or_def domIff simp del: set_sorted_keys)
qed

lemma note_entry:
  assumes "sane_key k"
  shows "note_input (k @ ''='' @ v) m =
    (if has_prefix InputEnvPrefix k \<and> k \<noteq> InputEnvPrefix then put (drop (length InputEnvPrefix) k) v m else m)"
proof (cases "has_prefix InputEnvPrefix k")
  case True
  then obtain r where r: "k = InputEnvPrefix @ r" unfolding has_prefix_split by blast
  then have "has_prefix ''FABER_'' k" by (simp add: has_prefix_def)
  with assms r have e: "CHR ''='' \<notin> set r" by (auto simp: sane_key_def)
  have "cut_prefix InputEnvPrefix (InputEnvPrefix @ (r @ ''='' @ v)) = Some (r @ ''='' @ v)" by (rule cut_prefix_append)
  with True r cut_at_entry [OF e, of v] show ?thesis by (auto simp: note_input_def)
next
  case False
  then have "\<not> has_prefix InputEnvPrefix (k @ ''='' @ v)" using prefix_ends_before [of InputEnvPrefix k v] by auto
  with False show ?thesis by (simp add: note_input_def cut_prefix_def)
qed

lemma parse_inputs_entries:
  assumes "\<forall>k \<in> keys m. sane_key k" and "foreign es" and "tok \<noteq> []"
  shows "map_of (parse_inputs (env_entries m @ es)) tok = map_of m (InputEnvPrefix @ tok)"
proof -
  have a: "map_of (fold note_input (map (\<lambda>k. k @ ''='' @ get_or [] m k) ks) n) tok =
      (if InputEnvPrefix @ tok \<in> set ks then Some (get_or [] m (InputEnvPrefix @ tok)) else map_of n tok)"
    if "\<forall>k \<in> set ks. sane_key k" for ks n
    using that
  proof (induction ks arbitrary: n)
    case (Cons k ks)
    have "has_prefix InputEnvPrefix k \<and> drop (length InputEnvPrefix) k = tok \<longleftrightarrow> k = InputEnvPrefix @ tok"
      unfolding has_prefix_def by (metis append_eq_conv_conj append_take_drop_id)
    moreover have "InputEnvPrefix @ tok \<noteq> InputEnvPrefix" using assms(3) by simp
    ultimately show ?case using Cons note_entry [of k "get_or [] m k"] by auto
  qed simp
  have b: "fold note_input es n = n" if "foreign es" for es n
    using that
  proof (induction es)
    case (Cons e es)
    have "\<not> has_prefix InputEnvPrefix e"
      using Cons.prems has_prefix_trans [of "''FABER_''" InputEnvPrefix e] by (auto simp: foreign_def has_prefix_def)
    with Cons show ?case by (simp add: note_input_def cut_prefix_def foreign_def)
  qed simp
  show ?thesis
    using a [of "sorted_keys m" "[]"] assms(1,2)
    by (auto simp: parse_inputs_def env_entries_def b sorted_keys_dom get_or_def domIff simp del: set_sorted_keys split: option.splits)
qed

subsection \<open>Name lists\<close>

definition plain_char :: "char \<Rightarrow> bool" where
  "plain_char c \<longleftrightarrow> byte c < 128 \<and> byte c \<notin> {9, 10, 11, 12, 13, 32}"

lemma ws_len_plain: "plain_char c \<Longrightarrow> ws_len (c # cs) = 0"
  by (auto simp: ws_len_def plain_char_def Let_def split: list.splits)

lemma blank_plain: "plain_char c \<Longrightarrow> \<not> blank (c # cs)"
  by (subst blank.simps) (simp add: ws_len_plain)

lemma trim_space_plain:
  assumes "\<forall>c \<in> set s. plain_char c"
  shows "trim_space s = s"
proof -
  have "trim_left s = s" by (subst trim_left.simps) (use assms in \<open>cases s; simp add: ws_len_plain\<close>)
  moreover have "trim_right s = s" using assms by (induction s) (auto simp: blank_plain)
  ultimately show ?thesis by (simp add: trim_space_def)
qed

lemma ident_plain:
  assumes "ident_ok s"
  shows "s \<noteq> [] \<and> (\<forall>c \<in> set s. plain_char c \<and> c \<noteq> CHR '','' \<and> c \<noteq> CHR ''='')"
proof -
  have "plain_char c \<and> c \<noteq> CHR '','' \<and> c \<noteq> CHR ''=''"
    if "is_lower c \<or> is_upper c \<or> is_digit c \<or> c = CHR ''_'' \<or> c = CHR ''-''" for c
    using that by (auto simp: is_lower_def is_upper_def is_digit_def plain_char_def byte_def)
  with assms show ?thesis by (auto simp: ident_ok_def list_all_iff split: list.splits)
qed

lemma split_join_names:
  assumes "ns \<noteq> []" and "\<forall>n \<in> set ns. CHR '','' \<notin> set n"
  shows "split_on CHR '','' (join '','' ns) = ns"
  using assms
proof (induction "'','' :: string" ns rule: join.induct)
  case (3 x y ys)
  have "split_on c (s @ c # t) = s # split_on c t" if "c \<notin> set s" for c and s t :: string
    using that by (induction s) (auto split: list.splits)
  with 3 show ?case by simp
next
  case (2 x)
  have "split_on c s = [s]" if "c \<notin> set s" for c and s :: string
    using that by (induction s) auto
  with 2 show ?case by simp
qed simp

lemma set_join: "set (join sep ns) \<subseteq> set sep \<union> \<Union> (set ` set ns)"
  by (induction sep ns rule: join.induct) auto

lemma name_list_join:
  assumes "\<forall>n \<in> set ns. ident_ok n"
  shows "name_list (join '','' ns) = ns"
proof (cases "ns = []")
  case True
  have "trim_space [] = []" by (rule trim_space_plain) simp
  with True show ?thesis by (simp add: name_list_def)
next
  case False
  have p: "\<forall>n \<in> set ns. n \<noteq> [] \<and> (\<forall>c \<in> set n. plain_char c) \<and> CHR '','' \<notin> set n"
    using assms ident_plain by blast
  have "plain_char CHR '',''" by (simp add: plain_char_def byte_def)
  then have "trim_space (join '','' ns) = join '','' ns"
    using p set_join [of "'',''" ns] by (intro trim_space_plain) auto
  moreover have "join '','' ns \<noteq> []"
    using False p by (cases ns; cases "tl ns") auto
  moreover have "map trim_space ns = ns" using p by (intro map_idI) (auto intro: trim_space_plain)
  ultimately show ?thesis using split_join_names [of ns] False p by (auto simp: name_list_def filter_id_conv)
qed

end
