(* ===== verification/ContractProps.thy ===== *)
theory ContractProps
  imports ContractInv
begin

text \<open>Properties of the box contract: what the host sends is what the box reads, what a box may return.\<close>

subsection \<open>The assembled environment\<close>

lemma put_when_get: "get_or [] (put_when c k v m) key = (if key = k \<and> c then v else get_or [] m key)"
  by (simp add: put_when_def)

lemma put_get: "get_or [] (put k v m) key = (if key = k then v else get_or [] m key)"
  by simp

lemma put_inputs_get: "key \<notin> (\<lambda>p. input_env (fst p)) ` set ins \<Longrightarrow> map_of (put_inputs ins m) key = map_of m key"
  unfolding put_inputs_def by (induction ins arbitrary: m) auto

lemma put_inputs_slot:
  assumes "distinct (map fst ins)" and "inj_on env_token (keys ins)" and "map_of ins s = Some v"
  shows "map_of (put_inputs ins m) (input_env s) = Some v"
  using assms
proof (induction ins arbitrary: m)
  case (Cons p ins)
  have inj: "inj_on env_token (keys ins)" using Cons.prems(2) by (rule inj_on_subset) auto
  have step: "put_inputs (p # ins) m = put_inputs ins (put (input_env (fst p)) (snd p) m)" by (simp add: put_inputs_def)
  show ?case
  proof (cases "fst p = s")
    case True
    have "input_env (fst q) \<noteq> input_env s" if "q \<in> set ins" for q
    proof -
      have "fst p \<notin> fst ` set ins" using Cons.prems(1) by simp
      then have "fst q \<noteq> s" using that True by (metis imageI)
      moreover have "fst q \<in> keys (p # ins)" "s \<in> keys (p # ins)"
        using that True by (auto simp: dom_map_of_conv_image_fst)
      ultimately show ?thesis using Cons.prems(2) unfolding input_env_def same_append_eq by (meson inj_onD)
    qed
    then have "input_env s \<notin> (\<lambda>q. input_env (fst q)) ` set ins" by (metis imageE)
    with True Cons.prems(3) show ?thesis unfolding step by (cases p) (simp add: put_inputs_get)
  next
    case False
    with Cons inj step show ?thesis by (cases p) auto
  qed
qed simp

definition slots_token :: string where "slots_token = ''SLOTS''"

lemma input_env_engine: "input_env s = key \<Longrightarrow> has_prefix InputEnvPrefix key"
  unfolding input_env_def by (auto simp only: has_prefix_append)

lemma template_env_get:
  assumes "template_env_errors t = []" and "engine_owned k" and "k \<noteq> EnvAgentCLI"
  shows "map_of (t_env t) k = None"
proof (rule ccontr)
  assume "map_of (t_env t) k \<noteq> None"
  then have "k \<in> set (sorted_keys (t_env t))" by (auto simp: sorted_keys_dom simp del: set_sorted_keys)
  with assms show False by (auto simp: template_env_errors_def simp del: set_sorted_keys)
qed

lemma token_plain:
  assumes "ident_ok s"
  shows "env_token s \<noteq> [] \<and> CHR ''='' \<notin> set (env_token s)"
  using env_token_name [OF assms] by (auto simp: env_name_def is_upper_def is_digit_def byte_def)

definition sane_map :: "string smap \<Rightarrow> bool" where
  "sane_map m \<longleftrightarrow> (\<forall>k \<in> keys m. sane_key k)"

lemma sane_put: "sane_map m \<Longrightarrow> sane_key k \<Longrightarrow> sane_map (put k v m)"
  by (simp add: sane_map_def)

lemma sane_put_when: "sane_map m \<Longrightarrow> sane_key k \<Longrightarrow> sane_map (put_when c k v m)"
  by (simp add: put_when_def sane_put)

lemma sane_inputs:
  assumes "sane_map m" and "\<forall>p \<in> set ins. ident_ok (fst p)"
  shows "sane_map (put_inputs ins m)"
  using assms unfolding put_inputs_def
proof (induction ins arbitrary: m)
  case (Cons p ins)
  have "sane_key (input_env (fst p))" using Cons.prems(2) token_plain by (simp add: sane_key_def input_env_def)
  with Cons show ?case by (simp add: sane_put)
qed simp

lemma sane_names:
  "sane_key EnvSkill" "sane_key EnvAgentCLI" "sane_key EnvIdentity" "sane_key EnvResultDir" "sane_key EnvBundleDir"
  "sane_key EnvOutputSchema" "sane_key EnvRequiredInputs" "sane_key EnvAttempt" "sane_key EnvModel" "sane_key EnvEffort"
  "sane_key EnvExtraInstruction" "sane_key EnvMaxBudget" "sane_key EnvInvokeProfile" "sane_key EnvSessionsDir"
  "sane_key EnvGitName" "sane_key EnvGitEmail" "sane_key EnvRunUID" "sane_key EnvRunGID" "sane_key EnvGitCache"
  "sane_key EnvSkillsLink" "sane_key EnvAgentOptional" "sane_key EnvCheck" "sane_key EnvContractVersion" "sane_key EnvInputSlots"
  by (simp_all add: sane_key_def)

lemma sane_container_env:
  assumes "sane_map (t_env t)" and "\<forall>p \<in> set (bs_inputs spec). ident_ok (fst p)"
  shows "sane_map (container_env uid gid t schema invoke sessions spec)"
  unfolding container_env_def base_env_def optional_env_def engine_env_def set_if_def
  by (intro sane_inputs sane_put sane_put_when sane_names assms)

text \<open>What the host sends, read key by key.\<close>

definition sent :: "int \<Rightarrow> int \<Rightarrow> template \<Rightarrow> string \<Rightarrow> string \<Rightarrow> string \<Rightarrow> box_spec \<Rightarrow> string \<Rightarrow> string" where
  "sent uid gid t schema invoke sessions spec = get_or [] (container_env uid gid t schema invoke sessions spec)"

lemma sent_base:
  assumes "key \<notin> (\<lambda>p. input_env (fst p)) ` set (bs_inputs spec)"
  shows "sent uid gid t schema invoke sessions spec key = get_or [] (base_env uid gid t schema invoke sessions spec) key"
  unfolding sent_def container_env_def get_or_def put_inputs_get [OF assms] ..

lemma not_input:
  assumes "\<not> has_prefix InputEnvPrefix key"
  shows "key \<notin> (\<lambda>p. input_env (fst p)) ` set ins"
proof
  assume "key \<in> (\<lambda>p. input_env (fst p)) ` set ins"
  then obtain s where "key = input_env s" by blast
  then have "has_prefix InputEnvPrefix key" by (rule input_env_engine [OF sym])
  with assms show False ..
qed

lemma concat_guard: "concat (map (\<lambda>x. if P x then [f x] else []) xs) = [] \<longleftrightarrow> (\<forall>x \<in> set xs. \<not> P x)"
  by (induction xs) simp_all

subsection \<open>The box accepts what the host sends\<close>

text \<open>The encodings of a template's schema and profile are decoded to what was encoded.\<close>

definition reads_back :: "box_codec \<Rightarrow> template \<Rightarrow> bool" where
  "reads_back cd t \<longleftrightarrow>
     (\<forall>r. bc_schema_enc cd (t_output t) = Inr r \<longrightarrow> trim_space r \<noteq> [] \<and> bc_schema_dec cd r = Inr (t_output t)) \<and>
     (\<forall>p r. t_invoke t = Some p \<longrightarrow> bc_invoke_enc cd p = Inr r \<longrightarrow> r \<noteq> [] \<and> bc_invoke_dec cd r = Inr p)"

lemma built_spec:
  assumes "build_container_spec cd sha4 uid gid spec = Inr cs" and "bs_template spec = Some t"
  obtains schema invoke where "spec_errors cd spec t = []" and "bc_schema_enc cd (t_output t) = Inr schema"
    and "encode_invoke cd t = Inr invoke"
    and "cs_env cs = container_env uid gid t schema invoke (snd (sessions_target spec t)) spec"
    and "cs_mounts cs = container_mounts t (snd (sessions_target spec t)) spec"
  using assms by (auto simp: build_container_spec_def Let_def split: if_splits sum.splits)

lemma declared_inputs:
  assumes "undeclared_inputs spec t = []"
  shows "keys (bs_inputs spec) \<subseteq> keys (t_inputs t)"
proof
  fix s assume "s \<in> keys (bs_inputs spec)"
  then have "s \<in> set (sorted_keys (bs_inputs spec))" by (simp only: sorted_keys_dom)
  with assms show "s \<in> keys (t_inputs t)" unfolding undeclared_inputs_def concat_guard by blast
qed

lemma bound_required:
  assumes "missing_inputs spec t = []" and "slot \<in> set (required_slots t)"
  shows "\<exists>v. map_of (bs_inputs spec) slot = Some v \<and> v \<noteq> []"
proof -
  have "get_or [] (bs_inputs spec) slot \<noteq> []" using assms unfolding missing_inputs_def concat_guard by blast
  then show ?thesis unfolding get_or_def by (auto split: option.splits)
qed

lemma template_env_sane:
  assumes "template_env_errors t = []"
  shows "sane_map (t_env t)"
  unfolding sane_map_def
proof
  fix k assume k: "k \<in> keys (t_env t)"
  show "sane_key k"
  proof (cases "k = EnvAgentCLI")
    case False
    with k template_env_get [OF assms] have "\<not> engine_owned k" by auto
    then show ?thesis by (simp add: engine_owned_def sane_key_def)
  qed (simp add: sane_names)
qed

lemma engine_names:
  "engine_key EnvSkill" "engine_key EnvAgentCLI" "engine_key EnvResultDir" "engine_key EnvBundleDir"
  "engine_key EnvOutputSchema" "engine_key EnvRequiredInputs" "engine_key EnvAttempt" "engine_key EnvModel" "engine_key EnvEffort"
  "engine_key EnvInvokeProfile" "engine_key EnvRunUID" "engine_key EnvRunGID" "engine_key EnvAgentOptional"
  "engine_key EnvCheck" "engine_key EnvContractVersion" "engine_key EnvInputSlots" "engine_key EnvHostKey" "engine_key EnvHostKeyTOFU"
  "engine_key EnvRemoteURL"
  by (simp_all add: engine_key_def has_prefix_def)

lemma input_idents:
  assumes "undeclared_inputs spec t = []" and "\<forall>s \<in> keys (t_inputs t). ident_ok s"
  shows "\<forall>p \<in> set (bs_inputs spec). ident_ok (fst p)"
proof
  fix p assume "p \<in> set (bs_inputs spec)"
  then have "fst p \<in> keys (bs_inputs spec)" by (simp add: dom_map_of_conv_image_fst)
  with declared_inputs [OF assms(1)] assms(2) show "ident_ok (fst p)" by blast
qed

lemma get_sent:
  assumes "spec_errors cd spec t = []" and "\<forall>s \<in> keys (t_inputs t). ident_ok s" and "foreign es" and "engine_key key"
  shows "env_get (env_entries (container_env uid gid t schema invoke sessions spec) @ es) key =
    sent uid gid t schema invoke sessions spec key"
proof -
  have c: "template_env_errors t = []" "undeclared_inputs spec t = []" using assms(1) by (simp_all add: spec_errors_def)
  have "sane_map (container_env uid gid t schema invoke sessions spec)"
    using sane_container_env [OF template_env_sane [OF c(1)] input_idents [OF c(2) assms(2)]] .
  then show ?thesis unfolding sent_def sane_map_def by (intro env_get_entries assms)
qed

lemmas env_layers = base_env_def optional_env_def engine_env_def set_if_def put_when_get put_get

lemma sent_layers:
  assumes "\<not> has_prefix InputEnvPrefix key"
  shows "sent uid gid t schema invoke sessions spec key = get_or [] (base_env uid gid t schema invoke sessions spec) key"
  by (rule sent_base [OF not_input [OF assms]])

lemma template_silent:
  assumes "template_env_errors t = []"
  shows "get_or [] (t_env t) EnvRequiredInputs = []" "get_or [] (t_env t) EnvAgentOptional = []"
    "get_or [] (t_env t) EnvCheck = []" "get_or [] (t_env t) EnvHostKey = []" "get_or [] (t_env t) EnvHostKeyTOFU = []"
    "get_or [] (t_env t) EnvModel = []" "get_or [] (t_env t) EnvInvokeProfile = []" "get_or [] (t_env t) EnvInputSlots = []"
proof -
  have n: "get_or [] (t_env t) k = []" if "engine_owned k" "k \<noteq> EnvAgentCLI" for k
    using template_env_get [OF assms that] by (simp add: get_or_def)
  show "get_or [] (t_env t) EnvRequiredInputs = []" "get_or [] (t_env t) EnvAgentOptional = []"
    "get_or [] (t_env t) EnvCheck = []" "get_or [] (t_env t) EnvHostKey = []" "get_or [] (t_env t) EnvHostKeyTOFU = []"
    "get_or [] (t_env t) EnvModel = []" "get_or [] (t_env t) EnvInvokeProfile = []" "get_or [] (t_env t) EnvInputSlots = []"
    by (rule n; simp add: engine_owned_def has_prefix_def)+
qed

text \<open>The keys the check reads.\<close>

lemma sent_values:
  assumes "template_env_errors t = []"
  shows
  "sent uid gid t schema invoke sessions spec EnvSkill = t_skill t"
  "sent uid gid t schema invoke sessions spec EnvAgentCLI =
     (if bs_agent_cli spec \<noteq> [] then bs_agent_cli spec else get_or [] (t_env t) EnvAgentCLI)"
  "sent uid gid t schema invoke sessions spec EnvResultDir = ContainerResultDir"
  "sent uid gid t schema invoke sessions spec EnvBundleDir = ContainerBundleDir"
  "sent uid gid t schema invoke sessions spec EnvContractVersion = itoa contract_version"
  "sent uid gid t schema invoke sessions spec EnvOutputSchema = schema"
  "sent uid gid t schema invoke sessions spec EnvAttempt = itoa (bs_attempt spec)"
  "sent uid gid t schema invoke sessions spec EnvRequiredInputs =
     (if required_slots t \<noteq> [] then join '','' (required_slots t) else [])"
  "sent uid gid t schema invoke sessions spec EnvInvokeProfile = invoke"
  "sent uid gid t schema invoke sessions spec EnvAgentOptional = (if t_agent_optional t then ''1'' else [])"
  "sent uid gid t schema invoke sessions spec EnvCheck = (if bs_check spec then ''1'' else [])"
  "sent uid gid t schema invoke sessions spec EnvHostKey = []"
  "sent uid gid t schema invoke sessions spec EnvHostKeyTOFU = []"
  "sent uid gid t schema invoke sessions spec EnvModel = bs_model spec"
  "sent uid gid t schema invoke sessions spec EnvRunUID = itoa uid"
  "sent uid gid t schema invoke sessions spec EnvRunGID = itoa gid"
  by (simp_all add: sent_layers has_prefix_def env_layers template_silent [OF assms] del: get_or_put)

text \<open>The slot list, unless a slot's own variable takes its place.\<close>

lemma sent_slots:
  assumes "template_env_errors t = []" and "slots_token \<notin> env_token ` keys (bs_inputs spec)"
  shows "sent uid gid t schema invoke sessions spec EnvInputSlots =
    (if t_inputs t \<noteq> [] then join '','' (sorted_keys (t_inputs t)) else [])"
proof -
  have "EnvInputSlots = InputEnvPrefix @ slots_token" by (simp add: slots_token_def)
  then have "EnvInputSlots \<notin> (\<lambda>p. input_env (fst p)) ` set (bs_inputs spec)"
    using assms(2) unfolding input_env_def dom_map_of_conv_image_fst by auto
  from sent_base [OF this] show ?thesis
    by (simp add: env_layers template_silent [OF assms(1)] del: get_or_put)
qed

text \<open>
  C38. The box accepts what the host sends: for every container the host assembles for a template with
  valid inputs and profile, at an attempt an \<open>int64\<close> holds and with encodings that are decoded to what was
  encoded, whatever variables outside the engine's prefix the image adds, the box's check of the environment finds nothing, and reads the skill, the directories, the
  attempt, the schema, the invocation profile, the flags, the declared slots and the value of every bound
  slot as the host meant them. A slot whose variable is \<open>FABER_INPUT_SLOTS\<close> is excepted.
\<close>
theorem box_accepts_host_environment:
  assumes "build_container_spec cd sha4 uid gid spec = Inr cs" and "bs_template spec = Some t"
    and "check_param_defs shw path (t_inputs t) = []" and "slots_token \<notin> env_token ` keys (t_inputs t)"
    and "distinct (map fst (bs_inputs spec))" and "bs_attempt spec \<le> max_int64"
    and "reads_back cd t" and "\<forall>p. t_invoke t = Some p \<longrightarrow> violations p = []" and "foreign es"
    and "check = env_validate cd (parse_env (env_entries (cs_env cs) @ es))" and "e = snd check"
  shows "fst check = [] \<and> ev_skill e = t_skill t \<and> ev_result_dir e = ContainerResultDir \<and>
    ev_bundle_dir e = ContainerBundleDir \<and> ev_attempt e = bs_attempt spec \<and> ev_schema e = t_output t \<and>
    ev_invoke e = (case t_invoke t of None \<Rightarrow> default_invoke | Some p \<Rightarrow> p) \<and>
    ev_agent_optional e = t_agent_optional t \<and> ev_check e = bs_check spec \<and> \<not> ev_tofu e \<and>
    ev_slots e = sorted_keys (t_inputs t) \<and> ev_required e = required_slots t \<and>
    (\<forall>s v. map_of (bs_inputs spec) s = Some v \<longrightarrow> map_of (ev_inputs e) (env_token s) = Some v)"
proof -
  obtain schema invoke where se: "spec_errors cd spec t = []" and sch: "bc_schema_enc cd (t_output t) = Inr schema"
    and iv: "encode_invoke cd t = Inr invoke"
    and env: "cs_env cs = container_env uid gid t schema invoke (snd (sessions_target spec t)) spec"
    using built_spec [OF assms(1,2)] by blast
  let ?S = "sent uid gid t schema invoke (snd (sessions_target spec t)) spec"
  have te: "template_env_errors t = []" and ui: "undeclared_inputs spec t = []" and mi: "missing_inputs spec t = []"
      and att: "1 \<le> bs_attempt spec" and sk: "t_skill t \<noteq> []"
      and cli: "bs_agent_cli spec \<noteq> [] \<or> get_or [] (t_env t) EnvAgentCLI \<noteq> []"
    using se by (auto simp: spec_errors_def unless_msg_def split: if_splits)
  have idents: "\<forall>s \<in> keys (t_inputs t). ident_ok s" and inj: "inj_on env_token (keys (t_inputs t))"
    using slot_names_ok [of path "sorted_keys (t_inputs t)" "[]"] assms(3) unfolding check_param_defs_def sorted_keys_dom by auto
  note decl = declared_inputs [OF ui]
  have get: "env_get (env_entries (cs_env cs) @ es) k = ?S k" if "engine_key k" for k
    unfolding env by (rule get_sent [OF se idents assms(9) that])
  let ?p = "parse_env (env_entries (cs_env cs) @ es)"
  note vals = get engine_names sent_values [OF te] sent_slots [OF te]
  have tok: "slots_token \<notin> env_token ` keys (bs_inputs spec)" using assms(4) decl by blast
  have nl: "name_list [] = []" using name_list_join [of "[]"] by simp
  have req_ids: "\<forall>n \<in> set (required_slots t). ident_ok n"
    using idents by (auto simp: required_slots_def sorted_keys_dom simp del: set_sorted_keys)
  have slot_ids: "\<forall>n \<in> set (sorted_keys (t_inputs t)). ident_ok n" using idents unfolding sorted_keys_dom .
  have req: "ev_required ?p = required_slots t"
    using name_list_join [OF req_ids] nl by (simp add: parse_env_def vals)
  have slots: "ev_slots ?p = sorted_keys (t_inputs t)"
    using name_list_join [OF slot_ids] nl by (simp add: parse_env_def vals tok sorted_keys_def)
  have ins: "map_of (ev_inputs ?p) (env_token s) = Some v" if "map_of (bs_inputs spec) s = Some v" for s v
  proof -
    have i: "ident_ok s" using decl idents that by blast
    have inj': "inj_on env_token (keys (bs_inputs spec))" using inj decl by (rule inj_on_subset)
    have sane: "\<forall>k \<in> keys (cs_env cs). sane_key k"
      using sane_container_env [OF template_env_sane [OF te] input_idents [OF ui idents]] unfolding env sane_map_def .
    have "map_of (ev_inputs ?p) (env_token s) = map_of (cs_env cs) (input_env s)"
      using parse_inputs_entries [OF sane assms(9) conjunct1 [OF token_plain [OF i]]]
      unfolding input_env_def by (simp add: parse_env_def)
    also have "\<dots> = Some v" unfolding env container_env_def by (rule put_inputs_slot [OF assms(5) inj' that])
    finally show ?thesis .
  qed
  have re: "required_errors ?p = []"
    unfolding required_errors_def concat_guard req
  proof
    fix slot assume "slot \<in> set (required_slots t)"
    then obtain v where v: "map_of (bs_inputs spec) slot = Some v" "v \<noteq> []" using bound_required [OF mi] by blast
    from ins [OF v(1)] v(2) show "get_or [] (ev_inputs ?p) (env_token slot) \<noteq> []" by (simp add: get_or_def)
  qed
  have di: "decode_invoke cd ?p = ([], case t_invoke t of None \<Rightarrow> default_invoke | Some p \<Rightarrow> p)"
    using iv assms(7,8)
    by (auto simp: decode_invoke_def parse_env_def vals encode_invoke_def reads_back_def split: option.splits)
  have ds: "decode_schema cd ?p = ([], t_output t)"
    using sch assms(7) by (simp add: decode_schema_def parse_env_def vals parse_output_schema_def reads_back_def)
  have da: "decode_attempt ?p = ([], bs_attempt spec)"
    using att assms(6) by (simp add: decode_attempt_def parse_env_def vals atoi_itoa)
  have ce: "contract_errors ?p = []" by (simp add: contract_errors_def parse_env_def vals)
  have raws: "raw_tofu ?p = []" "raw_agent_optional ?p = (if t_agent_optional t then ''1'' else [])"
      "raw_check ?p = (if bs_check spec then ''1'' else [])" "ev_host_key ?p = []" "ev_skill ?p = t_skill t"
      "ev_agent_cli ?p \<noteq> []" "ev_result_dir ?p = ContainerResultDir" "ev_bundle_dir ?p = ContainerBundleDir"
    using cli by (simp_all add: parse_env_def vals)
  have "fst check = []" unfolding assms(10) env_validate_def Let_def
    by (simp add: di ds da ce re raws sk needed_def flag_errors_def)
  moreover have "e = ?p\<lparr>ev_tofu := False, ev_agent_optional := t_agent_optional t, ev_check := bs_check spec,
      ev_invoke := (case t_invoke t of None \<Rightarrow> default_invoke | Some p \<Rightarrow> p), ev_schema := t_output t,
      ev_attempt := bs_attempt spec\<rparr>"
    unfolding assms(10,11) env_validate_def Let_def by (simp add: di ds da raws)
  ultimately show ?thesis using raws req slots ins by simp
qed

text \<open>A template with two slots, run in a check attempt; a codec that knows its schema.\<close>

definition demo_schema :: output_schema where
  "demo_schema = [(''verdict'', \<lparr>pd_type = ''string'', pd_required = True, pd_default = None, pd_enum = [''pass'', ''fail'']\<rparr>)]"

definition demo_codec :: box_codec where
  "demo_codec = \<lparr>bc_schema_enc = (\<lambda>s. Inr ''{}''), bc_schema_dec = (\<lambda>r. Inr demo_schema),
     bc_invoke_enc = (\<lambda>p. Inl []), bc_invoke_dec = (\<lambda>r. Inl []), bc_result_enc = (\<lambda>r. Inr (br_status r)),
     bc_result_dec = (\<lambda>r. Inr zero_box_result), bc_handoff_enc = (\<lambda>h. Inr (ho_phase h))\<rparr>"

definition demo_slot :: "bool \<Rightarrow> param_def" where
  "demo_slot r = \<lparr>pd_type = ''string'', pd_required = r, pd_default = None, pd_enum = []\<rparr>"

definition demo_template :: "param_def smap \<Rightarrow> template" where
  "demo_template ins = \<lparr>t_name = ''coder'', t_packages = [], t_overlay = [], t_pin = None, t_identity = [], t_lane = [],
     t_resources = \<lparr>res_memory = [], res_cpus = Fin 0 0\<rparr>, t_runtime = [], t_env = [(EnvAgentCLI, ''agent'')], t_volumes = [],
     t_skill = ''write'', t_model = ''m'', t_effort = ''e'', t_invoke = None, t_agent_optional = False,
     t_hooks = \<lparr>hk_context = [], hk_prelude = [], hk_postlude = [], hk_on_failure = []\<rparr>, t_skills = None,
     t_inputs = ins, t_output = demo_schema\<rparr>"

definition box_demo :: "param_def smap \<Rightarrow> string smap \<Rightarrow> box_spec" where
  "box_demo slots ins = \<lparr>bs_run_id = ''r1'', bs_node_id = ''w/a'', bs_attempt = 2, bs_template = Some (demo_template slots),
     bs_image = ''img'', bs_inputs = ins, bs_result_dir = ''/tmp/r'', bs_skills_link = [], bs_agent_cli = [], bs_model = ''m'',
     bs_effort = ''e'', bs_extra = [], bs_max_budget = [], bs_git_name = [], bs_git_email = [], bs_git_cache = [],
     bs_sessions_dir = [], bs_check = True\<rparr>"

abbreviation demo_slots :: "param_def smap" where
  "demo_slots \<equiv> [(''repo'', demo_slot True), (''note'', demo_slot False)]"

lemma demo_built:
  assumes "spec_errors demo_codec (box_demo slots ins) (demo_template slots) = []"
  shows "\<exists>cs. build_container_spec demo_codec (\<lambda>_. ''0000'') 501 20 (box_demo slots ins) = Inr cs"
  unfolding build_container_spec_def Let_def using assms
  by (simp add: box_demo_def encode_invoke_def demo_template_def demo_codec_def)

theorem box_accepts_host_environment_witness:
  "\<exists>cs. build_container_spec demo_codec (\<lambda>_. ''0000'') 501 20 (box_demo demo_slots [(''repo'', ''main'')]) = Inr cs \<and>
     ev_slots (snd (env_validate demo_codec (parse_env (env_entries (cs_env cs) @ [''PATH=/bin''])))) = [''note'', ''repo''] \<and>
     ev_attempt (snd (env_validate demo_codec (parse_env (env_entries (cs_env cs) @ [''PATH=/bin''])))) = 2"
proof -
  let ?spec = "box_demo demo_slots [(''repo'', ''main'')]" and ?t = "demo_template demo_slots"
  have errs: "spec_errors demo_codec ?spec ?t = []" by code_simp
  from demo_built [OF errs] obtain cs where
    cs: "build_container_spec demo_codec (\<lambda>_. ''0000'') 501 20 ?spec = Inr cs" by blast
  have t: "bs_template ?spec = Some ?t" by (simp add: box_demo_def)
  have defs: "check_param_defs (\<lambda>_. []) [] (t_inputs ?t) = []" by code_simp
  have tok: "slots_token \<notin> env_token ` keys (t_inputs ?t)"
    by (simp add: demo_template_def slots_token_def env_token_def to_upper_def is_lower_def byte_def)
  have d: "distinct (map fst (bs_inputs ?spec))" "bs_attempt ?spec \<le> max_int64"
    by (simp_all add: box_demo_def max_int64_def)
  have rb: "reads_back demo_codec ?t"
  proof -
    have "trim_space ''{}'' = ''{}''" by (rule trim_space_plain) (simp add: plain_char_def byte_def)
    then show ?thesis by (simp add: reads_back_def demo_codec_def demo_template_def)
  qed
  have iv: "\<forall>p. t_invoke ?t = Some p \<longrightarrow> violations p = []" by (simp add: demo_template_def)
  have f: "foreign [''PATH=/bin'']" by (simp add: foreign_def has_prefix_def)
  have sk: "sorted_keys (t_inputs ?t) = [''note'', ''repo'']" by code_simp
  have a2: "bs_attempt ?spec = 2" by (simp add: box_demo_def)
  show ?thesis
    using cs box_accepts_host_environment [OF cs t defs tok d rb iv f refl refl] sk a2 by auto
qed

text \<open>
  The variable that carries the slot list lies in the namespace of the slots: the box reads it back as
  an input, and a slot whose own variable it is, \<open>slots\<close> say, overwrites the list the host declared.
\<close>
theorem slot_list_read_as_input:
  assumes "build_container_spec cd sha4 uid gid spec = Inr cs" and "bs_template spec = Some t"
    and "check_param_defs shw path (t_inputs t) = []" and "t_inputs t \<noteq> []"
    and "distinct (map fst (bs_inputs spec))" and "foreign es"
    and "e = parse_env (env_entries (cs_env cs) @ es)"
  shows "\<exists>w. map_of (ev_inputs e) ''SLOTS'' = Some w \<and> ev_slots e = name_list w \<and>
    (\<forall>s v. map_of (bs_inputs spec) s = Some v \<and> env_token s = ''SLOTS'' \<longrightarrow> w = v) \<and>
    (''SLOTS'' \<notin> env_token ` keys (bs_inputs spec) \<longrightarrow> w = join '','' (sorted_keys (t_inputs t)))"
proof -
  obtain schema invoke where se: "spec_errors cd spec t = []"
    and env: "cs_env cs = container_env uid gid t schema invoke (snd (sessions_target spec t)) spec"
    using built_spec [OF assms(1,2)] by blast
  have te: "template_env_errors t = []" and ui: "undeclared_inputs spec t = []" using se by (auto simp: spec_errors_def)
  have idents: "\<forall>s \<in> keys (t_inputs t). ident_ok s" and inj: "inj_on env_token (keys (t_inputs t))"
    using slot_names_ok [of path "sorted_keys (t_inputs t)" "[]"] assms(3) unfolding check_param_defs_def sorted_keys_dom by auto
  have inj': "inj_on env_token (keys (bs_inputs spec))" using inj declared_inputs [OF ui] by (rule inj_on_subset)
  have sane: "\<forall>k \<in> keys (cs_env cs). sane_key k"
    using sane_container_env [OF template_env_sane [OF te] input_idents [OF ui idents]] unfolding env sane_map_def .
  have tok: "slots_token = ''SLOTS''" "InputEnvPrefix @ ''SLOTS'' = EnvInputSlots" by (simp_all add: slots_token_def)
  have slots: "ev_slots e = name_list (get_or [] (cs_env cs) EnvInputSlots)"
    unfolding assms(7) using env_get_entries [OF _ sane assms(6), of EnvInputSlots] engine_names by (simp add: parse_env_def)
  have ins: "map_of (ev_inputs e) ''SLOTS'' = map_of (cs_env cs) EnvInputSlots"
    unfolding assms(7) using parse_inputs_entries [OF sane assms(6), of "''SLOTS''"] by (simp add: parse_env_def)
  show ?thesis
  proof (cases "\<exists>s v. map_of (bs_inputs spec) s = Some v \<and> env_token s = ''SLOTS''")
    case True
    then obtain s v where sv: "map_of (bs_inputs spec) s = Some v" "env_token s = ''SLOTS''" by blast
    have "map_of (cs_env cs) (input_env s) = Some v" unfolding env container_env_def
      by (rule put_inputs_slot [OF assms(5) inj' sv(1)])
    then have m: "map_of (cs_env cs) EnvInputSlots = Some v" by (simp add: input_env_def sv(2))
    moreover have "v' = v" if "map_of (bs_inputs spec) s' = Some v'" "env_token s' = ''SLOTS''" for s' v'
      using inj' sv that by (metis domI inj_onD option.inject)
    ultimately have only: "\<forall>s' v'. map_of (bs_inputs spec) s' = Some v' \<and> env_token s' = ''SLOTS'' \<longrightarrow> v = v'" by blast
    have "''SLOTS'' \<in> env_token ` keys (bs_inputs spec)" using sv by (metis domI imageI)
    moreover have "map_of (ev_inputs e) ''SLOTS'' = Some v" using ins m by simp
    moreover have "ev_slots e = name_list v" using slots m by (simp add: get_or_def)
    ultimately show ?thesis using only by blast
  next
    case False
    then have n: "''SLOTS'' \<notin> env_token ` keys (bs_inputs spec)" by (metis (no_types, lifting) domD imageE)
    from sent_slots [OF te n [folded tok(1)]] assms(4)
    have g: "get_or [] (cs_env cs) EnvInputSlots = join '','' (sorted_keys (t_inputs t))" unfolding env sent_def by simp
    have "set (sorted_keys (t_inputs t)) \<noteq> {}" using assms(4) by simp
    then have "sorted_keys (t_inputs t) \<noteq> []" by (metis list.set(1))
    then have "join '','' (sorted_keys (t_inputs t)) \<noteq> []"
      using idents ident_plain [of "hd (sorted_keys (t_inputs t))"]
      by (cases "sorted_keys (t_inputs t)"; cases "tl (sorted_keys (t_inputs t))")
        (auto simp: sorted_keys_dom [symmetric] simp del: set_sorted_keys)
    with g have "map_of (cs_env cs) EnvInputSlots = Some (join '','' (sorted_keys (t_inputs t)))"
      by (auto simp: get_or_def split: option.splits)
    with ins have "map_of (ev_inputs e) ''SLOTS'' = Some (join '','' (sorted_keys (t_inputs t)))" by simp
    moreover have "ev_slots e = name_list (join '','' (sorted_keys (t_inputs t)))" using slots g by simp
    ultimately show ?thesis using False by blast
  qed
qed

theorem slot_list_read_as_input_witness:
  "\<exists>cs. build_container_spec demo_codec (\<lambda>_. ''0000'') 501 20
       (box_demo [(''slots'', demo_slot True), (''repo'', demo_slot False)] [(''slots'', ''a,b'')]) = Inr cs \<and>
     ev_slots (parse_env (env_entries (cs_env cs))) = [''a'', ''b'']"
proof -
  let ?sl = "[(''slots'', demo_slot True), (''repo'', demo_slot False)]"
  let ?spec = "box_demo ?sl [(''slots'', ''a,b'')]" and ?t = "demo_template ?sl"
  have errs: "spec_errors demo_codec ?spec ?t = []" by code_simp
  from demo_built [OF errs] obtain cs where
    cs: "build_container_spec demo_codec (\<lambda>_. ''0000'') 501 20 ?spec = Inr cs" by blast
  have t: "bs_template ?spec = Some ?t" by (simp add: box_demo_def)
  have defs: "check_param_defs (\<lambda>_. []) [] (t_inputs ?t) = []" by code_simp
  have d: "t_inputs ?t \<noteq> []" "distinct (map fst (bs_inputs ?spec))"
    by (simp_all add: box_demo_def demo_template_def)
  have f: "foreign []" by (simp add: foreign_def)
  have b: "map_of (bs_inputs ?spec) ''slots'' = Some ''a,b''" by (simp add: box_demo_def)
  have tk: "env_token ''slots'' = ''SLOTS''" by code_simp
  have nl: "name_list ''a,b'' = [''a'', ''b'']" by code_simp
  obtain w where w: "ev_slots (parse_env (env_entries (cs_env cs) @ [])) = name_list w" "w = ''a,b''"
    using slot_list_read_as_input [OF cs t defs d f refl] b tk by blast
  have "ev_slots (parse_env (env_entries (cs_env cs))) = [''a'', ''b'']" using w nl by simp
  with cs show ?thesis by blast
qed

end
