(* ===== verification/BoxPhases.thy ===== *)
theory BoxPhases
  imports BoxEnv Assembly
begin

text \<open>
  The program inside the box (\<open>agent/box/box.go\<close>, \<open>hooks.go\<close>, \<open>invoke.go\<close>, \<open>result.go\<close>,
  \<open>halt.go\<close>): the fixed order of phases with a stop at the first failure, the hooks, the agent, the
  attempt record. What a phase asks of the operating system is a record of operations on a world of any
  type (\<open>os\<close>): processes may change every file between two of them. Log lines are left out. The JSON
  codec of the record structs, base64 and the wording of JSON errors are parameters; the payload, the
  halt request and the secrets payload are decoded by the model's own reader.
\<close>

subsection \<open>The operating system\<close>

record cmd_spec =
  cm_argv :: "string list"
  cm_dir :: string
  cm_env :: "string list"

record cmd_result =
  cr_stdout :: string
  cr_stderr_tail :: string
  cr_exit :: int

datatype stat_res = Exists | NotThere | StatErr string
datatype dir_read = Entries "(string \<times> bool) list" | NoDir | DirErr string

text \<open>An action that can fail returns its error's text. \<open>os_replace\<close> puts a file in place by a temporary
  file and a rename, \<open>os_temp_file\<close> creates and writes a temporary file.\<close>

record 'w os =
  os_uid :: "'w \<Rightarrow> int"
  os_now :: "'w \<Rightarrow> time \<times> 'w"
  os_chown :: "string \<Rightarrow> int \<Rightarrow> int \<Rightarrow> 'w \<Rightarrow> string option \<times> 'w"
  os_setgroups :: "int list \<Rightarrow> 'w \<Rightarrow> string option \<times> 'w"
  os_setgid :: "int \<Rightarrow> 'w \<Rightarrow> string option \<times> 'w"
  os_setuid :: "int \<Rightarrow> 'w \<Rightarrow> string option \<times> 'w"
  os_stat :: "string \<Rightarrow> 'w \<Rightarrow> stat_res"
  os_mkdir_all :: "string \<Rightarrow> 'w \<Rightarrow> string option \<times> 'w"
  os_symlink :: "string \<Rightarrow> string \<Rightarrow> 'w \<Rightarrow> string option \<times> 'w"
  os_read :: "string \<Rightarrow> 'w \<Rightarrow> file_read"
  os_dir :: "string \<Rightarrow> 'w \<Rightarrow> dir_read"
  os_write :: "string \<Rightarrow> string \<Rightarrow> 'w \<Rightarrow> string option \<times> 'w"
  os_replace :: "string \<Rightarrow> string \<Rightarrow> string \<Rightarrow> 'w \<Rightarrow> string option \<times> 'w"
  os_temp_file :: "string \<Rightarrow> 'w \<Rightarrow> (string + string) \<times> 'w"
  os_temp_dir :: "'w \<Rightarrow> (string + string) \<times> 'w"
  os_copy_fs :: "string \<Rightarrow> string \<Rightarrow> 'w \<Rightarrow> string option \<times> 'w"
  os_stdin :: "'w \<Rightarrow> (string + string) \<times> 'w"
  os_run :: "cmd_spec \<Rightarrow> 'w \<Rightarrow> (cmd_result \<times> string option) \<times> 'w"
  os_stream :: "cmd_spec \<Rightarrow> 'w \<Rightarrow> (cmd_result \<times> string option) \<times> 'w"

record box_lib =
  bl_codec :: box_codec
  bl_json_error :: "string \<Rightarrow> string"
  bl_parse_float :: "string \<Rightarrow> f64 option"
  bl_base64 :: "string \<Rightarrow> string option"

subsection \<open>The state and its phases\<close>

record ctx_bundle =
  bn_dir :: string
  bn_doc :: string
  bn_env :: "string smap"

record box =
  bx_env :: box_env
  bx_has_stdin :: bool
  bx_environ :: "string list"
  bx_workdir :: string
  bx_bundle :: "ctx_bundle option"
  bx_timing :: "duration smap"
  bx_hook_declared :: bool
  bx_skip_agent :: bool

definition new_box :: "box_env \<Rightarrow> string list \<Rightarrow> box" where
  "new_box e environ = \<lparr>bx_env = e, bx_has_stdin = True, bx_environ = environ, bx_workdir = [], bx_bundle = None,
     bx_timing = [], bx_hook_declared = False, bx_skip_agent = False\<rparr>"

datatype phase_err = BoxError (pe_reason: string) (pe_detail: string) (pe_exit: int) (pe_tail: string) | PlainError string | Panic

type_synonym 'w phase = "box \<times> 'w \<Rightarrow> phase_err option \<times> (box \<times> 'w)"

definition carry_on :: "'w phase" where
  "carry_on s = (None, s)"

definition quit :: "phase_err \<Rightarrow> 'w phase" where
  "quit e s = (Some e, s)"

definition andthen :: "'w phase \<Rightarrow> 'w phase \<Rightarrow> 'w phase" where
  "andthen p q s = (case p s of (Some e, s') \<Rightarrow> (Some e, s') | (None, s') \<Rightarrow> q s')"

fun each :: "('a \<Rightarrow> 'w phase) \<Rightarrow> 'a list \<Rightarrow> 'w phase" where
  "each f [] = carry_on"
| "each f (x # xs) = andthen (f x) (each f xs)"

text \<open>An action on the world, a look at the state, a change of the box.\<close>

definition perform :: "('w \<Rightarrow> string option \<times> 'w) \<Rightarrow> (string \<Rightarrow> phase_err) \<Rightarrow> 'w phase" where
  "perform act f s = (case act (snd s) of (None, w) \<Rightarrow> (None, (fst s, w)) | (Some m, w) \<Rightarrow> (Some (f m), (fst s, w)))"

definition look :: "(box \<Rightarrow> 'w \<Rightarrow> 'w phase) \<Rightarrow> 'w phase" where
  "look f s = f (fst s) (snd s) s"

definition change :: "(box \<Rightarrow> box) \<Rightarrow> 'w phase" where
  "change f s = (None, (f (fst s), snd s))"

definition berr :: "string \<Rightarrow> string \<Rightarrow> phase_err" where
  "berr reason detail = BoxError reason detail 0 []"

subsection \<open>The child environment\<close>

fun set_env_entry :: "string \<Rightarrow> string \<Rightarrow> string list \<Rightarrow> string list" where
  "set_env_entry key v [] = [key @ ''='' @ v]"
| "set_env_entry key v (kv # kvs) =
     (if has_prefix (key @ ''='') kv then (key @ ''='' @ v) # kvs else kv # set_env_entry key v kvs)"

definition set_env :: "string \<Rightarrow> string \<Rightarrow> 'w phase" where
  "set_env key v = change (\<lambda>b. b\<lparr>bx_environ := set_env_entry key v (bx_environ b)\<rparr>)"

subsection \<open>Preamble\<close>

definition run_user_groups :: "int \<Rightarrow> int \<Rightarrow> int list" where
  "run_user_groups gid socket = [gid] @ (if 0 \<le> socket \<and> socket \<noteq> gid then [socket] else [])"

text \<open>The walk of the preamble up from the sessions directory; \<open>path_dir\<close> shortens a path under HOME.\<close>

definition weight :: "string list \<Rightarrow> nat" where
  "weight ss = sum_list (map (\<lambda>s. Suc (length s)) ss)"

lemma weight_simps [simp]: "weight [] = 0" "weight (s # ss) = Suc (length s) + weight ss" "weight (xs @ ys) = weight xs + weight ys"
  by (simp_all add: weight_def)

lemma weight_rev [simp]: "weight (rev ss) = weight ss"
  by (induction ss) auto

lemma weight_split: "weight (split_on c s) = Suc (length s)"
  by (induction s) (auto split: list.split)

lemma weight_join: "length (join [c] ss) \<le> weight ss - 1"
  by (induction "[c]" ss rule: join.induct) auto

lemma weight_clean: "weight (clean_segs r ss acc) + length (filter (\<lambda>s. s = []) ss) \<le> weight ss + weight acc"
  by (induction r ss acc rule: clean_segs.induct) (auto split: list.split)

lemma is_abs_hd: "s \<noteq> [] \<Longrightarrow> hd s = CHR ''/'' \<Longrightarrow> is_abs s"
  by (cases s) (simp_all add: is_abs_def has_prefix_def)

lemma path_dir_shorter:
  assumes "has_prefix (ContainerHome @ ''/'') p"
  shows "length (path_dir p) < length p"
proof -
  obtain r where p: "p = ContainerHome @ ''/'' @ r" using assms unfolding has_prefix_split by auto
  define q where "q = rev (dropWhile (\<lambda>c. c \<noteq> CHR ''/'') (rev p))"
  have rp: "rev p = takeWhile (\<lambda>c. c \<noteq> CHR ''/'') (rev p) @ dropWhile (\<lambda>c. c \<noteq> CHR ''/'') (rev p)" by simp
  have q_le: "length q \<le> length p" unfolding q_def length_rev by (metis length_dropWhile_le length_rev)
  have pq: "p = q @ rev (takeWhile (\<lambda>c. c \<noteq> CHR ''/'') (rev p))"
    unfolding q_def by (metis rev_append rev_rev_ident rp)
  have "CHR ''/'' \<in> set (rev p)" unfolding p by simp
  then have "dropWhile (\<lambda>c. c \<noteq> CHR ''/'') (rev p) \<noteq> []" by (auto simp: dropWhile_eq_Nil_conv)
  then obtain x xs where d: "dropWhile (\<lambda>c. c \<noteq> CHR ''/'') (rev p) = x # xs" by (meson list.exhaust)
  with hd_dropWhile [of "\<lambda>c. c \<noteq> CHR ''/''" "rev p"] have x: "x = CHR ''/''" by auto
  then have q: "q = rev xs @ ''/''" by (simp add: q_def d)
  have "hd p = hd q" by (subst pq) (simp add: q hd_append)
  then have hq: "hd q = CHR ''/''" by (simp add: p)
  have "q \<noteq> []" by (simp add: q)
  with hq have a: "is_abs q" by (intro is_abs_hd)
  have s0: "split_on CHR ''/'' (ys @ ''/'') = split_on CHR ''/'' ys @ [[]]" for ys
    by (induction ys) (auto split: list.split)
  show ?thesis
  proof (cases "xs = []")
    case True
    have "path_clean ''/'' = ''/''" by (simp add: path_clean_def is_abs_def has_prefix_def)
    with True q have "path_dir p = ''/''" by (simp add: path_dir_def q_def [symmetric])
    then show ?thesis using p by simp
  next
    case False
    obtain y ys where ys: "rev xs = y # ys" using False by (cases "rev xs") auto
    with q hq have y: "y = CHR ''/''" by simp
    have "split_on CHR ''/'' q = [] # split_on CHR ''/'' ys @ [[]]" using q ys y s0 [of "y # ys"] by simp
    then have f: "2 \<le> length (filter (\<lambda>s. s = []) (split_on CHR ''/'' q))" by simp
    define segs where "segs = clean_segs True (split_on CHR ''/'' q) []"
    have w: "weight segs + 2 \<le> Suc (length q)"
      using weight_clean [of True "split_on CHR ''/'' q" "[]"] f unfolding segs_def by (simp add: weight_split)
    have "path_dir p = CHR ''/'' # join ''/'' segs"
      using a by (simp add: path_dir_def q_def [symmetric] path_clean_def segs_def)
    then have "length (path_dir p) \<le> Suc (weight segs - 1)" using weight_join [of "CHR ''/''" segs] by simp
    then show ?thesis using w q_le p by (cases segs) auto
  qed
qed

function chown_walk :: "string \<Rightarrow> string list" where
  "chown_walk p = (if has_prefix (ContainerHome @ ''/'') p then p # chown_walk (path_dir p) else [])"
  by pat_completeness auto
termination by (relation "measure length") (auto intro: path_dir_shorter)

declare chown_walk.simps [simp del]

definition session_chown_paths :: "string \<Rightarrow> string list" where
  "session_chown_paths d = (if d = [] then [] else chown_walk (path_clean d))"

definition preamble_err :: "string \<Rightarrow> string \<Rightarrow> phase_err" where
  "preamble_err step m = berr ReasonEnvContract (''preamble: '' @ step @ '': '' @ m)"

definition chown_to_user :: "'w os \<Rightarrow> string \<Rightarrow> 'w phase" where
  "chown_to_user ops dir = look (\<lambda>b w.
     perform (os_chown ops dir (ev_run_uid (bx_env b)) (ev_run_gid (bx_env b))) (preamble_err (''chown '' @ dir)))"

definition enter_run_user :: "'w os \<Rightarrow> 'w phase" where
  "enter_run_user ops = look (\<lambda>b w.
     let e = bx_env b in
     if os_uid ops w \<noteq> 0 \<or> ev_run_uid e = 0 then carry_on
     else andthen (each (chown_to_user ops) [ev_workspace_dir e, ev_bundle_dir e, ''/tmp'', ContainerHome])
       (andthen (look (\<lambda>b w. if os_stat ops (ev_secrets_dir e) w = Exists then chown_to_user ops (ev_secrets_dir e) else carry_on))
       (andthen (each (chown_to_user ops) (session_chown_paths (ev_sessions_dir e)))
       (andthen (set_env ''HOME'' ContainerHome)
       (andthen (perform (os_setgroups ops (run_user_groups (ev_run_gid e) (ev_agent_socket_gid e))) (preamble_err ''setgroups''))
       (andthen (perform (os_setgid ops (ev_run_gid e)) (preamble_err ''setgid''))
         (perform (os_setuid ops (ev_run_uid e)) (preamble_err ''setuid''))))))))"

subsection \<open>Setup phases\<close>

definition lookup_env :: "string \<Rightarrow> box \<Rightarrow> string" where
  "lookup_env key b = env_get (bx_environ b) key"

definition link_skills :: "'w os \<Rightarrow> 'w phase" where
  "link_skills ops = look (\<lambda>b w.
     if ev_skills_link (bx_env b) = [] then carry_on
     else let link = path_join (lookup_env ''HOME'' b) (ev_skills_link (bx_env b)) in
       andthen (perform (os_mkdir_all ops (path_dir link)) (\<lambda>m. PlainError (''skills: mkdir '' @ path_dir link @ '': '' @ m)))
         (perform (os_symlink ops ContainerSkillsDir link)
           (\<lambda>m. PlainError (''skills: symlink '' @ link @ '' -> '' @ ContainerSkillsDir @ '': '' @ m))))"

definition check_env :: "box_lib \<Rightarrow> 'w os \<Rightarrow> 'w phase" where
  "check_env lib ops =
     andthen (look (\<lambda>b w. let r = env_validate (bl_codec lib) (bx_env b) in
         andthen (change (\<lambda>b. b\<lparr>bx_env := snd r\<rparr>))
           (if fst r \<noteq> [] then quit (berr ReasonEnvContract (join [CHR 0x0A] (fst r))) else carry_on)))
       (look (\<lambda>b w.
         andthen (perform (os_mkdir_all ops (ev_result_dir (bx_env b))) (\<lambda>m. berr ReasonEnvContract (''result dir: '' @ m)))
           (perform (os_mkdir_all ops (ev_bundle_dir (bx_env b))) (\<lambda>m. berr ReasonEnvContract (''bundle dir: '' @ m)))))"

text \<open>The decoded payload of secrets; \<open>null\<close> is no payload and an absent value the empty string.\<close>

fun string_entries :: "(string \<times> goval) list \<Rightarrow> string smap option" where
  "string_entries [] = Some []"
| "string_entries ((k, v) # m) =
     (case (v, string_entries m) of
        (VStr s, Some r) \<Rightarrow> Some ((k, s) # r)
      | (VNull, Some r) \<Rightarrow> Some ((k, []) # r)
      | _ \<Rightarrow> None)"

definition string_map :: "string \<Rightarrow> string smap option" where
  "string_map raw = (case json_parse raw of Some VNull \<Rightarrow> Some [] | Some (VMap m) \<Rightarrow> string_entries m | _ \<Rightarrow> None)"

definition single_segment :: "string \<Rightarrow> bool" where
  "single_segment n \<longleftrightarrow> n \<noteq> [] \<and> n \<noteq> ''.'' \<and> n \<noteq> ''..'' \<and> \<not> is_abs n \<and> CHR ''/'' \<notin> set n \<and> CHR 0x5C \<notin> set n"

definition write_token :: "box_lib \<Rightarrow> 'w os \<Rightarrow> string \<Rightarrow> string \<times> string \<Rightarrow> 'w phase" where
  "write_token lib ops dir p =
     (if \<not> single_segment (fst p)
      then quit (berr ReasonSecrets (''secret name '' @ quote_str (fst p) @ '' is not a single path segment''))
      else case bl_base64 lib (snd p) of
          None \<Rightarrow> quit (berr ReasonSecrets (''decode token for '' @ quote_str (fst p) @ '': not valid base64''))
        | Some tok \<Rightarrow> perform (os_write ops (path_join dir (fst p)) tok)
            (\<lambda>m. berr ReasonSecrets (''write secret file '' @ quote_str (fst p) @ '': '' @ m)))"

text \<open>The tokens are written in no particular order; here in that of the payload.\<close>

definition materialize_stdin_secrets :: "box_lib \<Rightarrow> 'w os \<Rightarrow> 'w phase" where
  "materialize_stdin_secrets lib ops = (\<lambda>(b, w).
     if \<not> bx_has_stdin b
     then quit (berr ReasonSecrets ''secrets payload signalled but the box has no stdin'') (b, w)
     else case os_stdin ops w of
         (Inl m, w') \<Rightarrow> quit (berr ReasonSecrets (''read stdin secrets payload: '' @ m)) (b, w')
       | (Inr raw, w') \<Rightarrow>
           (case string_map raw of
              None \<Rightarrow> quit (berr ReasonSecrets (''decode stdin secrets payload: '' @ bl_json_error lib raw)) (b, w')
            | Some payload \<Rightarrow>
                andthen (perform (os_mkdir_all ops (ev_secrets_dir (bx_env b))) (\<lambda>m. berr ReasonSecrets (''secrets dir: '' @ m)))
                  (each (write_token lib ops (ev_secrets_dir (bx_env b))) payload) (b, w')))"

definition reserved_sidecar_key :: "string \<Rightarrow> bool" where
  "reserved_sidecar_key k \<longleftrightarrow> engine_owned k \<or> k \<in> set runner_owned"

text \<open>The files of the secrets directory in the order the directory lists them; \<open>seen\<close> maps a variable to
  the file that claimed it.\<close>

fun export_secrets :: "'w os \<Rightarrow> string smap \<Rightarrow> (string \<times> bool) list \<Rightarrow> 'w phase" where
  "export_secrets ops seen [] = carry_on"
| "export_secrets ops seen ((name, is_dir) # es) =
     (if is_dir then export_secrets ops seen es
      else let key = env_token name in
        (case map_of seen key of
           Some first \<Rightarrow> quit (berr ReasonSecrets (''secrets '' @ quote_str first @ '' and '' @ quote_str name @
             '' both export the variable '' @ key @ ''; the later would silently shadow the earlier''))
         | None \<Rightarrow>
             if reserved_sidecar_key key
             then quit (berr ReasonSecrets (''secret '' @ quote_str name @ '' would export the engine- or runner-owned variable '' @
               key @ ''; rename the credential service''))
             else look (\<lambda>b w. case os_read ops (path_join (ev_secrets_dir (bx_env b)) name) w of
                 Bytes raw \<Rightarrow> andthen (set_env key (trim_space raw)) (export_secrets ops (put key name seen) es)
               | Missing \<Rightarrow> quit (berr ReasonSecrets (''read secret file '' @ quote_str name @ '': file does not exist''))
               | ReadErr m \<Rightarrow> quit (berr ReasonSecrets (''read secret file '' @ quote_str name @ '': '' @ m)))))"

definition load_secrets :: "box_lib \<Rightarrow> 'w os \<Rightarrow> 'w phase" where
  "load_secrets lib ops = look (\<lambda>b w.
     andthen (if ev_secrets_stdin (bx_env b) then materialize_stdin_secrets lib ops else carry_on)
       (look (\<lambda>b w. case os_dir ops (ev_secrets_dir (bx_env b)) w of
           NoDir \<Rightarrow> carry_on
         | DirErr m \<Rightarrow> quit (berr ReasonSecrets (''read secrets dir: '' @ m))
         | Entries es \<Rightarrow> export_secrets ops [] es)))"

subsection \<open>The remote\<close>

fun token_of :: "string \<Rightarrow> string" where
  "token_of [] = []"
| "token_of (c # cs) = (if ws_len (c # cs) \<noteq> 0 then [] else c # token_of cs)"

lemma trim_left_length: "length (trim_left s) \<le> length s"
  by (induction s rule: trim_left.induct) (subst trim_left.simps, auto simp: le_diff_conv)

function str_fields :: "string \<Rightarrow> string list" where
  "str_fields s =
     (let t = trim_left s in
      if t = [] \<or> token_of t = [] then [] else token_of t # str_fields (drop (length (token_of t)) t))"
  by pat_completeness auto

termination
proof (relation "measure length")
  fix s t :: string assume "t = trim_left s" "\<not> (t = [] \<or> token_of t = [])"
  then have "length (drop (length (token_of t)) t) < length t" by (cases "token_of t"; cases t) auto
  with \<open>t = trim_left s\<close> trim_left_length [of s] show "(drop (length (token_of t)) t, s) \<in> measure length" by simp
qed simp

declare str_fields.simps [simp del]

definition is_key_algorithm :: "string list \<Rightarrow> bool" where
  "is_key_algorithm fs =
     (case fs of [] \<Rightarrow> False | f # _ \<Rightarrow> has_prefix ''ssh-'' f \<or> has_prefix ''ecdsa-'' f \<or> has_prefix ''sk-'' f)"

definition char_index :: "char \<Rightarrow> string \<Rightarrow> nat option" where
  "char_index c s = map_option (\<lambda>p. length (fst p)) (cut_at c s)"

definition cut_last :: "char \<Rightarrow> string \<Rightarrow> (string \<times> string) option" where
  "cut_last c s = map_option (\<lambda>p. (rev (snd p), rev (fst p))) (cut_at c (rev s))"

definition is_ssh_remote :: "string \<Rightarrow> bool" where
  "is_ssh_remote url =
     (if url = [] then False
      else if has_prefix ''ssh://'' url then True
      else if contains_str ''://'' url then False
      else case (char_index CHR ''@'' url, char_index CHR '':'' url) of
          (Some a, Some k) \<Rightarrow> a < k \<and> (case char_index CHR ''/'' url of None \<Rightarrow> True | Some j \<Rightarrow> k < j)
        | _ \<Rightarrow> False)"

definition after_userinfo :: "string \<Rightarrow> string" where
  "after_userinfo s = (case cut_last CHR ''@'' s of None \<Rightarrow> s | Some (_, r) \<Rightarrow> r)"

definition split_host_port :: "string \<Rightarrow> string \<times> string" where
  "split_host_port rest =
     (let plain = (case cut_last CHR '':'' rest of None \<Rightarrow> (rest, []) | Some (h, p) \<Rightarrow> (h, p)) in
      case rest of
        c # h \<Rightarrow>
          if c = CHR ''['' then
            (case cut_at CHR '']'' h of
               None \<Rightarrow> plain
             | Some (host, r) \<Rightarrow> (case cut_prefix '':'' r of Some p \<Rightarrow> (host, p) | None \<Rightarrow> (host, [])))
          else plain
      | [] \<Rightarrow> plain)"

definition remote_host_port :: "string \<Rightarrow> string \<times> string" where
  "remote_host_port url =
     (case cut_prefix ''ssh://'' url of
        Some rest \<Rightarrow>
          split_host_port (after_userinfo (case cut_at CHR ''/'' rest of None \<Rightarrow> rest | Some (h, _) \<Rightarrow> h))
      | None \<Rightarrow>
          (case cut_at CHR '':'' url of None \<Rightarrow> ([], []) | Some (h, _) \<Rightarrow> (after_userinfo h, [])))"

definition known_hosts_pattern :: "string \<Rightarrow> string" where
  "known_hosts_pattern url =
     (let hp = remote_host_port url in
      if fst hp = [] then []
      else if snd hp \<noteq> [] \<and> snd hp \<noteq> ''22'' then ''['' @ fst hp @ '']:'' @ snd hp
      else fst hp)"

end
