(* ===== verification/BoxRun.thy ===== *)
theory BoxRun
  imports BoxPhases
begin

text \<open>The phases behind the environment check, and the driver.\<close>

subsection \<open>Host keys and the clone\<close>

definition write_known_hosts :: "'w os \<Rightarrow> string \<Rightarrow> (string \<Rightarrow> 'w phase) \<Rightarrow> 'w phase" where
  "write_known_hosts ops line k = (\<lambda>(b, w).
     let bare = is_key_algorithm (str_fields line); pat = known_hosts_pattern (ev_remote_url (bx_env b)) in
     if bare \<and> pat = []
     then quit (berr ReasonHostKeyPolicy ''pinned host key set but the remote URL names no host'') (b, w)
     else case os_temp_file ops ((if bare then pat @ '' '' @ line else line) @ [CHR 0x0A]) w of
         (Inl m, w') \<Rightarrow> quit (berr ReasonHostKeyPolicy (''write known-hosts: '' @ m)) (b, w')
       | (Inr name, w') \<Rightarrow> k name (b, w'))"

definition apply_host_key_policy :: "'w os \<Rightarrow> 'w phase" where
  "apply_host_key_policy ops = look (\<lambda>b w.
     let e = bx_env b in
     if ev_host_key e \<noteq> [] then
       write_known_hosts ops (ev_host_key e) (\<lambda>f.
         set_env ''GIT_SSH_COMMAND'' (''ssh -o UserKnownHostsFile='' @ f @ '' -o StrictHostKeyChecking=yes''))
     else if ev_tofu e then set_env ''GIT_SSH_COMMAND'' ''ssh -o StrictHostKeyChecking=accept-new''
     else if is_ssh_remote (ev_remote_url e) then
       quit (berr ReasonHostKeyPolicy ''ssh remote with neither pinned host key nor TOFU opt-in; refusing before any network use'')
     else carry_on)"

definition trim_suffix :: "string \<Rightarrow> string \<Rightarrow> string" where
  "trim_suffix p s = (if length p \<le> length s \<and> drop (length s - length p) s = p then take (length s - length p) s else s)"

text \<open>\<open>path.Base\<close>.\<close>

definition path_base :: "string \<Rightarrow> string" where
  "path_base p =
     (if p = [] then ''.''
      else let q = rev (dropWhile (\<lambda>c. c = CHR ''/'') (rev p)) in
        if q = [] then ''/'' else base_name q)"

definition repo_dir_name :: "string \<Rightarrow> string" where
  "repo_dir_name url =
     (let name = trim_suffix ''.git'' (path_base (trim_suffix ''/''
            (map (\<lambda>c. if c = CHR 0x5C then CHR ''/'' else c) url)))
      in if name = [] \<or> name = ''.'' \<or> name = ''/'' then ''repo'' else name)"

text \<open>A command of the engine: its result is given to the next step unless it could not be run.\<close>

definition engine_cmd ::
  "(cmd_spec \<Rightarrow> 'w \<Rightarrow> (cmd_result \<times> string option) \<times> 'w) \<Rightarrow> (box \<Rightarrow> cmd_spec) \<Rightarrow> (cmd_result \<Rightarrow> string \<Rightarrow> phase_err)
    \<Rightarrow> (cmd_result \<Rightarrow> 'w phase) \<Rightarrow> 'w phase" where
  "engine_cmd run cmd f k = (\<lambda>(b, w).
     case run (cmd b) w of
       ((r, Some m), w') \<Rightarrow> quit (f r m) (b, w')
     | ((r, None), w') \<Rightarrow> k r (b, w'))"

definition clone :: "'w os \<Rightarrow> 'w phase" where
  "clone ops = (\<lambda>(b, w).
     let e = bx_env b in
     if ev_remote_url e = [] then
       (case os_temp_dir ops w of
          (Inl m, w') \<Rightarrow> quit (berr ReasonCloneFailed (''scratch workdir: '' @ m)) (b, w')
        | (Inr d, w') \<Rightarrow> change (\<lambda>b. b\<lparr>bx_workdir := d\<rparr>) (b, w'))
     else let target = path_join (ev_workspace_dir e) (repo_dir_name (ev_remote_url e)) in
       andthen (perform (os_mkdir_all ops (ev_workspace_dir e)) (\<lambda>m. berr ReasonCloneFailed (''workspace dir: '' @ m)))
         (engine_cmd (os_run ops)
           (\<lambda>b. \<lparr>cm_argv = [''git'', ''clone''] @ (if ev_git_cache e \<noteq> [] then [''--reference-if-able'', ev_git_cache e] else []) @
              [ev_remote_url e, target], cm_dir = [], cm_env = bx_environ b\<rparr>)
           (\<lambda>r m. BoxError ReasonCloneFailed m (cr_exit r) [])
           (\<lambda>r. if cr_exit r \<noteq> 0
             then quit (BoxError ReasonCloneFailed (''git clone exited '' @ itoa (cr_exit r)) (cr_exit r) (cr_stderr_tail r))
             else change (\<lambda>b. b\<lparr>bx_workdir := target\<rparr>))) (b, w))"

subsection \<open>Signing\<close>

definition nonempty_lines :: "string \<Rightarrow> string list" where
  "nonempty_lines s = filter (\<lambda>l. l \<noteq> []) (map trim_space (split_on newline s))"

definition git_config :: "'w os \<Rightarrow> string \<times> string \<Rightarrow> 'w phase" where
  "git_config ops kv =
     engine_cmd (os_run ops)
       (\<lambda>b. \<lparr>cm_argv = [''git'', ''config'', fst kv, snd kv], cm_dir = bx_workdir b, cm_env = bx_environ b\<rparr>)
       (\<lambda>r m. berr ReasonSigning m)
       (\<lambda>r. if cr_exit r \<noteq> 0
         then quit (BoxError ReasonSigning (''git config '' @ fst kv @ '' exited '' @ itoa (cr_exit r)) (cr_exit r) (cr_stderr_tail r))
         else carry_on)"

definition committer :: "box_env \<Rightarrow> string" where
  "committer e = (if ev_git_name e = [] then ''faber-'' @ ev_identity e else ev_git_name e)"

definition configure_signing :: "'w os \<Rightarrow> 'w phase" where
  "configure_signing ops = look (\<lambda>b w.
     let e = bx_env b in
     if ev_remote_url e = [] then carry_on
     else engine_cmd (os_run ops) (\<lambda>b. \<lparr>cm_argv = [''ssh-add'', ''-L''], cm_dir = [], cm_env = bx_environ b\<rparr>)
       (\<lambda>r m. berr ReasonSigning m)
       (\<lambda>r. if cr_exit r \<noteq> 0
         then quit (BoxError ReasonSigning (''ssh-add -L exited '' @ itoa (cr_exit r) @ '' (no forwarded agent?)'')
           (cr_exit r) (cr_stderr_tail r))
         else (case nonempty_lines (cr_stdout r) of
             [key] \<Rightarrow>
               (case str_fields key of
                  alg # blob # _ \<Rightarrow>
                    if ev_git_email e = []
                    then quit (berr ReasonSigning (''no committer email for this role; a gated step requires one '' @ em_dash @
                      '' register it: faber add-key --role <role> --fingerprint <fp> --git-email <addr>''))
                    else each (git_config ops) [(''gpg.format'', ''ssh''), (''user.signingkey'', ''key::'' @ alg @ '' '' @ blob),
                      (''commit.gpgsign'', ''true''), (''user.name'', committer e), (''user.email'', ev_git_email e)]
                | _ \<Rightarrow> quit (berr ReasonSigning ''forwarded agent listed a malformed public key line''))
           | ks \<Rightarrow> quit (berr ReasonSigning (''forwarded agent lists '' @ itoa (int (length ks)) @
               '' keys; exactly one key per box'')))))"

subsection \<open>Hooks and the context bundle\<close>

abbreviation HookContext :: string where "HookContext \<equiv> ''context''"
abbreviation HookPrelude :: string where "HookPrelude \<equiv> ''prelude''"
abbreviation HookPostlude :: string where "HookPostlude \<equiv> ''postlude''"
abbreviation ContextDoc :: string where "ContextDoc \<equiv> ''CONTEXT.md''"
abbreviation BundleEnvFile :: string where "BundleEnvFile \<equiv> ''bundle.env''"
abbreviation BranchKey :: string where "BranchKey \<equiv> ''BRANCH''"
abbreviation SkipAgentKey :: string where "SkipAgentKey \<equiv> ''FABER_SKIP_AGENT''"

definition run_hook :: "'w os \<Rightarrow> string \<Rightarrow> 'w phase" where
  "run_hook ops name = look (\<lambda>b w.
     let hook = path_join (ev_hooks_dir (bx_env b)) name in
     case os_stat ops hook w of
       NotThere \<Rightarrow> carry_on
     | StatErr m \<Rightarrow> quit (berr ReasonHookFailed (''stat hook '' @ name @ '': '' @ m))
     | Exists \<Rightarrow>
         andthen (change (\<lambda>b. b\<lparr>bx_hook_declared := True\<rparr>))
           (engine_cmd (os_stream ops) (\<lambda>b. \<lparr>cm_argv = [hook], cm_dir = bx_workdir b, cm_env = bx_environ b\<rparr>)
             (\<lambda>r m. berr ReasonHookFailed (''run hook '' @ name @ '': '' @ m))
             (\<lambda>r. if cr_exit r \<noteq> 0
               then quit (BoxError ReasonHookFailed (''hook '' @ name @ '' exited '' @ itoa (cr_exit r)) (cr_exit r) (cr_stderr_tail r))
               else carry_on)))"

fun parse_bundle_lines :: "nat \<Rightarrow> string list \<Rightarrow> string smap \<Rightarrow> string + string smap" where
  "parse_bundle_lines i [] env = Inr env"
| "parse_bundle_lines i (l # ls) env =
     (let t = trim_space l in
      if t = [] \<or> has_prefix ''#'' t then parse_bundle_lines (Suc i) ls env
      else let bad = Inl (''box: '' @ BundleEnvFile @ '' line '' @ itoa (int (Suc i)) @ '': not KEY=VALUE'') in
        (case cut_at CHR ''='' t of
           None \<Rightarrow> bad
         | Some (k, v) \<Rightarrow>
             if k = [] \<or> CHR '' '' \<in> set k \<or> CHR 0x09 \<in> set k then bad
             else parse_bundle_lines (Suc i) ls (put k v env)))"

definition parse_bundle_env :: "string \<Rightarrow> string + string smap" where
  "parse_bundle_env content = parse_bundle_lines 0 (split_on newline content) []"

text \<open>No bundle is \<open>Inl None\<close>.\<close>

definition load_bundle :: "'w os \<Rightarrow> string \<Rightarrow> 'w \<Rightarrow> string option + ctx_bundle" where
  "load_bundle ops dir w =
     (case os_read ops (path_join dir ContextDoc) w of
        Missing \<Rightarrow> Inl None
      | ReadErr m \<Rightarrow> Inl (Some (''box: read '' @ ContextDoc @ '': '' @ m))
      | Bytes doc \<Rightarrow>
          if trim_space doc = [] then Inl None
          else (case os_read ops (path_join dir BundleEnvFile) w of
              Missing \<Rightarrow> Inr \<lparr>bn_dir = dir, bn_doc = doc, bn_env = []\<rparr>
            | ReadErr m \<Rightarrow> Inl (Some (''box: read '' @ BundleEnvFile @ '': '' @ m))
            | Bytes side \<Rightarrow>
                (case parse_bundle_env side of
                   Inl m \<Rightarrow> Inl (Some m)
                 | Inr env \<Rightarrow> Inr \<lparr>bn_dir = dir, bn_doc = doc, bn_env = env\<rparr>)))"

definition synthesized_doc :: "string smap \<Rightarrow> string" where
  "synthesized_doc ins =
     ''# Step inputs'' @ [CHR 0x0A] @
     concat (map (\<lambda>n. [CHR 0x0A] @ ''- '' @ n @ '': '' @ get_or [] ins n @ [CHR 0x0A]) (sorted_keys ins)) @
     (if ins = [] then [CHR 0x0A] @ ''(no bound inputs)'' @ [CHR 0x0A] else [])"

definition halt_requested :: "'w os \<Rightarrow> box \<Rightarrow> 'w \<Rightarrow> bool" where
  "halt_requested ops b w \<longleftrightarrow> os_stat ops (path_join (ev_result_dir (bx_env b)) HaltFile) w = Exists"

text \<open>What becomes of a loaded bundle: the skip request is taken out, then no key may be reserved.\<close>

definition adopt_bundle :: "ctx_bundle \<Rightarrow> 'w phase" where
  "adopt_bundle bundle = look (\<lambda>b w.
     if map_of (bn_env bundle) BranchKey \<noteq> None \<and> ev_remote_url (bx_env b) = []
     then quit (berr ReasonBundleMalformed (BranchKey @ '' declared as a side-effect but the step binds no repo''))
     else let skip = map_of (bn_env bundle) SkipAgentKey; side = del SkipAgentKey (bn_env bundle) in
       if skip \<noteq> None \<and> skip \<noteq> Some ''1''
       then quit (berr ReasonBundleMalformed (SkipAgentKey @ '': value is not the contract '' @ quote_str ''1'' @ '' '' @ em_dash @
         '' refusing to guess an agent-skip request''))
       else andthen (change (\<lambda>b. if skip \<noteq> None \<and> ev_agent_optional (bx_env b) then b\<lparr>bx_skip_agent := True\<rparr> else b))
         (case List.find reserved_sidecar_key (sorted_keys side) of
            Some k \<Rightarrow> quit (berr ReasonBundleMalformed (BundleEnvFile @ '': key '' @ quote_str k @
              '' is engine- or runner-owned and may not be overridden''))
          | None \<Rightarrow> change (\<lambda>b. b\<lparr>bx_bundle := Some (bundle\<lparr>bn_env := side\<rparr>)\<rparr>)))"

definition run_prelude_hook :: "'w os \<Rightarrow> 'w phase" where
  "run_prelude_hook ops =
     andthen (run_hook ops HookPrelude)
       (look (\<lambda>b w.
         if halt_requested ops b w then carry_on
         else andthen
           (if \<not> bx_hook_declared b
            then perform (os_write ops (path_join (ev_bundle_dir (bx_env b)) ContextDoc) (synthesized_doc (ev_inputs (bx_env b))))
              (\<lambda>m. berr ReasonBundleMissing (''synthesize bundle: '' @ m))
            else carry_on)
           (look (\<lambda>b w. case load_bundle ops (ev_bundle_dir (bx_env b)) w of
               Inl None \<Rightarrow> quit (berr ReasonBundleMissing (''hooks exited 0 but '' @ ContextDoc @
                 '' is missing or empty in the bundle directory''))
             | Inl (Some m) \<Rightarrow> quit (berr ReasonBundleMalformed m)
             | Inr bundle \<Rightarrow> adopt_bundle bundle))))"

subsection \<open>The agent\<close>

text \<open>One pass over the template; the texts put in are not read again.\<close>

function expand_prompt :: "string \<Rightarrow> string \<Rightarrow> string \<Rightarrow> string \<Rightarrow> string" where
  "expand_prompt skill body extra t =
     (case t of
        [] \<Rightarrow> []
      | c # cs \<Rightarrow>
          if has_prefix ''{skill}'' t then skill @ expand_prompt skill body extra (drop 7 t)
          else if has_prefix ''{body}'' t then body @ expand_prompt skill body extra (drop 6 t)
          else if has_prefix ''{extra}'' t then extra @ expand_prompt skill body extra (drop 7 t)
          else c # expand_prompt skill body extra cs)"
  by pat_completeness auto
termination by (relation "measure (\<lambda>(s, b, e, t). length t)") auto

declare expand_prompt.simps [simp del]

record invocation =
  in_cli :: string
  in_profile :: resolved_invoke
  in_skill :: string
  in_body :: string
  in_extra :: string
  in_model :: string
  in_effort :: string
  in_max_budget :: string

definition prompt :: "invocation \<Rightarrow> string" where
  "prompt i =
     expand_prompt (in_skill i) (in_body i)
       (if in_extra i \<noteq> [] then [CHR 0x0A, CHR 0x0A] @ ''ADDITIONAL INSTRUCTION: '' @ in_extra i else [])
       (ri_prompt_template (in_profile i))"

definition flag_pair :: "string \<Rightarrow> string \<Rightarrow> string list" where
  "flag_pair flag v = (if flag \<noteq> [] \<and> v \<noteq> [] then [flag, v] else [])"

definition agent_argv :: "invocation \<Rightarrow> string list" where
  "agent_argv i =
     (let p = in_profile i in
      in_cli i # ri_subcommand p @ (if ri_prompt_flag p \<noteq> [] then [ri_prompt_flag p] else []) @ [prompt i] @
      (if ri_skill_mode p = SkillModeFlag then [ri_skill_flag p, in_skill i] else []) @ ri_fixed_flags p @
      flag_pair (ri_model_flag p) (in_model i) @ flag_pair (ri_effort_flag p) (in_effort i) @
      flag_pair (ri_budget_flag p) (in_max_budget i))"

definition invocation_of :: "box \<Rightarrow> string \<Rightarrow> invocation" where
  "invocation_of b doc =
     (let e = bx_env b in
      \<lparr>in_cli = ev_agent_cli e, in_profile = ev_invoke e, in_skill = ev_skill e, in_body = doc, in_extra = ev_extra e,
       in_model = ev_model e, in_effort = ev_effort e, in_max_budget = ev_max_budget e\<rparr>)"

text \<open>A prelude that asked to halt leaves no bundle; a phase that reads it then dereferences nil.\<close>

definition env_entries_of :: "string smap \<Rightarrow> string list" where
  "env_entries_of m = map (\<lambda>k. k @ ''='' @ get_or [] m k) (sorted_keys m)"

definition run_agent :: "'w os \<Rightarrow> 'w phase" where
  "run_agent ops = look (\<lambda>b w.
     if bx_skip_agent b then carry_on
     else if ev_check (bx_env b) then carry_on
     else case bx_bundle b of
         None \<Rightarrow> quit Panic
       | Some bundle \<Rightarrow>
           engine_cmd (os_stream ops)
             (\<lambda>b. \<lparr>cm_argv = agent_argv (invocation_of b (bn_doc bundle)), cm_dir = bx_workdir b,
                cm_env = bx_environ b @ env_entries_of (bn_env bundle)\<rparr>)
             (\<lambda>r m. berr ReasonAgentFailed (''run agent: '' @ m))
             (\<lambda>r. if cr_exit r \<noteq> 0
               then quit (BoxError ReasonAgentFailed (''agent exited '' @ itoa (cr_exit r)) (cr_exit r) (cr_stderr_tail r))
               else carry_on))"

subsection \<open>The result\<close>

definition read_output :: "box_lib \<Rightarrow> file_read \<Rightarrow> phase_err + (goval smap \<times> bool)" where
  "read_output lib f =
     (case f of
        Missing \<Rightarrow> Inr ([], True)
      | ReadErr m \<Rightarrow> Inl (berr ReasonOutputSchema (''read '' @ OutputFile @ '': '' @ m))
      | Bytes raw \<Rightarrow>
          (case json_unmarshal (bl_parse_float lib) raw of
             Some VNull \<Rightarrow> Inr ([], False)
           | Some (VMap m) \<Rightarrow> Inr (m, False)
           | _ \<Rightarrow> Inl (berr ReasonOutputSchema (OutputFile @ '' is not a JSON object: '' @ bl_json_error lib raw))))"

definition verify_side_effects :: "'w os \<Rightarrow> 'w phase" where
  "verify_side_effects ops = look (\<lambda>b w.
     case bx_bundle b of
       None \<Rightarrow> quit Panic
     | Some bundle \<Rightarrow>
         (case map_of (bn_env bundle) BranchKey of
            None \<Rightarrow> carry_on
          | Some branch \<Rightarrow>
              engine_cmd (os_run ops)
                (\<lambda>b. \<lparr>cm_argv = [''git'', ''ls-remote'', ''--exit-code'', ''origin'', ''refs/heads/'' @ branch],
                   cm_dir = bx_workdir b, cm_env = bx_environ b\<rparr>)
                (\<lambda>r m. berr ReasonSideEffectUnverified (''verify branch '' @ quote_str branch @ '': '' @ m))
                (\<lambda>r. if cr_exit r \<noteq> 0
                  then quit (BoxError ReasonSideEffectUnverified
                    (''declared branch '' @ quote_str branch @ '' does not exist on the gateway'') (cr_exit r) (cr_stderr_tail r))
                  else carry_on)))"

definition write_json :: "'w os \<Rightarrow> string \<Rightarrow> string \<Rightarrow> string + string \<Rightarrow> 'w \<Rightarrow> string option \<times> 'w" where
  "write_json ops dir name enc w =
     (case enc of
        Inl m \<Rightarrow> (Some (''contract: marshal '' @ name @ '': '' @ m), w)
      | Inr raw \<Rightarrow> apfst (map_option (\<lambda>m. ''contract: write '' @ name @ '': '' @ m)) (os_replace ops dir name (raw @ [newline]) w))"

definition write_result_file :: "box_lib \<Rightarrow> 'w os \<Rightarrow> string \<Rightarrow> box_result \<Rightarrow> 'w \<Rightarrow> string option \<times> 'w" where
  "write_result_file lib ops dir rec = write_json ops dir ResultFile (bc_result_enc (bl_codec lib) (stamp rec))"

definition ok_record :: "box \<Rightarrow> goval smap \<Rightarrow> bool \<Rightarrow> box_result" where
  "ok_record b payload fallback = zero_box_result\<lparr>br_status := StatusOK, br_payload := payload,
     br_unthreaded := snd (validate_output (ev_schema (bx_env b)) payload), br_fallback := fallback,
     br_agent_skipped := bx_skip_agent b, br_check := ev_check (bx_env b), br_timing := bx_timing b,
     br_attempt := ev_attempt (bx_env b)\<rparr>"

definition output_errors :: "box \<Rightarrow> goval smap \<Rightarrow> bool \<Rightarrow> phase_err option" where
  "output_errors b payload fallback =
     (let vs = fst (validate_output (ev_schema (bx_env b)) payload) in
      if vs = [] then None
      else if fallback then Some (berr ReasonMissingOutput
        ((if bx_skip_agent b
          then ''the agent was skipped by the prelude and neither the prelude nor the postlude satisfied the output contract: ''
          else []) @ join_violations vs))
      else Some (berr ReasonOutputSchema (join_violations vs)))"

text \<open>The end of the result phase, once the payload is known.\<close>

definition emit_payload :: "box_lib \<Rightarrow> 'w os \<Rightarrow> goval smap \<Rightarrow> bool \<Rightarrow> 'w phase" where
  "emit_payload lib ops payload fallback = look (\<lambda>b w.
     case output_errors b payload fallback of
       Some e \<Rightarrow> quit e
     | None \<Rightarrow>
         andthen (verify_side_effects ops)
           (look (\<lambda>b w. perform (write_result_file lib ops (ev_result_dir (bx_env b)) (ok_record b payload fallback))
             (berr ReasonResultWrite))))"

definition emit_result :: "box_lib \<Rightarrow> 'w os \<Rightarrow> 'w phase" where
  "emit_result lib ops = look (\<lambda>b w.
     case read_output lib (os_read ops (path_join (ev_result_dir (bx_env b)) OutputFile) w) of
       Inl e \<Rightarrow> quit e
     | Inr r \<Rightarrow> emit_payload lib ops
         (if snd r \<and> ev_check (bx_env b) then placeholder_payload (ev_schema (bx_env b)) else fst r) (snd r))"

subsection \<open>Halt requests\<close>

text \<open>A string field of the halt file: absent or \<open>null\<close> it stays empty, any other kind is an error.\<close>

definition string_field :: "string \<Rightarrow> goval smap \<Rightarrow> string option" where
  "string_field name m = (case json_field name m of None \<Rightarrow> Some [] | Some VNull \<Rightarrow> Some [] | Some (VStr s) \<Rightarrow> Some s | _ \<Rightarrow> None)"

definition decode_halt :: "string \<Rightarrow> (string \<times> string) option" where
  "decode_halt raw =
     (case json_parse raw of
        Some VNull \<Rightarrow> Some ([], [])
      | Some (VMap m) \<Rightarrow>
          (case (string_field ''reason'' m, string_field ''detail'' m) of (Some r, Some d) \<Rightarrow> Some (r, d) | _ \<Rightarrow> None)
      | _ \<Rightarrow> None)"

definition halt_record_of :: "box \<Rightarrow> string \<Rightarrow> string \<times> string \<Rightarrow> box_result" where
  "halt_record_of b phase rd = zero_box_result\<lparr>br_status := StatusHalted,
     br_halt := Some \<lparr>rh_reason = fst rd, rh_detail = snd rd, rh_phase = phase\<rparr>, br_timing := bx_timing b,
     br_attempt := ev_attempt (bx_env b)\<rparr>"

definition check_halt :: "box_lib \<Rightarrow> 'w os \<Rightarrow> string \<Rightarrow> box \<times> 'w \<Rightarrow> (phase_err + bool) \<times> (box \<times> 'w)" where
  "check_halt lib ops phase = (\<lambda>(b, w).
     let dir = ev_result_dir (bx_env b) in
     case read_bounded HaltFile (os_read ops (path_join dir HaltFile) w) of
       Missing \<Rightarrow> (Inr False, (b, w))
     | ReadErr m \<Rightarrow> (Inl (berr ReasonHaltInvalid (''read '' @ HaltFile @ '': '' @ m)), (b, w))
     | Bytes raw \<Rightarrow>
         (case decode_halt raw of
            None \<Rightarrow> (Inl (berr ReasonHaltInvalid (HaltFile @ '' is not a JSON object: '' @ bl_json_error lib raw)), (b, w))
          | Some rd \<Rightarrow>
              if trim_space (fst rd) = []
              then (Inl (berr ReasonHaltInvalid (HaltFile @ '' names no reason; a halt request must say why'')), (b, w))
              else (case write_result_file lib ops dir (halt_record_of b phase rd) w of
                  (Some m, w') \<Rightarrow> (Inl (berr ReasonResultWrite m), (b, w'))
                | (None, w') \<Rightarrow> (Inr True, (b, w')))))"

subsection \<open>The failure funnel\<close>

definition default_reason :: "string smap" where
  "default_reason = [(''env'', ReasonEnvContract), (''secrets'', ReasonSecrets), (''hostkey'', ReasonHostKeyPolicy),
     (''clone'', ReasonCloneFailed), (''signing'', ReasonSigning), (''context'', ReasonHookFailed),
     (''prelude'', ReasonHookFailed), (''agent'', ReasonAgentFailed), (''postlude'', ReasonHookFailed),
     (''result'', ReasonResultWrite)]"

text \<open>The reason, detail, exit code and error tail of a failure.\<close>

definition as_box_error :: "string \<Rightarrow> phase_err \<Rightarrow> string \<times> string \<times> int \<times> string" where
  "as_box_error phase e =
     (case e of
        BoxError r d x t \<Rightarrow> (r, d, x, t)
      | PlainError m \<Rightarrow> (case map_of default_reason phase of None \<Rightarrow> phase | Some r \<Rightarrow> r, m, 0, [])
      | Panic \<Rightarrow> ([], [], 0, []))"

fun slot_inputs :: "string smap \<Rightarrow> string list \<Rightarrow> string smap \<Rightarrow> string smap" where
  "slot_inputs ins [] m = m"
| "slot_inputs ins (s # ss) m =
     slot_inputs ins ss (case map_of ins (env_token s) of None \<Rightarrow> m | Some v \<Rightarrow> put s v m)"

definition handoff_record :: "box \<Rightarrow> string \<Rightarrow> string \<times> string \<times> int \<times> string \<Rightarrow> handoff" where
  "handoff_record b phase be =
     (let keyed = ev_slots (bx_env b) \<noteq> [] in
      \<lparr>ho_keying = (if keyed then HandoffKeyingSlot else []), ho_phase = phase, ho_reason = fst be,
       ho_exit_code = fst (snd (snd be)), ho_stderr_tail = snd (snd (snd be)),
       ho_inputs = (if keyed then slot_inputs (ev_inputs (bx_env b)) (ev_slots (bx_env b)) [] else ev_inputs (bx_env b)),
       ho_workdir = bx_workdir b\<rparr>)"

definition box_failure_record :: "box \<Rightarrow> string \<times> string \<times> int \<times> string \<Rightarrow> string \<Rightarrow> box_result" where
  "box_failure_record b be handoff = zero_box_result\<lparr>br_status := StatusFailed,
     br_error := Some \<lparr>be_reason = fst be, be_detail = fst (snd be), be_handoff = handoff\<rparr>,
     br_agent_skipped := bx_skip_agent b, br_check := ev_check (bx_env b), br_timing := bx_timing b,
     br_attempt := ev_attempt (bx_env b)\<rparr>"

definition snapshot_bundle :: "'w os \<Rightarrow> box \<Rightarrow> string \<Rightarrow> 'w \<Rightarrow> 'w" where
  "snapshot_bundle ops b dir w =
     (let src = ev_bundle_dir (bx_env b) in
      if src = [] \<or> os_stat ops src w \<noteq> Exists then w else snd (os_copy_fs ops src (path_join dir ''handoff/bundle'') w))"

text \<open>Errors in here are only logged.\<close>

definition fail_stop :: "box_lib \<Rightarrow> 'w os \<Rightarrow> string \<Rightarrow> phase_err \<Rightarrow> box \<times> 'w \<Rightarrow> box \<times> 'w" where
  "fail_stop lib ops phase e = (\<lambda>(b, w).
     let be = as_box_error phase e; dir = ev_result_dir (bx_env b) in
     if dir = [] then (b, w)
     else case write_json ops dir HandoffFile (bc_handoff_enc (bl_codec lib) (handoff_record b phase be)) w of
         (err, w1) \<Rightarrow>
           (b, snd (write_result_file lib ops dir (box_failure_record b be (if err = None then HandoffFile else []))
             (snapshot_bundle ops b dir w1))))"

subsection \<open>The driver\<close>

definition phases :: "box_lib \<Rightarrow> 'w os \<Rightarrow> (string \<times> 'w phase \<times> bool) list" where
  "phases lib ops =
     [(''skills'', link_skills ops, False), (''env'', check_env lib ops, False), (''secrets'', load_secrets lib ops, False),
      (''hostkey'', apply_host_key_policy ops, False), (''clone'', clone ops, False), (''signing'', configure_signing ops, False),
      (''context'', run_hook ops HookContext, True), (''prelude'', run_prelude_hook ops, True),
      (''agent'', run_agent ops, True), (''postlude'', run_hook ops HookPostlude, True),
      (''result'', emit_result lib ops, False)]"

text \<open>A phase between its clock readings.\<close>

definition timed :: "'w os \<Rightarrow> string \<Rightarrow> 'w phase \<Rightarrow> 'w phase" where
  "timed ops name p = (\<lambda>(b, w).
     let start = fst (os_now ops w); r = p (b, snd (os_now ops w)); w2 = snd (snd r) in
     if fst r = Some Panic then r
     else (fst r, ((fst (snd r))\<lparr>bx_timing := put name (fst (os_now ops w2) - start) (bx_timing (fst (snd r)))\<rparr>, snd (os_now ops w2))))"

text \<open>The exit code and the state at exit; a nil dereference exits with 2 and writes no record.\<close>

definition stop_at :: "box_lib \<Rightarrow> 'w os \<Rightarrow> string \<Rightarrow> phase_err \<Rightarrow> box \<times> 'w \<Rightarrow> int \<times> (box \<times> 'w)" where
  "stop_at lib ops name e s = (if e = Panic then (2, s) else (1, fail_stop lib ops name e s))"

fun run_phases :: "box_lib \<Rightarrow> 'w os \<Rightarrow> (string \<times> 'w phase \<times> bool) list \<Rightarrow> box \<times> 'w \<Rightarrow> int \<times> (box \<times> 'w)" where
  "run_phases lib ops [] s = (0, s)"
| "run_phases lib ops ((name, p, user) # ps) s =
     (case timed ops name p s of
        (Some e, s1) \<Rightarrow> stop_at lib ops name e s1
      | (None, s1) \<Rightarrow>
          if user then
            (case check_halt lib ops name s1 of
               (Inl e, s2) \<Rightarrow> stop_at lib ops name e s2
             | (Inr halted, s2) \<Rightarrow> if halted then (0, s2) else run_phases lib ops ps s2)
          else run_phases lib ops ps s1)"

definition box_main :: "box_lib \<Rightarrow> 'w os \<Rightarrow> box \<times> 'w \<Rightarrow> int \<times> (box \<times> 'w)" where
  "box_main lib ops s =
     (case enter_run_user ops s of
        (Some e, s1) \<Rightarrow> stop_at lib ops ''preamble'' e s1
      | (None, s1) \<Rightarrow> run_phases lib ops (phases lib ops) s1)"

end
