(* ===== verification/BoxInv.thy ===== *)
theory BoxInv
  imports BoxRun
begin

text \<open>
  What every run of the box keeps. A property of states (\<open>I\<close>, and \<open>E\<close> at an error) that survives the
  single operations a phase may do survives every phase and the whole program: the locales state the
  laws of the operations, their lemmas are proved once for all properties.
\<close>

definition ends_in :: "('s \<Rightarrow> bool) \<Rightarrow> ('s \<Rightarrow> bool) \<Rightarrow> phase_err option \<times> 's \<Rightarrow> bool" where
  "ends_in Q E r \<longleftrightarrow> (case fst r of None \<Rightarrow> Q (snd r) | Some e \<Rightarrow> E (snd r))"

definition triple :: "(box \<times> 'w \<Rightarrow> bool) \<Rightarrow> 'w phase \<Rightarrow> (box \<times> 'w \<Rightarrow> bool) \<Rightarrow> (box \<times> 'w \<Rightarrow> bool) \<Rightarrow> bool" where
  "triple P p Q E \<longleftrightarrow> (\<forall>s. P s \<longrightarrow> ends_in Q E (p s))"

lemma ends_in_simps [simp]: "ends_in Q E (None, s) = Q s" "ends_in Q E (Some e, s) = E s"
  by (simp_all add: ends_in_def)

lemma tripleI: "(\<And>b w. P (b, w) \<Longrightarrow> ends_in Q E (p (b, w))) \<Longrightarrow> triple P p Q E"
  by (simp add: triple_def)

lemma tripleD: "triple P p Q E \<Longrightarrow> P s \<Longrightarrow> ends_in Q E (p s)"
  unfolding triple_def by blast

lemma triple_carry: "triple I carry_on I E"
  by (simp add: triple_def carry_on_def)

lemma triple_seq: "triple P p I E \<Longrightarrow> triple I q R E \<Longrightarrow> triple P (andthen p q) R E"
  unfolding triple_def andthen_def ends_in_def by (fastforce split: prod.split option.splits)

lemma triple_each: "(\<And>x. x \<in> set xs \<Longrightarrow> triple I (f x) I E) \<Longrightarrow> triple I (each f xs) I E"
  by (induction xs) (auto intro: triple_carry triple_seq)

lemma triple_look: "(\<And>b w. I (b, w) \<Longrightarrow> triple I (f b w) Q E) \<Longrightarrow> triple I (look f) Q E"
  by (rule tripleI) (auto simp: look_def dest: tripleD)

lemma triple_if: "(c \<Longrightarrow> triple I p Q E) \<Longrightarrow> (\<not> c \<Longrightarrow> triple I q Q E) \<Longrightarrow> triple I (if c then p else q) Q E"
  by simp

subsection \<open>Operations that start no process and put no record\<close>

inductive silent :: "'w os \<Rightarrow> 'w \<Rightarrow> 'w \<Rightarrow> bool" for ops where
  op_now: "silent ops w (snd (os_now ops w))"
| op_chown: "silent ops w (snd (os_chown ops p u g w))"
| op_setgroups: "silent ops w (snd (os_setgroups ops gs w))"
| op_setgid: "silent ops w (snd (os_setgid ops g w))"
| op_setuid: "silent ops w (snd (os_setuid ops u w))"
| op_mkdir: "silent ops w (snd (os_mkdir_all ops p w))"
| op_symlink: "silent ops w (snd (os_symlink ops t p w))"
| op_write: "silent ops w (snd (os_write ops p c w))"
| op_temp_file: "silent ops w (snd (os_temp_file ops c w))"
| op_temp_dir: "silent ops w (snd (os_temp_dir ops w))"
| op_copy: "silent ops w (snd (os_copy_fs ops p q w))"
| op_stdin: "silent ops w (snd (os_stdin ops w))"

definition free_key :: "string \<Rightarrow> bool" where
  "free_key k \<longleftrightarrow> \<not> has_prefix ''FABER_'' k"

definition free_side :: "string smap \<Rightarrow> bool" where
  "free_side m \<longleftrightarrow> (\<forall>k \<in> keys m. free_key k)"

text \<open>What the phases change in a box beside its environment and its bundle.\<close>

inductive retouch :: "box \<Rightarrow> box \<Rightarrow> bool" where
  workdir: "retouch b (b\<lparr>bx_workdir := d\<rparr>)"
| timing: "retouch b (b\<lparr>bx_timing := t\<rparr>)"
| declared: "retouch b (b\<lparr>bx_hook_declared := True\<rparr>)"
| skip: "retouch b (b\<lparr>bx_skip_agent := True\<rparr>)"
| env: "retouch b (b\<lparr>bx_env := snd (env_validate cd (bx_env b))\<rparr>)"

locale box_invariant =
  fixes ops :: "'w os" and I :: "box \<times> 'w \<Rightarrow> bool" and E :: "box \<times> 'w \<Rightarrow> bool"
  assumes weaken: "I s \<Longrightarrow> E s"
    and silent_I: "I (b, w) \<Longrightarrow> silent ops w w' \<Longrightarrow> I (b, w')"
    and retouch_I: "I (b, w) \<Longrightarrow> retouch b b' \<Longrightarrow> I (b', w)"
    and environ_I: "I (b, w) \<Longrightarrow> free_key k \<Longrightarrow> I (b\<lparr>bx_environ := set_env_entry k v (bx_environ b)\<rparr>, w)"
    and bundle_I: "I (b, w) \<Longrightarrow> free_side (bn_env bn) \<Longrightarrow> I (b\<lparr>bx_bundle := Some bn\<rparr>, w)"
    and side_I: "I (b, w) \<Longrightarrow> bx_bundle b = Some bn \<Longrightarrow> free_side (bn_env bn)"
    and run_I: "I (b, w) \<Longrightarrow> cm_env cmd = bx_environ b \<Longrightarrow> os_run ops cmd w = ((r, m), w') \<Longrightarrow>
      E (b, w') \<and> (m = None \<and> cr_exit r = 0 \<longrightarrow> I (b, w'))"
    and stream_I: "I (b, w) \<Longrightarrow> free_side side \<Longrightarrow> cm_env cmd = bx_environ b @ env_entries_of side \<Longrightarrow>
      os_stream ops cmd w = ((r, m), w') \<Longrightarrow> E (b, w') \<and> (m = None \<and> cr_exit r = 0 \<longrightarrow> I (b, w'))"
begin

lemma quit_I: "triple I (quit e) Q E"
  by (rule tripleI) (simp add: quit_def weaken)

lemma seq_I: "triple I p I E \<Longrightarrow> triple I q Q E \<Longrightarrow> triple I (andthen p q) Q E"
  by (rule triple_seq)

lemma change_I: "(\<And>b. retouch b (f b)) \<Longrightarrow> triple I (change f) I E"
  by (rule tripleI) (auto simp: change_def intro: retouch_I)

lemma perform_I: "(\<And>w. silent ops w (snd (act w))) \<Longrightarrow> triple I (perform act f) I E"
proof (rule tripleI)
  fix b w assume a: "\<And>w. silent ops w (snd (act w))" "I (b, w)"
  obtain r w' where r: "act w = (r, w')" by (cases "act w")
  then have "I (b, w')" using silent_I [OF a(2) a(1) [of w]] by simp
  then show "ends_in I E (perform act f (b, w))" using weaken r by (cases r) (auto simp: perform_def)
qed

lemma set_env_I: "free_key k \<Longrightarrow> triple I (set_env k v) I E"
  unfolding set_env_def by (rule tripleI) (simp add: change_def environ_I)

lemma cmd_I:
  assumes "run (cmd b) w = ((r, m), w')" and "E (b, w')" and "m = None \<Longrightarrow> cr_exit r = 0 \<Longrightarrow> I (b, w')"
    and "\<And>r. cr_exit r = 0 \<Longrightarrow> triple I (k r) Q E" and "\<And>r. cr_exit r \<noteq> 0 \<Longrightarrow> \<exists>e. k r = quit e"
  shows "ends_in Q E (engine_cmd run cmd f k (b, w))"
proof (cases m)
  case None
  then have e: "engine_cmd run cmd f k (b, w) = k r (b, w')" by (simp add: engine_cmd_def assms(1))
  show ?thesis
  proof (cases "cr_exit r = 0")
    case True
    with None assms(3) have "I (b, w')" by blast
    with tripleD [OF assms(4) [OF True]] e show ?thesis by simp
  next
    case False
    from assms(5) [OF this] obtain er where "k r = quit er" by blast
    with e assms(2) show ?thesis by (simp add: quit_def)
  qed
next
  case (Some x)
  then show ?thesis by (simp add: engine_cmd_def assms(1,2) quit_def)
qed

lemma engine_run_I:
  assumes "\<And>b. cm_env (cmd b) = bx_environ b" and "\<And>r. cr_exit r = 0 \<Longrightarrow> triple I (k r) Q E"
    and "\<And>r. cr_exit r \<noteq> 0 \<Longrightarrow> \<exists>e. k r = quit e"
  shows "triple I (engine_cmd (os_run ops) cmd f k) Q E"
proof (rule tripleI)
  fix b w assume i: "I (b, w)"
  obtain r m w' where r: "os_run ops (cmd b) w = ((r, m), w')" by (metis surj_pair)
  note c = run_I [OF i assms(1) r]
  show "ends_in Q E (engine_cmd (os_run ops) cmd f k (b, w))"
    by (rule cmd_I [where run = "os_run ops" and cmd = cmd, OF r]) (use c assms(2,3) in blast)+
qed

lemma engine_stream_I:
  assumes "\<And>b. cm_env (cmd b) = bx_environ b @ env_entries_of side" and "free_side side"
    and "\<And>r. cr_exit r = 0 \<Longrightarrow> triple I (k r) Q E" and "\<And>r. cr_exit r \<noteq> 0 \<Longrightarrow> \<exists>e. k r = quit e"
  shows "triple I (engine_cmd (os_stream ops) cmd f k) Q E"
proof (rule tripleI)
  fix b w assume i: "I (b, w)"
  obtain r m w' where r: "os_stream ops (cmd b) w = ((r, m), w')" by (metis surj_pair)
  note c = stream_I [OF i assms(2) assms(1) r]
  show "ends_in Q E (engine_cmd (os_stream ops) cmd f k (b, w))"
    by (rule cmd_I [where run = "os_stream ops" and cmd = cmd, OF r]) (use c assms(3,4) in blast)+
qed

lemmas phase_rules = triple_carry quit_I seq_I triple_each triple_look triple_if perform_I set_env_I silent.intros

lemma enter_run_user_I: "triple I (enter_run_user ops) I E"
  unfolding enter_run_user_def chown_to_user_def Let_def
  by (intro phase_rules) (simp_all add: free_key_def has_prefix_def)

lemma link_skills_I: "triple I (link_skills ops) I E"
  unfolding link_skills_def Let_def by (intro phase_rules)

lemma check_env_I: "triple I (check_env lib ops) I E"
proof -
  have v: "triple I (look (\<lambda>b w. let r = env_validate (bl_codec lib) (bx_env b) in
      andthen (change (\<lambda>b. b\<lparr>bx_env := snd r\<rparr>))
        (if fst r \<noteq> [] then quit (berr ReasonEnvContract (join [CHR 0x0A] (fst r))) else carry_on))) I E"
  proof (rule tripleI)
    fix b w assume "I (b, w)"
    then have "I (b\<lparr>bx_env := snd (env_validate (bl_codec lib) (bx_env b))\<rparr>, w)" by (rule retouch_I [OF _ retouch.env])
    then show "ends_in I E (look (\<lambda>b w. let r = env_validate (bl_codec lib) (bx_env b) in
      andthen (change (\<lambda>b. b\<lparr>bx_env := snd r\<rparr>))
        (if fst r \<noteq> [] then quit (berr ReasonEnvContract (join [CHR 0x0A] (fst r))) else carry_on)) (b, w))"
      using weaken by (simp add: look_def Let_def andthen_def change_def quit_def carry_on_def)
  qed
  show ?thesis unfolding check_env_def by (rule seq_I [OF v]) (intro phase_rules)
qed

lemma write_token_I: "triple I (write_token lib ops dir p) I E"
  unfolding write_token_def by (cases "bl_base64 lib (snd p)") (auto intro!: phase_rules)

lemma materialize_I: "triple I (materialize_stdin_secrets lib ops) I E"
proof (rule tripleI)
  fix b w assume i: "I (b, w)"
  obtain r w' where r: "os_stdin ops w = (r, w')" by (cases "os_stdin ops w")
  have i': "I (b, w')" using silent_I [OF i silent.op_stdin] r by (metis snd_conv)
  have t: "triple I (andthen (perform (os_mkdir_all ops d) g) (each (write_token lib ops d) payload)) I E" for d g payload
    by (intro phase_rules write_token_I)
  show "ends_in I E (materialize_stdin_secrets lib ops (b, w))"
    using weaken [OF i] weaken [OF i'] tripleD [OF t i'] r
    by (auto simp: materialize_stdin_secrets_def quit_def split: sum.split option.split)
qed

lemma unreserved_free: "\<not> reserved_sidecar_key k \<Longrightarrow> free_key k"
  by (simp add: reserved_sidecar_key_def engine_owned_def free_key_def)

lemma export_secrets_I: "triple I (export_secrets ops seen es) I E"
proof (induction es arbitrary: seen)
  case (Cons e es)
  obtain name is_dir where e: "e = (name, is_dir)" by (cases e)
  have t: "triple I (look (\<lambda>b w. case os_read ops (path_join (ev_secrets_dir (bx_env b)) name) w of
        Bytes raw \<Rightarrow> andthen (set_env (env_token name) (trim_space raw)) (export_secrets ops (put (env_token name) name seen) es)
      | Missing \<Rightarrow> quit x | ReadErr m \<Rightarrow> quit (y m))) I E" if "\<not> reserved_sidecar_key (env_token name)" for x y
    by (rule triple_look) (auto intro!: phase_rules Cons.IH unreserved_free that split: file_read.split)
  show ?case unfolding e using t Cons.IH by (auto intro!: quit_I simp: Let_def split: option.split)
qed (simp add: triple_carry)

lemma load_secrets_I: "triple I (load_secrets lib ops) I E"
  unfolding load_secrets_def
  by (intro phase_rules materialize_I) (auto intro!: triple_look quit_I triple_carry export_secrets_I split: dir_read.split)

lemma known_hosts_I:
  assumes "\<And>f. triple I (k f) I E"
  shows "triple I (write_known_hosts ops line k) I E"
proof (rule tripleI)
  fix b w assume i: "I (b, w)"
  show "ends_in I E (write_known_hosts ops line k (b, w))"
    using weaken [OF i] weaken [OF silent_I [OF i silent.op_temp_file]] tripleD [OF assms silent_I [OF i silent.op_temp_file]]
    by (auto simp: write_known_hosts_def Let_def quit_def split: prod.split sum.split) (metis snd_conv)+
qed

lemma free_constants: "free_key ''GIT_SSH_COMMAND''" "free_key ''HOME''"
  by (simp_all add: free_key_def has_prefix_def)

lemma hostkey_I: "triple I (apply_host_key_policy ops) I E"
  unfolding apply_host_key_policy_def Let_def by (intro phase_rules known_hosts_I free_constants)

lemma clone_I: "triple I (clone ops) I E"
proof (rule tripleI)
  fix b w assume i: "I (b, w)"
  have g: "triple I (andthen (perform (os_mkdir_all ops d) g) (engine_cmd (os_run ops)
      (\<lambda>b. \<lparr>cm_argv = argv, cm_dir = [], cm_env = bx_environ b\<rparr>) f
      (\<lambda>r. if cr_exit r \<noteq> 0 then quit (h r) else change (\<lambda>b. b\<lparr>bx_workdir := t\<rparr>)))) I E" for d g argv f h t
    by (intro phase_rules engine_run_I) (auto intro: change_I retouch.workdir)
  obtain r w' where r: "os_temp_dir ops w = (r, w')" by (cases "os_temp_dir ops w")
  have i': "I (b, w')" using silent_I [OF i silent.op_temp_dir] r by (metis snd_conv)
  show "ends_in I E (clone ops (b, w))"
  proof (cases "ev_remote_url (bx_env b) = []")
    case True
    with r weaken [OF i'] retouch_I [OF i' retouch.workdir] show ?thesis
      by (auto simp: clone_def Let_def quit_def change_def split: sum.split)
  next
    case False
    with tripleD [OF g i] show ?thesis by (simp add: clone_def Let_def)
  qed
qed

lemma git_config_I: "triple I (git_config ops kv) I E"
  unfolding git_config_def by (rule engine_run_I) (auto intro: triple_carry)

lemma configure_signing_I: "triple I (configure_signing ops) I E"
proof -
  have "triple I (case nonempty_lines out of [key] \<Rightarrow>
        (case str_fields key of alg # blob # _ \<Rightarrow> if c then quit x else each (git_config ops) (kvs alg blob) | _ \<Rightarrow> quit y)
      | ks \<Rightarrow> quit (z ks)) I E" for out c x y z kvs
    by (auto intro!: quit_I triple_if triple_each git_config_I split: list.split)
  then show ?thesis unfolding configure_signing_def Let_def
    by (intro phase_rules engine_run_I) auto
qed

lemma run_hook_I: "triple I (run_hook ops name) I E"
proof -
  have f: "free_side []" by (simp add: free_side_def)
  have "triple I (andthen (change (\<lambda>b. b\<lparr>bx_hook_declared := True\<rparr>))
      (engine_cmd (os_stream ops) (\<lambda>b. \<lparr>cm_argv = argv, cm_dir = bx_workdir b, cm_env = bx_environ b\<rparr>) g
        (\<lambda>r. if cr_exit r \<noteq> 0 then quit (h r) else carry_on))) I E" for argv g h
    by (rule seq_I [OF change_I engine_stream_I [OF _ f]])
      (auto intro: retouch.declared triple_carry simp: env_entries_of_def sorted_keys_def)
  then show ?thesis unfolding run_hook_def Let_def
    by (intro triple_look) (auto intro: quit_I triple_carry split: stat_res.split)
qed

lemma adopt_bundle_I: "triple I (adopt_bundle bn) I E"
proof -
  have b: "triple I (change (\<lambda>b. b\<lparr>bx_bundle := Some (bn\<lparr>bn_env := side\<rparr>)\<rparr>)) I E"
    if "List.find reserved_sidecar_key (sorted_keys side) = None" for side
  proof -
    have "free_side side" using that unreserved_free unfolding free_side_def find_None_iff sorted_keys_dom by blast
    then show ?thesis by (intro tripleI) (simp add: change_def bundle_I)
  qed
  have s: "triple I (change (\<lambda>b. if c b then b\<lparr>bx_skip_agent := True\<rparr> else b)) I E" for c
    by (rule tripleI) (auto simp: change_def intro: retouch_I retouch.skip)
  show ?thesis unfolding adopt_bundle_def Let_def
    by (intro triple_look triple_if quit_I seq_I s) (auto intro: quit_I b split: option.split)
qed

lemma run_prelude_I: "triple I (run_prelude_hook ops) I E"
  unfolding run_prelude_hook_def
  by (intro phase_rules run_hook_I) (auto intro!: triple_look quit_I adopt_bundle_I split: sum.split option.split)

lemma run_agent_I: "triple I (run_agent ops) I E"
  unfolding run_agent_def
proof (intro triple_look triple_if triple_carry)
  fix b w assume "I (b, w)"
  then show "triple I (case bx_bundle b of None \<Rightarrow> quit Panic
       | Some bundle \<Rightarrow> engine_cmd (os_stream ops)
             (\<lambda>b. \<lparr>cm_argv = agent_argv (invocation_of b (bn_doc bundle)), cm_dir = bx_workdir b,
                cm_env = bx_environ b @ env_entries_of (bn_env bundle)\<rparr>)
             (\<lambda>r m. berr ReasonAgentFailed (''run agent: '' @ m))
             (\<lambda>r. if cr_exit r \<noteq> 0
               then quit (BoxError ReasonAgentFailed (''agent exited '' @ itoa (cr_exit r)) (cr_exit r) (cr_stderr_tail r))
               else carry_on)) I E"
    using side_I by (auto intro!: quit_I engine_stream_I triple_carry split: option.split)
qed

lemma verify_I: "triple I (verify_side_effects ops) I E"
  unfolding verify_side_effects_def
  by (intro triple_look) (auto intro!: quit_I triple_carry engine_run_I split: option.split)

lemma before_result_I:
  assumes "(name, p, user) \<in> set (butlast (phases lib ops))"
  shows "triple I p I E"
  using assms
  by (auto simp: phases_def link_skills_I check_env_I load_secrets_I hostkey_I clone_I configure_signing_I run_hook_I
      run_prelude_I run_agent_I)

end

text \<open>Properties that a record put in place keeps too.\<close>

locale box_closed = box_invariant +
  assumes replace_I: "I (b, w) \<Longrightarrow> I (b, snd (os_replace ops d n c w))"
    and replace_E: "E (b, w) \<Longrightarrow> E (b, snd (os_replace ops d n c w))"
    and silent_E: "E (b, w) \<Longrightarrow> silent ops w w' \<Longrightarrow> E (b, w')"
    and timing_E: "E (b, w) \<Longrightarrow> E (b\<lparr>bx_timing := t\<rparr>, w)"
begin

lemma write_json_I: "I (b, w) \<Longrightarrow> I (b, snd (write_json ops d n enc w))"
  using replace_I by (auto simp: write_json_def split: sum.split)

lemma write_json_E: "E (b, w) \<Longrightarrow> E (b, snd (write_json ops d n enc w))"
  using replace_E by (auto simp: write_json_def split: sum.split)

lemma emit_I: "triple I (emit_result lib ops) I E"
proof -
  have w: "triple I (perform (write_result_file lib ops d r) f) I E" for d r f
  proof (rule tripleI)
    fix b w assume i: "I (b, w)"
    have "I (b, snd (write_result_file lib ops d r w))" unfolding write_result_file_def by (rule write_json_I [OF i])
    then show "ends_in I E (perform (write_result_file lib ops d r) f (b, w))"
      using weaken by (cases "write_result_file lib ops d r w"; cases "fst (write_result_file lib ops d r w)")
        (auto simp: perform_def)
  qed
  have body: "triple I (emit_payload lib ops payload fb) I E" for payload fb
    unfolding emit_payload_def
    by (rule triple_look) (auto intro!: quit_I seq_I verify_I triple_look w split: option.split)
  show ?thesis unfolding emit_result_def
    by (rule triple_look) (auto intro: quit_I body split: sum.split simp del: fun_upd_apply)
qed

lemma phase_I:
  assumes "(name, p, user) \<in> set (phases lib ops)"
  shows "triple I p I E"
proof -
  have l: "last (phases lib ops) = (''result'', emit_result lib ops, False)" "phases lib ops \<noteq> []" by (simp_all add: phases_def)
  have "(name, p, user) \<in> set (butlast (phases lib ops) @ [last (phases lib ops)])"
    using assms by (simp only: append_butlast_last_id [OF l(2)])
  then have "(name, p, user) \<in> set (butlast (phases lib ops)) \<or> (name, p, user) = (''result'', emit_result lib ops, False)"
    unfolding l(1) set_append by auto
  then show ?thesis
  proof
    assume "(name, p, user) \<in> set (butlast (phases lib ops))"
    then show ?thesis by (rule before_result_I)
  next
    assume "(name, p, user) = (''result'', emit_result lib ops, False)"
    then have "p = emit_result lib ops" by (rule prod.inject [THEN iffD1, THEN conjunct2, THEN prod.inject [THEN iffD1, THEN conjunct1]])
    with emit_I show ?thesis by simp
  qed
qed

lemma timed_I:
  assumes "triple I p I E"
  shows "triple I (timed ops name p) I E"
proof (rule tripleI)
  fix b w assume "I (b, w)"
  then have "I (b, snd (os_now ops w))" by (rule silent_I [OF _ silent.op_now])
  from tripleD [OF assms this] have r: "ends_in I E (p (b, snd (os_now ops w)))" .
  obtain e b' w' where p: "p (b, snd (os_now ops w)) = (e, (b', w'))" by (metis surj_pair)
  have now: "silent ops w' (snd (os_now ops w'))" by (rule silent.op_now)
  have tm: "timed ops name p (b, w) = (if e = Some Panic then (e, (b', w'))
      else (e, (b'\<lparr>bx_timing := put name (fst (os_now ops w') - fst (os_now ops w)) (bx_timing b')\<rparr>, snd (os_now ops w'))))"
    by (simp add: timed_def Let_def p)
  show "ends_in I E (timed ops name p (b, w))"
  proof (cases e)
    case None
    with r p have "I (b', w')" by simp
    from retouch_I [OF silent_I [OF this now] retouch.timing] None show ?thesis unfolding tm by simp
  next
    case (Some x)
    with r p have "E (b', w')" by simp
    from timing_E [OF silent_E [OF this now]] this Some show ?thesis unfolding tm by simp
  qed
qed

lemma fail_stop_E:
  assumes "E (b, w)"
  shows "E (fail_stop lib ops name e (b, w))"
proof (cases "ev_result_dir (bx_env b) = []")
  case False
  let ?d = "ev_result_dir (bx_env b)" and ?be = "as_box_error name e"
  obtain err w1 where w: "write_json ops ?d HandoffFile (bc_handoff_enc (bl_codec lib) (handoff_record b name ?be)) w = (err, w1)"
    by (metis surj_pair)
  then have "E (b, w1)" using write_json_E [OF assms] by (metis snd_conv)
  then have s: "E (b, snapshot_bundle ops b ?d w1)"
    using silent_E [OF _ silent.op_copy] unfolding snapshot_bundle_def Let_def by simp
  have f: "fail_stop lib ops name e (b, w) = (b, snd (write_result_file lib ops ?d
      (box_failure_record b ?be (if err = None then HandoffFile else [])) (snapshot_bundle ops b ?d w1)))"
    using False w by (simp add: fail_stop_def Let_def)
  show ?thesis unfolding f write_result_file_def by (rule write_json_E [OF s])
qed (simp add: fail_stop_def assms)

lemma stop_at_E: "E s \<Longrightarrow> E (snd (stop_at lib ops name e s))"
  using fail_stop_E by (cases s) (simp add: stop_at_def)

lemma check_halt_I:
  assumes "I s"
  shows "I (snd (check_halt lib ops name s))"
proof -
  obtain b w where s: "s = (b, w)" by (cases s)
  let ?r = "\<lambda>rd. write_result_file lib ops (ev_result_dir (bx_env b)) (halt_record_of b name rd) w"
  have w: "I (b, snd (?r rd))" for rd
    unfolding write_result_file_def by (rule write_json_I) (use assms s in simp)
  have c: "snd (case ?r rd of (Some m, w') \<Rightarrow> (Inl (berr ReasonResultWrite m), (b, w')) | (None, w') \<Rightarrow> (Inr True, (b, w'))) =
      (b, snd (?r rd))" for rd
    by (simp split: prod.split option.split)
  show ?thesis
  proof (cases "read_bounded HaltFile (os_read ops (path_join (ev_result_dir (bx_env b)) HaltFile) w)")
    case (Bytes raw)
    show ?thesis
    proof (cases "decode_halt raw")
      case None
      then show ?thesis using Bytes assms s by (simp add: check_halt_def Let_def)
    next
      case (Some rd)
      have e: "check_halt lib ops name s =
          (if trim_space (fst rd) = [] then (Inl (berr ReasonHaltInvalid (HaltFile @ '' names no reason; a halt request must say why'')), (b, w))
           else (case ?r rd of (Some m, w') \<Rightarrow> (Inl (berr ReasonResultWrite m), (b, w')) | (None, w') \<Rightarrow> (Inr True, (b, w'))))"
        using Bytes Some s by (simp add: check_halt_def Let_def)
      have "snd (check_halt lib ops name s) = (if trim_space (fst rd) = [] then (b, w) else (b, snd (?r rd)))"
        unfolding e c [symmetric] by simp
      then show ?thesis using w assms s by simp
    qed
  qed (use assms s in \<open>simp_all add: check_halt_def Let_def\<close>)
qed

lemma run_phases_I:
  assumes "\<forall>(name, p, user) \<in> set ps. triple I p I E" and "I s"
  shows "E (snd (run_phases lib ops ps s)) \<and> (fst (run_phases lib ops ps s) = 0 \<longrightarrow> I (snd (run_phases lib ops ps s)))"
  using assms
proof (induction ps arbitrary: s)
  case (Cons q ps)
  obtain name p user where q: "q = (name, p, user)" by (metis surj_pair)
  have t: "triple I (timed ops name p) I E" using Cons.prems(1) q timed_I by auto
  obtain e s1 where s1: "timed ops name p s = (e, s1)" by (metis surj_pair)
  show ?case
  proof (cases e)
    case (Some x)
    with tripleD [OF t Cons.prems(2)] s1 have "E s1" by simp
    with stop_at_E show ?thesis using q s1 Some by (auto simp: stop_at_def)
  next
    case None
    with tripleD [OF t Cons.prems(2)] s1 have i: "I s1" by simp
    obtain h s2 where h: "check_halt lib ops name s1 = (h, s2)" by (metis surj_pair)
    have i2: "I s2" using check_halt_I [OF i, of lib name] h by simp
    have st: "E (snd (stop_at lib ops name x s2))" for x by (rule stop_at_E [OF weaken [OF i2]])
    have c: "fst (stop_at lib ops name x s2) \<noteq> 0" for x by (simp add: stop_at_def)
    have rest: "\<forall>(name, p, user) \<in> set ps. triple I p I E" using Cons.prems(1) by simp
    show ?thesis
    proof (cases user)
      case False
      with q s1 None Cons.IH [OF rest i] show ?thesis by simp
    next
      case True
      with q s1 None h Cons.IH [OF rest i2] st c weaken [OF i2] i2 show ?thesis
        by (cases h) auto
    qed
  qed
qed (simp add: weaken)

theorem main_I:
  assumes "I s"
  shows "E (snd (box_main lib ops s)) \<and> (fst (box_main lib ops s) = 0 \<longrightarrow> I (snd (box_main lib ops s)))"
proof -
  obtain e s1 where s1: "enter_run_user ops s = (e, s1)" by (metis surj_pair)
  note t = tripleD [OF enter_run_user_I assms]
  show ?thesis
  proof (cases e)
    case None
    with t s1 have "I s1" by simp
    from run_phases_I [OF _ this, of "phases lib ops" lib] show ?thesis
      using s1 None phase_I by (auto simp: box_main_def)
  next
    case (Some x)
    with t s1 have "E s1" by simp
    with stop_at_E s1 Some show ?thesis by (auto simp: box_main_def stop_at_def)
  qed
qed

end

end
