(* ===== verification/BoxTrace.thy ===== *)
theory BoxTrace
  imports BoxInv ContractInv
begin

text \<open>
  The acts of a box that the outside can see, noted beside the world: every command with whether it
  succeeded, every record put in place. \<open>traced\<close> wraps the operating system; the laws of the invariant
  locales are discharged for it.
\<close>

datatype act = Put string string string | Cmd cmd_spec bool

definition on_world :: "('w \<Rightarrow> 'a \<times> 'w) \<Rightarrow> 'w \<times> act list \<Rightarrow> 'a \<times> ('w \<times> act list)" where
  "on_world f wl = (fst (f (fst wl)), (snd (f (fst wl)), snd wl))"

definition note_cmd ::
  "(cmd_spec \<Rightarrow> 'w \<Rightarrow> (cmd_result \<times> string option) \<times> 'w) \<Rightarrow> cmd_spec \<Rightarrow> 'w \<times> act list
    \<Rightarrow> (cmd_result \<times> string option) \<times> ('w \<times> act list)" where
  "note_cmd run cmd wl =
     (let r = run cmd (fst wl) in
      (fst r, (snd r, snd wl @ [Cmd cmd (snd (fst r) = None \<and> cr_exit (fst (fst r)) = 0)])))"

definition note_put ::
  "(string \<Rightarrow> string \<Rightarrow> string \<Rightarrow> 'w \<Rightarrow> string option \<times> 'w) \<Rightarrow> string \<Rightarrow> string \<Rightarrow> string \<Rightarrow> 'w \<times> act list
    \<Rightarrow> string option \<times> ('w \<times> act list)" where
  "note_put rep d n c wl =
     (let r = rep d n c (fst wl) in (fst r, (snd r, if fst r = None then snd wl @ [Put d n c] else snd wl)))"

definition traced :: "'w os \<Rightarrow> ('w \<times> act list) os" where
  "traced ops =
     \<lparr>os_uid = (\<lambda>wl. os_uid ops (fst wl)), os_now = on_world (os_now ops), os_chown = (\<lambda>p u g. on_world (os_chown ops p u g)),
      os_setgroups = (\<lambda>gs. on_world (os_setgroups ops gs)), os_setgid = (\<lambda>g. on_world (os_setgid ops g)),
      os_setuid = (\<lambda>u. on_world (os_setuid ops u)), os_stat = (\<lambda>p wl. os_stat ops p (fst wl)),
      os_mkdir_all = (\<lambda>p. on_world (os_mkdir_all ops p)), os_symlink = (\<lambda>t p. on_world (os_symlink ops t p)),
      os_read = (\<lambda>p wl. os_read ops p (fst wl)), os_dir = (\<lambda>p wl. os_dir ops p (fst wl)),
      os_write = (\<lambda>p c. on_world (os_write ops p c)), os_replace = note_put (os_replace ops),
      os_temp_file = (\<lambda>c. on_world (os_temp_file ops c)), os_temp_dir = on_world (os_temp_dir ops),
      os_copy_fs = (\<lambda>p q. on_world (os_copy_fs ops p q)), os_stdin = on_world (os_stdin ops),
      os_run = note_cmd (os_run ops), os_stream = note_cmd (os_stream ops)\<rparr>"

lemma traced_silent: "silent (traced ops) wl wl' \<Longrightarrow> snd wl' = snd wl"
  by (erule silent.cases) (simp_all add: traced_def on_world_def)

lemma traced_run:
  "os_run (traced ops) cmd (w, l) = ((r, m), wl') \<Longrightarrow> snd wl' = l @ [Cmd cmd (m = None \<and> cr_exit r = 0)]"
  by (auto simp: traced_def note_cmd_def Let_def)

lemma traced_stream:
  "os_stream (traced ops) cmd (w, l) = ((r, m), wl') \<Longrightarrow> snd wl' = l @ [Cmd cmd (m = None \<and> cr_exit r = 0)]"
  by (auto simp: traced_def note_cmd_def Let_def)

lemma traced_put:
  "snd (snd (os_replace (traced ops) d n c wl)) = snd wl \<or>
   snd (snd (os_replace (traced ops) d n c wl)) = snd wl @ [Put d n c]"
  by (simp add: traced_def note_put_def Let_def)

text \<open>The commands, and the records put under the name of the attempt record.\<close>

fun cmds :: "act list \<Rightarrow> (cmd_spec \<times> bool) list" where
  "cmds [] = []"
| "cmds (Put d n c # l) = cmds l"
| "cmds (Cmd c ok # l) = (c, ok) # cmds l"

fun records :: "act list \<Rightarrow> string list" where
  "records [] = []"
| "records (Put d n c # l) = (if n = ResultFile then c # records l else records l)"
| "records (Cmd c ok # l) = records l"

lemma cmds_append [simp]: "cmds (l @ l') = cmds l @ cmds l'"
  by (induction l rule: cmds.induct) auto

lemma records_append [simp]: "records (l @ l') = records l @ records l'"
  by (induction l rule: records.induct) auto

definition tidy_bundle :: "box \<Rightarrow> bool" where
  "tidy_bundle b \<longleftrightarrow> (\<forall>bn. bx_bundle b = Some bn \<longrightarrow> free_side (bn_env bn))"

lemma tidy_retouch: "retouch b b' \<Longrightarrow> tidy_bundle b' = tidy_bundle b \<and> bx_environ b' = bx_environ b"
  by (erule retouch.cases) (simp_all add: tidy_bundle_def)

subsection \<open>Stopping at the first failure\<close>

definition all_well :: "box \<times> 'w \<times> act list \<Rightarrow> bool" where
  "all_well s \<longleftrightarrow> tidy_bundle (fst s) \<and> (\<forall>(c, ok) \<in> set (cmds (snd (snd s))). ok)"

definition well_but_last :: "box \<times> 'w \<times> act list \<Rightarrow> bool" where
  "well_but_last s \<longleftrightarrow> (\<forall>(c, ok) \<in> set (butlast (cmds (snd (snd s)))). ok)"

interpretation stops: box_closed "traced ops" all_well well_but_last for ops :: "'w os"
proof
  fix b :: box and wl wl' :: "'w \<times> act list"
  show "all_well (b, wl) \<Longrightarrow> silent (traced ops) wl wl' \<Longrightarrow> all_well (b, wl')"
    by (drule traced_silent) (simp add: all_well_def)
  show "well_but_last (b, wl) \<Longrightarrow> silent (traced ops) wl wl' \<Longrightarrow> well_but_last (b, wl')"
    by (drule traced_silent) (simp add: well_but_last_def)
next
  fix b :: box and cmd and r :: cmd_result and m :: "string option" and wl wl' :: "'w \<times> act list"
  assume a: "all_well (b, wl)"
  have "well_but_last (b, wl') \<and> (m = None \<and> cr_exit r = 0 \<longrightarrow> all_well (b, wl'))"
    if "snd wl' = snd wl @ [Cmd cmd (m = None \<and> cr_exit r = 0)]"
    using a that by (auto simp: all_well_def well_but_last_def)
  note k = this
  show "os_run (traced ops) cmd wl = ((r, m), wl') \<Longrightarrow>
      well_but_last (b, wl') \<and> (m = None \<and> cr_exit r = 0 \<longrightarrow> all_well (b, wl'))"
    using k [OF traced_run [of ops cmd "fst wl" "snd wl" r m wl']] by simp
  show "os_stream (traced ops) cmd wl = ((r, m), wl') \<Longrightarrow>
      well_but_last (b, wl') \<and> (m = None \<and> cr_exit r = 0 \<longrightarrow> all_well (b, wl'))"
    using k [OF traced_stream [of ops cmd "fst wl" "snd wl" r m wl']] by simp
next
  fix b :: box and wl :: "'w \<times> act list" and d n c
  have p: "cmds (snd (snd (os_replace (traced ops) d n c wl))) = cmds (snd wl)" using traced_put [of ops d n c wl] by auto
  then show "all_well (b, wl) \<Longrightarrow> all_well (b, snd (os_replace (traced ops) d n c wl))"
    "well_but_last (b, wl) \<Longrightarrow> well_but_last (b, snd (os_replace (traced ops) d n c wl))"
    by (auto simp: all_well_def well_but_last_def)
next
  fix s :: "box \<times> 'w \<times> act list"
  show "all_well s \<Longrightarrow> well_but_last s" by (auto simp: all_well_def well_but_last_def dest: in_set_butlastD)
next
  fix b b' :: box and wl :: "'w \<times> act list"
  show "all_well (b, wl) \<Longrightarrow> retouch b b' \<Longrightarrow> all_well (b', wl)" by (simp add: all_well_def tidy_retouch)
qed (auto simp: all_well_def well_but_last_def tidy_bundle_def)

subsection \<open>The engine's variables\<close>

text \<open>What a started process sees of a variable: of several entries the last.\<close>

fun os_var :: "string list \<Rightarrow> string \<Rightarrow> string option" where
  "os_var [] k = None"
| "os_var (kv # kvs) k = (case os_var kvs k of Some v \<Rightarrow> Some v | None \<Rightarrow> cut_prefix (k @ ''='') kv)"

lemma os_var_append: "os_var (xs @ ys) k = (case os_var ys k of Some v \<Rightarrow> Some v | None \<Rightarrow> os_var xs k)"
  by (induction xs) (auto split: option.split)

lemma free_entry:
  assumes "engine_key k" and "free_key key"
  shows "cut_prefix (k @ ''='') (key @ ''='' @ v) = None"
  using cut_engine_key [OF assms(1), of key v] assms by (auto simp: sane_key_def free_key_def engine_key_def)

lemma os_var_set:
  assumes "engine_key k" and "free_key key"
  shows "os_var (set_env_entry key v es) k = os_var es k"
proof (induction es)
  case Nil
  then show ?case using free_entry [OF assms, of v] by simp
next
  case (Cons kv es)
  show ?case
  proof (cases "has_prefix (key @ ''='') kv")
    case True
    then obtain r where "kv = key @ ''='' @ r" unfolding has_prefix_split by auto
    then show ?thesis using True free_entry [OF assms] by (simp split: option.split)
  next
    case False
    with Cons show ?thesis by (simp split: option.split)
  qed
qed

lemma os_var_side:
  assumes "engine_key k" and "free_side side"
  shows "os_var (es @ env_entries_of side) k = os_var es k"
proof -
  have "os_var (map (\<lambda>key. key @ ''='' @ get_or [] side key) ks) k = None" if "\<forall>key \<in> set ks. free_key key" for ks
    using that free_entry [OF assms(1)] by (induction ks) auto
  then have "os_var (env_entries_of side) k = None"
    using assms(2) unfolding env_entries_of_def free_side_def sorted_keys_dom [symmetric] by blast
  then show ?thesis by (simp add: os_var_append)
qed

definition engine_vars_kept :: "string list \<Rightarrow> act list \<Rightarrow> bool" where
  "engine_vars_kept es l \<longleftrightarrow> (\<forall>(c, ok) \<in> set (cmds l). \<forall>k. engine_key k \<longrightarrow> os_var (cm_env c) k = os_var es k)"

definition keeps_vars :: "string list \<Rightarrow> box \<times> 'w \<times> act list \<Rightarrow> bool" where
  "keeps_vars es s \<longleftrightarrow> tidy_bundle (fst s) \<and> engine_vars_kept es (snd (snd s)) \<and>
     (\<forall>k. engine_key k \<longrightarrow> os_var (bx_environ (fst s)) k = os_var es k)"

definition kept_vars :: "string list \<Rightarrow> box \<times> 'w \<times> act list \<Rightarrow> bool" where
  "kept_vars es s \<longleftrightarrow> engine_vars_kept es (snd (snd s))"

interpretation vars: box_closed "traced ops" "keeps_vars es" "kept_vars es" for ops :: "'w os" and es
proof
  fix b :: box and wl wl' :: "'w \<times> act list"
  show "keeps_vars es (b, wl) \<Longrightarrow> silent (traced ops) wl wl' \<Longrightarrow> keeps_vars es (b, wl')"
    by (drule traced_silent) (simp add: keeps_vars_def)
  show "kept_vars es (b, wl) \<Longrightarrow> silent (traced ops) wl wl' \<Longrightarrow> kept_vars es (b, wl')"
    by (drule traced_silent) (simp add: kept_vars_def)
  show "keeps_vars es (b, wl) \<Longrightarrow> free_key k \<Longrightarrow> keeps_vars es (b\<lparr>bx_environ := set_env_entry k v (bx_environ b)\<rparr>, wl)" for k v
    by (simp add: keeps_vars_def tidy_bundle_def os_var_set)
next
  fix b :: box and cmd and r :: cmd_result and m :: "string option" and wl wl' :: "'w \<times> act list" and side
  assume a: "keeps_vars es (b, wl)"
  have k: "kept_vars es (b, wl') \<and> (m = None \<and> cr_exit r = 0 \<longrightarrow> keeps_vars es (b, wl'))"
    if "snd wl' = snd wl @ [Cmd cmd (m = None \<and> cr_exit r = 0)]"
      and "\<forall>k. engine_key k \<longrightarrow> os_var (cm_env cmd) k = os_var (bx_environ b) k"
    using a that by (auto simp: keeps_vars_def kept_vars_def engine_vars_kept_def)
  show "cm_env cmd = bx_environ b \<Longrightarrow> os_run (traced ops) cmd wl = ((r, m), wl') \<Longrightarrow>
      kept_vars es (b, wl') \<and> (m = None \<and> cr_exit r = 0 \<longrightarrow> keeps_vars es (b, wl'))"
    using k traced_run [of ops cmd "fst wl" "snd wl"] by simp
  show "free_side side \<Longrightarrow> cm_env cmd = bx_environ b @ env_entries_of side \<Longrightarrow>
      os_stream (traced ops) cmd wl = ((r, m), wl') \<Longrightarrow>
      kept_vars es (b, wl') \<and> (m = None \<and> cr_exit r = 0 \<longrightarrow> keeps_vars es (b, wl'))"
    using k traced_stream [of ops cmd "fst wl" "snd wl"] os_var_side by simp
next
  fix b :: box and wl :: "'w \<times> act list" and d n c
  have p: "cmds (snd (snd (os_replace (traced ops) d n c wl))) = cmds (snd wl)" using traced_put [of ops d n c wl] by auto
  then show "keeps_vars es (b, wl) \<Longrightarrow> keeps_vars es (b, snd (os_replace (traced ops) d n c wl))"
    "kept_vars es (b, wl) \<Longrightarrow> kept_vars es (b, snd (os_replace (traced ops) d n c wl))"
    by (auto simp: keeps_vars_def kept_vars_def engine_vars_kept_def)
next
  fix b b' :: box and wl :: "'w \<times> act list"
  show "keeps_vars es (b, wl) \<Longrightarrow> retouch b b' \<Longrightarrow> keeps_vars es (b', wl)" by (simp add: keeps_vars_def tidy_retouch)
qed (auto simp: keeps_vars_def kept_vars_def tidy_bundle_def)

end
