(* ===== verification/BoxOutcome.thy ===== *)
theory BoxOutcome
  imports BoxTrace
begin

text \<open>The record a box leaves: nothing before the last phase puts one in place but a halt request.\<close>

definition no_record :: "box \<times> 'w \<times> act list \<Rightarrow> bool" where
  "no_record s \<longleftrightarrow> tidy_bundle (fst s) \<and> records (snd (snd s)) = []"

interpretation clean: box_invariant "traced ops" no_record no_record for ops :: "'w os"
proof
  fix b :: box and wl wl' :: "'w \<times> act list"
  show "no_record (b, wl) \<Longrightarrow> silent (traced ops) wl wl' \<Longrightarrow> no_record (b, wl')"
    by (drule traced_silent) (simp add: no_record_def)
next
  fix b :: box and cmd and r :: cmd_result and m :: "string option" and wl wl' :: "'w \<times> act list"
  assume a: "no_record (b, wl)"
  have k: "no_record (b, wl') \<and> (m = None \<and> cr_exit r = 0 \<longrightarrow> no_record (b, wl'))"
    if "snd wl' = snd wl @ [Cmd cmd (m = None \<and> cr_exit r = 0)]"
    using a that by (simp add: no_record_def)
  show "os_run (traced ops) cmd wl = ((r, m), wl') \<Longrightarrow>
      no_record (b, wl') \<and> (m = None \<and> cr_exit r = 0 \<longrightarrow> no_record (b, wl'))"
    using k [OF traced_run [of ops cmd "fst wl" "snd wl" r m wl']] by simp
  show "os_stream (traced ops) cmd wl = ((r, m), wl') \<Longrightarrow>
      no_record (b, wl') \<and> (m = None \<and> cr_exit r = 0 \<longrightarrow> no_record (b, wl'))"
    using k [OF traced_stream [of ops cmd "fst wl" "snd wl" r m wl']] by simp
next
  fix b b' :: box and wl :: "'w \<times> act list"
  show "no_record (b, wl) \<Longrightarrow> retouch b b' \<Longrightarrow> no_record (b', wl)" by (simp add: no_record_def tidy_retouch)
qed (auto simp: no_record_def tidy_bundle_def)

subsection \<open>What a record says\<close>

text \<open>The bytes of a record, and the records a run may end with.\<close>

definition written :: "box_lib \<Rightarrow> box_result \<Rightarrow> string \<Rightarrow> bool" where
  "written lib r raw \<longleftrightarrow> (\<exists>c. bc_result_enc (bl_codec lib) (stamp r) = Inr c \<and> raw = c @ [newline])"

definition ok_outcome :: "box \<Rightarrow> box_result \<Rightarrow> bool" where
  "ok_outcome b r \<longleftrightarrow> br_status r = StatusOK \<and> br_contract r = 0 \<and> satisfies (ev_schema (bx_env b)) (br_payload r) \<and>
     set (br_unthreaded r) = keys (br_payload r) - keys (ev_schema (bx_env b))"

definition halt_outcome :: "box_result \<Rightarrow> bool" where
  "halt_outcome r \<longleftrightarrow> br_status r = StatusHalted \<and> br_contract r = 0 \<and> br_payload r = [] \<and> (\<exists>h. br_halt r = Some h \<and> trim_space (rh_reason h) \<noteq> [])"

definition fail_outcome :: "box_result \<Rightarrow> bool" where
  "fail_outcome r \<longleftrightarrow> br_status r = StatusFailed \<and> br_payload r = [] \<and> br_error r \<noteq> None"

text \<open>Exit 0 with one record of an outcome, exit 1 with at most a failure record, exit 2 with none.\<close>

definition outcome :: "box_lib \<Rightarrow> int \<times> box \<times> 'w \<times> act list \<Rightarrow> bool" where
  "outcome lib res = (case res of (code, (b, (w, l))) \<Rightarrow>
     (code = 0 \<and> (\<exists>r raw. records l = [raw] \<and> written lib r raw \<and> (ok_outcome b r \<or> halt_outcome r))) \<or>
     (code = 1 \<and> (records l = [] \<or> (\<exists>r raw. records l = [raw] \<and> written lib r raw \<and> fail_outcome r))) \<or>
     (code = 2 \<and> records l = []))"

lemma write_json_records:
  assumes "write_json (traced ops) d n enc wl = (err, wl')"
  shows "records (snd wl') = records (snd wl) @
    (case (err, enc) of (None, Inr c) \<Rightarrow> if n = ResultFile then [c @ [newline]] else [] | _ \<Rightarrow> [])"
    and "err = None \<Longrightarrow> \<exists>c. enc = Inr c"
  using assms by (auto simp: write_json_def traced_def note_put_def Let_def split: sum.splits if_splits)

lemma write_result_records:
  assumes "write_result_file lib (traced ops) d r wl = (err, wl')"
  shows "if err = None then (\<exists>raw. records (snd wl') = records (snd wl) @ [raw] \<and> written lib r raw)
    else records (snd wl') = records (snd wl)"
  using write_json_records [OF assms [unfolded write_result_file_def]]
  by (auto simp: written_def split: option.splits)

lemma fail_stop_records:
  assumes "records (snd (snd s)) = []" and "e \<noteq> Panic"
  shows "outcome lib (1, fail_stop lib (traced ops) name e s)"
proof -
  obtain b w l where s: "s = (b, (w, l))" by (metis surj_pair)
  show ?thesis
  proof (cases "ev_result_dir (bx_env b) = []")
    case True
    then show ?thesis using assms(1) s by (simp add: fail_stop_def outcome_def)
  next
    case False
    let ?d = "ev_result_dir (bx_env b)" and ?be = "as_box_error name e"
    obtain err w1 where w1: "write_json (traced ops) ?d HandoffFile
        (bc_handoff_enc (bl_codec lib) (handoff_record b name ?be)) (w, l) = (err, w1)" by (metis surj_pair)
    have "records (snd w1) = []" using write_json_records(1) [OF w1] assms(1) s by (auto split: option.split sum.split)
    moreover have "snd (snapshot_bundle (traced ops) b ?d w1) = snd w1"
      unfolding snapshot_bundle_def Let_def by (simp add: traced_def on_world_def)
    ultimately have n: "records (snd (snapshot_bundle (traced ops) b ?d w1)) = []" by simp
    define fr where "fr = box_failure_record b ?be (if err = None then HandoffFile else [])"
    obtain err2 w2 where w2: "write_result_file lib (traced ops) ?d fr (snapshot_bundle (traced ops) b ?d w1) = (err2, w2)"
      by (metis surj_pair)
    have "fail_stop lib (traced ops) name e s = (b, w2)"
      using False s w1 w2 by (simp add: fail_stop_def Let_def fr_def)
    moreover have "fail_outcome fr" by (simp add: fr_def fail_outcome_def box_failure_record_def zero_box_result_def)
    ultimately show ?thesis using write_result_records [OF w2] n
      by (cases w2) (auto simp: outcome_def split: if_splits)
  qed
qed

lemma stop_at_outcome: "records (snd (snd s)) = [] \<Longrightarrow> outcome lib (stop_at lib (traced ops) name e s)"
  using fail_stop_records [of s e lib ops name] by (cases s) (auto simp: stop_at_def outcome_def)

subsection \<open>The last phase\<close>

definition left_ok :: "box_lib \<Rightarrow> box \<times> 'w \<times> act list \<Rightarrow> bool" where
  "left_ok lib s \<longleftrightarrow> (\<exists>r raw. records (snd (snd s)) = [raw] \<and> written lib r raw \<and> ok_outcome (fst s) r)"

lemma verify_box: "fst (snd (verify_side_effects ops s)) = fst s"
proof -
  obtain b w where s: "s = (b, w)" by (cases s)
  show ?thesis unfolding s
    by (auto simp: verify_side_effects_def look_def quit_def carry_on_def engine_cmd_def split: option.split prod.split)
qed

lemma ok_record_outcome:
  assumes "output_errors b payload fallback = None"
  shows "ok_outcome b (ok_record b payload fallback)"
proof -
  have "fst (validate_output (ev_schema (bx_env b)) payload) = []"
    using assms by (auto simp: output_errors_def Let_def split: if_splits)
  then show ?thesis
    unfolding ok_outcome_def ok_record_def validate_output_iff [symmetric] set_extras [symmetric]
    by (simp add: zero_box_result_def)
qed

lemma write_ok:
  assumes "no_record s" and "output_errors (fst s) payload fallback = None"
  shows "ends_in (left_ok lib) no_record
    (perform (write_result_file lib (traced ops) d (ok_record (fst s) payload fallback)) f s)"
proof -
  obtain err wl where w: "write_result_file lib (traced ops) d (ok_record (fst s) payload fallback) (snd s) = (err, wl)"
    by (metis surj_pair)
  have n: "records (snd (snd s)) = []" using assms(1) by (simp add: no_record_def)
  show ?thesis
  proof (cases err)
    case None
    then show ?thesis using write_result_records [OF w] n ok_record_outcome [OF assms(2)] w
      by (auto simp: perform_def left_ok_def)
  next
    case (Some m)
    then show ?thesis using write_result_records [OF w] n assms(1) w by (simp add: perform_def no_record_def)
  qed
qed

lemma emit_payload_outcome:
  assumes "no_record s"
  shows "ends_in (left_ok lib) no_record (emit_payload lib (traced ops) payload fallback s)"
proof (cases "output_errors (fst s) payload fallback")
  case None
  obtain e s1 where v: "verify_side_effects (traced ops) s = (e, s1)" by (metis surj_pair)
  have r: "ends_in no_record no_record (e, s1)" using tripleD [OF clean.verify_I assms] v by metis
  have b: "fst s1 = fst s" using verify_box [of "traced ops" s] v by simp
  show ?thesis
  proof (cases e)
    case None
    with r have "no_record s1" by simp
    note k = write_ok [OF this, of payload fallback]
    show ?thesis unfolding emit_payload_def using \<open>output_errors (fst s) payload fallback = None\<close> v None k b
      by (simp add: look_def andthen_def)
  next
    case (Some x)
    with r v \<open>output_errors (fst s) payload fallback = None\<close> show ?thesis
      by (simp add: emit_payload_def look_def andthen_def)
  qed
qed (simp add: emit_payload_def look_def quit_def assms)

lemma emit_outcome:
  assumes "no_record s"
  shows "ends_in (left_ok lib) no_record (emit_result lib (traced ops) s)"
  using emit_payload_outcome [OF assms, of lib ops] assms
  by (auto simp: emit_result_def look_def quit_def Let_def split: sum.split)

subsection \<open>The driver\<close>

lemma timed_ends:
  assumes "no_record s" and p: "\<And>s. no_record s \<Longrightarrow> ends_in Q no_record (p s)"
    and q: "\<And>b t w w' l. Q (b, (w, l)) \<Longrightarrow> Q (b\<lparr>bx_timing := t\<rparr>, (w', l))"
  shows "ends_in Q no_record (timed (traced ops) name p s)"
proof -
  obtain b w l where s: "s = (b, (w, l))" by (metis surj_pair)
  have n: "snd (os_now (traced ops) (w, l)) = (snd (os_now ops w), l)" for w l by (simp add: traced_def on_world_def)
  have "no_record (b, snd (os_now (traced ops) (w, l)))" using assms(1) s n by (simp add: no_record_def)
  from p [OF this] have r: "ends_in Q no_record (p (b, snd (os_now (traced ops) (w, l))))" .
  obtain e b' w' l' where e: "p (b, snd (os_now (traced ops) (w, l))) = (e, (b', (w', l')))" by (metis surj_pair)
  show ?thesis using r e q s
    by (cases e) (auto simp: timed_def Let_def n no_record_def tidy_bundle_def)
qed

lemma phase_clean:
  assumes "(name, p, user) \<in> set (butlast (phases lib (traced ops)))" and "no_record s"
  shows "ends_in no_record no_record (timed (traced ops) name p s)"
  by (rule timed_ends [OF assms(2) tripleD [OF clean.before_result_I [OF assms(1)]]])
    (auto simp: no_record_def tidy_bundle_def)

lemma check_halt_outcome:
  assumes "no_record s" and "check_halt lib (traced ops) name s = (h, s')"
  shows "case h of Inl e \<Rightarrow> records (snd (snd s')) = []
    | Inr halted \<Rightarrow> if halted then outcome lib (0, s') else no_record s'"
proof -
  obtain b wl where s: "s = (b, wl)" by (cases s)
  let ?d = "ev_result_dir (bx_env b)"
  have n: "records (snd wl) = []" using assms(1) s by (simp add: no_record_def)
  show ?thesis
  proof (cases "read_bounded HaltFile (os_read (traced ops) (path_join ?d HaltFile) wl)")
    case (Bytes raw)
    show ?thesis
    proof (cases "decode_halt raw")
      case None
      then show ?thesis using Bytes assms n s by (auto simp: check_halt_def Let_def)
    next
      case (Some rd)
      obtain err wl' where w: "write_result_file lib (traced ops) ?d (halt_record_of b name rd) wl = (err, wl')"
        by (metis surj_pair)
      show ?thesis
      proof (cases "trim_space (fst rd) = []")
        case True
        with Bytes Some assms n s show ?thesis by (auto simp: check_halt_def Let_def)
      next
        case False
        have o: "halt_outcome (halt_record_of b name rd)"
          using False by (simp add: halt_outcome_def halt_record_of_def zero_box_result_def)
        have e: "(h, s') = (case err of Some m \<Rightarrow> (Inl (berr ReasonResultWrite m), (b, wl')) | None \<Rightarrow> (Inr True, (b, wl')))"
          using assms(2) Bytes Some False s w by (simp add: check_halt_def Let_def)
        show ?thesis using write_result_records [OF w] n o e
          by (cases err; cases wl') (auto simp: outcome_def)
      qed
    qed
  qed (use assms n s in \<open>auto simp: check_halt_def Let_def\<close>)
qed

lemma run_phases_outcome:
  assumes "\<forall>(name, p, user) \<in> set ps. \<forall>s. no_record s \<longrightarrow> ends_in no_record no_record (timed (traced ops) name p s)"
    and "no_record s"
  shows "outcome lib (run_phases lib (traced ops) (ps @ [(''result'', emit_result lib (traced ops), False)]) s)"
  using assms
proof (induction ps arbitrary: s)
  case Nil
  have q: "left_ok lib (b, (w, l)) \<Longrightarrow> left_ok lib (b\<lparr>bx_timing := t\<rparr>, (w', l))" for b t and w w' :: 'a and l
    by (simp add: left_ok_def ok_outcome_def)
  have r: "ends_in (left_ok lib) no_record (timed (traced ops) ''result'' (emit_result lib (traced ops)) s)"
    by (rule timed_ends [OF Nil.prems(2) emit_outcome q])
  obtain e b w l where e: "timed (traced ops) ''result'' (emit_result lib (traced ops)) s = (e, (b, (w, l)))"
    by (metis surj_pair)
  show ?case
  proof (cases e)
    case None
    with r e show ?thesis by (auto simp: outcome_def left_ok_def)
  next
    case (Some x)
    with r e have "records (snd (snd (b, (w, l)))) = []" by (simp add: no_record_def)
    from stop_at_outcome [OF this] Some e show ?thesis by simp
  qed
next
  case (Cons q ps)
  obtain name p user where q: "q = (name, p, user)" by (metis surj_pair)
  obtain e s1 where s1: "timed (traced ops) name p s = (e, s1)" by (metis surj_pair)
  have "\<forall>s. no_record s \<longrightarrow> ends_in no_record no_record (timed (traced ops) name p s)" using Cons.prems(1) q by simp
  with Cons.prems(2) s1 have r: "ends_in no_record no_record (e, s1)" by metis
  have ih: "no_record s2 \<Longrightarrow> outcome lib (run_phases lib (traced ops) (ps @ [(''result'', emit_result lib (traced ops), False)]) s2)" for s2
    using Cons.IH Cons.prems(1) by simp
  show ?case
  proof (cases e)
    case (Some x)
    with r have "records (snd (snd s1)) = []" by (simp add: no_record_def)
    from stop_at_outcome [OF this] q s1 Some show ?thesis by simp
  next
    case None
    with r have n: "no_record s1" by simp
    obtain h s2 where h: "check_halt lib (traced ops) name s1 = (h, s2)" by (metis surj_pair)
    note c = check_halt_outcome [OF n h]
    show ?thesis
    proof (cases user)
      case False
      with q s1 None ih [OF n] show ?thesis by simp
    next
      case True
      show ?thesis
      proof (cases h)
        case (Inl x)
        with c have "records (snd (snd s2)) = []" by simp
        from stop_at_outcome [OF this] q s1 None True h Inl show ?thesis by simp
      next
        case (Inr halted)
        with c q s1 None True h ih show ?thesis by (cases halted) auto
      qed
    qed
  qed
qed

lemma box_main_outcome:
  assumes "no_record s"
  shows "outcome lib (box_main lib (traced ops) s)"
proof -
  have ph: "phases lib (traced ops) = butlast (phases lib (traced ops)) @ [(''result'', emit_result lib (traced ops), False)]"
    by (simp add: phases_def)
  obtain e s1 where s1: "enter_run_user (traced ops) s = (e, s1)" by (metis surj_pair)
  have r: "ends_in no_record no_record (e, s1)" using tripleD [OF clean.enter_run_user_I assms] s1 by metis
  show ?thesis
  proof (cases e)
    case (Some x)
    with r have "records (snd (snd s1)) = []" by (simp add: no_record_def)
    from stop_at_outcome [OF this] s1 Some show ?thesis by (simp add: box_main_def)
  next
    case None
    with r have n: "no_record s1" by simp
    have "outcome lib (run_phases lib (traced ops) (butlast (phases lib (traced ops)) @
        [(''result'', emit_result lib (traced ops), False)]) s1)"
      by (rule run_phases_outcome [OF _ n]) (auto intro: phase_clean)
    with s1 None ph show ?thesis by (simp add: box_main_def)
  qed
qed

end
