(* ===== verification/BoxProps.thy ===== *)
theory BoxProps
  imports BoxOutcome
begin

text \<open>Properties of the box as a whole: its commands, its environment, its record, its chowns.\<close>

definition log_of :: "int \<times> box \<times> 'w \<times> act list \<Rightarrow> act list" where
  "log_of r = snd (snd (snd r))"

lemma new_box_all_well: "all_well (new_box e environ, (w, []))"
  by (simp add: all_well_def new_box_def tidy_bundle_def)

lemma new_box_keeps: "keeps_vars environ (new_box e environ, (w, []))"
  by (simp add: keeps_vars_def new_box_def tidy_bundle_def engine_vars_kept_def)

lemma new_box_no_record: "no_record (new_box e environ, (w, []))"
  by (simp add: no_record_def new_box_def tidy_bundle_def)

text \<open>
  C40. A box stops at its first failure: of the commands it starts, all but the last succeeded, and all of
  them if it exits 0, whatever the commands, the hooks and the files do.
\<close>
theorem box_stops_at_first_failure:
  "(let r = box_main lib (traced ops) (new_box e environ, (w, []))
    in list_all snd (if fst r = 0 then cmds (log_of r) else butlast (cmds (log_of r))))"
  using stops.main_I [OF new_box_all_well, of lib ops e environ w]
  by (auto simp: Let_def all_well_def well_but_last_def log_of_def list_all_iff)

text \<open>
  No hook, agent or git command sees an engine variable other than as the host set it: neither a
  secret file's name nor a key of the bundle's side file can shadow or add a variable of the engine's
  prefix.
\<close>
theorem engine_variables_kept:
  assumes "engine_key k"
  shows "(let r = box_main lib (traced ops) (new_box e environ, (w, []))
    in list_all (\<lambda>(c, ok). os_var (cm_env c) k = os_var environ k) (cmds (log_of r)))"
  using vars.main_I [OF new_box_keeps, of environ lib ops e w] assms
  by (auto simp: Let_def kept_vars_def engine_vars_kept_def log_of_def list_all_iff)

text \<open>
  C39. A box leaves at most one attempt record, and exits 0 only with one: an ok record whose payload
  satisfies the declared schema, or a halted one that says why. With exit 1 the record, if it could be
  written, is a failure; a nil dereference (exit 2) leaves none.
\<close>
theorem box_leaves_one_record:
  "outcome lib (box_main lib (traced ops) (new_box e environ, (w, [])))"
  by (rule box_main_outcome [OF new_box_no_record])

text \<open>
  What a box that exits 0 wrote, the host takes: the record it extracts from those bytes against the
  same schema is the ok record with its payload, or the halt request, never a synthesized failure.
\<close>
theorem host_takes_box_record:
  assumes law: "\<And>r c. bc_result_enc (bl_codec lib) r = Inr c \<Longrightarrow> bc_result_dec (bl_codec lib) (c @ [newline]) = Inr r"
    and run: "box_main lib (traced ops) (new_box e environ, (w, [])) = (0, (b, (w', log)))"
    and size: "list_all (\<lambda>raw. int (length raw) \<le> max_record_bytes) (records log)" and dir: "dir \<noteq> []"
  shows "\<exists>raw rec. records log = [raw] \<and>
    extract_result (bc_result_dec (bl_codec lib)) dir (Bytes raw) (ev_schema (bx_env b)) = Inr rec \<and>
    (br_status rec = StatusOK \<and> satisfies (ev_schema (bx_env b)) (br_payload rec) \<or>
     br_status rec = StatusHalted \<and> br_halt rec \<noteq> None)"
proof -
  obtain r raw where raw: "records log = [raw]" "written lib r raw" and o: "ok_outcome b r \<or> halt_outcome r"
    using box_main_outcome [OF new_box_no_record, of lib ops e environ w] run by (auto simp: outcome_def)
  have dec: "bc_result_dec (bl_codec lib) raw = Inr (stamp r)" using raw(2) law by (auto simp: written_def)
  have st: "stamp r = r\<lparr>br_contract := contract_version\<rparr>" using o by (auto simp: stamp_def ok_outcome_def halt_outcome_def)
  have rd: "read_result_file (bc_result_dec (bl_codec lib)) (Bytes raw) = Inr (stamp r)"
    using size raw(1) dec st o by (auto simp: read_result_file_def read_bounded_def ok_outcome_def halt_outcome_def)
  show ?thesis
  proof (cases "br_status r = StatusOK")
    case True
    with o have s: "satisfies (ev_schema (bx_env b)) (br_payload r)" by (auto simp: ok_outcome_def halt_outcome_def)
    then have "fst (validate_output (ev_schema (bx_env b)) (br_payload r)) = []" by (simp add: validate_output_iff)
    with True s raw(1) rd dir st show ?thesis by (simp add: extract_result_def Let_def)
  next
    case False
    have no_text: "trim_space [] = []" by (simp add: trim_space_def trim_left.simps)
    from False o obtain h where h: "br_status r = StatusHalted" "br_halt r = Some h" "trim_space (rh_reason h) \<noteq> []"
      by (auto simp: ok_outcome_def halt_outcome_def)
    then have "rh_reason h \<noteq> []" using no_text by metis
    with h raw(1) rd dir st show ?thesis by (simp add: extract_result_def)
  qed
qed

text \<open>
  The preamble chowns nothing above the box's home: every directory of the walk up from the sessions
  directory lies strictly under it.
\<close>
theorem sessions_chown_inside_home:
  "list_all (\<lambda>p. has_prefix ''/home/box/'' p) (session_chown_paths d)"
proof -
  have "list_all (\<lambda>p. has_prefix ''/home/box/'' p) (chown_walk p)" for p
    by (induction p rule: chown_walk.induct) (subst chown_walk.simps, simp)
  then show ?thesis by (simp add: session_chown_paths_def)
qed

end
