(* ===== verification/Spec2Isabelle.thy ===== *)
theory Spec2Isabelle
  imports Prelude DeferFloor Policy RunProps SpliceProps ConfigProps FrontendRun AssemblyProps WiringProps ValidateProps
    RecoveryProps MeterConfig ReportProps ContractProps BoxProps
begin

text \<open>
  A model of faber, a runner of declarative agent pipelines: a project file declares templates (what an
  agent box contains) and workflows (steps, loops, generated steps), the frontend compiles a workflow
  into a graph, an executor runs the graph in boxes, and everything that settles is journaled so that a
  run can be resumed.

  The development follows the program's packages. Each theory opens with what it models; definitions
  carry the source's names, in the order of the source, and the theories \<open>...Inv\<close> hold invariants,
  \<open>...Props\<close> the properties.

  \<^bold>\<open>The frontend, package config.\<close>

  \<^item> \<open>ConfigModel\<close> (\<open>types.go\<close>): the struct tree of the YAML document. \<open>Assembly\<close>, \<open>AssemblyInv\<close>,
    \<open>AssemblyProps\<close> (\<open>load.go\<close>): the root file and its includes, path rebasing, the union of the
    libraries. The file system (reading, decoding, symbolic links) is a parameter; the walk takes a
    fuel, and as much as there are readable files is proved enough.
  \<^item> \<open>Validate\<close>, \<open>ValidateInv\<close>, \<open>ValidateProps\<close> (\<open>validate.go\<close>): every schema check, in the order
    the code collects violations, and what a configuration without violations satisfies.
  \<^item> \<open>TemplateRes\<close> (\<open>ir.go\<close>, \<open>desugar.go\<close>): what a template resolves to. \<open>CelRefs\<close>
    (\<open>celref.go\<close>): the rewriting of step references in conditions. \<open>Refs\<close> (\<open>refs.go\<close>): the
    interpolation grammar.
  \<^item> \<open>Desugar\<close>, \<open>Unroll\<close>, \<open>RefCycles\<close>, \<open>Desugaring\<close> (\<open>desugar.go\<close>): levels, conditions, bindings,
    loop unrolling, selectors, inlining, the reference-cycle check, the canonical order. The inlining
    of workflows takes a fuel; for an entry the cycle check accepts the number of declared workflows is
    proved enough (\<open>ConfigProps.inlining_ends\<close>). \<open>DesugarInv\<close>, \<open>LoopGates\<close>, \<open>ConfigProps\<close>:
    emitted graphs are closed, later iterations are gated, the cycle check is exact.
  \<^item> \<open>IRModel\<close> (\<open>ir.go\<close>): the graph. \<open>Wiring\<close>, \<open>CondCheck\<close>, \<open>Kahn\<close>, \<open>WiringInv\<close>,
    \<open>WiringProps\<close> (\<open>wiring.go\<close>, \<open>condcheck.go\<close>): the checks of an emitted graph and what a graph
    they accept satisfies; the CEL compiler is a parameter, its syntax tree a datatype with the node
    kinds the walk tells apart. \<open>Params\<close> (\<open>params.go\<close>): run parameters.

  \<^bold>\<open>The executor, package pipeline.\<close>

  \<^item> \<open>GoValues\<close>, \<open>Json\<close>: the values of \<open>any\<close>, the JSON reader and writer the code relies on.
    \<open>Dataflow\<close> (\<open>values.go\<close>, \<open>cond.go\<close>): bindings, data edges, conditions.
  \<^item> \<open>ExecGraph\<close>, \<open>GraphInv\<close>, \<open>GraphSplice\<close> (\<open>graph.go\<close>): node state, adjacency, splicing and its
    rollback. \<open>Expansion\<close>, \<open>ExpandInv\<close> (\<open>generate.go\<close>): the item contract, the cycle check of
    items, the renamed copies of the target graph.
  \<^item> \<open>Dispatch\<close>, \<open>Settling\<close>, \<open>RunLoop\<close>, \<open>Execution\<close> (\<open>scheduler.go\<close>, \<open>executor.go\<close>): the
    scheduler's goroutine. The state is a record of the graph, queues, pools, slots, journal and
    events; a step of the loop (\<open>sched_step\<close>) takes one event a worker or a timer may send. The worker
    of a box attempt is abstracted to the events it may send, the boxes to their results. The recursion
    of skipping takes a fuel that \<open>SpliceProps.skip_follows_its_recursion\<close> shows is never used up.
  \<^item> \<open>Rollup\<close>, \<open>Report\<close>, \<open>ReportProps\<close> (\<open>rollup.go\<close>, \<open>report.go\<close>): the report derived from a replayed
    journal and the graph, unrolled loops folded back into iterations, lines in dependency order.
  \<^item> \<open>StateInv\<close>, \<open>DispatchInv\<close>, \<open>SettleInv\<close>, \<open>RunInv\<close>, \<open>ReachInv\<close>, \<open>LoopPath\<close>,
    \<open>Finality\<close>, \<open>Liveness\<close>, \<open>Verdicts\<close>: the invariants of reachable states. \<open>RunProps\<close>,
    \<open>SpliceProps\<close>: dependencies settle first, bounded concurrency, one record per settled node, no
    deadlock, the refinement of an abstract run. \<open>FrontendRun\<close>: the run of a desugared graph;
    \<open>SampleRun\<close>, \<open>ConfigSample\<close>: the instances the properties are applied to.

  \<^bold>\<open>Failure handling, package failure.\<close>

  \<^item> \<open>StepResult\<close> (\<open>result.go\<close>), \<open>Policy\<close> (\<open>policy.go\<close>), \<open>Hashing\<close> (\<open>hash.go\<close>): the record of a
    step, the attempt loop with its cleanup hook, the reuse key.
  \<^item> \<open>JournalRecords\<close>, \<open>Replay\<close>, \<open>ReplayInv\<close> (\<open>journal.go\<close>): the records, the byte file, the repair of
    a torn tail and the replay. \<open>Recovery\<close>, \<open>RecoveryInv\<close>, \<open>RecoveryProps\<close> (\<open>store.go\<close>,
    \<open>lock.go\<close>, \<open>pause.go\<close>, \<open>runs.go\<close>, \<open>recover.go\<close>): the run store as a state machine of
    processes that begin, resume, append to, pause and prune runs and may die at any byte of a write.
    The JSON codec of the record structs is a parameter with the law that a line it writes is read
    back (\<open>codec_ok\<close>).

  \<^bold>\<open>Metering, package metering.\<close> \<open>MeterTiers\<close> (\<open>tiers.go\<close>, \<open>meter.go\<close>), \<open>Admitter\<close>
  (\<open>admit.go\<close>), \<open>DeferFloor\<close> (\<open>defer.go\<close>): what a step claims, the budget ledger and its admissions,
  the bounded conversion of rate limits into waits, \<open>MeterConfig\<close> (\<open>config.go\<close>): the checks of the
  metering file and the meters it gives. Amounts are 64-bit words read signed.

  \<^bold>\<open>The agent, packages agent, agent/contract and agent/box.\<close>

  \<^item> \<open>BoxContract\<close> (\<open>contract/schema.go\<close>, \<open>contract/record.go\<close>, \<open>agent/extract.go\<close>): what output a template
    declares and what satisfies it, the attempt record, its re-validation by the host. \<open>BoxEnv\<close>
    (\<open>box/env.go\<close>, \<open>contract/contract.go\<close>): the environment the box decodes and checks.
  \<^item> \<open>ContainerSpec\<close> (\<open>agent/containerspec.go\<close>, \<open>buildArgs\<close> in \<open>infra/run.go\<close>): the host's side, the
    checks and the assembly of a container. \<open>ContractInv\<close>, \<open>ContractProps\<close>: the box reads what the
    host sent, key by key.
  \<^item> \<open>BoxPhases\<close>, \<open>BoxRun\<close> (\<open>box/box.go\<close>, \<open>hooks.go\<close>, \<open>invoke.go\<close>, \<open>result.go\<close>, \<open>halt.go\<close>): the
    program inside the box. Processes, files, user ids and the clock are a record of operations \<open>os\<close> on a
    world of any type, over which every theorem is quantified. \<open>BoxInv\<close> states in the locales
    \<open>box_invariant\<close> and \<open>box_closed\<close> what a predicate must survive to hold of every run; \<open>BoxTrace\<close> and
    \<open>BoxOutcome\<close> interpret them for an operating system that notes the commands started and the files put
    in place, and \<open>BoxProps\<close> concludes: the box stops at the first failure, leaves at most one record,
    and never shows a command an engine variable other than the host's.

  \<^bold>\<open>Conventions.\<close> A Go map that is ranged over is an association list read with \<open>map_of\<close>; ranges in
  sorted key order are written out where the code sorts, and where it does not the text says so. A
  nil that matters is an option. Strings are byte strings. Errors are the left side of a sum or an
  option. Integers are \<open>int\<close> where they cannot overflow and 64-bit words or written-out wrap-around
  where they can (budgets, the unrolling ceiling). Floats are a mantissa and a binary exponent. Time is
  a count of nanoseconds. \<open>Prelude\<close> holds the lemmas the theories share.

  \<^bold>\<open>Not modelled.\<close> Command-line parsing and process wiring (\<open>config/cli.go\<close>, \<open>cmd_*.go\<close>,
  \<open>cmd/faber\<close>), the docker, nix and process adapters (\<open>infra\<close>), the child processes and
  progress events of the box (\<open>agent/box/runner.go\<close>, \<open>agent/contract/events.go\<close>), key handling and the socket proxy (\<open>security\<close>), box launches,
  file copies and re-entry shells (\<open>pipeline/boxrun.go\<close>, \<open>reentry.go\<close>, \<open>copy.go\<close>), the rendering of
  reports as text (\<open>pipeline/report_text.go\<close>, \<open>progress.go\<close>) and the terminal view (\<open>tui\<close>): they are
  input and output around the parts above. The YAML decoding methods, the canonical JSON of the graph
  and its SHA-256 are not modelled either; where the model needs their results they are parameters.
\<close>

end
